(* ===== verification/Prelude.thy ===== *)
theory Prelude
  imports Main "HOL-Library.Signed_Division"
begin

text \<open>
  What every component of the development shares: the error values a TypeScript \<open>throw\<close> becomes,
  the result type \<open>js_error + 'a\<close> with its sequencing operators, the arithmetic of JavaScript's
  \<open>bigint\<close> (\<open>%\<close> truncates towards zero), and generic facts on lists and maps.

  An \<open>async\<close> function is modelled by the value its promise settles to: \<open>Inl e\<close> when it rejects,
  \<open>Inr x\<close> when it resolves.  Where the source serialises operations on shared state (the
  promise-chain locks), one operation is one step of the model.
\<close>

section \<open>Errors and results\<close>

text \<open>
  The error classes of the source.  The argument of a class with a \<open>reason\<close> field is that reason;
  the argument of a plain \<open>Error\<close> is the constant part of its message.
\<close>

datatype js_error =
    Error string
  | ComplianceKeyError string
  | PlanError string
  | AssemblyError string
  | SelfMintPreflightError string
  | SelfMintAuthorizationError string
  | WitnessSourceError string
  | SequenceConflictError
  | LogTruncationError
  | EventDecodeError string
  | ProofError string
  | LibraryError string

type_synonym 'a result = "js_error + 'a"

type_synonym byte = nat

text \<open>Sequencing: an exception skips the rest.\<close>

fun bindR :: "('e + 'a) \<Rightarrow> ('a \<Rightarrow> 'e + 'b) \<Rightarrow> 'e + 'b" where
  "bindR (Inl e) f = Inl e"
| "bindR (Inr x) f = f x"

text \<open>\<open>if (c) throw e;\<close> as a step of its own.\<close>

definition guardR :: "bool \<Rightarrow> 'e \<Rightarrow> 'e + unit" where
  "guardR c e = (if c then Inr () else Inl e)"

text \<open>A \<open>for\<close> loop with an accumulator whose body may throw, and a \<open>map\<close> whose function may.\<close>

fun foldR :: "('s \<Rightarrow> 'a \<Rightarrow> 'e + 's) \<Rightarrow> 's \<Rightarrow> 'a list \<Rightarrow> 'e + 's" where
  "foldR f s [] = Inr s"
| "foldR f s (x # xs) = bindR (f s x) (\<lambda>s'. foldR f s' xs)"

fun mapR :: "('a \<Rightarrow> 'e + 'b) \<Rightarrow> 'a list \<Rightarrow> 'e + 'b list" where
  "mapR f [] = Inr []"
| "mapR f (x # xs) = bindR (f x) (\<lambda>y. bindR (mapR f xs) (\<lambda>ys. Inr (y # ys)))"

fun isOk :: "'e + 'a \<Rightarrow> bool" where
  "isOk (Inl e) = False"
| "isOk (Inr x) = True"

text \<open>\<open>x ?? d\<close> on a looked-up value.\<close>

fun orElse :: "'a option \<Rightarrow> 'a \<Rightarrow> 'a" where
  "orElse None d = d"
| "orElse (Some x) d = x"

text \<open>\<open>Map.get\<close> followed by a throw on \<open>undefined\<close>.\<close>

definition getOr :: "'e \<Rightarrow> 'a option \<Rightarrow> 'e + 'a" where
  "getOr e ox = (case ox of None \<Rightarrow> Inl e | Some x \<Rightarrow> Inr x)"

section \<open>JavaScript arithmetic\<close>

text \<open>
  \<open>a % b\<close> on \<open>bigint\<close> is the remainder of the division that truncates towards zero, which is
  \<open>smod\<close>; the source normalises it to a residue with \<open>((x % m) + m) % m\<close>.
\<close>

definition posMod :: "int \<Rightarrow> int \<Rightarrow> int" where
  "posMod x m = ((x smod m) + m) smod m"

text \<open>Big-endian accumulation \<open>acc = (acc << 8n) | BigInt(b)\<close> over a byte string.\<close>

definition bytesBE :: "byte list \<Rightarrow> int" where
  "bytesBE bs = fold (\<lambda>b acc. acc * 256 + int b) bs 0"

fun toBytesBE :: "nat \<Rightarrow> int \<Rightarrow> byte list" where
  "toBytesBE 0 v = []"
| "toBytesBE (Suc n) v = toBytesBE n (v div 256) @ [nat (v mod 256)]"

definition bytesLE :: "byte list \<Rightarrow> int" where
  "bytesLE bs = bytesBE (rev bs)"

definition toBytesLE :: "nat \<Rightarrow> int \<Rightarrow> byte list" where
  "toBytesLE n v = rev (toBytesBE n v)"

definition isByte :: "byte \<Rightarrow> bool" where
  "isByte b \<longleftrightarrow> b < 256"

section \<open>Collections of facts\<close>

named_theorems result_simps \<open>unfolding of the result combinators\<close>
named_theorems curve_simps \<open>normal forms in the prime-order group\<close>

section \<open>Results: elimination and introduction\<close>

lemma bindR_eq_Inr [simp]: "bindR m f = Inr y \<longleftrightarrow> (\<exists>x. m = Inr x \<and> f x = Inr y)"
  by (cases m) auto

lemma bindR_eq_Inl: "bindR m f = Inl e \<longleftrightarrow> m = Inl e \<or> (\<exists>x. m = Inr x \<and> f x = Inl e)"
  by (cases m) auto

lemma bindR_assoc: "bindR (bindR m f) g = bindR m (\<lambda>x. bindR (f x) g)"
  by (cases m) auto

lemma guardR_eq_Inr [simp]: "guardR c e = Inr u \<longleftrightarrow> c"
  by (auto simp: guardR_def)

lemma guardR_eq_Inl [simp]: "guardR c e = Inl e' \<longleftrightarrow> \<not> c \<and> e' = e"
  by (auto simp: guardR_def)

lemma guardR_simps [simp]: "guardR True e = Inr ()" "guardR False e = Inl e"
  by (simp_all add: guardR_def)

lemma getOr_simps [simp]: "getOr e None = Inl e" "getOr e (Some x) = Inr x"
  by (simp_all add: getOr_def)

lemma getOr_eq_Inr [simp]: "getOr e ox = Inr x \<longleftrightarrow> ox = Some x"
  by (cases ox) auto

lemma getOr_eq_Inl [simp]: "getOr e ox = Inl e' \<longleftrightarrow> ox = None \<and> e' = e"
  by (cases ox) auto

lemma foldR_append: "foldR f s (xs @ ys) = bindR (foldR f s xs) (\<lambda>s'. foldR f s' ys)"
  by (induction xs arbitrary: s) (simp_all add: bindR_assoc)

lemma foldR_pure: "foldR (\<lambda>s x. Inr (f x s)) s xs = Inr (fold f xs s)"
  by (induction xs arbitrary: s) simp_all

lemma mapR_pure: "mapR (\<lambda>x. Inr (f x)) xs = Inr (map f xs)"
  by (induction xs) simp_all

lemma mapR_cong_Inr: "(\<And>x. x \<in> set xs \<Longrightarrow> f x = Inr (g x)) \<Longrightarrow> mapR f xs = Inr (map g xs)"
  by (induction xs) simp_all

lemma mapR_eq_Inr: "mapR f xs = Inr ys \<longleftrightarrow> list_all2 (\<lambda>x y. f x = Inr y) xs ys"
  by (induction xs arbitrary: ys) (auto simp: list_all2_Cons1)

lemma mapR_length: "mapR f xs = Inr ys \<Longrightarrow> length ys = length xs"
  by (simp add: mapR_eq_Inr list_all2_lengthD)

text \<open>The loop rule: an invariant kept by every iteration that does not throw holds of the result.\<close>

lemma foldR_invariant:
  assumes "foldR f s xs = Inr s'" and "P s"
    and "\<And>t x t'. P t \<Longrightarrow> x \<in> set xs \<Longrightarrow> f t x = Inr t' \<Longrightarrow> P t'"
  shows "P s'"
  using assms
proof (induction xs arbitrary: s)
  case (Cons x xs)
  from Cons.prems(1) obtain t where t: "f s x = Inr t" "foldR f t xs = Inr s'" by auto
  have "P t" using Cons.prems(3) [OF Cons.prems(2) _ t(1)] by simp
  with t(2) show ?case
  proof (rule Cons.IH)
    fix u y u'
    assume "P u" "y \<in> set xs" "f u y = Inr u'"
    then show "P u'" using Cons.prems(3) [of u y u'] by simp
  qed
qed simp

lemma foldR_cong:
  "(\<And>t x. x \<in> set xs \<Longrightarrow> f t x = g t x) \<Longrightarrow> foldR f s xs = foldR g s xs"
proof (induction xs arbitrary: s)
  case (Cons x xs)
  then have "\<And>s'. foldR f s' xs = foldR g s' xs" by simp
  with Cons.prems show ?case by simp
qed simp

section \<open>Arithmetic\<close>

lemma posMod_eq_mod: "0 < m \<Longrightarrow> posMod x m = x mod m"
proof -
  assume m: "0 < m"
  have nn: "0 \<le> y \<Longrightarrow> y smod m = y mod m" for y
    using m by (cases "y = 0") (auto simp: signed_modulo_int_def sgn_if)
  show ?thesis
  proof (cases "0 \<le> x")
    case True
    then show ?thesis using m by (simp add: posMod_def nn)
  next
    case False
    then have s: "x smod m = - ((- x) mod m)"
      using m by (simp add: signed_modulo_int_def)
    have "0 \<le> x smod m + m"
      using m s pos_mod_bound [of m "- x"] by linarith
    then have "posMod x m = (x smod m + m) mod m"
      using m by (simp add: posMod_def nn)
    also have "\<dots> = (- ((- x) mod m)) mod m" by (simp add: s)
    also have "\<dots> = x mod m" by (simp add: mod_minus_eq)
    finally show ?thesis .
  qed
qed

lemma smod_nonneg: "0 \<le> x \<Longrightarrow> 0 < m \<Longrightarrow> x smod m = x mod (m::int)"
  by (cases "x = 0") (auto simp: signed_modulo_int_def sgn_if)

lemma smod_range: "0 \<le> x \<Longrightarrow> 0 < m \<Longrightarrow> 0 \<le> x smod m \<and> x smod m < (m::int)"
  by (simp add: smod_nonneg)

lemma bytesBE_snoc: "bytesBE (bs @ [b]) = bytesBE bs * 256 + int b"
  by (simp add: bytesBE_def)

lemma bytesBE_Nil [simp]: "bytesBE [] = 0"
  by (simp add: bytesBE_def)

lemma bytesBE_nonneg: "0 \<le> bytesBE bs"
  by (induction bs rule: rev_induct) (simp_all add: bytesBE_snoc)

lemma bytesBE_bound: "list_all isByte bs \<Longrightarrow> bytesBE bs < 256 ^ length bs"
proof (induction bs rule: rev_induct)
  case (snoc b bs)
  then have "bytesBE bs + 1 \<le> 256 ^ length bs" and "int b < 256"
    by (simp_all add: isByte_def)
  then show ?case by (simp add: bytesBE_snoc)
qed simp

lemma toBytesBE_length [simp]: "length (toBytesBE n v) = n"
  by (induction n arbitrary: v) simp_all

lemma toBytesLE_length [simp]: "length (toBytesLE n v) = n"
  by (simp add: toBytesLE_def)

lemma toBytesBE_bytes: "list_all isByte (toBytesBE n v)"
proof (induction n arbitrary: v)
  case (Suc n)
  have "nat (v mod 256) < 256" by auto
  with Suc.IH show ?case by (simp add: isByte_def)
qed simp

lemma bytesBE_toBytesBE: "bytesBE (toBytesBE n v) = v mod 256 ^ n"
proof (induction n arbitrary: v)
  case (Suc n)
  have "bytesBE (toBytesBE (Suc n) v) = (v div 256 mod 256 ^ n) * 256 + v mod 256"
    by (simp add: bytesBE_snoc Suc.IH)
  also have "\<dots> = v mod (256 * 256 ^ n)"
    by (simp add: zmod_zmult2_eq mult.commute add.commute)
  finally show ?case by simp
qed simp

lemma toBytesBE_bytesBE: "list_all isByte bs \<Longrightarrow> toBytesBE (length bs) (bytesBE bs) = bs"
proof (induction bs rule: rev_induct)
  case (snoc b bs)
  then have b: "int b < 256" by (simp add: isByte_def)
  from snoc.prems have bs: "list_all isByte bs" by simp
  have "(bytesBE bs * 256 + int b) div 256 = bytesBE bs"
    and "(bytesBE bs * 256 + int b) mod 256 = int b"
    using b by simp_all
  with snoc.IH [OF bs] show ?case by (simp add: bytesBE_snoc)
qed simp

lemma bytesLE_toBytesLE: "bytesLE (toBytesLE n v) = v mod 256 ^ n"
  by (simp add: bytesLE_def toBytesLE_def bytesBE_toBytesBE)

end
