(* ===== verification/ModArith.thy ===== *)
theory ModArith
  imports Prelude
begin

text \<open>
  Arithmetic modulo a prime, the mathematics the threshold cryptography of the SDK rests on:
  Fermat's little theorem (inverses by exponentiation), square-and-multiply, Bezout's identity for
  the extended Euclidean loop, polynomials as coefficient lists, and Lagrange interpolation at zero
  for any set of distinct nonzero residues.  Nothing here is about the program itself.
\<close>

section \<open>Definitions\<close>

definition is_prime :: "int \<Rightarrow> bool" where
  "is_prime q \<longleftrightarrow> 1 < q \<and> (\<forall>d \<in> {2..<q}. \<not> d dvd q)"

text \<open>A polynomial by its coefficients, constant term first.\<close>

fun horner :: "int list \<Rightarrow> int \<Rightarrow> int" where
  "horner [] x = 0"
| "horner (a # as) x = a + x * horner as x"

text \<open>Numerator and denominator of the Lagrange basis polynomial of \<open>i\<close> at zero.\<close>

definition lnum :: "int set \<Rightarrow> int \<Rightarrow> int" where
  "lnum S i = (\<Prod>j\<in>S - {i}. j)"

definition lden :: "int set \<Rightarrow> int \<Rightarrow> int" where
  "lden S i = (\<Prod>j\<in>S - {i}. j - i)"

definition lag :: "int \<Rightarrow> int set \<Rightarrow> int \<Rightarrow> int" where
  "lag q S i = lnum S i * lden S i ^ nat (q - 2)"

section \<open>Primes\<close>

lemma is_prime_gt_1: "is_prime q \<Longrightarrow> 1 < q"
  by (simp add: is_prime_def)

lemma is_prime_coprime:
  assumes "is_prime q" and "\<not> q dvd a"
  shows "coprime q a"
proof -
  have q: "1 < q" using assms(1) by (rule is_prime_gt_1)
  have g: "gcd q a dvd q" "gcd q a dvd a" by simp_all
  have pos: "0 < gcd q a" using q by simp
  have le: "gcd q a \<le> q" using g(1) q by (simp add: zdvd_imp_le)
  have "gcd q a = 1"
  proof (rule ccontr)
    assume "gcd q a \<noteq> 1"
    with pos have "2 \<le> gcd q a" by linarith
    moreover have "gcd q a \<noteq> q" using g(2) assms(2) by metis
    ultimately have "gcd q a \<in> {2..<q}" using le by simp
    with g(1) assms(1) show False by (auto simp: is_prime_def)
  qed
  then show ?thesis by (simp add: coprime_iff_gcd_eq_1)
qed

lemma is_prime_dvd_mult:
  assumes "is_prime q"
  shows "q dvd a * b \<longleftrightarrow> q dvd a \<or> q dvd b"
proof
  assume "q dvd a * b"
  then show "q dvd a \<or> q dvd b"
    using is_prime_coprime [OF assms] coprime_dvd_mult_right_iff by blast
qed auto

lemma is_prime_dvd_power: "is_prime q \<Longrightarrow> q dvd a ^ n \<Longrightarrow> q dvd a"
proof (induction n)
  case 0
  then show ?case using is_prime_gt_1 [of q] by auto
next
  case (Suc n)
  then show ?case by (auto simp: is_prime_dvd_mult)
qed

lemma is_prime_dvd_prod:
  "finite S \<Longrightarrow> is_prime q \<Longrightarrow> q dvd (\<Prod>x\<in>S. f x) \<Longrightarrow> \<exists>x\<in>S. q dvd (f x :: int)"
proof (induction S rule: finite_induct)
  case empty
  then show ?case using is_prime_gt_1 [of q] by auto
next
  case (insert x S)
  then show ?case by (auto simp: is_prime_dvd_mult)
qed

lemma dvd_cancel_left: "is_prime q \<Longrightarrow> \<not> q dvd c \<Longrightarrow> q dvd c * a - c * b \<Longrightarrow> q dvd a - b"
  by (metis is_prime_dvd_mult right_diff_distrib)

lemma not_dvd_small: "0 < x \<Longrightarrow> x < q \<Longrightarrow> \<not> q dvd (x::int)"
  by (rule zdvd_not_zless)

lemma not_dvd_diff:
  assumes "x \<in> {0..<q}" "y \<in> {0..<q}" "x \<noteq> y"
  shows "\<not> q dvd x - (y::int)"
proof
  assume "q dvd x - y"
  then have "x mod q = y mod q" by (simp add: mod_eq_dvd_iff)
  with assms show False by simp
qed

section \<open>Fermat's little theorem\<close>

lemma mult_mod_bij:
  assumes q: "is_prime q" and a: "\<not> q dvd a"
  shows "bij_betw (\<lambda>x. (a * x) mod q) {1..<q} {1..<q}"
proof -
  have q1: "1 < q" using q by (rule is_prime_gt_1)
  have inj: "inj_on (\<lambda>x. (a * x) mod q) {1..<q}"
  proof (rule inj_onI, rule ccontr)
    fix x y assume x: "x \<in> {1..<q}" and y: "y \<in> {1..<q}"
      and e: "(a * x) mod q = (a * y) mod q" and ne: "x \<noteq> y"
    have "q dvd a * x - a * y" using e by (simp add: mod_eq_dvd_iff)
    then have "q dvd x - y" by (rule dvd_cancel_left [OF q a])
    moreover have "\<not> q dvd x - y" using x y ne by (intro not_dvd_diff) auto
    ultimately show False by simp
  qed
  have "(\<lambda>x. (a * x) mod q) ` {1..<q} \<subseteq> {1..<q}"
  proof (rule image_subsetI)
    fix x assume x: "x \<in> {1..<q}"
    then have "\<not> q dvd a * x" using a not_dvd_small [of x q] by (simp add: is_prime_dvd_mult [OF q])
    then have "(a * x) mod q \<noteq> 0" by (simp add: dvd_eq_mod_eq_0)
    moreover have "0 \<le> (a * x) mod q" "(a * x) mod q < q" using q1 by simp_all
    ultimately show "(a * x) mod q \<in> {1..<q}" by simp
  qed
  then have "(\<lambda>x. (a * x) mod q) ` {1..<q} = {1..<q}"
    by (intro card_subset_eq) (simp_all add: card_image inj)
  with inj show ?thesis by (simp add: bij_betw_def)
qed

lemma prod_mod_cong: "finite S \<Longrightarrow> (\<Prod>x\<in>S. f x mod q) mod q = (\<Prod>x\<in>S. f x) mod (q::int)"
proof (induction S rule: finite_induct)
  case (insert x S)
  then show ?case by simp (metis mod_mult_eq mod_mod_trivial)
qed simp

lemma sum_mod_cong:
  "(\<And>x. x \<in> S \<Longrightarrow> f x mod q = g x mod q) \<Longrightarrow> (\<Sum>x\<in>S. f x) mod q = (\<Sum>x\<in>S. g x) mod (q::int)"
  by (metis (mono_tags, lifting) mod_sum_eq sum.cong)

theorem fermat_little:
  assumes q: "is_prime q" and a: "\<not> q dvd a"
  shows "q dvd a ^ nat (q - 1) - 1"
proof -
  let ?P = "\<Prod>{1..<q}"
  have card: "card {1..<q} = nat (q - 1)" by simp
  have "?P mod q = (\<Prod>x\<in>{1..<q}. (a * x) mod q) mod q"
    using prod.reindex_bij_betw [OF mult_mod_bij [OF q a], of "\<lambda>x. x"] by simp
  also have "\<dots> = (\<Prod>x\<in>{1..<q}. a * x) mod q" by (rule prod_mod_cong) simp
  also have "(\<Prod>x\<in>{1..<q}. a * x) = a ^ nat (q - 1) * ?P"
    by (simp add: prod.distrib card)
  finally have "q dvd ?P * a ^ nat (q - 1) - ?P * 1"
    by (metis mod_eq_dvd_iff mult.commute mult.right_neutral)
  moreover have "\<not> q dvd ?P"
    using is_prime_dvd_prod [OF _ q, of "{1..<q}" "\<lambda>x. x"] not_dvd_small by fastforce
  ultimately show ?thesis using dvd_cancel_left [OF q] by blast
qed

lemma fermat_inverse:
  assumes q: "is_prime q" and a: "\<not> q dvd a"
  shows "q dvd a * a ^ nat (q - 2) - 1"
proof -
  have "nat (q - 1) = Suc (nat (q - 2))" using is_prime_gt_1 [OF q] by linarith
  then show ?thesis using fermat_little [OF q a] by simp
qed

section \<open>Polynomials\<close>

lemma horner_mod_cong: "x mod q = y mod q \<Longrightarrow> horner cs x mod q = horner cs y mod (q::int)"
proof (induction cs)
  case (Cons a cs)
  then have "(x * horner cs x) mod q = (y * horner cs y) mod q" by (intro mod_mult_cong) auto
  then show ?case by (simp only: horner.simps) (rule mod_add_cong [OF refl])
qed simp

lemma horner_zero: "horner cs 0 = (case cs of [] \<Rightarrow> 0 | a # _ \<Rightarrow> a)"
  by (cases cs) simp_all

text \<open>Synthetic division by \<open>X - c\<close>.\<close>

lemma horner_divide:
  "\<exists>ds. length ds = length cs - 1 \<and> (\<forall>x. horner cs x = horner cs c + (x - c) * horner ds x)"
proof (induction cs)
  case (Cons a bs)
  then obtain es where len: "length es = length bs - 1"
    and es: "\<And>x. horner bs x = horner bs c + (x - c) * horner es x" by auto
  show ?case
  proof (cases bs)
    case Nil
    then show ?thesis by (intro exI [of _ "[]"]) simp
  next
    case (Cons b bs')
    have "horner (a # bs) x = horner (a # bs) c + (x - c) * horner (horner bs c # es) x" for x
    proof -
      have "horner (a # bs) x = a + x * (horner bs c + (x - c) * horner es x)"
        by (simp only: horner.simps es [of x])
      also have "\<dots> = horner (a # bs) c + (x - c) * horner (horner bs c # es) x"
        by (simp add: algebra_simps)
      finally show ?thesis .
    qed
    moreover have "length (horner bs c # es) = length (a # bs) - 1" using len Cons by simp
    ultimately show ?thesis by blast
  qed
qed simp

section \<open>Lagrange interpolation at zero\<close>

lemma lden_not_dvd:
  assumes "is_prime q" "finite S" "S \<subseteq> {1..<q}" "i \<in> S"
  shows "\<not> q dvd lden S i"
proof
  assume "q dvd lden S i"
  then obtain j where "j \<in> S - {i}" "q dvd j - i"
    using is_prime_dvd_prod [OF _ assms(1), of "S - {i}" "\<lambda>j. j - i"] assms(2)
    by (auto simp: lden_def)
  moreover have "j \<in> {0..<q}" "i \<in> {0..<q}"
    using assms(3,4) \<open>j \<in> S - {i}\<close> by auto
  ultimately show False using not_dvd_diff [of j q i] by auto
qed

lemma lag_spec:
  assumes "is_prime q" "finite S" "S \<subseteq> {1..<q}" "i \<in> S"
  shows "q dvd lag q S i * lden S i - lnum S i"
proof -
  have "q dvd lden S i * lden S i ^ nat (q - 2) - 1"
    by (rule fermat_inverse [OF assms(1) lden_not_dvd [OF assms]])
  then have "q dvd lnum S i * (lden S i * lden S i ^ nat (q - 2) - 1)" by simp
  then show ?thesis by (simp add: lag_def algebra_simps)
qed

lemma lag_unique:
  assumes "is_prime q" "finite S" "S \<subseteq> {1..<q}" "i \<in> S"
    and "q dvd l * lden S i - lnum S i"
  shows "q dvd l - lag q S i"
proof -
  have "q dvd (l * lden S i - lnum S i) - (lag q S i * lden S i - lnum S i)"
    using assms(5) lag_spec [OF assms(1-4)] by (rule dvd_diff)
  then have "q dvd lden S i * l - lden S i * lag q S i" by (simp add: algebra_simps)
  then show ?thesis by (rule dvd_cancel_left [OF assms(1) lden_not_dvd [OF assms(1-4)]])
qed

lemma lag_remove:
  assumes q: "is_prime q" and S: "finite S" "S \<subseteq> {1..<q}" and i: "i \<in> S" and c: "c \<in> S" "c \<noteq> i"
  shows "q dvd lag q S i * (c - i) - lag q (S - {c}) i * c"
proof -
  let ?T = "S - {c}"
  have T: "finite ?T" "?T \<subseteq> {1..<q}" "i \<in> ?T" using S i c by auto
  have eq: "S - {i} = insert c (?T - {i})" using c by auto
  have den: "lden S i = (c - i) * lden ?T i" and num: "lnum S i = c * lnum ?T i"
    using S(1) by (simp_all add: lden_def lnum_def eq)
  have "q dvd lag q S i * lden S i - lnum S i" by (rule lag_spec [OF q S i])
  moreover have "q dvd (lag q ?T i * lden ?T i - lnum ?T i) * c"
    using lag_spec [OF q T] by simp
  ultimately have "q dvd (lag q S i * lden S i - lnum S i) - (lag q ?T i * lden ?T i - lnum ?T i) * c"
    by (rule dvd_diff)
  then have "q dvd lden ?T i * (lag q S i * (c - i)) - lden ?T i * (lag q ?T i * c)"
    by (simp add: den num algebra_simps)
  then show ?thesis by (rule dvd_cancel_left [OF q lden_not_dvd [OF q T]])
qed

lemma lag_linear_term:
  assumes q: "is_prime q" and S: "finite S" "S \<subseteq> {1..<q}" and c: "c \<in> S"
  shows "q dvd (\<Sum>i\<in>S. lag q S i * ((i - c) * g i)) + c * (\<Sum>i\<in>S - {c}. lag q (S - {c}) i * g i)"
proof -
  have "(\<Sum>i\<in>S. lag q S i * ((i - c) * g i)) = (\<Sum>i\<in>S - {c}. lag q S i * ((i - c) * g i))"
    using S(1) c by (simp add: sum.remove)
  then have "(\<Sum>i\<in>S. lag q S i * ((i - c) * g i)) + c * (\<Sum>i\<in>S - {c}. lag q (S - {c}) i * g i)
      = (\<Sum>i\<in>S - {c}. - ((lag q S i * (c - i) - lag q (S - {c}) i * c) * g i))"
    by (simp add: sum_distrib_left sum.distrib [symmetric] algebra_simps)
  moreover have "q dvd (\<Sum>i\<in>S - {c}. - ((lag q S i * (c - i) - lag q (S - {c}) i * c) * g i))"
    using lag_remove [OF q S] c by (intro dvd_sum) (auto simp: dvd_minus_iff)
  ultimately show ?thesis by simp
qed

lemma lag_sum_one:
  assumes q: "is_prime q" and "finite S" "S \<subseteq> {1..<q}" "S \<noteq> {}"
  shows "q dvd (\<Sum>i\<in>S. lag q S i) - 1"
  using assms(2-4)
proof (induction "card S" arbitrary: S rule: less_induct)
  case less
  note S = less.prems(1,2)
  obtain c where c: "c \<in> S" using less.prems(3) by auto
  show ?case
  proof (cases "S = {c}")
    case True
    then show ?thesis by (simp add: lag_def lnum_def lden_def)
  next
    case False
    then obtain d where d: "d \<in> S" "d \<noteq> c" using c by auto
    have IH: "q dvd (\<Sum>i\<in>S - {e}. lag q (S - {e}) i) - 1" if "e \<in> S" "S - {e} \<noteq> {}" for e
      using that S by (intro less.hyps card_Diff1_less) auto
    have lin: "q dvd (\<Sum>i\<in>S. lag q S i * (i - e)) + e" if "e \<in> S" "S - {e} \<noteq> {}" for e
    proof -
      have "q dvd (\<Sum>i\<in>S. lag q S i * (i - e)) + e * (\<Sum>i\<in>S - {e}. lag q (S - {e}) i)"
        using lag_linear_term [OF q S that(1), of "\<lambda>_. 1"] by simp
      moreover have "q dvd e * ((\<Sum>i\<in>S - {e}. lag q (S - {e}) i) - 1)" using IH [OF that] by simp
      ultimately have "q dvd ((\<Sum>i\<in>S. lag q S i * (i - e)) + e * (\<Sum>i\<in>S - {e}. lag q (S - {e}) i))
          - e * ((\<Sum>i\<in>S - {e}. lag q (S - {e}) i) - 1)" by (rule dvd_diff)
      then show ?thesis by (simp add: algebra_simps)
    qed
    have "q dvd ((\<Sum>i\<in>S. lag q S i * (i - c)) + c) - ((\<Sum>i\<in>S. lag q S i * (i - d)) + d)"
      using lin [of c] lin [of d] c d by (intro dvd_diff) auto
    also have "(\<Sum>i\<in>S. lag q S i * (i - c)) + c - ((\<Sum>i\<in>S. lag q S i * (i - d)) + d)
        = (d - c) * (\<Sum>i\<in>S. lag q S i) - (d - c) * 1"
      by (simp add: sum_distrib_left sum_subtractf [symmetric] algebra_simps)
    finally have "q dvd (d - c) * (\<Sum>i\<in>S. lag q S i) - (d - c) * 1" .
    moreover have "\<not> q dvd d - c" using c d S(2) by (intro not_dvd_diff) auto
    ultimately show ?thesis using dvd_cancel_left [OF q] by blast
  qed
qed

theorem lagrange_at_zero:
  assumes q: "is_prime q" and "finite S" "S \<subseteq> {1..<q}" and "length cs \<le> card S"
  shows "q dvd (\<Sum>i\<in>S. lag q S i * horner cs i) - horner cs 0"
  using assms(2-4)
proof (induction cs arbitrary: S rule: length_induct)
  case (1 cs)
  note S = "1.prems"(1,2)
  show ?case
  proof (cases "cs = []")
    case False
    then obtain c where c: "c \<in> S" using "1.prems"(3) by (metis card.empty length_0_conv le_zero_eq ex_in_conv)
    obtain ds where len: "length ds = length cs - 1"
      and ds: "\<And>x. horner cs x = horner cs c + (x - c) * horner ds x"
      using horner_divide by blast
    have IH: "q dvd (\<Sum>i\<in>S - {c}. lag q (S - {c}) i * horner ds i) - horner ds 0"
    proof (rule "1.IH" [rule_format])
      show "length ds < length cs" using False len by simp
      show "length ds \<le> card (S - {c})" using len "1.prems"(3) S(1) c by (simp add: card_Diff_singleton)
    qed (use S in auto)
    let ?A = "\<Sum>i\<in>S. lag q S i" and ?B = "\<Sum>i\<in>S - {c}. lag q (S - {c}) i * horner ds i"
    let ?L = "\<Sum>i\<in>S. lag q S i * ((i - c) * horner ds i)"
    have sum: "(\<Sum>i\<in>S. lag q S i * horner cs i) = horner cs c * ?A + ?L"
      by (subst ds) (simp add: distrib_left sum.distrib sum_distrib_left mult.commute)
    have "q dvd horner cs c * (?A - 1)" 
      using lag_sum_one [OF q S] c by (intro dvd_mult) auto
    moreover have "q dvd (?L + c * ?B) - c * (?B - horner ds 0)"
      using lag_linear_term [OF q S c] IH by (intro dvd_diff) (auto intro: dvd_mult)
    ultimately have "q dvd horner cs c * (?A - 1) + ((?L + c * ?B) - c * (?B - horner ds 0))"
      by (rule dvd_add)
    moreover have "(\<Sum>i\<in>S. lag q S i * horner cs i) - horner cs 0
        = horner cs c * (?A - 1) + ((?L + c * ?B) - c * (?B - horner ds 0))"
      using ds [of 0] unfolding sum by (simp add: right_diff_distrib)
    ultimately show ?thesis by simp
  qed simp
qed

end
