(* ===== verification/Libs.thy ===== *)
theory Libs
  imports ModArith
begin

text \<open>
  The third-party code the packages call, as one record \<open>libs\<close> that every operation using it takes
  as its first argument: \<open>@zk-kit/baby-jubjub\<close> (curve arithmetic), \<open>@aztec/foundation\<close> (the field
  class \<open>Fr\<close> and Poseidon2), \<open>circomlibjs\<close> (Poseidon v1), \<open>@noble/hashes\<close> and \<open>@noble/curves\<close>.
  An \<open>Fr\<close> is the integer its \<open>toBigInt()\<close> returns.  What the source relies on is stated by
  \<open>fr_laws\<close> here and by \<open>bjj_laws\<close> in the theory of the curve; \<open>toyLibs\<close> is a concrete library
  that satisfies both and on which the witnesses compute.
\<close>

section \<open>The record of library functions\<close>

type_synonym point = "int \<times> int"

record libs =
  Base8 :: point
  addPoint :: "point \<Rightarrow> point \<Rightarrow> point"
  mulPointEscalar :: "point \<Rightarrow> int \<Rightarrow> point"
  inCurve :: "point \<Rightarrow> bool"
  subOrder :: int
  packPoint :: "point \<Rightarrow> int"
  unpackPoint :: "int \<Rightarrow> point option"
  FrMODULUS :: int
  newFr :: "int \<Rightarrow> int result"
  FrFromBuffer :: "byte list \<Rightarrow> int result"
  FrAdd :: "int \<Rightarrow> int \<Rightarrow> int"
  FrSub :: "int \<Rightarrow> int \<Rightarrow> int"
  poseidon2Hash :: "int list \<Rightarrow> int"
  circomPoseidon :: "int list \<Rightarrow> int"
  sha256 :: "byte list \<Rightarrow> byte list"

text \<open>The moduli, written in the source as literals.\<close>

definition BN254_P :: int where
  "BN254_P = 21888242871839275222246405745257275088548364400416034343698204186575808495617"

definition BJJ_SUBGROUP_ORDER :: int where
  "BJJ_SUBGROUP_ORDER = 2736030358979909402780800718157159386076813972158567259200215660948447373041"

text \<open>
  The documented behaviour of \<open>Fr\<close>: the modulus is the BN254 scalar field, the constructor accepts
  exactly the canonical representatives, \<open>add\<close> and \<open>sub\<close> are modular, hash results are field
  elements, and SHA-256 gives 32 bytes.
\<close>

definition isFr :: "int \<Rightarrow> bool" where
  "isFr x \<longleftrightarrow> 0 \<le> x \<and> x < BN254_P"

definition fr_laws :: "libs \<Rightarrow> bool" where
  "fr_laws L \<longleftrightarrow> FrMODULUS L = BN254_P
    \<and> (\<forall>x. isFr x \<longrightarrow> newFr L x = Inr x)
    \<and> (\<forall>x y. newFr L x = Inr y \<longrightarrow> y = x \<and> isFr x)
    \<and> (\<forall>bs. length bs = 32 \<longrightarrow> FrFromBuffer L bs = newFr L (bytesBE bs))
    \<and> (\<forall>x y. FrAdd L x y = (x + y) mod BN254_P)
    \<and> (\<forall>x y. FrSub L x y = (x - y) mod BN254_P)
    \<and> (\<forall>xs. isFr (poseidon2Hash L xs))
    \<and> (\<forall>xs. isFr (circomPoseidon L xs))
    \<and> (\<forall>bs. length (sha256 L bs) = 32 \<and> list_all isByte (sha256 L bs))"

section \<open>A concrete library\<close>

text \<open>
  The cyclic group of order 13, its element \<open>k\<close> written as the point \<open>(k, 2)\<close> and the identity as
  \<open>(0, 1)\<close>, with small arithmetic hashes.
\<close>

definition toyPoint :: "int \<Rightarrow> point" where
  "toyPoint k = (k mod 13, if k mod 13 = 0 then 1 else 2)"

definition toyHash :: "int list \<Rightarrow> int" where
  "toyHash xs = 1 + fold (\<lambda>x a. (5 * a + x) mod 97) xs 3"

definition toyLibs :: libs where
  "toyLibs = \<lparr>
     Base8 = (1, 2),
     addPoint = (\<lambda>p r. toyPoint (fst p + fst r)),
     mulPointEscalar = (\<lambda>p k. toyPoint (fst p * k)),
     inCurve = (\<lambda>p. p = toyPoint (fst p)),
     subOrder = 13,
     packPoint = (\<lambda>p. fst p),
     unpackPoint = (\<lambda>v. if 0 \<le> v \<and> v < 13 then Some (toyPoint v) else None),
     FrMODULUS = BN254_P,
     newFr = (\<lambda>x. if isFr x then Inr x else Inl (LibraryError ''Fr out of range'')),
     FrFromBuffer = (\<lambda>bs. if isFr (bytesBE bs) then Inr (bytesBE bs)
       else Inl (LibraryError ''Fr out of range'')),
     FrAdd = (\<lambda>x y. (x + y) mod BN254_P),
     FrSub = (\<lambda>x y. (x - y) mod BN254_P),
     poseidon2Hash = toyHash,
     circomPoseidon = toyHash,
     sha256 = (\<lambda>bs. toBytesBE 32 (toyHash (map int bs)))\<rparr>"

section \<open>Facts\<close>

lemma BN254_P_pos [simp]: "0 < BN254_P"
  by (simp add: BN254_P_def)

lemma isFr_mod [simp]: "isFr (x mod BN254_P)"
  by (simp add: isFr_def)

lemma isFr_0 [simp]: "isFr 0"
  by (simp add: isFr_def)

lemma isFr_1 [simp]: "isFr 1"
  by (simp add: isFr_def BN254_P_def)

lemma isFr_small: "0 \<le> x \<Longrightarrow> x < 1000 \<Longrightarrow> isFr x"
  by (simp add: isFr_def BN254_P_def)

lemma isFr_mod_id: "isFr x \<Longrightarrow> x mod BN254_P = x"
  by (simp add: isFr_def)

lemma fr_laws_new [simp]: "fr_laws L \<Longrightarrow> isFr x \<Longrightarrow> newFr L x = Inr x"
  unfolding fr_laws_def by blast

lemma fr_laws_newD: "fr_laws L \<Longrightarrow> newFr L x = Inr y \<Longrightarrow> y = x \<and> isFr x"
  unfolding fr_laws_def by blast

lemma fr_laws_new_iff: "fr_laws L \<Longrightarrow> newFr L x = Inr y \<longleftrightarrow> isFr x \<and> y = x"
  using fr_laws_newD fr_laws_new by blast

lemma fr_laws_buffer: "fr_laws L \<Longrightarrow> length bs = 32 \<Longrightarrow> FrFromBuffer L bs = newFr L (bytesBE bs)"
  unfolding fr_laws_def by blast

lemma fr_laws_hash [simp]: "fr_laws L \<Longrightarrow> isFr (poseidon2Hash L xs)"
  unfolding fr_laws_def by blast

lemma fr_laws_v1 [simp]: "fr_laws L \<Longrightarrow> isFr (circomPoseidon L xs)"
  unfolding fr_laws_def by blast

lemma fr_laws_modulus: "fr_laws L \<Longrightarrow> FrMODULUS L = BN254_P"
  unfolding fr_laws_def by blast

lemma fr_laws_add: "fr_laws L \<Longrightarrow> FrAdd L x y = (x + y) mod BN254_P"
  unfolding fr_laws_def by blast

lemma fr_laws_sub: "fr_laws L \<Longrightarrow> FrSub L x y = (x - y) mod BN254_P"
  unfolding fr_laws_def by blast

lemma fr_laws_sub_add: "fr_laws L \<Longrightarrow> isFr x \<Longrightarrow> FrSub L (FrAdd L x y) y = x"
  by (simp only: fr_laws_add fr_laws_sub mod_diff_left_eq add_diff_cancel_right' isFr_mod_id)

lemma fr_laws_add_isFr [simp]: "fr_laws L \<Longrightarrow> isFr (FrAdd L x y)"
  by (simp add: fr_laws_add)

lemma fr_laws_sub_isFr [simp]: "fr_laws L \<Longrightarrow> isFr (FrSub L x y)"
  by (simp add: fr_laws_sub)

lemma fr_laws_mapR: "fr_laws L \<Longrightarrow> list_all isFr xs \<Longrightarrow> mapR (newFr L) xs = Inr xs"
  by (induction xs) simp_all

lemma toyPoint_eq: "toyPoint a = toyPoint b \<longleftrightarrow> a mod 13 = b mod 13"
  by (auto simp: toyPoint_def)

lemma toyPoint_fst [simp]: "toyPoint (fst (toyPoint a)) = toyPoint a"
  by (simp add: toyPoint_def)

lemma toyHash_fold_range: "0 \<le> a \<Longrightarrow> a < 97 \<Longrightarrow>
    0 \<le> fold (\<lambda>x a. (5 * a + x) mod 97) xs a \<and> fold (\<lambda>x a. (5 * a + x) mod 97) xs a < (97::int)"
  by (induction xs arbitrary: a) simp_all

lemma toyHash_range: "1 \<le> toyHash xs \<and> toyHash xs \<le> 97"
  using toyHash_fold_range [of 3 xs] by (simp add: toyHash_def)

lemma toyHash_isFr [simp]: "isFr (toyHash xs)"
  using toyHash_range [of xs] by (intro isFr_small) auto

lemma toyLibs_fr_laws: "fr_laws toyLibs"
  by (simp add: fr_laws_def toyLibs_def toBytesBE_bytes)

end
