(* ===== verification/Bjj.thy ===== *)
theory Bjj
  imports Libs
begin

text \<open>
  \<open>tss/bjj.ts\<close>: scalars modulo the prime subgroup order, points of the subgroup, the membership
  guards, and wide sampling of a nonzero scalar.  The locale \<open>scalar_group\<close> is the interface the
  threshold protocols rely on (a module over the scalars); it is interpreted on the operations of
  this file under \<open>bjj_laws\<close>, the documented behaviour of \<open>@zk-kit/baby-jubjub\<close>.
\<close>

section \<open>Scalars\<close>

abbreviation SUBORDER :: "libs \<Rightarrow> int" where
  "SUBORDER L \<equiv> subOrder L"

definition IDENTITY :: point where
  "IDENTITY = (0, 1)"

definition modSub :: "libs \<Rightarrow> int \<Rightarrow> int" where
  "modSub L x = posMod x (SUBORDER L)"

text \<open>The square-and-multiply loop of \<open>powSub\<close>: its variables \<open>result\<close>, \<open>b\<close> and \<open>e\<close>.\<close>

function powLoop :: "int \<Rightarrow> int \<Rightarrow> int \<Rightarrow> int \<Rightarrow> int" where
  "powLoop m result b e =
     (if 0 < e
      then powLoop m (if e mod 2 = 1 then (result * b) smod m else result) ((b * b) smod m) (e div 2)
      else result)"
  by pat_completeness auto
termination
  by (relation "measure (\<lambda>(m, r, b, e). nat e)") auto

declare powLoop.simps [simp del]

definition powSub :: "libs \<Rightarrow> int \<Rightarrow> int \<Rightarrow> int" where
  "powSub L base e = powLoop (SUBORDER L) 1 (modSub L base) e"

definition invSub :: "libs \<Rightarrow> int \<Rightarrow> int result" where
  "invSub L x =
     (let r = modSub L x in
      if r = 0 then Inl (Error ''tss: inverse of zero mod SUBORDER'')
      else Inr (powSub L r (SUBORDER L - 2)))"

text \<open>\<open>randScalar\<close> on the 48 bytes the random source gave.\<close>

definition randScalar :: "libs \<Rightarrow> byte list \<Rightarrow> int" where
  "randScalar L bytes = bytesBE bytes smod (SUBORDER L - 1) + 1"

section \<open>Points\<close>

definition scalarMul :: "libs \<Rightarrow> int \<Rightarrow> point \<Rightarrow> point" where
  "scalarMul L k p = mulPointEscalar L p (modSub L k)"

definition scalarBaseMul :: "libs \<Rightarrow> int \<Rightarrow> point" where
  "scalarBaseMul L k = scalarMul L k (Base8 L)"

definition pointAdd :: "libs \<Rightarrow> point \<Rightarrow> point \<Rightarrow> point" where
  "pointAdd L a b = addPoint L a b"

definition modP :: "int \<Rightarrow> int" where
  "modP x = posMod x BN254_P"

definition pointNeg :: "point \<Rightarrow> point" where
  "pointNeg p = (modP (- fst p), snd p)"

definition pointEq :: "point \<Rightarrow> point \<Rightarrow> bool" where
  "pointEq a b \<longleftrightarrow> fst a = fst b \<and> snd a = snd b"

definition isIdentity :: "point \<Rightarrow> bool" where
  "isIdentity p \<longleftrightarrow> fst p = 0 \<and> snd p = 1"

definition inSubgroup :: "libs \<Rightarrow> point \<Rightarrow> bool" where
  "inSubgroup L p =
     (if \<not> inCurve L p then False
      else let o' = mulPointEscalar L p (SUBORDER L) in fst o' = 0 \<and> snd o' = 1)"

definition inSubgroupNonId :: "libs \<Rightarrow> point \<Rightarrow> bool" where
  "inSubgroupNonId L p \<longleftrightarrow> inSubgroup L p \<and> \<not> isIdentity p"

definition assertInSubgroup :: "libs \<Rightarrow> point \<Rightarrow> unit result" where
  "assertInSubgroup L p =
     (if \<not> inCurve L p then Inl (Error ''tss: point is not on the BabyJubJub curve'')
      else if isIdentity p then Inl (Error ''tss: point is the identity'')
      else if \<not> inSubgroup L p then Inl (Error ''tss: point is not in the prime-order subgroup'')
      else Inr ())"

section \<open>What the curve library promises\<close>

definition bjj_laws :: "libs \<Rightarrow> bool" where
  "bjj_laws L \<longleftrightarrow> is_prime (subOrder L) \<and> subOrder L \<le> BJJ_SUBGROUP_ORDER
    \<and> inSubgroup L (0, 1) \<and> inSubgroup L (Base8 L) \<and> Base8 L \<noteq> (0, 1)
    \<and> (\<forall>P Q. inSubgroup L P \<longrightarrow> inSubgroup L Q \<longrightarrow> inSubgroup L (addPoint L P Q))
    \<and> (\<forall>P Q. inSubgroup L P \<longrightarrow> inSubgroup L Q \<longrightarrow> addPoint L P Q = addPoint L Q P)
    \<and> (\<forall>P Q R. inSubgroup L P \<longrightarrow> inSubgroup L Q \<longrightarrow> inSubgroup L R \<longrightarrow>
         addPoint L (addPoint L P Q) R = addPoint L P (addPoint L Q R))
    \<and> (\<forall>P. inSubgroup L P \<longrightarrow> addPoint L (0, 1) P = P)
    \<and> (\<forall>P. inSubgroup L P \<longrightarrow> mulPointEscalar L P 0 = (0, 1))
    \<and> (\<forall>P k. inSubgroup L P \<longrightarrow> 0 \<le> k \<longrightarrow>
         mulPointEscalar L P (k + 1) = addPoint L P (mulPointEscalar L P k))
    \<and> (\<forall>P. inSubgroup L P \<longrightarrow> isFr (fst P) \<and> isFr (snd P))
    \<and> odd (subOrder L)"

section \<open>The interface of a prime-order group\<close>

locale scalar_group =
  fixes add :: "'p \<Rightarrow> 'p \<Rightarrow> 'p" and ident :: 'p and smul :: "int \<Rightarrow> 'p \<Rightarrow> 'p"
    and q :: int and mem :: "'p \<Rightarrow> bool"
  assumes prime_q: "is_prime q"
    and ident_mem [simp]: "mem ident"
    and add_mem [simp]: "mem P \<Longrightarrow> mem Q \<Longrightarrow> mem (add P Q)"
    and smul_mem [simp]: "mem P \<Longrightarrow> mem (smul a P)"
    and add_comm: "mem P \<Longrightarrow> mem Q \<Longrightarrow> add P Q = add Q P"
    and add_assoc: "mem P \<Longrightarrow> mem Q \<Longrightarrow> mem R \<Longrightarrow> add (add P Q) R = add P (add Q R)"
    and add_ident: "mem P \<Longrightarrow> add ident P = P"
    and smul_0: "mem P \<Longrightarrow> smul 0 P = ident"
    and smul_1: "mem P \<Longrightarrow> smul 1 P = P"
    and smul_add: "mem P \<Longrightarrow> smul (a + b) P = add (smul a P) (smul b P)"
    and smul_mult: "mem P \<Longrightarrow> smul (a * b) P = smul a (smul b P)"
    and smul_cong: "mem P \<Longrightarrow> a mod q = b mod q \<Longrightarrow> smul a P = smul b P"
begin

lemma add_ident_right: "mem P \<Longrightarrow> add P ident = P"
  using add_comm [of P ident] add_ident [of P] by simp

lemma smul_mod: "mem P \<Longrightarrow> smul (a mod q) P = smul a P"
  by (rule smul_cong) simp_all

lemma smul_dvd: "mem P \<Longrightarrow> q dvd a - b \<Longrightarrow> smul a P = smul b P"
  by (rule smul_cong) (simp_all add: mod_eq_dvd_iff)

lemma smul_ident: "smul a ident = ident"
proof -
  have "smul a ident = smul (a * 0) ident" by (simp only: smul_mult [OF ident_mem] smul_0 [OF ident_mem])
  then show ?thesis by (simp add: smul_0)
qed

lemma smul_comm: "mem P \<Longrightarrow> smul a (smul b P) = smul b (smul a P)"
  using smul_mult [of P a b] smul_mult [of P b a] by (simp add: mult.commute)

lemma add_left_comm: "mem P \<Longrightarrow> mem Q \<Longrightarrow> mem R \<Longrightarrow> add P (add Q R) = add Q (add P R)"
  using add_assoc [of P Q R] add_assoc [of Q P R] add_comm [of P Q] by simp

text \<open>Scaling is injective on a nonidentity point: inverses exist because the order is prime.\<close>

lemma smul_inj:
  assumes P: "mem P" "P \<noteq> ident" and eq: "smul a P = smul b P"
  shows "a mod q = b mod q"
proof (rule ccontr)
  let ?d = "a - b"
  assume "a mod q \<noteq> b mod q"
  then have "\<not> q dvd ?d" by (simp add: mod_eq_dvd_iff)
  then have inv: "q dvd ?d * ?d ^ nat (q - 2) - 1" by (rule fermat_inverse [OF prime_q])
  have "smul ?d P = add (smul a P) (smul (- b) P)" using smul_add [OF P(1), of a "- b"] by simp
  also have "\<dots> = smul (b + (- b)) P" using eq by (simp only: smul_add [OF P(1)])
  finally have "smul ?d P = ident" by (simp add: smul_0 P(1))
  moreover have "smul (?d ^ nat (q - 2)) (smul ?d P) = smul 1 P"
    using smul_dvd [OF P(1) inv] by (simp add: smul_mult [OF P(1), symmetric] mult.commute)
  ultimately show False using P by (simp add: smul_ident smul_1)
qed

text \<open>Scaling distributes over the addition of points.\<close>

lemma smul_add_point:
  assumes P: "mem P" and Q: "mem Q"
  shows "smul k (add P Q) = add (smul k P) (smul k Q)"
proof -
  have nat: "smul (int n) (add P Q) = add (smul (int n) P) (smul (int n) Q)" for n
  proof (induction n)
    case 0
    then show ?case using P Q by (simp add: smul_0 add_ident)
  next
    case (Suc n)
    let ?A = "smul (int n) P" and ?B = "smul (int n) Q"
    have A: "mem ?A" and B: "mem ?B" using P Q by simp_all
    have "smul (int (Suc n)) (add P Q) = add (add ?A ?B) (add P Q)"
      using P Q smul_add [of "add P Q" "int n" 1] Suc.IH by (simp add: smul_1 add.commute)
    also have "\<dots> = add (add ?A P) (add ?B Q)"
      using P Q A B by (simp add: add_assoc add_left_comm)
    also have "\<dots> = add (smul (int (Suc n)) P) (smul (int (Suc n)) Q)"
      using P Q smul_add [of P "int n" 1] smul_add [of Q "int n" 1] by (simp add: smul_1 add.commute)
    finally show ?case .
  qed
  have "k mod q = int (nat (k mod q))" using is_prime_gt_1 [OF prime_q] by simp
  then show ?thesis using nat [of "nat (k mod q)"] P Q smul_mod by simp
qed

lemma smul_inj_iff: "mem P \<Longrightarrow> P \<noteq> ident \<Longrightarrow> smul a P = smul b P \<longleftrightarrow> a mod q = b mod q"
  using smul_inj smul_cong by blast

lemma smul_sum_list: "mem P \<Longrightarrow> smul (sum_list xs) P = foldr (\<lambda>x Q. add (smul x P) Q) xs ident"
  by (induction xs) (simp_all add: smul_0 smul_add)

lemma fold_add_mem: "mem Q \<Longrightarrow> (\<And>x. x \<in> set xs \<Longrightarrow> mem (f x)) \<Longrightarrow> mem (fold (\<lambda>x R. add R (f x)) xs Q)"
  by (induction xs arbitrary: Q) simp_all

text \<open>The accumulation loops of the source add multiples of one point.\<close>

lemma fold_add_smul:
  assumes P: "mem P"
  shows "fold (\<lambda>x R. add R (smul (f x) P)) xs (smul a P) = smul (a + (\<Sum>x\<leftarrow>xs. f x)) P"
proof (induction xs arbitrary: a)
  case (Cons x xs)
  have "add (smul a P) (smul (f x) P) = smul (a + f x) P" by (simp add: smul_add P)
  then show ?case by (simp add: Cons.IH add.assoc)
qed simp

lemma fold_add_smul_ident:
  "mem P \<Longrightarrow> fold (\<lambda>x R. add R (smul (f x) P)) xs ident = smul (\<Sum>x\<leftarrow>xs. f x) P"
  using fold_add_smul [of P f xs 0] by (simp add: smul_0)

lemma add_cancel:
  assumes "mem P" "mem Q" "mem R" "add P Q = add P R"
  shows "Q = R"
proof -
  have inv: "add (smul (- 1) P) P = ident"
    using smul_add [of P "- 1" 1] assms(1) by (simp add: smul_0 smul_1)
  have "add (add (smul (- 1) P) P) Q = add (add (smul (- 1) P) P) R"
    using assms by (simp add: add_assoc)
  then show ?thesis using assms by (simp add: inv add_ident)
qed

end

section \<open>Scalar arithmetic is modular\<close>

lemma bjj_laws_prime: "bjj_laws L \<Longrightarrow> is_prime (subOrder L)"
  unfolding bjj_laws_def by blast

lemma bjj_laws_order_pos: "bjj_laws L \<Longrightarrow> 1 < subOrder L"
  by (rule is_prime_gt_1 [OF bjj_laws_prime])

lemma modSub_eq: "0 < subOrder L \<Longrightarrow> modSub L x = x mod subOrder L"
  by (simp add: modSub_def posMod_eq_mod)

lemma modSub_mod [simp]: "bjj_laws L \<Longrightarrow> modSub L x = x mod subOrder L"
  using bjj_laws_order_pos [of L] by (intro modSub_eq) simp

lemma powLoop_step_arith:
  assumes "0 < e"
  shows "((if e mod 2 = 1 then (r * b) mod m else r) * ((b * b) mod m) ^ nat (e div 2)) mod m
    = (r * b ^ nat e) mod (m::int)"
proof -
  have "((if e mod 2 = 1 then (r * b) mod m else r) * ((b * b) mod m) ^ nat (e div 2)) mod m
      = ((if e mod 2 = 1 then r * b else r) * (b * b) ^ nat (e div 2)) mod m"
    by (intro mod_mult_cong) (simp_all add: power_mod)
  also have "(if e mod 2 = 1 then r * b else r) * (b * b) ^ nat (e div 2) = r * b ^ nat e"
  proof (cases "e mod 2 = 1")
    case True
    then have "nat e = Suc (2 * nat (e div 2))"
      using assms mult_div_mod_eq [of 2 e] pos_imp_zdiv_nonneg_iff [of 2 e] by linarith
    with True show ?thesis by (simp add: power_mult power2_eq_square)
  next
    case False
    then have "e mod 2 = 0" by simp
    then have "nat e = 2 * nat (e div 2)"
      using assms mult_div_mod_eq [of 2 e] pos_imp_zdiv_nonneg_iff [of 2 e] by linarith
    with False show ?thesis by (simp add: power_mult power2_eq_square)
  qed
  finally show ?thesis .
qed

lemma powLoop_eq:
  "0 < m \<Longrightarrow> 0 \<le> r \<Longrightarrow> r < m \<Longrightarrow> 0 \<le> b \<Longrightarrow> 0 \<le> e \<Longrightarrow> powLoop m r b e = (r * b ^ nat e) mod m"
proof (induction m r b e rule: powLoop.induct)
  case (1 m r b e)
  show ?case
  proof (cases "0 < e")
    case False
    then show ?thesis using "1.prems" by (simp add: powLoop.simps)
  next
    case True
    have sm: "(b * b) smod m = (b * b) mod m" "(r * b) smod m = (r * b) mod m"
      using "1.prems" by (simp_all add: smod_nonneg)
    have "powLoop m r b e
        = powLoop m (if e mod 2 = 1 then (r * b) smod m else r) ((b * b) smod m) (e div 2)"
      using True by (simp add: powLoop.simps [of m r b e])
    also have "\<dots> = ((if e mod 2 = 1 then (r * b) smod m else r) * ((b * b) smod m) ^ nat (e div 2)) mod m"
      using True "1.prems" by (intro "1.IH") (simp_all add: sm)
    finally show ?thesis using powLoop_step_arith [OF True, of r b m] by (simp only: sm)
  qed
qed

lemma powSub_eq: "bjj_laws L \<Longrightarrow> 0 \<le> e \<Longrightarrow> powSub L base e = base ^ nat e mod subOrder L"
  using bjj_laws_order_pos [of L] by (simp add: powSub_def powLoop_eq power_mod)

lemma invSub_ok:
  "bjj_laws L \<Longrightarrow> x mod subOrder L \<noteq> 0 \<Longrightarrow> invSub L x = Inr (x ^ nat (subOrder L - 2) mod subOrder L)"
  using bjj_laws_order_pos [of L] by (simp add: invSub_def Let_def powSub_eq power_mod)

lemma invSub_zero: "bjj_laws L \<Longrightarrow> x mod subOrder L = 0 \<Longrightarrow>
    invSub L x = Inl (Error ''tss: inverse of zero mod SUBORDER'')"
  by (simp add: invSub_def)

lemma invSub_inverse:
  assumes "bjj_laws L" "x mod subOrder L \<noteq> 0" "invSub L x = Inr y"
  shows "(x * y) mod subOrder L = 1" "0 < y" "y < subOrder L"
proof -
  have p: "is_prime (subOrder L)" and q: "1 < subOrder L"
    using assms(1) bjj_laws_prime bjj_laws_order_pos by auto
  have y: "y = x ^ nat (subOrder L - 2) mod subOrder L" using assms invSub_ok by simp
  have "subOrder L dvd x * x ^ nat (subOrder L - 2) - 1"
    using assms(2) by (intro fermat_inverse [OF p]) (simp add: dvd_eq_mod_eq_0)
  then show m: "(x * y) mod subOrder L = 1"
    using q by (simp add: y mod_mult_right_eq mod_eq_dvd_iff [symmetric])
  show "y < subOrder L" using q by (simp add: y)
  have "y \<noteq> 0" using m by auto
  moreover have "0 \<le> y" using q by (simp add: y)
  ultimately show "0 < y" by simp
qed

section \<open>The points of the subgroup form such a group\<close>

lemma bjj_mem: "inSubgroup L p \<longleftrightarrow> inCurve L p \<and> mulPointEscalar L p (subOrder L) = (0, 1)"
  by (simp add: inSubgroup_def Let_def prod_eq_iff)

lemma toy_ops:
  "subOrder toyLibs = 13" "Base8 toyLibs = (1, 2)"
  "addPoint toyLibs p r = toyPoint (fst p + fst r)"
  "mulPointEscalar toyLibs p k = toyPoint (fst p * k)"
  "inCurve toyLibs p \<longleftrightarrow> p = toyPoint (fst p)"
  by (simp_all add: toyLibs_def)

lemma toy_mem: "inSubgroup toyLibs p \<longleftrightarrow> p = toyPoint (fst p)"
  by (simp add: bjj_mem toy_ops toyPoint_def)

lemma toyPoint_isFr: "isFr (fst (toyPoint k)) \<and> isFr (snd (toyPoint k))"
proof -
  have "k mod 13 < 1000" using pos_mod_bound [of 13 k] by linarith
  then show ?thesis by (simp add: toyPoint_def isFr_small)
qed

lemma toyPoint_add:
  "toyPoint (fst (toyPoint a) + b) = toyPoint (a + b)" "toyPoint (a + fst (toyPoint b)) = toyPoint (a + b)"
  by (simp_all add: toyPoint_def mod_add_left_eq mod_add_right_eq)

lemma is_prime_13: "is_prime 13"
proof -
  have "{2..<13::int} = {2,3,4,5,6,7,8,9,10,11,12}" by (simp only: set_eq_iff insert_iff atLeastLessThan_iff empty_iff) presburger
  then show ?thesis by (simp add: is_prime_def)
qed

lemma toyLibs_bjj_laws: "bjj_laws toyLibs"
  unfolding bjj_laws_def toy_mem
proof (intro conjI allI impI)
  show "is_prime (subOrder toyLibs)" by (simp add: toy_ops is_prime_13)
  show "subOrder toyLibs \<le> BJJ_SUBGROUP_ORDER" by (simp add: toy_ops BJJ_SUBGROUP_ORDER_def)
  show "odd (subOrder toyLibs)" by (simp add: toy_ops)
next
  fix P :: point
  assume P: "P = toyPoint (fst P)"
  show "isFr (fst P)" "isFr (snd P)" using toyPoint_isFr [of "fst P"] P by auto
  show "addPoint toyLibs (0, 1) P = P" using P by (simp add: toy_ops)
  show "mulPointEscalar toyLibs P (k + 1) = addPoint toyLibs P (mulPointEscalar toyLibs P k)" for k
    by (simp add: toy_ops toyPoint_add algebra_simps)
  show "mulPointEscalar toyLibs P 0 = (0, 1)" by (simp add: toy_ops toyPoint_def)
qed (simp_all add: toy_ops toyPoint_add algebra_simps, simp_all add: toyPoint_def)

text \<open>
  The library the interpretation below speaks about: \<open>L\<close> itself when it satisfies the laws.
\<close>

definition lawful :: "libs \<Rightarrow> libs" where
  "lawful L = (if bjj_laws L then L else toyLibs)"

lemma lawful_laws [simp]: "bjj_laws (lawful L)"
  by (simp add: lawful_def toyLibs_bjj_laws)

lemma lawful_id [simp]: "bjj_laws L \<Longrightarrow> lawful L = L"
  by (simp add: lawful_def)

lemma bjj_mem_ident: "bjj_laws L \<Longrightarrow> inSubgroup L (0, 1)"
  by (rule bjj_laws_def [THEN iffD1, THEN conjunct2, THEN conjunct2, THEN conjunct1, rule_format])

lemma bjj_closed: "bjj_laws L \<Longrightarrow> inSubgroup L P \<Longrightarrow> inSubgroup L Q \<Longrightarrow> inSubgroup L (addPoint L P Q)"
  by (rule bjj_laws_def [THEN iffD1, THEN conjunct2, THEN conjunct2, THEN conjunct2, THEN conjunct2, THEN conjunct2, THEN conjunct1, rule_format])

lemma bjj_comm: "bjj_laws L \<Longrightarrow> inSubgroup L P \<Longrightarrow> inSubgroup L Q \<Longrightarrow> addPoint L P Q = addPoint L Q P"
  by (rule bjj_laws_def [THEN iffD1, THEN conjunct2, THEN conjunct2, THEN conjunct2, THEN conjunct2, THEN conjunct2, THEN conjunct2, THEN conjunct1, rule_format])

lemma bjj_assoc: "bjj_laws L \<Longrightarrow> inSubgroup L P \<Longrightarrow> inSubgroup L Q \<Longrightarrow> inSubgroup L R \<Longrightarrow>
    addPoint L (addPoint L P Q) R = addPoint L P (addPoint L Q R)"
  by (rule bjj_laws_def [THEN iffD1, THEN conjunct2, THEN conjunct2, THEN conjunct2, THEN conjunct2, THEN conjunct2, THEN conjunct2, THEN conjunct2, THEN conjunct1, rule_format])

lemma bjj_id: "bjj_laws L \<Longrightarrow> inSubgroup L P \<Longrightarrow> addPoint L (0, 1) P = P"
  by (rule bjj_laws_def [THEN iffD1, THEN conjunct2, THEN conjunct2, THEN conjunct2, THEN conjunct2, THEN conjunct2, THEN conjunct2, THEN conjunct2, THEN conjunct2, THEN conjunct1, rule_format])

lemma bjj_mul_0: "bjj_laws L \<Longrightarrow> inSubgroup L P \<Longrightarrow> mulPointEscalar L P 0 = (0, 1)"
  by (rule bjj_laws_def [THEN iffD1, THEN conjunct2, THEN conjunct2, THEN conjunct2, THEN conjunct2, THEN conjunct2, THEN conjunct2, THEN conjunct2, THEN conjunct2, THEN conjunct2, THEN conjunct1, rule_format])

lemma bjj_mul_Suc: "bjj_laws L \<Longrightarrow> inSubgroup L P \<Longrightarrow> 0 \<le> k \<Longrightarrow>
    mulPointEscalar L P (k + 1) = addPoint L P (mulPointEscalar L P k)"
  by (rule bjj_laws_def [THEN iffD1, THEN conjunct2, THEN conjunct2, THEN conjunct2, THEN conjunct2, THEN conjunct2, THEN conjunct2, THEN conjunct2, THEN conjunct2, THEN conjunct2, THEN conjunct2, THEN conjunct1, rule_format])

lemma bjj_base: "bjj_laws L \<Longrightarrow> inSubgroup L (Base8 L)"
  by (rule bjj_laws_def [THEN iffD1, THEN conjunct2, THEN conjunct2, THEN conjunct2, THEN conjunct1, rule_format])

lemma bjj_base_nonid: "bjj_laws L \<Longrightarrow> Base8 L \<noteq> IDENTITY"
  unfolding IDENTITY_def by (rule bjj_laws_def [THEN iffD1, THEN conjunct2, THEN conjunct2, THEN conjunct2, THEN conjunct2, THEN conjunct1, rule_format])

lemma bjj_coords: "bjj_laws L \<Longrightarrow> inSubgroup L P \<Longrightarrow> isFr (fst P) \<and> isFr (snd P)"
  by (rule bjj_laws_def [THEN iffD1, THEN conjunct2, THEN conjunct2, THEN conjunct2, THEN conjunct2, THEN conjunct2, THEN conjunct2, THEN conjunct2, THEN conjunct2, THEN conjunct2, THEN conjunct2, THEN conjunct2, THEN conjunct1, rule_format])

lemma bjj_odd: "bjj_laws L \<Longrightarrow> odd (subOrder L)"
  unfolding bjj_laws_def by blast

lemma bjj_mul_nat:
  assumes "bjj_laws L" "inSubgroup L P"
  shows "inSubgroup L (mulPointEscalar L P (int n))"
    and "mulPointEscalar L P (int (m + n)) = addPoint L (mulPointEscalar L P (int m)) (mulPointEscalar L P (int n))"
proof -
  have step: "mulPointEscalar L P (int (Suc k)) = addPoint L P (mulPointEscalar L P (int k))" for k
    using bjj_mul_Suc [OF assms, of "int k"] by (simp add: add.commute)
  have mem: "inSubgroup L (mulPointEscalar L P (int k))" for k
    by (induction k) (use assms step in \<open>auto simp: bjj_mul_0 bjj_mem_ident bjj_closed\<close>)
  show "inSubgroup L (mulPointEscalar L P (int n))" by (rule mem)
  show "mulPointEscalar L P (int (m + n)) = addPoint L (mulPointEscalar L P (int m)) (mulPointEscalar L P (int n))"
  proof (induction m)
    case 0
    then show ?case using assms mem by (simp add: bjj_mul_0 bjj_id)
  next
    case (Suc m)
    have "mulPointEscalar L P (int (Suc (m + n))) = addPoint L P (mulPointEscalar L P (int (m + n)))"
      by (rule step)
    then show ?case using assms mem Suc.IH by (simp only: add_Suc step bjj_assoc)
  qed
qed

lemma bjj_mul_mult:
  assumes "bjj_laws L" "inSubgroup L P"
  shows "mulPointEscalar L P (int (m * n)) = mulPointEscalar L (mulPointEscalar L P (int n)) (int m)"
proof (induction m)
  case 0
  then show ?case using assms bjj_mul_nat(1) [OF assms] by (simp add: bjj_mul_0)
next
  case (Suc m)
  let ?Q = "mulPointEscalar L P (int n)"
  have Q: "inSubgroup L ?Q" by (rule bjj_mul_nat(1) [OF assms])
  have "mulPointEscalar L P (int (Suc m * n)) = addPoint L ?Q (mulPointEscalar L P (int (m * n)))"
    using bjj_mul_nat(2) [OF assms, of n "m * n"] by simp
  also have "\<dots> = mulPointEscalar L ?Q (int (Suc m))"
    using bjj_mul_Suc [OF assms(1) Q, of "int m"] Suc.IH by (simp add: add.commute)
  finally show ?case .
qed

text \<open>A multiple of the group order is neutral, so only the residue of a scalar matters.\<close>

lemma bjj_mul_mod:
  assumes L: "bjj_laws L" and P: "inSubgroup L P" and "0 \<le> k"
  shows "mulPointEscalar L P (k mod subOrder L) = mulPointEscalar L P k"
proof -
  let ?q = "subOrder L"
  have q: "0 < ?q" using bjj_laws_order_pos [OF L] by simp
  define m n where "m = nat (k div ?q)" and "n = nat (k mod ?q)"
  have k: "k = int (m * nat ?q + n)" and n: "int n = k mod ?q"
    using assms(3) q by (simp_all add: m_def n_def pos_imp_zdiv_nonneg_iff)
  have "mulPointEscalar L P (int (m * nat ?q)) = mulPointEscalar L (0, 1) (int m)"
    using P q by (simp only: bjj_mul_mult [OF L P]) (simp add: bjj_mem)
  also have "\<dots> = (0, 1)"
  proof (induction m)
    case (Suc m)
    then show ?case using bjj_mul_Suc [OF L bjj_mem_ident [OF L], of "int m"] L
      by (simp add: bjj_id bjj_mem_ident add.commute)
  qed (use L in \<open>simp add: bjj_mul_0 bjj_mem_ident\<close>)
  finally have "mulPointEscalar L P k = addPoint L (0, 1) (mulPointEscalar L P (int n))"
    by (simp only: k bjj_mul_nat(2) [OF L P])
  then show ?thesis using bjj_id [OF L bjj_mul_nat(1) [OF L P], of n] by (simp add: n)
qed

lemma scalarMul_nat: "bjj_laws L \<Longrightarrow> scalarMul L a P = mulPointEscalar L P (int (nat (a mod subOrder L)))"
  using bjj_laws_order_pos [of L] by (simp add: scalarMul_def)

lemma scalarMul_of_nonneg:
  "bjj_laws L \<Longrightarrow> inSubgroup L P \<Longrightarrow> 0 \<le> a \<Longrightarrow> mulPointEscalar L P a = scalarMul L a P"
  by (simp add: scalarMul_def bjj_mul_mod)

interpretation bjj: scalar_group "pointAdd (lawful L)" IDENTITY "scalarMul (lawful L)"
    "subOrder (lawful L)" "inSubgroup (lawful L)" for L
proof (unfold_locales, goal_cases)
  case 1 then show ?case by (rule bjj_laws_prime [OF lawful_laws])
next
  case 2 then show ?case unfolding IDENTITY_def by (rule bjj_mem_ident [OF lawful_laws])
next
  case (3 P Q) then show ?case unfolding pointAdd_def by (rule bjj_closed [OF lawful_laws])
next
  case (4 P a) then show ?case
    unfolding scalarMul_nat [OF lawful_laws] by (rule bjj_mul_nat(1) [OF lawful_laws])
next
  case (5 P Q) then show ?case unfolding pointAdd_def by (rule bjj_comm [OF lawful_laws])
next
  case (6 P Q R) then show ?case unfolding pointAdd_def by (rule bjj_assoc [OF lawful_laws])
next
  case (7 P) then show ?case unfolding pointAdd_def IDENTITY_def by (rule bjj_id [OF lawful_laws])
next
  case (8 P) then show ?case
    by (simp add: scalarMul_def IDENTITY_def bjj_mul_0)
next
  case (9 P) then show ?case
    using bjj_mul_Suc [OF lawful_laws 9, of 0] bjj_laws_order_pos [OF lawful_laws [of L]]
      bjj_comm [OF lawful_laws 9 bjj_mem_ident [OF lawful_laws]] bjj_id [OF lawful_laws 9]
    by (simp add: scalarMul_def bjj_mul_0)
next
  case (10 P a b)
  let ?q = "subOrder (lawful L)"
  have "0 < ?q" using bjj_laws_order_pos [OF lawful_laws [of L]] by simp
  then have e: "int (nat (a mod ?q) + nat (b mod ?q)) = a mod ?q + b mod ?q" by simp
  have "scalarMul (lawful L) (a + b) P = mulPointEscalar (lawful L) P ((a mod ?q + b mod ?q) mod ?q)"
    by (simp add: scalarMul_def mod_add_eq)
  also have "\<dots> = mulPointEscalar (lawful L) P (a mod ?q + b mod ?q)"
    using \<open>0 < ?q\<close> by (intro bjj_mul_mod [OF lawful_laws 10]) simp
  finally show ?case
    using bjj_mul_nat(2) [OF lawful_laws 10, of "nat (a mod ?q)" "nat (b mod ?q)"]
    by (simp only: e scalarMul_nat [OF lawful_laws] pointAdd_def)
next
  case (11 P a b)
  let ?q = "subOrder (lawful L)"
  have "0 < ?q" using bjj_laws_order_pos [OF lawful_laws [of L]] by simp
  then have e: "int (nat (a mod ?q) * nat (b mod ?q)) = (a mod ?q) * (b mod ?q)" by simp
  have "scalarMul (lawful L) (a * b) P = mulPointEscalar (lawful L) P (((a mod ?q) * (b mod ?q)) mod ?q)"
    by (simp add: scalarMul_def mod_mult_eq)
  also have "\<dots> = mulPointEscalar (lawful L) P ((a mod ?q) * (b mod ?q))"
    using \<open>0 < ?q\<close> by (intro bjj_mul_mod [OF lawful_laws 11]) simp
  finally show ?case
    using bjj_mul_mult [OF lawful_laws 11, of "nat (a mod ?q)" "nat (b mod ?q)"]
    by (simp only: e scalarMul_nat [OF lawful_laws])
next
  case (12 P a b) then show ?case by (simp add: scalarMul_def)
qed

section \<open>The group laws under the hypothesis on the library\<close>

lemma bjj_mem_add [simp]: "bjj_laws L \<Longrightarrow> inSubgroup L P \<Longrightarrow> inSubgroup L Q \<Longrightarrow> inSubgroup L (pointAdd L P Q)"
  using bjj.add_mem [of L P Q] by simp

lemma bjj_mem_smul [simp]: "bjj_laws L \<Longrightarrow> inSubgroup L P \<Longrightarrow> inSubgroup L (scalarMul L a P)"
  using bjj.smul_mem [of L P a] by simp

lemma bjj_mem_IDENTITY [simp]: "bjj_laws L \<Longrightarrow> inSubgroup L IDENTITY"
  using bjj.ident_mem [of L] by simp

lemma bjj_mem_base [simp]: "bjj_laws L \<Longrightarrow> inSubgroup L (scalarBaseMul L a)"
  by (simp add: scalarBaseMul_def bjj_base)

lemma bjj_smul_add: "bjj_laws L \<Longrightarrow> inSubgroup L P \<Longrightarrow>
    scalarMul L (a + b) P = pointAdd L (scalarMul L a P) (scalarMul L b P)"
  using bjj.smul_add [of L P a b] by simp

lemma bjj_smul_add_point: "bjj_laws L \<Longrightarrow> inSubgroup L P \<Longrightarrow> inSubgroup L Q \<Longrightarrow>
    scalarMul L k (pointAdd L P Q) = pointAdd L (scalarMul L k P) (scalarMul L k Q)"
  using bjj.smul_add_point [of L P Q k] by simp

lemma bjj_smul_mult: "bjj_laws L \<Longrightarrow> inSubgroup L P \<Longrightarrow> scalarMul L (a * b) P = scalarMul L a (scalarMul L b P)"
  using bjj.smul_mult [of L P a b] by simp

lemma scalarMul_mod: "bjj_laws L \<Longrightarrow> scalarMul L (a mod subOrder L) P = scalarMul L a P"
  by (simp add: scalarMul_def)

lemma scalarMul_cong: "bjj_laws L \<Longrightarrow> a mod subOrder L = b mod subOrder L \<Longrightarrow> scalarMul L a P = scalarMul L b P"
  by (simp add: scalarMul_def)

lemma bjj_base_inj: "bjj_laws L \<Longrightarrow> scalarBaseMul L a = scalarBaseMul L b \<longleftrightarrow> a mod subOrder L = b mod subOrder L"
  using bjj.smul_inj_iff [of L "Base8 L" a b] by (simp add: scalarBaseMul_def bjj_base bjj_base_nonid)

lemma pointEq_iff [simp]: "pointEq a b \<longleftrightarrow> a = b"
  by (simp add: pointEq_def prod_eq_iff)

lemma isIdentity_iff: "isIdentity p \<longleftrightarrow> p = IDENTITY"
  by (simp add: isIdentity_def IDENTITY_def prod_eq_iff)

text \<open>the square-and-multiply inverse of \<open>invSub\<close>.  For every scalar not divisible by the group
  order the function returns, and what it returns is the unique reduced inverse; for a multiple of
  the order it throws.\<close>

theorem invSub_correct:
  assumes "bjj_laws L"
  shows "if modSub L x = 0 then invSub L x = Inl (Error ''tss: inverse of zero mod SUBORDER'')
    else \<exists>y. invSub L x = Inr y \<and> modSub L (x * y) = 1 \<and> 0 < y \<and> y < SUBORDER L"
proof (cases "modSub L x = 0")
  case True
  then show ?thesis using assms invSub_zero by simp
next
  case False
  then have x: "x mod subOrder L \<noteq> 0" using assms by simp
  obtain y where y: "invSub L x = Inr y" using invSub_ok [OF assms x] by blast
  then show ?thesis using False invSub_inverse [OF assms x y] assms by auto
qed

theorem invSub_correct_witness:
  "bjj_laws toyLibs \<and> (\<exists>y. invSub toyLibs 5 = Inr y \<and> modSub toyLibs (5 * y) = 1 \<and> 0 < y \<and> y < 13)"
  using invSub_correct [OF toyLibs_bjj_laws, of 5] toyLibs_bjj_laws by (simp add: toy_ops)

end
