(* ===== verification/Shamir.thy ===== *)
theory Shamir
  imports Bjj
begin

text \<open>
  \<open>tss/shamir.ts\<close>: polynomial evaluation by Horner's rule, the Lagrange coefficient at zero and
  interpolation at zero, all modulo the subgroup order.  The lemmas connect the three loops to
  \<open>horner\<close> and \<open>lag\<close> and give reconstruction from every quorum of at least threshold size.
\<close>

section \<open>Definitions\<close>

definition polyEval :: "libs \<Rightarrow> int list \<Rightarrow> int \<Rightarrow> int" where
  "polyEval L coeffs x =
     (let xr = modSub L x in foldr (\<lambda>a acc. modSub L (acc * xr + a)) coeffs 0)"

text \<open>One iteration of the loop of \<open>lagrangeAtZero\<close> on \<open>(num, den)\<close>.\<close>

definition lagrangeStep :: "libs \<Rightarrow> int \<Rightarrow> int \<Rightarrow> int \<times> int \<Rightarrow> int \<times> int" where
  "lagrangeStep L ir j = (\<lambda>(num, den).
     let jr = modSub L j in
     if jr = ir then (num, den)
     else (modSub L (num * jr), modSub L (den * modSub L (jr - ir))))"

definition lagrangeAtZero :: "libs \<Rightarrow> int \<Rightarrow> int list \<Rightarrow> int result" where
  "lagrangeAtZero L i xs =
     (let (num, den) = fold (lagrangeStep L (modSub L i)) xs (1, 1) in
      if den = 0 then Inl (Error ''tss: duplicate identifier in interpolation set'')
      else bindR (invSub L den) (\<lambda>d. Inr (modSub L (num * d))))"

definition interpolateAtZero :: "libs \<Rightarrow> (int \<rightharpoonup> int) \<Rightarrow> int list \<Rightarrow> int result" where
  "interpolateAtZero L shares quorum =
     foldR (\<lambda>acc i. bindR (getOr (Error ''tss: missing share for identifier'') (shares i)) (\<lambda>s.
       bindR (lagrangeAtZero L i quorum) (\<lambda>l. Inr (modSub L (acc + l * s))))) 0 quorum"

section \<open>Polynomial evaluation\<close>

lemma polyEval_horner: "bjj_laws L \<Longrightarrow> polyEval L cs x = horner cs x mod subOrder L"
proof (induction cs)
  case (Cons a cs)
  have "polyEval L (a # cs) x = (polyEval L cs x * (x mod subOrder L) + a) mod subOrder L"
    using Cons.prems by (simp add: polyEval_def Let_def)
  also have "\<dots> = (a + (x mod subOrder L * (horner cs x mod subOrder L)) mod subOrder L) mod subOrder L"
    using Cons by (simp only: mod_add_right_eq add.commute [of _ a] mult.commute [of "x mod _"])
  also have "\<dots> = (a + x * horner cs x) mod subOrder L" by (simp only: mod_mult_eq mod_add_right_eq)
  finally show ?case by simp
qed (simp add: polyEval_def)

section \<open>The Lagrange coefficient\<close>

text \<open>The loop multiplies over the members of the list whose residue differs from that of \<open>i\<close>.\<close>

definition others :: "libs \<Rightarrow> int \<Rightarrow> int list \<Rightarrow> int list" where
  "others L i xs = filter (\<lambda>j. j \<noteq> i mod subOrder L) (map (\<lambda>j. j mod subOrder L) xs)"

lemma lagrange_loop:
  assumes L: "bjj_laws L"
  shows "fold (lagrangeStep L (modSub L i)) xs (a mod subOrder L, b mod subOrder L)
    = ((a * prod_list (others L i xs)) mod subOrder L,
       (b * (\<Prod>j\<leftarrow>others L i xs. j - i mod subOrder L)) mod subOrder L)"
proof (induction xs arbitrary: a b)
  case (Cons x xs)
  let ?q = "subOrder L"
  show ?case
  proof (cases "x mod ?q = i mod ?q")
    case True
    then show ?thesis using L Cons.IH [of a b] by (simp add: lagrangeStep_def others_def)
  next
    case False
    have "lagrangeStep L (modSub L i) x (a mod ?q, b mod ?q)
        = ((a * (x mod ?q)) mod ?q, (b * (x mod ?q - i mod ?q)) mod ?q)"
      using L False
      by (simp add: lagrangeStep_def Let_def mod_mult_left_eq) (simp only: mod_mult_right_eq)
    then show ?thesis
      using False Cons.IH [of "a * (x mod ?q)" "b * (x mod ?q - i mod ?q)"]
      by (simp add: others_def mult.assoc)
  qed
qed (simp add: others_def)

lemma prod_list_not_dvd:
  "is_prime q \<Longrightarrow> \<forall>x\<in>set xs. \<not> q dvd f x \<Longrightarrow> \<not> q dvd (\<Prod>x\<leftarrow>xs. f x)"
  by (induction xs) (auto simp: is_prime_dvd_mult dest: is_prime_gt_1)

lemma lagrange_den:
  assumes L: "bjj_laws L"
  shows "\<not> subOrder L dvd (\<Prod>j\<leftarrow>others L i xs. j - i mod subOrder L)"
proof (rule prod_list_not_dvd [OF bjj_laws_prime [OF L]], rule ballI)
  fix j assume "j \<in> set (others L i xs)"
  moreover have "0 < subOrder L" using bjj_laws_order_pos [OF L] by simp
  ultimately show "\<not> subOrder L dvd j - i mod subOrder L"
    by (intro not_dvd_diff) (auto simp: others_def)
qed

lemma lagrangeAtZero_eq:
  assumes L: "bjj_laws L"
  shows "lagrangeAtZero L i xs = Inr ((prod_list (others L i xs) *
    (\<Prod>j\<leftarrow>others L i xs. j - i mod subOrder L) ^ nat (subOrder L - 2)) mod subOrder L)"
proof -
  let ?q = "subOrder L" and ?n = "prod_list (others L i xs)"
    and ?d = "\<Prod>j\<leftarrow>others L i xs. j - i mod subOrder L"
  have "1 < ?q" by (rule bjj_laws_order_pos [OF L])
  then have "fold (lagrangeStep L (modSub L i)) xs (1, 1) = (?n mod ?q, ?d mod ?q)"
    using lagrange_loop [OF L, of i xs 1 1] by simp
  moreover have "?d mod ?q \<noteq> 0" using lagrange_den [OF L] by (simp add: dvd_eq_mod_eq_0)
  moreover have "invSub L (?d mod ?q) = Inr (?d ^ nat (?q - 2) mod ?q)"
    using invSub_ok [OF L, of "?d mod ?q"] calculation(2) by (simp add: power_mod)
  ultimately show ?thesis using L by (simp add: lagrangeAtZero_def mod_simps)
qed

lemma lagrangeAtZero_lag:
  assumes L: "bjj_laws L" and d: "distinct (map (modSub L) xs)" and i: "i \<in> set xs"
  shows "lagrangeAtZero L i xs = Inr (lag (subOrder L) (modSub L ` set xs) (modSub L i) mod subOrder L)"
proof -
  let ?q = "subOrder L"
  have set: "set (others L i xs) = modSub L ` set xs - {modSub L i}"
    using L by (auto simp: others_def)
  have dist: "distinct (others L i xs)" 
  proof -
    have "map (modSub L) xs = map (\<lambda>j. j mod ?q) xs" using L by simp
    with d show ?thesis unfolding others_def by (metis distinct_filter)
  qed
  have "prod_list (map f (others L i xs)) = (\<Prod>j\<in>modSub L ` set xs - {modSub L i}. f j)" for f
    using prod.distinct_set_conv_list [OF dist, of f] set by simp
  from this [of "\<lambda>j. j"] this [of "\<lambda>j. j - i mod ?q"] show ?thesis
    using L by (simp add: lagrangeAtZero_eq lag_def lnum_def lden_def)
qed

section \<open>Interpolation\<close>

lemma interpolate_loop:
  assumes L: "bjj_laws L"
    and s: "\<And>i. i \<in> set ys \<Longrightarrow> shares i = Some (s i)"
    and l: "\<And>i. i \<in> set ys \<Longrightarrow> lagrangeAtZero L i xs = Inr (l i)"
  shows "foldR (\<lambda>acc i. bindR (getOr e (shares i)) (\<lambda>s.
       bindR (lagrangeAtZero L i xs) (\<lambda>l. Inr (modSub L (acc + l * s))))) (a mod subOrder L) ys
    = Inr ((a + (\<Sum>i\<leftarrow>ys. l i * s i)) mod subOrder L)"
  using s l
proof (induction ys arbitrary: a)
  case (Cons y ys)
  let ?q = "subOrder L"
  have "(a mod ?q + l y * s y) mod ?q = (a + l y * s y) mod ?q" by (simp add: mod_simps)
  then show ?case using Cons.IH [of "a + l y * s y"] Cons.prems L by (simp add: add.assoc)
qed simp

text \<open>Any shares congruent to the values of a polynomial of degree below the quorum size recover
  its constant term.\<close>

lemma interpolateAtZero_poly:
  assumes L: "bjj_laws L" and d: "distinct (map (modSub L) xs)" and nz: "0 \<notin> modSub L ` set xs"
    and len: "length cs \<le> length xs"
    and s: "\<And>i. i \<in> set xs \<Longrightarrow> \<exists>v. shares i = Some v \<and> v mod subOrder L = horner cs i mod subOrder L"
  shows "interpolateAtZero L shares xs = Inr (horner cs 0 mod subOrder L)"
proof -
  let ?q = "subOrder L" and ?S = "modSub L ` set xs"
  have q: "1 < ?q" by (rule bjj_laws_order_pos [OF L])
  let ?v = "\<lambda>i. the (shares i)" and ?l = "\<lambda>i. lag ?q ?S (modSub L i) mod ?q"
  have v: "shares i = Some (?v i) \<and> ?v i mod ?q = horner cs i mod ?q" if "i \<in> set xs" for i
    using s [OF that] by auto
  have "interpolateAtZero L shares xs = Inr ((\<Sum>i\<leftarrow>xs. ?l i * ?v i) mod ?q)"
    using interpolate_loop [OF L, of xs shares ?v xs ?l "Error ''tss: missing share for identifier''" 0]
      lagrangeAtZero_lag [OF L d] v by (simp add: interpolateAtZero_def)
  also have "(\<Sum>i\<leftarrow>xs. ?l i * ?v i) = (\<Sum>i\<in>set xs. ?l i * ?v i)"
    using d by (intro sum_list_distinct_conv_sum_set) (simp add: distinct_map)
  also have "\<dots> mod ?q = (\<Sum>i\<in>set xs. lag ?q ?S (modSub L i) * horner cs (modSub L i)) mod ?q"
  proof (rule sum_mod_cong)
    fix i assume "i \<in> set xs"
    then have "?v i mod ?q = horner cs (modSub L i) mod ?q"
      using v L horner_mod_cong [of i ?q "i mod ?q" cs] by simp
    then show "(?l i * ?v i) mod ?q = (lag ?q ?S (modSub L i) * horner cs (modSub L i)) mod ?q"
      by (intro mod_mult_cong) simp_all
  qed
  also have "(\<Sum>i\<in>set xs. lag ?q ?S (modSub L i) * horner cs (modSub L i))
      = (\<Sum>i\<in>?S. lag ?q ?S i * horner cs i)"
    using d by (simp add: sum.reindex distinct_map)
  also have "\<dots> mod ?q = horner cs 0 mod ?q"
  proof -
    have "?S \<subseteq> {1..<?q}"
    proof
      fix x assume x: "x \<in> ?S"
      then have "0 \<le> x" "x < ?q" using L q by auto
      moreover have "x \<noteq> 0" using x nz by metis
      ultimately show "x \<in> {1..<?q}" by simp
    qed
    moreover have "card ?S = length xs"
      using d by (metis distinct_card length_map set_map)
    ultimately show ?thesis
      using lagrange_at_zero [OF bjj_laws_prime [OF L], of ?S cs] len by (simp add: mod_eq_dvd_iff)
  qed
  finally show ?thesis .
qed

section \<open>Properties\<close>

lemma polyEval_share: "bjj_laws L \<Longrightarrow> polyEval L cs i mod subOrder L = horner cs i mod subOrder L"
  by (simp add: polyEval_horner)

text \<open>C17: threshold reconstruction.  Shares produced by \<open>polyEval\<close> from \<open>coeffs\<close>, one per member of
  a quorum with pairwise distinct nonzero identifiers (modulo the group order) and at least as many
  members as there are coefficients: \<open>interpolateAtZero\<close> returns, and it returns the secret, the
  constant coefficient reduced modulo the group order.\<close>

theorem shamir_reconstruct:
  assumes "bjj_laws L" "distinct (map (modSub L) quorum)" "0 \<notin> modSub L ` set quorum"
    and "length (a # as) \<le> length quorum"
    and "\<forall>i\<in>set quorum. shares i = Some (polyEval L (a # as) i)"
  shows "interpolateAtZero L shares quorum = Inr (modSub L a)"
proof -
  have "interpolateAtZero L shares quorum = Inr (horner (a # as) 0 mod subOrder L)"
    by (rule interpolateAtZero_poly [OF assms(1-4)]) (use assms polyEval_share in auto)
  then show ?thesis using assms(1) by simp
qed

theorem shamir_reconstruct_witness:
  "interpolateAtZero toyLibs [2 \<mapsto> polyEval toyLibs [7, 3] 2, 5 \<mapsto> polyEval toyLibs [7, 3] 5] [5, 2] = Inr 7"
proof -
  have d: "distinct (map (modSub toyLibs) [5, 2])" "0 \<notin> modSub toyLibs ` set [5, 2]"
    by (simp_all add: toyLibs_bjj_laws toy_ops)
  show ?thesis
    using shamir_reconstruct [OF toyLibs_bjj_laws d, of 7 "[3]"
      "[2 \<mapsto> polyEval toyLibs [7, 3] 2, 5 \<mapsto> polyEval toyLibs [7, 3] 5]"]
    by (simp add: toyLibs_bjj_laws toy_ops)
qed

lemma interpolate_loop_missing:
  assumes "bjj_laws L" "i \<in> set ys" "shares i = None"
  shows "foldR (\<lambda>acc i. bindR (getOr e (shares i)) (\<lambda>s.
       bindR (lagrangeAtZero L i xs) (\<lambda>l. Inr (modSub L (acc + l * s))))) a ys = Inl e"
  using assms(2)
proof (induction ys arbitrary: a)
  case (Cons y ys)
  show ?case
  proof (cases "shares y")
    case (Some v)
    with Cons assms(3) show ?thesis by (auto simp: lagrangeAtZero_eq [OF assms(1)])
  qed simp
qed simp

text \<open>the only error of \<open>interpolateAtZero\<close> is a missing share.  In particular the check
  \<open>den === 0n\<close>, meant to reject a duplicated identifier, never fires for a prime group order: a
  quorum that names a member twice is accepted.\<close>

theorem interpolateAtZero_errors:
  assumes "bjj_laws L"
  shows "interpolateAtZero L shares quorum = Inl e \<longleftrightarrow>
      e = Error ''tss: missing share for identifier'' \<and> (\<exists>i\<in>set quorum. shares i = None)"
proof (cases "\<exists>i\<in>set quorum. shares i = None")
  case True
  then obtain i where "i \<in> set quorum" "shares i = None" by blast
  then have "interpolateAtZero L shares quorum = Inl (Error ''tss: missing share for identifier'')"
    using interpolate_loop_missing [OF assms, of i quorum shares] by (simp add: interpolateAtZero_def)
  with True show ?thesis by auto
next
  case False
  then show ?thesis
    using interpolate_loop [OF assms, of quorum shares "\<lambda>i. the (shares i)" quorum
      "\<lambda>i. projr (lagrangeAtZero L i quorum)" "Error ''tss: missing share for identifier''" 0]
    by (auto simp: interpolateAtZero_def lagrangeAtZero_eq [OF assms])
qed

theorem interpolateAtZero_errors_witness:
  "interpolateAtZero toyLibs [1 \<mapsto> 4] [1, 2] = Inl (Error ''tss: missing share for identifier'')"
  using interpolateAtZero_errors [OF toyLibs_bjj_laws, of "[1 \<mapsto> 4]" "[1, 2]"] by simp

text \<open>what acceptance of a duplicated identifier means: the shares of \<open>3 + 2 x\<close> and the quorum
  \<open>[1, 1]\<close> give 10 instead of the secret 3.\<close>

theorem duplicate_quorum_accepted:
  "interpolateAtZero toyLibs [1 \<mapsto> polyEval toyLibs [3, 2] 1] [1, 1] = Inr 10"
  by code_simp

end
