(* ===== verification/Crypto.thy ===== *)
theory Crypto
  imports Bjj
begin

text \<open>
  \<open>crypto/\<close> and \<open>tss/hashToScalar.ts\<close> of the SDK: field conversions, Poseidon hashing, key
  derivation, the note cipher (DEM), the ephemeral key encapsulation (KEM) and hashing to scalars.
  The lemmas give the round trips of the DEM and of the CEK wrap, and when each function throws.
  A text is the string of its UTF-8 bytes.
\<close>

section \<open>Fields and hashing\<close>

definition toFr :: "libs \<Rightarrow> int \<Rightarrow> int result" where
  "toFr L v = newFr L v"

definition Poseidon_hash :: "libs \<Rightarrow> int list \<Rightarrow> int result" where
  "Poseidon_hash L inputs =
     (if inputs = [] then Inl (Error ''Poseidon hash requires at least one input.'')
      else Inr (poseidon2Hash L inputs))"

definition Poseidon_hashScalar :: "libs \<Rightarrow> int \<Rightarrow> int result" where
  "Poseidon_hashScalar L x = Poseidon_hash L [x]"

definition utf8 :: "string \<Rightarrow> byte list" where
  "utf8 text = map of_char text"

definition stringToFr :: "libs \<Rightarrow> string \<Rightarrow> int result" where
  "stringToFr L text =
     (let bytes = utf8 text in
      if 32 < length bytes then Inl (Error ''stringToFr input string is too long, must be <= 32 bytes.'')
      else bindR (FrFromBuffer L (replicate (32 - length bytes) 0 @ bytes)) (\<lambda>f. Poseidon_hash L [f]))"

definition toReducedFr :: "libs \<Rightarrow> int \<Rightarrow> int result" where
  "toReducedFr L v = newFr L (v smod FrMODULUS L)"

definition poseidonV1Hash3 :: "libs \<Rightarrow> int \<Rightarrow> int \<Rightarrow> int \<Rightarrow> int result" where
  "poseidonV1Hash3 L left right level = newFr L (circomPoseidon L [left, right, level])"

definition toBjjScalar :: "libs \<Rightarrow> int \<Rightarrow> int result" where
  "toBjjScalar L fr = newFr L (fr smod subOrder L)"

definition calculatePublicMemoId :: "libs \<Rightarrow> int \<Rightarrow> int \<Rightarrow> int \<Rightarrow> int \<Rightarrow> int \<Rightarrow> int \<Rightarrow> int result" where
  "calculatePublicMemoId L val asset timelock ownerX ownerY salt =
     Poseidon_hash L [val, asset, timelock, ownerX, ownerY, salt]"

text \<open>The optional nonce: absent and zero give the same two-input hash.\<close>

definition Kdf_derive :: "libs \<Rightarrow> string \<Rightarrow> int \<Rightarrow> int option \<Rightarrow> int result" where
  "Kdf_derive L purpose master nonce =
     bindR (stringToFr L purpose) (\<lambda>purposeFr.
       Poseidon_hash L ([master, purposeFr] @
         (case nonce of None \<Rightarrow> [] | Some n \<Rightarrow> if n = 0 then [] else [n])))"

section \<open>The note cipher\<close>

definition ENC_DOMAIN :: int where
  "ENC_DOMAIN = 0x23f955e41a1c10e85986f4fb49fcaf4cb8a6d3264f10fd0253d5e212303b9882"

definition PSI_DOMAIN :: int where
  "PSI_DOMAIN = 0x20b80b02c7b72d50c3f3dbdb4aa38592cdac5c1aa0f9d3f3509480ae234a790"

definition DEM_FIELDS :: nat where
  "DEM_FIELDS = 7"

definition demKeystream :: "libs \<Rightarrow> int \<Rightarrow> nat \<Rightarrow> int result" where
  "demKeystream L cek k =
     bindR (toFr L ENC_DOMAIN) (\<lambda>d. bindR (toFr L (int k)) (\<lambda>n. Poseidon_hash L [cek, d, n]))"

definition demEncrypt :: "libs \<Rightarrow> int \<Rightarrow> int list \<Rightarrow> int list result" where
  "demEncrypt L cek plaintext =
     (if length plaintext \<noteq> DEM_FIELDS then Inl (Error ''DEM encrypt expects 7 plaintext fields'')
      else mapR (\<lambda>k. bindR (demKeystream L cek k) (\<lambda>p. Inr (FrAdd L (plaintext ! k) p))) [0..<DEM_FIELDS])"

definition demDecrypt :: "libs \<Rightarrow> int \<Rightarrow> int list \<Rightarrow> int list result" where
  "demDecrypt L cek ciphertext =
     (if length ciphertext \<noteq> DEM_FIELDS then Inl (Error ''DEM decrypt expects 7 ciphertext fields'')
      else mapR (\<lambda>k. bindR (demKeystream L cek k) (\<lambda>p. Inr (FrSub L (ciphertext ! k) p))) [0..<DEM_FIELDS])"

section \<open>Key encapsulation\<close>

definition assertSubgroupScalar :: "int \<Rightarrow> unit result" where
  "assertSubgroupScalar s =
     (if s = 0 then Inl (Error ''KEM scalar must be non-zero'')
      else if BJJ_SUBGROUP_ORDER \<le> s
      then Inl (Error ''KEM scalar not in BabyJubJub prime-order subgroup'')
      else Inr ())"

definition assertValidPoint :: "libs \<Rightarrow> point \<Rightarrow> unit result" where
  "assertValidPoint L p =
     (if \<not> inCurve L p then Inl (Error ''KEM point is not on the BabyJubJub curve'')
      else if fst p = 0 \<and> snd p = 1 then Inl (Error ''KEM point is the identity'')
      else let (ox, oy) = mulPointEscalar L p (subOrder L) in
        if ox \<noteq> 0 \<or> oy \<noteq> 1 then Inl (Error ''KEM point is not in the prime-order subgroup'')
        else Inr ())"

definition deriveCek :: "libs \<Rightarrow> int \<Rightarrow> point \<Rightarrow> int result" where
  "deriveCek L eph compliancePk =
     bindR (assertSubgroupScalar eph) (\<lambda>_.
     bindR (assertValidPoint L compliancePk) (\<lambda>_.
     newFr L (fst (mulPointEscalar L compliancePk eph))))"

definition wrapCek :: "libs \<Rightarrow> int \<Rightarrow> int \<Rightarrow> point \<Rightarrow> int result" where
  "wrapCek L cek eph inPub =
     bindR (assertSubgroupScalar eph) (\<lambda>_.
     bindR (assertValidPoint L inPub) (\<lambda>_.
     bindR (newFr L (fst (mulPointEscalar L inPub eph))) (\<lambda>pad.
     bindR (Poseidon_hash L [pad]) (\<lambda>padHash. Inr (FrAdd L cek padHash)))))"

definition unwrapCek :: "libs \<Rightarrow> int \<Rightarrow> int \<Rightarrow> point \<Rightarrow> int result" where
  "unwrapCek L cekWrap inKey ephPub =
     bindR (assertSubgroupScalar inKey) (\<lambda>_.
     bindR (assertValidPoint L ephPub) (\<lambda>_.
     bindR (newFr L (fst (mulPointEscalar L ephPub inKey))) (\<lambda>pad.
     bindR (Poseidon_hash L [pad]) (\<lambda>padHash. Inr (FrSub L cekWrap padHash)))))"

section \<open>Hashing to scalars\<close>

definition poseidon2 :: "libs \<Rightarrow> int list \<Rightarrow> int result" where
  "poseidon2 L inputs = bindR (mapR (newFr L) inputs) (\<lambda>xs. Poseidon_hash L xs)"

definition challengeScalar :: "libs \<Rightarrow> int list \<Rightarrow> int result" where
  "challengeScalar L inputs = poseidon2 L inputs"

definition HIGH_SHIFT :: int where
  "HIGH_SHIFT = 2 ^ 254"

definition hashToScalar :: "libs \<Rightarrow> int \<Rightarrow> int list \<Rightarrow> int result" where
  "hashToScalar L domain inputs =
     bindR (poseidon2 L ([domain] @ inputs @ [0])) (\<lambda>high.
     bindR (poseidon2 L ([domain] @ inputs @ [1])) (\<lambda>low.
     Inr ((high * HIGH_SHIFT + low) smod subOrder L)))"

section \<open>When the hashes return\<close>

lemma Poseidon_hash_Cons [simp]: "Poseidon_hash L (x # xs) = Inr (poseidon2Hash L (x # xs))"
  by (simp add: Poseidon_hash_def)

lemma poseidon2_ok: "fr_laws L \<Longrightarrow> list_all isFr (x # xs) \<Longrightarrow> poseidon2 L (x # xs) = Inr (poseidon2Hash L (x # xs))"
  unfolding poseidon2_def by (simp only: fr_laws_mapR bindR.simps Poseidon_hash_Cons)

lemma hashToScalar_ok:
  assumes "fr_laws L" "isFr domain" "list_all isFr inputs"
  shows "\<exists>e. hashToScalar L domain inputs = Inr e"
proof -
  have "list_all isFr (domain # inputs @ [0])" "list_all isFr (domain # inputs @ [1])"
    using assms by simp_all
  then show ?thesis
    using poseidon2_ok [OF assms(1)] by (simp add: hashToScalar_def)
qed

lemma hashToScalar_range:
  assumes "bjj_laws L" "fr_laws L" "hashToScalar L domain inputs = Inr e"
  shows "0 \<le> e \<and> e < subOrder L"
proof -
  obtain xs ys where "e = (poseidon2Hash L xs * HIGH_SHIFT + poseidon2Hash L ys) smod subOrder L"
    using assms(3) by (auto simp: hashToScalar_def poseidon2_def Poseidon_hash_def split: if_splits)
  moreover have "0 \<le> poseidon2Hash L xs" "0 \<le> poseidon2Hash L ys" "0 \<le> HIGH_SHIFT"
    using fr_laws_hash [OF assms(2)] by (auto simp: isFr_def HIGH_SHIFT_def)
  ultimately show ?thesis
    using smod_range [of "poseidon2Hash L xs * HIGH_SHIFT + poseidon2Hash L ys" "subOrder L"]
      bjj_laws_order_pos [OF assms(1)] by simp
qed

lemma BJJ_lt_P: "BJJ_SUBGROUP_ORDER < BN254_P"
  by (simp add: BJJ_SUBGROUP_ORDER_def BN254_P_def)

lemma bjj_laws_order_le: "bjj_laws L \<Longrightarrow> subOrder L \<le> BJJ_SUBGROUP_ORDER"
  by (rule bjj_laws_def [THEN iffD1, THEN conjunct2, THEN conjunct1])

lemma scalar_isFr: "bjj_laws L \<Longrightarrow> 0 \<le> x \<Longrightarrow> x < subOrder L \<Longrightarrow> isFr x"
  using bjj_laws_order_le [of L] BJJ_lt_P by (simp add: isFr_def)

lemma toBjjScalar_ok:
  assumes "bjj_laws L" "fr_laws L" "isFr x"
  shows "toBjjScalar L x = Inr (x mod subOrder L)"
  using assms bjj_laws_order_pos [OF assms(1)] scalar_isFr [OF assms(1), of "x mod subOrder L"]
  by (simp add: toBjjScalar_def smod_nonneg isFr_def [of x])

section \<open>The cipher and the encapsulation invert\<close>

lemma ENC_DOMAIN_isFr [simp]: "isFr ENC_DOMAIN"
  by (simp add: isFr_def ENC_DOMAIN_def BN254_P_def)

lemma PSI_DOMAIN_isFr [simp]: "isFr PSI_DOMAIN"
  by (simp add: isFr_def PSI_DOMAIN_def BN254_P_def)

lemma demKeystream_ok:
  "fr_laws L \<Longrightarrow> k < DEM_FIELDS \<Longrightarrow> demKeystream L cek k = Inr (poseidon2Hash L [cek, ENC_DOMAIN, int k])"
  by (simp add: demKeystream_def toFr_def isFr_small DEM_FIELDS_def)

lemma demEncrypt_ok:
  assumes "fr_laws L" "length pt = DEM_FIELDS"
  shows "demEncrypt L cek pt
    = Inr (map (\<lambda>k. FrAdd L (pt ! k) (poseidon2Hash L [cek, ENC_DOMAIN, int k])) [0..<DEM_FIELDS])"
  unfolding demEncrypt_def using assms
  by (simp del: upt_Suc) (rule mapR_cong_Inr, simp add: demKeystream_ok)

lemma demDecrypt_ok:
  assumes "fr_laws L" "length ct = DEM_FIELDS"
  shows "demDecrypt L cek ct
    = Inr (map (\<lambda>k. FrSub L (ct ! k) (poseidon2Hash L [cek, ENC_DOMAIN, int k])) [0..<DEM_FIELDS])"
  unfolding demDecrypt_def using assms
  by (simp del: upt_Suc) (rule mapR_cong_Inr, simp add: demKeystream_ok)

lemma dem_inverts:
  assumes "fr_laws L" "length pt = DEM_FIELDS" "list_all isFr pt"
  shows "bindR (demEncrypt L cek pt) (demDecrypt L cek) = Inr pt"
proof -
  have "map (\<lambda>k. FrSub L (map (\<lambda>k. FrAdd L (pt ! k) (f k)) [0..<DEM_FIELDS] ! k) (f k)) [0..<DEM_FIELDS] = pt" for f
    using assms by (intro nth_equalityI) (auto simp: fr_laws_sub_add list_all_length)
  then show ?thesis
    using assms by (simp add: demEncrypt_ok demDecrypt_ok)
qed

lemma assertValidPoint_ok: "inSubgroupNonId L p \<Longrightarrow> assertValidPoint L p = Inr ()"
  by (auto simp: inSubgroupNonId_def bjj_mem isIdentity_def assertValidPoint_def)

lemma assertValidPoint_iff: "assertValidPoint L p = Inr u \<longleftrightarrow> inSubgroupNonId L p"
  by (auto simp: inSubgroupNonId_def bjj_mem isIdentity_def assertValidPoint_def
      split: prod.splits if_splits)

lemma assertSubgroupScalar_iff: "assertSubgroupScalar s = Inr u \<longleftrightarrow> s \<noteq> 0 \<and> s < BJJ_SUBGROUP_ORDER"
  by (auto simp: assertSubgroupScalar_def)

lemma smul_nonid:
  assumes L: "bjj_laws L" and P: "inSubgroupNonId L P" and k: "k mod subOrder L \<noteq> 0"
  shows "inSubgroupNonId L (scalarMul L k P)"
proof -
  have P': "inSubgroup L P" "P \<noteq> IDENTITY" using P by (auto simp: inSubgroupNonId_def isIdentity_iff)
  have "scalarMul L k P \<noteq> IDENTITY"
  proof
    assume "scalarMul L k P = IDENTITY"
    then have "scalarMul L k P = scalarMul L 0 P"
      using bjj.smul_0 [of L P] L P'(1) by simp
    then show False using bjj.smul_inj_iff [of L P k 0] L P' k by simp
  qed
  then show ?thesis using L P' by (simp add: inSubgroupNonId_def isIdentity_iff)
qed

lemma base_nonid: "bjj_laws L \<Longrightarrow> inSubgroupNonId L (Base8 L)"
  by (simp add: inSubgroupNonId_def isIdentity_iff bjj_base bjj_base_nonid)

text \<open>Both sides of the ECDH exchange compute the same point.\<close>

lemma ecdh_symmetric:
  assumes L: "bjj_laws L" and P: "inSubgroup L P" and "0 \<le> a" "0 \<le> b"
  shows "mulPointEscalar L (mulPointEscalar L P a) b = mulPointEscalar L (mulPointEscalar L P b) a"
  using bjj.smul_comm [of L P b a] assms bjj_mem_smul [OF L P]
  by (simp add: scalarMul_of_nonneg)

lemma wrap_inverts:
  assumes L: "bjj_laws L" "fr_laws L"
    and eph: "0 < eph" "eph < subOrder L" and key: "0 < inKey" "inKey < subOrder L"
    and cek: "isFr cek"
  shows "bindR (wrapCek L cek eph (mulPointEscalar L (Base8 L) inKey))
    (\<lambda>w. unwrapCek L w inKey (mulPointEscalar L (Base8 L) eph)) = Inr cek"
proof -
  let ?A = "mulPointEscalar L (Base8 L) inKey" and ?B = "mulPointEscalar L (Base8 L) eph"
  have A: "inSubgroupNonId L ?A" and B: "inSubgroupNonId L ?B"
    using smul_nonid [OF L(1) base_nonid [OF L(1)]] eph key bjj_base [OF L(1)]
    by (auto simp: scalarMul_of_nonneg [OF L(1)])
  have shared: "mulPointEscalar L ?A eph = mulPointEscalar L ?B inKey"
    using eph key by (intro ecdh_symmetric [OF L(1) bjj_base [OF L(1)]]) simp_all
  have "inSubgroup L (mulPointEscalar L ?A eph)"
    using A eph L(1) by (simp add: scalarMul_of_nonneg inSubgroupNonId_def)
  then have x: "isFr (fst (mulPointEscalar L ?A eph))" using bjj_coords [OF L(1)] by blast
  have s: "assertSubgroupScalar eph = Inr ()" "assertSubgroupScalar inKey = Inr ()"
    using eph key bjj_laws_order_le [OF L(1)] by (simp_all add: assertSubgroupScalar_iff)
  show ?thesis
    using L x cek by (simp add: wrapCek_def unwrapCek_def s assertValidPoint_ok [OF A]
        assertValidPoint_ok [OF B] shared [symmetric] fr_laws_sub_add)
qed

section \<open>Properties\<close>

text \<open>the note cipher.  Under any content key, encrypting seven field elements succeeds and
  decrypting the result with the same key gives them back; a list of another length is refused by
  both directions.\<close>

theorem dem_round_trip:
  assumes "fr_laws L" "list_all isFr plaintext"
  shows "bindR (demEncrypt L cek plaintext) (demDecrypt L cek) =
    (if length plaintext = DEM_FIELDS then Inr plaintext
     else Inl (Error ''DEM encrypt expects 7 plaintext fields''))"
  using dem_inverts [OF assms(1)] assms(2) by (simp add: demEncrypt_def)

theorem dem_round_trip_witness:
  "bindR (demEncrypt toyLibs 9 [1, 2, 3, 4, 5, 6, 7]) (demDecrypt toyLibs 9) = Inr [1, 2, 3, 4, 5, 6, 7]"
  using dem_round_trip [OF toyLibs_fr_laws, of "[1, 2, 3, 4, 5, 6, 7]" 9]
  by (simp add: DEM_FIELDS_def isFr_small)

text \<open>the CEK wrap.  A content key wrapped for the public key of \<open>inKey\<close> under the ephemeral
  \<open>eph\<close> is recovered by \<open>unwrapCek\<close> from \<open>inKey\<close> and the public ephemeral point alone: the two
  sides agree on the ECDH point, every guard passes and the pad cancels.\<close>

theorem cek_wrap_round_trip:
  assumes "bjj_laws L" "fr_laws L" "0 < eph" "eph < subOrder L" "0 < inKey" "inKey < subOrder L" "isFr cek"
  shows "bindR (wrapCek L cek eph (mulPointEscalar L (Base8 L) inKey))
    (\<lambda>w. unwrapCek L w inKey (mulPointEscalar L (Base8 L) eph)) = Inr cek"
  by (rule wrap_inverts [OF assms])

theorem cek_wrap_round_trip_witness:
  "bindR (wrapCek toyLibs 100 4 (mulPointEscalar toyLibs (Base8 toyLibs) 7))
    (\<lambda>w. unwrapCek toyLibs w 7 (mulPointEscalar toyLibs (Base8 toyLibs) 4)) = Inr 100"
  by (rule cek_wrap_round_trip [OF toyLibs_bjj_laws toyLibs_fr_laws])
    (simp_all add: toy_ops isFr_small)

end
