(* ===== verification/Dkg.thy ===== *)
theory Dkg
  imports Shamir Crypto
begin

text \<open>
  Distributed key generation: Feldman verifiable sharing (\<open>tss/vss.ts\<close>), the dealer protocol with
  its Schnorr proof of possession and the aggregation (\<open>tss/dkg.ts\<close>), the GJKR variant with Pedersen
  commitments (\<open>tss/gjkr.ts\<close>) and the public shares computed from commitments
  (\<open>cli/src/dkg/publicShare.ts\<close>).  Scalars drawn with \<open>randScalar()\<close> are arguments.
\<close>

section \<open>Feldman commitments\<close>

definition feldmanCommit :: "libs \<Rightarrow> int list \<Rightarrow> point list" where
  "feldmanCommit L coeffs = map (scalarBaseMul L) coeffs"

text \<open>The accumulation loop over the commitments, on \<open>(rhs, ipow)\<close>; three functions of the source
  have it.\<close>

definition commitStep :: "libs \<Rightarrow> int \<Rightarrow> point \<Rightarrow> point \<times> int \<Rightarrow> point \<times> int" where
  "commitStep L i com = (\<lambda>(rhs, ipow). (pointAdd L rhs (scalarMul L ipow com), modSub L (ipow * i)))"

definition publicShareAt :: "libs \<Rightarrow> int \<Rightarrow> point list \<Rightarrow> point" where
  "publicShareAt L i commitments = fst (fold (commitStep L i) commitments (IDENTITY, 1))"

definition aggregatePublicShareAt :: "libs \<Rightarrow> int \<Rightarrow> point list list \<Rightarrow> point" where
  "aggregatePublicShareAt L i dealerCommitments =
     fold (\<lambda>commitments acc. pointAdd L acc (publicShareAt L i commitments)) dealerCommitments IDENTITY"

definition feldmanVerifyShare :: "libs \<Rightarrow> int \<Rightarrow> int \<Rightarrow> point list \<Rightarrow> bool" where
  "feldmanVerifyShare L i share commitments =
     (let lhs = scalarBaseMul L share;
          rhs = fst (fold (commitStep L i) commitments (IDENTITY, 1))
      in pointEq lhs rhs)"

section \<open>Dealers\<close>

definition FROST_POP_DOMAIN :: int where
  "FROST_POP_DOMAIN = 0x209e21dad378253bec05dec69c0ba1062a1318dee1fc00b7c6060603abe6db36"

record schnorrPoP =
  popR :: point
  popZ :: int

record dealerContribution =
  dcId :: int
  dcCommitments :: "point list"
  dcPop :: schnorrPoP
  dcShares :: "int \<rightharpoonup> int"

record dkgResult =
  dkgC :: point
  dkgShares :: "int \<rightharpoonup> int"
  dkgV :: "int \<rightharpoonup> point"
  dkgQual :: "int list"

text \<open>Reading a field of \<open>undefined\<close>.\<close>

definition typeError :: js_error where
  "typeError = Error ''TypeError: undefined''"

definition popChallenge :: "libs \<Rightarrow> int \<Rightarrow> int \<Rightarrow> point \<Rightarrow> point \<Rightarrow> int result" where
  "popChallenge L i context com0 R =
     hashToScalar L FROST_POP_DOMAIN [i, context, fst com0, snd com0, fst R, snd R]"

definition provePoP :: "libs \<Rightarrow> int \<Rightarrow> int \<Rightarrow> int \<Rightarrow> point \<Rightarrow> int \<Rightarrow> schnorrPoP result" where
  "provePoP L i context secret commitment k =
     (let R = scalarBaseMul L k in
      bindR (popChallenge L i context commitment R) (\<lambda>e.
      Inr \<lparr>popR = R, popZ = modSub L (k + e * secret)\<rparr>))"

definition verifyPoP :: "libs \<Rightarrow> int \<Rightarrow> int \<Rightarrow> point list \<Rightarrow> schnorrPoP \<Rightarrow> bool result" where
  "verifyPoP L i context commitments pop =
     (case commitments of [] \<Rightarrow> Inl typeError
      | com0 # _ \<Rightarrow>
        bindR (popChallenge L i context com0 (popR pop)) (\<lambda>e.
        let lhs = scalarBaseMul L (popZ pop);
            rhs = pointAdd L (popR pop) (scalarMul L e com0)
        in Inr (pointEq lhs rhs)))"

text \<open>\<open>draws\<close> are the results of the successive \<open>randScalar()\<close> calls: \<open>t\<close> coefficients, then the
  nonce of the proof.\<close>

definition dealerContribute ::
    "libs \<Rightarrow> int \<Rightarrow> int list \<Rightarrow> nat \<Rightarrow> int \<Rightarrow> int list \<Rightarrow> (dealerContribution \<times> int) result" where
  "dealerContribute L i participants t context draws =
     (let coeffs = take t draws;
          commitments = feldmanCommit L coeffs;
          shares = fold (\<lambda>j m. m(j \<mapsto> polyEval L coeffs j)) participants Map.empty
      in case coeffs of [] \<Rightarrow> Inl typeError
         | secret # _ \<Rightarrow>
           bindR (provePoP L i context secret (hd commitments) (draws ! t)) (\<lambda>pop.
           Inr (\<lparr>dcId = i, dcCommitments = commitments, dcPop = pop, dcShares = shares\<rparr>, secret)))"

definition verifyContribution :: "libs \<Rightarrow> int \<Rightarrow> dealerContribution \<Rightarrow> int \<Rightarrow> bool result" where
  "verifyContribution L recipientId contribution context =
     (if dcCommitments contribution = [] then Inr False
      else case dcShares contribution recipientId of None \<Rightarrow> Inr False
        | Some share \<Rightarrow>
          if \<not> feldmanVerifyShare L recipientId share (dcCommitments contribution) then Inr False
          else verifyPoP L (dcId contribution) context (dcCommitments contribution) (dcPop contribution))"

section \<open>Aggregation\<close>

definition aggregateKey :: "libs \<Rightarrow> dealerContribution list \<Rightarrow> point result" where
  "aggregateKey L contributions =
     foldR (\<lambda>C c. case dcCommitments c of [] \<Rightarrow> Inl typeError | com0 # _ \<Rightarrow> Inr (pointAdd L C com0))
       IDENTITY contributions"

definition aggregateShare :: "libs \<Rightarrow> dealerContribution list \<Rightarrow> int \<Rightarrow> int result" where
  "aggregateShare L contributions i =
     foldR (\<lambda>ci c. bindR (getOr (Error ''dkg: QUAL dealer missing share'') (dcShares c i)) (\<lambda>s.
       Inr (modSub L (ci + s)))) 0 contributions"

definition aggregate :: "libs \<Rightarrow> int list \<Rightarrow> dealerContribution list \<Rightarrow> dkgResult result" where
  "aggregate L participants qualContributions =
     bindR (aggregateKey L qualContributions) (\<lambda>C.
     bindR (foldR (\<lambda>(shares, V) i. bindR (aggregateShare L qualContributions i) (\<lambda>ci.
              Inr (shares(i \<mapsto> ci), V(i \<mapsto> scalarBaseMul L ci)))) (Map.empty, Map.empty) participants)
       (\<lambda>(shares, V).
     Inr \<lparr>dkgC = C, dkgShares = shares, dkgV = V, dkgQual = map dcId qualContributions\<rparr>))"

section \<open>Commitments evaluate in the exponent\<close>

lemma FROST_POP_DOMAIN_isFr [simp]: "isFr FROST_POP_DOMAIN"
  by (simp add: isFr_def FROST_POP_DOMAIN_def BN254_P_def)

text \<open>The loop over commitments to the coefficients of \<open>f\<close> computes \<open>f(i)\<close> times the base point.\<close>

lemma commit_loop:
  assumes L: "bjj_laws L" and P: "inSubgroup L P"
  shows "fold (commitStep L i) (map (\<lambda>a. scalarMul L a P) cs) (scalarMul L a P, w mod subOrder L)
    = (scalarMul L (a + w * horner cs i) P, (w * i ^ length cs) mod subOrder L)"
proof (induction cs arbitrary: a w)
  case (Cons c cs)
  let ?q = "subOrder L"
  have "scalarMul L (w mod ?q) (scalarMul L c P) = scalarMul L (w * c) P"
    by (simp add: scalarMul_mod [OF L] bjj_smul_mult [OF L P])
  then have "commitStep L i (scalarMul L c P) (scalarMul L a P, w mod ?q)
      = (scalarMul L (a + w * c) P, (w * i) mod ?q)"
    using L by (simp add: commitStep_def bjj_smul_add [OF L P] mod_mult_left_eq)
  then show ?case
    using Cons.IH [of "a + w * c" "w * i"] by (simp add: algebra_simps)
qed (use L in simp)

lemma scalarMul_0: "bjj_laws L \<Longrightarrow> inSubgroup L P \<Longrightarrow> scalarMul L 0 P = IDENTITY"
  using bjj.smul_0 [of L P] by simp

lemma publicShareAt_eval:
  assumes L: "bjj_laws L" and P: "inSubgroup L P"
  shows "publicShareAt L i (map (\<lambda>a. scalarMul L a P) cs) = scalarMul L (horner cs i) P"
  using commit_loop [OF L P, of i cs 0 1] bjj_laws_order_pos [OF L]
  by (simp add: publicShareAt_def scalarMul_0 [OF L P])

lemma publicShareAt_feldman:
  "bjj_laws L \<Longrightarrow> publicShareAt L i (feldmanCommit L cs) = scalarBaseMul L (horner cs i)"
  using publicShareAt_eval [of L "Base8 L" i cs] bjj_base
  by (simp add: feldmanCommit_def scalarBaseMul_def [abs_def])

lemma feldmanVerifyShare_public: "feldmanVerifyShare L i s coms \<longleftrightarrow> scalarBaseMul L s = publicShareAt L i coms"
  by (simp add: feldmanVerifyShare_def publicShareAt_def Let_def)

lemma feldman_iff:
  "bjj_laws L \<Longrightarrow> feldmanVerifyShare L i s (feldmanCommit L cs) \<longleftrightarrow> s mod subOrder L = horner cs i mod subOrder L"
  by (simp add: feldmanVerifyShare_public publicShareAt_feldman bjj_base_inj)

section \<open>Proof of possession\<close>

lemma popChallenge_ok:
  assumes "bjj_laws L" "fr_laws L" "isFr i" "isFr context" "inSubgroup L A" "inSubgroup L B"
  shows "\<exists>e. popChallenge L i context A B = Inr e"
  unfolding popChallenge_def
  by (rule hashToScalar_ok) (use assms bjj_coords in auto)

lemma schnorr_equation:
  assumes L: "bjj_laws L" and P: "inSubgroup L P"
  shows "scalarMul L ((k + e * x) mod subOrder L) P = pointAdd L (scalarMul L k P) (scalarMul L e (scalarMul L x P))"
  by (simp add: scalarMul_mod [OF L] bjj_smul_add [OF L P] bjj_smul_mult [OF L P])

lemma pop_complete:
  assumes L: "bjj_laws L" and p: "provePoP L i context secret (scalarBaseMul L secret) k = Inr pop"
  shows "verifyPoP L i context (scalarBaseMul L secret # coms) pop = Inr True"
  using p schnorr_equation [OF L bjj_base [OF L], of k _ secret] L
  by (auto simp: provePoP_def verifyPoP_def Let_def scalarBaseMul_def)

lemma fold_map_upd: "(fold (\<lambda>j m. m(j \<mapsto> f j)) xs m) x = (if x \<in> set xs then Some (f x) else m x)"
  by (induction xs arbitrary: m) simp_all

section \<open>Honest dealers\<close>

text \<open>The contribution \<open>c\<close> shares the polynomial \<open>f\<close> among the participants.\<close>

definition dealsPoly :: "libs \<Rightarrow> int list \<Rightarrow> int list \<Rightarrow> dealerContribution \<Rightarrow> bool" where
  "dealsPoly L participants f c \<longleftrightarrow> f \<noteq> [] \<and> dcCommitments c = feldmanCommit L f
    \<and> (\<forall>i\<in>set participants. dcShares c i = Some (polyEval L f i))"

lemma dealerContribute_honest:
  assumes "bjj_laws L" "fr_laws L" "isFr i" "isFr context" "0 < t" "t \<le> length draws"
  shows "\<exists>c. dealerContribute L i participants t context draws = Inr (c, hd draws)
    \<and> dcId c = i \<and> dealsPoly L participants (take t draws) c
    \<and> verifyPoP L i context (dcCommitments c) (dcPop c) = Inr True"
proof -
  from assms(5,6) obtain a as where t: "take t draws = a # as" and hd: "hd draws = a"
    by (cases draws; cases t) auto
  obtain e where "popChallenge L i context (scalarBaseMul L a) (scalarBaseMul L (draws ! t)) = Inr e"
    using popChallenge_ok [OF assms(1-4), of "scalarBaseMul L a" "scalarBaseMul L (draws ! t)"] assms(1)
    by auto
  then obtain pop where pop: "provePoP L i context a (scalarBaseMul L a) (draws ! t) = Inr pop"
    by (simp add: provePoP_def)
  show ?thesis
    using pop pop_complete [OF assms(1) pop]
    by (simp add: dealerContribute_def t hd feldmanCommit_def dealsPoly_def fold_map_upd Let_def)
qed

lemma dealsPoly_accepted:
  assumes "bjj_laws L" "dealsPoly L participants f c" "i \<in> set participants"
    "verifyPoP L (dcId c) context (dcCommitments c) (dcPop c) = Inr True"
  shows "verifyContribution L i c context = Inr True"
  using assms feldman_iff [OF assms(1), of i "polyEval L f i" f]
  by (auto simp: verifyContribution_def dealsPoly_def feldmanCommit_def polyEval_share)

section \<open>The aggregate is the sum of the dealt polynomials\<close>

lemma aggregateKey_sum:
  assumes L: "bjj_laws L" and h: "list_all2 (dealsPoly L participants) fs cs"
  shows "aggregateKey L cs = Inr (scalarBaseMul L (\<Sum>f\<leftarrow>fs. hd f))"
proof -
  have "foldR (\<lambda>C c. case dcCommitments c of [] \<Rightarrow> Inl typeError | com0 # _ \<Rightarrow> Inr (pointAdd L C com0))
      (scalarBaseMul L a) cs = Inr (scalarBaseMul L (a + (\<Sum>f\<leftarrow>fs. hd f)))" for a
    using h
  proof (induction fs cs arbitrary: a rule: list_all2_induct)
    case (Cons f fs c cs)
    then obtain b bs where f: "f = b # bs" and c: "dcCommitments c = scalarBaseMul L b # feldmanCommit L bs"
      by (cases f) (auto simp: dealsPoly_def feldmanCommit_def)
    have "pointAdd L (scalarBaseMul L a) (scalarBaseMul L b) = scalarBaseMul L (a + b)"
      by (simp add: scalarBaseMul_def bjj_smul_add [OF L bjj_base [OF L]])
    then show ?case using Cons.IH [of "a + b"] by (simp add: f c add.assoc)
  qed simp
  from this [of 0] show ?thesis
    by (simp add: aggregateKey_def scalarBaseMul_def scalarMul_0 [OF L bjj_base [OF L]])
qed

lemma aggregateShare_sum:
  assumes L: "bjj_laws L" and h: "list_all2 (dealsPoly L participants) fs cs" and i: "i \<in> set participants"
  shows "aggregateShare L cs i = Inr ((\<Sum>f\<leftarrow>fs. horner f i) mod subOrder L)"
proof -
  have "foldR (\<lambda>ci c. bindR (getOr e (dcShares c i)) (\<lambda>s. Inr (modSub L (ci + s)))) (a mod subOrder L) cs
      = Inr ((a + (\<Sum>f\<leftarrow>fs. horner f i)) mod subOrder L)" for a e
    using h
  proof (induction fs cs arbitrary: a rule: list_all2_induct)
    case (Cons f fs c cs)
    have "dcShares c i = Some (polyEval L f i)" using Cons.hyps(1) i by (simp add: dealsPoly_def)
    moreover have "(a mod subOrder L + polyEval L f i) mod subOrder L = (a + horner f i) mod subOrder L"
      by (simp add: polyEval_horner [OF L] mod_add_eq)
    ultimately show ?case using Cons.IH [of "a + horner f i"] L by (simp add: add.assoc)
  qed simp
  from this [of _ 0] show ?thesis by (simp add: aggregateShare_def)
qed

lemma aggregate_loop:
  assumes "\<And>i. i \<in> set ps \<Longrightarrow> aggregateShare L cs i = Inr (s i)"
  shows "foldR (\<lambda>(shares, V) i. bindR (aggregateShare L cs i) (\<lambda>ci.
      Inr (shares(i \<mapsto> ci), V(i \<mapsto> scalarBaseMul L ci)))) (A, B) ps
    = Inr (fold (\<lambda>j m. m(j \<mapsto> s j)) ps A, fold (\<lambda>j m. m(j \<mapsto> scalarBaseMul L (s j))) ps B)"
  using assms by (induction ps arbitrary: A B) simp_all

text \<open>Coefficientwise sum.\<close>

lemma horner_map2: "length f = length g \<Longrightarrow> horner (map2 (+) f g) x = horner f x + horner g x"
  by (induction f g rule: list_induct2) (simp_all add: algebra_simps)

lemma poly_sum_exists:
  "\<forall>f\<in>set fs. length f = t \<Longrightarrow> \<exists>g. length g = t \<and> (\<forall>x. horner g x = (\<Sum>f\<leftarrow>fs. horner f x))"
proof (induction fs)
  case Nil
  have "horner (replicate t 0) x = 0" for x by (induction t) simp_all
  then show ?case by (intro exI [of _ "replicate t 0"]) simp
next
  case (Cons f fs)
  then obtain g where "length g = t" "\<forall>x. horner g x = (\<Sum>f\<leftarrow>fs. horner f x)" by auto
  then show ?case using Cons.prems
    by (intro exI [of _ "map2 (+) f g"]) (simp add: horner_map2)
qed

lemma horner_hd: "f \<noteq> [] \<Longrightarrow> horner f 0 = hd f"
  by (cases f) simp_all

text \<open>The result of aggregation: the group key is the sum of the secrets times the base point, every
  public share matches the secret share, every quorum reconstructs the sum of the secrets, and the
  public shares are computable from the commitments alone.\<close>

definition dkg_consistent :: "libs \<Rightarrow> int list \<Rightarrow> nat \<Rightarrow> int \<Rightarrow> dkgResult \<Rightarrow> bool" where
  "dkg_consistent L participants t secret r \<longleftrightarrow>
     dkgC r = scalarBaseMul L secret
   \<and> (\<forall>i\<in>set participants. \<exists>s. dkgShares r i = Some s \<and> dkgV r i = Some (scalarBaseMul L s))
   \<and> (\<forall>quorum. set quorum \<subseteq> set participants \<longrightarrow> distinct (map (modSub L) quorum) \<longrightarrow>
        0 \<notin> modSub L ` set quorum \<longrightarrow> t \<le> length quorum \<longrightarrow>
        interpolateAtZero L (dkgShares r) quorum = Inr (modSub L secret))"

lemma aggregate_consistent:
  assumes L: "bjj_laws L" and h: "list_all2 (dealsPoly L participants) fs cs"
    and t: "\<forall>f\<in>set fs. length f = t"
  shows "\<exists>r. aggregate L participants cs = Inr r \<and> dkgQual r = map dcId cs
    \<and> dkg_consistent L participants t (\<Sum>f\<leftarrow>fs. hd f) r
    \<and> (\<forall>i\<in>set participants. dkgShares r i = Some ((\<Sum>f\<leftarrow>fs. horner f i) mod subOrder L))"
proof -
  let ?q = "subOrder L" and ?s = "\<lambda>i. (\<Sum>f\<leftarrow>fs. horner f i) mod subOrder L"
  obtain g where g: "length g = t" "\<And>x. horner g x = (\<Sum>f\<leftarrow>fs. horner f x)"
    using poly_sum_exists [OF t] by blast
  have "\<forall>f\<in>set fs. f \<noteq> []"
    using h by (auto simp: list_all2_conv_all_nth in_set_conv_nth dealsPoly_def)
  then have sec: "(\<Sum>f\<leftarrow>fs. hd f) = horner g 0"
    by (simp add: g(2) horner_hd cong: map_cong)
  have agg: "aggregate L participants cs = Inr \<lparr>dkgC = scalarBaseMul L (\<Sum>f\<leftarrow>fs. hd f),
      dkgShares = fold (\<lambda>j m. m(j \<mapsto> ?s j)) participants Map.empty,
      dkgV = fold (\<lambda>j m. m(j \<mapsto> scalarBaseMul L (?s j))) participants Map.empty,
      dkgQual = map dcId cs\<rparr>"
    using aggregate_loop [of participants L cs ?s Map.empty Map.empty] aggregateShare_sum [OF L h]
    by (simp add: aggregate_def aggregateKey_sum [OF L h])
  show ?thesis
    unfolding agg dkg_consistent_def
    using interpolateAtZero_poly [OF L, of _ g] L
    by (auto simp: fold_map_upd sec g subset_iff)
qed

lemma aggregatePublicShareAt_sum:
  assumes L: "bjj_laws L"
  shows "aggregatePublicShareAt L i (map (feldmanCommit L) fs) = scalarBaseMul L (\<Sum>f\<leftarrow>fs. horner f i)"
proof -
  have "fold (\<lambda>c acc. pointAdd L acc (publicShareAt L i c)) (map (feldmanCommit L) fs) (scalarBaseMul L a)
      = scalarBaseMul L (a + (\<Sum>f\<leftarrow>fs. horner f i))" for a
  proof (induction fs arbitrary: a)
    case (Cons f fs)
    have "pointAdd L (scalarBaseMul L a) (publicShareAt L i (feldmanCommit L f)) = scalarBaseMul L (a + horner f i)"
      by (simp add: publicShareAt_feldman [OF L]) (simp add: scalarBaseMul_def bjj_smul_add [OF L bjj_base [OF L]])
    then show ?case using Cons.IH [of "a + horner f i"] by (simp add: add.assoc)
  qed simp
  from this [of 0] show ?thesis
    by (simp add: aggregatePublicShareAt_def scalarBaseMul_def scalarMul_0 [OF L bjj_base [OF L]])
qed

section \<open>Properties\<close>

text \<open>Feldman verification accepts exactly the right shares.  Against the commitments of a
  polynomial, \<open>feldmanVerifyShare\<close> returns true for a value if and only if the value is congruent to
  the polynomial at the recipient's identifier.\<close>

theorem feldman_sound_complete:
  assumes "bjj_laws L"
  shows "feldmanVerifyShare L i share (feldmanCommit L coeffs) \<longleftrightarrow> modSub L share = polyEval L coeffs i"
  using assms by (simp add: feldman_iff polyEval_horner)

theorem feldman_sound_complete_witness:
  "feldmanVerifyShare toyLibs 3 8 (feldmanCommit toyLibs [2, 2]) \<and>
   \<not> feldmanVerifyShare toyLibs 3 9 (feldmanCommit toyLibs [2, 2])"
  using feldman_sound_complete [OF toyLibs_bjj_laws, of 3 8 "[2, 2]"]
    feldman_sound_complete [OF toyLibs_bjj_laws, of 3 9 "[2, 2]"] toyLibs_bjj_laws
  by (simp add: polyEval_horner toy_ops)

text \<open>an honest dealer is accepted.  With a positive threshold and enough drawn scalars
  \<open>dealerContribute\<close> returns a contribution whose secret is the first scalar, and
  \<open>verifyContribution\<close> returns true for every recipient among the participants (share and proof of
  possession both pass).\<close>

theorem honest_dealer_accepted:
  assumes "bjj_laws L" "fr_laws L" "isFr i" "isFr context" "0 < t" "t < length draws"
  shows "\<exists>c. dealerContribute L i participants t context draws = Inr (c, hd draws)
    \<and> (\<forall>j\<in>set participants. verifyContribution L j c context = Inr True)"
  using dealerContribute_honest [OF assms(1-5), of draws participants] assms
    dealsPoly_accepted [OF assms(1)] by (metis less_imp_le)

theorem honest_dealer_accepted_witness:
  "\<exists>c. dealerContribute toyLibs 1 [1, 2, 3] 2 5 [4, 6, 9] = Inr (c, 4)
    \<and> (\<forall>j\<in>set [1, 2, 3]. verifyContribution toyLibs j c 5 = Inr True)"
  using honest_dealer_accepted [OF toyLibs_bjj_laws toyLibs_fr_laws, of 1 5 2 "[4, 6, 9]" "[1, 2, 3]"]
  by (simp add: isFr_small)

lemma dealerContribute_Inr:
  assumes "dealerContribute L i participants t context draws = Inr (c, s)"
  shows "dealsPoly L participants (take t draws) c \<and> s = hd (take t draws)"
  using assms
  by (cases "take t draws") (auto simp: dealerContribute_def Let_def dealsPoly_def fold_map_upd simp del: take_eq_Nil)

lemma dealers_list:
  assumes "mapR (\<lambda>(i, draws). dealerContribute L i participants t context draws) ds = Inr cs"
  shows "list_all2 (dealsPoly L participants) (map (take t \<circ> snd) ds) (map fst cs)
    \<and> map snd cs = map (hd \<circ> take t \<circ> snd) ds"
  using assms
proof (induction ds arbitrary: cs)
  case (Cons d ds)
  obtain i draws where d: "d = (i, draws)" by (cases d)
  from Cons.prems obtain c s cs' where cs: "cs = (c, s) # cs'"
    and c: "dealerContribute L i participants t context draws = Inr (c, s)"
    and "mapR (\<lambda>(i, draws). dealerContribute L i participants t context draws) ds = Inr cs'"
    by (auto simp: d)
  with Cons.IH dealerContribute_Inr [OF c] show ?case by (simp add: d)
qed simp

text \<open>C12: the key generation as a whole.  For every list of dealers that ran \<open>dealerContribute\<close> with
  the same threshold, \<open>aggregate\<close> returns; the group key is the sum of the dealers' secrets times the
  base point, each participant's public share is its secret share times the base point, equal to what
  \<open>aggregatePublicShareAt\<close> computes from the commitments alone, and every quorum of at least \<open>t\<close>
  participants interpolates its shares to the sum of the secrets.\<close>

theorem dkg_correct:
  assumes "bjj_laws L"
    and "mapR (\<lambda>(i, draws). dealerContribute L i participants t context draws) ds = Inr cs"
    and "\<forall>(i, draws)\<in>set ds. t \<le> length draws"
  shows "\<exists>r. aggregate L participants (map fst cs) = Inr r
    \<and> dkg_consistent L participants t (sum_list (map snd cs)) r
    \<and> (\<forall>i\<in>set participants. dkgV r i = Some (aggregatePublicShareAt L i (map (dcCommitments \<circ> fst) cs)))"
proof -
  let ?fs = "map (take t \<circ> snd) ds"
  have h: "list_all2 (dealsPoly L participants) ?fs (map fst cs)" and s: "map snd cs = map hd ?fs"
    using dealers_list [OF assms(2)] by (simp_all add: comp_assoc)
  have "\<forall>f\<in>set ?fs. length f = t" using assms(3) by auto
  from aggregate_consistent [OF assms(1) h this] obtain r
    where r: "aggregate L participants (map fst cs) = Inr r"
      "dkg_consistent L participants t (\<Sum>f\<leftarrow>?fs. hd f) r"
      "\<forall>i\<in>set participants. dkgShares r i = Some ((\<Sum>f\<leftarrow>?fs. horner f i) mod subOrder L)" by blast
  have "map (dcCommitments \<circ> fst) cs = map (feldmanCommit L) ?fs"
    using h by (auto simp: list_all2_conv_all_nth dealsPoly_def intro!: nth_equalityI)
  then have pub: "aggregatePublicShareAt L i (map (dcCommitments \<circ> fst) cs)
      = scalarBaseMul L ((\<Sum>f\<leftarrow>?fs. horner f i) mod subOrder L)" for i
    using aggregatePublicShareAt_sum [OF assms(1), of i ?fs] scalarMul_mod [OF assms(1)]
    by (simp add: scalarBaseMul_def)
  have "\<forall>i\<in>set participants. dkgV r i = Some (aggregatePublicShareAt L i (map (dcCommitments \<circ> fst) cs))"
    using r(2,3) by (fastforce simp: dkg_consistent_def pub)
  with r s show ?thesis by auto
qed

lemma toy_dealers:
  "mapR (\<lambda>(i, draws). dealerContribute toyLibs i [1, 2, 3] 2 5 draws) [(1, [4, 6, 9]), (2, [5, 1, 3])]
    = Inr (map (\<lambda>(i, draws). projr (dealerContribute toyLibs i [1, 2, 3] 2 5 draws)) [(1, [4, 6, 9]), (2, [5, 1, 3])])"
  using dealerContribute_honest [OF toyLibs_bjj_laws toyLibs_fr_laws, of 1 5 2 "[4, 6, 9]" "[1, 2, 3]"]
    dealerContribute_honest [OF toyLibs_bjj_laws toyLibs_fr_laws, of 2 5 2 "[5, 1, 3]" "[1, 2, 3]"]
  by (auto simp: isFr_small)

theorem dkg_correct_witness:
  "\<exists>cs r. mapR (\<lambda>(i, draws). dealerContribute toyLibs i [1, 2, 3] 2 5 draws) [(1, [4, 6, 9]), (2, [5, 1, 3])] = Inr cs
    \<and> aggregate toyLibs [1, 2, 3] (map fst cs) = Inr r
    \<and> dkg_consistent toyLibs [1, 2, 3] 2 (sum_list (map snd cs)) r"
proof -
  have "\<forall>(i, draws)\<in>set [(1::int, [4, 6, 9::int]), (2, [5, 1, 3])]. 2 \<le> length draws" by simp
  from dkg_correct [OF toyLibs_bjj_laws toy_dealers this] toy_dealers show ?thesis by blast
qed

end
