(* ===== verification/Gjkr.thy ===== *)
theory Gjkr
  imports Dkg
begin

text \<open>
  \<open>tss/gjkr.ts\<close>: the GJKR key generation.  The second generator is found by try-and-increment with
  at most 256 tries; dealers commit with Pedersen commitments, every dealer with an inconsistent
  share is disqualified, and the qualified ones reveal Feldman commitments and aggregate.  The
  scalars a dealer draws are \<open>(aCoeffs, bCoeffs, nonce)\<close>.
\<close>

section \<open>The second generator\<close>

definition COFACTOR :: int where
  "COFACTOR = 8"

definition H_MAX_TRIES :: nat where
  "H_MAX_TRIES = 256"

fun deriveHLoop :: "libs \<Rightarrow> int \<Rightarrow> int list \<Rightarrow> point result" where
  "deriveHLoop L seed [] = Inl (Error ''gjkr: failed to derive H within the try-and-increment bound'')"
| "deriveHLoop L seed (ctr # ctrs) =
     bindR (poseidon2 L [seed, ctr]) (\<lambda>candidate.
     case unpackPoint L candidate of None \<Rightarrow> deriveHLoop L seed ctrs
     | Some unpacked \<Rightarrow>
       let h = scalarMul L COFACTOR unpacked in
       if isIdentity h then deriveHLoop L seed ctrs
       else if pointEq h (Base8 L) then deriveHLoop L seed ctrs
       else bindR (assertInSubgroup L h) (\<lambda>_. Inr h))"

definition deriveH :: "libs \<Rightarrow> point result" where
  "deriveH L =
     bindR (stringToFr L ''kakure.tss.pedersen.h'') (\<lambda>seed. deriveHLoop L seed (map int [0..<H_MAX_TRIES]))"

text \<open>The cached promise of \<open>getH\<close> settles to the value of \<open>deriveH\<close>.\<close>

definition getH :: "libs \<Rightarrow> point result" where
  "getH L = deriveH L"

section \<open>Pedersen commitments\<close>

definition pedersenCommit :: "libs \<Rightarrow> int list \<Rightarrow> int list \<Rightarrow> point list result" where
  "pedersenCommit L aCoeffs bCoeffs =
     (if length aCoeffs \<noteq> length bCoeffs then Inl (Error ''gjkr: Pedersen coefficient length mismatch'')
      else bindR (getH L) (\<lambda>h.
        Inr (map2 (\<lambda>a b. pointAdd L (scalarBaseMul L a) (scalarMul L b h)) aCoeffs bCoeffs)))"

definition pedersenVerifyShare :: "libs \<Rightarrow> int \<Rightarrow> int \<Rightarrow> int \<Rightarrow> point list \<Rightarrow> bool result" where
  "pedersenVerifyShare L i fShare fPrimeShare commitments =
     bindR (getH L) (\<lambda>h.
     let lhs = pointAdd L (scalarBaseMul L fShare) (scalarMul L fPrimeShare h);
         rhs = fst (fold (commitStep L i) commitments (IDENTITY, 1))
     in Inr (pointEq lhs rhs))"

record pedersenDealer =
  pdId :: int
  pdACoeffs :: "int list"
  pdBCoeffs :: "int list"
  pdCommitments :: "point list"
  pdAShares :: "int \<rightharpoonup> int"
  pdFPrimeShares :: "int \<rightharpoonup> int"

definition contribute :: "libs \<Rightarrow> int \<Rightarrow> int list \<Rightarrow> nat \<Rightarrow> int list \<Rightarrow> int list \<Rightarrow> pedersenDealer result" where
  "contribute L i participants t aDraws bDraws =
     (let aCoeffs = take t aDraws; bCoeffs = take t bDraws in
      bindR (pedersenCommit L aCoeffs bCoeffs) (\<lambda>commitments.
      Inr \<lparr>pdId = i, pdACoeffs = aCoeffs, pdBCoeffs = bCoeffs, pdCommitments = commitments,
           pdAShares = fold (\<lambda>j m. m(j \<mapsto> polyEval L aCoeffs j)) participants Map.empty,
           pdFPrimeShares = fold (\<lambda>j m. m(j \<mapsto> polyEval L bCoeffs j)) participants Map.empty\<rparr>))"

section \<open>The protocol run\<close>

definition corruptShare :: "libs \<Rightarrow> int list \<Rightarrow> pedersenDealer \<Rightarrow> pedersenDealer" where
  "corruptShare L participants dealer =
     (let victim = orElse (find (\<lambda>p. p \<noteq> pdId dealer) participants) (pdId dealer);
          corrupted = orElse (pdAShares dealer victim) 0 + 1
      in dealer\<lparr>pdAShares := (pdAShares dealer)(victim \<mapsto> modSub L corrupted)\<rparr>)"

text \<open>The complaint loop of one dealer, left at the first bad share.\<close>

fun dealerOk :: "libs \<Rightarrow> pedersenDealer \<Rightarrow> int list \<Rightarrow> bool result" where
  "dealerOk L dealer [] = Inr True"
| "dealerOk L dealer (j # js) =
     (case (pdAShares dealer j, pdFPrimeShares dealer j) of
        (Some f, Some fPrime) \<Rightarrow>
          bindR (pedersenVerifyShare L j f fPrime (pdCommitments dealer)) (\<lambda>ok.
          if ok then dealerOk L dealer js else Inr False)
      | _ \<Rightarrow> Inr False)"

definition qualify :: "libs \<Rightarrow> int list \<Rightarrow> pedersenDealer list \<Rightarrow> pedersenDealer list result" where
  "qualify L participants dealers =
     foldR (\<lambda>qual dealer. bindR (dealerOk L dealer participants) (\<lambda>ok.
       Inr (if ok then qual @ [dealer] else qual))) [] dealers"

definition reveal :: "libs \<Rightarrow> int list \<Rightarrow> int \<Rightarrow> (int \<Rightarrow> int) \<Rightarrow> pedersenDealer \<Rightarrow> dealerContribution result" where
  "reveal L participants context nonce dealer =
     (let commitments = feldmanCommit L (pdACoeffs dealer) in
      case pdACoeffs dealer of [] \<Rightarrow> Inl typeError
      | a0 # _ \<Rightarrow>
        bindR (provePoP L (pdId dealer) context a0 (hd commitments) (nonce (pdId dealer))) (\<lambda>pop.
        bindR (guardR (list_all (\<lambda>j. case pdAShares dealer j of None \<Rightarrow> False
                 | Some f \<Rightarrow> feldmanVerifyShare L j f commitments) participants)
               (Error ''gjkr: Feldman reveal inconsistent'')) (\<lambda>_.
        bindR (verifyPoP L (pdId dealer) context commitments pop) (\<lambda>popOk.
        if \<not> popOk then Inl (Error ''gjkr: PoP failed for QUAL dealer'')
        else Inr \<lparr>dcId = pdId dealer, dcCommitments = commitments, dcPop = pop,
                  dcShares = pdAShares dealer\<rparr>))))"

definition runGjkrDkg ::
    "libs \<Rightarrow> nat \<Rightarrow> nat \<Rightarrow> int \<Rightarrow> int set \<Rightarrow> (int \<Rightarrow> int list) \<Rightarrow> (int \<Rightarrow> int list) \<Rightarrow> (int \<Rightarrow> int)
      \<Rightarrow> dkgResult result" where
  "runGjkrDkg L n t context badShareDealers aDraws bDraws nonce =
     (let participants = map int [1..<n + 1] in
      bindR (mapR (\<lambda>i. bindR (contribute L i participants t (aDraws i) (bDraws i)) (\<lambda>dealer.
               Inr (if i \<in> badShareDealers then corruptShare L participants dealer else dealer)))
             participants) (\<lambda>dealers.
      bindR (qualify L participants dealers) (\<lambda>qual.
      if qual = [] then Inl (Error ''gjkr: no qualified dealers'')
      else bindR (mapR (reveal L participants context nonce) qual) (\<lambda>qualContributions.
        aggregate L participants qualContributions))))"

section \<open>The second generator is a usable point\<close>

lemma deriveHLoop_sound:
  assumes "bjj_laws L" "deriveHLoop L seed ctrs = Inr h"
  shows "inSubgroupNonId L h \<and> h \<noteq> Base8 L"
  using assms(2)
  by (induction ctrs) (auto simp: Let_def assertInSubgroup_def inSubgroupNonId_def
      split: option.splits if_splits)

lemma getH_sound: "bjj_laws L \<Longrightarrow> getH L = Inr h \<Longrightarrow> inSubgroupNonId L h \<and> h \<noteq> Base8 L"
  unfolding getH_def deriveH_def bindR_eq_Inr using deriveHLoop_sound by blast

section \<open>Pedersen shares\<close>

lemma commit_loop_add:
  assumes L: "bjj_laws L" and "\<And>x. x \<in> set xs \<Longrightarrow> inSubgroup L (A x) \<and> inSubgroup L (B x)"
    and "inSubgroup L P" "inSubgroup L Q"
  shows "fst (fold (commitStep L i) (map (\<lambda>x. pointAdd L (A x) (B x)) xs) (pointAdd L P Q, w))
    = pointAdd L (fst (fold (commitStep L i) (map A xs) (P, w))) (fst (fold (commitStep L i) (map B xs) (Q, w)))"
  using assms(2-4)
proof (induction xs arbitrary: P Q w)
  case (Cons x xs)
  let ?a = "scalarMul L w (A x)" and ?b = "scalarMul L w (B x)"
  have m: "inSubgroup L ?a" "inSubgroup L ?b" using L Cons.prems(1) by simp_all
  have "pointAdd L (pointAdd L P Q) (pointAdd L ?a ?b) = pointAdd L (pointAdd L P ?a) (pointAdd L Q ?b)"
    using m Cons.prems(2,3) bjj.add_assoc [of L] bjj.add_left_comm [of L] L by simp
  moreover have "scalarMul L w (pointAdd L (A x) (B x)) = pointAdd L ?a ?b"
    using L Cons.prems(1) by (simp add: bjj_smul_add_point)
  ultimately have "commitStep L i (pointAdd L (A x) (B x)) (pointAdd L P Q, w)
      = (pointAdd L (pointAdd L P ?a) (pointAdd L Q ?b), modSub L (w * i))"
    by (simp add: commitStep_def)
  then show ?case
    using Cons.IH [of "pointAdd L P ?a" "pointAdd L Q ?b" "modSub L (w * i)"] Cons.prems L m
    by (simp add: commitStep_def)
qed simp

lemma pedersen_eval:
  assumes L: "bjj_laws L" and h: "inSubgroup L h" and len: "length as = length bs"
  shows "publicShareAt L i (map2 (\<lambda>a b. pointAdd L (scalarBaseMul L a) (scalarMul L b h)) as bs)
    = pointAdd L (scalarBaseMul L (horner as i)) (scalarMul L (horner bs i) h)"
proof -
  have "pointAdd L IDENTITY IDENTITY = IDENTITY" using bjj.add_ident [of L IDENTITY] L by simp
  then have "publicShareAt L i (map (\<lambda>x. pointAdd L (scalarBaseMul L (fst x)) (scalarMul L (snd x) h)) (zip as bs))
      = pointAdd L (publicShareAt L i (map (\<lambda>x. scalarBaseMul L (fst x)) (zip as bs)))
          (publicShareAt L i (map (\<lambda>x. scalarMul L (snd x) h) (zip as bs)))"
    using commit_loop_add [OF L, of "zip as bs" "\<lambda>x. scalarBaseMul L (fst x)" "\<lambda>x. scalarMul L (snd x) h"
        IDENTITY IDENTITY i 1] L h by (simp add: publicShareAt_def)
  moreover have "map (\<lambda>x. scalarBaseMul L (fst x)) (zip as bs) = feldmanCommit L as"
    using len by (intro nth_equalityI) (simp_all add: feldmanCommit_def)
  moreover have "map (\<lambda>x. scalarMul L (snd x) h) (zip as bs) = map (\<lambda>b. scalarMul L b h) bs"
    using len by (intro nth_equalityI) simp_all
  ultimately show ?thesis
    by (simp add: publicShareAt_feldman [OF L] publicShareAt_eval [OF L h] case_prod_beta')
qed

lemma pedersenVerifyShare_iff:
  assumes L: "bjj_laws L" and h: "getH L = Inr h"
    and coms: "pedersenCommit L as bs = Inr coms" and b: "v mod subOrder L = horner bs i mod subOrder L"
  shows "pedersenVerifyShare L i u v coms = Inr (u mod subOrder L = horner as i mod subOrder L)"
proof -
  have hm: "inSubgroup L h" using getH_sound [OF L h] by (simp add: inSubgroupNonId_def)
  have coms': "length as = length bs"
    "coms = map2 (\<lambda>a b. pointAdd L (scalarBaseMul L a) (scalarMul L b h)) as bs"
    using coms h by (auto simp: pedersenCommit_def split: if_splits)
  let ?V = "scalarMul L (horner bs i) h"
  have v: "scalarMul L v h = ?V" by (rule scalarMul_cong [OF L b])
  have "pointAdd L (scalarBaseMul L u) ?V = pointAdd L (scalarBaseMul L (horner as i)) ?V
      \<longleftrightarrow> scalarBaseMul L u = scalarBaseMul L (horner as i)"
    using bjj.add_cancel [of L ?V "scalarBaseMul L u" "scalarBaseMul L (horner as i)"]
      bjj.add_comm [of L ?V] hm L by auto
  then show ?thesis
    using pedersen_eval [OF L hm coms'(1), of i] h
    by (simp add: pedersenVerifyShare_def coms'(2) v bjj_base_inj [OF L] publicShareAt_def Let_def)
qed

lemma dealerOk_all:
  assumes "\<And>j. j \<in> set js \<Longrightarrow> \<exists>f fp. pdAShares d j = Some f \<and> pdFPrimeShares d j = Some fp
      \<and> pedersenVerifyShare L j f fp (pdCommitments d) = Inr (ok j)"
  shows "dealerOk L d js = Inr (\<forall>j\<in>set js. ok j)"
  using assms
proof (induction js)
  case (Cons j js)
  obtain f fp where "pdAShares d j = Some f" "pdFPrimeShares d j = Some fp"
    "pedersenVerifyShare L j f fp (pdCommitments d) = Inr (ok j)"
    using Cons.prems [of j] by auto
  then show ?case using Cons by simp
qed simp

lemma qualify_filter:
  assumes "\<And>d. d \<in> set ds \<Longrightarrow> dealerOk L d ps = Inr (P d)"
  shows "qualify L ps ds = Inr (filter P ds)"
proof -
  have "foldR (\<lambda>qual dealer. bindR (dealerOk L dealer ps) (\<lambda>ok.
      Inr (if ok then qual @ [dealer] else qual))) acc ds = Inr (acc @ filter P ds)" for acc
    using assms by (induction ds arbitrary: acc) auto
  then show ?thesis by (simp add: qualify_def)
qed

text \<open>A dealer as \<open>contribute\<close> builds it.\<close>

definition pdDeals :: "libs \<Rightarrow> int list \<Rightarrow> int list \<Rightarrow> int list \<Rightarrow> pedersenDealer \<Rightarrow> bool" where
  "pdDeals L ps as bs d \<longleftrightarrow> pdACoeffs d = as \<and> pedersenCommit L as bs = Inr (pdCommitments d)
    \<and> pdAShares d = (\<lambda>j. if j \<in> set ps then Some (polyEval L as j) else None)
    \<and> pdFPrimeShares d = (\<lambda>j. if j \<in> set ps then Some (polyEval L bs j) else None)"

lemma contribute_deals:
  assumes "getH L = Inr h" "t \<le> length as" "t \<le> length bs"
  shows "\<exists>d. contribute L i ps t as bs = Inr d \<and> pdId d = i \<and> pdDeals L ps (take t as) (take t bs) d"
  using assms by (simp add: contribute_def pedersenCommit_def pdDeals_def Let_def fun_eq_iff fold_map_upd min_def)

lemma honest_qualifies:
  assumes L: "bjj_laws L" "getH L = Inr h" and d: "pdDeals L ps as bs d"
  shows "dealerOk L d ps = Inr True"
proof -
  have "dealerOk L d ps = Inr (\<forall>j\<in>set ps. True)"
    using d pedersenVerifyShare_iff [OF L, of as bs "pdCommitments d"]
    by (intro dealerOk_all) (auto simp: pdDeals_def polyEval_share [OF L(1)])
  then show ?thesis by simp
qed

lemma corrupt_disqualified:
  assumes L: "bjj_laws L" "getH L = Inr h" and d: "pdDeals L ps as bs d" and i: "pdId d \<in> set ps"
  shows "dealerOk L (corruptShare L ps d) ps = Inr False"
proof -
  let ?q = "subOrder L" and ?v = "orElse (find (\<lambda>p. p \<noteq> pdId d) ps) (pdId d)"
  let ?d = "corruptShare L ps d"
  have v: "?v \<in> set ps"
  proof (cases "find (\<lambda>p. p \<noteq> pdId d) ps")
    case (Some x)
    then have "x \<in> set ps" by (auto simp: find_Some_iff)
    with Some show ?thesis by simp
  qed (use i in simp)
  have sh: "pdAShares ?d = (pdAShares d)(?v \<mapsto> (polyEval L as ?v + 1) mod ?q)"
    and keep: "pdFPrimeShares ?d = pdFPrimeShares d" "pdCommitments ?d = pdCommitments d"
    using v d L(1) by (simp_all add: corruptShare_def Let_def pdDeals_def)
  have "(polyEval L as ?v + 1) mod ?q \<noteq> horner as ?v mod ?q"
  proof
    assume "(polyEval L as ?v + 1) mod ?q = horner as ?v mod ?q"
    then have "?q dvd (horner as ?v + 1) - horner as ?v"
      by (simp add: polyEval_horner [OF L(1)] mod_add_left_eq mod_eq_dvd_iff)
    then show False using bjj_laws_order_pos [OF L(1)] by simp
  qed
  then have bad: "(polyEval L as ?v + 1) mod ?q mod ?q \<noteq> horner as ?v mod ?q" by simp
  have "dealerOk L ?d ps = Inr (\<forall>j\<in>set ps. j \<noteq> ?v)"
  proof (rule dealerOk_all)
    fix j assume j: "j \<in> set ps"
    show "\<exists>f fp. pdAShares ?d j = Some f \<and> pdFPrimeShares ?d j = Some fp
        \<and> pedersenVerifyShare L j f fp (pdCommitments ?d) = Inr (j \<noteq> ?v)"
      using d j bad pedersenVerifyShare_iff [OF L, of as bs "pdCommitments d" "polyEval L bs j" j]
      by (auto simp: sh keep pdDeals_def polyEval_share [OF L(1)])
  qed
  with v show ?thesis by auto
qed

lemma reveal_ok:
  assumes L: "bjj_laws L" "fr_laws L" and d: "pdDeals L ps as bs d" "as \<noteq> []"
    and fr: "isFr (pdId d)" "isFr context"
  shows "\<exists>c. reveal L ps context nonce d = Inr c \<and> dcId c = pdId d \<and> dealsPoly L ps as c"
proof -
  obtain a as' where as: "as = a # as'" using d(2) by (cases as) auto
  obtain e where "popChallenge L (pdId d) context (scalarBaseMul L a) (scalarBaseMul L (nonce (pdId d))) = Inr e"
    using popChallenge_ok [OF L fr] L(1) bjj_mem_base by blast
  then obtain pop where pop: "provePoP L (pdId d) context a (scalarBaseMul L a) (nonce (pdId d)) = Inr pop"
    by (simp add: provePoP_def)
  have "feldmanVerifyShare L j (polyEval L as j) (feldmanCommit L as)" for j
    by (simp add: feldman_iff [OF L(1)] polyEval_share [OF L(1)])
  then show ?thesis
    using d(1) pop pop_complete [OF L(1) pop, of "feldmanCommit L as'"]
    by (auto simp: reveal_def pdDeals_def as feldmanCommit_def dealsPoly_def Let_def list_all_iff)
qed

lemma mapR_eq_map:
  assumes "\<And>x. x \<in> set xs \<Longrightarrow> \<exists>y. f x = Inr y \<and> P x y"
  shows "\<exists>ys. mapR f xs = Inr ys \<and> list_all2 P xs ys"
  using assms
proof (induction xs)
  case (Cons x xs)
  then obtain y ys where "f x = Inr y \<and> P x y" "mapR f xs = Inr ys \<and> list_all2 P xs ys" by force
  then show ?case by auto
qed simp

lemma list_all2_filter2:
  assumes "list_all2 R xs ys" "\<And>x y. R x y \<Longrightarrow> P x \<longleftrightarrow> Q y"
  shows "list_all2 R (filter P xs) (filter Q ys)"
  using assms by (induction xs ys rule: list_all2_induct) auto

lemma list_all2_set2: "list_all2 R xs ys \<Longrightarrow> y \<in> set ys \<Longrightarrow> \<exists>x\<in>set xs. R x y"
  by (induction xs ys rule: list_all2_induct) auto

lemma gjkr_dealers:
  assumes L: "bjj_laws L" "getH L = Inr h"
    and draws: "\<forall>i\<in>set ps. t \<le> length (aDraws i) \<and> t \<le> length (bDraws i)"
  shows "\<exists>ds. mapR (\<lambda>i. bindR (contribute L i ps t (aDraws i) (bDraws i)) (\<lambda>dealer.
      Inr (if i \<in> bad then corruptShare L ps dealer else dealer))) ps = Inr ds
    \<and> map pdId ds = ps
    \<and> (\<forall>d\<in>set ds. dealerOk L d ps = Inr (pdId d \<notin> bad)
        \<and> (pdId d \<notin> bad \<longrightarrow> pdDeals L ps (take t (aDraws (pdId d))) (take t (bDraws (pdId d))) d))"
proof -
  let ?R = "\<lambda>i d. pdId d = i \<and> dealerOk L d ps = Inr (i \<notin> bad)
    \<and> (i \<notin> bad \<longrightarrow> pdDeals L ps (take t (aDraws i)) (take t (bDraws i)) d)"
  let ?step = "\<lambda>i. bindR (contribute L i ps t (aDraws i) (bDraws i)) (\<lambda>dealer.
    Inr (if i \<in> bad then corruptShare L ps dealer else dealer))"
  have "\<exists>ds. mapR ?step ps = Inr ds \<and> list_all2 ?R ps ds"
  proof (rule mapR_eq_map)
    fix i assume i: "i \<in> set ps"
    then have "t \<le> length (aDraws i)" "t \<le> length (bDraws i)" using draws by auto
    then obtain d where d: "contribute L i ps t (aDraws i) (bDraws i) = Inr d" "pdId d = i"
      "pdDeals L ps (take t (aDraws i)) (take t (bDraws i)) d"
      using contribute_deals [OF L(2)] by blast
    moreover have "pdId (corruptShare L ps d) = pdId d" by (simp add: corruptShare_def Let_def)
    ultimately show "\<exists>d. ?step i = Inr d \<and> ?R i d"
      using i honest_qualifies [OF L d(3)] corrupt_disqualified [OF L d(3)] by simp
  qed
  then obtain ds where ds: "mapR ?step ps = Inr ds" "list_all2 ?R ps ds" by blast
  have "map pdId ds = ps" using ds(2) by (induction ps ds rule: list_all2_induct) simp_all
  moreover have "\<forall>d\<in>set ds. ?R (pdId d) d" using list_all2_set2 [OF ds(2)] by fastforce
  ultimately show ?thesis using ds(1) by blast
qed

lemma gjkr_reveals:
  assumes L: "bjj_laws L" "fr_laws L" "isFr context"
    and q: "\<forall>d\<in>set qual. isFr (pdId d) \<and> f (pdId d) \<noteq> [] \<and> (\<exists>bs. pdDeals L ps (f (pdId d)) bs d)"
  shows "\<exists>cs. mapR (reveal L ps context nonce) qual = Inr cs
    \<and> map dcId cs = map pdId qual \<and> list_all2 (dealsPoly L ps) (map f (map pdId qual)) cs"
proof -
  let ?R = "\<lambda>d c. dcId c = pdId d \<and> dealsPoly L ps (f (pdId d)) c"
  have "\<exists>cs. mapR (reveal L ps context nonce) qual = Inr cs \<and> list_all2 ?R qual cs"
    using q reveal_ok [OF L(1,2) _ _ _ L(3)] by (intro mapR_eq_map) blast
  then obtain cs where "mapR (reveal L ps context nonce) qual = Inr cs" "list_all2 ?R qual cs" by blast
  moreover have "map dcId cs = map pdId qual"
    using calculation(2) by (induction qual cs rule: list_all2_induct) simp_all
  ultimately show ?thesis by (auto simp: list_all2_conv_all_nth)
qed

section \<open>Properties\<close>

text \<open>C18: the GJKR run.  For any set of faulty dealers (each of which hands one participant a share
  that is off by one), exactly the faulty ones are disqualified; if a dealer is left the run returns
  a result that is consistent with the sum of the secrets of the qualified dealers, and if none is
  left it stops with its error.\<close>

theorem gjkr_excludes_faulty:
  assumes L: "bjj_laws L" "fr_laws L" "getH L = Inr h" and ctx: "isFr context" and t: "0 < t"
    and n: "int n < BN254_P"
    and draws: "\<forall>i\<in>{1..int n}. t \<le> length (aDraws i) \<and> t \<le> length (bDraws i)"
  shows "let ids = map int [1..<n + 1]; good = filter (\<lambda>i. i \<notin> bad) ids in
    if good = [] then runGjkrDkg L n t context bad aDraws bDraws nonce = Inl (Error ''gjkr: no qualified dealers'')
    else \<exists>r. runGjkrDkg L n t context bad aDraws bDraws nonce = Inr r \<and> dkgQual r = good
      \<and> dkg_consistent L ids t (\<Sum>i\<leftarrow>good. hd (aDraws i)) r"
proof -
  let ?ps = "map int [1..<n + 1]"
  let ?good = "filter (\<lambda>i. i \<notin> bad) ?ps" and ?f = "\<lambda>i. take t (aDraws i)"
  have ps: "\<forall>i\<in>set ?ps. t \<le> length (aDraws i) \<and> t \<le> length (bDraws i)" using draws by auto
  obtain ds where ds: "mapR (\<lambda>i. bindR (contribute L i ?ps t (aDraws i) (bDraws i)) (\<lambda>dealer.
      Inr (if i \<in> bad then corruptShare L ?ps dealer else dealer))) ?ps = Inr ds" "map pdId ds = ?ps"
    "\<forall>d\<in>set ds. dealerOk L d ?ps = Inr (pdId d \<notin> bad)
        \<and> (pdId d \<notin> bad \<longrightarrow> pdDeals L ?ps (?f (pdId d)) (take t (bDraws (pdId d))) d)"
    using gjkr_dealers [OF L(1,3) ps] by blast
  let ?qual = "filter (\<lambda>d. pdId d \<notin> bad) ds"
  have q: "qualify L ?ps ds = Inr ?qual" using ds(3) by (intro qualify_filter) auto
  have ids: "map pdId ?qual = ?good" 
  proof -
    have "?good = filter (\<lambda>i. i \<notin> bad) (map pdId ds)" by (simp only: ds(2))
    then show ?thesis by (simp only: filter_map comp_def)
  qed
  then have mem: "pdId d \<in> set ?ps" if "d \<in> set ?qual" for d using that ds(2) by (metis filter_is_subset image_eqI list.set_map subsetD)
  have "\<forall>d\<in>set ?qual. isFr (pdId d) \<and> ?f (pdId d) \<noteq> [] \<and> (\<exists>bs. pdDeals L ?ps (?f (pdId d)) bs d)"
  proof
    fix d assume d: "d \<in> set ?qual"
    from mem [OF d] have i: "pdId d \<in> {1..int n}" by auto
    then have "t \<le> length (aDraws (pdId d))" using draws by blast
    then have "?f (pdId d) \<noteq> []" using t by auto
    moreover have "isFr (pdId d)" using i n by (simp add: isFr_def)
    ultimately show "isFr (pdId d) \<and> ?f (pdId d) \<noteq> [] \<and> (\<exists>bs. pdDeals L ?ps (?f (pdId d)) bs d)"
      using d [unfolded set_filter mem_Collect_eq] ds(3) by blast
  qed
  from gjkr_reveals [OF L(1,2) ctx this] obtain cs where cs: "mapR (reveal L ?ps context nonce) ?qual = Inr cs"
    "map dcId cs = ?good" "list_all2 (dealsPoly L ?ps) (map ?f ?good) cs" unfolding ids by blast
  have "\<forall>f\<in>set (map ?f ?good). length f = t" using draws by auto
  from aggregate_consistent [OF L(1) cs(3) this] obtain r where r: "aggregate L ?ps cs = Inr r"
    "dkgQual r = map dcId cs" "dkg_consistent L ?ps t (\<Sum>f\<leftarrow>map ?f ?good. hd f) r" by blast
  have secrets: "(\<Sum>f\<leftarrow>map ?f ?good. hd f) = (\<Sum>i\<leftarrow>?good. hd (aDraws i))" using t by (simp add: hd_take comp_def)
  have "?qual = [] \<longleftrightarrow> ?good = []" using ids by (metis list.map_disc_iff)
  then show ?thesis
    using r cs q secrets unfolding runGjkrDkg_def Let_def ds(1) by simp
qed

lemma toy_getH: "\<exists>h. getH toyLibs = Inr h"
proof -
  have "isOk (getH toyLibs)" by code_simp
  then show ?thesis by (cases "getH toyLibs") auto
qed

theorem gjkr_excludes_faulty_witness:
  "\<exists>r. runGjkrDkg toyLibs 3 2 7 {2} (\<lambda>i. [i, 4]) (\<lambda>i. [2 * i, 3]) (\<lambda>i. i + 5) = Inr r \<and> dkgQual r = [1, 3]
    \<and> dkg_consistent toyLibs [1, 2, 3] 2 4 r"
proof -
  obtain h where h: "getH toyLibs = Inr h" using toy_getH by blast
  have ids: "map int [Suc 0..<4] = [1, 2, 3]" by (simp add: upt_rec)
  show ?thesis
    using gjkr_excludes_faulty [OF toyLibs_bjj_laws toyLibs_fr_laws h, of 7 2 3 "\<lambda>i. [i, 4]" "\<lambda>i. [2 * i, 3]" "{2}" "\<lambda>i. i + 5"]
    by (simp add: isFr_small BN254_P_def ids Let_def)
qed

end
