(* ===== verification/Frost.thy ===== *)
theory Frost
  imports Gjkr "HOL-Library.Multiset"
begin

text \<open>
  \<open>frost/frost.ts\<close>, \<open>frost/ciphersuite.ts\<close> and \<open>frost/ciphersuites/bjj.ts\<close>: two-round threshold
  Schnorr signing, generic in a ciphersuite, and the BabyJubJub/Poseidon2 suite.  The locale
  \<open>frost_suite\<close> states what the protocol needs of a suite (a prime-order group with a decidable
  equality and a generator in it) and holds the protocol lemmas; it is interpreted on
  \<open>bjjCiphersuite\<close>.
\<close>

section \<open>The ciphersuite interface\<close>

record 'g commitment =
  cId :: int
  cD :: 'g
  cE :: 'g

record 'g ciphersuite =
  csName :: string
  csGenerator :: 'g
  csIdentity :: 'g
  csAdd :: "'g \<Rightarrow> 'g \<Rightarrow> 'g"
  csScalarMul :: "int \<Rightarrow> 'g \<Rightarrow> 'g"
  csNegate :: "'g \<Rightarrow> 'g"
  csEq :: "'g \<Rightarrow> 'g \<Rightarrow> bool"
  csOrder :: int
  csNonceScalar :: "byte list \<Rightarrow> int \<Rightarrow> int result"
  csBindingFactor :: "'g \<Rightarrow> byte list \<Rightarrow> 'g commitment list \<Rightarrow> int \<Rightarrow> int result"
  csChallenge :: "'g \<Rightarrow> 'g \<Rightarrow> byte list \<Rightarrow> int result"

section \<open>Scalars\<close>

definition frostMod :: "int \<Rightarrow> int \<Rightarrow> int" where
  "frostMod x m = posMod x m"

lemma sdiv_remainder: "r \<noteq> 0 \<Longrightarrow> \<bar>old_r - (old_r sdiv r) * r\<bar> < \<bar>r :: int\<bar>"
proof -
  assume r: "r \<noteq> 0"
  have "old_r - (old_r sdiv r) * r = old_r smod r"
    by (rule minus_sdiv_mult_eq_smod)
  also have "\<bar>old_r smod r\<bar> < \<bar>r\<bar>"
    using r by (simp add: signed_modulo_int_def abs_mult sgn_if)
  finally show ?thesis .
qed

text \<open>The extended Euclidean loop of \<open>modInverse\<close> on its four variables.\<close>

function egcdLoop :: "int \<Rightarrow> int \<Rightarrow> int \<Rightarrow> int \<Rightarrow> int \<times> int" where
  "egcdLoop old_r r old_s s =
     (if r \<noteq> 0 then
        let q = old_r sdiv r in egcdLoop r (old_r - q * r) s (old_s - q * s)
      else (old_r, old_s))"
  by pat_completeness auto
termination
  by (relation "measure (\<lambda>(old_r, r, old_s, s). nat \<bar>r\<bar>)") (auto simp: sdiv_remainder)

declare egcdLoop.simps [simp del]

definition modInverse :: "int \<Rightarrow> int \<Rightarrow> int result" where
  "modInverse x m =
     (let (old_r, old_s) = egcdLoop (frostMod x m) m 1 0 in
      if old_r \<noteq> 1 then Inl (Error ''frost: scalar has no inverse mod order'')
      else Inr (frostMod old_s m))"

section \<open>Round one\<close>

record nonceHandle =
  nD :: int
  nE :: int
  consumed :: bool

definition newNonceHandle :: "int \<Rightarrow> int \<Rightarrow> nonceHandle" where
  "newNonceHandle d e = \<lparr>nD = d, nE = e, consumed = False\<rparr>"

definition markConsumed :: "nonceHandle \<Rightarrow> nonceHandle result" where
  "markConsumed h =
     (if consumed h
      then Inl (Error ''frost: one-time nonce reused (round-1 handle already consumed)'')
      else Inr (h\<lparr>consumed := True\<rparr>))"

definition sortById :: "'g commitment list \<Rightarrow> 'g commitment list" where
  "sortById commitments = sort_key cId commitments"

definition commit :: "'g ciphersuite \<Rightarrow> int \<Rightarrow> int \<Rightarrow> byte list \<Rightarrow> byte list
    \<Rightarrow> (nonceHandle \<times> 'g commitment) result" where
  "commit cs i secret hidingRandom bindingRandom =
     bindR (csNonceScalar cs hidingRandom secret) (\<lambda>d.
     bindR (csNonceScalar cs bindingRandom secret) (\<lambda>e.
     Inr (newNonceHandle d e,
          \<lparr>cId = i, cD = csScalarMul cs d (csGenerator cs), cE = csScalarMul cs e (csGenerator cs)\<rparr>)))"

section \<open>Binding factors, group commitment, Lagrange coefficient\<close>

definition bindingFactors :: "'g ciphersuite \<Rightarrow> 'g \<Rightarrow> byte list \<Rightarrow> 'g commitment list \<Rightarrow> (int \<rightharpoonup> int) result" where
  "bindingFactors cs gpk msg commitments =
     (let sorted = sortById commitments in
      foldR (\<lambda>out c. bindR (csBindingFactor cs gpk msg sorted (cId c)) (\<lambda>rho. Inr (out(cId c \<mapsto> rho))))
        Map.empty sorted)"

definition groupCommitment :: "'g ciphersuite \<Rightarrow> 'g commitment list \<Rightarrow> (int \<rightharpoonup> int) \<Rightarrow> 'g result" where
  "groupCommitment cs commitments rhos =
     foldR (\<lambda>R c. bindR (getOr (Error ''frost: missing binding factor'') (rhos (cId c))) (\<lambda>rho.
       Inr (csAdd cs R (csAdd cs (cD c) (csScalarMul cs rho (cE c))))))
       (csIdentity cs) (sortById commitments)"

definition lagrangeCoefficientStep :: "int \<Rightarrow> int \<Rightarrow> int \<Rightarrow> int \<times> int \<Rightarrow> int \<times> int" where
  "lagrangeCoefficientStep m i j = (\<lambda>(num, den).
     if j = i then (num, den)
     else (frostMod (num * frostMod j m) m, frostMod (den * frostMod (j - i) m) m))"

definition lagrangeCoefficient :: "'g ciphersuite \<Rightarrow> int \<Rightarrow> int list \<Rightarrow> int result" where
  "lagrangeCoefficient cs i signerSet =
     (let m = csOrder cs; (num, den) = fold (lagrangeCoefficientStep m i) signerSet (1, 1) in
      bindR (modInverse den m) (\<lambda>inv. Inr (frostMod (num * inv) m)))"

section \<open>Round two\<close>

definition signShareUnchecked ::
    "'g ciphersuite \<Rightarrow> int \<Rightarrow> nonceHandle \<Rightarrow> int \<Rightarrow> 'g \<Rightarrow> byte list \<Rightarrow> 'g commitment list \<Rightarrow> int result" where
  "signShareUnchecked cs i nonces secretShare gpk msg commitments =
     (let m = csOrder cs; signerSet = map cId commitments in
      bindR (bindingFactors cs gpk msg commitments) (\<lambda>rhos.
      bindR (groupCommitment cs commitments rhos) (\<lambda>R.
      bindR (csChallenge cs R gpk msg) (\<lambda>c.
      bindR (lagrangeCoefficient cs i signerSet) (\<lambda>lambda.
      bindR (getOr (Error ''frost: signer not in commitment list'') (rhos i)) (\<lambda>rho.
      Inr (frostMod (nD nonces + frostMod (nE nonces * rho) m
             + frostMod (frostMod (lambda * secretShare) m * c) m) m)))))))"

text \<open>The handle after the call is part of the result: it stays consumed when the signing throws.\<close>

definition signShare ::
    "'g ciphersuite \<Rightarrow> int \<Rightarrow> nonceHandle \<Rightarrow> int \<Rightarrow> 'g \<Rightarrow> byte list \<Rightarrow> 'g commitment list
      \<Rightarrow> nonceHandle \<times> int result" where
  "signShare cs i nonces secretShare gpk msg commitments =
     (case markConsumed nonces of Inl e \<Rightarrow> (nonces, Inl e)
      | Inr nonces' \<Rightarrow> (nonces', signShareUnchecked cs i nonces' secretShare gpk msg commitments))"

definition verifySignatureShare ::
    "'g ciphersuite \<Rightarrow> int \<Rightarrow> int \<Rightarrow> 'g \<Rightarrow> 'g \<Rightarrow> byte list \<Rightarrow> 'g commitment list \<Rightarrow> bool result" where
  "verifySignatureShare cs i zShare publicShare gpk msg commitments =
     (let m = csOrder cs; signerSet = map cId commitments in
      bindR (bindingFactors cs gpk msg commitments) (\<lambda>rhos.
      bindR (groupCommitment cs commitments rhos) (\<lambda>R.
      bindR (csChallenge cs R gpk msg) (\<lambda>c.
      case find (\<lambda>k. cId k = i) commitments of None \<Rightarrow> Inr False
      | Some commitment \<Rightarrow>
        let rho = the (rhos i) in
        bindR (lagrangeCoefficient cs i signerSet) (\<lambda>lambda.
        let lhs = csScalarMul cs zShare (csGenerator cs);
            commShare = csAdd cs (cD commitment) (csScalarMul cs rho (cE commitment));
            rhs = csAdd cs commShare (csScalarMul cs (frostMod (c * lambda) m) publicShare)
        in Inr (csEq cs lhs rhs))))))"

record 'g signature =
  sigR :: 'g
  sigZ :: int

record 'g partialSig =
  pId :: int
  pZ :: int
  pPublicShare :: 'g

definition frostAggregate :: "'g ciphersuite \<Rightarrow> 'g \<Rightarrow> int list \<Rightarrow> 'g signature" where
  "frostAggregate cs R zShares =
     \<lparr>sigR = R, sigZ = fold (\<lambda>zi z. frostMod (z + zi) (csOrder cs)) zShares 0\<rparr>"

text \<open>The duplicate check: the set of identifiers seen so far.\<close>

definition distinctSigners :: "'g partialSig list \<Rightarrow> int set result" where
  "distinctSigners partials =
     foldR (\<lambda>seen s.
       if pId s \<in> seen then Inl (Error ''frost: duplicate signature share (replay rejected)'')
       else Inr (insert (pId s) seen)) {} partials"

definition coordinatorAggregate ::
    "'g ciphersuite \<Rightarrow> 'g \<Rightarrow> 'g \<Rightarrow> byte list \<Rightarrow> 'g commitment list \<Rightarrow> 'g partialSig list \<Rightarrow> nat
      \<Rightarrow> 'g signature result" where
  "coordinatorAggregate cs R gpk msg commitments partials threshold =
     bindR (distinctSigners partials) (\<lambda>seen.
     bindR (guardR (\<not> card seen < threshold) (Error ''frost: distinct shares below threshold'')) (\<lambda>_.
     bindR (foldR (\<lambda>_ s.
         bindR (verifySignatureShare cs (pId s) (pZ s) (pPublicShare s) gpk msg commitments) (\<lambda>ok.
         guardR ok (Error ''frost: signature share failed verification (identifiable abort)''))) () partials) (\<lambda>_.
     Inr (frostAggregate cs R (map pZ partials)))))"

definition frostVerify :: "'g ciphersuite \<Rightarrow> 'g \<Rightarrow> byte list \<Rightarrow> 'g signature \<Rightarrow> bool result" where
  "frostVerify cs gpk msg sig =
     bindR (csChallenge cs (sigR sig) gpk msg) (\<lambda>c.
     let lhs = csScalarMul cs (sigZ sig) (csGenerator cs);
         rhs = csAdd cs (sigR sig) (csScalarMul cs c gpk)
     in Inr (csEq cs lhs rhs))"

section \<open>The BabyJubJub suite\<close>

definition SCHNORR_DOMAIN :: int where
  "SCHNORR_DOMAIN = 0xc226e4b2bad84dcd0be5f5cc5c4334b8906fc9057331061d0b5b6117c74c667"

definition FROST_RHO_DOMAIN :: int where
  "FROST_RHO_DOMAIN = 0x14d965d53f58e0d5753aa0dfa8def0c242fd638f6278452e72189ace62f2d5dd"

definition FROST_NONCE_DOMAIN :: int where
  "FROST_NONCE_DOMAIN = 0x6faa2a7a4934ae04655b2c2ad065be999db3e7558efb4c5773dcb0049d171c1"

definition FROST_MSG_DOMAIN :: int where
  "FROST_MSG_DOMAIN = 0xbcc548ac662c18acfe3a7e55819b50f625844f6970073879a345c4e72b9a5b3"

definition FROST_COM_DOMAIN :: int where
  "FROST_COM_DOMAIN = 0xcbf15304e113ef84855f7f50023246fd9dbfe5f507d30bf4ef95a4c2a4915d4"

definition encodeMessage :: "int \<Rightarrow> byte list" where
  "encodeMessage m = toBytesBE 32 m"

definition decodeMessage :: "byte list \<Rightarrow> int" where
  "decodeMessage msg = bytesBE msg smod BN254_P"

definition bytesToField :: "byte list \<Rightarrow> int" where
  "bytesToField bytes = bytesBE bytes smod BN254_P"

definition hashMessage :: "libs \<Rightarrow> byte list \<Rightarrow> int result" where
  "hashMessage L msg = poseidon2 L [FROST_MSG_DOMAIN, decodeMessage msg]"

definition hashCommitmentList :: "libs \<Rightarrow> point commitment list \<Rightarrow> int result" where
  "hashCommitmentList L commitments =
     (let sorted = sort_key cId commitments in
      poseidon2 L ([FROST_COM_DOMAIN] @
        concat (map (\<lambda>c. [cId c, fst (cD c), snd (cD c), fst (cE c), snd (cE c)]) sorted)))"

definition bjjNonceScalar :: "libs \<Rightarrow> byte list \<Rightarrow> int \<Rightarrow> int result" where
  "bjjNonceScalar L random32 secret = hashToScalar L FROST_NONCE_DOMAIN [bytesToField random32, secret]"

definition bjjBindingFactor :: "libs \<Rightarrow> point \<Rightarrow> byte list \<Rightarrow> point commitment list \<Rightarrow> int \<Rightarrow> int result" where
  "bjjBindingFactor L gpk msg commitments i =
     bindR (hashMessage L msg) (\<lambda>h4.
     bindR (hashCommitmentList L commitments) (\<lambda>h5.
     hashToScalar L FROST_RHO_DOMAIN [fst gpk, snd gpk, h4, h5, i]))"

definition bjjChallenge :: "libs \<Rightarrow> point \<Rightarrow> point \<Rightarrow> byte list \<Rightarrow> int result" where
  "bjjChallenge L R gpk msg =
     bindR (challengeScalar L [SCHNORR_DOMAIN, fst R, snd R, fst gpk, snd gpk, decodeMessage msg]) (\<lambda>full.
     Inr (full smod 2 ^ 248))"

definition bjjCiphersuite :: "libs \<Rightarrow> point ciphersuite" where
  "bjjCiphersuite L = \<lparr>
     csName = ''FROST-BABYJUBJUB-POSEIDON2-v1'',
     csGenerator = Base8 L,
     csIdentity = IDENTITY,
     csAdd = pointAdd L,
     csScalarMul = scalarMul L,
     csNegate = pointNeg,
     csEq = pointEq,
     csOrder = SUBORDER L,
     csNonceScalar = bjjNonceScalar L,
     csBindingFactor = bjjBindingFactor L,
     csChallenge = bjjChallenge L\<rparr>"

section \<open>The modular inverse\<close>

lemma egcdLoop_correct:
  assumes "0 \<le> old_r" "0 \<le> r" "m dvd old_s * x - old_r" "m dvd s * x - r"
    and "egcdLoop old_r r old_s s = (g, t)"
  shows "g = gcd old_r r \<and> m dvd t * x - g"
  using assms
proof (induction old_r r old_s s rule: egcdLoop.induct)
  case (1 old_r r old_s s)
  show ?case
  proof (cases "r = 0")
    case True
    then show ?thesis using "1.prems" by (simp add: egcdLoop.simps)
  next
    case False
    let ?q = "old_r sdiv r"
    have md: "old_r - ?q * r = old_r mod r"
      using "1.prems"(1,2) False by (simp add: minus_sdiv_mult_eq_smod smod_nonneg)
    have "m dvd (old_s * x - old_r) - ?q * (s * x - r)"
      by (rule dvd_diff [OF "1.prems"(3) dvd_mult [OF "1.prems"(4)]])
    then have d: "m dvd (old_s - ?q * s) * x - (old_r - ?q * r)" by (simp add: algebra_simps)
    have "egcdLoop r (old_r - ?q * r) s (old_s - ?q * s) = (g, t)"
      using "1.prems"(5) False by (simp add: egcdLoop.simps [of old_r] Let_def)
    then have "g = gcd r (old_r - ?q * r) \<and> m dvd t * x - g"
      using "1.prems"(2,4) False d by (intro "1.IH" [OF False refl]) (simp_all add: md)
    moreover have "gcd r (old_r - ?q * r) = gcd old_r r" by (simp only: md gcd_red_int [of old_r r])
    ultimately show ?thesis by metis
  qed
qed

lemma frostMod_eq: "0 < m \<Longrightarrow> frostMod x m = x mod m"
  by (simp add: frostMod_def posMod_eq_mod)

lemma modInverse_spec:
  assumes m: "1 < m"
  shows "if coprime x m then \<exists>y. modInverse x m = Inr y \<and> (x * y) mod m = 1 \<and> 0 \<le> y \<and> y < m
    else modInverse x m = Inl (Error ''frost: scalar has no inverse mod order'')"
proof -
  obtain g t where gt: "egcdLoop (x mod m) m 1 0 = (g, t)" by (cases "egcdLoop (x mod m) m 1 0")
  have "m dvd 1 * x - x mod m" by (simp add: mod_eq_dvd_iff [symmetric])
  moreover have "m dvd 0 * x - m" by simp
  ultimately have "g = gcd (x mod m) m \<and> m dvd t * x - g"
    using m by (intro egcdLoop_correct [OF _ _ _ _ gt]) simp_all
  then have g: "g = gcd (x mod m) m" "m dvd t * x - g" by blast+
  have gx: "g = gcd x m" using g(1) by (metis gcd.commute gcd_red_int)
  show ?thesis
  proof (cases "coprime x m")
    case True
    then have "g = 1" using gx by simp
    with g(2) m have "(x * (t mod m)) mod m = 1"
      by (simp add: mod_mult_right_eq mod_eq_dvd_iff [symmetric] mult.commute)
    with True gt \<open>g = 1\<close> m show ?thesis by (simp add: modInverse_def frostMod_eq)
  next
    case False
    then have "g \<noteq> 1" using gx by (simp add: coprime_iff_gcd_eq_1)
    with False gt m show ?thesis by (simp add: modInverse_def frostMod_eq)
  qed
qed

section \<open>Sums of points\<close>

context scalar_group
begin

lemma fold_add_mset:
  assumes "mset xs = mset ys" "mem P" "\<And>x. x \<in> set xs \<Longrightarrow> mem (f x)"
  shows "fold (\<lambda>x R. add R (f x)) xs P = fold (\<lambda>x R. add R (f x)) ys P"
proof (rule fold_permuted_eq [where P = mem])
  fix x y z
  assume "x \<in> set xs" "y \<in> set xs" "mem z"
  then show "add (add z (f y)) (f x) = add (add z (f x)) (f y)"
    using assms(3) add_comm [of "f x" "f y"] by (simp add: add_assoc)
qed (use assms in auto)

lemma fold_add_add:
  assumes "\<And>x. x \<in> set xs \<Longrightarrow> mem (f x) \<and> mem (g x)" "mem P" "mem Q"
  shows "fold (\<lambda>x R. add R (add (f x) (g x))) xs (add P Q)
    = add (fold (\<lambda>x R. add R (f x)) xs P) (fold (\<lambda>x R. add R (g x)) xs Q)"
  using assms
proof (induction xs arbitrary: P Q)
  case (Cons x xs)
  have "add (add P Q) (add (f x) (g x)) = add (add P (f x)) (add Q (g x))"
    using Cons.prems by (simp add: add_assoc add_left_comm)
  then show ?case using Cons by simp
qed simp

lemma smul_fold:
  assumes "\<And>x. x \<in> set xs \<Longrightarrow> mem (f x)" "mem P"
  shows "smul k (fold (\<lambda>x R. add R (f x)) xs P) = fold (\<lambda>x R. add R (smul k (f x))) xs (smul k P)"
  using assms by (induction xs arbitrary: P) (simp_all add: smul_add_point)

lemma fold_add_cong:
  "(\<And>x. x \<in> set xs \<Longrightarrow> f x = g x) \<Longrightarrow> fold (\<lambda>x R. add R (f x)) xs P = fold (\<lambda>x R. add R (g x)) xs P"
  by (induction xs arbitrary: P) simp_all

lemma fold_add_map: "fold (\<lambda>x R. add R (f x)) (map h xs) P = fold (\<lambda>x R. add R (f (h x))) xs P"
  by (induction xs arbitrary: P) simp_all

end

section \<open>What the protocol needs of a suite\<close>

locale frost_suite =
  fixes cs :: "'g ciphersuite" and mem :: "'g \<Rightarrow> bool"
  assumes suite_group: "scalar_group (csAdd cs) (csIdentity cs) (csScalarMul cs) (csOrder cs) mem"
    and generator_mem: "mem (csGenerator cs)"
    and suite_eq: "csEq cs a b \<longleftrightarrow> a = b"

sublocale frost_suite \<subseteq> scalar_group "csAdd cs" "csIdentity cs" "csScalarMul cs" "csOrder cs" mem
  by (rule suite_group)

section \<open>Binding factors and coefficients\<close>

lemma sortById_mset [simp]: "mset (sortById coms) = mset coms"
  by (simp add: sortById_def)

lemma sortById_set [simp]: "set (sortById coms) = set coms"
  by (simp add: sortById_def)

lemma bindingFactors_dom:
  assumes "bindingFactors cs gpk msg coms = Inr rhos" "c \<in> set coms"
  shows "rhos (cId c) \<noteq> None"
proof -
  have "foldR (\<lambda>out c. bindR (csBindingFactor cs gpk msg srt (cId c)) (\<lambda>rho. Inr (out(cId c \<mapsto> rho)))) m xs = Inr m'
      \<Longrightarrow> dom m \<union> cId ` set xs \<subseteq> dom m'" for m m' srt xs
  proof (induction xs arbitrary: m)
    case (Cons x xs)
    from Cons.prems obtain rho where "csBindingFactor cs gpk msg srt (cId x) = Inr rho"
      and "foldR (\<lambda>out c. bindR (csBindingFactor cs gpk msg srt (cId c)) (\<lambda>rho. Inr (out(cId c \<mapsto> rho)))) (m(cId x \<mapsto> rho)) xs = Inr m'"
      by (cases "csBindingFactor cs gpk msg srt (cId x)") (simp_all del: fun_upd_apply)
    from Cons.IH [OF this(2)] show ?case by (simp only: dom_fun_upd) auto
  qed simp
  from this [of "sortById coms" Map.empty "sortById coms" rhos] show ?thesis
    using assms by (auto simp: bindingFactors_def Let_def)
qed

lemma lagrangeCoefficient_loop:
  assumes m: "0 < m"
  shows "fold (lagrangeCoefficientStep m i) xs (a mod m, b mod m)
    = ((a * (\<Prod>j\<leftarrow>filter (\<lambda>j. j \<noteq> i) xs. j mod m)) mod m, (b * (\<Prod>j\<leftarrow>filter (\<lambda>j. j \<noteq> i) xs. j - i)) mod m)"
proof (induction xs arbitrary: a b)
  case (Cons x xs)
  show ?case
  proof (cases "x = i")
    case True
    then show ?thesis using Cons.IH [of a b] by (simp add: lagrangeCoefficientStep_def)
  next
    case False
    then have "lagrangeCoefficientStep m i x (a mod m, b mod m) = ((a * (x mod m)) mod m, (b * (x - i)) mod m)"
      by (simp add: lagrangeCoefficientStep_def frostMod_eq [OF m] mod_mult_left_eq)
        (simp only: mod_mult_right_eq)
    then show ?thesis using False Cons.IH [of "a * (x mod m)" "b * (x - i)"] by (simp add: mult.assoc)
  qed
qed simp

lemma prod_list_mod_cong:
  "(\<And>x. x \<in> set xs \<Longrightarrow> f x mod m = g x mod m) \<Longrightarrow> (\<Prod>x\<leftarrow>xs. f x) mod m = (\<Prod>x\<leftarrow>xs. g x) mod (m::int)"
proof (induction xs)
  case (Cons x xs)
  have "f x mod m = g x mod m" "(\<Prod>x\<leftarrow>xs. f x) mod m = (\<Prod>x\<leftarrow>xs. g x) mod m" using Cons by simp_all
  then have "(f x * (\<Prod>x\<leftarrow>xs. f x)) mod m = (g x * (\<Prod>x\<leftarrow>xs. g x)) mod m" by (rule mod_mult_cong)
  then show ?case by simp
qed simp

text \<open>The residues of a signer set, and when they can be interpolated.\<close>

definition residues :: "int \<Rightarrow> int list \<Rightarrow> int set" where
  "residues q xs = (\<lambda>x. x mod q) ` set xs"

definition signerSetOk :: "int \<Rightarrow> int list \<Rightarrow> bool" where
  "signerSetOk q xs \<longleftrightarrow> distinct (map (\<lambda>x. x mod q) xs) \<and> 0 \<notin> residues q xs"

lemma signerSetOk_range: "1 < q \<Longrightarrow> signerSetOk q xs \<Longrightarrow> residues q xs \<subseteq> {1..<q}"
proof
  fix x assume q: "1 < q" and ok: "signerSetOk q xs" and x: "x \<in> residues q xs"
  then have "0 \<le> x" "x < q" by (auto simp: residues_def)
  moreover have "x \<noteq> 0" using ok x by (metis signerSetOk_def)
  ultimately show "x \<in> {1..<q}" by simp
qed

lemma lagrangeCoefficient_lag:
  assumes q: "is_prime (csOrder cs)" and ok: "signerSetOk (csOrder cs) xs" and i: "i \<in> set xs"
  shows "lagrangeCoefficient cs i xs
    = Inr (lag (csOrder cs) (residues (csOrder cs) xs) (i mod csOrder cs) mod csOrder cs)"
proof -
  let ?q = "csOrder cs" and ?o = "filter (\<lambda>j. j \<noteq> i) xs"
  let ?S = "residues ?q xs" and ?n = "\<Prod>j\<leftarrow>?o. j mod ?q" and ?d = "\<Prod>j\<leftarrow>?o. j - i"
  have q1: "1 < ?q" by (rule is_prime_gt_1 [OF q])
  have dm: "distinct (map (\<lambda>x. x mod ?q) xs)" using ok by (simp add: signerSetOk_def)
  have S: "finite ?S" "?S \<subseteq> {1..<?q}" "i mod ?q \<in> ?S"
    using signerSetOk_range [OF q1 ok] i by (auto simp: residues_def)
  have dist: "distinct (map (\<lambda>j. j mod ?q) ?o)" using dm by (simp add: distinct_map_filter)
  have inj: "inj_on (\<lambda>x. x mod ?q) (set xs)" using dm by (simp add: distinct_map)
  have set: "set (map (\<lambda>j. j mod ?q) ?o) = ?S - {i mod ?q}"
    using inj_on_image_set_diff [OF inj, of "set xs" "{i}"] i by (auto simp: residues_def set_diff_eq)
  have prod: "(\<Prod>j\<leftarrow>?o. f (j mod ?q)) = (\<Prod>j\<in>?S - {i mod ?q}. f j)" for f :: "int \<Rightarrow> int"
    using prod.distinct_set_conv_list [OF dist, of f] set by (simp add: comp_def)
  have num: "?n = lnum ?S (i mod ?q)" using prod [of "\<lambda>j. j"] by (simp add: lnum_def)
  have "?d mod ?q = (\<Prod>j\<leftarrow>?o. j mod ?q - i mod ?q) mod ?q"
    by (rule prod_list_mod_cong) (simp add: mod_diff_eq)
  then have den: "?d mod ?q = lden ?S (i mod ?q) mod ?q"
    using prod [of "\<lambda>j. j - i mod ?q"] by (simp add: lden_def)
  have "\<not> ?q dvd ?d mod ?q"
    using lden_not_dvd [OF q S] by (simp add: den) (simp add: dvd_eq_mod_eq_0)
  then have "coprime (?d mod ?q) ?q" 
    by (rule is_prime_coprime [OF q, THEN coprime_commute [THEN iffD1]])
  then obtain y where y: "modInverse (?d mod ?q) ?q = Inr y" "((?d mod ?q) * y) mod ?q = 1"
    using modInverse_spec [OF q1, of "?d mod ?q"] by auto
  let ?l = "(?n mod ?q * y) mod ?q"
  have "?q dvd ?l * lden ?S (i mod ?q) - lnum ?S (i mod ?q)"
  proof -
    have "(?l * lden ?S (i mod ?q)) mod ?q = (?n * (((?d mod ?q) * y) mod ?q)) mod ?q"
      by (simp add: den mod_simps algebra_simps)
    then show ?thesis by (simp add: y(2) num mod_eq_dvd_iff)
  qed
  from lag_unique [OF q S this] have "?l = lag ?q ?S (i mod ?q) mod ?q"
    by (simp add: mod_eq_dvd_iff [symmetric])
  then show ?thesis
    using lagrangeCoefficient_loop [of ?q i xs 1 1] q1 y(1)
    by (simp add: lagrangeCoefficient_def Let_def frostMod_eq)
qed

section \<open>The protocol over a suite\<close>

context frost_suite
begin

text \<open>What signer \<open>c\<close> adds to the group commitment.\<close>

abbreviation comShare :: "(int \<rightharpoonup> int) \<Rightarrow> 'g commitment \<Rightarrow> 'g" where
  "comShare rhos c \<equiv> csAdd cs (cD c) (csScalarMul cs (the (rhos (cId c))) (cE c))"

abbreviation psum :: "('a \<Rightarrow> 'g) \<Rightarrow> 'a list \<Rightarrow> 'g" where
  "psum f xs \<equiv> fold (\<lambda>x R. csAdd cs R (f x)) xs (csIdentity cs)"

lemma order_gt_1: "1 < csOrder cs"
  by (rule is_prime_gt_1 [OF prime_q])

lemma fmod [simp]: "frostMod x (csOrder cs) = x mod csOrder cs"
  using order_gt_1 by (simp add: frostMod_eq)

lemma groupCommitment_psum:
  assumes "\<forall>c\<in>set coms. rhos (cId c) \<noteq> None" and "\<forall>c\<in>set coms. mem (cD c) \<and> mem (cE c)"
  shows "groupCommitment cs coms rhos = Inr (psum (comShare rhos) coms)"
proof -
  have loop: "foldR (\<lambda>R c. bindR (getOr e (rhos (cId c))) (\<lambda>rho.
       Inr (csAdd cs R (csAdd cs (cD c) (csScalarMul cs rho (cE c)))))) R xs
      = Inr (fold (\<lambda>x R. csAdd cs R (comShare rhos x)) xs R)" if "\<forall>c\<in>set xs. rhos (cId c) \<noteq> None" for e R xs
    using that by (induction xs arbitrary: R) auto
  have "groupCommitment cs coms rhos = Inr (psum (comShare rhos) (sortById coms))"
    unfolding groupCommitment_def by (rule loop) (use assms(1) in simp)
  moreover have "psum (comShare rhos) (sortById coms) = psum (comShare rhos) coms"
    by (rule fold_add_mset) (use assms(2) in auto)
  ultimately show ?thesis by metis
qed

lemma psum_mem: "(\<And>x. x \<in> set xs \<Longrightarrow> mem (f x)) \<Longrightarrow> mem (psum f xs)"
  by (rule fold_add_mem) simp_all

text \<open>An accepted share satisfies the Schnorr equation of its signer.\<close>

lemma verifyShare_equation:
  assumes ok: "verifySignatureShare cs i z Y gpk msg coms = Inr True"
    and rhos: "bindingFactors cs gpk msg coms = Inr rhos"
    and R: "groupCommitment cs coms rhos = Inr R" and ch: "csChallenge cs R gpk msg = Inr c"
  shows "\<exists>k l. find (\<lambda>k. cId k = i) coms = Some k \<and> lagrangeCoefficient cs i (map cId coms) = Inr l
    \<and> csScalarMul cs z (csGenerator cs)
      = csAdd cs (comShare rhos k) (csScalarMul cs ((c * l) mod csOrder cs) Y)"
proof -
  obtain k where k: "find (\<lambda>k. cId k = i) coms = Some k"
    using ok rhos R ch by (auto simp: verifySignatureShare_def Let_def split: option.splits)
  then have "cId k = i" by (auto simp: find_Some_iff)
  with k show ?thesis
    using ok rhos R ch by (auto simp: verifySignatureShare_def Let_def suite_eq)
qed

text \<open>The sum of accepted shares of exactly the committed signers satisfies the equation of the
  group, when the public shares combine to the group key.\<close>

lemma accepted_shares_sum:
  assumes perm: "mset (map pId ps) = mset (map cId coms)" and dist: "distinct (map cId coms)"
    and cm: "\<forall>c\<in>set coms. mem (cD c) \<and> mem (cE c)" and ym: "\<forall>p\<in>set ps. mem (pPublicShare p)"
    and ok: "\<forall>p\<in>set ps. verifySignatureShare cs (pId p) (pZ p) (pPublicShare p) gpk msg coms = Inr True"
    and rhos: "bindingFactors cs gpk msg coms = Inr rhos"
    and R: "groupCommitment cs coms rhos = Inr R" and ch: "csChallenge cs R gpk msg = Inr c"
    and lc: "\<forall>p\<in>set ps. lagrangeCoefficient cs (pId p) (map cId coms) = Inr (l (pId p))"
    and key: "psum (\<lambda>p. csScalarMul cs (l (pId p)) (pPublicShare p)) ps = gpk"
  shows "csScalarMul cs (\<Sum>p\<leftarrow>ps. pZ p) (csGenerator cs) = csAdd cs R (csScalarMul cs c gpk)"
proof -
  let ?G = "csGenerator cs" and ?k = "\<lambda>i. the (find (\<lambda>k. cId k = i) coms)"
  have k: "?k (cId a) = a" if "a \<in> set coms" for a
  proof -
    have "find (\<lambda>k. cId k = cId a) coms = Some a"
      using that dist by (induction coms) (auto simp: image_iff)
    then show ?thesis by simp
  qed
  have ids: "pId p \<in> cId ` set coms" if "p \<in> set ps" for p
    using that perm by (metis image_eqI list.set_map mset_eq_setD)
  have km: "mem (comShare rhos (?k (pId p)))" if "p \<in> set ps" for p
    using ids [OF that] cm k by auto
  have eq: "csScalarMul cs (pZ p) ?G
      = csAdd cs (comShare rhos (?k (pId p))) (csScalarMul cs c (csScalarMul cs (l (pId p)) (pPublicShare p)))"
    if "p \<in> set ps" for p
    using verifyShare_equation [OF ok [rule_format, OF that] rhos R ch] lc that ym
    by (auto simp: smul_mod smul_mult)
  have "csScalarMul cs (\<Sum>p\<leftarrow>ps. pZ p) ?G = psum (\<lambda>p. csScalarMul cs (pZ p) ?G) ps"
    using fold_add_smul_ident [OF generator_mem, of pZ ps] by simp
  also have "\<dots> = psum (\<lambda>p. csAdd cs (comShare rhos (?k (pId p)))
      (csScalarMul cs c (csScalarMul cs (l (pId p)) (pPublicShare p)))) ps"
    by (rule fold_add_cong) (rule eq)
  also have "\<dots> = csAdd cs (psum (\<lambda>p. comShare rhos (?k (pId p))) ps)
      (psum (\<lambda>p. csScalarMul cs c (csScalarMul cs (l (pId p)) (pPublicShare p))) ps)"
    using fold_add_add [of ps "\<lambda>p. comShare rhos (?k (pId p))" "\<lambda>p. csScalarMul cs c (csScalarMul cs (l (pId p)) (pPublicShare p))"
        "csIdentity cs" "csIdentity cs"] km ym add_ident [OF ident_mem] by simp
  also have "psum (\<lambda>p. csScalarMul cs c (csScalarMul cs (l (pId p)) (pPublicShare p))) ps = csScalarMul cs c gpk"
    using smul_fold [of ps "\<lambda>p. csScalarMul cs (l (pId p)) (pPublicShare p)" "csIdentity cs" c] ym key
    by (simp add: smul_ident)
  also have "psum (\<lambda>p. comShare rhos (?k (pId p))) ps = R"
  proof -
    have "psum (\<lambda>p. comShare rhos (?k (pId p))) ps = psum (\<lambda>i. comShare rhos (?k i)) (map pId ps)"
      by (simp add: fold_add_map)
    also have "\<dots> = psum (\<lambda>i. comShare rhos (?k i)) (map cId coms)"
      by (rule fold_add_mset [OF perm]) (use km in auto)
    also have "\<dots> = psum (\<lambda>a. comShare rhos (?k (cId a))) coms" by (simp add: fold_add_map)
    also have "\<dots> = psum (comShare rhos) coms" by (rule fold_add_cong) (simp add: k)
    also have "\<dots> = R" using groupCommitment_psum [of coms rhos] bindingFactors_dom [OF rhos] cm R by auto
    finally show ?thesis .
  qed
  finally show ?thesis .
qed

text \<open>Public shares of a polynomial combine to the key of its constant term.\<close>

lemma public_shares_combine:
  assumes ok: "signerSetOk (csOrder cs) xs" and len: "length f \<le> length xs"
  shows "psum (\<lambda>i. csScalarMul cs (lag (csOrder cs) (residues (csOrder cs) xs) (i mod csOrder cs) mod csOrder cs)
      (csScalarMul cs (horner f i) (csGenerator cs))) xs
    = csScalarMul cs (horner f 0) (csGenerator cs)"
proof -
  let ?q = "csOrder cs" and ?G = "csGenerator cs"
  let ?l = "\<lambda>i. lag ?q (residues ?q xs) (i mod ?q)"
  have d: "distinct (map (\<lambda>x. x mod ?q) xs)" using ok by (simp add: signerSetOk_def)
  have "psum (\<lambda>i. csScalarMul cs (?l i mod ?q) (csScalarMul cs (horner f i) ?G)) xs
      = psum (\<lambda>i. csScalarMul cs (?l i * horner f i) ?G) xs"
    by (rule fold_add_cong) (simp add: smul_mod smul_mult generator_mem)
  also have "\<dots> = csScalarMul cs (\<Sum>i\<leftarrow>xs. ?l i * horner f i) ?G"
    by (rule fold_add_smul_ident [OF generator_mem])
  also have "\<dots> = csScalarMul cs (horner f 0) ?G"
  proof (rule smul_cong [OF generator_mem])
    have "(\<Sum>i\<leftarrow>xs. ?l i * horner f i) = (\<Sum>i\<in>set xs. ?l i * horner f i)"
      using d by (intro sum_list_distinct_conv_sum_set) (simp add: distinct_map)
    also have "\<dots> mod ?q = (\<Sum>i\<in>set xs. ?l i * horner f (i mod ?q)) mod ?q"
      by (rule sum_mod_cong, rule mod_mult_cong [OF refl], rule horner_mod_cong) simp
    also have "(\<Sum>i\<in>set xs. ?l i * horner f (i mod ?q))
        = (\<Sum>i\<in>residues ?q xs. lag ?q (residues ?q xs) i * horner f i)"
      using d by (simp add: residues_def sum.reindex distinct_map)
    also have "\<dots> mod ?q = horner f 0 mod ?q"
    proof -
      have "card (residues ?q xs) = length xs"
        using d by (metis distinct_card length_map set_map residues_def)
      then show ?thesis
        using lagrange_at_zero [OF prime_q _ signerSetOk_range [OF order_gt_1 ok], of f] len
        by (simp add: mod_eq_dvd_iff residues_def)
    qed
    finally show "(\<Sum>i\<leftarrow>xs. ?l i * horner f i) mod ?q = horner f 0 mod ?q" .
  qed
  finally show ?thesis .
qed

end

end
