(* ===== verification/FrostSigning.thy ===== *)
theory FrostSigning
  imports Frost
begin

text \<open>
  The signing protocol on the BabyJubJub suite: the interpretation of \<open>frost_suite\<close>, totality of the
  suite's hashes on well-formed inputs, completeness of honest signing, validity of what the
  coordinator outputs, the one-time rule for nonces, and the case the coordinator does not check.
\<close>

section \<open>The suite satisfies the interface\<close>

interpretation bjjSuite: frost_suite "bjjCiphersuite (lawful L)" "inSubgroup (lawful L)" for L
proof (rule frost_suite.intro)
  show "scalar_group (csAdd (bjjCiphersuite (lawful L))) (csIdentity (bjjCiphersuite (lawful L)))
      (csScalarMul (bjjCiphersuite (lawful L))) (csOrder (bjjCiphersuite (lawful L))) (inSubgroup (lawful L))"
    using bjj.scalar_group_axioms [of L] by (simp add: bjjCiphersuite_def)
qed (simp_all add: bjjCiphersuite_def bjj_base)

lemma suite_simps [simp]:
  "csOrder (bjjCiphersuite L) = subOrder L" "csGenerator (bjjCiphersuite L) = Base8 L"
  "csIdentity (bjjCiphersuite L) = IDENTITY" "csAdd (bjjCiphersuite L) = pointAdd L"
  "csScalarMul (bjjCiphersuite L) = scalarMul L" "csEq (bjjCiphersuite L) = pointEq"
  "csBindingFactor (bjjCiphersuite L) = bjjBindingFactor L" "csChallenge (bjjCiphersuite L) = bjjChallenge L"
  "csNonceScalar (bjjCiphersuite L) = bjjNonceScalar L"
  by (simp_all add: bjjCiphersuite_def)

section \<open>The hashes return on well-formed inputs\<close>

lemma frost_domains_isFr [simp]:
  "isFr SCHNORR_DOMAIN" "isFr FROST_RHO_DOMAIN" "isFr FROST_NONCE_DOMAIN" "isFr FROST_MSG_DOMAIN" "isFr FROST_COM_DOMAIN"
  by (simp_all add: isFr_def BN254_P_def SCHNORR_DOMAIN_def FROST_RHO_DOMAIN_def FROST_NONCE_DOMAIN_def
      FROST_MSG_DOMAIN_def FROST_COM_DOMAIN_def)

lemma decodeMessage_isFr [simp]: "isFr (decodeMessage msg)"
  by (simp add: decodeMessage_def smod_nonneg bytesBE_nonneg)

lemma bjjChallenge_ok:
  assumes "bjj_laws L" "fr_laws L" "inSubgroup L R" "inSubgroup L gpk"
  shows "\<exists>c. bjjChallenge L R gpk msg = Inr c"
proof -
  have "list_all isFr [SCHNORR_DOMAIN, fst R, snd R, fst gpk, snd gpk, decodeMessage msg]"
    using assms bjj_coords by simp
  then show ?thesis
    using poseidon2_ok [OF assms(2)] by (simp add: bjjChallenge_def challengeScalar_def)
qed

definition comOk :: "libs \<Rightarrow> point commitment \<Rightarrow> bool" where
  "comOk L c \<longleftrightarrow> isFr (cId c) \<and> inSubgroup L (cD c) \<and> inSubgroup L (cE c)"

lemma bjjBindingFactor_ok:
  assumes L: "bjj_laws L" "fr_laws L" and "inSubgroup L gpk" "\<forall>c\<in>set coms. comOk L c" "isFr i"
  shows "\<exists>rho. bjjBindingFactor L gpk msg coms i = Inr rho"
proof -
  let ?fields = "concat (map (\<lambda>c. [cId c, fst (cD c), snd (cD c), fst (cE c), snd (cE c)]) (sort_key cId coms))"
  have "list_all isFr ?fields"
    using assms(4) bjj_coords [OF L(1)] by (auto simp: list_all_iff comOk_def)
  then obtain h5 where h5: "hashCommitmentList L coms = Inr h5" "isFr h5"
    using poseidon2_ok [OF L(2), of FROST_COM_DOMAIN ?fields] L(2) by (simp add: hashCommitmentList_def Let_def)
  obtain h4 where h4: "hashMessage L msg = Inr h4" "isFr h4"
    using poseidon2_ok [OF L(2), of FROST_MSG_DOMAIN "[decodeMessage msg]"] L(2) by (simp add: hashMessage_def)
  have "list_all isFr [fst gpk, snd gpk, h4, h5, i]"
    using h4(2) h5(2) assms(3,5) bjj_coords [OF L(1)] by simp
  then show ?thesis
    using hashToScalar_ok [OF L(2), of FROST_RHO_DOMAIN] h4(1) h5(1) by (simp add: bjjBindingFactor_def)
qed

lemma foldR_total: "(\<And>s x. x \<in> set xs \<Longrightarrow> \<exists>s'. f s x = Inr s') \<Longrightarrow> \<exists>s'. foldR f s xs = Inr s'"
proof (induction xs arbitrary: s)
  case (Cons x xs)
  then obtain t where "f s x = Inr t" by (meson list.set_intros(1))
  moreover obtain u where "foldR f t xs = Inr u" using Cons by (meson list.set_intros(2))
  ultimately show ?case by simp
qed simp

lemma bindingFactors_ok:
  assumes "bjj_laws L" "fr_laws L" "inSubgroup L gpk" "\<forall>c\<in>set coms. comOk L c"
  shows "\<exists>rhos. bindingFactors (bjjCiphersuite L) gpk msg coms = Inr rhos"
  unfolding bindingFactors_def Let_def
proof (rule foldR_total)
  fix s c assume "c \<in> set (sortById coms)"
  then obtain rho where "bjjBindingFactor L gpk msg (sortById coms) (cId c) = Inr rho"
    using bjjBindingFactor_ok [OF assms(1-3), of "sortById coms" "cId c" msg] assms(4) by (auto simp: comOk_def)
  then show "\<exists>s'. bindR (csBindingFactor (bjjCiphersuite L) gpk msg (sortById coms) (cId c))
      (\<lambda>rho. Inr (s(cId c \<mapsto> rho))) = Inr s'" by simp
qed

text \<open>The inputs of a signing session: commitments in the group by distinct nonzero signers, and a key.\<close>

definition sessionOk :: "libs \<Rightarrow> point \<Rightarrow> point commitment list \<Rightarrow> bool" where
  "sessionOk L gpk coms \<longleftrightarrow> inSubgroup L gpk \<and> (\<forall>c\<in>set coms. comOk L c)
    \<and> signerSetOk (subOrder L) (map cId coms)"

lemma session_values:
  assumes L: "bjj_laws L" "fr_laws L" and s: "sessionOk L gpk coms"
  obtains rhos R c where "bindingFactors (bjjCiphersuite L) gpk msg coms = Inr rhos"
    "groupCommitment (bjjCiphersuite L) coms rhos = Inr R" "bjjChallenge L R gpk msg = Inr c"
    "inSubgroup L R" "\<forall>c\<in>set coms. rhos (cId c) \<noteq> None"
proof -
  obtain rhos where r: "bindingFactors (bjjCiphersuite L) gpk msg coms = Inr rhos"
    using bindingFactors_ok [OF L, of gpk coms msg] s by (auto simp: sessionOk_def)
  have dom: "\<forall>c\<in>set coms. rhos (cId c) \<noteq> None" using bindingFactors_dom [OF r] by blast
  have mem: "\<forall>c\<in>set coms. inSubgroup L (cD c) \<and> inSubgroup L (cE c)"
    using s by (auto simp: sessionOk_def comOk_def)
  have "\<exists>R. groupCommitment (bjjCiphersuite L) coms rhos = Inr R \<and> inSubgroup L R"
    using bjjSuite.groupCommitment_psum [of coms rhos L] L(1) dom mem
      bjjSuite.psum_mem [of coms L "\<lambda>c. pointAdd L (cD c) (scalarMul L (the (rhos (cId c))) (cE c))"]
    by simp
  then obtain R where R: "groupCommitment (bjjCiphersuite L) coms rhos = Inr R" "inSubgroup L R" by blast
  obtain c where "bjjChallenge L R gpk msg = Inr c"
    using bjjChallenge_ok [OF L R(2), of gpk msg] s by (auto simp: sessionOk_def)
  with r R dom that show ?thesis by blast
qed

lemma session_lagrange:
  assumes "bjj_laws L" "sessionOk L gpk coms" "i \<in> cId ` set coms"
  shows "lagrangeCoefficient (bjjCiphersuite L) i (map cId coms)
    = Inr (lag (subOrder L) (residues (subOrder L) (map cId coms)) (i mod subOrder L) mod subOrder L)"
  using lagrangeCoefficient_lag [of "bjjCiphersuite L" "map cId coms" i] assms bjj_laws_prime
  by (auto simp: sessionOk_def)

section \<open>Honest shares are accepted\<close>

lemma share_mod:
  "(d + (e * r) mod q + (((l * s) mod q) * c) mod q) mod q = (d + r * e + (c * l) * s) mod (q::int)"
proof -
  have "(d + (e * r) mod q + (((l * s) mod q) * c) mod q) mod q = (d + e * r + l * s * c) mod q"
    by (rule mod_add_cong) (simp_all add: mod_add_right_eq mod_mult_left_eq)
  then show ?thesis by (simp add: algebra_simps)
qed

lemma honest_share_accepted:
  assumes L: "bjj_laws L" "fr_laws L" and s: "sessionOk L gpk coms"
    and k: "find (\<lambda>k. cId k = i) coms = Some k"
    and kD: "cD k = scalarBaseMul L (nD h)" and kE: "cE k = scalarBaseMul L (nE h)"
  shows "\<exists>z. signShareUnchecked (bjjCiphersuite L) i h share gpk msg coms = Inr z
    \<and> verifySignatureShare (bjjCiphersuite L) i z (scalarBaseMul L share) gpk msg coms = Inr True"
proof -
  obtain rhos R c where v: "bindingFactors (bjjCiphersuite L) gpk msg coms = Inr rhos"
    "groupCommitment (bjjCiphersuite L) coms rhos = Inr R" "bjjChallenge L R gpk msg = Inr c"
    "\<forall>c\<in>set coms. rhos (cId c) \<noteq> None"
    using session_values [OF L s] by metis
  have ki: "k \<in> set coms" "cId k = i" using k by (auto simp: find_Some_iff)
  then obtain rho where rho: "rhos i = Some rho" using v(4) by auto
  let ?q = "subOrder L" and ?G = "Base8 L"
  let ?l = "lag ?q (residues ?q (map cId coms)) (i mod ?q) mod ?q"
  have l: "lagrangeCoefficient (bjjCiphersuite L) i (map cId coms) = Inr ?l"
    using session_lagrange [OF L(1) s] ki by auto
  have fm: "frostMod x ?q = x mod ?q" for x using bjj_laws_order_pos [OF L(1)] by (simp add: frostMod_eq)
  let ?z = "(nD h + (nE h * rho) mod ?q + (((?l * share) mod ?q) * c) mod ?q) mod ?q"
  have "?z = (nD h + rho * nE h + (c * ?l) * share) mod ?q"
    by (rule share_mod)
  then have "scalarMul L ?z ?G = scalarMul L (nD h + rho * nE h + (c * ?l) * share) ?G"
    by (simp only: scalarMul_mod [OF L(1)])
  also have "\<dots> = pointAdd L (pointAdd L (scalarMul L (nD h) ?G) (scalarMul L rho (scalarMul L (nE h) ?G)))
      (scalarMul L ((c * ?l) mod ?q) (scalarMul L share ?G))"
    by (simp only: bjj_smul_add [OF L(1) bjj_base [OF L(1)]] bjj_smul_mult [OF L(1) bjj_base [OF L(1)]]
        scalarMul_mod [OF L(1)])
  finally show ?thesis
    using v l rho k kD kE
    by (simp add: signShareUnchecked_def verifySignatureShare_def Let_def fm scalarBaseMul_def)
qed

section \<open>What the coordinator outputs\<close>

lemma frostAggregate_sum:
  assumes "bjj_laws L"
  shows "sigZ (frostAggregate (bjjCiphersuite L) R zs) = sum_list zs mod subOrder L"
    and "sigR (frostAggregate (bjjCiphersuite L) R zs) = R"
proof -
  have q: "1 < subOrder L" by (rule bjj_laws_order_pos [OF assms])
  have "fold (\<lambda>zi z. frostMod (z + zi) (subOrder L)) zs (a mod subOrder L) = (a + sum_list zs) mod subOrder L" for a
  proof (induction zs arbitrary: a)
    case (Cons z zs)
    then show ?case using q Cons.IH [of "a + z"] by (simp add: frostMod_eq mod_add_left_eq add.assoc)
  qed simp
  from this [of 0] show "sigZ (frostAggregate (bjjCiphersuite L) R zs) = sum_list zs mod subOrder L"
    by (simp add: frostAggregate_def)
qed (simp add: frostAggregate_def)

lemma foldR_guard:
  "foldR (\<lambda>_ s. bindR (f s) (\<lambda>ok. guardR ok e)) u xs = Inr v \<longleftrightarrow> (\<forall>x\<in>set xs. f x = Inr True)"
proof (induction xs arbitrary: u)
  case (Cons x xs)
  then show ?case by (cases "f x") auto
qed simp

lemma coordinatorAggregate_Inr:
  assumes "coordinatorAggregate cs R gpk msg coms ps t = Inr sig"
  shows "\<forall>p\<in>set ps. verifySignatureShare cs (pId p) (pZ p) (pPublicShare p) gpk msg coms = Inr True"
    and "sig = frostAggregate cs R (map pZ ps)"
  using assms by (auto simp: coordinatorAggregate_def foldR_guard)

lemma distinctSigners_ok:
  "distinct (map pId ps) \<Longrightarrow> distinctSigners ps = Inr (pId ` set ps)"
proof -
  have "distinct (map pId ps) \<Longrightarrow> A \<inter> pId ` set ps = {} \<Longrightarrow> foldR (\<lambda>seen s. if pId s \<in> seen then Inl e
      else Inr (insert (pId s) seen)) A ps = Inr (A \<union> pId ` set ps)" for A e
  proof (induction ps arbitrary: A)
    case (Cons p ps)
    then show ?case using Cons.IH [of "insert (pId p) A"] by auto
  qed simp
  from this [of "{}"] show "distinct (map pId ps) \<Longrightarrow> ?thesis"
    unfolding distinctSigners_def by simp
qed

lemma coordinatorAggregate_ok:
  assumes "distinct (map pId ps)" "t \<le> length ps"
    and "\<forall>p\<in>set ps. verifySignatureShare cs (pId p) (pZ p) (pPublicShare p) gpk msg coms = Inr True"
  shows "coordinatorAggregate cs R gpk msg coms ps t = Inr (frostAggregate cs R (map pZ ps))"
proof -
  have "card (pId ` set ps) = length ps" using assms(1) by (metis distinct_card length_map set_map)
  moreover have "\<exists>u. foldR (\<lambda>_ s. bindR (verifySignatureShare cs (pId s) (pZ s) (pPublicShare s) gpk msg coms)
      (\<lambda>ok. guardR ok e)) () ps = Inr u" for e
    using assms(3) by (simp add: foldR_guard)
  ultimately show ?thesis
    using assms(1,2) by (simp add: coordinatorAggregate_def distinctSigners_ok bindR_eq_Inr)
qed

text \<open>The public shares and the key come from one polynomial, whose degree is below the number of
  signers.\<close>

definition keyShared :: "libs \<Rightarrow> int list \<Rightarrow> point \<Rightarrow> point partialSig list \<Rightarrow> bool" where
  "keyShared L f gpk ps \<longleftrightarrow> gpk = scalarBaseMul L (polyEval L f 0) \<and> length f \<le> length ps
    \<and> (\<forall>p\<in>set ps. pPublicShare p = scalarBaseMul L (polyEval L f (pId p)))"

lemma scalarBaseMul_polyEval: "bjj_laws L \<Longrightarrow> scalarBaseMul L (polyEval L f x) = scalarMul L (horner f x) (Base8 L)"
  by (simp add: scalarBaseMul_def polyEval_horner scalarMul_mod)

lemma aggregate_verifies:
  assumes L: "bjj_laws L" "fr_laws L" and s: "sessionOk L gpk coms"
    and R: "bindR (bindingFactors (bjjCiphersuite L) gpk msg coms) (groupCommitment (bjjCiphersuite L) coms) = Inr R"
    and perm: "mset (map pId ps) = mset (map cId coms)" and key: "keyShared L f gpk ps"
    and ok: "\<forall>p\<in>set ps. verifySignatureShare (bjjCiphersuite L) (pId p) (pZ p) (pPublicShare p) gpk msg coms = Inr True"
  shows "frostVerify (bjjCiphersuite L) gpk msg (frostAggregate (bjjCiphersuite L) R (map pZ ps)) = Inr True"
proof -
  let ?q = "subOrder L" and ?xs = "map cId coms"
  let ?l = "\<lambda>i. lag ?q (residues ?q ?xs) (i mod ?q) mod ?q"
  obtain rhos c where v: "bindingFactors (bjjCiphersuite L) gpk msg coms = Inr rhos"
    "groupCommitment (bjjCiphersuite L) coms rhos = Inr R" "bjjChallenge L R gpk msg = Inr c"
    using session_values [OF L s] R by (metis bindR.simps(2) sum.inject(2))
  have set: "pId ` set ps = cId ` set coms" using perm by (metis list.set_map mset_eq_setD)
  have sok: "signerSetOk ?q ?xs" and mem: "\<forall>c\<in>set coms. inSubgroup L (cD c) \<and> inSubgroup L (cE c)"
    using s by (auto simp: sessionOk_def comOk_def)
  have dist: "distinct ?xs" using sok by (auto simp: signerSetOk_def distinct_map dest: inj_on_imageI2)
  have lc: "\<forall>p\<in>set ps. lagrangeCoefficient (bjjCiphersuite L) (pId p) ?xs = Inr (?l (pId p))"
    using session_lagrange [OF L(1) s] set by blast
  let ?add = "\<lambda>f xs. fold (\<lambda>x R. pointAdd L R (f x)) xs IDENTITY"
  let ?f = "\<lambda>i. scalarMul L (?l i) (scalarMul L (horner f i) (Base8 L))"
  have fm: "inSubgroup L (?f i)" for i using L(1) bjj_base by simp
  have "?add (\<lambda>p. scalarMul L (?l (pId p)) (pPublicShare p)) ps = ?add (\<lambda>p. ?f (pId p)) ps"
    using key scalarBaseMul_polyEval [OF L(1)] by (intro bjj.fold_add_cong [of _ _ _ L, unfolded lawful_id [OF L(1)]]) (simp add: keyShared_def)
  also have "\<dots> = ?add ?f (map pId ps)" using bjj.fold_add_map [of L ?f pId ps] L(1) by simp
  also have "\<dots> = ?add ?f ?xs"
    using bjj.fold_add_mset [OF perm, of L IDENTITY ?f] L(1) fm by simp
  also have "\<dots> = gpk"
    using bjjSuite.public_shares_combine [of L ?xs f] sok key L(1) scalarBaseMul_polyEval [OF L(1), of f 0]
      mset_eq_length [OF perm] by (simp add: keyShared_def)
  finally have "?add (\<lambda>p. scalarMul L (?l (pId p)) (pPublicShare p)) ps = gpk" .
  then have "scalarMul L (\<Sum>p\<leftarrow>ps. pZ p) (Base8 L) = pointAdd L R (scalarMul L c gpk)"
    using bjjSuite.accepted_shares_sum [OF perm dist, of L gpk msg rhos R c ?l] L(1) mem ok v lc key
    by (simp add: keyShared_def)
  then show ?thesis
    using v(3) frostAggregate_sum [OF L(1), of R "map pZ ps"]
    by (simp add: frostVerify_def Let_def scalarMul_mod [OF L(1)])
qed

section \<open>Properties\<close>

text \<open>C13: what the coordinator outputs verifies.  If \<open>coordinatorAggregate\<close> accepts shares from
  exactly the signers that committed, over the group commitment of the session, and the public shares
  are those of a sharing of the group key with threshold at most the number of signers, then the
  aggregated signature passes \<open>verify\<close>: a wrong share can only make aggregation fail, never give a
  bad signature.\<close>

theorem coordinator_output_valid:
  assumes "bjj_laws L" "fr_laws L" "sessionOk L gpk coms"
    and "bindR (bindingFactors (bjjCiphersuite L) gpk msg coms) (groupCommitment (bjjCiphersuite L) coms) = Inr R"
    and "mset (map pId ps) = mset (map cId coms)" and "keyShared L f gpk ps"
    and "coordinatorAggregate (bjjCiphersuite L) R gpk msg coms ps threshold = Inr sig"
  shows "frostVerify (bjjCiphersuite L) gpk msg sig = Inr True"
  using aggregate_verifies [OF assms(1-6)] coordinatorAggregate_Inr [OF assms(7)] by simp

text \<open>A session with honest signers: \<open>signers\<close> lists identifiers with their unused nonce handles.\<close>

definition honestCommitment :: "libs \<Rightarrow> int \<times> nonceHandle \<Rightarrow> point commitment" where
  "honestCommitment L sg = \<lparr>cId = fst sg, cD = scalarBaseMul L (nD (snd sg)), cE = scalarBaseMul L (nE (snd sg))\<rparr>"

definition honestSigns :: "libs \<Rightarrow> int list \<Rightarrow> byte list \<Rightarrow> (int \<times> nonceHandle) list \<Rightarrow> point partialSig list result" where
  "honestSigns L f msg signers =
     mapR (\<lambda>(i, h). bindR (snd (signShare (bjjCiphersuite L) i h (polyEval L f i)
         (scalarBaseMul L (polyEval L f 0)) msg (map (honestCommitment L) signers))) (\<lambda>z.
       Inr \<lparr>pId = i, pZ = z, pPublicShare = scalarBaseMul L (polyEval L f i)\<rparr>)) signers"

lemma honest_session:
  assumes "bjj_laws L" "\<forall>sg\<in>set signers. isFr (fst sg)" "signerSetOk (subOrder L) (map fst signers)"
  shows "sessionOk L (scalarBaseMul L x) (map (honestCommitment L) signers)"
  using assms by (auto simp: sessionOk_def comOk_def honestCommitment_def comp_def)

lemma signerSetOk_distinct: "signerSetOk q xs \<Longrightarrow> distinct xs"
  by (auto simp: signerSetOk_def distinct_map)

lemma find_distinct:
  "distinct (map g xs) \<Longrightarrow> x \<in> set xs \<Longrightarrow> find (\<lambda>k. g k = g x) xs = Some x"
  by (induction xs) (auto simp: image_iff)

lemma honestSigns_ok:
  assumes L: "bjj_laws L" "fr_laws L" and ids: "\<forall>sg\<in>set signers. isFr (fst sg) \<and> \<not> consumed (snd sg)"
    and sok: "signerSetOk (subOrder L) (map fst signers)"
  shows "\<exists>ps. honestSigns L f msg signers = Inr ps \<and> map pId ps = map fst signers
    \<and> (\<forall>p\<in>set ps. pPublicShare p = scalarBaseMul L (polyEval L f (pId p))
        \<and> verifySignatureShare (bjjCiphersuite L) (pId p) (pZ p) (pPublicShare p)
            (scalarBaseMul L (polyEval L f 0)) msg (map (honestCommitment L) signers) = Inr True)"
proof -
  let ?coms = "map (honestCommitment L) signers" and ?gpk = "scalarBaseMul L (polyEval L f 0)"
  let ?R = "\<lambda>sg p. pId p = fst sg \<and> pPublicShare p = scalarBaseMul L (polyEval L f (pId p))
    \<and> verifySignatureShare (bjjCiphersuite L) (pId p) (pZ p) (pPublicShare p) ?gpk msg ?coms = Inr True"
  have ses: "sessionOk L ?gpk ?coms" using honest_session [OF L(1)] ids sok by blast
  have dist: "distinct (map cId ?coms)"
    using signerSetOk_distinct [OF sok] by (simp add: comp_def honestCommitment_def)
  have "\<exists>ps. honestSigns L f msg signers = Inr ps \<and> list_all2 ?R signers ps"
    unfolding honestSigns_def
  proof (rule mapR_eq_map)
    fix sg assume sg: "sg \<in> set signers"
    obtain i h where ih: "sg = (i, h)" by (cases sg)
    have "find (\<lambda>k. cId k = i) ?coms = Some (honestCommitment L sg)"
    proof -
      have "honestCommitment L sg \<in> set ?coms" "cId (honestCommitment L sg) = i"
        using sg by (simp_all add: ih) (simp add: honestCommitment_def)
      then show ?thesis using find_distinct [OF dist] by blast
    qed
    from honest_share_accepted [OF L ses this, of "h\<lparr>consumed := True\<rparr>" "polyEval L f i" msg]
    obtain z where z: "signShareUnchecked (bjjCiphersuite L) i (h\<lparr>consumed := True\<rparr>) (polyEval L f i) ?gpk msg ?coms = Inr z"
      "verifySignatureShare (bjjCiphersuite L) i z (scalarBaseMul L (polyEval L f i)) ?gpk msg ?coms = Inr True"
      by (auto simp: honestCommitment_def ih)
    moreover have "\<not> consumed h" using ids sg ih by force
    ultimately show "\<exists>p. (case sg of (i, h) \<Rightarrow> bindR (snd (signShare (bjjCiphersuite L) i h (polyEval L f i) ?gpk msg ?coms))
        (\<lambda>z. Inr \<lparr>pId = i, pZ = z, pPublicShare = scalarBaseMul L (polyEval L f i)\<rparr>)) = Inr p \<and> ?R sg p"
      by (simp add: ih signShare_def markConsumed_def)
  qed
  then obtain ps where ps: "honestSigns L f msg signers = Inr ps" "list_all2 ?R signers ps" by blast
  have "map pId ps = map fst signers" using ps(2) by (induction signers ps rule: list_all2_induct) simp_all
  moreover have "\<forall>p\<in>set ps. \<exists>sg\<in>set signers. ?R sg p" using list_all2_set2 [OF ps(2)] by blast
  ultimately show ?thesis using ps(1) by blast
qed

text \<open>C1: threshold signing end to end.  Signers with distinct nonzero identifiers and unused nonces,
  at least as many as the threshold of the sharing polynomial \<open>f\<close>: every one of them produces its
  share, the coordinator accepts all shares, and the signature verifies under the group key.  Nothing
  in the run throws.\<close>

theorem frost_end_to_end:
  assumes "bjj_laws L" "fr_laws L" "\<forall>sg\<in>set signers. isFr (fst sg) \<and> \<not> consumed (snd sg)"
    and "signerSetOk (subOrder L) (map fst signers)"
    and "length f \<le> length signers" "threshold \<le> length signers"
  shows "let cs = bjjCiphersuite L; gpk = scalarBaseMul L (polyEval L f 0); coms = map (honestCommitment L) signers in
    \<exists>R ps sig. bindR (bindingFactors cs gpk msg coms) (groupCommitment cs coms) = Inr R
      \<and> honestSigns L f msg signers = Inr ps
      \<and> coordinatorAggregate cs R gpk msg coms ps threshold = Inr sig
      \<and> frostVerify cs gpk msg sig = Inr True"
proof -
  let ?cs = "bjjCiphersuite L" and ?gpk = "scalarBaseMul L (polyEval L f 0)" and ?coms = "map (honestCommitment L) signers"
  have ses: "sessionOk L ?gpk ?coms" using honest_session assms by blast
  obtain rhos R where "bindingFactors ?cs ?gpk msg ?coms = Inr rhos" "groupCommitment ?cs ?coms rhos = Inr R"
    using session_values [OF assms(1,2) ses] by metis
  then have R: "bindR (bindingFactors ?cs ?gpk msg ?coms) (groupCommitment ?cs ?coms) = Inr R" by simp
  obtain ps where ps: "honestSigns L f msg signers = Inr ps" "map pId ps = map fst signers"
    "\<forall>p\<in>set ps. pPublicShare p = scalarBaseMul L (polyEval L f (pId p))
        \<and> verifySignatureShare ?cs (pId p) (pZ p) (pPublicShare p) ?gpk msg ?coms = Inr True"
    using honestSigns_ok [OF assms(1-4), of f msg] by blast
  have ids: "map pId ps = map cId ?coms" using ps(2) by (simp add: comp_def honestCommitment_def)
  have len: "length ps = length signers" using ps(2) by (metis length_map)
  have "coordinatorAggregate ?cs R ?gpk msg ?coms ps threshold = Inr (frostAggregate ?cs R (map pZ ps))"
    using ps(3) assms(4,6) len signerSetOk_distinct by (intro coordinatorAggregate_ok) (auto simp: ps(2))
  moreover have "frostVerify ?cs ?gpk msg (frostAggregate ?cs R (map pZ ps)) = Inr True"
  proof (rule aggregate_verifies [OF assms(1,2) ses R])
    show "mset (map pId ps) = mset (map cId ?coms)" by (simp only: ids)
    show "keyShared L f ?gpk ps" using ps(3) len assms(5) by (simp add: keyShared_def)
    show "\<forall>p\<in>set ps. verifySignatureShare ?cs (pId p) (pZ p) (pPublicShare p) ?gpk msg ?coms = Inr True"
      using ps(3) by blast
  qed
  ultimately show ?thesis using R ps(1) unfolding Let_def by blast
qed

lemma toy_signers:
  "\<forall>sg\<in>set [(1, newNonceHandle 3 4), (3, newNonceHandle 5 6)]. isFr (fst sg) \<and> \<not> consumed (snd sg)"
  "signerSetOk (subOrder toyLibs) (map fst [(1, newNonceHandle 3 4), (3, newNonceHandle 5 6)])"
  by (simp_all add: isFr_small newNonceHandle_def signerSetOk_def residues_def toy_ops)

theorem frost_end_to_end_witness:
  "\<exists>R ps sig. honestSigns toyLibs [7, 2] [1, 2, 3] [(1, newNonceHandle 3 4), (3, newNonceHandle 5 6)] = Inr ps
      \<and> coordinatorAggregate (bjjCiphersuite toyLibs) R (scalarBaseMul toyLibs (polyEval toyLibs [7, 2] 0)) [1, 2, 3]
          (map (honestCommitment toyLibs) [(1, newNonceHandle 3 4), (3, newNonceHandle 5 6)]) ps 2 = Inr sig
      \<and> frostVerify (bjjCiphersuite toyLibs) (scalarBaseMul toyLibs (polyEval toyLibs [7, 2] 0)) [1, 2, 3] sig = Inr True"
proof -
  have "length [7, 2::int] \<le> length [(1::int, newNonceHandle 3 4), (3, newNonceHandle 5 6)]"
    "2 \<le> length [(1::int, newNonceHandle 3 4), (3, newNonceHandle 5 6)]" by simp_all
  from frost_end_to_end [OF toyLibs_bjj_laws toyLibs_fr_laws toy_signers this, of "[1, 2, 3]"]
  show ?thesis unfolding Let_def by blast
qed

theorem coordinator_output_valid_witness:
  "\<exists>R ps sig. coordinatorAggregate (bjjCiphersuite toyLibs) R (scalarBaseMul toyLibs (polyEval toyLibs [7, 2] 0)) [9]
      (map (honestCommitment toyLibs) [(1, newNonceHandle 3 4), (3, newNonceHandle 5 6)]) ps 2 = Inr sig
    \<and> frostVerify (bjjCiphersuite toyLibs) (scalarBaseMul toyLibs (polyEval toyLibs [7, 2] 0)) [9] sig = Inr True"
proof -
  let ?sg = "[(1::int, newNonceHandle 3 4), (3, newNonceHandle 5 6)]" and ?cs = "bjjCiphersuite toyLibs"
  let ?gpk = "scalarBaseMul toyLibs (polyEval toyLibs [7, 2] 0)" and ?coms = "map (honestCommitment toyLibs) ?sg"
  have ses: "sessionOk toyLibs ?gpk ?coms" using honest_session [OF toyLibs_bjj_laws] toy_signers by blast
  obtain rhos R where "bindingFactors ?cs ?gpk [9] ?coms = Inr rhos" "groupCommitment ?cs ?coms rhos = Inr R"
    using session_values [OF toyLibs_bjj_laws toyLibs_fr_laws ses] by metis
  then have R: "bindR (bindingFactors ?cs ?gpk [9] ?coms) (groupCommitment ?cs ?coms) = Inr R" by simp
  obtain ps :: "point partialSig list" where ps: "map pId ps = map fst ?sg" "\<forall>p\<in>set ps. pPublicShare p = scalarBaseMul toyLibs (polyEval toyLibs [7, 2] (pId p))
        \<and> verifySignatureShare ?cs (pId p) (pZ p) (pPublicShare p) ?gpk [9] ?coms = Inr True"
    using honestSigns_ok [OF toyLibs_bjj_laws toyLibs_fr_laws toy_signers, of "[7, 2]" "[9]"] by blast
  have len: "length ps = 2" using arg_cong [OF ps(1), of length] by simp
  have ids: "map pId ps = map cId ?coms" using ps(1) by (simp add: comp_def honestCommitment_def)
  have agg: "coordinatorAggregate ?cs R ?gpk [9] ?coms ps 2 = Inr (frostAggregate ?cs R (map pZ ps))"
    by (rule coordinatorAggregate_ok) (use ps len in auto)
  have key: "keyShared toyLibs [7, 2] ?gpk ps" using ps(2) len by (simp add: keyShared_def)
  have "frostVerify ?cs ?gpk [9] (frostAggregate ?cs R (map pZ ps)) = Inr True"
    by (rule coordinator_output_valid [OF toyLibs_bjj_laws toyLibs_fr_laws ses R _ key agg]) (simp only: ids)
  with agg show ?thesis by blast
qed

text \<open>the one-time rule.  Whatever the arguments of the two calls, a second \<open>signShare\<close> on the
  handle left by a first one throws the reuse error and leaves the handle consumed, also when the
  first call threw.\<close>

theorem nonce_one_time:
  "signShare cs' i' (fst (signShare cs i h s gpk msg coms)) s' gpk' msg' coms'
    = (fst (signShare cs i h s gpk msg coms),
       Inl (Error ''frost: one-time nonce reused (round-1 handle already consumed)''))"
  by (simp add: signShare_def markConsumed_def)

text \<open>the modular inverse by the extended Euclidean loop.  For a modulus above one, \<open>modInverse\<close>
  returns the reduced inverse exactly when the argument is coprime to the modulus, and otherwise
  throws.\<close>

theorem modInverse_correct:
  assumes "1 < m"
  shows "if coprime x m then \<exists>y. modInverse x m = Inr y \<and> (x * y) mod m = 1 \<and> 0 \<le> y \<and> y < m
    else modInverse x m = Inl (Error ''frost: scalar has no inverse mod order'')"
  by (rule modInverse_spec [OF assms])

theorem modInverse_correct_witness:
  "(\<exists>y. modInverse 5 12 = Inr y \<and> (5 * y) mod 12 = 1 \<and> 0 \<le> y \<and> y < 12)
    \<and> modInverse 4 12 = Inl (Error ''frost: scalar has no inverse mod order'')"
proof -
  have "coprime (5::int) 12" "\<not> coprime (4::int) 12" by code_simp+
  then show ?thesis using modInverse_correct [of 12 5] modInverse_correct [of 12 4] by simp
qed

section \<open>A quorum smaller than the committed signers\<close>

text \<open>\<open>coordinatorAggregate\<close> does not compare the signers of the shares with the signers that
  committed.\<close>

definition subsetSigners :: "(int \<times> nonceHandle) list" where
  "subsetSigners = [(1, newNonceHandle 3 4), (2, newNonceHandle 5 6)]"

definition subsetOutcome :: "bool result" where
  "subsetOutcome =
     (let cs = bjjCiphersuite toyLibs; gpk = scalarBaseMul toyLibs (polyEval toyLibs [7] 0);
          coms = map (honestCommitment toyLibs) subsetSigners in
      bindR (bindR (bindingFactors cs gpk [5] coms) (groupCommitment cs coms)) (\<lambda>R.
      bindR (honestSigns toyLibs [7] [5] subsetSigners) (\<lambda>ps.
      bindR (coordinatorAggregate cs R gpk [5] coms (take 1 ps) 1) (\<lambda>sig.
      frostVerify cs gpk [5] sig))))"


end
