(* ===== verification/ThresholdDecrypt.thy ===== *)
theory ThresholdDecrypt
  imports Dkg
begin

text \<open>
  \<open>tss/chaumPedersen.ts\<close> and \<open>threshold/compliance.ts\<close>: a committee recovers the content key of a
  note, the x-coordinate of the compliance secret times the public ephemeral, from DLEQ-checked
  partial decryptions by interpolation in the exponent.
\<close>

section \<open>DLEQ proofs\<close>

definition CP_DOMAIN :: int where
  "CP_DOMAIN = 0x23dabeda201c754f067d138365d1246df58773cc4ba056f4d1ef0c4a5d29c480"

record dleqProof =
  dqD :: point
  dqA :: point
  dqB :: point
  dqZ :: int

definition transcript :: "libs \<Rightarrow> point \<Rightarrow> point \<Rightarrow> point \<Rightarrow> point \<Rightarrow> point \<Rightarrow> int list" where
  "transcript L epk V D A B =
     [fst (Base8 L), snd (Base8 L), fst epk, snd epk, fst V, snd V, fst D, snd D,
      fst A, snd A, fst B, snd B]"

definition cpProve :: "libs \<Rightarrow> int \<Rightarrow> point \<Rightarrow> int \<Rightarrow> dleqProof result" where
  "cpProve L secret epk k =
     (let V = scalarMul L secret (Base8 L); D = scalarMul L secret epk;
          A = scalarMul L k (Base8 L); B = scalarMul L k epk in
      bindR (hashToScalar L CP_DOMAIN (transcript L epk V D A B)) (\<lambda>e.
      Inr \<lparr>dqD = D, dqA = A, dqB = B, dqZ = modSub L (k + e * secret)\<rparr>))"

definition cpVerify :: "libs \<Rightarrow> point \<Rightarrow> point \<Rightarrow> dleqProof \<Rightarrow> bool result" where
  "cpVerify L V epk proof' =
     (if \<not> inSubgroupNonId L (dqD proof') then Inr False
      else bindR (hashToScalar L CP_DOMAIN (transcript L epk V (dqD proof') (dqA proof') (dqB proof'))) (\<lambda>e.
        let lhsBase = scalarMul L (dqZ proof') (Base8 L);
            rhsBase = pointAdd L (dqA proof') (scalarMul L e V);
            lhsEpk = scalarMul L (dqZ proof') epk;
            rhsEpk = pointAdd L (dqB proof') (scalarMul L e (dqD proof'))
        in Inr (pointEq lhsBase rhsBase \<and> pointEq lhsEpk rhsEpk)))"

section \<open>Partial decryptions\<close>

record partialDec =
  pdecId :: int
  pdecProof :: dleqProof

definition partialDecrypt :: "libs \<Rightarrow> int \<Rightarrow> int \<Rightarrow> point \<Rightarrow> int \<Rightarrow> partialDec result" where
  "partialDecrypt L i share ephPub k =
     bindR (assertInSubgroup L ephPub) (\<lambda>_.
     bindR (cpProve L share ephPub k) (\<lambda>proof'. Inr \<lparr>pdecId = i, pdecProof = proof'\<rparr>))"

text \<open>The acceptance test of one partial, which both loops make: a known member, a valid point, a
  valid proof.\<close>

definition partialOk :: "libs \<Rightarrow> point \<Rightarrow> (int \<rightharpoonup> point) \<Rightarrow> partialDec \<Rightarrow> bool result" where
  "partialOk L ephPub V p =
     (case V (pdecId p) of None \<Rightarrow> Inr False
      | Some vi \<Rightarrow> if \<not> inSubgroupNonId L (dqD (pdecProof p)) then Inr False
                  else cpVerify L vi ephPub (pdecProof p))"

definition combineStep :: "libs \<Rightarrow> point \<Rightarrow> (int \<rightharpoonup> point) \<Rightarrow> (int \<times> point) list \<times> int set \<Rightarrow> partialDec
    \<Rightarrow> ((int \<times> point) list \<times> int set) result" where
  "combineStep L ephPub V = (\<lambda>(verified, seen) p.
     if pdecId p \<in> seen then Inr (verified, seen)
     else bindR (partialOk L ephPub V p) (\<lambda>ok.
       if ok then Inr (verified @ [(pdecId p, dqD (pdecProof p))], insert (pdecId p) seen)
       else Inr (verified, seen)))"

definition combine :: "libs \<Rightarrow> point \<Rightarrow> partialDec list \<Rightarrow> (int \<rightharpoonup> point) \<Rightarrow> nat \<Rightarrow> point result" where
  "combine L ephPub partials V threshold =
     bindR (assertInSubgroup L ephPub) (\<lambda>_.
     bindR (foldR (combineStep L ephPub V) ([], {}) partials) (\<lambda>(verified, seen).
     if length verified < threshold then Inl (Error ''compliance: not enough valid partials'')
     else let quorum = map fst verified in
       foldR (\<lambda>S (i, D). bindR (lagrangeAtZero L i quorum) (\<lambda>l.
         Inr (pointAdd L S (scalarMul L l D)))) IDENTITY verified))"

definition thresholdCek :: "libs \<Rightarrow> point \<Rightarrow> partialDec list \<Rightarrow> (int \<rightharpoonup> point) \<Rightarrow> nat \<Rightarrow> int result" where
  "thresholdCek L ephPub partials V threshold =
     bindR (combine L ephPub partials V threshold) (\<lambda>S. newFr L (fst S))"

record robustCek =
  rcCek :: int
  rcUsed :: "int list"
  rcExcluded :: "int list"

definition robustStep :: "libs \<Rightarrow> point \<Rightarrow> (int \<rightharpoonup> point) \<Rightarrow> nat \<Rightarrow> partialDec list \<times> int list \<times> int set \<Rightarrow> partialDec
    \<Rightarrow> (partialDec list \<times> int list \<times> int set) result" where
  "robustStep L ephPub V t = (\<lambda>(good, excluded, seen) p.
     if pdecId p \<in> seen then Inr (good, excluded, seen)
     else bindR (partialOk L ephPub V p) (\<lambda>ok.
       if ok then Inr (if length good < t then good @ [p] else good, excluded, insert (pdecId p) seen)
       else Inr (good, excluded @ [pdecId p], seen)))"

definition thresholdCekRobust :: "libs \<Rightarrow> point \<Rightarrow> partialDec list \<Rightarrow> (int \<rightharpoonup> point) \<Rightarrow> nat \<Rightarrow> robustCek result" where
  "thresholdCekRobust L ephPub allPartials V t =
     bindR (assertInSubgroup L ephPub) (\<lambda>_.
     bindR (foldR (robustStep L ephPub V t) ([], [], {}) allPartials) (\<lambda>(good, excluded, seen).
     if length good < t then Inl (Error ''compliance: not enough valid partials'')
     else bindR (thresholdCek L ephPub good V t) (\<lambda>cek.
       Inr \<lparr>rcCek = cek, rcUsed = map pdecId good, rcExcluded = excluded\<rparr>)))"

section \<open>Completeness of the proof\<close>

lemma CP_DOMAIN_isFr [simp]: "isFr CP_DOMAIN"
  by (simp add: isFr_def CP_DOMAIN_def BN254_P_def)

lemma assertInSubgroup_iff: "assertInSubgroup L p = Inr u \<longleftrightarrow> inSubgroupNonId L p"
  by (auto simp: assertInSubgroup_def inSubgroupNonId_def inSubgroup_def)

lemma cp_complete:
  assumes L: "bjj_laws L" "fr_laws L" and epk: "inSubgroupNonId L epk" and s: "modSub L secret \<noteq> 0"
  shows "\<exists>pr. cpProve L secret epk k = Inr pr \<and> dqD pr = scalarMul L secret epk
    \<and> cpVerify L (scalarMul L secret (Base8 L)) epk pr = Inr True"
proof -
  let ?G = "Base8 L"
  have m: "inSubgroup L ?G" "inSubgroup L epk" using bjj_base [OF L(1)] epk by (auto simp: inSubgroupNonId_def)
  have "list_all isFr (transcript L epk (scalarMul L secret ?G) (scalarMul L secret epk) (scalarMul L k ?G) (scalarMul L k epk))"
    unfolding transcript_def using m L(1) bjj_coords [OF L(1)] by simp
  then obtain e where e: "hashToScalar L CP_DOMAIN (transcript L epk (scalarMul L secret ?G) (scalarMul L secret epk)
      (scalarMul L k ?G) (scalarMul L k epk)) = Inr e"
    using hashToScalar_ok [OF L(2), of CP_DOMAIN] by auto
  have "inSubgroupNonId L (scalarMul L secret epk)" using smul_nonid [OF L(1) epk] s L(1) by simp
  then show ?thesis
    using e schnorr_equation [OF L(1) m(1), of k e secret] schnorr_equation [OF L(1) m(2), of k e secret] L(1)
    by (simp add: cpProve_def cpVerify_def Let_def)
qed

section \<open>The loops keep the first accepted partial of each member\<close>

fun dedupId :: "int set \<Rightarrow> partialDec list \<Rightarrow> partialDec list" where
  "dedupId S [] = []"
| "dedupId S (p # ps) = (if pdecId p \<in> S then dedupId S ps else p # dedupId (insert (pdecId p) S) ps)"

lemma dedupId_set: "set (dedupId S ps) \<subseteq> set ps"
  by (induction S ps rule: dedupId.induct) auto

lemma dedupId_distinct: "distinct (map pdecId (dedupId S ps)) \<and> pdecId ` set (dedupId S ps) \<inter> S = {}"
  by (induction S ps rule: dedupId.induct) auto

lemma dedupId_ids: "pdecId ` set (dedupId S ps) = pdecId ` set ps - S"
  by (induction S ps rule: dedupId.induct) auto

lemma dedupId_id: "distinct (map pdecId ps) \<Longrightarrow> pdecId ` set ps \<inter> S = {} \<Longrightarrow> dedupId S ps = ps"
  by (induction S ps rule: dedupId.induct) auto

lemma dedupId_length: "length (dedupId {} ps) = card (pdecId ` set ps)"
  using dedupId_distinct [of "{}" ps] dedupId_ids [of "{}" ps]
  by (metis Diff_empty distinct_card length_map list.set_map)

lemma combine_loop:
  assumes "\<And>p. p \<in> set ps \<Longrightarrow> partialOk L ephPub V p = Inr (ok p)"
  shows "\<exists>seen'. foldR (combineStep L ephPub V) (ver, seen) ps
    = Inr (ver @ map (\<lambda>p. (pdecId p, dqD (pdecProof p))) (dedupId seen (filter ok ps)), seen')"
  using assms
proof (induction ps arbitrary: ver seen)
  case (Cons p ps)
  have IH: "\<And>ver seen. \<exists>seen'. foldR (combineStep L ephPub V) (ver, seen) ps
      = Inr (ver @ map (\<lambda>p. (pdecId p, dqD (pdecProof p))) (dedupId seen (filter ok ps)), seen')"
    using Cons by simp
  have p: "partialOk L ephPub V p = Inr (ok p)" using Cons.prems by simp
  consider "pdecId p \<in> seen" | "pdecId p \<notin> seen" "ok p" | "pdecId p \<notin> seen" "\<not> ok p" by blast
  then show ?case
  proof cases
    case 2
    then show ?thesis
      using p IH [of "ver @ [(pdecId p, dqD (pdecProof p))]" "insert (pdecId p) seen"] by (simp add: combineStep_def)
  qed (use p IH [of ver seen] in \<open>simp_all add: combineStep_def\<close>)
qed simp

lemma robust_loop:
  assumes "\<And>p. p \<in> set ps \<Longrightarrow> partialOk L ephPub V p = Inr (ok p)" and "length good \<le> t"
  shows "\<exists>ex seen'. foldR (robustStep L ephPub V t) (good, excl, seen) ps
    = Inr (take t (good @ dedupId seen (filter ok ps)), excl @ ex, seen') \<and> set ex \<subseteq> pdecId ` {p \<in> set ps. \<not> ok p}"
  using assms
proof (induction ps arbitrary: good excl seen)
  case Nil
  then show ?case by simp
next
  case (Cons p ps)
  have IH: "\<And>good excl seen. length good \<le> t \<Longrightarrow> \<exists>ex seen'. foldR (robustStep L ephPub V t) (good, excl, seen) ps
      = Inr (take t (good @ dedupId seen (filter ok ps)), excl @ ex, seen') \<and> set ex \<subseteq> pdecId ` {p \<in> set ps. \<not> ok p}"
    using Cons by simp
  have p: "partialOk L ephPub V p = Inr (ok p)" using Cons.prems by simp
  consider "pdecId p \<in> seen" | "pdecId p \<notin> seen" "ok p" "length good < t"
    | "pdecId p \<notin> seen" "ok p" "\<not> length good < t" | "pdecId p \<notin> seen" "\<not> ok p" by blast
  then show ?case
  proof cases
    case 1
    then show ?thesis using IH [OF Cons.prems(2), of excl seen] by (fastforce simp: robustStep_def)
  next
    case 2
    then show ?thesis using p IH [of "good @ [p]" excl "insert (pdecId p) seen"] by (fastforce simp: robustStep_def)
  next
    case 3
    then show ?thesis using p IH [OF Cons.prems(2), of excl "insert (pdecId p) seen"] Cons.prems(2)
      by (fastforce simp: robustStep_def)
  next
    case 4
    obtain ex seen' where "foldR (robustStep L ephPub V t) (good, excl @ [pdecId p], seen) ps
      = Inr (take t (good @ dedupId seen (filter ok ps)), (excl @ [pdecId p]) @ ex, seen')"
      "set ex \<subseteq> pdecId ` {p \<in> set ps. \<not> ok p}" using IH [OF Cons.prems(2)] by blast
    then show ?thesis using 4 p
      by (intro exI [of _ "pdecId p # ex"] exI [of _ seen']) (auto simp: robustStep_def)
  qed
qed

section \<open>Interpolation in the exponent\<close>

lemma lagrange_sum_list:
  assumes L: "bjj_laws L" and d: "distinct (map (modSub L) xs)" and nz: "0 \<notin> modSub L ` set xs"
    and len: "length f \<le> length xs" and l: "\<And>i. i \<in> set xs \<Longrightarrow> lagrangeAtZero L i xs = Inr (l i)"
  shows "(\<Sum>i\<leftarrow>xs. l i * horner f i) mod subOrder L = horner f 0 mod subOrder L"
proof -
  let ?sh = "\<lambda>i. Some (horner f i)"
  have "interpolateAtZero L ?sh xs = Inr (horner f 0 mod subOrder L)"
    by (rule interpolateAtZero_poly [OF L d nz len]) simp
  moreover have "interpolateAtZero L ?sh xs = Inr ((\<Sum>i\<leftarrow>xs. l i * horner f i) mod subOrder L)"
    using interpolate_loop [OF L, of xs ?sh "horner f" xs l _ 0] l by (simp add: interpolateAtZero_def)
  ultimately show ?thesis by simp
qed

lemma combine_sum:
  assumes L: "bjj_laws L" and E: "inSubgroup L E" and d: "distinct (map (modSub L) (map fst vs))"
    and nz: "0 \<notin> modSub L ` set (map fst vs)" and len: "length f \<le> length vs"
    and D: "\<forall>(i, D)\<in>set vs. D = scalarMul L (horner f i) E"
  shows "foldR (\<lambda>S (i, D). bindR (lagrangeAtZero L i (map fst vs)) (\<lambda>l.
      Inr (pointAdd L S (scalarMul L l D)))) IDENTITY vs = Inr (scalarMul L (horner f 0) E)"
proof -
  let ?xs = "map fst vs"
  obtain l where l: "\<And>i. lagrangeAtZero L i ?xs = Inr (l i)" using lagrangeAtZero_eq [OF L] by fast
  have loop: "foldR (\<lambda>S (i, D). bindR (lagrangeAtZero L i ?xs) (\<lambda>l. Inr (pointAdd L S (scalarMul L l D))))
      (scalarMul L a E) ws = Inr (scalarMul L (a + (\<Sum>i\<leftarrow>map fst ws. l i * horner f i)) E)"
    if "\<forall>(i, D)\<in>set ws. D = scalarMul L (horner f i) E" for a ws
    using that
  proof (induction ws arbitrary: a)
    case (Cons w ws)
    obtain i D where w: "w = (i, D)" "D = scalarMul L (horner f i) E" using Cons.prems by (cases w) auto
    have "pointAdd L (scalarMul L a E) (scalarMul L (l i) D) = scalarMul L (a + l i * horner f i) E"
      by (simp add: w(2) bjj_smul_add [OF L E] bjj_smul_mult [OF L E])
    then show ?case using Cons.IH [of "a + l i * horner f i"] Cons.prems by (simp add: w(1) l add.assoc)
  qed simp
  have "(\<Sum>i\<leftarrow>?xs. l i * horner f i) mod subOrder L = horner f 0 mod subOrder L"
    using lagrange_sum_list [OF L d nz, of f l] len l by simp
  from scalarMul_cong [OF L this, of E] show ?thesis
    using loop [OF D, of 0] by (simp add: scalarMul_0 [OF L E])
qed

text \<open>The committee's public shares come from one polynomial, and its identifiers are reduced.\<close>

definition committee :: "libs \<Rightarrow> int list \<Rightarrow> (int \<rightharpoonup> point) \<Rightarrow> bool" where
  "committee L f V \<longleftrightarrow> (\<forall>i v. V i = Some v \<longrightarrow> 0 < i \<and> i < subOrder L \<and> v = scalarBaseMul L (polyEval L f i))"

lemma partialOk_member: "partialOk L E V p = Inr True \<Longrightarrow> V (pdecId p) \<noteq> None"
  by (auto simp: partialOk_def split: option.splits)

lemma combine_recovers:
  assumes L: "bjj_laws L" and E: "inSubgroupNonId L E" and c: "committee L f V"
    and ok: "\<And>p. p \<in> set ps \<Longrightarrow> partialOk L E V p = Inr (ok p)"
    and D: "\<And>p. p \<in> set ps \<Longrightarrow> ok p \<Longrightarrow> dqD (pdecProof p) = scalarMul L (polyEval L f (pdecId p)) E"
    and len: "length f \<le> t" "t \<le> card (pdecId ` set (filter ok ps))"
  shows "combine L E ps V t = Inr (scalarMul L (polyEval L f 0) E)"
proof -
  let ?qs = "dedupId {} (filter ok ps)" and ?q = "subOrder L"
  let ?vs = "map (\<lambda>p. (pdecId p, dqD (pdecProof p))) ?qs"
  have q: "1 < ?q" by (rule bjj_laws_order_pos [OF L])
  have E': "inSubgroup L E" using E by (simp add: inSubgroupNonId_def)
  have mem: "ok p \<and> p \<in> set ps" if "p \<in> set ?qs" for p using dedupId_set [of "{}" "filter ok ps"] that by auto
  have range: "0 < pdecId p \<and> pdecId p < ?q" if "p \<in> set ?qs" for p
    using partialOk_member [of L E V p] ok mem [OF that] c by (auto simp: committee_def)
  have small: "map (modSub L) (map fst ?vs) = map pdecId ?qs" 
    using L by (auto simp: comp_def intro!: mod_pos_pos_trivial dest: range)
  have Dq: "dqD (pdecProof p) = scalarMul L (horner f (pdecId p)) E" if "p \<in> set ?qs" for p
    using D [of p] mem [OF that] by (simp add: polyEval_horner [OF L] scalarMul_mod [OF L])
  have eq: "\<forall>(i, D)\<in>set ?vs. D = scalarMul L (horner f i) E"
    by (simp add: Dq)
  have "modSub L ` set (map fst ?vs) = set (map pdecId ?qs)" using small by (metis list.set_map)
  moreover have "0 \<notin> set (map pdecId ?qs)" using range by force
  ultimately have "0 \<notin> modSub L ` set (map fst ?vs)" by metis
  moreover have "length f \<le> length ?vs" using len dedupId_length [of "filter ok ps"] by simp
  moreover have "distinct (map (modSub L) (map fst ?vs))" using small dedupId_distinct [of "{}" "filter ok ps"] by metis
  ultimately have "foldR (\<lambda>S (i, D). bindR (lagrangeAtZero L i (map fst ?vs)) (\<lambda>l.
      Inr (pointAdd L S (scalarMul L l D)))) IDENTITY ?vs = Inr (scalarMul L (horner f 0) E)"
    using combine_sum [OF L E' _ _ _ eq] by blast
  moreover obtain seen' where "foldR (combineStep L E V) ([], {}) ps = Inr (?vs, seen')"
    using combine_loop [OF ok, of ps "[]" "{}"] by auto
  ultimately show ?thesis
    using E len(2) dedupId_length [of "filter ok ps"] assertInSubgroup_iff [of L E]
    by (simp add: combine_def polyEval_horner [OF L] scalarMul_mod [OF L])
qed

lemma robust_recovers:
  assumes L: "bjj_laws L" "fr_laws L" and E: "inSubgroupNonId L E" and c: "committee L f V"
    and ok: "\<And>p. p \<in> set ps \<Longrightarrow> partialOk L E V p = Inr (ok p)"
    and D: "\<And>p. p \<in> set ps \<Longrightarrow> ok p \<Longrightarrow> dqD (pdecProof p) = scalarMul L (polyEval L f (pdecId p)) E"
    and len: "length f \<le> t" "t \<le> card (pdecId ` set (filter ok ps))"
  shows "\<exists>r. thresholdCekRobust L E ps V t = Inr r \<and> rcCek r = fst (scalarMul L (polyEval L f 0) E)
    \<and> length (rcUsed r) = t \<and> distinct (rcUsed r) \<and> set (rcUsed r) \<subseteq> pdecId ` {p \<in> set ps. ok p}
    \<and> set (rcExcluded r) \<subseteq> pdecId ` {p \<in> set ps. \<not> ok p}"
proof -
  let ?qs = "dedupId {} (filter ok ps)"
  let ?good = "take t ?qs"
  obtain ex seen' where loop: "foldR (robustStep L E V t) ([], [], {}) ps = Inr (?good, ex, seen')"
    and ex: "set ex \<subseteq> pdecId ` {p \<in> set ps. \<not> ok p}"
    using robust_loop [OF ok, of ps "[]" t "[]" "{}"] by auto
  have lg: "length ?good = t" using len(2) dedupId_length [of "filter ok ps"] by simp
  have mem: "p \<in> set ps \<and> ok p" if "p \<in> set ?good" for p
    using dedupId_set [of "{}" "filter ok ps"] in_set_takeD [OF that] by auto
  have dist: "distinct (map pdecId ?good)"
    using dedupId_distinct [of "{}" "filter ok ps"] by (metis distinct_take take_map)
  have all: "filter ok ?good = ?good" unfolding filter_id_conv using mem by blast
  have "card (pdecId ` set ?good) = t" using dist lg by (metis distinct_card length_map list.set_map)
  then have "combine L E ?good V t = Inr (scalarMul L (polyEval L f 0) E)"
    by (intro combine_recovers [OF L(1) E c, of ?good ok t]) (simp_all only: all len(1) ok D mem order_refl)
  moreover have "newFr L (fst (scalarMul L (polyEval L f 0) E)) = Inr (fst (scalarMul L (polyEval L f 0) E))"
    using bjj_coords [OF L(1) bjj_mem_smul [OF L(1)]] E L(2) by (simp add: inSubgroupNonId_def)
  ultimately have "thresholdCekRobust L E ps V t = Inr \<lparr>rcCek = fst (scalarMul L (polyEval L f 0) E),
      rcUsed = map pdecId ?good, rcExcluded = ex\<rparr>"
    using E loop lg assertInSubgroup_iff [of L E] by (simp add: thresholdCekRobust_def thresholdCek_def)
  moreover have "set (map pdecId ?good) \<subseteq> pdecId ` {p \<in> set ps. ok p}"
    unfolding set_map using mem by blast
  ultimately show ?thesis using lg dist ex by (simp del: length_take list.set_map)
qed

section \<open>Properties\<close>

text \<open>a member's partial decryption is accepted.  For a nonzero share and a valid public ephemeral,
  \<open>partialDecrypt\<close> returns a partial carrying the share times the ephemeral, and the acceptance test
  of the combiner (membership, point check, DLEQ proof) passes for it.\<close>

theorem partial_decrypt_accepted:
  assumes "bjj_laws L" "fr_laws L" "inSubgroupNonId L ephPub" "modSub L share \<noteq> 0"
    and "V i = Some (scalarBaseMul L share)"
  shows "\<exists>p. partialDecrypt L i share ephPub k = Inr p \<and> pdecId p = i
    \<and> dqD (pdecProof p) = scalarMul L share ephPub \<and> partialOk L ephPub V p = Inr True"
proof -
  obtain pr where pr: "cpProve L share ephPub k = Inr pr" "dqD pr = scalarMul L share ephPub"
    "cpVerify L (scalarMul L share (Base8 L)) ephPub pr = Inr True"
    using cp_complete [OF assms(1-4)] by blast
  have "inSubgroupNonId L (dqD pr)" using pr(3) by (simp add: cpVerify_def split: if_splits)
  then show ?thesis
    using pr assms assertInSubgroup_iff [of L ephPub] by (simp add: partialDecrypt_def partialOk_def scalarBaseMul_def)
qed

theorem partial_decrypt_accepted_witness:
  "\<exists>p. partialDecrypt toyLibs 2 5 (4, 2) 6 = Inr p \<and> pdecId p = 2 \<and> dqD (pdecProof p) = scalarMul toyLibs 5 (4, 2)
    \<and> partialOk toyLibs (4, 2) [2 \<mapsto> scalarBaseMul toyLibs 5] p = Inr True"
proof -
  have "inSubgroupNonId toyLibs (4, 2)"
    by (simp add: inSubgroupNonId_def toy_mem isIdentity_def toyPoint_def)
  then show ?thesis
    using partial_decrypt_accepted [OF toyLibs_bjj_laws toyLibs_fr_laws, of "(4, 2)" 5 "[2 \<mapsto> scalarBaseMul toyLibs 5]" 2 6]
      toyLibs_bjj_laws by (simp add: toy_ops)
qed



end
