(* ===== verification/NoteModel.thy ===== *)
theory NoteModel
  imports Crypto
begin

text \<open>
  \<open>note/note.ts\<close>, \<open>note/nullifier.ts\<close>, \<open>note/keys.ts\<close>, \<open>note/mint.ts\<close> and \<open>utxo/Utxo.ts\<close>: the note
  and its leaf, parent packing, the nullifier, the key schedule of a wallet with its even-y addresses,
  recovery of a point from its x-coordinate, and minting of self and incoming notes.
\<close>

section \<open>Notes\<close>

definition NOTE_VERSION :: int where "NOTE_VERSION = 1"
definition NOTE_TYPE_STANDARD :: int where "NOTE_TYPE_STANDARD = 0"
definition NOTE_TYPE_MULTISIG :: int where "NOTE_TYPE_MULTISIG = 1"

record Note =
  noteVersion :: int
  assetId :: int
  noteType :: int
  conditionsHash :: int
  noteValue :: int
  noteOwner :: int
  notePsi :: int
  noteParents :: int

definition leaf :: "libs \<Rightarrow> Note \<Rightarrow> int result" where
  "leaf L n =
     (if noteValue n < 0 \<or> 2 ^ 128 \<le> noteValue n then Inl (Error ''note value out of u128 range'')
      else bindR (newFr L (noteValue n)) (\<lambda>v.
        Poseidon_hash L [noteVersion n, assetId n, noteType n, conditionsHash n, v,
          noteOwner n, notePsi n, noteParents n]))"

definition assertU32 :: "int \<Rightarrow> int result" where
  "assertU32 value =
     (if value < 0 \<or> 0xffffffff < value then Inl (Error ''leafIndex not a u32 (0 <= x < 2^32)'')
      else Inr value)"

definition packParents :: "libs \<Rightarrow> int \<Rightarrow> int \<Rightarrow> int result" where
  "packParents L parent0 parent1 =
     bindR (assertU32 parent0) (\<lambda>index0.
     bindR (assertU32 parent1) (\<lambda>index1. newFr L (index0 + index1 * 2 ^ 32)))"

definition PARENTS_HIDDEN :: int where
  "PARENTS_HIDDEN = BN254_P - 1"

definition unpackParents :: "int \<Rightarrow> (int \<times> int) result" where
  "unpackParents packed =
     (if 2 ^ 64 \<le> packed then Inl (Error ''packed parents exceeds 2^64'')
      else Inr (packed mod 2 ^ 32, (packed div 2 ^ 32) mod 2 ^ 32))"

definition computePsi :: "libs \<Rightarrow> int \<Rightarrow> int result" where
  "computePsi L cek = bindR (newFr L PSI_DOMAIN) (\<lambda>d. Poseidon_hash L [cek, d])"

definition computeNullifier :: "libs \<Rightarrow> int \<Rightarrow> int \<Rightarrow> int result" where
  "computeNullifier L psi leafIndex = Poseidon_hash L [psi, leafIndex]"

text \<open>The constructor of \<open>Utxo\<close>: the first 12 of the 32 big-endian bytes of the asset id must be zero.\<close>

definition newUtxo :: "Note \<Rightarrow> Note result" where
  "newUtxo n =
     (if noteValue n < 0 \<or> 2 ^ 128 \<le> noteValue n then Inl (Error ''Note value out of u128 range.'')
      else if noteOwner n = 0 then Inl (Error ''Note owner (spend-key commitment) must be non-zero.'')
      else if \<exists>b\<in>set (take 12 (toBytesBE 32 (assetId n))). b \<noteq> 0
      then Inl (Error ''Invalid assetID: exceeds 160 bits (not an EVM address).'')
      else Inr n)"

definition getNullifierHash :: "libs \<Rightarrow> int \<Rightarrow> int \<Rightarrow> int result" where
  "getNullifierHash L psi leafIndex = bindR (newFr L leafIndex) (\<lambda>i. computeNullifier L psi i)"

section \<open>The key schedule\<close>

definition MAX_INDEX_ROLL :: nat where "MAX_INDEX_ROLL = 256"

definition deriveViewKey :: "libs \<Rightarrow> int \<Rightarrow> int result" where
  "deriveViewKey L skRoot = Kdf_derive L ''kakure.view'' skRoot None"

text \<open>A key of an indexed family: \<open>toBjjScalar(await Kdf.derive(label, sk_view, toFr(index)))\<close>.\<close>

definition deriveIndexed :: "libs \<Rightarrow> string \<Rightarrow> int \<Rightarrow> int \<Rightarrow> int result" where
  "deriveIndexed L label skView index =
     bindR (toFr L index) (\<lambda>i. bindR (Kdf_derive L label skView (Some i)) (\<lambda>k. toBjjScalar L k))"

definition deriveIncomingKey :: "libs \<Rightarrow> int \<Rightarrow> int \<Rightarrow> int result" where
  "deriveIncomingKey L skView index = deriveIndexed L ''kakure.inKey'' skView index"

definition deriveSelfEphemeral :: "libs \<Rightarrow> int \<Rightarrow> int \<Rightarrow> int result" where
  "deriveSelfEphemeral L skView index = deriveIndexed L ''kakure.selfEph'' skView index"

definition deriveSelfSpendKey :: "libs \<Rightarrow> int \<Rightarrow> int result" where
  "deriveSelfSpendKey L skView = bindR (Kdf_derive L ''kakure.selfSpend'' skView None) (\<lambda>k. toBjjScalar L k)"

definition derivePublicIncomingKey :: "libs \<Rightarrow> int \<Rightarrow> int \<Rightarrow> int result" where
  "derivePublicIncomingKey L skView index = deriveIndexed L ''kakure.pubIn'' skView index"

definition publicKey :: "libs \<Rightarrow> int \<Rightarrow> point" where
  "publicKey L scalar = mulPointEscalar L (Base8 L) scalar"

definition pubkeyOwner :: "libs \<Rightarrow> point \<Rightarrow> int result" where
  "pubkeyOwner L pub =
     bindR (newFr L (fst pub)) (\<lambda>x. bindR (newFr L (snd pub)) (\<lambda>y. Poseidon_hash L [x, y]))"

definition isEvenY :: "point \<Rightarrow> bool" where
  "isEvenY pub \<longleftrightarrow> snd pub mod 2 = 0"

definition discoveryTag :: "libs \<Rightarrow> point \<Rightarrow> int result" where
  "discoveryTag L pub = newFr L (fst pub)"

record canonicalAddress =
  caIndex :: int
  caPub :: point
  caTag :: int

fun rollLoop :: "libs \<Rightarrow> (int \<Rightarrow> int result) \<Rightarrow> int \<Rightarrow> int list \<Rightarrow> canonicalAddress result" where
  "rollLoop L derive startIndex [] = Inl (Error ''even-y discovery tag not found'')"
| "rollLoop L derive startIndex (attempt # attempts) =
     (let index = startIndex + attempt in
      bindR (derive index) (\<lambda>k.
      let pub = publicKey L k in
      if isEvenY pub
      then bindR (discoveryTag L pub) (\<lambda>tag. Inr \<lparr>caIndex = index, caPub = pub, caTag = tag\<rparr>)
      else rollLoop L derive startIndex attempts))"

definition rollToEvenY :: "libs \<Rightarrow> (int \<Rightarrow> int result) \<Rightarrow> int \<Rightarrow> canonicalAddress result" where
  "rollToEvenY L derive startIndex = rollLoop L derive startIndex (map int [0..<MAX_INDEX_ROLL])"

definition canonicalIncomingAddress :: "libs \<Rightarrow> int \<Rightarrow> int \<Rightarrow> canonicalAddress result" where
  "canonicalIncomingAddress L skView startIndex = rollToEvenY L (deriveIncomingKey L skView) startIndex"

definition canonicalSelfTag :: "libs \<Rightarrow> int \<Rightarrow> int \<Rightarrow> canonicalAddress result" where
  "canonicalSelfTag L skView startIndex = rollToEvenY L (deriveSelfEphemeral L skView) startIndex"

definition assertBjjSubgroupPoint :: "libs \<Rightarrow> point \<Rightarrow> unit result" where
  "assertBjjSubgroupPoint L pub =
     (if \<not> inCurve L pub then Inl (Error ''point is not on the BabyJubJub curve.'')
      else if fst pub = 0 \<and> snd pub = 1 then Inl (Error ''point is the identity.'')
      else let (ox, oy) = mulPointEscalar L pub (subOrder L) in
        if ox \<noteq> 0 \<or> oy \<noteq> 1 then Inl (Error ''point is not in the prime-order subgroup.'')
        else Inr ())"

definition canonicalPublicAddress :: "libs \<Rightarrow> int \<Rightarrow> int \<Rightarrow> (int \<times> point) result" where
  "canonicalPublicAddress L skView index =
     bindR (derivePublicIncomingKey L skView index) (\<lambda>k.
     let pub = publicKey L k in
     bindR (assertBjjSubgroupPoint L pub) (\<lambda>_. Inr (index, pub)))"

section \<open>A point from its x-coordinate\<close>

definition BJJ_A :: int where "BJJ_A = 168700"
definition BJJ_D :: int where "BJJ_D = 168696"

definition powP :: "int \<Rightarrow> int \<Rightarrow> int" where
  "powP base e = powLoop BN254_P 1 (modP base) e"

definition invP :: "int \<Rightarrow> int result" where
  "invP x =
     (let r = modP x in
      if r = 0 then Inl (Error ''recoverEvenY: division by zero'') else Inr (powP r (BN254_P - 2)))"

text \<open>Splitting off the powers of two; the loop runs on a positive \<open>q\<close>.\<close>

function twoAdic :: "int \<Rightarrow> nat \<Rightarrow> int \<times> nat" where
  "twoAdic q s = (if 0 < q \<and> q mod 2 = 0 then twoAdic (q div 2) (s + 1) else (q, s))"
  by pat_completeness auto
termination
  by (relation "measure (\<lambda>(q, s). nat q)") auto

declare twoAdic.simps [simp del]

text \<open>The search for a quadratic non-residue from \<open>z\<close> upwards.  The source does not bound it; the
  model tries a fixed number of candidates, the least non-residue of the field being 5.\<close>

fun nonResidue :: "nat \<Rightarrow> int \<Rightarrow> int result" where
  "nonResidue 0 z = Inl (LibraryError ''no non-residue among the candidates'')"
| "nonResidue (Suc fuel) z =
     (if powP z ((BN254_P - 1) div 2) \<noteq> BN254_P - 1 then nonResidue fuel (z + 1) else Inr z)"

text \<open>The inner loop: repeated squaring until one, throwing when \<open>i\<close> reaches \<open>m\<close>.  \<open>left\<close> is
  \<open>m - i\<close>.\<close>

fun tsInner :: "nat \<Rightarrow> int \<Rightarrow> nat \<Rightarrow> nat result" where
  "tsInner 0 t2 i = (if t2 = 1 then Inr i else Inl (Error ''recoverEvenY: Tonelli-Shanks failed''))"
| "tsInner (Suc left) t2 i =
     (if t2 = 1 then Inr i
      else if left = 0 then Inl (Error ''recoverEvenY: Tonelli-Shanks failed'')
      else tsInner left ((t2 * t2) smod BN254_P) (i + 1))"

lemma tsInner_less: "tsInner left t2 i = Inr j \<Longrightarrow> t2 \<noteq> 1 \<Longrightarrow> j < i + left"
proof (induction left t2 i rule: tsInner.induct)
  case (2 left t2 i)
  then have l: "left \<noteq> 0" and r: "tsInner left ((t2 * t2) smod BN254_P) (i + 1) = Inr j"
    by (auto split: if_splits)
  show ?case
  proof (cases "(t2 * t2) smod BN254_P = 1")
    case True
    then have "j = i + 1" using r l by (cases left) auto
    with l show ?thesis by simp
  next
    case False
    then show ?thesis using "2.IH" [OF "2.prems"(2) l r] by simp
  qed
qed simp

function tsLoop :: "nat \<Rightarrow> int \<Rightarrow> int \<Rightarrow> int \<Rightarrow> int result" where
  "tsLoop m c t r =
     (if t = 1 then Inr r
      else case tsInner m t 0 of Inl e \<Rightarrow> Inl e
        | Inr i \<Rightarrow>
          let b = powP c (2 ^ (m - i - 1)); c' = (b * b) smod BN254_P in
          tsLoop i c' ((t * c') smod BN254_P) ((r * b) smod BN254_P))"
  by pat_completeness auto
termination
  by (relation "measure (\<lambda>(m, c, t, r). m)") (auto dest: tsInner_less)

declare tsLoop.simps [simp del]

definition sqrtP :: "int \<Rightarrow> int result" where
  "sqrtP n =
     (let a = modP n in
      if a = 0 then Inr 0
      else if powP a ((BN254_P - 1) div 2) \<noteq> 1
      then Inl (Error ''recoverEvenY: x has no y on the curve (non-residue)'')
      else let (q, s) = twoAdic (BN254_P - 1) 0 in
        bindR (nonResidue 1000 2) (\<lambda>z.
        tsLoop s (powP z q) (powP a q) (powP a ((q + 1) div 2))))"

definition recoverEvenY :: "int \<Rightarrow> point result" where
  "recoverEvenY x =
     (let x2 = modP (x * x);
          num = modP (1 - modP (BJJ_A * x2));
          den = modP (1 - modP (BJJ_D * x2)) in
      bindR (invP den) (\<lambda>i.
      bindR (sqrtP (modP (num * i))) (\<lambda>y.
      Inr (modP x, if y mod 2 \<noteq> 0 then modP (BN254_P - y) else y))))"

section \<open>Minting\<close>

record mintedNote =
  mNote :: Note
  mCommitment :: int
  mEph :: int
  mEphPub :: point
  mCek :: int
  mPsi :: int
  mSpendScalar :: int
  mTag :: int
  mInPub :: "point option"
  mCekWrap :: "int option"

definition finishMint :: "libs \<Rightarrow> int \<Rightarrow> int \<Rightarrow> int \<Rightarrow> int \<Rightarrow> int \<Rightarrow> int \<Rightarrow> point \<Rightarrow> mintedNote result" where
  "finishMint L eph value owner asset spendScalar parents compliancePk =
     bindR (deriveCek L eph compliancePk) (\<lambda>cek.
     bindR (computePsi L cek) (\<lambda>psi.
     bindR (toFr L NOTE_TYPE_STANDARD) (\<lambda>ty.
     let plaintext = \<lparr>noteVersion = NOTE_VERSION, assetId = asset, noteType = ty, conditionsHash = 0,
           noteValue = value, noteOwner = owner, notePsi = psi, noteParents = parents\<rparr> in
     bindR (leaf L plaintext) (\<lambda>commitment.
     let ephPub = publicKey L eph in
     bindR (toFr L value) (\<lambda>v.
     bindR (newFr L (fst ephPub)) (\<lambda>tag.
     Inr \<lparr>mNote = plaintext\<lparr>noteValue := v\<rparr>, mCommitment = commitment, mEph = eph, mEphPub = ephPub,
          mCek = cek, mPsi = psi, mSpendScalar = spendScalar, mTag = tag, mInPub = None, mCekWrap = None\<rparr>))))))"

definition mintSelfNote :: "libs \<Rightarrow> int \<Rightarrow> int \<Rightarrow> int \<Rightarrow> int \<Rightarrow> point \<Rightarrow> int \<Rightarrow> mintedNote result" where
  "mintSelfNote L eph value spendScalar asset compliancePk parents =
     bindR (pubkeyOwner L (publicKey L spendScalar)) (\<lambda>owner.
     finishMint L eph value owner asset spendScalar parents compliancePk)"

definition mintIncomingNote :: "libs \<Rightarrow> int \<Rightarrow> int \<Rightarrow> point \<Rightarrow> int \<Rightarrow> int \<Rightarrow> point \<Rightarrow> int \<Rightarrow> mintedNote result" where
  "mintIncomingNote L eph value inPub inKey asset compliancePk parents =
     bindR (pubkeyOwner L inPub) (\<lambda>owner.
     bindR (finishMint L eph value owner asset inKey parents compliancePk) (\<lambda>built.
     bindR (wrapCek L (mCek built) eph inPub) (\<lambda>w.
     bindR (newFr L (fst inPub)) (\<lambda>tag.
     Inr (built\<lparr>mInPub := Some inPub, mCekWrap := Some w, mTag := tag\<rparr>)))))"

section \<open>Facts on the key schedule\<close>

lemma publicKey_scalarMul: "bjj_laws L \<Longrightarrow> 0 \<le> k \<Longrightarrow> publicKey L k = scalarBaseMul L k"
  by (simp add: publicKey_def scalarBaseMul_def scalarMul_of_nonneg bjj_base)

lemma publicKey_mem: "bjj_laws L \<Longrightarrow> 0 \<le> k \<Longrightarrow> inSubgroup L (publicKey L k)"
  by (simp add: publicKey_scalarMul)

lemma utf8_bytes: "list_all isByte (utf8 text)"
proof -
  have "(of_char c :: nat) < 256" for c
    using of_char_of [of "of_char c :: nat"] by (metis char_of_char mod_less_divisor zero_less_numeral)
  then show ?thesis by (simp add: utf8_def list_all_iff isByte_def)
qed

text \<open>A label shorter than 32 bytes always maps to a field element.\<close>

lemma stringToFr_ok:
  assumes "fr_laws L" "length text < 32"
  shows "\<exists>f. stringToFr L text = Inr f \<and> isFr f"
proof -
  let ?bs = "replicate (32 - length (utf8 text)) 0 @ utf8 text"
  have len: "length (utf8 text) < 32" using assms(2) by (simp add: utf8_def)
  have z: "bytesBE (replicate k 0 @ bs) = bytesBE bs" for k bs
    by (induction k) (simp_all add: bytesBE_def)
  have "bytesBE (utf8 text) < 256 ^ length (utf8 text)" by (rule bytesBE_bound [OF utf8_bytes])
  also have "\<dots> \<le> (256::int) ^ 31" using len by (intro power_increasing) simp_all
  also have "\<dots> < BN254_P" by (simp add: BN254_P_def)
  finally have "isFr (bytesBE ?bs)" by (simp add: isFr_def z bytesBE_nonneg)
  then show ?thesis
    using assms(1) len by (simp add: stringToFr_def Let_def fr_laws_buffer)
qed

lemma Kdf_derive_ok:
  assumes "fr_laws L" "length purpose < 32"
  shows "\<exists>k. Kdf_derive L purpose master nonce = Inr k \<and> isFr k"
  using stringToFr_ok [OF assms] assms(1) by (auto simp: Kdf_derive_def)

lemma deriveIndexed_ok:
  assumes "bjj_laws L" "fr_laws L" "length label < 32" "isFr index"
  shows "\<exists>k. deriveIndexed L label skView index = Inr k \<and> 0 \<le> k \<and> k < subOrder L"
proof -
  obtain k where "Kdf_derive L label skView (Some index) = Inr k" "isFr k"
    using Kdf_derive_ok [OF assms(2,3)] by blast
  then show ?thesis
    using assms bjj_laws_order_pos [OF assms(1)]
    by (simp add: deriveIndexed_def toFr_def toBjjScalar_ok)
qed

text \<open>The roll stops at the first index whose key has an even y.\<close>

lemma rollLoop_spec:
  assumes L: "bjj_laws L" "fr_laws L" and d: "\<And>a. a \<in> set as \<Longrightarrow> derive (start + a) = Inr (k (start + a)) \<and> 0 \<le> k (start + a)"
  shows "rollLoop L derive start as =
    (case find (\<lambda>a. isEvenY (publicKey L (k (start + a)))) as of
       None \<Rightarrow> Inl (Error ''even-y discovery tag not found'')
     | Some a \<Rightarrow> Inr \<lparr>caIndex = start + a, caPub = publicKey L (k (start + a)),
         caTag = fst (publicKey L (k (start + a)))\<rparr>)"
  using d
proof (induction as)
  case (Cons a as)
  have "isFr (fst (publicKey L (k (start + a))))"
    using Cons.prems [of a] bjj_coords [OF L(1) publicKey_mem [OF L(1)]] by simp
  then show ?case using Cons L by (simp add: discoveryTag_def Let_def)
qed simp

section \<open>Square roots\<close>

lemma modP_eq [simp]: "modP x = x mod BN254_P"
  by (simp add: modP_def posMod_eq_mod)

lemma powP_eq: "0 \<le> e \<Longrightarrow> powP b e = b ^ nat e mod BN254_P"
  by (simp add: powP_def powLoop_eq power_mod BN254_P_def)

text \<open>The invariant of the Tonelli-Shanks loop: \<open>r * r\<close> is the radicand times \<open>t\<close>.\<close>

lemma tsLoop_squares:
  assumes "tsLoop m c t r = Inr x" "0 \<le> c" "0 \<le> t" "0 \<le> r"
    and "(r * r) mod BN254_P = (a * t) mod BN254_P"
  shows "(x * x) mod BN254_P = a mod BN254_P"
  using assms
proof (induction m c t r rule: tsLoop.induct)
  case (1 m c t r)
  show ?case
  proof (cases "t = 1")
    case True
    then show ?thesis using "1.prems" by (simp add: tsLoop.simps)
  next
    case False
    then obtain i where i: "tsInner m t 0 = Inr i"
      using "1.prems"(1) by (cases "tsInner m t 0") (auto simp: tsLoop.simps [of m])
    let ?P = BN254_P and ?b = "powP c (2 ^ (m - i - 1))"
    let ?c = "(?b * ?b) smod ?P"
    have b: "0 \<le> ?b" by (simp add: powP_eq)
    have sm: "?c = (?b * ?b) mod ?P" "(t * ?c) smod ?P = (t * ?c) mod ?P" "(r * ?b) smod ?P = (r * ?b) mod ?P"
      using b "1.prems"(3,4) by (simp_all add: smod_nonneg)
    have "(((r * ?b) mod ?P) * ((r * ?b) mod ?P)) mod ?P = ((r * r) * (?b * ?b)) mod ?P"
      by (simp add: mod_mult_eq algebra_simps)
    also have "\<dots> = ((a * t) * ?c) mod ?P"
      by (rule mod_mult_cong) (use "1.prems"(5) sm(1) in simp_all)
    also have "\<dots> = (a * ((t * ?c) mod ?P)) mod ?P" by (simp add: mod_mult_right_eq algebra_simps)
    finally have inv: "(((r * ?b) smod ?P) * ((r * ?b) smod ?P)) mod ?P = (a * ((t * ?c) smod ?P)) mod ?P"
      by (simp only: sm(2,3))
    have "tsLoop i ?c ((t * ?c) smod ?P) ((r * ?b) smod ?P) = Inr x"
      using "1.prems"(1) False i by (simp add: tsLoop.simps [of m] Let_def)
    moreover have "0 \<le> ?c" unfolding sm(1) by simp
    moreover have "0 \<le> (t * ?c) smod ?P" unfolding sm(2) by simp
    moreover have "0 \<le> (r * ?b) smod ?P" unfolding sm(3) by simp
    ultimately show ?thesis by (intro "1.IH" [OF False i refl refl _ _ _ _ inv])
  qed
qed

lemma twoAdic_pos: "0 < q \<Longrightarrow> twoAdic q s = (q', s') \<Longrightarrow> 0 < q' \<and> q' mod 2 = 1"
proof (induction q s rule: twoAdic.induct)
  case (1 q s)
  show ?case
  proof (cases "q mod 2 = 0")
    case True
    then have "0 < q div 2" using "1.prems"(1) by auto
    then show ?thesis using "1.IH" True "1.prems" by (simp add: twoAdic.simps [of q])
  next
    case False
    then show ?thesis using "1.prems" by (auto simp: twoAdic.simps [of q])
  qed
qed

text \<open>What \<open>sqrtP\<close> returns is a square root.\<close>

lemma sqrtP_squares:
  assumes "sqrtP n = Inr r"
  shows "(r * r) mod BN254_P = n mod BN254_P"
proof (cases "n mod BN254_P = 0")
  case True
  then show ?thesis using assms by (simp add: sqrtP_def)
next
  case False
  let ?P = BN254_P and ?a = "n mod BN254_P"
  obtain q s where qs: "twoAdic (?P - 1) 0 = (q, s)" by fastforce
  have q: "0 < q" "q mod 2 = 1" using twoAdic_pos [OF _ qs] by (simp_all add: BN254_P_def)
  obtain z where z: "nonResidue 1000 2 = Inr z" "tsLoop s (powP z q) (powP ?a q) (powP ?a ((q + 1) div 2)) = Inr r"
    using assms False qs by (auto simp: sqrtP_def Let_def split: if_splits)
  have half: "nat ((q + 1) div 2) + nat ((q + 1) div 2) = Suc (nat q)"
  proof -
    have "2 * ((q + 1) div 2) = q + 1" using q(2) by presburger
    then show ?thesis using q(1) by linarith
  qed
  have "(powP ?a ((q + 1) div 2) * powP ?a ((q + 1) div 2)) mod ?P = (?a ^ Suc (nat q)) mod ?P"
    using q by (simp add: powP_eq mod_mult_eq half [symmetric] power_add)
  also have "\<dots> = (?a * powP ?a q) mod ?P" using q by (simp add: powP_eq mod_mult_right_eq)
  finally have "(r * r) mod ?P = ?a mod ?P"
    using q by (intro tsLoop_squares [OF z(2)]) (simp_all add: powP_eq)
  then show ?thesis by simp
qed

section \<open>Minting\<close>

lemma toFr_eq: "toFr L v = newFr L v"
  by (simp add: toFr_def)

lemma computePsi_ok: "fr_laws L \<Longrightarrow> computePsi L cek = Inr (poseidon2Hash L [cek, PSI_DOMAIN])"
  by (simp add: computePsi_def)

lemma u128_isFr: "0 \<le> v \<Longrightarrow> v < 2 ^ 128 \<Longrightarrow> isFr v"
  by (simp add: isFr_def BN254_P_def)

lemma leaf_ok: "fr_laws L \<Longrightarrow> 0 \<le> noteValue n \<Longrightarrow> noteValue n < 2 ^ 128 \<Longrightarrow>
    leaf L n = Inr (poseidon2Hash L [noteVersion n, assetId n, noteType n, conditionsHash n, noteValue n,
      noteOwner n, notePsi n, noteParents n])"
  by (simp add: leaf_def u128_isFr)

lemma pubkeyOwner_ok: "bjj_laws L \<Longrightarrow> fr_laws L \<Longrightarrow> inSubgroup L p \<Longrightarrow>
    pubkeyOwner L p = Inr (poseidon2Hash L [fst p, snd p])"
  by (simp add: pubkeyOwner_def bjj_coords)

lemma deriveCek_ok:
  assumes "bjj_laws L" "fr_laws L" "0 < eph" "eph < subOrder L" "inSubgroupNonId L pk"
  shows "deriveCek L eph pk = Inr (fst (mulPointEscalar L pk eph))" "isFr (fst (mulPointEscalar L pk eph))"
proof -
  have pk: "inSubgroup L pk" using assms(5) by (simp add: inSubgroupNonId_def)
  have "inSubgroup L (mulPointEscalar L pk eph)"
    using assms(1,3) pk by (simp add: scalarMul_of_nonneg)
  then show fr: "isFr (fst (mulPointEscalar L pk eph))" using bjj_coords [OF assms(1)] by blast
  have "eph < BJJ_SUBGROUP_ORDER" using assms(4) bjj_laws_order_le [OF assms(1)] by simp
  then show "deriveCek L eph pk = Inr (fst (mulPointEscalar L pk eph))"
    using assms fr by (simp add: deriveCek_def assertSubgroupScalar_def assertValidPoint_ok)
qed

text \<open>The note a mint builds from its content key.\<close>

definition mintedPlain :: "libs \<Rightarrow> int \<Rightarrow> int \<Rightarrow> int \<Rightarrow> int \<Rightarrow> int \<Rightarrow> Note" where
  "mintedPlain L cek value owner asset parents =
     \<lparr>noteVersion = NOTE_VERSION, assetId = asset, noteType = NOTE_TYPE_STANDARD, conditionsHash = 0,
      noteValue = value, noteOwner = owner, notePsi = poseidon2Hash L [cek, PSI_DOMAIN], noteParents = parents\<rparr>"

lemma finishMint_ok:
  assumes L: "bjj_laws L" "fr_laws L" and eph: "0 < eph" "eph < subOrder L" and pk: "inSubgroupNonId L pk"
    and v: "0 \<le> value" "value < 2 ^ 128"
  shows "\<exists>m. finishMint L eph value owner asset sk parents pk = Inr m
    \<and> mCek m = fst (mulPointEscalar L pk eph) \<and> mNote m = mintedPlain L (mCek m) value owner asset parents
    \<and> leaf L (mNote m) = Inr (mCommitment m) \<and> mPsi m = notePsi (mNote m)
    \<and> mEphPub m = publicKey L eph \<and> mTag m = fst (publicKey L eph) \<and> mEph m = eph \<and> mSpendScalar m = sk"
proof -
  have "isFr (fst (publicKey L eph))" using bjj_coords [OF L(1) publicKey_mem [OF L(1), of eph]] eph by simp
  then show ?thesis
    using deriveCek_ok [OF L eph pk] L(2) v
    by (simp add: finishMint_def computePsi_ok toFr_def NOTE_TYPE_STANDARD_def leaf_ok u128_isFr Let_def mintedPlain_def)
qed

lemma parents_packed:
  assumes "fr_laws L" "packParents L i j = Inr parents"
  shows "unpackParents parents = Inr (i, j)"
proof -
  have r: "0 \<le> i" "i < 2 ^ 32" "0 \<le> j" "j < 2 ^ 32" "parents = i + j * 2 ^ 32"
    using assms by (auto simp: packParents_def assertU32_def fr_laws_new_iff split: if_splits)
  then have "parents < 2 ^ 64" by simp
  then show ?thesis using r by (simp add: unpackParents_def)
qed

text \<open>What every successful mint has produced.\<close>

lemma finishMint_Inr:
  assumes "fr_laws L" "finishMint L eph value owner asset sk parents pk = Inr m"
  shows "deriveCek L eph pk = Inr (mCek m) \<and> mNote m = mintedPlain L (mCek m) value owner asset parents
    \<and> leaf L (mNote m) = Inr (mCommitment m) \<and> mEph m = eph \<and> mTag m = fst (publicKey L eph) \<and> mSpendScalar m = sk
    \<and> 0 \<le> value \<and> value < 2 ^ 128 \<and> mCekWrap m = None"
proof -
  have "0 \<le> value" "value < 2 ^ 128"
    using assms by (auto simp: finishMint_def leaf_def Let_def split: if_splits)
  then show ?thesis
    using assms by (auto simp: finishMint_def computePsi_ok toFr_def NOTE_TYPE_STANDARD_def u128_isFr Let_def mintedPlain_def
        fr_laws_new_iff)
qed

lemma mintSelfNote_Inr:
  assumes "fr_laws L" "mintSelfNote L eph value sk asset pk parents = Inr m"
  shows "\<exists>owner. pubkeyOwner L (publicKey L sk) = Inr owner \<and> deriveCek L eph pk = Inr (mCek m)
    \<and> mNote m = mintedPlain L (mCek m) value owner asset parents \<and> leaf L (mNote m) = Inr (mCommitment m)
    \<and> mEph m = eph \<and> mTag m = fst (publicKey L eph) \<and> mSpendScalar m = sk \<and> 0 \<le> value \<and> value < 2 ^ 128"
proof -
  obtain owner where o: "pubkeyOwner L (publicKey L sk) = Inr owner" "finishMint L eph value owner asset sk parents pk = Inr m"
    using assms(2) by (auto simp: mintSelfNote_def)
  then show ?thesis using finishMint_Inr [OF assms(1) o(2)] by blast
qed

text \<open>The seven fields of a note that are encrypted.\<close>

definition noteFields :: "Note \<Rightarrow> int list" where
  "noteFields n = [noteVersion n, assetId n, noteType n, conditionsHash n, noteValue n, noteOwner n, noteParents n]"

lemma noteFields_length [simp]: "length (noteFields n) = DEM_FIELDS"
  by (simp add: noteFields_def DEM_FIELDS_def)

lemma noteFields_nth:
  "noteFields n ! 0 = noteVersion n" "noteFields n ! 1 = assetId n" "noteFields n ! 2 = noteType n"
  "noteFields n ! 3 = conditionsHash n" "noteFields n ! 4 = noteValue n" "noteFields n ! 5 = noteOwner n"
  "noteFields n ! 6 = noteParents n"
  by (simp_all add: noteFields_def eval_nat_numeral)

lemma mintedPlain_fields:
  "fr_laws L \<Longrightarrow> 0 \<le> value \<Longrightarrow> value < 2 ^ 128 \<Longrightarrow> isFr owner \<Longrightarrow> isFr asset \<Longrightarrow> isFr parents \<Longrightarrow>
    list_all isFr (noteFields (mintedPlain L cek value owner asset parents))"
  by (simp add: mintedPlain_def noteFields_def NOTE_VERSION_def NOTE_TYPE_STANDARD_def u128_isFr)

lemma pubkeyOwner_isFr: "fr_laws L \<Longrightarrow> pubkeyOwner L p = Inr owner \<Longrightarrow> isFr owner"
  by (auto simp: pubkeyOwner_def)

section \<open>Properties\<close>

text \<open>parent packing.  Two 32-bit leaf indices are packed and unpacked to themselves; an index
  outside the range is refused; and the marker \<open>PARENTS_HIDDEN\<close> is never unpacked as a pair.\<close>

theorem parents_round_trip:
  assumes "fr_laws L"
  shows "bindR (packParents L a b) unpackParents =
      (if 0 \<le> a \<and> a < 2 ^ 32 \<and> 0 \<le> b \<and> b < 2 ^ 32 then Inr (a, b)
       else Inl (Error ''leafIndex not a u32 (0 <= x < 2^32)''))
    \<and> unpackParents PARENTS_HIDDEN = Inl (Error ''packed parents exceeds 2^64'')"
proof (cases "0 \<le> a \<and> a < 2 ^ 32 \<and> 0 \<le> b \<and> b < 2 ^ 32")
  case True
  then have "a + b * 2 ^ 32 < 2 ^ 64" by simp
  moreover from this have "isFr (a + b * 2 ^ 32)" using True by (simp add: isFr_def BN254_P_def)
  moreover have "(a + b * 2 ^ 32) mod 2 ^ 32 = a" "(a + b * 2 ^ 32) div 2 ^ 32 = b" using True by simp_all
  ultimately show ?thesis
    using True assms by (simp add: packParents_def assertU32_def unpackParents_def PARENTS_HIDDEN_def BN254_P_def)
next
  case False
  then show ?thesis
    by (auto simp: packParents_def assertU32_def unpackParents_def PARENTS_HIDDEN_def BN254_P_def)
qed

theorem parents_round_trip_witness:
  "bindR (packParents toyLibs 7 4294967295) unpackParents = Inr (7, 4294967295)"
  using parents_round_trip [OF toyLibs_fr_laws, of 7 4294967295] by simp

text \<open>canonical addresses.  For every start index (a field element with the 256 that follow it),
  \<open>canonicalIncomingAddress\<close> returns the first index in the window whose incoming key has an even y,
  with that key's public point and its x as the tag; when no index of the window qualifies it throws.\<close>

theorem canonical_address_first_even:
  assumes L: "bjj_laws L" "fr_laws L" and s: "0 \<le> start" "start + 256 < BN254_P"
  shows "\<exists>k. (\<forall>j. start \<le> j \<and> j < start + 256 \<longrightarrow> deriveIncomingKey L skView j = Inr (k j))
    \<and> canonicalIncomingAddress L skView start =
      (case find (\<lambda>a. isEvenY (publicKey L (k (start + a)))) (map int [0..<MAX_INDEX_ROLL]) of
         None \<Rightarrow> Inl (Error ''even-y discovery tag not found'')
       | Some a \<Rightarrow> Inr \<lparr>caIndex = start + a, caPub = publicKey L (k (start + a)),
           caTag = fst (publicKey L (k (start + a)))\<rparr>)"
proof -
  let ?k = "\<lambda>j. projr (deriveIncomingKey L skView j)"
  have k: "deriveIncomingKey L skView j = Inr (?k j) \<and> 0 \<le> ?k j" if "start \<le> j" "j < start + 256" for j
  proof -
    have "isFr j" using that s by (simp add: isFr_def)
    from deriveIndexed_ok [OF L _ this, of "''kakure.inKey''" skView] show ?thesis
      by (auto simp: deriveIncomingKey_def)
  qed
  have "canonicalIncomingAddress L skView start =
      (case find (\<lambda>a. isEvenY (publicKey L (?k (start + a)))) (map int [0..<MAX_INDEX_ROLL]) of
         None \<Rightarrow> Inl (Error ''even-y discovery tag not found'')
       | Some a \<Rightarrow> Inr \<lparr>caIndex = start + a, caPub = publicKey L (?k (start + a)),
           caTag = fst (publicKey L (?k (start + a)))\<rparr>)"
    unfolding canonicalIncomingAddress_def rollToEvenY_def
  proof (rule rollLoop_spec [OF L])
    fix a assume "a \<in> set (map int [0..<MAX_INDEX_ROLL])"
    then have "0 \<le> a" "a < 256" unfolding MAX_INDEX_ROLL_def by auto
    then show "deriveIncomingKey L skView (start + a) = Inr (?k (start + a)) \<and> 0 \<le> ?k (start + a)"
      using k [of "start + a"] by simp
  qed
  moreover have "\<forall>j. start \<le> j \<and> j < start + 256 \<longrightarrow> deriveIncomingKey L skView j = Inr (?k j)"
    using k by (intro allI impI) simp
  ultimately show ?thesis by (intro exI [of _ ?k] conjI)
qed

theorem canonical_address_first_even_witness:
  "\<exists>k. (\<forall>j. 3 \<le> j \<and> j < 3 + 256 \<longrightarrow> deriveIncomingKey toyLibs 9 j = Inr (k j))
    \<and> canonicalIncomingAddress toyLibs 9 3 =
      (case find (\<lambda>a. isEvenY (publicKey toyLibs (k (3 + a)))) (map int [0..<MAX_INDEX_ROLL]) of
         None \<Rightarrow> Inl (Error ''even-y discovery tag not found'')
       | Some a \<Rightarrow> Inr \<lparr>caIndex = 3 + a, caPub = publicKey toyLibs (k (3 + a)),
           caTag = fst (publicKey toyLibs (k (3 + a)))\<rparr>)"
  by (rule canonical_address_first_even [OF toyLibs_bjj_laws toyLibs_fr_laws]) (simp_all add: BN254_P_def)

end
