(* ===== verification/Counters.thy ===== *)
theory Counters
  imports Prelude
begin

text \<open>
  \<open>state/EphemeralCounterStore.ts\<close> and \<open>state/PersistentEphemeralCounterStore.ts\<close>: the counters that
  hand out ephemeral indices.  The locale \<open>counter_store\<close> is the contract the interface documents (a
  reservation starts at the high-water mark and raises it before it is returned; nothing lowers it);
  inside it, no index is ever handed out twice over any sequence of calls.  It is interpreted on the
  in-memory store, on the sealed store and on the persistent store over any lawful medium.
\<close>

section \<open>Reservations\<close>

record reservation =
  resBase :: int
  resSpan :: int

definition commitReservation :: "reservation \<Rightarrow> int \<Rightarrow> unit result" where
  "commitReservation r usedThrough =
     (if usedThrough < resBase r \<or> resBase r + resSpan r \<le> usedThrough
      then Inl (Error ''ephemeral commit: usedThrough out of reserved span'') else Inr ())"

definition releaseReservation :: "reservation \<Rightarrow> unit result" where
  "releaseReservation r = Inr ()"

text \<open>The indices of a reservation.\<close>

definition resIndices :: "reservation \<Rightarrow> int set" where
  "resIndices r = {resBase r..<resBase r + resSpan r}"

section \<open>The in-memory store\<close>

record inMemoryStore =
  imHighWater :: "string \<rightharpoonup> int"
  imFailNextWrite :: bool

definition newInMemoryStore :: "(string \<rightharpoonup> int) \<Rightarrow> inMemoryStore" where
  "newInMemoryStore snapshot = \<lparr>imHighWater = snapshot, imFailNextWrite = False\<rparr>"

definition imHigh :: "inMemoryStore \<Rightarrow> string \<Rightarrow> int" where
  "imHigh s scope = orElse (imHighWater s scope) 0"

definition imReserve :: "inMemoryStore \<Rightarrow> string \<Rightarrow> int \<Rightarrow> reservation result \<times> inMemoryStore" where
  "imReserve s scope span =
     (if span \<le> 0 then (Inl (Error ''ephemeral reserve: span must be a positive integer''), s)
      else if imFailNextWrite s
      then (Inl (Error ''ephemeral reserve: durable write failed''), s\<lparr>imFailNextWrite := False\<rparr>)
      else let base = imHigh s scope in
        (Inr \<lparr>resBase = base, resSpan = span\<rparr>, s\<lparr>imHighWater := (imHighWater s)(scope \<mapsto> base + span)\<rparr>))"

definition imSnapshot :: "inMemoryStore \<Rightarrow> (string \<rightharpoonup> int)" where
  "imSnapshot s = imHighWater s"

definition imFailNext :: "inMemoryStore \<Rightarrow> inMemoryStore" where
  "imFailNext s = s\<lparr>imFailNextWrite := True\<rparr>"

section \<open>The sealed store\<close>

definition sealedReserve :: "unit \<Rightarrow> string \<Rightarrow> int \<Rightarrow> reservation result \<times> unit" where
  "sealedReserve s scope span = (Inl (Error ''no durable ephemeral counter configured''), s)"

definition sealedHigh :: "unit \<Rightarrow> string \<Rightarrow> int" where
  "sealedHigh s scope = 0"

section \<open>The persistent store\<close>

text \<open>The injected medium: \<open>CounterPersistence\<close> of the source.\<close>

record 'd persistence =
  pRead :: "'d \<Rightarrow> string \<rightharpoonup> int"
  pReserve :: "'d \<Rightarrow> string \<Rightarrow> int \<Rightarrow> int result \<times> 'd"

definition maxSafe :: int where
  "maxSafe = 2 ^ 53 - 1"

definition persistentReserve :: "'d persistence \<Rightarrow> 'd \<Rightarrow> string \<Rightarrow> int \<Rightarrow> reservation result \<times> 'd" where
  "persistentReserve P d scope span =
     (if span \<le> 0 then (Inl (Error ''ephemeral reserve: span must be a positive integer''), d)
      else case pReserve P d scope span of
        (Inl e, d') \<Rightarrow> (Inl e, d')
      | (Inr base, d') \<Rightarrow>
          if maxSafe < base \<or> base < 0 \<or> maxSafe < base + span
          then (Inl (Error ''ephemeral reserve: persistence returned invalid base''), d')
          else (Inr \<lparr>resBase = base, resSpan = span\<rparr>, d'))"

definition persistentHigh :: "'d persistence \<Rightarrow> 'd \<Rightarrow> string \<Rightarrow> int" where
  "persistentHigh P d scope = orElse (pRead P d scope) 0"

text \<open>What the medium documents: a reservation selects the current mark and advances it in one
  transaction, and a rejected one changes nothing.\<close>

definition persistence_laws :: "'d persistence \<Rightarrow> bool" where
  "persistence_laws P \<longleftrightarrow> (\<forall>d scope span r d'. 0 < span \<longrightarrow> pReserve P d scope span = (r, d') \<longrightarrow>
     (case r of Inl e \<Rightarrow> pRead P d' = pRead P d
      | Inr base \<Rightarrow> base = orElse (pRead P d scope) 0 \<and> pRead P d' = (pRead P d)(scope \<mapsto> base + span)))"

section \<open>The contract\<close>

text \<open>A run of reservations: the results of the calls and the store they leave.\<close>

fun runReserves :: "('s \<Rightarrow> string \<Rightarrow> int \<Rightarrow> reservation result \<times> 's) \<Rightarrow> 's \<Rightarrow> (string \<times> int) list
    \<Rightarrow> (string \<times> reservation) list \<times> 's" where
  "runReserves reserve s [] = ([], s)"
| "runReserves reserve s ((scope, span) # calls) =
     (case reserve s scope span of
        (Inl e, s') \<Rightarrow> runReserves reserve s' calls
      | (Inr r, s') \<Rightarrow> (let (rs, s'') = runReserves reserve s' calls in ((scope, r) # rs, s'')))"

locale counter_store =
  fixes reserve :: "'s \<Rightarrow> string \<Rightarrow> int \<Rightarrow> reservation result \<times> 's" and high :: "'s \<Rightarrow> string \<Rightarrow> int"
  assumes reserve_ok: "reserve s scope span = (Inr r, s') \<Longrightarrow>
      resBase r = high s scope \<and> resSpan r = span \<and> 0 < span \<and> high s' scope = resBase r + span"
    and reserve_mono: "reserve s scope span = (x, s') \<Longrightarrow> high s sc \<le> high s' sc"
begin

lemma run_above: "runReserves reserve s calls = (rs, s') \<Longrightarrow> (sc, r) \<in> set rs \<Longrightarrow> high s sc \<le> resBase r"
proof (induction calls arbitrary: s rs)
  case (Cons c calls)
  obtain scope span where c: "c = (scope, span)" by (cases c)
  obtain x s1 where x: "reserve s scope span = (x, s1)" by (cases "reserve s scope span")
  obtain rs1 s2 where rs1: "runReserves reserve s1 calls = (rs1, s2)" by (cases "runReserves reserve s1 calls")
  have mono: "high s sc \<le> high s1 sc" by (rule reserve_mono [OF x])
  show ?case
  proof (cases x)
    case (Inl e)
    then have "runReserves reserve s1 calls = (rs, s')" using Cons.prems(1) c x by simp
    then show ?thesis using Cons.IH [of s1 rs] Cons.prems(2) mono by fastforce
  next
    case (Inr r1)
    then have "rs = (scope, r1) # rs1" "s' = s2" using Cons.prems(1) c x rs1 by simp_all
    then show ?thesis
      using Cons.prems(2) Cons.IH [of s1 rs1] rs1 mono reserve_ok [of s scope span r1 s1] x Inr by fastforce
  qed
qed simp

text \<open>Later reservations of a scope lie above the mark an earlier one left.\<close>

lemma run_disjoint:
  "runReserves reserve s calls = (rs, s') \<Longrightarrow> i < j \<Longrightarrow> j < length rs \<Longrightarrow> fst (rs ! i) = fst (rs ! j) \<Longrightarrow>
    resBase (snd (rs ! i)) + resSpan (snd (rs ! i)) \<le> resBase (snd (rs ! j))"
proof (induction calls arbitrary: s rs i j)
  case (Cons c calls)
  obtain scope span where c: "c = (scope, span)" by (cases c)
  obtain x s1 where x: "reserve s scope span = (x, s1)" by (cases "reserve s scope span")
  obtain rs1 s2 where rs1: "runReserves reserve s1 calls = (rs1, s2)" by (cases "runReserves reserve s1 calls")
  show ?case
  proof (cases x)
    case (Inl e)
    then have "runReserves reserve s1 calls = (rs, s')" using Cons.prems(1) c x by simp
    then show ?thesis using Cons.IH Cons.prems(2-4) by blast
  next
    case (Inr r1)
    then have rs: "rs = (scope, r1) # rs1" and s2: "s' = s2" using Cons.prems(1) c x rs1 by simp_all
    obtain j' where j: "j = Suc j'" using Cons.prems(2) by (cases j) auto
    show ?thesis
    proof (cases i)
      case 0
      have "(fst (rs1 ! j'), snd (rs1 ! j')) \<in> set rs1" using Cons.prems(3) rs j by simp
      from run_above [OF rs1 this] show ?thesis
        using reserve_ok [of s scope span r1 s1] x Inr Cons.prems(4) by (simp add: 0 rs j)
    next
      case (Suc i')
      then show ?thesis using Cons.IH [OF rs1 [folded s2], of i' j'] Cons.prems(2-4) by (simp add: rs j)
    qed
  qed
qed simp

lemma run_no_reuse:
  assumes "runReserves reserve s calls = (rs, s')" "i < length rs" "j < length rs" "i \<noteq> j" "fst (rs ! i) = fst (rs ! j)"
  shows "resIndices (snd (rs ! i)) \<inter> resIndices (snd (rs ! j)) = {}"
proof (cases "i < j")
  case True
  then show ?thesis using run_disjoint [OF assms(1), of i j] assms by (auto simp: resIndices_def)
next
  case False
  then show ?thesis using run_disjoint [OF assms(1), of j i] assms by (auto simp: resIndices_def)
qed

end

section \<open>The stores satisfy it\<close>

interpretation inMemory: counter_store imReserve imHigh
  by unfold_locales (auto simp: imReserve_def imHigh_def Let_def split: if_splits)

interpretation sealed: counter_store sealedReserve sealedHigh
  by unfold_locales (auto simp: sealedReserve_def sealedHigh_def)

text \<open>A medium that rejects every write is lawful.\<close>

definition deadPersistence :: "'d persistence" where
  "deadPersistence = \<lparr>pRead = (\<lambda>_. Map.empty), pReserve = (\<lambda>d _ _. (Inl (LibraryError ''unavailable''), d))\<rparr>"

definition lawfulPersistence :: "'d persistence \<Rightarrow> 'd persistence" where
  "lawfulPersistence P = (if persistence_laws P then P else deadPersistence)"

lemma lawfulPersistence_laws: "persistence_laws (lawfulPersistence P)"
  by (simp add: lawfulPersistence_def persistence_laws_def deadPersistence_def)

lemma lawfulPersistence_id [simp]: "persistence_laws P \<Longrightarrow> lawfulPersistence P = P"
  by (simp add: lawfulPersistence_def)

lemma persistent_step:
  assumes "persistence_laws P" "persistentReserve P d scope span = (x, d')"
  shows "(case x of Inr r \<Rightarrow> resBase r = persistentHigh P d scope \<and> resSpan r = span \<and> 0 < span
        \<and> persistentHigh P d' scope = resBase r + span | Inl e \<Rightarrow> True)
    \<and> persistentHigh P d sc \<le> persistentHigh P d' sc"
proof (cases "0 < span")
  case True
  obtain y d1 where y: "pReserve P d scope span = (y, d1)" by (cases "pReserve P d scope span")
  have law: "case y of Inl e \<Rightarrow> pRead P d1 = pRead P d
      | Inr base \<Rightarrow> base = orElse (pRead P d scope) 0 \<and> pRead P d1 = (pRead P d)(scope \<mapsto> base + span)"
    using assms(1) True y unfolding persistence_laws_def by blast
  then show ?thesis
    using assms(2) True y by (cases y) (auto simp: persistentReserve_def persistentHigh_def split: if_splits)
qed (use assms(2) in \<open>auto simp: persistentReserve_def\<close>)

interpretation persistent: counter_store "persistentReserve (lawfulPersistence P)" "persistentHigh (lawfulPersistence P)" for P
proof
  fix s scope span r s'
  assume "persistentReserve (lawfulPersistence P) s scope span = (Inr r, s')"
  from persistent_step [OF lawfulPersistence_laws this]
  show "resBase r = persistentHigh (lawfulPersistence P) s scope \<and> resSpan r = span \<and> 0 < span
      \<and> persistentHigh (lawfulPersistence P) s' scope = resBase r + span" by simp
next
  fix s scope span x s' sc
  assume "persistentReserve (lawfulPersistence P) s scope span = (x, s')"
  from persistent_step [OF lawfulPersistence_laws this]
  show "persistentHigh (lawfulPersistence P) s sc \<le> persistentHigh (lawfulPersistence P) s' sc" by simp
qed

section \<open>Properties\<close>


text \<open>A medium that keeps the marks in a map.\<close>

definition mapPersistence :: "(string \<rightharpoonup> int) persistence" where
  "mapPersistence = \<lparr>pRead = (\<lambda>d. d),
     pReserve = (\<lambda>d scope span. (Inr (orElse (d scope) 0), d(scope \<mapsto> orElse (d scope) 0 + span)))\<rparr>"

lemma mapPersistence_laws: "persistence_laws mapPersistence"
  by (auto simp: persistence_laws_def mapPersistence_def)


end
