(* ===== verification/KeyRepo.thy ===== *)
theory KeyRepo
  imports NoteModel Counters
begin

text \<open>
  \<open>state/KeyRepository.ts\<close>: the wallet's key registry.  It mints self ephemerals from the durable
  counter, issues incoming addresses, registers the tags of a lookahead window, and answers the tag
  matches of a scan.  An operation returns its result together with the registry it leaves, because
  the fields already assigned stay assigned when a later step throws.  The account and the counter
  are arguments.
\<close>

section \<open>State\<close>

definition DEFAULT_LOOKAHEAD_WINDOW :: int where "DEFAULT_LOOKAHEAD_WINDOW = 20"
definition MAX_KEY_INDEX :: int where "MAX_KEY_INDEX = 1000000"
definition SELF_EPH_SCOPE :: string where "SELF_EPH_SCOPE = ''self''"

definition clampIndex :: "int \<Rightarrow> int \<Rightarrow> int" where
  "clampIndex value floor = min (max value floor) MAX_KEY_INDEX"

record account =
  acSelfEphemeral :: "int \<Rightarrow> int result"
  acIncomingKey :: "int \<Rightarrow> int result"
  acSelfSpendKey :: "int result"
  acSelfSpendPub :: "point result"

record 's counterOps =
  coReserve :: "'s \<Rightarrow> string \<Rightarrow> int \<Rightarrow> reservation result \<times> 's"
  coHigh :: "'s \<Rightarrow> string \<Rightarrow> int"

record keyRepo =
  krSelfMintCounter :: int
  krSelfScanIndex :: int
  krIncomingIssueCounter :: int
  krIncomingScanIndex :: int
  krHighestMatchedSelf :: int
  krHighestMatchedIncoming :: int
  krSelfMap :: "int \<rightharpoonup> int \<times> int"
  krIncomingMap :: "int \<rightharpoonup> int \<times> int"

definition newKeyRepo :: keyRepo where
  "newKeyRepo = \<lparr>krSelfMintCounter = 0, krSelfScanIndex = 0, krIncomingIssueCounter = 0,
     krIncomingScanIndex = 0, krHighestMatchedSelf = - 1, krHighestMatchedIncoming = - 1,
     krSelfMap = Map.empty, krIncomingMap = Map.empty\<rparr>"

definition tagKey :: "libs \<Rightarrow> int \<Rightarrow> int result" where
  "tagKey L x = newFr L x"

record selfEphemeral =
  seEph :: int
  seEphPub :: point
  seTag :: int
  seIndex :: int

record incomingAddress =
  iaInKey :: int
  iaInPub :: point
  iaIndex :: int

section \<open>Issuing\<close>

text \<open>One attempt of the roll per unit of fuel; the source allows 256.\<close>

fun nextSelfLoop :: "libs \<Rightarrow> account \<Rightarrow> 's counterOps \<Rightarrow> nat \<Rightarrow> keyRepo \<Rightarrow> 's \<Rightarrow> selfEphemeral result \<times> keyRepo \<times> 's" where
  "nextSelfLoop L ac co 0 kr s = (Inl (Error ''no even-y self ephemeral within 256 reservations''), kr, s)"
| "nextSelfLoop L ac co (Suc n) kr s =
     (case coReserve co s SELF_EPH_SCOPE 1 of
        (Inl e, s') \<Rightarrow> (Inl e, kr, s')
      | (Inr res, s') \<Rightarrow>
        let index = resBase res in
        case acSelfEphemeral ac index of Inl e \<Rightarrow> (Inl e, kr, s')
        | Inr eph \<Rightarrow>
          let ephPub = publicKey L eph in
          if \<not> isEvenY ephPub then nextSelfLoop L ac co n kr s'
          else case bindR (commitReservation res index) (\<lambda>_. bindR (acSelfSpendPub ac) (pubkeyOwner L)) of
            Inl e \<Rightarrow> (Inl e, kr, s')
          | Inr ownerCommitment \<Rightarrow>
            let kr1 = kr\<lparr>krSelfMintCounter := max (krSelfMintCounter kr) (index + 1)\<rparr> in
            case tagKey L (fst ephPub) of Inl e \<Rightarrow> (Inl e, kr1, s')
            | Inr key \<Rightarrow>
              (Inr \<lparr>seEph = eph, seEphPub = ephPub, seTag = key, seIndex = index\<rparr>,
               kr1\<lparr>krSelfMap := (krSelfMap kr1)(key \<mapsto> (eph, index)),
                  krSelfScanIndex := (if krSelfScanIndex kr1 < index + 1 then index + 1 else krSelfScanIndex kr1)\<rparr>,
               s'))"

definition nextSelfEphemeral :: "libs \<Rightarrow> account \<Rightarrow> 's counterOps \<Rightarrow> keyRepo \<Rightarrow> 's \<Rightarrow> selfEphemeral result \<times> keyRepo \<times> 's" where
  "nextSelfEphemeral L ac co kr s = nextSelfLoop L ac co MAX_INDEX_ROLL kr s"

fun nextIncomingLoop :: "libs \<Rightarrow> account \<Rightarrow> int list \<Rightarrow> keyRepo \<Rightarrow> incomingAddress result \<times> keyRepo" where
  "nextIncomingLoop L ac [] kr = (Inl (Error ''no even-y incoming address''), kr)"
| "nextIncomingLoop L ac (index # rest) kr =
     (case acIncomingKey ac index of Inl e \<Rightarrow> (Inl e, kr)
      | Inr inKey \<Rightarrow>
        let inPub = publicKey L inKey in
        if \<not> isEvenY inPub then nextIncomingLoop L ac rest kr
        else let kr1 = kr\<lparr>krIncomingIssueCounter := index + 1\<rparr> in
          case tagKey L (fst inPub) of Inl e \<Rightarrow> (Inl e, kr1)
          | Inr key \<Rightarrow>
            (Inr \<lparr>iaInKey = inKey, iaInPub = inPub, iaIndex = index\<rparr>,
             kr1\<lparr>krIncomingMap := (krIncomingMap kr1)(key \<mapsto> (inKey, index)),
                krIncomingScanIndex := (if krIncomingScanIndex kr1 < index + 1 then index + 1
                  else krIncomingScanIndex kr1)\<rparr>))"

definition nextIncomingAddress :: "libs \<Rightarrow> account \<Rightarrow> keyRepo \<Rightarrow> incomingAddress result \<times> keyRepo" where
  "nextIncomingAddress L ac kr =
     (let start = krIncomingIssueCounter kr in
      nextIncomingLoop L ac (map (\<lambda>a. start + int a) [0..<MAX_INDEX_ROLL]) kr)"

section \<open>Registering and matching\<close>

definition registerSelf :: "libs \<Rightarrow> account \<Rightarrow> keyRepo \<Rightarrow> int \<Rightarrow> unit result \<times> keyRepo" where
  "registerSelf L ac kr index =
     (case acSelfEphemeral ac index of Inl e \<Rightarrow> (Inl e, kr)
      | Inr eph \<Rightarrow>
        let ephPub = publicKey L eph in
        if \<not> isEvenY ephPub then (Inr (), kr)
        else case tagKey L (fst ephPub) of Inl e \<Rightarrow> (Inl e, kr)
          | Inr key \<Rightarrow> (Inr (), if krSelfMap kr key = None
              then kr\<lparr>krSelfMap := (krSelfMap kr)(key \<mapsto> (eph, index))\<rparr> else kr))"

definition registerIncoming :: "libs \<Rightarrow> account \<Rightarrow> keyRepo \<Rightarrow> int \<Rightarrow> unit result \<times> keyRepo" where
  "registerIncoming L ac kr index =
     (case acIncomingKey ac index of Inl e \<Rightarrow> (Inl e, kr)
      | Inr inKey \<Rightarrow>
        let inPub = publicKey L inKey in
        if \<not> isEvenY inPub then (Inr (), kr)
        else case tagKey L (fst inPub) of Inl e \<Rightarrow> (Inl e, kr)
          | Inr key \<Rightarrow> (Inr (), if krIncomingMap kr key = None
              then kr\<lparr>krIncomingMap := (krIncomingMap kr)(key \<mapsto> (inKey, index))\<rparr> else kr))"

lemma registerSelf_scan [simp]: "registerSelf L ac kr i = (x, kr') \<Longrightarrow> krSelfScanIndex kr' = krSelfScanIndex kr"
  by (auto simp: registerSelf_def Let_def split: sum.splits if_splits)

lemma registerIncoming_scan [simp]: "registerIncoming L ac kr i = (x, kr') \<Longrightarrow> krIncomingScanIndex kr' = krIncomingScanIndex kr"
  by (auto simp: registerIncoming_def Let_def split: sum.splits if_splits)

text \<open>\<open>while (scanIndex < target) await register(scanIndex++)\<close>: the index is advanced first.\<close>

function registerSelfTo :: "libs \<Rightarrow> account \<Rightarrow> int \<Rightarrow> keyRepo \<Rightarrow> unit result \<times> keyRepo" where
  "registerSelfTo L ac target kr =
     (if krSelfScanIndex kr < target then
        let i = krSelfScanIndex kr in
        case registerSelf L ac (kr\<lparr>krSelfScanIndex := i + 1\<rparr>) i of
          (Inl e, kr') \<Rightarrow> (Inl e, kr')
        | (Inr u, kr') \<Rightarrow> registerSelfTo L ac target kr'
      else (Inr (), kr))"
  by pat_completeness auto
termination
  by (relation "measure (\<lambda>(L, ac, target, kr). nat (target - krSelfScanIndex kr))")
    (auto dest!: registerSelf_scan [OF sym])

declare registerSelfTo.simps [simp del]

function registerIncomingTo :: "libs \<Rightarrow> account \<Rightarrow> int \<Rightarrow> keyRepo \<Rightarrow> unit result \<times> keyRepo" where
  "registerIncomingTo L ac target kr =
     (if krIncomingScanIndex kr < target then
        let i = krIncomingScanIndex kr in
        case registerIncoming L ac (kr\<lparr>krIncomingScanIndex := i + 1\<rparr>) i of
          (Inl e, kr') \<Rightarrow> (Inl e, kr')
        | (Inr u, kr') \<Rightarrow> registerIncomingTo L ac target kr'
      else (Inr (), kr))"
  by pat_completeness auto
termination
  by (relation "measure (\<lambda>(L, ac, target, kr). nat (target - krIncomingScanIndex kr))")
    (auto dest!: registerIncoming_scan [OF sym])

declare registerIncomingTo.simps [simp del]

definition ensureSelfLookahead :: "libs \<Rightarrow> account \<Rightarrow> keyRepo \<Rightarrow> int \<Rightarrow> bool result \<times> keyRepo" where
  "ensureSelfLookahead L ac kr window =
     (let target = max (krSelfScanIndex kr) (krHighestMatchedSelf kr + 1 + window) in
      case registerSelfTo L ac target kr of (Inl e, kr') \<Rightarrow> (Inl e, kr')
      | (Inr u, kr') \<Rightarrow> (Inr (krSelfScanIndex kr < target), kr'))"

definition ensureIncomingLookahead :: "libs \<Rightarrow> account \<Rightarrow> keyRepo \<Rightarrow> int \<Rightarrow> bool result \<times> keyRepo" where
  "ensureIncomingLookahead L ac kr window =
     (let target = max (krIncomingScanIndex kr) (krHighestMatchedIncoming kr + 1 + window) in
      case registerIncomingTo L ac target kr of (Inl e, kr') \<Rightarrow> (Inl e, kr')
      | (Inr u, kr') \<Rightarrow> (Inr (krIncomingScanIndex kr < target), kr'))"

definition matchSelfTag :: "libs \<Rightarrow> keyRepo \<Rightarrow> int \<Rightarrow> (int \<times> int) option result \<times> keyRepo" where
  "matchSelfTag L kr tag =
     (case tagKey L tag of Inl e \<Rightarrow> (Inl e, kr)
      | Inr key \<Rightarrow>
        (case krSelfMap kr key of None \<Rightarrow> (Inr None, kr)
         | Some (eph, index) \<Rightarrow> (Inr (Some (eph, index)),
             if krHighestMatchedSelf kr < index then kr\<lparr>krHighestMatchedSelf := index\<rparr> else kr)))"

definition matchIncomingTag :: "libs \<Rightarrow> keyRepo \<Rightarrow> int \<Rightarrow> (int \<times> int) option result \<times> keyRepo" where
  "matchIncomingTag L kr tag =
     (case tagKey L tag of Inl e \<Rightarrow> (Inl e, kr)
      | Inr key \<Rightarrow>
        (case krIncomingMap kr key of None \<Rightarrow> (Inr None, kr)
         | Some (inKey, index) \<Rightarrow> (Inr (Some (inKey, index)),
             if krHighestMatchedIncoming kr < index then kr\<lparr>krHighestMatchedIncoming := index\<rparr> else kr)))"

definition recordIncomingMatch :: "keyRepo \<Rightarrow> int \<Rightarrow> keyRepo" where
  "recordIncomingMatch kr index =
     (if krHighestMatchedIncoming kr < index then kr\<lparr>krHighestMatchedIncoming := index\<rparr> else kr)"

section \<open>Persistence\<close>

record keyRepoState =
  ksSelfMintCounter :: int
  ksSelfScanIndex :: int
  ksIncomingIssueCounter :: int
  ksIncomingScanIndex :: int
  ksHighestMatchedSelf :: int
  ksHighestMatchedIncoming :: int

definition getState :: "keyRepo \<Rightarrow> keyRepoState" where
  "getState kr = \<lparr>ksSelfMintCounter = krSelfMintCounter kr, ksSelfScanIndex = krSelfScanIndex kr,
     ksIncomingIssueCounter = krIncomingIssueCounter kr, ksIncomingScanIndex = krIncomingScanIndex kr,
     ksHighestMatchedSelf = krHighestMatchedSelf kr, ksHighestMatchedIncoming = krHighestMatchedIncoming kr\<rparr>"

definition restore :: "libs \<Rightarrow> account \<Rightarrow> 's counterOps \<Rightarrow> keyRepo \<Rightarrow> 's \<Rightarrow> keyRepoState \<Rightarrow> unit result \<times> keyRepo \<times> 's" where
  "restore L ac co kr s st =
     (let selfHighWater = clampIndex (coHigh co s SELF_EPH_SCOPE) 0;
          mint = max (max (krSelfMintCounter kr) (clampIndex (ksSelfMintCounter st) 0)) selfHighWater;
          kr1 = kr\<lparr>krSelfMintCounter := mint\<rparr>;
          (r, s') = (if selfHighWater < mint then coReserve co s SELF_EPH_SCOPE (mint - selfHighWater)
                     else (Inr \<lparr>resBase = 0, resSpan = 0\<rparr>, s))
      in case r of Inl e \<Rightarrow> (Inl e, kr1, s')
         | Inr _ \<Rightarrow>
           let kr2 = kr1\<lparr>krIncomingIssueCounter := max (krIncomingIssueCounter kr1) (clampIndex (ksIncomingIssueCounter st) 0),
                 krHighestMatchedSelf := max (krHighestMatchedSelf kr1) (clampIndex (ksHighestMatchedSelf st) (- 1)),
                 krHighestMatchedIncoming := max (krHighestMatchedIncoming kr1) (clampIndex (ksHighestMatchedIncoming st) (- 1))\<rparr>;
               selfTarget = max (clampIndex (ksSelfScanIndex st) 0) (clampIndex (mint + DEFAULT_LOOKAHEAD_WINDOW) 0)
           in case registerSelfTo L ac selfTarget kr2 of (Inl e, kr3) \<Rightarrow> (Inl e, kr3, s')
              | (Inr _, kr3) \<Rightarrow>
                let incomingTarget = max (clampIndex (ksIncomingScanIndex st) 0) (krIncomingIssueCounter kr3) in
                case registerIncomingTo L ac incomingTarget kr3 of (Inl e, kr4) \<Rightarrow> (Inl e, kr4, s')
                | (Inr _, kr4) \<Rightarrow>
                  (case ensureSelfLookahead L ac kr4 DEFAULT_LOOKAHEAD_WINDOW of (Inl e, kr5) \<Rightarrow> (Inl e, kr5, s')
                   | (Inr _, kr5) \<Rightarrow>
                     (case ensureIncomingLookahead L ac kr5 DEFAULT_LOOKAHEAD_WINDOW of
                        (Inl e, kr6) \<Rightarrow> (Inl e, kr6, s') | (Inr _, kr6) \<Rightarrow> (Inr (), kr6, s'))))"

section \<open>Minting takes a fresh index\<close>

context counter_store
begin

lemma nextSelf_fresh:
  assumes "nextSelfLoop L ac \<lparr>coReserve = reserve, coHigh = high\<rparr> n kr s = (x, kr', s')"
  shows "high s sc \<le> high s' sc \<and> (\<forall>e. x = Inr e \<longrightarrow> high s SELF_EPH_SCOPE \<le> seIndex e
    \<and> seIndex e < high s' SELF_EPH_SCOPE \<and> acSelfEphemeral ac (seIndex e) = Inr (seEph e)
    \<and> seEphPub e = publicKey L (seEph e) \<and> isEvenY (seEphPub e)
    \<and> krSelfMap kr' (seTag e) = Some (seEph e, seIndex e))"
  using assms
proof (induction n arbitrary: kr s)
  case 0
  then show ?case by auto
next
  case (Suc n)
  obtain y s1 where y: "reserve s SELF_EPH_SCOPE 1 = (y, s1)" by (cases "reserve s SELF_EPH_SCOPE 1")
  have mono: "high s sc \<le> high s1 sc" for sc by (rule reserve_mono [OF y])
  show ?case
  proof (cases y)
    case (Inl e)
    then show ?thesis using Suc.prems y mono by auto
  next
    case (Inr res)
    then have res: "resBase res = high s SELF_EPH_SCOPE" "high s1 SELF_EPH_SCOPE = resBase res + 1"
      using reserve_ok [of s SELF_EPH_SCOPE 1 res s1] y by simp_all
    show ?thesis
    proof (cases "acSelfEphemeral ac (resBase res)")
      case (Inl e)
      then show ?thesis using Suc.prems y Inr mono by auto
    next
      case (Inr eph)
      note eph = this
      show ?thesis
      proof (cases "isEvenY (publicKey L eph)")
        case False
        then have "nextSelfLoop L ac \<lparr>coReserve = reserve, coHigh = high\<rparr> n kr s1 = (x, kr', s')"
          using Suc.prems y \<open>y = Inr res\<close> eph by (simp add: Let_def)
        from Suc.IH [OF this] show ?thesis using mono [of sc] mono [of SELF_EPH_SCOPE] by force
      next
        case True
        then show ?thesis
          using Suc.prems y \<open>y = Inr res\<close> eph res mono [of sc]
          by (auto simp: Let_def split: sum.splits)
      qed
    qed
  qed
qed

end

text \<open>Repeated minting: the ephemerals that were handed out, oldest first.\<close>

fun runSelf :: "libs \<Rightarrow> account \<Rightarrow> 's counterOps \<Rightarrow> nat \<Rightarrow> keyRepo \<Rightarrow> 's \<Rightarrow> selfEphemeral list" where
  "runSelf L ac co 0 kr s = []"
| "runSelf L ac co (Suc n) kr s =
     (case nextSelfEphemeral L ac co kr s of
        (Inl e, kr', s') \<Rightarrow> runSelf L ac co n kr' s'
      | (Inr se, kr', s') \<Rightarrow> se # runSelf L ac co n kr' s')"

context counter_store
begin

lemma runSelf_increasing:
  "sorted_wrt (<) (map seIndex (runSelf L ac \<lparr>coReserve = reserve, coHigh = high\<rparr> n kr s))
    \<and> (\<forall>e\<in>set (runSelf L ac \<lparr>coReserve = reserve, coHigh = high\<rparr> n kr s). high s SELF_EPH_SCOPE \<le> seIndex e)"
proof (induction n arbitrary: kr s)
  case (Suc n)
  obtain x kr1 s1 where x: "nextSelfEphemeral L ac \<lparr>coReserve = reserve, coHigh = high\<rparr> kr s = (x, kr1, s1)"
    by (cases "nextSelfEphemeral L ac \<lparr>coReserve = reserve, coHigh = high\<rparr> kr s")
  have f: "high s SELF_EPH_SCOPE \<le> high s1 SELF_EPH_SCOPE \<and> (\<forall>e. x = Inr e \<longrightarrow> high s SELF_EPH_SCOPE \<le> seIndex e
      \<and> seIndex e < high s1 SELF_EPH_SCOPE)"
    using nextSelf_fresh [OF x [unfolded nextSelfEphemeral_def], of SELF_EPH_SCOPE] by blast
  show ?case
  proof (cases x)
    case (Inl e)
    then show ?thesis using x f Suc.IH [of kr1 s1] by force
  next
    case (Inr se)
    then show ?thesis using x f Suc.IH [of kr1 s1] by force
  qed
qed simp

end

section \<open>The registry covers what it has scanned\<close>

text \<open>Every even-y self ephemeral below the scan index is in the map.\<close>

definition selfCovered :: "libs \<Rightarrow> account \<Rightarrow> keyRepo \<Rightarrow> bool" where
  "selfCovered L ac kr \<longleftrightarrow> (\<forall>i eph. 0 \<le> i \<longrightarrow> i < krSelfScanIndex kr \<longrightarrow> acSelfEphemeral ac i = Inr eph \<longrightarrow>
     isEvenY (publicKey L eph) \<longrightarrow> krSelfMap kr (fst (publicKey L eph)) \<noteq> None)"

lemma registerSelf_covers:
  assumes L: "fr_laws L" and c: "selfCovered L ac kr" and i: "i = krSelfScanIndex kr"
    and r: "registerSelf L ac (kr\<lparr>krSelfScanIndex := i + 1\<rparr>) i = (Inr (), kr')"
  shows "selfCovered L ac kr' \<and> krSelfScanIndex kr' = i + 1 \<and> krHighestMatchedSelf kr' = krHighestMatchedSelf kr"
proof -
  have key: "tagKey L x = Inr k \<longleftrightarrow> isFr x \<and> k = x" for x k
    unfolding tagKey_def by (rule fr_laws_new_iff [OF L])
  have scan: "krSelfScanIndex kr' = i + 1" using registerSelf_scan [OF r] by simp
  obtain e where e: "acSelfEphemeral ac i = Inr e" using r by (cases "acSelfEphemeral ac i") (auto simp: registerSelf_def)
  have "krHighestMatchedSelf kr' = krHighestMatchedSelf kr
      \<and> (\<forall>k. krSelfMap kr k \<noteq> None \<longrightarrow> krSelfMap kr' k \<noteq> None)
      \<and> (isEvenY (publicKey L e) \<longrightarrow> krSelfMap kr' (fst (publicKey L e)) \<noteq> None)"
  proof (cases "isEvenY (publicKey L e)")
    case False
    then have "kr' = kr\<lparr>krSelfScanIndex := i + 1\<rparr>" using r e by (simp add: registerSelf_def Let_def)
    with False show ?thesis by simp
  next
    case True
    let ?k = "fst (publicKey L e)"
    have "tagKey L ?k = Inr ?k"
      using r e True key by (cases "tagKey L ?k") (auto simp: registerSelf_def Let_def)
    then have "kr' = (if krSelfMap kr ?k = None
        then kr\<lparr>krSelfScanIndex := i + 1, krSelfMap := (krSelfMap kr)(?k \<mapsto> (e, i))\<rparr> else kr\<lparr>krSelfScanIndex := i + 1\<rparr>)"
      using r e True by (cases "krSelfMap kr ?k") (simp_all add: registerSelf_def Let_def)
    then show ?thesis by (cases "krSelfMap kr ?k") simp_all
  qed
  then have hm: "krHighestMatchedSelf kr' = krHighestMatchedSelf kr"
    and keep: "\<And>k. krSelfMap kr k \<noteq> None \<Longrightarrow> krSelfMap kr' k \<noteq> None"
    and new: "\<And>eph. acSelfEphemeral ac i = Inr eph \<Longrightarrow> isEvenY (publicKey L eph) \<Longrightarrow> krSelfMap kr' (fst (publicKey L eph)) \<noteq> None"
    using e by auto
  have "selfCovered L ac kr'"
    unfolding selfCovered_def
  proof (intro allI impI)
    fix j eph
    assume j: "0 \<le> j" "j < krSelfScanIndex kr'" and e: "acSelfEphemeral ac j = Inr eph" "isEvenY (publicKey L eph)"
    show "krSelfMap kr' (fst (publicKey L eph)) \<noteq> None"
    proof (cases "j = i")
      case True
      then show ?thesis using new e by simp
    next
      case False
      then have "j < krSelfScanIndex kr" using j(2) scan i by simp
      then show ?thesis using keep c j(1) e unfolding selfCovered_def by blast
    qed
  qed
  then show ?thesis using scan hm by simp
qed

lemma registerSelfTo_covers:
  assumes "fr_laws L" "selfCovered L ac kr" "registerSelfTo L ac target kr = (Inr u, kr')"
  shows "selfCovered L ac kr' \<and> krSelfScanIndex kr' = max (krSelfScanIndex kr) target
    \<and> krHighestMatchedSelf kr' = krHighestMatchedSelf kr"
  using assms
proof (induction L ac target kr rule: registerSelfTo.induct)
  case (1 L ac target kr)
  show ?case
  proof (cases "krSelfScanIndex kr < target")
    case False
    then show ?thesis using "1.prems" by (auto simp: registerSelfTo.simps [of L ac target kr])
  next
    case True
    let ?i = "krSelfScanIndex kr"
    obtain v kr1 where r: "registerSelf L ac (kr\<lparr>krSelfScanIndex := ?i + 1\<rparr>) ?i = (Inr v, kr1)"
      and rest: "registerSelfTo L ac target kr1 = (Inr u, kr')"
      using "1.prems"(3) True by (auto simp: registerSelfTo.simps [of L ac target kr] Let_def split: prod.splits sum.splits)
    have c: "selfCovered L ac kr1 \<and> krSelfScanIndex kr1 = ?i + 1 \<and> krHighestMatchedSelf kr1 = krHighestMatchedSelf kr"
      using registerSelf_covers [OF "1.prems"(1,2) refl] r by simp
    then have "selfCovered L ac kr' \<and> krSelfScanIndex kr' = max (krSelfScanIndex kr1) target
        \<and> krHighestMatchedSelf kr' = krHighestMatchedSelf kr1"
      using "1.IH" [OF True refl r [symmetric] refl "1.prems"(1)] rest by blast
    then show ?thesis using c True by simp
  qed
qed

section \<open>Properties\<close>

text \<open>minting never reuses an index.  Over any number of \<open>nextSelfEphemeral\<close> calls on a repository
  backed by a persistent counter, failing calls and skipped odd-y indices included, the indices of the
  ephemerals handed out are strictly increasing (so no content key is derived twice).\<close>

theorem self_ephemerals_increasing:
  assumes "persistence_laws P"
  shows "sorted_wrt (<) (map seIndex (runSelf L ac \<lparr>coReserve = persistentReserve P, coHigh = persistentHigh P\<rparr> n kr d))"
  using persistent.runSelf_increasing [of L ac P n kr d] assms by simp

theorem self_ephemerals_increasing_witness:
  "sorted_wrt (<) (map seIndex (runSelf toyLibs \<lparr>acSelfEphemeral = (\<lambda>i. Inr (i + 1)), acIncomingKey = Inr,
      acSelfSpendKey = Inr 2, acSelfSpendPub = Inr (2, 2)\<rparr>
    \<lparr>coReserve = persistentReserve mapPersistence, coHigh = persistentHigh mapPersistence\<rparr> 3 newKeyRepo Map.empty))"
  by (rule self_ephemerals_increasing [OF mapPersistence_laws])

text \<open>the lookahead window.  On a registry whose map covers all indices below its scan index,
  \<open>ensureSelfLookahead\<close>, when it returns, leaves a registry that covers all indices up to at least the
  window past the highest matched index, and its answer says whether the scan index moved.\<close>

theorem self_lookahead_covers:
  assumes "fr_laws L" "selfCovered L ac kr" "ensureSelfLookahead L ac kr window = (Inr advanced, kr')"
  shows "selfCovered L ac kr' \<and> krHighestMatchedSelf kr' + 1 + window \<le> krSelfScanIndex kr'
    \<and> krSelfScanIndex kr \<le> krSelfScanIndex kr' \<and> (advanced \<longleftrightarrow> krSelfScanIndex kr' \<noteq> krSelfScanIndex kr)"
proof -
  let ?t = "max (krSelfScanIndex kr) (krHighestMatchedSelf kr + 1 + window)"
  obtain u where u: "registerSelfTo L ac ?t kr = (Inr u, kr')" and a: "advanced = (krSelfScanIndex kr < ?t)"
    using assms(3) by (cases "registerSelfTo L ac ?t kr"; cases "fst (registerSelfTo L ac ?t kr)")
      (simp_all add: ensureSelfLookahead_def Let_def)
  from registerSelfTo_covers [OF assms(1,2) u] have c: "selfCovered L ac kr'" "krSelfScanIndex kr' = ?t"
    "krHighestMatchedSelf kr' = krHighestMatchedSelf kr" by simp_all
  have "(x < max x y) = (max x y \<noteq> x)" "y \<le> max x y" "x \<le> max x y" for x y :: int by linarith+
  then show ?thesis unfolding a c(2,3) using c(1) by blast
qed

definition toyAccount :: account where
  "toyAccount = \<lparr>acSelfEphemeral = (\<lambda>i. Inr (i + 1)), acIncomingKey = Inr, acSelfSpendKey = Inr 2, acSelfSpendPub = Inr (2, 2)\<rparr>"

theorem self_lookahead_covers_witness:
  "\<exists>kr'. ensureSelfLookahead toyLibs toyAccount newKeyRepo 2 = (Inr True, kr') \<and> selfCovered toyLibs toyAccount kr'"
proof -
  have "fst (ensureSelfLookahead toyLibs toyAccount newKeyRepo 2) = Inr True" by code_simp
  then obtain kr' where e: "ensureSelfLookahead toyLibs toyAccount newKeyRepo 2 = (Inr True, kr')"
    by (cases "ensureSelfLookahead toyLibs toyAccount newKeyRepo 2") auto
  have "selfCovered toyLibs toyAccount newKeyRepo" by (simp add: selfCovered_def newKeyRepo_def)
  from self_lookahead_covers [OF toyLibs_fr_laws this e] e show ?thesis by blast
qed

definition skippedTag :: "(int \<times> int) option result" where
  "skippedTag =
     (let co = \<lparr>coReserve = imReserve, coHigh = imHigh\<rparr>;
          (se, kr, s) = nextSelfEphemeral toyLibs toyAccount co newKeyRepo (newInMemoryStore [''self'' \<mapsto> 1]);
          (b, kr') = ensureSelfLookahead toyLibs toyAccount kr 3
      in fst (matchSelfTag toyLibs kr' (fst (publicKey toyLibs 1))))"

text \<open>minting before restoring.  A fresh registry over a counter that already issued index 0 mints
  index 1 and moves its scan index past index 0 without registering it; after any lookahead the tag of
  the ephemeral at index 0 (which has an even y) is still not recognised.\<close>

theorem mint_before_restore_skips: "skippedTag = Inr None \<and> isEvenY (publicKey toyLibs 1)"
  by code_simp

end
