(* ===== verification/ComplianceRing.thy ===== *)
theory ComplianceRing
  imports Libs "HOL-Library.Multiset"
begin

text \<open>
  \<open>note/complianceKeys.ts\<close>: the ordered ring of compliance key versions a scanner tries, and the
  validated complete history.  The lemmas show that a ring is sorted with unique versions, that every
  scan order is a permutation of the ring led by the epoch covering the block, and that a complete
  history has exactly the versions 1 to the current one.
\<close>

section \<open>Definitions\<close>

definition COMPLIANCE_INITIAL_VERSION :: int where
  "COMPLIANCE_INITIAL_VERSION = 1"

record complianceKeyEpoch =
  epVersion :: int
  epPk :: point
  epFromBlock :: "int option"

record complianceKeyRotation =
  rotOldVersion :: int
  rotNewVersion :: int
  rotNewX :: int
  rotNewY :: int
  rotBlockNumber :: "int option"

type_synonym ring = "complianceKeyEpoch list"

text \<open>The duplicate check and the constructor.\<close>

definition uniqueVersions :: "complianceKeyEpoch list \<Rightarrow> int set result" where
  "uniqueVersions epochs =
     foldR (\<lambda>seen e. if epVersion e \<in> seen then Inl (ComplianceKeyError ''DUPLICATE_VERSION'')
       else Inr (insert (epVersion e) seen)) {} epochs"

definition newRing :: "complianceKeyEpoch list \<Rightarrow> ring result" where
  "newRing epochs =
     (if epochs = [] then Inl (ComplianceKeyError ''EMPTY_RING'')
      else bindR (uniqueVersions epochs) (\<lambda>_. Inr (sort_key epVersion epochs)))"

definition ringOf :: "point \<Rightarrow> int option \<Rightarrow> ring result" where
  "ringOf pk fromBlock =
     newRing [\<lparr>epVersion = COMPLIANCE_INITIAL_VERSION, epPk = pk, epFromBlock = fromBlock\<rparr>]"

definition ringFrom :: "complianceKeyEpoch list \<Rightarrow> ring result" where
  "ringFrom epochs = newRing epochs"

definition rotationEpoch :: "complianceKeyRotation \<Rightarrow> complianceKeyEpoch" where
  "rotationEpoch r = \<lparr>epVersion = rotNewVersion r, epPk = (rotNewX r, rotNewY r), epFromBlock = rotBlockNumber r\<rparr>"

definition fromRotations :: "point \<Rightarrow> complianceKeyRotation list \<Rightarrow> int option \<Rightarrow> ring result" where
  "fromRotations genesis rotations genesisBlock =
     bindR (foldR (\<lambda>(epochs, expectedOld) r.
         if rotOldVersion r \<noteq> expectedOld \<or> rotNewVersion r \<noteq> expectedOld + 1
         then Inl (ComplianceKeyError ''INVALID_VERSION_SEQUENCE'')
         else Inr (epochs @ [rotationEpoch r], rotNewVersion r))
       ([\<lparr>epVersion = COMPLIANCE_INITIAL_VERSION, epPk = genesis, epFromBlock = genesisBlock\<rparr>],
        COMPLIANCE_INITIAL_VERSION) rotations)
     (\<lambda>(epochs, _). newRing epochs)"

definition ringCurrent :: "ring \<Rightarrow> point" where
  "ringCurrent ordered = epPk (last ordered)"

definition ringCurrentVersion :: "ring \<Rightarrow> int" where
  "ringCurrentVersion ordered = epVersion (last ordered)"

definition candidatesFor :: "ring \<Rightarrow> int option \<Rightarrow> complianceKeyEpoch list" where
  "candidatesFor ordered blockNumber =
     (let newestFirst = rev ordered in
      case blockNumber of None \<Rightarrow> newestFirst
      | Some b \<Rightarrow>
        (case find (\<lambda>e. case epFromBlock e of None \<Rightarrow> False | Some f \<Rightarrow> f \<le> b) newestFirst of
           None \<Rightarrow> newestFirst
         | Some covering \<Rightarrow> covering # filter (\<lambda>e. e \<noteq> covering) newestFirst))"

section \<open>Complete histories\<close>

record completeHistory =
  chRing :: ring
  chCurrentPk :: point
  chCurrentVersion :: int

definition isSafeInteger :: "int \<Rightarrow> bool" where
  "isSafeInteger v \<longleftrightarrow> \<bar>v\<bar> \<le> 2 ^ 53 - 1"

definition samePoint :: "point \<Rightarrow> point \<Rightarrow> bool" where
  "samePoint left right \<longleftrightarrow> fst left = fst right \<and> snd left = snd right"

definition assertVersion :: "int \<Rightarrow> unit result" where
  "assertVersion value =
     (if \<not> isSafeInteger value \<or> value < COMPLIANCE_INITIAL_VERSION
      then Inl (ComplianceKeyError ''INVALID_VERSION_SEQUENCE'') else Inr ())"

text \<open>One iteration over the rotations, on \<open>(epochs, expectedOld, previousBlock)\<close>.\<close>

definition historyStep :: "complianceKeyEpoch list \<times> int \<times> int \<Rightarrow> complianceKeyRotation
    \<Rightarrow> (complianceKeyEpoch list \<times> int \<times> int) result" where
  "historyStep = (\<lambda>(epochs, expectedOld, previousBlock) r.
     bindR (assertVersion (rotOldVersion r)) (\<lambda>_.
     bindR (assertVersion (rotNewVersion r)) (\<lambda>_.
     if rotOldVersion r \<noteq> expectedOld \<or> rotNewVersion r \<noteq> expectedOld + 1
     then Inl (ComplianceKeyError ''INVALID_VERSION_SEQUENCE'')
     else bindR (case rotBlockNumber r of None \<Rightarrow> Inr previousBlock
       | Some b \<Rightarrow> if \<not> isSafeInteger b \<or> b < 0 \<or> b < previousBlock
           then Inl (ComplianceKeyError ''INVALID_VERSION_SEQUENCE'') else Inr b) (\<lambda>previousBlock'.
     Inr (epochs @ [rotationEpoch r], rotNewVersion r, previousBlock')))))"

definition completeComplianceHistory :: "point \<Rightarrow> complianceKeyRotation list \<Rightarrow> point \<Rightarrow> int \<Rightarrow> completeHistory result" where
  "completeComplianceHistory genesisPk rotations currentPk currentVersion =
     bindR (assertVersion currentVersion) (\<lambda>_.
     bindR (foldR historyStep
       ([\<lparr>epVersion = COMPLIANCE_INITIAL_VERSION, epPk = genesisPk, epFromBlock = None\<rparr>],
        COMPLIANCE_INITIAL_VERSION, - 1) rotations) (\<lambda>(epochs, expectedOld, previousBlock).
     if expectedOld \<noteq> currentVersion then Inl (ComplianceKeyError ''INCOMPLETE_HISTORY'')
     else if \<not> samePoint (epPk (last epochs)) currentPk then Inl (ComplianceKeyError ''CURRENT_KEY_MISMATCH'')
     else bindR (ringFrom epochs) (\<lambda>r.
       Inr \<lparr>chRing = r, chCurrentPk = currentPk, chCurrentVersion = currentVersion\<rparr>)))"

text \<open>Object identity: a history object and the registry of the objects the function above has built.\<close>

record historyObj =
  hoId :: nat
  hoHistory :: completeHistory

definition registerHistory :: "nat set \<Rightarrow> nat \<Rightarrow> completeHistory \<Rightarrow> historyObj \<times> nat set" where
  "registerHistory completeHistories freshId h = (\<lparr>hoId = freshId, hoHistory = h\<rparr>, insert freshId completeHistories)"

definition assertCompleteComplianceHistory :: "nat set \<Rightarrow> historyObj \<Rightarrow> unit result" where
  "assertCompleteComplianceHistory completeHistories h =
     (if hoId h \<notin> completeHistories then Inl (ComplianceKeyError ''INCOMPLETE_HISTORY'') else Inr ())"

section \<open>Rings are sorted and have unique versions\<close>

definition ringOk :: "ring \<Rightarrow> bool" where
  "ringOk ordered \<longleftrightarrow> ordered \<noteq> [] \<and> sorted (map epVersion ordered) \<and> distinct (map epVersion ordered)"

lemma uniqueVersions_iff:
  "(\<exists>s. uniqueVersions es = Inr s) \<longleftrightarrow> distinct (map epVersion es)"
proof -
  let ?f = "\<lambda>seen e. if epVersion e \<in> seen then Inl (ComplianceKeyError ''DUPLICATE_VERSION'')
       else Inr (insert (epVersion e) seen)"
  have "(\<exists>s. foldR ?f A es = Inr s) \<longleftrightarrow> distinct (map epVersion es) \<and> A \<inter> epVersion ` set es = {}" for A
  proof (induction es arbitrary: A)
    case (Cons e es)
    show ?case
    proof (cases "epVersion e \<in> A")
      case False
      then show ?thesis using Cons.IH [of "insert (epVersion e) A"] by auto
    qed simp
  qed simp
  from this [of "{}"] show ?thesis by (simp add: uniqueVersions_def)
qed

lemma newRing_iff:
  "newRing es = Inr r \<longleftrightarrow> es \<noteq> [] \<and> distinct (map epVersion es) \<and> r = sort_key epVersion es"
  using uniqueVersions_iff [of es] by (auto simp: newRing_def)

lemma distinct_sort_key: "distinct (map f (sort_key f xs)) \<longleftrightarrow> distinct (map f xs)"
  by (simp add: distinct_map)

lemma newRing_ok: "newRing es = Inr r \<Longrightarrow> ringOk r"
  by (auto simp: newRing_iff ringOk_def distinct_sort_key) (metis mset_sort mset.simps(1) mset_zero_iff)

section \<open>The scan order\<close>

lemma candidates_mset:
  assumes "distinct (map epVersion ring)"
  shows "mset (candidatesFor ring b) = mset ring"
proof -
  have "mset (c # filter (\<lambda>e. e \<noteq> c) (rev ring)) = mset ring" if "c \<in> set ring" for c
  proof -
    have "distinct ring" using assms by (simp add: distinct_map)
    then have "filter (\<lambda>e. e \<noteq> c) (rev ring) = remove1 c (rev ring)"
      by (simp add: distinct_remove1_removeAll removeAll_filter_not_eq eq_commute [of c])
    then show ?thesis using that by simp
  qed
  moreover have "c \<in> set ring" if "find P (rev ring) = Some c" for P c
    using that by (auto simp: find_Some_iff) (metis nth_mem length_rev set_rev)
  ultimately show ?thesis by (auto simp: candidatesFor_def Let_def split: option.splits)
qed

lemma candidates_covering:
  assumes "find (\<lambda>e. case epFromBlock e of None \<Rightarrow> False | Some f \<Rightarrow> f \<le> b) (rev ring) = Some e"
  shows "hd (candidatesFor ring (Some b)) = e"
  using assms by (simp add: candidatesFor_def)

section \<open>A complete history is gap-free\<close>

lemma historyStep_Inr:
  assumes "historyStep (es, v, pb) r = Inr (es', v', pb')"
  shows "es' = es @ [rotationEpoch r] \<and> v' = v + 1 \<and> epVersion (rotationEpoch r) = v + 1"
  using assms by (auto simp: historyStep_def rotationEpoch_def split: if_splits)

lemma history_loop:
  assumes "foldR historyStep (es, v, pb) rs = Inr (es', v', pb')"
  shows "es' = es @ map rotationEpoch rs \<and> v' = v + int (length rs)
    \<and> map epVersion (map rotationEpoch rs) = [v + 1..v + int (length rs)]"
  using assms
proof (induction rs arbitrary: es v pb)
  case (Cons r rs)
  from Cons.prems obtain st where st: "historyStep (es, v, pb) r = Inr st" "foldR historyStep st rs = Inr (es', v', pb')"
    by auto
  obtain es1 v1 pb1 where s: "st = (es1, v1, pb1)" by (cases st)
  have step: "es1 = es @ [rotationEpoch r]" "v1 = v + 1" "epVersion (rotationEpoch r) = v + 1"
    using historyStep_Inr [of es v pb r es1 v1 pb1] st(1) s by auto
  have "es' = es1 @ map rotationEpoch rs \<and> v' = v1 + int (length rs)
      \<and> map epVersion (map rotationEpoch rs) = [v1 + 1..v1 + int (length rs)]"
    using Cons.IH st(2) s by blast
  moreover have "[v + 1..v + int (length (r # rs))] = (v + 1) # [v1 + 1..v1 + int (length rs)]"
    by (subst upto_rec1) (simp_all add: step(2) algebra_simps)
  ultimately show ?case using step by simp
qed simp

lemma sorted_sort_key_id: "sorted (map f xs) \<Longrightarrow> sort_key f xs = xs"
  by (rule sort_key_id_if_sorted)

section \<open>Properties\<close>

text \<open>the scan order loses no key.  For every ring the constructor accepts and every block,
  \<open>candidatesFor\<close> is a permutation of the ring; the first candidate is the newest epoch known to have
  started at or before the block, or the newest epoch when none is.\<close>

theorem candidates_complete:
  assumes "newRing epochs = Inr ring"
  shows "mset (candidatesFor ring b) = mset epochs
    \<and> hd (candidatesFor ring b) = (case b of None \<Rightarrow> last ring
        | Some n \<Rightarrow> (case find (\<lambda>e. case epFromBlock e of None \<Rightarrow> False | Some f \<Rightarrow> f \<le> n) (rev ring) of
             None \<Rightarrow> last ring | Some e \<Rightarrow> e))"
proof -
  have ok: "ringOk ring" by (rule newRing_ok [OF assms])
  then have "mset (candidatesFor ring b) = mset ring" by (intro candidates_mset) (simp add: ringOk_def)
  moreover have "mset ring = mset epochs" using assms by (simp add: newRing_iff)
  ultimately show ?thesis
    using ok by (simp add: candidatesFor_def Let_def ringOk_def hd_rev split: option.splits)
qed

theorem candidates_complete_witness:
  "\<exists>ring. newRing [\<lparr>epVersion = 2, epPk = (1, 2), epFromBlock = Some 50\<rparr>, \<lparr>epVersion = 1, epPk = (3, 2), epFromBlock = None\<rparr>] = Inr ring
    \<and> mset (candidatesFor ring (Some 60)) = mset [\<lparr>epVersion = 2, epPk = (1, 2), epFromBlock = Some 50\<rparr>, \<lparr>epVersion = 1, epPk = (3, 2), epFromBlock = None\<rparr>]"
proof -
  let ?es = "[\<lparr>epVersion = 2, epPk = (1, 2), epFromBlock = Some 50\<rparr>, \<lparr>epVersion = 1, epPk = (3, 2), epFromBlock = None\<rparr>]"
  have r: "newRing ?es = Inr (sort_key epVersion ?es)" by (simp add: newRing_iff)
  from candidates_complete [OF r, of "Some 60"] r show ?thesis by blast
qed

text \<open>a complete history.  When \<open>completeComplianceHistory\<close> returns, the ring holds the genesis
  key as version 1 followed by the rotations in order, its versions are exactly 1 up to the current
  version with no gap, and its current key is the configured one.\<close>

theorem complete_history_gap_free:
  assumes "completeComplianceHistory genesisPk rotations currentPk currentVersion = Inr h"
  shows "map epVersion (chRing h) = [1..currentVersion] \<and> ringCurrent (chRing h) = currentPk
    \<and> ringCurrentVersion (chRing h) = currentVersion \<and> epPk (hd (chRing h)) = genesisPk
    \<and> tl (chRing h) = map rotationEpoch rotations"
proof -
  let ?g = "\<lparr>epVersion = COMPLIANCE_INITIAL_VERSION, epPk = genesisPk, epFromBlock = None\<rparr>"
  obtain es v pb where loop: "foldR historyStep ([?g], COMPLIANCE_INITIAL_VERSION, - 1) rotations = Inr (es, v, pb)"
    and v: "v = currentVersion" and same: "samePoint (epPk (last es)) currentPk" and ring: "newRing es = Inr (chRing h)"
    using assms by (auto simp: completeComplianceHistory_def ringFrom_def split: if_splits)
  have es: "es = ?g # map rotationEpoch rotations" "v = 1 + int (length rotations)"
    "map epVersion (map rotationEpoch rotations) = [2..v]"
    using history_loop [OF loop] by (simp_all add: COMPLIANCE_INITIAL_VERSION_def)
  have vs: "map epVersion es = [1..v]"
    using es by (simp add: COMPLIANCE_INITIAL_VERSION_def upto_rec1)
  then have "chRing h = es" using ring by (simp add: newRing_iff sorted_sort_key_id)
  moreover have "epVersion (last es) = v"
    using vs es(1) by (metis last_map list.distinct(1) upto_rec2 snoc_eq_iff_butlast es(2) last_snoc le_add_same_cancel1 of_nat_0_le_iff)
  ultimately show ?thesis
    using vs v es same by (auto simp: ringCurrent_def ringCurrentVersion_def samePoint_def prod_eq_iff)
qed

theorem complete_history_gap_free_witness:
  "\<exists>h. completeComplianceHistory (1, 2) [\<lparr>rotOldVersion = 1, rotNewVersion = 2, rotNewX = 5, rotNewY = 6, rotBlockNumber = Some 9\<rparr>] (5, 6) 2 = Inr h
    \<and> map epVersion (chRing h) = [1..2]"
proof -
  have ok: "isOk (completeComplianceHistory (1, 2) [\<lparr>rotOldVersion = 1, rotNewVersion = 2, rotNewX = 5, rotNewY = 6, rotBlockNumber = Some 9\<rparr>] (5, 6) 2)"
    by code_simp
  then obtain h where h: "completeComplianceHistory (1, 2) [\<lparr>rotOldVersion = 1, rotNewVersion = 2, rotNewX = 5, rotNewY = 6, rotBlockNumber = Some 9\<rparr>] (5, 6) 2 = Inr h"
    by (metis isOk.simps(1) sum.exhaust)
  from complete_history_gap_free [OF h] h show ?thesis by blast
qed

end
