(* ===== verification/Merkle.thy ===== *)
theory Merkle
  imports Crypto
begin

text \<open>
  \<open>merkle/LeanIMT.ts\<close>, \<open>merkle/genesis.ts\<close> and \<open>tx/witnessSources.ts\<close> of the SDK and
  \<open>tree/leanImt.ts\<close> of the indexer: the incremental Merkle tree with zero-sibling passthrough, twice
  implemented, its sibling paths, and the witness sources that fold a path back to a root.  The
  reference is \<open>node\<close>, the tree as a function of the list of its leaves; both implementations refine it.
\<close>

section \<open>The SDK's tree\<close>

record leanIMT =
  imtDepth :: nat
  imtLevels :: "int list list"
  imtNext :: nat
  imtRoot :: int

definition newLeanIMT :: "nat \<Rightarrow> leanIMT result" where
  "newLeanIMT depth =
     (if depth < 1 \<or> 32 < depth then Inl (Error ''Invalid depth'')
      else Inr \<lparr>imtDepth = depth, imtLevels = replicate depth [], imtNext = 0, imtRoot = 0\<rparr>)"

definition siblingIndex :: "nat \<Rightarrow> nat" where
  "siblingIndex i = (if i mod 2 = 0 then i + 1 else i - 1)"

text \<open>\<open>siblingIndex < currentLevel.length ? currentLevel[siblingIndex] : zeroValue\<close>.\<close>

definition nodeOrZero :: "int list \<Rightarrow> nat \<Rightarrow> int" where
  "nodeOrZero xs i = (if i < length xs then xs ! i else 0)"

definition combineNodes :: "libs \<Rightarrow> nat \<Rightarrow> int \<Rightarrow> int \<Rightarrow> int result" where
  "combineNodes L level left right =
     (if left = 0 \<and> right = 0 then Inr 0
      else if right = 0 then Inr left
      else if left = 0 then Inr right
      else bindR (newFr L (int level)) (\<lambda>lv. poseidonV1Hash3 L left right lv))"

text \<open>\<open>if (parentIndex >= nextLevel.length) push else assign\<close>.\<close>

definition putNode :: "int list \<Rightarrow> nat \<Rightarrow> int \<Rightarrow> int list" where
  "putNode xs i v = (if length xs \<le> i then xs @ [v] else xs[i := v])"

fun insertLoop :: "libs \<Rightarrow> nat \<Rightarrow> nat list \<Rightarrow> int list list \<Rightarrow> int \<Rightarrow> nat \<Rightarrow> int result \<times> int list list" where
  "insertLoop L depth [] levels current index = (Inr current, levels)"
| "insertLoop L depth (level # rest) levels current index =
     (let siblingNode = nodeOrZero (levels ! level) (siblingIndex index);
          left = (if index mod 2 = 0 then current else siblingNode);
          right = (if index mod 2 = 0 then siblingNode else current) in
      case combineNodes L level left right of Inl e \<Rightarrow> (Inl e, levels)
      | Inr computed \<Rightarrow>
        let parentIndex = index div 2;
            levels' = (if level < depth - 1
              then levels[level + 1 := putNode (levels ! (level + 1)) parentIndex computed] else levels)
        in insertLoop L depth rest levels' computed parentIndex)"

definition imtInsert :: "libs \<Rightarrow> leanIMT \<Rightarrow> int \<Rightarrow> int result \<times> leanIMT" where
  "imtInsert L t leaf =
     (if leaf = 0 then (Inl (Error ''leaf must be non-zero''), t)
      else if 2 ^ imtDepth t \<le> imtNext t then (Inl (Error ''Tree is full''), t)
      else let leafIndex = imtNext t;
               levels = (imtLevels t)[0 := (imtLevels t ! 0) @ [leaf]];
               t1 = t\<lparr>imtLevels := levels, imtNext := leafIndex + 1\<rparr> in
        case insertLoop L (imtDepth t) [0..<imtDepth t] levels leaf leafIndex of
          (Inl e, levels') \<Rightarrow> (Inl e, t1\<lparr>imtLevels := levels'\<rparr>)
        | (Inr root, levels') \<Rightarrow> (Inr root, t1\<lparr>imtLevels := levels', imtRoot := root\<rparr>))"

definition imtGetRoot :: "leanIMT \<Rightarrow> int" where
  "imtGetRoot t = imtRoot t"

fun pathLoop :: "int list list \<Rightarrow> nat list \<Rightarrow> nat \<Rightarrow> int list" where
  "pathLoop levels [] index = []"
| "pathLoop levels (level # rest) index =
     nodeOrZero (levels ! level) (siblingIndex index) # pathLoop levels rest (index div 2)"

definition getMerklePath :: "leanIMT \<Rightarrow> nat \<Rightarrow> int list result" where
  "getMerklePath t index =
     (if imtNext t \<le> index then Inl (Error ''Index out of bounds'')
      else Inr (pathLoop (imtLevels t) [0..<imtDepth t] index))"

definition TREE_DEPTH :: nat where "TREE_DEPTH = 32"

text \<open>The genesis leaf; Keccak-256 is the library function \<open>keccak\<close>.\<close>

definition keccak256Utf8 :: "(byte list \<Rightarrow> byte list) \<Rightarrow> string \<Rightarrow> int" where
  "keccak256Utf8 keccak text = bytesBE (keccak (utf8 text))"

definition genesisLeaf :: "libs \<Rightarrow> (byte list \<Rightarrow> byte list) \<Rightarrow> int \<Rightarrow> int result" where
  "genesisLeaf L keccak genesisHash =
     bindR (toReducedFr L (keccak256Utf8 keccak ''kakure.genesis'')) (\<lambda>d.
     bindR (toReducedFr L genesisHash) (\<lambda>g. Poseidon_hash L [d, g]))"

definition newSeededTree :: "libs \<Rightarrow> (byte list \<Rightarrow> byte list) \<Rightarrow> int \<Rightarrow> leanIMT result" where
  "newSeededTree L keccak genesisHash =
     bindR (newLeanIMT TREE_DEPTH) (\<lambda>tree.
     bindR (genesisLeaf L keccak genesisHash) (\<lambda>g.
     case imtInsert L tree g of (Inl e, t) \<Rightarrow> Inl e | (Inr r, t) \<Rightarrow> Inr t))"

section \<open>The indexer's tree\<close>

text \<open>Its levels are arrays of depth \<open>depth + 1\<close> assigned by index: an assignment past the end extends
  the array, and a hole reads as \<open>undefined ?? 0n\<close>.\<close>

definition arrSet :: "int list \<Rightarrow> nat \<Rightarrow> int \<Rightarrow> int list" where
  "arrSet xs i v = (if i < length xs then xs[i := v] else xs @ replicate (i - length xs) 0 @ [v])"

record indexTree =
  itDepth :: nat
  itLevels :: "int list list"
  itNext :: nat
  itRoot :: int

definition newIndexTree :: "nat \<Rightarrow> indexTree result" where
  "newIndexTree depth =
     (if depth < 1 \<or> 32 < depth then Inl (Error ''depth must be between 1 and 32'')
      else Inr \<lparr>itDepth = depth, itLevels = replicate (depth + 1) [], itNext = 0, itRoot = 0\<rparr>)"

definition hash3 :: "(int list \<Rightarrow> int) \<Rightarrow> int \<Rightarrow> int \<Rightarrow> int \<Rightarrow> int" where
  "hash3 poseidon3 left right level = poseidon3 [left, right, level]"

fun itLoop :: "(int list \<Rightarrow> int) \<Rightarrow> nat list \<Rightarrow> int list list \<Rightarrow> int \<Rightarrow> nat \<Rightarrow> int \<times> int list list" where
  "itLoop poseidon3 [] levels n index = (n, levels)"
| "itLoop poseidon3 (level # rest) levels n index =
     (let sibling = nodeOrZero (levels ! level) (siblingIndex index);
          left = (if index mod 2 = 0 then n else sibling);
          right = (if index mod 2 = 0 then sibling else n);
          parent = (if left = 0 \<and> right = 0 then 0
            else if right = 0 then left
            else if left = 0 then right
            else hash3 poseidon3 left right (int level));
          parentIndex = index div 2
      in itLoop poseidon3 rest (levels[level + 1 := arrSet (levels ! (level + 1)) parentIndex parent]) parent parentIndex)"

definition itInsert :: "(int list \<Rightarrow> int) \<Rightarrow> indexTree \<Rightarrow> int \<Rightarrow> int result \<times> indexTree" where
  "itInsert poseidon3 t leaf =
     (if leaf = 0 then (Inl (Error ''leaf must be non-zero''), t)
      else if 2 ^ itDepth t \<le> itNext t then (Inl (Error ''tree is full''), t)
      else let leafIndex = itNext t;
               levels = (itLevels t)[0 := arrSet (itLevels t ! 0) leafIndex leaf];
               (root, levels') = itLoop poseidon3 [0..<itDepth t] levels leaf leafIndex
        in (Inr root, t\<lparr>itLevels := levels', itNext := leafIndex + 1, itRoot := root\<rparr>))"

definition itGetRoot :: "indexTree \<Rightarrow> int" where
  "itGetRoot t = itRoot t"

definition itGetPath :: "indexTree \<Rightarrow> int \<Rightarrow> int list result" where
  "itGetPath t leafIndex =
     (if leafIndex < 0 \<or> int (itNext t) \<le> leafIndex then Inl (Error ''leaf index out of bounds'')
      else Inr (pathLoop (itLevels t) [0..<itDepth t] (nat leafIndex)))"

section \<open>Witness sources\<close>

fun foldLoop :: "libs \<Rightarrow> nat \<Rightarrow> nat \<Rightarrow> int \<Rightarrow> int list \<Rightarrow> int result" where
  "foldLoop L leafIndex i current [] = Inr current"
| "foldLoop L leafIndex i current (sibling # rest) =
     (let bit = (leafIndex div 2 ^ i) mod 2 in
      if sibling \<noteq> 0 then
        let left = (if bit = 1 then sibling else current);
            right = (if bit = 1 then current else sibling) in
        bindR (toFr L (int i)) (\<lambda>lv.
        bindR (poseidonV1Hash3 L left right lv) (\<lambda>c. foldLoop L leafIndex (i + 1) c rest))
      else if bit = 1 then Inl (WitnessSourceError ''MALFORMED_RESPONSE'')
      else foldLoop L leafIndex (i + 1) current rest)"

definition foldPath :: "libs \<Rightarrow> int \<Rightarrow> nat \<Rightarrow> int list \<Rightarrow> int result" where
  "foldPath L leaf leafIndex siblings = foldLoop L leafIndex 0 leaf siblings"

record merkleWitness =
  mwLeafIndex :: nat
  mwSiblings :: "int list"
  mwRoot :: int

fun findIndex :: "('a \<Rightarrow> bool) \<Rightarrow> 'a list \<Rightarrow> nat option" where
  "findIndex p [] = None"
| "findIndex p (x # xs) = (if p x then Some 0 else map_option Suc (findIndex p xs))"

definition localWitnessFor :: "leanIMT \<Rightarrow> int \<Rightarrow> merkleWitness result" where
  "localWitnessFor t leaf =
     (case findIndex (\<lambda>l. l = leaf) (imtLevels t ! 0) of
        None \<Rightarrow> Inl (WitnessSourceError ''LEAF_NOT_FOUND'')
      | Some leafIndex \<Rightarrow> bindR (getMerklePath t leafIndex) (\<lambda>siblings.
          Inr \<lparr>mwLeafIndex = leafIndex, mwSiblings = siblings, mwRoot = imtGetRoot t\<rparr>))"

text \<open>The answer of the transport before it is checked: the index is a number (the shape checks of
  \<open>Number.isInteger\<close> and \<open>Array.isArray\<close> are those of the types here), and a text field is a value
  \<open>Fr.fromString\<close> parses or refuses.\<close>

record rawWitness =
  rwLeafIndex :: int
  rwSiblings :: "string list"
  rwRoot :: string

definition indexerWitnessFor ::
    "libs \<Rightarrow> (string \<Rightarrow> int result) \<Rightarrow> (int \<Rightarrow> rawWitness result) \<Rightarrow> nat \<Rightarrow> int \<Rightarrow> merkleWitness result" where
  "indexerWitnessFor L FrFromString transport depth leaf =
     (case transport leaf of Inl e \<Rightarrow> Inl (WitnessSourceError ''TRANSPORT'')
      | Inr raw \<Rightarrow>
        if rwLeafIndex raw < 0 \<or> length (rwSiblings raw) \<noteq> depth
        then Inl (WitnessSourceError ''MALFORMED_RESPONSE'')
        else
        bindR (mapR FrFromString (rwSiblings raw)) (\<lambda>siblings.
        bindR (FrFromString (rwRoot raw)) (\<lambda>root.
        bindR (foldPath L leaf (nat (rwLeafIndex raw)) siblings) (\<lambda>recomputed.
        if recomputed \<noteq> root then Inl (WitnessSourceError ''ROOT_MISMATCH'')
        else Inr \<lparr>mwLeafIndex = nat (rwLeafIndex raw), mwSiblings = siblings, mwRoot = root\<rparr>))))"

section \<open>The reference tree\<close>

definition combRef :: "(int \<Rightarrow> int \<Rightarrow> int \<Rightarrow> int) \<Rightarrow> nat \<Rightarrow> int \<Rightarrow> int \<Rightarrow> int" where
  "combRef H level left right =
     (if left = 0 \<and> right = 0 then 0 else if right = 0 then left else if left = 0 then right
      else H left right (int level))"

fun node :: "(int \<Rightarrow> int \<Rightarrow> int \<Rightarrow> int) \<Rightarrow> int list \<Rightarrow> nat \<Rightarrow> nat \<Rightarrow> int" where
  "node H leaves 0 i = nodeOrZero leaves i"
| "node H leaves (Suc l) i = combRef H l (node H leaves l (2 * i)) (node H leaves l (2 * i + 1))"

text \<open>How many nodes of level \<open>l\<close> the implementations store for \<open>n\<close> leaves.\<close>

definition nodeCount :: "nat \<Rightarrow> nat \<Rightarrow> nat" where
  "nodeCount n l = (if n = 0 then 0 else (n - 1) div 2 ^ l + 1)"

definition levelOf :: "(int \<Rightarrow> int \<Rightarrow> int \<Rightarrow> int) \<Rightarrow> int list \<Rightarrow> nat \<Rightarrow> int list" where
  "levelOf H leaves l = map (node H leaves l) [0..<nodeCount (length leaves) l]"

definition treePath :: "(int \<Rightarrow> int \<Rightarrow> int \<Rightarrow> int) \<Rightarrow> int list \<Rightarrow> nat \<Rightarrow> nat \<Rightarrow> int list" where
  "treePath H leaves depth i = map (\<lambda>l. node H leaves l (siblingIndex (i div 2 ^ l))) [0..<depth]"

lemma div_step: "(n::nat) div 2 ^ l div 2 = n div 2 ^ Suc l"
  by (simp only: power_Suc2 div_mult2_eq)

lemma node_append: "i < length ls div 2 ^ l \<Longrightarrow> node H (ls @ [x]) l i = node H ls l i"
proof (induction l arbitrary: i)
  case 0
  then show ?case by (simp add: nodeOrZero_def nth_append)
next
  case (Suc l)
  have "i < length ls div 2 ^ l div 2" using Suc.prems by (simp only: div_step)
  then have "2 * i < length ls div 2 ^ l" "2 * i + 1 < length ls div 2 ^ l" by linarith+
  then show ?case using Suc.IH by simp
qed

lemma node_zero: "length ls \<le> i * 2 ^ l \<Longrightarrow> node H ls l i = 0"
proof (induction l arbitrary: i)
  case (Suc l)
  have "length ls \<le> (2 * i) * 2 ^ l" "length ls \<le> (2 * i + 1) * 2 ^ l" using Suc.prems by (simp_all add: algebra_simps)
  then show ?case using Suc.IH by (simp add: combRef_def)
qed (simp add: nodeOrZero_def)

lemma nodeOrZero_levelOf [simp]: "nodeOrZero (levelOf H ls l) i = node H ls l i"
proof (cases "i < nodeCount (length ls) l")
  case False
  have "length ls \<le> i * 2 ^ l"
  proof (cases "length ls = 0")
    case False
    then have "(length ls - 1) div 2 ^ l < i" using \<open>\<not> i < nodeCount (length ls) l\<close> by (simp add: nodeCount_def)
    then have "length ls - 1 < i * 2 ^ l" by (simp add: div_less_iff_less_mult)
    then show ?thesis using False by linarith
  qed simp
  then show ?thesis using False by (simp add: nodeOrZero_def levelOf_def node_zero)
qed (simp add: nodeOrZero_def levelOf_def)

lemma levelOf_0 [simp]: "levelOf H ls 0 = ls"
proof -
  have "nodeCount (length ls) 0 = length ls" by (cases ls) (simp_all add: nodeCount_def)
  then show ?thesis by (intro nth_equalityI) (simp_all add: levelOf_def nodeOrZero_def)
qed

text \<open>A node and its sibling determine the parent.\<close>

lemma combRef_parent:
  "combRef H l (if i mod 2 = 0 then node H ls l i else node H ls l (siblingIndex i))
     (if i mod 2 = 0 then node H ls l (siblingIndex i) else node H ls l i) = node H ls (Suc l) (i div 2)"
proof (cases "i mod 2 = 0")
  case True
  then have "2 * (i div 2) = i" by auto
  then show ?thesis using True by (simp add: siblingIndex_def)
next
  case False
  then have "2 * (i div 2) = i - 1" "2 * (i div 2) + 1 = i" by presburger+
  then show ?thesis using False by (simp add: siblingIndex_def)
qed

text \<open>Storing the recomputed node turns a level of the old tree into the level of the new one.\<close>

lemma levelOf_append:
  "levelOf H (ls @ [x]) l =
     map (node H ls l) [0..<length ls div 2 ^ l] @ [node H (ls @ [x]) l (length ls div 2 ^ l)]"
  by (simp add: levelOf_def nodeCount_def node_append)

lemma nodeCount_cases: "nodeCount n l = n div 2 ^ l \<or> nodeCount n l = n div 2 ^ l + 1"
proof (cases n)
  case (Suc m)
  then show ?thesis by (simp add: nodeCount_def div_Suc)
qed (simp add: nodeCount_def)

lemma levelOf_short:
  "levelOf H ls l = map (node H ls l) [0..<length ls div 2 ^ l]
   \<or> levelOf H ls l = map (node H ls l) [0..<length ls div 2 ^ l] @ [node H ls l (length ls div 2 ^ l)]"
  using nodeCount_cases [of "length ls" l] by (auto simp: levelOf_def)

lemma putNode_levelOf:
  "putNode (levelOf H ls l) (length ls div 2 ^ l) (node H (ls @ [x]) l (length ls div 2 ^ l)) = levelOf H (ls @ [x]) l"
  using levelOf_short [of H ls l] unfolding levelOf_append putNode_def by (auto simp: list_update_append)

lemma arrSet_levelOf:
  "arrSet (levelOf H ls l) (length ls div 2 ^ l) (node H (ls @ [x]) l (length ls div 2 ^ l)) = levelOf H (ls @ [x]) l"
  using levelOf_short [of H ls l] unfolding levelOf_append arrSet_def by (auto simp: list_update_append)

section \<open>Both insertions implement the reference\<close>

text \<open>The levels of an insertion that has rewritten the levels up to \<open>l\<close>.\<close>

definition midLevels :: "(int \<Rightarrow> int \<Rightarrow> int \<Rightarrow> int) \<Rightarrow> int list \<Rightarrow> int \<Rightarrow> nat \<Rightarrow> nat \<Rightarrow> int list list" where
  "midLevels H ls x d l = map (\<lambda>k. levelOf H (if k \<le> l then ls @ [x] else ls) k) [0..<d]"

lemma midLevels_nth: "k < d \<Longrightarrow> midLevels H ls x d l ! k = levelOf H (if k \<le> l then ls @ [x] else ls) k"
  by (simp add: midLevels_def)

lemma midLevels_update:
  assumes "Suc l < d" "v = levelOf H (ls @ [x]) (Suc l)"
  shows "(midLevels H ls x d l)[Suc l := v] = midLevels H ls x d (Suc l)"
  using assms by (intro nth_equalityI) (auto simp: midLevels_def nth_list_update le_Suc_eq)

lemma midLevels_start:
  "0 < d \<Longrightarrow> v = ls @ [x] \<Longrightarrow> (map (levelOf H ls) [0..<d])[0 := v] = midLevels H ls x d 0"
  by (intro nth_equalityI) (auto simp: midLevels_def nth_list_update)

lemma midLevels_end: "d \<le> Suc l \<Longrightarrow> midLevels H ls x d l = map (levelOf H (ls @ [x])) [0..<d]"
  by (simp add: midLevels_def)

definition nodeHash :: "libs \<Rightarrow> int \<Rightarrow> int \<Rightarrow> int \<Rightarrow> int" where
  "nodeHash L left right level = circomPoseidon L [left, right, level]"

lemma combineNodes_eq: "fr_laws L \<Longrightarrow> l < 32 \<Longrightarrow> combineNodes L l a b = Inr (combRef (nodeHash L) l a b)"
  by (simp add: combineNodes_def combRef_def nodeHash_def poseidonV1Hash3_def isFr_small)

lemma upt_step: "l < d \<Longrightarrow> [l..<d] = l # [Suc l..<d]"
  by (rule upt_conv_Cons)

lemma insertLoop_spec:
  assumes L: "fr_laws L" and d: "d \<le> 32" "l \<le> d"
  shows "insertLoop L d [l..<d] (midLevels (nodeHash L) ls x d l) (node (nodeHash L) (ls @ [x]) l (length ls div 2 ^ l)) (length ls div 2 ^ l)
    = (Inr (node (nodeHash L) (ls @ [x]) d (length ls div 2 ^ d)), map (levelOf (nodeHash L) (ls @ [x])) [0..<d])"
  using d(2)
proof (induction "d - l" arbitrary: l)
  case 0
  then show ?case by (simp add: midLevels_end)
next
  case (Suc k)
  let ?H = "nodeHash L" and ?i = "length ls div 2 ^ l"
  have l: "l < d" using Suc by simp
  have c: "combineNodes L l (if ?i mod 2 = 0 then node ?H (ls @ [x]) l ?i else node ?H (ls @ [x]) l (siblingIndex ?i))
      (if ?i mod 2 = 0 then node ?H (ls @ [x]) l (siblingIndex ?i) else node ?H (ls @ [x]) l ?i)
      = Inr (node ?H (ls @ [x]) (Suc l) (length ls div 2 ^ Suc l))"
    unfolding combRef_parent [of ?H, symmetric, unfolded div_step] div_step [symmetric]
    using L l d(1) by (simp only: combineNodes_eq combRef_parent)
  have u: "(if l < d - 1 then (midLevels ?H ls x d l)[l + 1 := putNode (midLevels ?H ls x d l ! (l + 1)) (length ls div 2 ^ Suc l)
        (node ?H (ls @ [x]) (Suc l) (length ls div 2 ^ Suc l))] else midLevels ?H ls x d l) = midLevels ?H ls x d (Suc l)"
  proof (cases "Suc l < d")
    case True
    then have "midLevels ?H ls x d l ! Suc l = levelOf ?H ls (Suc l)" by (simp add: midLevels_nth)
    moreover have "l < d - 1" using True by simp
    ultimately show ?thesis using True by (simp only: midLevels_update putNode_levelOf Suc_eq_plus1 [symmetric] if_True)
  next
    case False
    then show ?thesis using l by (simp add: midLevels_end)
  qed
  have "nodeOrZero (midLevels ?H ls x d l ! l) (siblingIndex ?i) = node ?H (ls @ [x]) l (siblingIndex ?i)"
    using l by (simp add: midLevels_nth)
  then show ?case
    using Suc(1) [of "Suc l"] Suc(2) l unfolding upt_step [OF l] insertLoop.simps Let_def
    by (simp only: c sum.case u div_step)
qed

lemma itLoop_spec:
  assumes "l \<le> d"
  shows "itLoop p3 [l..<d] (midLevels (hash3 p3) ls x (Suc d) l) (node (hash3 p3) (ls @ [x]) l (length ls div 2 ^ l)) (length ls div 2 ^ l)
    = (node (hash3 p3) (ls @ [x]) d (length ls div 2 ^ d), map (levelOf (hash3 p3) (ls @ [x])) [0..<Suc d])"
  using assms
proof (induction "d - l" arbitrary: l)
  case 0
  then show ?case by (simp add: midLevels_end)
next
  case (Suc k)
  let ?H = "hash3 p3" and ?i = "length ls div 2 ^ l"
  have l: "l < d" using Suc by simp
  note c = combRef_parent [of ?H l ?i "ls @ [x]", unfolded combRef_def div_step]
  have "midLevels ?H ls x (Suc d) l ! Suc l = levelOf ?H ls (Suc l)" using l by (simp add: midLevels_nth)
  then have u: "(midLevels ?H ls x (Suc d) l)[l + 1 := arrSet (midLevels ?H ls x (Suc d) l ! (l + 1)) (length ls div 2 ^ Suc l)
      (node ?H (ls @ [x]) (Suc l) (length ls div 2 ^ Suc l))] = midLevels ?H ls x (Suc d) (Suc l)"
    using l by (simp only: midLevels_update arrSet_levelOf Suc_eq_plus1 [symmetric] Suc_less_eq)
  have "nodeOrZero (midLevels ?H ls x (Suc d) l ! l) (siblingIndex ?i) = node ?H (ls @ [x]) l (siblingIndex ?i)"
    using l by (simp add: midLevels_nth)
  then show ?case
    using Suc(1) [of "Suc l"] Suc(2) l unfolding upt_step [OF l] itLoop.simps Let_def
    by (simp only: c u div_step)
qed

section \<open>The contract of a tree\<close>

text \<open>Inserting a list of leaves, stopping at the first refusal.\<close>

fun insertAll :: "('t \<Rightarrow> int \<Rightarrow> int result \<times> 't) \<Rightarrow> 't \<Rightarrow> int list \<Rightarrow> 't result" where
  "insertAll ins t [] = Inr t"
| "insertAll ins t (x # xs) = (case ins t x of (Inl e, t') \<Rightarrow> Inl e | (Inr r, t') \<Rightarrow> insertAll ins t' xs)"

locale merkle_tree =
  fixes ins :: "'t \<Rightarrow> int \<Rightarrow> int result \<times> 't"
    and root :: "'t \<Rightarrow> int"
    and path :: "'t \<Rightarrow> nat \<Rightarrow> int list result"
    and repr :: "int list \<Rightarrow> 't \<Rightarrow> bool"
    and H :: "int \<Rightarrow> int \<Rightarrow> int \<Rightarrow> int"
    and depth :: nat
  assumes insert_ok: "repr ls t \<Longrightarrow> x \<noteq> 0 \<Longrightarrow> length ls < 2 ^ depth \<Longrightarrow>
      \<exists>t'. ins t x = (Inr (node H (ls @ [x]) depth 0), t') \<and> repr (ls @ [x]) t'"
    and insert_refused: "repr ls t \<Longrightarrow> x = 0 \<or> 2 ^ depth \<le> length ls \<Longrightarrow> \<exists>e. ins t x = (Inl e, t)"
    and root_ok: "repr ls t \<Longrightarrow> root t = node H ls depth 0"
    and path_ok: "repr ls t \<Longrightarrow> i < length ls \<Longrightarrow> path t i = Inr (treePath H ls depth i)"
    and path_refused: "repr ls t \<Longrightarrow> length ls \<le> i \<Longrightarrow> \<exists>e. path t i = Inl e"
begin

lemma insertAll_ok:
  assumes "repr ls t" "0 \<notin> set xs" "length ls + length xs \<le> 2 ^ depth"
  shows "\<exists>t'. insertAll ins t xs = Inr t' \<and> repr (ls @ xs) t'"
  using assms
proof (induction xs arbitrary: ls t)
  case (Cons x xs)
  then obtain t1 where "ins t x = (Inr (node H (ls @ [x]) depth 0), t1)" "repr (ls @ [x]) t1"
    using insert_ok [of ls t x] by auto
  then show ?case using Cons.IH [of "ls @ [x]" t1] Cons.prems by simp
qed auto

text \<open>What a tree built from a fresh one answers.\<close>

lemma built_tree:
  assumes "repr [] t" "0 \<notin> set xs" "length xs \<le> 2 ^ depth"
  shows "\<exists>t'. insertAll ins t xs = Inr t' \<and> root t' = node H xs depth 0
    \<and> (\<forall>i < length xs. path t' i = Inr (treePath H xs depth i)) \<and> (\<forall>i \<ge> length xs. \<exists>e. path t' i = Inl e)"
proof -
  obtain t' where t': "insertAll ins t xs = Inr t'" "repr xs t'" using insertAll_ok [of "[]" t xs] assms by auto
  then show ?thesis using root_ok path_ok path_refused by blast
qed

end

lemma pathLoop_spec:
  assumes "l \<le> d" "\<And>k. k < d \<Longrightarrow> levels ! k = levelOf H ls k"
  shows "pathLoop levels [l..<d] (i div 2 ^ l) = map (\<lambda>l. node H ls l (siblingIndex (i div 2 ^ l))) [l..<d]"
  using assms(1)
proof (induction "d - l" arbitrary: l)
  case (Suc k)
  then have l: "l < d" by simp
  then have "levels ! l = levelOf H ls l" using assms(2) by blast
  then show ?case
    using Suc(1) [of "Suc l"] Suc(2) l unfolding upt_step [OF l] pathLoop.simps div_step by simp
qed simp

lemma pathLoop_treePath:
  assumes "\<And>k. k < d \<Longrightarrow> levels ! k = levelOf H ls k"
  shows "pathLoop levels [0..<d] i = treePath H ls d i"
  using pathLoop_spec [of 0 d levels H ls i] assms by (simp add: treePath_def)

text \<open>The representation invariants of the two implementations.\<close>

definition imtRepr :: "libs \<Rightarrow> nat \<Rightarrow> int list \<Rightarrow> leanIMT \<Rightarrow> bool" where
  "imtRepr L d ls t \<longleftrightarrow> fr_laws L \<and> 1 \<le> d \<and> d \<le> 32 \<and> imtDepth t = d \<and> imtNext t = length ls
    \<and> length ls \<le> 2 ^ d \<and> imtLevels t = map (levelOf (nodeHash L) ls) [0..<d] \<and> imtRoot t = node (nodeHash L) ls d 0"

definition itRepr :: "(int list \<Rightarrow> int) \<Rightarrow> nat \<Rightarrow> int list \<Rightarrow> indexTree \<Rightarrow> bool" where
  "itRepr p3 d ls t \<longleftrightarrow> 1 \<le> d \<and> itDepth t = d \<and> itNext t = length ls \<and> length ls \<le> 2 ^ d
    \<and> itLevels t = map (levelOf (hash3 p3) ls) [0..<Suc d] \<and> itRoot t = node (hash3 p3) ls d 0"

lemma imtInsert_ok:
  assumes r: "imtRepr L d ls t" and x: "x \<noteq> 0" and n: "length ls < 2 ^ d"
  shows "\<exists>t'. imtInsert L t x = (Inr (node (nodeHash L) (ls @ [x]) d 0), t') \<and> imtRepr L d (ls @ [x]) t'"
proof -
  have d: "0 < d" "d \<le> 32" "fr_laws L" using r by (simp_all add: imtRepr_def)
  then have lv: "imtLevels t ! 0 = ls" "(imtLevels t)[0 := (imtLevels t ! 0) @ [x]] = midLevels (nodeHash L) ls x d 0"
    using r midLevels_start [of d "ls @ [x]" ls x "nodeHash L"] by (simp_all add: imtRepr_def)
  have "node (nodeHash L) (ls @ [x]) 0 (length ls div 2 ^ 0) = x" by (simp add: nodeOrZero_def)
  then have "insertLoop L d [0..<d] (midLevels (nodeHash L) ls x d 0) x (length ls)
      = (Inr (node (nodeHash L) (ls @ [x]) d 0), map (levelOf (nodeHash L) (ls @ [x])) [0..<d])"
    using insertLoop_spec [OF d(3,2), of 0 ls x] n by simp
  then show ?thesis using r x n lv(2) by (simp add: imtInsert_def imtRepr_def Let_def)
qed

lemma itInsert_ok:
  assumes r: "itRepr p3 d ls t" and x: "x \<noteq> 0" and n: "length ls < 2 ^ d"
  shows "\<exists>t'. itInsert p3 t x = (Inr (node (hash3 p3) (ls @ [x]) d 0), t') \<and> itRepr p3 d (ls @ [x]) t'"
proof -
  have "itLevels t ! 0 = ls" using r by (simp add: itRepr_def del: upt_Suc)
  moreover have "arrSet ls (length ls) x = ls @ [x]" by (simp add: arrSet_def)
  ultimately have lv: "(itLevels t)[0 := arrSet (itLevels t ! 0) (length ls) x] = midLevels (hash3 p3) ls x (Suc d) 0"
    using r midLevels_start [of "Suc d" "ls @ [x]" ls x "hash3 p3"] by (simp add: itRepr_def del: upt_Suc)
  have "node (hash3 p3) (ls @ [x]) 0 (length ls div 2 ^ 0) = x" by (simp add: nodeOrZero_def)
  then have "itLoop p3 [0..<d] (midLevels (hash3 p3) ls x (Suc d) 0) x (length ls)
      = (node (hash3 p3) (ls @ [x]) d 0, map (levelOf (hash3 p3) (ls @ [x])) [0..<Suc d])"
    using itLoop_spec [of 0 d p3 ls x] n by (simp del: upt_Suc)
  then show ?thesis using r x n lv by (simp add: itInsert_def itRepr_def Let_def del: upt_Suc)
qed

interpretation sdkTree: merkle_tree "imtInsert L" imtGetRoot getMerklePath "imtRepr L d" "nodeHash L" d for L d
proof unfold_locales
  fix ls t x i
  assume r: "imtRepr L d ls t"
  show "imtGetRoot t = node (nodeHash L) ls d 0" using r by (simp add: imtGetRoot_def imtRepr_def)
  show "\<exists>e. imtInsert L t x = (Inl e, t)" if "x = 0 \<or> 2 ^ d \<le> length ls"
    using r that by (auto simp: imtInsert_def imtRepr_def)
  show "getMerklePath t i = Inr (treePath (nodeHash L) ls d i)" if "i < length ls"
    using r that by (simp add: getMerklePath_def imtRepr_def pathLoop_treePath)
  show "\<exists>e. getMerklePath t i = Inl e" if "length ls \<le> i"
    using r that by (simp add: getMerklePath_def imtRepr_def)
qed (rule imtInsert_ok)

interpretation indexerTree: merkle_tree "itInsert p3" itGetRoot "\<lambda>t i. itGetPath t (int i)" "itRepr p3 d" "hash3 p3" d for p3 d
proof unfold_locales
  fix ls t x i
  assume r: "itRepr p3 d ls t"
  show "itGetRoot t = node (hash3 p3) ls d 0" using r by (simp add: itGetRoot_def itRepr_def)
  show "\<exists>e. itInsert p3 t x = (Inl e, t)" if "x = 0 \<or> 2 ^ d \<le> length ls"
    using r that by (auto simp: itInsert_def itRepr_def)
  show "itGetPath t (int i) = Inr (treePath (hash3 p3) ls d i)" if "i < length ls"
    using r that by (simp add: itGetPath_def itRepr_def pathLoop_treePath del: upt_Suc)
  show "\<exists>e. itGetPath t (int i) = Inl e" if "length ls \<le> i"
    using r that by (simp add: itGetPath_def itRepr_def)
qed (rule itInsert_ok)

lemma node_empty: "node H [] l i = 0"
  by (rule node_zero) simp

lemma levels_empty: "map (levelOf H []) [0..<d] = replicate d []"
  by (intro nth_equalityI) (simp_all add: levelOf_def nodeCount_def)

lemma newLeanIMT_repr: "fr_laws L \<Longrightarrow> newLeanIMT d = Inr t \<Longrightarrow> imtRepr L d [] t"
  by (auto simp: newLeanIMT_def imtRepr_def node_empty levels_empty split: if_splits)

lemma newIndexTree_repr: "newIndexTree d = Inr t \<Longrightarrow> itRepr p3 d [] t"
  by (auto simp: newIndexTree_def itRepr_def node_empty levels_empty simp del: upt_Suc split: if_splits)

section \<open>Paths and roots\<close>

text \<open>No node with a leaf below it hashes to zero (the value that marks an absent sibling).\<close>

definition noZeroNode :: "(int \<Rightarrow> int \<Rightarrow> int \<Rightarrow> int) \<Rightarrow> int list \<Rightarrow> nat \<Rightarrow> bool" where
  "noZeroNode H ls d \<longleftrightarrow> (\<forall>l\<le>d. \<forall>i. i * 2 ^ l < length ls \<longrightarrow> node H ls l i \<noteq> 0)"

lemma noZeroNodeD: "noZeroNode H ls d \<Longrightarrow> l \<le> d \<Longrightarrow> i * 2 ^ l < length ls \<Longrightarrow> node H ls l i \<noteq> 0"
  unfolding noZeroNode_def by blast

lemma div_mult_le: "(i::nat) div m * m \<le> i"
  by simp

lemma fold_step:
  assumes "fr_laws L" "l < 32"
  shows "foldLoop L i l cur (sib # rest) =
    (if sib \<noteq> 0 then foldLoop L i (Suc l) (if (i div 2 ^ l) mod 2 = 1 then nodeHash L sib cur (int l) else nodeHash L cur sib (int l)) rest
     else if (i div 2 ^ l) mod 2 = 1 then Inl (WitnessSourceError ''MALFORMED_RESPONSE'')
     else foldLoop L i (Suc l) cur rest)"
  using assms by (simp add: toFr_def poseidonV1Hash3_def nodeHash_def isFr_small Let_def)

lemma foldLoop_treePath:
  assumes L: "fr_laws L" and d: "d \<le> 32" and nz: "noZeroNode (nodeHash L) ls d" and i: "i < length ls" and "l \<le> d"
  shows "foldLoop L i l (node (nodeHash L) ls l (i div 2 ^ l)) (map (\<lambda>l. node (nodeHash L) ls l (siblingIndex (i div 2 ^ l))) [l..<d])
    = Inr (node (nodeHash L) ls d (i div 2 ^ d))"
  using assms(5)
proof (induction "d - l" arbitrary: l)
  case (Suc k)
  let ?H = "nodeHash L" and ?i = "i div 2 ^ l"
  let ?cur = "node ?H ls l ?i" and ?sib = "node ?H ls l (siblingIndex ?i)"
  have l: "l < d" using Suc by simp
  have i': "?i * 2 ^ l < length ls" using div_mult_le [of i "2 ^ l"] i by linarith
  then have cur: "?cur \<noteq> 0" using noZeroNodeD [OF nz, of l ?i] l by simp
  have sib: "?sib \<noteq> 0" if "?i mod 2 = 1"
  proof -
    have "(?i - 1) * 2 ^ l \<le> ?i * 2 ^ l" by simp
    then have "(?i - 1) * 2 ^ l < length ls" using i' by (rule le_less_trans)
    then show ?thesis using noZeroNodeD [OF nz, of l "?i - 1"] that l by (simp add: siblingIndex_def)
  qed
  have bit: "?i mod 2 = 0 \<or> ?i mod 2 = 1" by auto
  have p: "node ?H ls (Suc l) (i div 2 ^ Suc l) = (if ?sib \<noteq> 0 then if ?i mod 2 = 1 then ?H ?sib ?cur (int l) else ?H ?cur ?sib (int l) else ?cur)"
    using combRef_parent [of ?H l ?i ls] cur sib bit by (auto simp: div_step combRef_def split: if_splits)
  have "foldLoop L i l ?cur (map (\<lambda>l. node ?H ls l (siblingIndex (i div 2 ^ l))) [l..<d])
      = foldLoop L i (Suc l) (node ?H ls (Suc l) (i div 2 ^ Suc l)) (map (\<lambda>l. node ?H ls l (siblingIndex (i div 2 ^ l))) [Suc l..<d])"
    using l d sib unfolding upt_step [OF l] list.map p by (subst fold_step [OF L]) auto
  then show ?case using Suc(1) [of "Suc l"] Suc(2) l by simp
qed simp

text \<open>The hash inputs of a fold and of a tree.\<close>

fun foldQueries :: "libs \<Rightarrow> nat \<Rightarrow> nat \<Rightarrow> int \<Rightarrow> int list \<Rightarrow> (int \<times> int \<times> int) set" where
  "foldQueries L idx l cur [] = {}"
| "foldQueries L idx l cur (sib # rest) =
     (if sib \<noteq> 0 then
        let q = (if (idx div 2 ^ l) mod 2 = 1 then (sib, cur, int l) else (cur, sib, int l))
        in insert q (foldQueries L idx (Suc l) (case q of (a, b, v) \<Rightarrow> nodeHash L a b v) rest)
      else foldQueries L idx (Suc l) cur rest)"

definition treeQueries :: "(int \<Rightarrow> int \<Rightarrow> int \<Rightarrow> int) \<Rightarrow> int list \<Rightarrow> nat \<Rightarrow> (int \<times> int \<times> int) set" where
  "treeQueries H ls d = {(node H ls l (2 * i), node H ls l (2 * i + 1), int l) | l i.
     l < d \<and> node H ls l (2 * i) \<noteq> 0 \<and> node H ls l (2 * i + 1) \<noteq> 0}"

definition hashQ :: "libs \<Rightarrow> int \<times> int \<times> int \<Rightarrow> int" where
  "hashQ L q = (case q of (a, b, v) \<Rightarrow> nodeHash L a b v)"

text \<open>The hash behaves as a collision-free one on a set of inputs: no two of them collide, and none
  hashes to one of the values \<open>V\<close>.\<close>

definition collisionFree :: "libs \<Rightarrow> (int \<times> int \<times> int) set \<Rightarrow> int set \<Rightarrow> bool" where
  "collisionFree L Q V \<longleftrightarrow> inj_on (hashQ L) Q \<and> hashQ L ` Q \<inter> V = {}"

text \<open>A node of a level is zero, a leaf, or a hash of a lower level.\<close>

lemma node_origin:
  "l \<le> d \<Longrightarrow> node H ls l i = 0 \<or> node H ls l i \<in> set ls
    \<or> (\<exists>a b v. (a, b, v) \<in> treeQueries H ls d \<and> v < int l \<and> node H ls l i = H a b v)"
proof (induction l arbitrary: i)
  case (Suc l)
  let ?a = "node H ls l (2 * i)" and ?b = "node H ls l (2 * i + 1)"
  have lift: "P \<Longrightarrow> P'" if "P = (\<exists>a b v. (a, b, v) \<in> treeQueries H ls d \<and> v < int l \<and> x = H a b v)"
    "P' = (\<exists>a b v. (a, b, v) \<in> treeQueries H ls d \<and> v < int (Suc l) \<and> x = H a b v)" for P P' x
    using that by fastforce
  show ?case
  proof (cases "?a \<noteq> 0 \<and> ?b \<noteq> 0")
    case True
    then have "(?a, ?b, int l) \<in> treeQueries H ls d" using Suc.prems unfolding treeQueries_def by auto
    moreover have "node H ls (Suc l) i = H ?a ?b (int l)" using True by (simp add: combRef_def)
    ultimately show ?thesis by force
  next
    case False
    then have "node H ls (Suc l) i = ?a \<or> node H ls (Suc l) i = ?b" by (auto simp: combRef_def)
    then show ?thesis using Suc.IH [of "2 * i"] Suc.IH [of "2 * i + 1"] Suc.prems lift by fastforce
  qed
qed (auto simp: nodeOrZero_def)

lemma collisionFreeD:
  assumes "collisionFree L Q V" "q \<in> Q"
  shows "q' \<in> Q \<Longrightarrow> hashQ L q = hashQ L q' \<Longrightarrow> q = q'" "hashQ L q \<notin> V"
  using assms unfolding collisionFree_def by (auto dest: inj_onD)

lemma hash_not_lower_node:
  assumes cf: "collisionFree L Q V" and V: "insert 0 (set ls) \<subseteq> V" and t: "treeQueries (nodeHash L) ls d \<subseteq> Q"
    and q: "(x, y, int l) \<in> Q" and l: "l \<le> d"
  shows "hashQ L (x, y, int l) \<noteq> node (nodeHash L) ls l i"
proof
  assume e: "hashQ L (x, y, int l) = node (nodeHash L) ls l i"
  then have "node (nodeHash L) ls l i \<notin> V" using collisionFreeD(2) [OF cf q] by metis
  then obtain a b v where "(a, b, v) \<in> treeQueries (nodeHash L) ls d" "v < int l" "node (nodeHash L) ls l i = nodeHash L a b v"
    using node_origin [OF l, of "nodeHash L" ls i] V by auto
  then show False
    using collisionFreeD(1) [OF cf q, of "(a, b, v)"] t e by (auto simp: hashQ_def)
qed

text \<open>The parent of a node that is not a hash is one of its children.\<close>

lemma parent_cases:
  "node H ls (Suc l) k = node H ls l (2 * k) \<or> node H ls (Suc l) k = node H ls l (2 * k + 1)
   \<or> (node H ls l (2 * k) \<noteq> 0 \<and> node H ls l (2 * k + 1) \<noteq> 0
      \<and> node H ls (Suc l) k = H (node H ls l (2 * k)) (node H ls l (2 * k + 1)) (int l))"
  by (auto simp: combRef_def)

lemma left_before_right:
  assumes "noZeroNode H ls d" "l \<le> d" "node H ls l (2 * k + 1) \<noteq> 0"
  shows "node H ls l (2 * k) \<noteq> 0"
proof -
  have "(2 * k + 1) * 2 ^ l < length ls" using assms(3) node_zero [of ls "2 * k + 1" l H] by fastforce
  moreover have "2 * k * 2 ^ l \<le> (2 * k + 1) * 2 ^ l" by simp
  ultimately have "2 * k * 2 ^ l < length ls" by (meson le_less_trans)
  then show ?thesis using noZeroNodeD [OF assms(1,2)] by blast
qed

lemma even_index: "(x::nat) mod 2 \<noteq> 1 \<Longrightarrow> x = 2 * (x div 2)"
  by presburger

lemma index_by_bit: "(x::nat) = (if x mod 2 = 1 then 2 * (x div 2) + 1 else 2 * (x div 2))"
  by presburger

lemma foldLoop_binding:
  assumes L: "fr_laws L" and d: "d \<le> 32" and nz: "noZeroNode (nodeHash L) ls d"
    and cf: "collisionFree L Q V" and V: "insert 0 (insert leaf0 (set ls)) \<subseteq> V" and t: "treeQueries (nodeHash L) ls d \<subseteq> Q"
    and "foldQueries L i l cur sibs \<subseteq> Q" "l + length sibs = d"
    and "cur = leaf0 \<or> (\<exists>a b v. (a, b, v) \<in> Q \<and> v < int l \<and> cur = hashQ L (a, b, v))"
    and "foldLoop L i l cur sibs = Inr (node (nodeHash L) ls d (i div 2 ^ d))"
  shows "cur = node (nodeHash L) ls l (i div 2 ^ l)"
  using assms(7-)
proof (induction sibs arbitrary: l cur)
  case (Cons sib sibs)
  let ?H = "nodeHash L" and ?i = "i div 2 ^ l" and ?k = "i div 2 ^ Suc l"
  have l: "l < d" "l < 32" "l \<le> d" using Cons.prems(2) d by simp_all
  have V': "insert 0 (set ls) \<subseteq> V" using V by blast
  have k: "?k = ?i div 2" by (simp only: div_step)
  show ?case
  proof (cases "sib = 0")
    case True
    have bit: "?i mod 2 \<noteq> 1" and f: "foldLoop L i (Suc l) cur sibs = Inr (node ?H ls d (i div 2 ^ d))"
      using Cons.prems(4) True unfolding fold_step [OF L l(2)] by (auto split: if_splits)
    have o: "cur = leaf0 \<or> (\<exists>a b v. (a, b, v) \<in> Q \<and> v < int (Suc l) \<and> cur = hashQ L (a, b, v))"
      using Cons.prems(3) by (metis less_trans lessI of_nat_less_iff)
    have up: "cur = node ?H ls (Suc l) ?k"
      by (rule Cons.IH [OF _ _ o f]) (use Cons.prems(1,2) True in simp_all)
    have i: "?i = 2 * ?k" using bit unfolding k by (rule even_index)
    have "node ?H ls l (2 * ?k + 1) = 0"
    proof (rule ccontr)
      assume b: "node ?H ls l (2 * ?k + 1) \<noteq> 0"
      then have a: "node ?H ls l (2 * ?k) \<noteq> 0" by (rule left_before_right [OF nz l(3)])
      let ?q = "(node ?H ls l (2 * ?k), node ?H ls l (2 * ?k + 1), int l)"
      have q: "?q \<in> Q" using a b l(1) t unfolding treeQueries_def by blast
      have c: "cur = hashQ L ?q" using up a b by (simp add: combRef_def hashQ_def)
      then have "cur \<noteq> leaf0" using collisionFreeD(2) [OF cf q] V by auto
      then obtain a' b' v' where "(a', b', v') \<in> Q" "v' < int l" "hashQ L (a', b', v') = hashQ L ?q"
        using Cons.prems(3) c by auto
      then show False using collisionFreeD(1) [OF cf q, of "(a', b', v')"] by auto
    qed
    then have "node ?H ls (Suc l) ?k = node ?H ls l (2 * ?k)" by (simp add: combRef_def)
    then show ?thesis using up i by simp
  next
    case False
    let ?q = "if ?i mod 2 = 1 then (sib, cur, int l) else (cur, sib, int l)"
    obtain x y where q: "?q = (x, y, int l)" by (cases "?i mod 2 = 1") auto
    have Q: "?q \<in> Q" "foldQueries L i (Suc l) (hashQ L ?q) sibs \<subseteq> Q"
      using Cons.prems(1) False by (auto simp: Let_def hashQ_def split: if_splits)
    have f: "foldLoop L i (Suc l) (hashQ L ?q) sibs = Inr (node ?H ls d (i div 2 ^ d))"
      using Cons.prems(4) False unfolding fold_step [OF L l(2)] by (simp add: hashQ_def split: if_splits)
    have "(x, y, int l) \<in> Q \<and> int l < int (Suc l)" using Q(1) unfolding q by simp
    then have o: "hashQ L ?q = leaf0 \<or> (\<exists>a b v. (a, b, v) \<in> Q \<and> v < int (Suc l) \<and> hashQ L ?q = hashQ L (a, b, v))"
      unfolding q by blast
    have up: "hashQ L ?q = node ?H ls (Suc l) ?k"
      by (rule Cons.IH [OF Q(2) _ o f]) (use Cons.prems(2) in simp)
    moreover have "hashQ L ?q \<noteq> node ?H ls l j" for j
      using hash_not_lower_node [OF cf V' t _ l(3)] Q(1) unfolding q by blast
    ultimately have ab: "node ?H ls l (2 * ?k) \<noteq> 0 \<and> node ?H ls l (2 * ?k + 1) \<noteq> 0"
      "hashQ L ?q = hashQ L (node ?H ls l (2 * ?k), node ?H ls l (2 * ?k + 1), int l)"
      using parent_cases [of ?H ls l ?k] by (auto simp: hashQ_def)
    then have "(node ?H ls l (2 * ?k), node ?H ls l (2 * ?k + 1), int l) \<in> Q"
      using l(1) t unfolding treeQueries_def by blast
    then have "?q = (node ?H ls l (2 * ?k), node ?H ls l (2 * ?k + 1), int l)"
      using collisionFreeD(1) [OF cf Q(1)] ab(2) by blast
    moreover have "?i = (if ?i mod 2 = 1 then 2 * ?k + 1 else 2 * ?k)" unfolding k by (rule index_by_bit)
    ultimately show ?thesis by (auto split: if_splits)
  qed
qed simp

text \<open>A fold reads only the low bits of the index.\<close>

lemma foldLoop_mod:
  assumes "l + length sibs \<le> d"
  shows "foldLoop L (i mod 2 ^ d) l cur sibs = foldLoop L i l cur sibs"
  using assms
proof (induction sibs arbitrary: l cur)
  case (Cons sib sibs)
  then have "l < d" by simp
  then have "(2::nat) dvd 2 ^ (d - l)" by simp
  then have "i div 2 ^ l mod 2 ^ (d - l) mod 2 = i div 2 ^ l mod 2" by (rule mod_mod_cancel)
  moreover have "(i mod 2 ^ d) div 2 ^ l = i div 2 ^ l mod 2 ^ (d - l)"
    using drop_bit_take_bit [of l d i] by (simp only: drop_bit_eq_div take_bit_eq_mod)
  ultimately have "(i mod 2 ^ d) div 2 ^ l mod 2 = i div 2 ^ l mod 2" by simp
  then have step: "foldLoop L (i mod 2 ^ d) l cur (sib # sibs) = foldLoop L i l cur (sib # sibs)"
    if "\<And>c. foldLoop L (i mod 2 ^ d) (l + 1) c sibs = foldLoop L i (l + 1) c sibs"
    using that by (simp only: foldLoop.simps)
  show ?case by (rule step) (use Cons in simp)
qed simp

lemma foldPath_mod: "foldPath L leaf (i mod 2 ^ length sibs) sibs = foldPath L leaf i sibs"
  by (simp add: foldPath_def foldLoop_mod)

section \<open>Properties\<close>

text \<open>C16: the tree is the tree of its leaves.  Inserting non-zero leaves within the capacity into a new
  tree of depth 1 to 32 never throws; the root is the reference root of the list of leaves (level-tagged
  hash, absent siblings passed through), the path of every leaf is its list of reference siblings, and
  an index past the last leaf is refused.\<close>

theorem merkle_refines_reference:
  assumes "fr_laws L" "newLeanIMT d = Inr t" "0 \<notin> set leaves" "length leaves \<le> 2 ^ d"
  shows "\<exists>t'. insertAll (imtInsert L) t leaves = Inr t' \<and> imtGetRoot t' = node (nodeHash L) leaves d 0
    \<and> (\<forall>i < length leaves. getMerklePath t' i = Inr (treePath (nodeHash L) leaves d i))
    \<and> (\<forall>i \<ge> length leaves. \<exists>e. getMerklePath t' i = Inl e)"
  by (rule sdkTree.built_tree [OF newLeanIMT_repr [OF assms(1,2)] assms(3,4)])

lemma newLeanIMT_3: "newLeanIMT 3 = Inr \<lparr>imtDepth = 3, imtLevels = [[], [], []], imtNext = 0, imtRoot = 0\<rparr>"
  by (simp add: newLeanIMT_def eval_nat_numeral)

lemma newIndexTree_3: "newIndexTree 3 = Inr \<lparr>itDepth = 3, itLevels = [[], [], [], []], itNext = 0, itRoot = 0\<rparr>"
  by (simp add: newIndexTree_def eval_nat_numeral)

theorem merkle_refines_reference_witness:
  "\<exists>t'. insertAll (imtInsert toyLibs) \<lparr>imtDepth = 3, imtLevels = [[], [], []], imtNext = 0, imtRoot = 0\<rparr> [5, 6, 7] = Inr t'
    \<and> imtGetRoot t' = node (nodeHash toyLibs) [5, 6, 7] 3 0
    \<and> (\<forall>i < length [5, 6, 7::int]. getMerklePath t' i = Inr (treePath (nodeHash toyLibs) [5, 6, 7] 3 i))
    \<and> (\<forall>i \<ge> length [5, 6, 7::int]. \<exists>e. getMerklePath t' i = Inl e)"
  by (rule merkle_refines_reference [OF toyLibs_fr_laws newLeanIMT_3]) simp_all

text \<open>C36: the indexer's tree and the wallet's tree are the same tree.  When \<open>poseidon-lite\<close> and
  \<open>circomlibjs\<close> compute the same three-input hash, the two implementations fed with the same leaves
  have the same root and the same path for every leaf.\<close>

theorem indexer_tree_agrees:
  assumes "fr_laws L" "\<forall>a b c. poseidon3 [a, b, c] = circomPoseidon L [a, b, c]"
    and "newLeanIMT d = Inr t" "newIndexTree d = Inr u" "0 \<notin> set leaves" "length leaves \<le> 2 ^ d"
  shows "\<exists>t' u'. insertAll (imtInsert L) t leaves = Inr t' \<and> insertAll (itInsert poseidon3) u leaves = Inr u'
    \<and> itGetRoot u' = imtGetRoot t' \<and> (\<forall>i < length leaves. itGetPath u' (int i) = getMerklePath t' i)"
proof -
  have "hash3 poseidon3 = nodeHash L" using assms(2) by (intro ext) (simp add: hash3_def nodeHash_def)
  then show ?thesis
    using sdkTree.built_tree [OF newLeanIMT_repr [OF assms(1,3)] assms(5,6)]
      indexerTree.built_tree [OF newIndexTree_repr [OF assms(4)] assms(5,6), of poseidon3] by metis
qed

theorem indexer_tree_agrees_witness:
  "\<exists>t' u'. insertAll (imtInsert toyLibs) \<lparr>imtDepth = 3, imtLevels = [[], [], []], imtNext = 0, imtRoot = 0\<rparr> [5, 6, 7] = Inr t'
    \<and> insertAll (itInsert toyHash) \<lparr>itDepth = 3, itLevels = [[], [], [], []], itNext = 0, itRoot = 0\<rparr> [5, 6, 7] = Inr u'
    \<and> itGetRoot u' = imtGetRoot t' \<and> (\<forall>i < length [5, 6, 7::int]. itGetPath u' (int i) = getMerklePath t' i)"
  by (rule indexer_tree_agrees [OF toyLibs_fr_laws _ newLeanIMT_3 newIndexTree_3]) (simp_all add: toyLibs_def)

text \<open>a path proves its leaf.  On a tree built from non-zero leaves none of whose nodes hashes to
  zero, folding the path of a leaf returns the root, and folding never reports a malformed witness.\<close>

theorem merkle_path_folds_to_root:
  assumes "fr_laws L" "newLeanIMT d = Inr t" "0 \<notin> set leaves" "length leaves \<le> 2 ^ d"
    and "noZeroNode (nodeHash L) leaves d" "insertAll (imtInsert L) t leaves = Inr t'" "i < length leaves"
  shows "\<exists>path. getMerklePath t' i = Inr path \<and> foldPath L (leaves ! i) i path = Inr (imtGetRoot t')"
proof -
  have d: "d \<le> 32" using assms(2) by (auto simp: newLeanIMT_def split: if_splits)
  have t': "getMerklePath t' i = Inr (treePath (nodeHash L) leaves d i)" "imtGetRoot t' = node (nodeHash L) leaves d 0"
    using sdkTree.built_tree [OF newLeanIMT_repr [OF assms(1,2)] assms(3,4)] assms(6,7) by auto
  have "i < 2 ^ d" using assms(4,7) by linarith
  then have "foldPath L (leaves ! i) i (treePath (nodeHash L) leaves d i) = Inr (node (nodeHash L) leaves d 0)"
    using foldLoop_treePath [OF assms(1) d assms(5,7), of 0] assms(7)
    by (simp add: foldPath_def treePath_def nodeOrZero_def)
  then show ?thesis using t' by simp
qed

lemma toyNode_nonzero: "noZeroNode (nodeHash toyLibs) [5, 6, 7] 3"
proof -
  have small: "\<forall>l\<in>{0, 1, 2, 3::nat}. \<forall>i\<in>{0, 1, 2::nat}. i * 2 ^ l < 3 \<longrightarrow> node (nodeHash toyLibs) [5, 6, 7] l i \<noteq> 0"
    by code_simp
  have "node (nodeHash toyLibs) [5, 6, 7] l i \<noteq> 0" if "l \<le> 3" "i * 2 ^ l < 3" for l i
  proof -
    have "i \<le> i * 2 ^ l" by simp
    then have "i < 3" using that(2) by linarith
    then have "i \<in> {0, 1, 2}" "l \<in> {0, 1, 2, 3}" using that(1) by auto
    then show ?thesis using small that(2) by blast
  qed
  then show ?thesis by (simp add: noZeroNode_def)
qed

theorem merkle_path_folds_to_root_witness:
  "\<exists>t' path. insertAll (imtInsert toyLibs) \<lparr>imtDepth = 3, imtLevels = [[], [], []], imtNext = 0, imtRoot = 0\<rparr> [5, 6, 7] = Inr t'
    \<and> getMerklePath t' 1 = Inr path \<and> foldPath toyLibs 6 1 path = Inr (imtGetRoot t')"
proof -
  obtain t' where t': "insertAll (imtInsert toyLibs) \<lparr>imtDepth = 3, imtLevels = [[], [], []], imtNext = 0, imtRoot = 0\<rparr> [5, 6, 7] = Inr t'"
    using sdkTree.built_tree [OF newLeanIMT_repr [OF toyLibs_fr_laws newLeanIMT_3], of "[5, 6, 7]"] by auto
  then show ?thesis
    using merkle_path_folds_to_root [OF toyLibs_fr_laws newLeanIMT_3 _ _ toyNode_nonzero t', of 1] by simp
qed


text \<open>A transport that answers with the path of leaf 6 in the tree of \<open>[5, 6, 7]\<close>; its texts are read by
  \<open>toyFrFromString\<close> as the code of their first character.\<close>

definition toyFrFromString :: "string \<Rightarrow> int result" where
  "toyFrFromString s = (case s of [] \<Rightarrow> Inr 0 | c # _ \<Rightarrow> Inr (of_char c))"

definition toyText :: "int \<Rightarrow> string" where
  "toyText v = [char_of (nat v)]"

definition toyTransport :: "int \<Rightarrow> rawWitness result" where
  "toyTransport leaf = Inr \<lparr>rwLeafIndex = 1, rwSiblings = map toyText (treePath (nodeHash toyLibs) [5, 6, 7] 2 1),
     rwRoot = toyText (node (nodeHash toyLibs) [5, 6, 7] 2 0)\<rparr>"

definition toyWitness :: merkleWitness where
  "toyWitness = \<lparr>mwLeafIndex = 1, mwSiblings = treePath (nodeHash toyLibs) [5, 6, 7] 2 1,
     mwRoot = node (nodeHash toyLibs) [5, 6, 7] 2 0\<rparr>"

lemma toyTreeQueries: "treeQueries (nodeHash toyLibs) [5, 6, 7] 2 \<subseteq> {(5, 6, 0), (46, 7, 1)}"
proof -
  have vals: "node (nodeHash toyLibs) [5, 6, 7] 0 0 = 5" "node (nodeHash toyLibs) [5, 6, 7] 0 1 = 6"
    "node (nodeHash toyLibs) [5, 6, 7] 1 0 = 46" "node (nodeHash toyLibs) [5, 6, 7] 1 1 = 7" by code_simp+
  have "(node (nodeHash toyLibs) [5, 6, 7] l (2 * i), node (nodeHash toyLibs) [5, 6, 7] l (2 * i + 1), int l) \<in> {(5, 6, 0), (46, 7, 1)}"
    if "l < 2" "node (nodeHash toyLibs) [5, 6, 7] l (2 * i + 1) \<noteq> 0" for l i
  proof -
    have "\<not> length [5, 6, 7::int] \<le> (2 * i + 1) * 2 ^ l" using that(2) node_zero by blast
    then have "(2 * i + 1) * 2 ^ l < 3" by simp
    moreover have "l = 0 \<or> l = 1" using that(1) by auto
    ultimately have "i = 0" "l = 0 \<or> l = 1" by auto
    then show ?thesis using vals by auto
  qed
  then show ?thesis unfolding treeQueries_def by blast
qed

lemma collisionFree_subset: "collisionFree L Q V \<Longrightarrow> Q' \<subseteq> Q \<Longrightarrow> collisionFree L Q' V"
  unfolding collisionFree_def by (meson image_mono disjoint_iff inj_on_subset subsetD)


text \<open>an index past the capacity is an alias.  The check does not bound the index: a witness
  answer whose index is increased by the capacity passes with the same root, so the returned index is
  determined by leaf and root only modulo the capacity.\<close>

theorem witness_index_aliases:
  "\<exists>w w'. indexerWitnessFor toyLibs toyFrFromString toyTransport 2 6 = Inr w
    \<and> indexerWitnessFor toyLibs toyFrFromString (\<lambda>x. bindR (toyTransport x) (\<lambda>r. Inr (r\<lparr>rwLeafIndex := 5\<rparr>))) 2 6 = Inr w'
    \<and> mwRoot w' = mwRoot w \<and> mwLeafIndex w = 1 \<and> mwLeafIndex w' = 5"
proof -
  have "indexerWitnessFor toyLibs toyFrFromString toyTransport 2 6 = Inr toyWitness" by code_simp
  moreover have "indexerWitnessFor toyLibs toyFrFromString (\<lambda>x. bindR (toyTransport x) (\<lambda>r. Inr (r\<lparr>rwLeafIndex := 5\<rparr>))) 2 6
      = Inr (toyWitness\<lparr>mwLeafIndex := 5\<rparr>)" by code_simp
  moreover have "mwLeafIndex toyWitness = 1" by code_simp
  ultimately show ?thesis by simp
qed

end
