(* ===== verification/JsText.thy ===== *)
theory JsText
  imports Libs
begin

text \<open>
  The text operations of JavaScript the packages use: \<open>BigInt(text)\<close>, \<open>toString(16)\<close>, \<open>padStart\<close>,
  \<open>startsWith\<close>, and \<open>Buffer.toString("hex")\<close>; and the indexer's hexadecimal field codec of
  \<open>tree/poseidonV1.ts\<close>.  A text is a list of characters.
\<close>

section \<open>Numbers and digits\<close>

fun digitChar :: "nat \<Rightarrow> char" where
  "digitChar n = (if n < 10 then char_of (48 + n) else char_of (87 + n))"

definition digitVal :: "nat \<Rightarrow> char \<Rightarrow> int option" where
  "digitVal base c =
     (let n = of_char c :: nat;
          v = (if 48 \<le> n \<and> n \<le> 57 then n - 48 else if 97 \<le> n \<and> n \<le> 122 then n - 87
               else if 65 \<le> n \<and> n \<le> 90 then n - 55 else base)
      in if v < base then Some (int v) else None)"

fun digits :: "nat \<Rightarrow> int \<Rightarrow> string \<Rightarrow> int option" where
  "digits base acc [] = Some acc"
| "digits base acc (c # cs) = (case digitVal base c of None \<Rightarrow> None | Some v \<Rightarrow> digits base (acc * int base + v) cs)"

definition isSpace :: "char \<Rightarrow> bool" where
  "isSpace c \<longleftrightarrow> of_char c \<in> {9, 10, 11, 12, 13, 32 :: nat}"

definition trim :: "string \<Rightarrow> string" where
  "trim s = rev (dropWhile isSpace (rev (dropWhile isSpace s)))"

definition startsWith :: "string \<Rightarrow> string \<Rightarrow> bool" where
  "startsWith s p \<longleftrightarrow> take (length p) s = p"

definition syntaxError :: "'a option \<Rightarrow> 'a result" where
  "syntaxError x = getOr (Error ''SyntaxError: Cannot convert to a BigInt'') x"

text \<open>\<open>BigInt(text)\<close>: surrounding white space is dropped, the empty text is zero, a \<open>0x\<close>, \<open>0o\<close> or \<open>0b\<close>
  prefix needs at least one digit of its base and takes no sign, and anything else must be decimal.\<close>

definition BigIntOf :: "string \<Rightarrow> int result" where
  "BigIntOf s =
     (let t = trim s;
          radix = (\<lambda>base ds. if ds = [] then None else digits base 0 ds);
          p = take 2 t; ds = drop 2 t in
      if t = [] then Inr 0
      else if p = ''0x'' \<or> p = ''0X'' then syntaxError (radix 16 ds)
      else if p = ''0o'' \<or> p = ''0O'' then syntaxError (radix 8 ds)
      else if p = ''0b'' \<or> p = ''0B'' then syntaxError (radix 2 ds)
      else if hd t = CHR ''-'' then syntaxError (map_option uminus (radix 10 (tl t)))
      else if hd t = CHR ''+'' then syntaxError (radix 10 (tl t))
      else syntaxError (radix 10 t))"

text \<open>\<open>value.toString(16)\<close> of a non-negative value, and \<open>padStart(n, "0")\<close>.\<close>

function toHexDigits :: "nat \<Rightarrow> string" where
  "toHexDigits n = (if n < 16 then [digitChar n] else toHexDigits (n div 16) @ [digitChar (n mod 16)])"
  by pat_completeness auto
termination
  by (relation "measure id") auto

declare toHexDigits.simps [simp del]

definition padStart0 :: "nat \<Rightarrow> string \<Rightarrow> string" where
  "padStart0 n s = replicate (n - length s) (CHR ''0'') @ s"

text \<open>\<open>Buffer.from(bytes).toString("hex")\<close>.\<close>

definition bytesHex :: "byte list \<Rightarrow> string" where
  "bytesHex bs = concat (map (\<lambda>b. [digitChar (b div 16), digitChar (b mod 16)]) bs)"

section \<open>The indexer's field codec\<close>

definition fieldFromHex :: "string \<Rightarrow> int result" where
  "fieldFromHex hex =
     (let clean = (if startsWith hex ''0x'' \<or> startsWith hex ''0X'' then drop 2 hex else hex) in
      if clean = [] then Inr 0
      else bindR (BigIntOf (''0x'' @ clean)) (\<lambda>value.
        if BN254_P \<le> value then Inl (Error ''field value is not canonical (>= BN254 scalar modulus)'')
        else Inr value))"

definition fieldToHex :: "int \<Rightarrow> string result" where
  "fieldToHex value =
     (if value < 0 \<or> BN254_P \<le> value then Inl (Error ''field value is not a canonical BN254 scalar'')
      else Inr (''0x'' @ padStart0 64 (toHexDigits (nat value))))"

section \<open>Reading back what was printed\<close>

lemma digitVal_digitChar:
  assumes "n < 16"
  shows "digitVal 16 (digitChar n) = Some (int n)"
  using assms by (auto simp: digitVal_def Let_def)

lemma digitChar_not_space:
  assumes "n < 16"
  shows "\<not> isSpace (digitChar n)"
  using assms by (auto simp: isSpace_def)

lemma digits_append: "digits base acc (xs @ ys) = Option.bind (digits base acc xs) (\<lambda>a. digits base a ys)"
  by (induction xs arbitrary: acc) (auto split: option.splits)

lemma digits_toHexDigits: "digits 16 0 (toHexDigits n) = Some (int n)"
proof (induction n rule: toHexDigits.induct)
  case (1 n)
  show ?case
  proof (cases "n < 16")
    case True
    then show ?thesis by (subst toHexDigits.simps) (simp add: digitVal_digitChar del: digitChar.simps)
  next
    case False
    have "int (n div 16) * 16 + int (n mod 16) = int n" by (metis div_mult_mod_eq of_nat_add of_nat_mult of_nat_numeral)
    then show ?thesis
      using 1 [OF False] False
      by (subst toHexDigits.simps) (simp add: digits_append digitVal_digitChar del: digitChar.simps)
  qed
qed

lemma toHexDigits_chars: "set (toHexDigits n) \<subseteq> digitChar ` {..<16}"
proof (induction n rule: toHexDigits.induct)
  case (1 n)
  then show ?case by (subst toHexDigits.simps) (auto simp del: digitChar.simps)
qed

lemma toHexDigits_nonempty [simp]: "toHexDigits n \<noteq> []"
  by (subst toHexDigits.simps) simp

lemma toHexDigits_last_not_space: "\<not> isSpace (last (toHexDigits n))"
  by (subst toHexDigits.simps) (auto simp: digitChar_not_space simp del: digitChar.simps)

lemma digits_padStart0: "digits 16 0 (padStart0 k s) = digits 16 0 s"
proof -
  have "digits 16 0 (replicate m (CHR ''0'')) = Some 0" for m
    by (induction m) (simp_all add: digitVal_def)
  then show ?thesis by (simp add: padStart0_def digits_append)
qed

lemma trim_id:
  assumes "s \<noteq> []" "\<not> isSpace (hd s)" "\<not> isSpace (last s)"
  shows "trim s = s"
proof -
  have "dropWhile isSpace s = s" using assms(1,2) by (cases s) auto
  moreover have "dropWhile isSpace (rev s) = rev s" using assms(1,3) by (cases s rule: rev_cases) auto
  ultimately show ?thesis by (simp add: trim_def)
qed

lemma BigIntOf_hex:
  assumes "s \<noteq> []" "\<not> isSpace (last s)" "digits 16 0 s = Some v"
  shows "BigIntOf (''0x'' @ s) = Inr v"
proof -
  have "\<not> isSpace (CHR ''0'')" by code_simp
  then have "trim (''0x'' @ s) = ''0x'' @ s" using assms by (intro trim_id) simp_all
  then show ?thesis using assms by (simp add: BigIntOf_def Let_def syntaxError_def)
qed

lemma BigIntOf_printed: "0 \<le> v \<Longrightarrow> BigIntOf (''0x'' @ padStart0 k (toHexDigits (nat v))) = Inr v"
  by (rule BigIntOf_hex) (simp_all add: padStart0_def [of k] toHexDigits_last_not_space digits_padStart0 [unfolded padStart0_def] digits_toHexDigits)

lemma field_hex_round_trip: "isFr v \<Longrightarrow> bindR (fieldToHex v) fieldFromHex = Inr v"
  using BigIntOf_printed [of v 64] by (simp add: isFr_def fieldToHex_def fieldFromHex_def startsWith_def padStart0_def Let_def)

end
