(* ===== verification/Scan.thy ===== *)
theory Scan
  imports KeyRepo ComplianceRing Merkle JsText
begin

text \<open>
  \<open>sync/NoteProcessor.ts\<close>, \<open>sync/ScanEngine.ts\<close> and \<open>state/UtxoRepository.ts\<close>: trial decryption of the
  indexer's notes against the key registry and the compliance key ring, the store of the wallet's notes,
  and the passes of a scan.  A caught exception is a \<open>None\<close>; the registry and counters keep what was
  assigned before it.
\<close>

section \<open>Events\<close>

datatype eventType = NEW_NOTE | NEW_MEMO

record unprocessedEvent =
  evType :: eventType
  evBlockNumber :: int
  evTxHash :: string
  evLeafIndex :: int
  evCommitment :: string
  evEphemeralX :: int
  evPackedCiphertext :: "string list"
  evTag :: "int option"
  evCekWrap :: "int option"

record indexerNote =
  inLeafIndex :: int
  inLeaf :: string
  inEphPubX :: string
  inTag :: "string option"
  inCekWrap :: "string option"
  inCiphertext :: "string list"
  inRoot :: string

definition toUnprocessedEvent :: "indexerNote \<Rightarrow> unprocessedEvent result" where
  "toUnprocessedEvent n =
     (case (inTag n, inCekWrap n) of
        (Some t, Some c) \<Rightarrow>
          bindR (BigIntOf t) (\<lambda>tag. bindR (BigIntOf c) (\<lambda>cekWrap. bindR (BigIntOf (inEphPubX n)) (\<lambda>x.
          Inr \<lparr>evType = NEW_MEMO, evBlockNumber = inLeafIndex n, evTxHash = inRoot n, evLeafIndex = inLeafIndex n,
            evCommitment = inLeaf n, evEphemeralX = x, evPackedCiphertext = inCiphertext n,
            evTag = Some tag, evCekWrap = Some cekWrap\<rparr>)))
      | _ \<Rightarrow> bindR (BigIntOf (inEphPubX n)) (\<lambda>x.
          Inr \<lparr>evType = NEW_NOTE, evBlockNumber = inLeafIndex n, evTxHash = inRoot n, evLeafIndex = inLeafIndex n,
            evCommitment = inLeaf n, evEphemeralX = x, evPackedCiphertext = inCiphertext n,
            evTag = None, evCekWrap = None\<rparr>))"

section \<open>Note processing\<close>

record walletNote =
  wnNote :: Note
  wnCommitment :: int
  wnLeafIndex :: int
  wnNullifier :: int
  wnSpendScalar :: int
  wnIsIncoming :: bool
  wnDerivationIndex :: int
  wnSpent :: bool

definition ASSET_MODULUS :: int where "ASSET_MODULUS = 2 ^ 160"

datatype recoverOutcome = RNote walletNote | LeafMismatch | Rejected

definition toFrText :: "libs \<Rightarrow> string \<Rightarrow> int result" where
  "toFrText L s = bindR (BigIntOf s) (toFr L)"

definition recoverNote :: "libs \<Rightarrow> int \<Rightarrow> string list \<Rightarrow> int \<Rightarrow> int \<Rightarrow> int \<Rightarrow> bool \<Rightarrow> int \<Rightarrow> recoverOutcome result" where
  "recoverNote L cek packedCiphertext commitment leafIndex spendScalar isIncoming derivationIndex =
     bindR (mapR (toFrText L) packedCiphertext) (\<lambda>ciphertext.
     bindR (demDecrypt L cek ciphertext) (\<lambda>plaintext.
     bindR (computePsi L cek) (\<lambda>psi.
     let n = \<lparr>noteVersion = plaintext ! 0, assetId = plaintext ! 1, noteType = plaintext ! 2,
           conditionsHash = plaintext ! 3, noteValue = plaintext ! 4, noteOwner = plaintext ! 5,
           notePsi = psi, noteParents = plaintext ! 6\<rparr> in
     bindR (leaf L n) (\<lambda>rebuilt.
     if rebuilt \<noteq> commitment then Inr LeafMismatch
     else if noteType n \<noteq> NOTE_TYPE_STANDARD then Inr Rejected
     else if noteOwner n = 0 then Inr Rejected
     else if ASSET_MODULUS \<le> assetId n then Inr Rejected
     else bindR (pubkeyOwner L (publicKey L spendScalar)) (\<lambda>selfOwner.
       if noteOwner n \<noteq> selfOwner then Inr Rejected
       else bindR (newFr L leafIndex) (\<lambda>li. bindR (computeNullifier L psi li) (\<lambda>nullifier.
         Inr (RNote \<lparr>wnNote = n, wnCommitment = commitment, wnLeafIndex = leafIndex, wnNullifier = nullifier,
           wnSpendScalar = spendScalar, wnIsIncoming = isIncoming, wnDerivationIndex = derivationIndex,
           wnSpent = False\<rparr>))))))))"

text \<open>The loop over the candidate keys: the note found, a rejection (\<open>Some None\<close>), or no key left.\<close>

fun tryKeys :: "libs \<Rightarrow> int \<Rightarrow> int \<Rightarrow> unprocessedEvent \<Rightarrow> int \<Rightarrow> int \<Rightarrow> complianceKeyEpoch list \<Rightarrow> walletNote option option result" where
  "tryKeys L eph index ev commitment spendScalar [] = Inr None"
| "tryKeys L eph index ev commitment spendScalar (epoch # rest) =
     bindR (deriveCek L eph (epPk epoch)) (\<lambda>cek.
     case recoverNote L cek (evPackedCiphertext ev) commitment (evLeafIndex ev) spendScalar False index of
       Inl e \<Rightarrow> tryKeys L eph index ev commitment spendScalar rest
     | Inr (RNote wn) \<Rightarrow> Inr (Some (Some wn))
     | Inr Rejected \<Rightarrow> Inr (Some None)
     | Inr LeafMismatch \<Rightarrow> tryKeys L eph index ev commitment spendScalar rest)"

record processor =
  prKeys :: keyRepo
  prUnopenable :: nat

definition processNewNote :: "libs \<Rightarrow> account \<Rightarrow> ring \<Rightarrow> processor \<Rightarrow> unprocessedEvent \<Rightarrow> walletNote option \<times> processor" where
  "processNewNote L ac ring pr ev =
     (case matchSelfTag L (prKeys pr) (evEphemeralX ev) of
        (Inl e, kr) \<Rightarrow> (None, pr\<lparr>prKeys := kr\<rparr>)
      | (Inr None, kr) \<Rightarrow> (None, pr\<lparr>prKeys := kr\<rparr>)
      | (Inr (Some (eph, index)), kr) \<Rightarrow>
        let pr1 = pr\<lparr>prKeys := kr\<rparr> in
        case bindR (toFrText L (evCommitment ev)) (\<lambda>commitment.
             bindR (acSelfSpendKey ac) (\<lambda>spendScalar.
             tryKeys L eph index ev commitment spendScalar (candidatesFor ring (Some (evBlockNumber ev))))) of
          Inl e \<Rightarrow> (None, pr1)
        | Inr (Some r) \<Rightarrow> (r, pr1)
        | Inr None \<Rightarrow> (None, pr1\<lparr>prUnopenable := prUnopenable pr1 + 1\<rparr>))"

definition processMemo :: "libs \<Rightarrow> processor \<Rightarrow> unprocessedEvent \<Rightarrow> walletNote option \<times> processor" where
  "processMemo L pr ev =
     (case (evTag ev, evCekWrap ev) of
        (Some tag, Some cekWrap) \<Rightarrow>
          (case matchIncomingTag L (prKeys pr) tag of
             (Inl e, kr) \<Rightarrow> (None, pr\<lparr>prKeys := kr\<rparr>)
           | (Inr None, kr) \<Rightarrow> (None, pr\<lparr>prKeys := kr\<rparr>)
           | (Inr (Some (inKey, index)), kr) \<Rightarrow>
             let pr1 = pr\<lparr>prKeys := kr\<rparr> in
             case bindR (recoverEvenY (evEphemeralX ev)) (\<lambda>ephPub.
                  bindR (newFr L cekWrap) (\<lambda>wrap.
                  bindR (unwrapCek L wrap inKey ephPub) (\<lambda>cek.
                  bindR (toFrText L (evCommitment ev)) (\<lambda>commitment.
                  recoverNote L cek (evPackedCiphertext ev) commitment (evLeafIndex ev) inKey True index)))) of
               Inr (RNote wn) \<Rightarrow> (Some wn, pr1\<lparr>prKeys := recordIncomingMatch kr index\<rparr>)
             | _ \<Rightarrow> (None, pr1))
      | _ \<Rightarrow> (None, pr))"

definition processEvent :: "libs \<Rightarrow> account \<Rightarrow> ring \<Rightarrow> processor \<Rightarrow> unprocessedEvent \<Rightarrow> walletNote option \<times> processor" where
  "processEvent L ac ring pr ev =
     (case evType ev of NEW_NOTE \<Rightarrow> processNewNote L ac ring pr ev | NEW_MEMO \<Rightarrow> processMemo L pr ev)"

section \<open>The wallet's notes\<close>

text \<open>A \<open>Map\<close> keeps the order of first insertion: an association list without repeated keys.\<close>

type_synonym utxoRepo = "(int \<times> walletNote) list"

fun mapSet :: "'k \<Rightarrow> 'v \<Rightarrow> ('k \<times> 'v) list \<Rightarrow> ('k \<times> 'v) list" where
  "mapSet k v [] = [(k, v)]"
| "mapSet k v ((k', v') # m) = (if k' = k then (k, v) # m else (k', v') # mapSet k v m)"

definition addNote :: "utxoRepo \<Rightarrow> walletNote \<Rightarrow> utxoRepo" where
  "addNote repo n =
     (case map_of repo (wnNullifier n) of
        Some existing \<Rightarrow> mapSet (wnNullifier n) (n\<lparr>wnSpent := wnSpent existing \<or> wnSpent n\<rparr>) repo
      | None \<Rightarrow> mapSet (wnNullifier n) n repo)"

definition markSpent :: "utxoRepo \<Rightarrow> int \<Rightarrow> bool \<times> utxoRepo" where
  "markSpent repo nullifier =
     (case map_of repo nullifier of
        Some n \<Rightarrow> if \<not> wnSpent n then (True, mapSet nullifier (n\<lparr>wnSpent := True\<rparr>) repo) else (False, repo)
      | None \<Rightarrow> (False, repo))"

definition getUnspentNotes :: "utxoRepo \<Rightarrow> walletNote list" where
  "getUnspentNotes repo = filter (\<lambda>n. \<not> wnSpent n) (map snd repo)"

definition getAllNotes :: "utxoRepo \<Rightarrow> walletNote list" where
  "getAllNotes repo = map snd repo"

definition getBalance :: "utxoRepo \<Rightarrow> int option \<Rightarrow> int" where
  "getBalance repo want =
     fold (\<lambda>n total. case want of
             Some a \<Rightarrow> if assetId (wnNote n) \<noteq> a then total else total + noteValue (wnNote n)
           | None \<Rightarrow> total + noteValue (wnNote n)) (getUnspentNotes repo) 0"

section \<open>The scan engine\<close>

record engine =
  enProcessor :: processor
  enUtxo :: utxoRepo
  enTree :: "leanIMT option"

definition scanNote :: "libs \<Rightarrow> account \<Rightarrow> ring \<Rightarrow> engine \<Rightarrow> indexerNote \<Rightarrow> unit result \<times> engine" where
  "scanNote L ac ring en n =
     (case (case enTree en of
              Some t \<Rightarrow> if inLeafIndex n = int (imtNext t)
                then (case toFrText L (inLeaf n) of Inl e \<Rightarrow> (Inl e, Some t)
                      | Inr l \<Rightarrow> (case imtInsert L t l of (Inl e, t') \<Rightarrow> (Inl e, Some t') | (Inr r, t') \<Rightarrow> (Inr (), Some t')))
                else (Inr (), Some t)
            | None \<Rightarrow> (Inr (), None)) of
        (Inl e, tree) \<Rightarrow> (Inl e, en\<lparr>enTree := tree\<rparr>)
      | (Inr u, tree) \<Rightarrow>
        let en1 = en\<lparr>enTree := tree\<rparr> in
        case toUnprocessedEvent n of Inl e \<Rightarrow> (Inl e, en1)
        | Inr ev \<Rightarrow>
          let (wn, pr) = processEvent L ac ring (enProcessor en1) ev;
              en2 = en1\<lparr>enProcessor := pr\<rparr> in
          case wn of None \<Rightarrow> (Inr (), en2) | Some w \<Rightarrow> (Inr (), en2\<lparr>enUtxo := addNote (enUtxo en2) w\<rparr>))"

fun scanOnce :: "libs \<Rightarrow> account \<Rightarrow> ring \<Rightarrow> engine \<Rightarrow> indexerNote list \<Rightarrow> unit result \<times> engine" where
  "scanOnce L ac ring en [] = (Inr (), en)"
| "scanOnce L ac ring en (n # ns) =
     (case scanNote L ac ring en n of (Inl e, en') \<Rightarrow> (Inl e, en') | (Inr u, en') \<Rightarrow> scanOnce L ac ring en' ns)"

text \<open>Both lookaheads; the answer says whether one of them advanced.\<close>

definition lookaheads :: "libs \<Rightarrow> account \<Rightarrow> engine \<Rightarrow> int \<Rightarrow> bool result \<times> engine" where
  "lookaheads L ac en window =
     (let setKeys = (\<lambda>kr. en\<lparr>enProcessor := (enProcessor en)\<lparr>prKeys := kr\<rparr>\<rparr>) in
      case ensureSelfLookahead L ac (prKeys (enProcessor en)) window of
        (Inl e, kr) \<Rightarrow> (Inl e, setKeys kr)
      | (Inr ext1, kr) \<Rightarrow>
        (case ensureIncomingLookahead L ac kr window of
           (Inl e, kr') \<Rightarrow> (Inl e, setKeys kr')
         | (Inr ext2, kr') \<Rightarrow> (Inr (ext1 \<or> ext2), setKeys kr')))"

fun passLoop :: "libs \<Rightarrow> account \<Rightarrow> ring \<Rightarrow> indexerNote list \<Rightarrow> int \<Rightarrow> nat \<Rightarrow> engine \<Rightarrow> unit result \<times> engine" where
  "passLoop L ac ring notes window 0 en = (Inr (), en)"
| "passLoop L ac ring notes window (Suc passes) en =
     (case scanOnce L ac ring en notes of (Inl e, en1) \<Rightarrow> (Inl e, en1)
      | (Inr u, en1) \<Rightarrow>
        (case lookaheads L ac en1 window of (Inl e, en2) \<Rightarrow> (Inl e, en2)
         | (Inr ext, en2) \<Rightarrow> if \<not> ext then (Inr (), en2) else passLoop L ac ring notes window passes en2))"

definition scanPasses :: "libs \<Rightarrow> account \<Rightarrow> ring \<Rightarrow> (int \<Rightarrow> indexerNote list result) \<Rightarrow> engine \<Rightarrow> int \<Rightarrow> int \<Rightarrow> unit result \<times> engine" where
  "scanPasses L ac ring fetchNotes en fromLeafIndex window =
     (case lookaheads L ac en window of (Inl e, en1) \<Rightarrow> (Inl e, en1)
      | (Inr ext, en1) \<Rightarrow>
        (case fetchNotes fromLeafIndex of Inl e \<Rightarrow> (Inl e, en1)
         | Inr notes \<Rightarrow> passLoop L ac ring notes window 64 en1))"

definition syncWallet :: "libs \<Rightarrow> account \<Rightarrow> ring \<Rightarrow> (int \<Rightarrow> indexerNote list result) \<Rightarrow> int \<Rightarrow> engine \<Rightarrow> int \<Rightarrow> unit result \<times> engine" where
  "syncWallet L ac ring fetchNotes lookaheadWindow en fromLeafIndex =
     scanPasses L ac ring fetchNotes en fromLeafIndex lookaheadWindow"

definition probeWallet :: "libs \<Rightarrow> account \<Rightarrow> ring \<Rightarrow> (int \<Rightarrow> indexerNote list result) \<Rightarrow> int \<Rightarrow> engine \<Rightarrow> int \<Rightarrow> int \<Rightarrow> bool result \<times> engine" where
  "probeWallet L ac ring fetchNotes lookaheadWindow en fromLeafIndex extraWindow =
     (let before = length (getAllNotes (enUtxo en)) in
      case scanPasses L ac ring fetchNotes en fromLeafIndex (lookaheadWindow + extraWindow) of
        (Inl e, en') \<Rightarrow> (Inl e, en')
      | (Inr u, en') \<Rightarrow> (Inr (before < length (getAllNotes (enUtxo en'))), en'))"

section \<open>Recovering a note from its posting\<close>

text \<open>A field element as the indexer prints it.\<close>

definition hex32 :: "int \<Rightarrow> string" where
  "hex32 v = ''0x'' @ padStart0 64 (toHexDigits (nat v))"

lemma BigIntOf_hex32 [simp]: "0 \<le> v \<Longrightarrow> BigIntOf (hex32 v) = Inr v"
  unfolding hex32_def by (rule BigIntOf_printed)

lemma toFrText_hex32 [simp]: "fr_laws L \<Longrightarrow> isFr v \<Longrightarrow> toFrText L (hex32 v) = Inr v"
  by (simp add: toFrText_def toFr_def isFr_def [of v])

lemma mapR_hex32: "fr_laws L \<Longrightarrow> list_all isFr vs \<Longrightarrow> mapR (toFrText L) (map hex32 vs) = Inr vs"
  by (induction vs) simp_all

lemma recoverNote_posted:
  assumes L: "fr_laws L" and f: "list_all isFr (noteFields n)" and psi: "notePsi n = poseidon2Hash L [cek, PSI_DOMAIN]"
    and ct: "demEncrypt L cek (noteFields n) = Inr ct" and lf: "leaf L n = Inr c"
    and ty: "noteType n = NOTE_TYPE_STANDARD" "noteOwner n \<noteq> 0" "assetId n < ASSET_MODULUS"
    and own: "pubkeyOwner L (publicKey L sk) = Inr (noteOwner n)" and li: "isFr li"
  shows "recoverNote L cek (map hex32 ct) c li sk inc idx
    = Inr (RNote \<lparr>wnNote = n, wnCommitment = c, wnLeafIndex = li, wnNullifier = poseidon2Hash L [notePsi n, li],
        wnSpendScalar = sk, wnIsIncoming = inc, wnDerivationIndex = idx, wnSpent = False\<rparr>)"
proof -
  note len = noteFields_length [of n]
  have ct': "list_all isFr ct" using demEncrypt_ok [OF L len] ct L by (auto simp: list_all_iff)
  have dec: "demDecrypt L cek ct = Inr (noteFields n)" using dem_inverts [OF L len f, of cek] ct by simp
  have n: "\<lparr>noteVersion = noteVersion n, assetId = assetId n, noteType = noteType n, conditionsHash = conditionsHash n,
      noteValue = noteValue n, noteOwner = noteOwner n, notePsi = notePsi n, noteParents = noteParents n\<rparr> = n" by simp
  show ?thesis
    unfolding recoverNote_def mapR_hex32 [OF L ct'] bindR.simps dec computePsi_ok [OF L] Let_def noteFields_nth psi [symmetric] n lf
    using ty own li L by (simp add: computeNullifier_def Poseidon_hash_def)
qed

text \<open>Keys tried before the right one are passed over.\<close>

definition passedOver :: "libs \<Rightarrow> int \<Rightarrow> int \<Rightarrow> unprocessedEvent \<Rightarrow> int \<Rightarrow> int \<Rightarrow> complianceKeyEpoch \<Rightarrow> bool" where
  "passedOver L eph index ev commitment sk e \<longleftrightarrow>
     (case deriveCek L eph (epPk e) of Inl x \<Rightarrow> False
      | Inr cek \<Rightarrow> (case recoverNote L cek (evPackedCiphertext ev) commitment (evLeafIndex ev) sk False index of
          Inl x \<Rightarrow> True | Inr r \<Rightarrow> r = LeafMismatch))"

lemma tryKeys_skip:
  "list_all (passedOver L eph index ev c sk) pre \<Longrightarrow>
    tryKeys L eph index ev c sk (pre @ rest) = tryKeys L eph index ev c sk rest"
  by (induction pre) (auto simp: passedOver_def split: sum.splits)

section \<open>The store of notes\<close>

definition utxoWf :: "utxoRepo \<Rightarrow> bool" where
  "utxoWf repo \<longleftrightarrow> distinct (map fst repo) \<and> (\<forall>(k, n)\<in>set repo. wnNullifier n = k)"

definition spentIn :: "utxoRepo \<Rightarrow> int \<Rightarrow> bool" where
  "spentIn repo k \<longleftrightarrow> (case map_of repo k of None \<Rightarrow> False | Some n \<Rightarrow> wnSpent n)"

lemma mapSet_keys: "set (map fst (mapSet k v m)) = insert k (set (map fst m))"
  by (induction k v m rule: mapSet.induct) auto

lemma mapSet_distinct: "distinct (map fst m) \<Longrightarrow> distinct (map fst (mapSet k v m))"
proof (induction k v m rule: mapSet.induct)
  case (2 k v k' v' m)
  then show ?case using mapSet_keys [of k v m] by auto
qed simp

lemma map_of_mapSet: "map_of (mapSet k v m) = (map_of m)(k \<mapsto> v)"
  by (induction k v m rule: mapSet.induct) (auto simp: fun_eq_iff)

lemma mapSet_set: "set (mapSet k v m) \<subseteq> insert (k, v) (set m)"
  by (induction k v m rule: mapSet.induct) auto

lemma utxoWf_mapSet: "utxoWf repo \<Longrightarrow> wnNullifier n = k \<Longrightarrow> utxoWf (mapSet k n repo)"
  using mapSet_set [of k n repo] by (auto simp: utxoWf_def mapSet_distinct)

lemma utxoWf_lookup: "utxoWf repo \<Longrightarrow> map_of repo k = Some n \<Longrightarrow> wnNullifier n = k"
  by (auto simp: utxoWf_def dest: map_of_SomeD)

lemma addNote_wf: "utxoWf repo \<Longrightarrow> utxoWf (addNote repo n)"
  by (auto simp: addNote_def utxoWf_mapSet split: option.splits)

lemma markSpent_wf: "utxoWf repo \<Longrightarrow> utxoWf (snd (markSpent repo k))"
  using utxoWf_lookup [of repo k] by (auto simp: markSpent_def intro!: utxoWf_mapSet split: option.splits)

datatype utxoOp = OpAdd walletNote | OpMarkSpent int

fun runUtxo :: "utxoRepo \<Rightarrow> utxoOp list \<Rightarrow> utxoRepo" where
  "runUtxo repo [] = repo"
| "runUtxo repo (OpAdd n # ops) = runUtxo (addNote repo n) ops"
| "runUtxo repo (OpMarkSpent k # ops) = runUtxo (snd (markSpent repo k)) ops"

lemma runUtxo_wf: "utxoWf repo \<Longrightarrow> utxoWf (runUtxo repo ops)"
  by (induction repo ops rule: runUtxo.induct) (simp_all add: addNote_wf markSpent_wf)

lemma addNote_spent: "spentIn repo k \<Longrightarrow> spentIn (addNote repo n) k"
  by (auto simp: spentIn_def addNote_def map_of_mapSet split: option.splits)

lemma markSpent_spent: "spentIn repo k \<Longrightarrow> spentIn (snd (markSpent repo k')) k"
  by (auto simp: spentIn_def markSpent_def map_of_mapSet split: option.splits)

lemma runUtxo_spent: "spentIn repo k \<Longrightarrow> spentIn (runUtxo repo ops) k"
  by (induction repo ops rule: runUtxo.induct) (simp_all add: addNote_spent markSpent_spent)

text \<open>The unspent nullifiers of an asset.\<close>

definition unspentKeys :: "utxoRepo \<Rightarrow> int option \<Rightarrow> int set" where
  "unspentKeys repo want = {k. \<exists>n. map_of repo k = Some n \<and> \<not> wnSpent n \<and> (\<forall>a. want = Some a \<longrightarrow> assetId (wnNote n) = a)}"

definition valueAt :: "utxoRepo \<Rightarrow> int \<Rightarrow> int" where
  "valueAt repo k = noteValue (wnNote (the (map_of repo k)))"

definition counted :: "int option \<Rightarrow> walletNote \<Rightarrow> bool" where
  "counted want n \<longleftrightarrow> \<not> wnSpent n \<and> (\<forall>a. want = Some a \<longrightarrow> assetId (wnNote n) = a)"

lemma getBalance_sum_list: "getBalance repo want = sum_list (map (\<lambda>n. noteValue (wnNote n)) (filter (counted want) (map snd repo)))"
proof -
  have "fold (\<lambda>n total. case want of Some a \<Rightarrow> if assetId (wnNote n) \<noteq> a then total else total + noteValue (wnNote n)
      | None \<Rightarrow> total + noteValue (wnNote n)) (filter (\<lambda>n. \<not> wnSpent n) ns) t
    = t + sum_list (map (\<lambda>n. noteValue (wnNote n)) (filter (counted want) ns))" for ns t
    by (induction ns arbitrary: t) (auto simp: counted_def split: option.splits)
  then show ?thesis by (simp add: getBalance_def getUnspentNotes_def)
qed

lemma getBalance_sum:
  assumes "utxoWf repo"
  shows "getBalance repo want = (\<Sum>k\<in>unspentKeys repo want. valueAt repo k)"
proof -
  have d: "distinct (map fst repo)" using assms by (simp add: utxoWf_def)
  have k: "unspentKeys repo want = set (map fst (filter (\<lambda>p. counted want (snd p)) repo))"
    using map_of_eq_Some_iff [OF d] by (force simp: unspentKeys_def counted_def)
  have dk: "distinct (map fst (filter (\<lambda>p. counted want (snd p)) repo))" using d by (simp add: distinct_map_filter)
  have "map (\<lambda>n. noteValue (wnNote n)) (filter (counted want) (map snd repo))
      = map (valueAt repo) (map fst (filter (\<lambda>p. counted want (snd p)) repo))"
    using map_of_is_SomeI [OF d] by (auto simp: filter_map valueAt_def comp_def)
  then show ?thesis
    unfolding getBalance_sum_list k using sum_list_distinct_conv_sum_set [OF dk, of "valueAt repo"] by simp
qed

section \<open>Properties\<close>

text \<open>accounting.  Over any sequence of \<open>addNote\<close> and \<open>markSpent\<close> calls on a well-formed store (each
  note once, under its nullifier), the store stays well-formed, a nullifier that was spent stays spent
  (re-scanning a note never revives it), and the balance is the sum of the values of the unspent
  nullifiers of the asset, each counted once.\<close>

theorem utxo_accounting:
  assumes "utxoWf repo"
  shows "utxoWf (runUtxo repo ops) \<and> (\<forall>k. spentIn repo k \<longrightarrow> spentIn (runUtxo repo ops) k)
    \<and> getBalance (runUtxo repo ops) want = (\<Sum>k\<in>unspentKeys (runUtxo repo ops) want. valueAt (runUtxo repo ops) k)"
  using runUtxo_wf [OF assms] runUtxo_spent getBalance_sum by blast

definition toyWalletNote :: "int \<Rightarrow> int \<Rightarrow> walletNote" where
  "toyWalletNote k v = \<lparr>wnNote = \<lparr>noteVersion = 1, assetId = 9, noteType = 0, conditionsHash = 0, noteValue = v,
      noteOwner = 4, notePsi = 5, noteParents = 0\<rparr>, wnCommitment = 1, wnLeafIndex = 1, wnNullifier = k,
      wnSpendScalar = 2, wnIsIncoming = False, wnDerivationIndex = 0, wnSpent = False\<rparr>"

theorem utxo_accounting_witness:
  "utxoWf (runUtxo [] [OpAdd (toyWalletNote 3 10), OpMarkSpent 3, OpAdd (toyWalletNote 3 10), OpAdd (toyWalletNote 4 7)])
    \<and> getBalance (runUtxo [] [OpAdd (toyWalletNote 3 10), OpMarkSpent 3, OpAdd (toyWalletNote 3 10), OpAdd (toyWalletNote 4 7)]) (Some 9) = 7"
proof -
  have "utxoWf []" by (simp add: utxoWf_def)
  moreover have "getBalance (runUtxo [] [OpAdd (toyWalletNote 3 10), OpMarkSpent 3, OpAdd (toyWalletNote 3 10), OpAdd (toyWalletNote 4 7)]) (Some 9) = 7"
    by code_simp
  ultimately show ?thesis using utxo_accounting by blast
qed

text \<open>The indexer's row for a minted self note: its commitment, its tag (the x-coordinate of the public
  ephemeral) and its ciphertext.\<close>

definition postedSelf :: "mintedNote \<Rightarrow> int list \<Rightarrow> int \<Rightarrow> string \<Rightarrow> indexerNote" where
  "postedSelf m ct i root = \<lparr>inLeafIndex = i, inLeaf = hex32 (mCommitment m), inEphPubX = hex32 (mTag m),
     inTag = None, inCekWrap = None, inCiphertext = map hex32 ct, inRoot = root\<rparr>"

definition postedEvent :: "mintedNote \<Rightarrow> int list \<Rightarrow> int \<Rightarrow> string \<Rightarrow> unprocessedEvent" where
  "postedEvent m ct i root = \<lparr>evType = NEW_NOTE, evBlockNumber = i, evTxHash = root, evLeafIndex = i,
     evCommitment = hex32 (mCommitment m), evEphemeralX = mTag m, evPackedCiphertext = map hex32 ct,
     evTag = None, evCekWrap = None\<rparr>"

text \<open>C15: scanning finds what was minted.  Let \<open>mintSelfNote\<close> mint a note under the compliance key
  \<open>pk\<close>, and let its seven fields be encrypted and posted.  If the registry knows the ephemeral's tag, and
  every candidate key tried before \<open>pk\<close> fails to open the note, then the row of the indexer is decoded and
  processed to exactly the minted note with its commitment, leaf index, nullifier and spend key, unspent;
  the count of unopenable notes does not change.\<close>

theorem scan_recovers_minted_note:
  assumes L: "bjj_laws L" "fr_laws L" and eph: "0 < eph" "eph < subOrder L" and pk: "inSubgroupNonId L pk"
    and v: "0 \<le> value" "value < 2 ^ 128" and a: "0 \<le> asset" "asset < 2 ^ 160" and par: "isFr parents" and sk: "0 \<le> sk"
    and m: "mintSelfNote L eph value sk asset pk parents = Inr m" and own: "noteOwner (mNote m) \<noteq> 0"
    and ct: "demEncrypt L (mCek m) (noteFields (mNote m)) = Inr ct" and i: "isFr i"
    and reg: "krSelfMap (prKeys pr) (mTag m) = Some (eph, index)" and ac: "acSelfSpendKey ac = Inr sk"
    and cand: "candidatesFor ring (Some i) = pre @ e # post" "epPk e = pk"
      "list_all (passedOver L eph index (postedEvent m ct i root) (mCommitment m) sk) pre"
  shows "\<exists>w pr'. bindR (toUnprocessedEvent (postedSelf m ct i root)) (\<lambda>ev. Inr (processEvent L ac ring pr ev)) = Inr (Some w, pr')
    \<and> wnNote w = mNote m \<and> wnCommitment w = mCommitment m \<and> wnLeafIndex w = i \<and> wnSpendScalar w = sk \<and> \<not> wnSpent w
    \<and> getNullifierHash L (mPsi m) i = Inr (wnNullifier w) \<and> prUnopenable pr' = prUnopenable pr"
proof -
  let ?ev = "postedEvent m ct i root"
  let ?o = "poseidon2Hash L [fst (publicKey L sk), snd (publicKey L sk)]"
  have o: "pubkeyOwner L (publicKey L sk) = Inr ?o" by (rule pubkeyOwner_ok [OF L publicKey_mem [OF L(1) sk]])
  have fin: "finishMint L eph value ?o asset sk parents pk = Inr m" using m o by (simp add: mintSelfNote_def)
  have mm: "mCek m = fst (mulPointEscalar L pk eph)" "mNote m = mintedPlain L (mCek m) value ?o asset parents"
    "leaf L (mNote m) = Inr (mCommitment m)" "mPsi m = notePsi (mNote m)" "mTag m = fst (publicKey L eph)"
    using finishMint_ok [OF L eph pk v, of ?o asset sk parents] fin by auto
  have f: "list_all isFr (noteFields (mNote m))"
    using v a par L(2) u128_isFr [OF v]
    by (simp add: mm(2) mintedPlain_def noteFields_def NOTE_VERSION_def NOTE_TYPE_STANDARD_def) (simp add: isFr_def BN254_P_def)
  have tag: "isFr (mTag m)" unfolding mm(5) using bjj_coords [OF L(1) publicKey_mem [OF L(1), of eph]] eph by simp
  have c: "isFr (mCommitment m)"
    using mm(3) leaf_ok [OF L(2), of "mNote m"] v fr_laws_hash [OF L(2)] by (simp add: mm(2) mintedPlain_def)
  have cek: "deriveCek L eph pk = Inr (mCek m)" using deriveCek_ok(1) [OF L eph pk] mm(1) by simp
  let ?w = "\<lparr>wnNote = mNote m, wnCommitment = mCommitment m, wnLeafIndex = i, wnNullifier = poseidon2Hash L [notePsi (mNote m), i],
      wnSpendScalar = sk, wnIsIncoming = False, wnDerivationIndex = index, wnSpent = False\<rparr>"
  have r: "recoverNote L (mCek m) (map hex32 ct) (mCommitment m) i sk False index = Inr (RNote ?w)"
    by (rule recoverNote_posted [OF L(2) f _ ct mm(3) _ own _ _ i])
      (use o a in \<open>simp_all add: mm(2) mintedPlain_def ASSET_MODULUS_def\<close>)
  have "tryKeys L eph index ?ev (mCommitment m) sk (candidatesFor ring (Some i)) = Inr (Some (Some ?w))"
    unfolding cand(1) tryKeys_skip [OF cand(3)] using cand(2) cek r by (simp add: postedEvent_def)
  moreover obtain kr where "matchSelfTag L (prKeys pr) (mTag m) = (Inr (Some (eph, index)), kr)"
    using reg tag L(2) by (simp add: matchSelfTag_def tagKey_def)
  ultimately have p: "processEvent L ac ring pr ?ev = (Some ?w, pr\<lparr>prKeys := kr\<rparr>)"
    using ac c L(2) by (simp add: processEvent_def processNewNote_def postedEvent_def)
  have "toUnprocessedEvent (postedSelf m ct i root) = Inr ?ev"
    using tag by (simp add: toUnprocessedEvent_def postedSelf_def postedEvent_def isFr_def)
  then show ?thesis using p i L(2) mm(4) by (simp add: getNullifierHash_def computeNullifier_def Poseidon_hash_def)
qed

definition toyMint :: mintedNote where
  "toyMint = \<lparr>mNote = \<lparr>noteVersion = 1, assetId = 9, noteType = 0, conditionsHash = 0, noteValue = 50, noteOwner = 88,
      notePsi = 30, noteParents = 0\<rparr>, mCommitment = 1, mEph = 3, mEphPub = (3, 2), mCek = 2, mPsi = 30,
      mSpendScalar = 2, mTag = 3, mInPub = None, mCekWrap = None\<rparr>"

definition toyEpochs :: ring where
  "toyEpochs = [\<lparr>epVersion = 1, epPk = (5, 2), epFromBlock = Some 0\<rparr>]"

definition toyProcessor :: processor where
  "toyProcessor = \<lparr>prKeys = newKeyRepo\<lparr>krSelfMap := [3 \<mapsto> (3, 2)]\<rparr>, prUnopenable = 0\<rparr>"

theorem scan_recovers_minted_note_witness:
  "mintSelfNote toyLibs 3 50 2 9 (5, 2) 0 = Inr toyMint
    \<and> (\<exists>w pr'. bindR (toUnprocessedEvent (postedSelf toyMint [72, 81, 73, 74, 125, 164, 77] 6 ''0x00''))
        (\<lambda>ev. Inr (processEvent toyLibs toyAccount toyEpochs toyProcessor ev)) = Inr (Some w, pr')
      \<and> wnNote w = mNote toyMint \<and> wnLeafIndex w = 6 \<and> \<not> wnSpent w)"
proof -
  have m: "mintSelfNote toyLibs 3 50 2 9 (5, 2) 0 = Inr toyMint" by code_simp
  have pk: "inSubgroupNonId toyLibs (5, 2)" by code_simp
  have ct: "demEncrypt toyLibs (mCek toyMint) (noteFields (mNote toyMint)) = Inr [72, 81, 73, 74, 125, 164, 77]" by code_simp
  have cand: "candidatesFor toyEpochs (Some 6) = [] @ \<lparr>epVersion = 1, epPk = (5, 2), epFromBlock = Some 0\<rparr> # []" by code_simp
  have "\<exists>w pr'. bindR (toUnprocessedEvent (postedSelf toyMint [72, 81, 73, 74, 125, 164, 77] 6 ''0x00''))
        (\<lambda>ev. Inr (processEvent toyLibs toyAccount toyEpochs toyProcessor ev)) = Inr (Some w, pr')
    \<and> wnNote w = mNote toyMint \<and> wnCommitment w = mCommitment toyMint \<and> wnLeafIndex w = 6 \<and> wnSpendScalar w = 2 \<and> \<not> wnSpent w
    \<and> getNullifierHash toyLibs (mPsi toyMint) 6 = Inr (wnNullifier w) \<and> prUnopenable pr' = prUnopenable toyProcessor"
    by (rule scan_recovers_minted_note [OF toyLibs_bjj_laws toyLibs_fr_laws _ _ pk _ _ _ _ _ _ m _ ct _ _ _ cand])
      (simp_all add: toyLibs_def toyMint_def toyProcessor_def toyAccount_def isFr_small)
  then show ?thesis using m by blast
qed

end
