(* ===== verification/Plan.thy ===== *)
theory Plan
  imports Prelude "HOL-Library.Multiset"
begin

text \<open>
  \<open>tx/plan.ts\<close>: the spend planner.  One note is spent when a single note covers the target, otherwise
  a covering set is joined pairwise first.  The reference is an execution of the steps on the wallet's
  notes, in which every step must find its inputs and balance.
\<close>

section \<open>Data\<close>

record plannableNote =
  pnLeafIndex :: int
  pnAssetId :: string
  pnValue :: int

datatype planOp = JOIN | WITHDRAW | TRANSFER | SPLIT

record planStep =
  psOp :: planOp
  psInputs :: "int list"
  psOutgoing :: int
  psChange :: int

record actionPlan =
  apSteps :: "planStep list"
  apJoinsRequired :: int
  apTotalSelected :: int

record planPolicy =
  dustFloor :: int
  maxSteps :: int

definition DEFAULT_PLAN_POLICY :: planPolicy where
  "DEFAULT_PLAN_POLICY = \<lparr>dustFloor = 0, maxSteps = 8\<rparr>"

section \<open>Operations\<close>

text \<open>The stable sort by value and then leaf index.\<close>

definition forAsset :: "plannableNote list \<Rightarrow> string \<Rightarrow> plannableNote list" where
  "forAsset notes asset =
     sort_key pnValue (sort_key pnLeafIndex (filter (\<lambda>n. pnAssetId n = asset \<and> 0 < pnValue n) notes))"

definition joinStep :: "plannableNote \<Rightarrow> plannableNote \<Rightarrow> planStep" where
  "joinStep a b =
     (let (lo, hi) = (if pnLeafIndex a < pnLeafIndex b then (a, b) else (b, a)) in
      \<lparr>psOp = JOIN, psInputs = [pnLeafIndex lo, pnLeafIndex hi], psOutgoing = 0, psChange = pnValue lo + pnValue hi\<rparr>)"

fun bestFitLoop :: "int \<Rightarrow> planPolicy \<Rightarrow> plannableNote option \<Rightarrow> plannableNote list \<Rightarrow> plannableNote option" where
  "bestFitLoop target policy dusty [] = dusty"
| "bestFitLoop target policy dusty (n # ns) =
     (if pnValue n < target then bestFitLoop target policy dusty ns
      else let change = pnValue n - target in
        if 0 < change \<and> change < dustFloor policy
        then bestFitLoop target policy (case dusty of None \<Rightarrow> Some n | Some d \<Rightarrow> Some d) ns
        else Some n)"

definition bestFit :: "plannableNote list \<Rightarrow> int \<Rightarrow> planPolicy \<Rightarrow> plannableNote option" where
  "bestFit candidates target policy = bestFitLoop target policy None candidates"

definition sumValues :: "plannableNote list \<Rightarrow> int" where
  "sumValues ns = fold (\<lambda>n acc. acc + pnValue n) ns 0"

text \<open>The \<open>while\<close> loop: how many of the largest notes reach the target, and their sum.\<close>

fun coverCount :: "int \<Rightarrow> nat \<Rightarrow> int \<Rightarrow> plannableNote list \<Rightarrow> nat \<times> int" where
  "coverCount target k s [] = (k, s)"
| "coverCount target k s (n # ns) = (if s < target then coverCount target (k + 1) (s + pnValue n) ns else (k, s))"

definition windows :: "nat \<Rightarrow> 'a list \<Rightarrow> 'a list list" where
  "windows k xs = map (\<lambda>start. take k (drop start xs)) [0..<Suc (length xs) - k]"

fun bestWindow :: "int \<Rightarrow> (plannableNote list \<times> int) option \<Rightarrow> plannableNote list list \<Rightarrow> (plannableNote list \<times> int) option" where
  "bestWindow target best [] = best"
| "bestWindow target best (w # ws) =
     (let wsum = sumValues w in
      bestWindow target
        (if target \<le> wsum \<and> (case best of None \<Rightarrow> True | Some (b, bsum) \<Rightarrow> wsum < bsum) then Some (w, wsum) else best) ws)"

definition minimalCover :: "plannableNote list \<Rightarrow> int \<Rightarrow> plannableNote list option" where
  "minimalCover candidates target =
     (let desc = rev candidates; (k, s) = coverCount target 0 0 desc in
      if s < target then None
      else Some (case bestWindow target None (windows k candidates) of None \<Rightarrow> take k desc | Some (b, bsum) \<Rightarrow> b))"

text \<open>The joins, folding the ordered cover into a running note whose index \<open>-1\<close> stands for the output
  of the previous step.\<close>

fun joinLoop :: "string \<Rightarrow> plannableNote \<Rightarrow> plannableNote list \<Rightarrow> planStep list \<times> plannableNote" where
  "joinLoop asset merged [] = ([], merged)"
| "joinLoop asset merged (n # ns) =
     (let step = joinStep merged n;
          (steps, final) = joinLoop asset \<lparr>pnLeafIndex = - 1, pnAssetId = asset, pnValue = psChange step\<rparr> ns
      in (step # steps, final))"

record spendIntent =
  siOp :: planOp
  siAssetId :: string
  siTarget :: int

definition planSpend :: "plannableNote list \<Rightarrow> spendIntent \<Rightarrow> planPolicy \<Rightarrow> actionPlan result" where
  "planSpend notes intent policy =
     (if siTarget intent \<le> 0 then Inl (PlanError ''NON_POSITIVE_TARGET'')
      else let candidates = forAsset notes (siAssetId intent) in
      if length candidates = 0 then Inl (PlanError ''NO_NOTES_FOR_ASSET'')
      else case bestFit candidates (siTarget intent) policy of
        Some single \<Rightarrow> Inr \<lparr>apSteps = [\<lparr>psOp = siOp intent, psInputs = [pnLeafIndex single],
            psOutgoing = siTarget intent, psChange = pnValue single - siTarget intent\<rparr>],
          apJoinsRequired = 0, apTotalSelected = pnValue single\<rparr>
      | None \<Rightarrow>
        (case minimalCover candidates (siTarget intent) of
           None \<Rightarrow> Inl (PlanError ''INSUFFICIENT_TOTAL'')
         | Some cover \<Rightarrow>
           let ordered = sort_key pnLeafIndex cover;
               (joins, merged) = joinLoop (siAssetId intent) (hd ordered) (tl ordered);
               totalSelected = sumValues cover;
               steps = joins @ [\<lparr>psOp = siOp intent, psInputs = [pnLeafIndex merged],
                 psOutgoing = siTarget intent, psChange = totalSelected - siTarget intent\<rparr>] in
           if maxSteps policy < int (length steps) then Inl (PlanError ''EXCEEDS_MAX_STEPS'')
           else Inr \<lparr>apSteps = steps, apJoinsRequired = int (length cover) - 1, apTotalSelected = totalSelected\<rparr>))"

record balances =
  baTotal :: int
  baInOneTx :: int
  baWithPlan :: int

definition spendableBalance :: "plannableNote list \<Rightarrow> string \<Rightarrow> planPolicy \<Rightarrow> balances" where
  "spendableBalance notes asset policy =
     (let candidates = forAsset notes asset in
      \<lparr>baTotal = sumValues candidates,
       baInOneTx = fold (\<lambda>n a. if a < pnValue n then pnValue n else a) candidates 0,
       baWithPlan = sumValues (take (nat (max 1 (maxSteps policy))) (rev candidates))\<rparr>)"

section \<open>Executing a plan\<close>

text \<open>The wallet is a map from leaf index to value; \<open>prev\<close> is the output of the previous step, named by
  the index \<open>-1\<close>.  A step takes its inputs away, must balance, and leaves its change as the next \<open>prev\<close>.\<close>

fun takeInput :: "(int \<rightharpoonup> int) \<times> int option \<Rightarrow> int \<Rightarrow> (int \<times> (int \<rightharpoonup> int) \<times> int option) option" where
  "takeInput (vals, prev) i =
     (if i = - 1 then map_option (\<lambda>v. (v, vals, None)) prev
      else map_option (\<lambda>v. (v, vals(i := None), prev)) (vals i))"

fun takeInputs :: "(int \<rightharpoonup> int) \<times> int option \<Rightarrow> int list \<Rightarrow> (int \<times> (int \<rightharpoonup> int) \<times> int option) option" where
  "takeInputs st [] = Some (0, st)"
| "takeInputs st (i # is) =
     (case takeInput st i of None \<Rightarrow> None
      | Some (v, st') \<Rightarrow> map_option (\<lambda>(s, st''). (v + s, st'')) (takeInputs st' is))"

fun execPlan :: "(int \<rightharpoonup> int) \<times> int option \<Rightarrow> planStep list \<Rightarrow> ((int \<rightharpoonup> int) \<times> int option) option" where
  "execPlan st [] = Some st"
| "execPlan st (step # steps) =
     (case takeInputs st (psInputs step) of None \<Rightarrow> None
      | Some (paid, vals, prev) \<Rightarrow>
        if prev \<noteq> None \<or> paid \<noteq> psOutgoing step + psChange step \<or> psChange step < 0 then None
        else execPlan (vals, Some (psChange step)) steps)"

definition walletOf :: "plannableNote list \<Rightarrow> int \<rightharpoonup> int" where
  "walletOf ns = map_of (map (\<lambda>n. (pnLeafIndex n, pnValue n)) ns)"

section \<open>Selection\<close>

lemma sumValues_eq: "sumValues ns = sum_list (map pnValue ns)"
proof -
  have "fold (\<lambda>n acc. acc + pnValue n) ns a = a + sum_list (map pnValue ns)" for a
    by (induction ns arbitrary: a) simp_all
  then show ?thesis by (simp add: sumValues_def)
qed

lemma forAsset_set: "set (forAsset notes a) = {n \<in> set notes. pnAssetId n = a \<and> 0 < pnValue n}"
  by (simp add: forAsset_def)

lemma forAsset_mset: "mset (forAsset notes a) = mset (filter (\<lambda>n. pnAssetId n = a \<and> 0 < pnValue n) notes)"
  by (simp add: forAsset_def)

lemma bestFit_Some:
  assumes "bestFitLoop t p d ns = Some n" "\<And>x. d = Some x \<Longrightarrow> t \<le> pnValue x \<and> x \<in> S" "set ns \<subseteq> S"
  shows "n \<in> S \<and> t \<le> pnValue n"
  using assms
proof (induction ns arbitrary: d)
  case (Cons m ns)
  let ?c = "pnValue m - t"
  consider "pnValue m < t" | "t \<le> pnValue m" "0 < ?c \<and> ?c < dustFloor p" | "t \<le> pnValue m" "\<not> (0 < ?c \<and> ?c < dustFloor p)" by linarith
  then show ?case
  proof cases
    case 1
    show ?thesis by (rule Cons.IH [of d]) (use Cons.prems 1 in simp_all)
  next
    case 2
    show ?thesis
      by (rule Cons.IH [of "case d of None \<Rightarrow> Some m | Some x \<Rightarrow> Some x"])
        (use Cons.prems 2 in \<open>auto simp: Let_def split: option.splits\<close>)
  next
    case 3
    then have "bestFitLoop t p d (m # ns) = Some m" by (auto simp: Let_def)
    then show ?thesis using Cons.prems 3 by simp
  qed
qed simp

lemma bestFit_None: "bestFitLoop t p d ns = None \<Longrightarrow> d = None \<and> (\<forall>n\<in>set ns. pnValue n < t)"
  by (induction t p d ns rule: bestFitLoop.induct) (auto simp: Let_def split: if_splits option.splits)

lemma coverCount_spec:
  assumes "coverCount t k s ns = (k', s')"
  shows "\<exists>j. k' = k + j \<and> s' = s + sum_list (map pnValue (take j ns)) \<and> (t \<le> s' \<or> j = length ns)"
  using assms
proof (induction t k s ns rule: coverCount.induct)
  case (2 t k s n ns)
  show ?case
  proof (cases "s < t")
    case True
    then have "coverCount t (k + 1) (s + pnValue n) ns = (k', s')" using "2.prems" by simp
    from "2.IH" [OF True this] obtain j where "k' = k + 1 + j"
      "s' = s + pnValue n + sum_list (map pnValue (take j ns))" "t \<le> s' \<or> j = length ns" by blast
    then have "k' = k + Suc j \<and> s' = s + sum_list (map pnValue (take (Suc j) (n # ns))) \<and> (t \<le> s' \<or> Suc j = length (n # ns))" by auto
    then show ?thesis by blast
  next
    case False
    then show ?thesis using "2.prems" by (intro exI [of _ 0]) simp
  qed
qed simp

lemma coverCount_start:
  assumes "coverCount t 0 0 ns = (k, s)"
  shows "s = sum_list (map pnValue (take k ns)) \<and> (t \<le> s \<or> k = length ns)"
proof -
  from coverCount_spec [OF assms] obtain j where j: "k = 0 + j" "s = 0 + sum_list (map pnValue (take j ns))" "t \<le> s \<or> j = length ns" by blast
  have "j = k" using j(1) by simp
  with j(2,3) show ?thesis by (simp only: add_0)
qed

lemma bestWindow_Some:
  assumes "bestWindow t best ws = Some (b, bs)" "\<And>x y. best = Some (x, y) \<Longrightarrow> t \<le> sumValues x \<and> x \<in> S" "set ws \<subseteq> S"
  shows "t \<le> sumValues b \<and> b \<in> S"
  using assms
proof (induction t best ws rule: bestWindow.induct)
  case (2 t best w ws)
  let ?best = "if t \<le> sumValues w \<and> (case best of None \<Rightarrow> True | Some (b, bsum) \<Rightarrow> sumValues w < bsum) then Some (w, sumValues w) else best"
  have "bestWindow t ?best ws = Some (b, bs)" using "2.prems"(1) by (simp only: bestWindow.simps Let_def)
  moreover have "t \<le> sumValues x \<and> x \<in> S" if "?best = Some (x, y)" for x y
    using that "2.prems"(2) [of x y] "2.prems"(3) by (metis list.set_intros(1) option.inject prod.inject subsetD)
  moreover have "set ws \<subseteq> S" using "2.prems"(3) by simp
  ultimately show ?case by (rule "2.IH" [OF refl])
qed auto

lemma windows_mset: "w \<in> set (windows k xs) \<Longrightarrow> mset w \<subseteq># mset xs"
proof -
  have "mset (take k (drop i xs)) \<subseteq># mset xs" for i
    by (metis append_take_drop_id mset_append mset_subset_eq_add_left mset_subset_eq_add_right subset_mset.order_trans)
  then show "w \<in> set (windows k xs) \<Longrightarrow> ?thesis" by (auto simp: windows_def)
qed

lemma minimalCover_Some:
  assumes "minimalCover cs t = Some c"
  shows "t \<le> sumValues c \<and> mset c \<subseteq># mset cs"
proof -
  obtain k s where ks: "coverCount t 0 0 (rev cs) = (k, s)" by fastforce
  have s: "\<not> s < t" using assms ks by (auto simp: minimalCover_def split: if_splits)
  show ?thesis
  proof (cases "bestWindow t None (windows k cs)")
    case None
    then have c: "c = take k (rev cs)" using assms ks s by (simp add: minimalCover_def)
    have "s = sum_list (map pnValue (take k (rev cs)))" using coverCount_start [OF ks] by blast
    moreover have "mset c \<subseteq># mset (rev cs)" unfolding c by (metis append_take_drop_id mset_append mset_subset_eq_add_left)
    ultimately show ?thesis using s by (simp add: sumValues_eq c)
  next
    case (Some p)
    then obtain bs where "bestWindow t None (windows k cs) = Some (c, bs)" using assms ks s by (cases p) (simp add: minimalCover_def)
    from bestWindow_Some [OF this, of "set (windows k cs)"] show ?thesis using windows_mset by auto
  qed
qed

lemma minimalCover_None: "minimalCover cs t = None \<longleftrightarrow> sum_list (map pnValue cs) < t" if "\<forall>n\<in>set cs. 0 < pnValue n"
proof -
  obtain k s where ks: "coverCount t 0 0 (rev cs) = (k, s)" by fastforce
  have j: "s = sum_list (map pnValue (take k (rev cs)))" "t \<le> s \<or> k = length cs"
    using coverCount_start [OF ks] unfolding length_rev by blast+
  have "0 \<le> sum_list (map pnValue (drop k (rev cs)))" using that by (intro sum_list_nonneg) (auto dest!: in_set_dropD intro: less_imp_le)
  moreover have "sum_list (map pnValue (rev cs)) = sum_list (map pnValue (take k (rev cs))) + sum_list (map pnValue (drop k (rev cs)))"
    by (metis append_take_drop_id map_append sum_list.append)
  moreover have "sum_list (map pnValue (rev cs)) = sum_list (map pnValue cs)" by (metis rev_map sum_list_rev)
  ultimately have sum: "sum_list (map pnValue cs) = s + sum_list (map pnValue (drop k (rev cs)))" "s \<le> sum_list (map pnValue cs)"
    using j(1) by linarith+
  have "s < t \<longleftrightarrow> sum_list (map pnValue cs) < t"
  proof
    assume "s < t"
    then have "drop k (rev cs) = []" using j(2) by auto
    then show "sum_list (map pnValue cs) < t" using sum \<open>s < t\<close> by simp
  next
    assume "sum_list (map pnValue cs) < t"
    then show "s < t" using sum(2) by linarith
  qed
  then show ?thesis using ks by (simp add: minimalCover_def)
qed

section \<open>Execution of the joins\<close>

lemma execPlan_append: "execPlan st (xs @ ys) = Option.bind (execPlan st xs) (\<lambda>st'. execPlan st' ys)"
  by (induction st xs rule: execPlan.induct) (auto split: option.splits prod.splits)

definition removeAll :: "plannableNote list \<Rightarrow> (int \<rightharpoonup> int) \<Rightarrow> int \<rightharpoonup> int" where
  "removeAll ns vals = (\<lambda>i. if i \<in> pnLeafIndex ` set ns then None else vals i)"

definition holds :: "(int \<rightharpoonup> int) \<Rightarrow> plannableNote list \<Rightarrow> bool" where
  "holds vals ns \<longleftrightarrow> distinct (map pnLeafIndex ns) \<and> (\<forall>n\<in>set ns. 0 \<le> pnLeafIndex n \<and> vals (pnLeafIndex n) = Some (pnValue n) \<and> 0 < pnValue n)"

lemma holds_Cons: "holds vals (n # ns) \<Longrightarrow> holds (vals(pnLeafIndex n := None)) ns
    \<and> 0 \<le> pnLeafIndex n \<and> vals (pnLeafIndex n) = Some (pnValue n) \<and> 0 < pnValue n"
  unfolding holds_def by (auto simp: image_iff)

lemma removeAll_Cons: "removeAll ns (vals(pnLeafIndex n := None)) = removeAll (n # ns) vals"
  by (auto simp: removeAll_def fun_eq_iff)

text \<open>Joining onto the output of the previous step.\<close>

lemma joinLoop_exec:
  assumes "holds vals ns" "pnLeafIndex merged = - 1" "0 \<le> pnValue merged" "joinLoop a merged ns = (steps, final)"
  shows "execPlan (vals, Some (pnValue merged)) steps = Some (removeAll ns vals, Some (pnValue final))
    \<and> pnLeafIndex final = - 1 \<and> pnValue final = pnValue merged + sumValues ns \<and> length steps = length ns
    \<and> (\<forall>st\<in>set steps. psOp st = JOIN \<and> psOutgoing st = 0)"
  using assms
proof (induction ns arbitrary: vals merged steps)
  case Nil
  then show ?case by (simp add: removeAll_def sumValues_eq)
next
  case (Cons n ns)
  let ?m = "\<lparr>pnLeafIndex = - 1, pnAssetId = a, pnValue = pnValue merged + pnValue n\<rparr>"
  note h = holds_Cons [OF Cons.prems(1)]
  have step: "joinStep merged n = \<lparr>psOp = JOIN, psInputs = [- 1, pnLeafIndex n], psOutgoing = 0, psChange = pnValue merged + pnValue n\<rparr>"
    using h Cons.prems(2) by (simp add: joinStep_def)
  obtain rest where rest: "joinLoop a ?m ns = (rest, final)" "steps = joinStep merged n # rest"
    using Cons.prems(4) step by (cases "joinLoop a ?m ns") (simp add: Let_def)
  have "execPlan (vals(pnLeafIndex n := None), Some (pnValue ?m)) rest
      = Some (removeAll ns (vals(pnLeafIndex n := None)), Some (pnValue final))
    \<and> pnLeafIndex final = - 1 \<and> pnValue final = pnValue ?m + sumValues ns \<and> length rest = length ns
    \<and> (\<forall>st\<in>set rest. psOp st = JOIN \<and> psOutgoing st = 0)"
    by (rule Cons.IH [OF conjunct1 [OF h] _ _ rest(1)]) (use h Cons.prems(3) in simp_all)
  moreover have "pnLeafIndex n \<noteq> - 1" using h by linarith
  ultimately show ?case
    unfolding rest(2) step using h Cons.prems(3) by (simp add: removeAll_Cons sumValues_eq)
qed

lemma walletOf_lookup:
  assumes "distinct (map pnLeafIndex ns)" "n \<in> set ns"
  shows "walletOf ns (pnLeafIndex n) = Some (pnValue n)"
  unfolding walletOf_def using assms by (intro map_of_is_SomeI) (auto simp: comp_def)

lemma candidates_hold:
  assumes "distinct (map pnLeafIndex notes)" "\<forall>n\<in>set notes. 0 \<le> pnLeafIndex n"
  shows "holds (walletOf (forAsset notes a)) (forAsset notes a)"
proof -
  have d: "distinct (map pnLeafIndex (filter P notes))" for P using assms(1) by (simp add: distinct_map_filter)
  have "mset (map pnLeafIndex (forAsset notes a)) = mset (map pnLeafIndex (filter (\<lambda>n. pnAssetId n = a \<and> 0 < pnValue n) notes))"
    by (simp add: forAsset_mset)
  then have "distinct (map pnLeafIndex (forAsset notes a))" using d mset_eq_imp_distinct_iff by blast
  then show ?thesis using assms(2) walletOf_lookup [of "forAsset notes a"] by (auto simp: holds_def forAsset_set)
qed

lemma holds_sub:
  assumes "holds vals cs" "mset c \<subseteq># mset cs"
  shows "holds vals c"
proof -
  have "mset (map pnLeafIndex c) \<subseteq># mset (map pnLeafIndex cs)" using assms(2) by (simp add: image_mset_subseteq_mono)
  then obtain ys where "mset (map pnLeafIndex cs) = mset (map pnLeafIndex c @ ys)"
    by (metis ex_mset mset_append subset_mset.add_diff_inverse)
  moreover have "distinct (map pnLeafIndex cs)" using assms(1) by (simp add: holds_def)
  ultimately have "distinct (map pnLeafIndex c @ ys)" using mset_eq_imp_distinct_iff by blast
  moreover have "set c \<subseteq> set cs" using set_mset_mono [OF assms(2)] by simp
  ultimately show ?thesis using assms(1) by (auto simp: holds_def)
qed

text \<open>The joins of an ordered cover and the spend of the merged note.\<close>

lemma cover_exec:
  assumes h: "holds vals (m # ns)" and o: "sorted (map pnLeafIndex (m # ns))" and j: "joinLoop a m ns = (joins, final)"
    and t: "t \<le> sumValues (m # ns)"
  shows "execPlan (vals, None) (joins @ [\<lparr>psOp = op, psInputs = [pnLeafIndex final], psOutgoing = t, psChange = sumValues (m # ns) - t\<rparr>])
      = Some (removeAll (m # ns) vals, Some (sumValues (m # ns) - t))
    \<and> length joins = length ns \<and> (\<forall>st\<in>set joins. psOp st = JOIN \<and> psOutgoing st = 0)"
proof (cases ns)
  case Nil
  have "pnLeafIndex m \<noteq> - 1" using holds_Cons [OF h] by linarith
  then show ?thesis using Nil j h t by (auto simp: holds_def sumValues_eq removeAll_def fun_eq_iff)
next
  case (Cons n rest)
  note h1 = holds_Cons [OF h]
  let ?v = "vals(pnLeafIndex m := None, pnLeafIndex n := None)"
  let ?m = "\<lparr>pnLeafIndex = - 1, pnAssetId = a, pnValue = pnValue m + pnValue n\<rparr>"
  have hn: "holds (vals(pnLeafIndex m := None)) (n # rest)" using h1 Cons by simp
  note h2 = holds_Cons [OF hn]
  have ne: "pnLeafIndex m < pnLeafIndex n" using h o Cons by (auto simp: holds_def order.order_iff_strict)
  have step: "joinStep m n = \<lparr>psOp = JOIN, psInputs = [pnLeafIndex m, pnLeafIndex n], psOutgoing = 0, psChange = pnValue m + pnValue n\<rparr>"
    using ne by (simp add: joinStep_def)
  obtain js where js: "joinLoop a ?m rest = (js, final)" "joins = joinStep m n # js"
    using j Cons step by (cases "joinLoop a ?m rest") (simp add: Let_def)
  have e: "execPlan (?v, Some (pnValue ?m)) js = Some (removeAll rest ?v, Some (pnValue final))
    \<and> pnLeafIndex final = - 1 \<and> pnValue final = pnValue ?m + sumValues rest \<and> length js = length rest
    \<and> (\<forall>st\<in>set js. psOp st = JOIN \<and> psOutgoing st = 0)"
    by (rule joinLoop_exec [OF conjunct1 [OF h2] _ _ js(1)]) (use h1 h2 in simp_all)
  have nn: "pnLeafIndex m \<noteq> - 1" "pnLeafIndex n \<noteq> - 1" "vals (pnLeafIndex n) = Some (pnValue n)"
    using h1 h2 ne by (auto split: if_splits)
  have first: "execPlan (vals, None) (joinStep m n # js) = execPlan (?v, Some (pnValue ?m)) js"
    unfolding step using h1 h2 nn ne by simp
  have rm: "removeAll rest ?v = removeAll (m # ns) vals" by (simp add: removeAll_Cons Cons)
  have sum: "pnValue final = sumValues (m # ns)" using e Cons by (simp add: sumValues_eq)
  let ?last = "\<lparr>psOp = op, psInputs = [pnLeafIndex final], psOutgoing = t, psChange = sumValues (m # ns) - t\<rparr>"
  have "execPlan (vals, None) (joins @ [?last]) = execPlan (removeAll (m # ns) vals, Some (sumValues (m # ns))) [?last]"
    unfolding js(2) execPlan_append first using e rm sum by simp
  also have "\<dots> = Some (removeAll (m # ns) vals, Some (sumValues (m # ns) - t))" using e t by simp
  finally show ?thesis using e js(2) step Cons by simp
qed

lemma removeAll_le: "removeAll ns vals \<subseteq>\<^sub>m vals"
  by (auto simp: removeAll_def map_le_def split: if_splits)

lemma planSpend_cover:
  assumes "planSpend notes intent policy = Inr plan" "bestFit (forAsset notes (siAssetId intent)) (siTarget intent) policy = None"
  obtains cover m ns joins final where
    "minimalCover (forAsset notes (siAssetId intent)) (siTarget intent) = Some cover"
    "sort_key pnLeafIndex cover = m # ns" "joinLoop (siAssetId intent) m ns = (joins, final)"
    "plan = \<lparr>apSteps = joins @ [\<lparr>psOp = siOp intent, psInputs = [pnLeafIndex final], psOutgoing = siTarget intent,
        psChange = sumValues cover - siTarget intent\<rparr>], apJoinsRequired = int (length cover) - 1, apTotalSelected = sumValues cover\<rparr>"
    "int (length joins) < maxSteps policy"
proof -
  let ?cs = "forAsset notes (siAssetId intent)" and ?t = "siTarget intent"
  have t: "0 < ?t" and ne: "?cs \<noteq> []" using assms(1) by (auto simp: planSpend_def split: if_splits)
  obtain cover where c: "minimalCover ?cs ?t = Some cover"
    using assms t ne by (cases "minimalCover ?cs ?t") (simp_all add: planSpend_def Let_def)
  have "cover \<noteq> []" using minimalCover_Some [OF c] t by (auto simp: sumValues_def)
  then obtain m ns where o: "sort_key pnLeafIndex cover = m # ns"
    by (metis length_0_conv length_sort list.exhaust)
  obtain joins final where j: "joinLoop (siAssetId intent) m ns = (joins, final)" by fastforce
  show thesis
    by (rule that [OF c o j]) (use assms t ne c o j in \<open>auto simp: planSpend_def Let_def split: if_splits\<close>)
qed

section \<open>Properties\<close>

text \<open>C21: a plan can be executed and pays the target.  On notes with distinct leaf indices, running
  the steps of a plan on the notes of the asset succeeds: every step finds its inputs (the index \<open>-1\<close>
  being the output of the step before), no step uses a note twice, every step balances with non-negative
  change, and what is left is the change.  All steps but the last are joins that pay nothing out, the
  last pays exactly the target, and a plan with joins respects the limit on steps.\<close>

theorem plan_spend_executes:
  assumes "distinct (map pnLeafIndex notes)" "\<forall>n\<in>set notes. 0 \<le> pnLeafIndex n" "planSpend notes intent policy = Inr plan"
  shows "\<exists>vals joins final. execPlan (walletOf (forAsset notes (siAssetId intent)), None) (apSteps plan)
        = Some (vals, Some (apTotalSelected plan - siTarget intent))
    \<and> vals \<subseteq>\<^sub>m walletOf (forAsset notes (siAssetId intent))
    \<and> apSteps plan = joins @ [final] \<and> psOp final = siOp intent \<and> psOutgoing final = siTarget intent
    \<and> (\<forall>st\<in>set joins. psOp st = JOIN \<and> psOutgoing st = 0) \<and> apJoinsRequired plan = int (length joins)
    \<and> (joins \<noteq> [] \<longrightarrow> int (length (apSteps plan)) \<le> maxSteps policy)"
proof -
  let ?cs = "forAsset notes (siAssetId intent)" and ?t = "siTarget intent"
  note h = candidates_hold [OF assms(1,2), of "siAssetId intent"]
  show ?thesis
  proof (cases "bestFit ?cs ?t policy")
    case (Some n)
    have n: "n \<in> set ?cs" "?t \<le> pnValue n"
      using bestFit_Some [of ?t policy None ?cs n "set ?cs"] Some by (simp_all add: bestFit_def)
    have w: "walletOf ?cs (pnLeafIndex n) = Some (pnValue n)" "pnLeafIndex n \<noteq> - 1" using h n(1) by (auto simp: holds_def)
    have "plan = \<lparr>apSteps = [\<lparr>psOp = siOp intent, psInputs = [pnLeafIndex n], psOutgoing = ?t, psChange = pnValue n - ?t\<rparr>],
        apJoinsRequired = 0, apTotalSelected = pnValue n\<rparr>"
      using assms(3) Some by (auto simp: planSpend_def Let_def split: if_splits)
    then show ?thesis using w n(2) by (simp add: map_le_def)
  next
    case None
    obtain cover m ns joins final where c: "minimalCover ?cs ?t = Some cover" "sort_key pnLeafIndex cover = m # ns"
      "joinLoop (siAssetId intent) m ns = (joins, final)"
      and p: "plan = \<lparr>apSteps = joins @ [\<lparr>psOp = siOp intent, psInputs = [pnLeafIndex final], psOutgoing = ?t,
        psChange = sumValues cover - ?t\<rparr>], apJoinsRequired = int (length cover) - 1, apTotalSelected = sumValues cover\<rparr>"
      and mx: "int (length joins) < maxSteps policy"
      by (rule planSpend_cover [OF assms(3) None])
    have mset: "mset (m # ns) = mset cover" by (metis c(2) mset_sort)
    then have sum: "sumValues (m # ns) = sumValues cover" "length (m # ns) = length cover"
      by (simp_all only: sumValues_eq sum_mset_sum_list [symmetric] mset_map size_mset [symmetric])
    have hc: "holds (walletOf ?cs) (m # ns)"
      using holds_sub [OF h, of "m # ns"] minimalCover_Some [OF c(1)] mset by metis
    have o: "sorted (map pnLeafIndex (m # ns))" by (metis c(2) sorted_sort_key)
    have t: "?t \<le> sumValues (m # ns)" using minimalCover_Some [OF c(1)] sum by simp
    note e = cover_exec [OF hc o c(3) t, of "siOp intent", unfolded sum(1)]
    show ?thesis
      using e mx sum(2) removeAll_le [of "m # ns" "walletOf ?cs"] unfolding p by (intro exI conjI) (auto simp: p)
  qed
qed

definition toyNotes :: "plannableNote list" where
  "toyNotes = [\<lparr>pnLeafIndex = 4, pnAssetId = ''A'', pnValue = 5\<rparr>, \<lparr>pnLeafIndex = 1, pnAssetId = ''A'', pnValue = 10\<rparr>,
     \<lparr>pnLeafIndex = 2, pnAssetId = ''B'', pnValue = 50\<rparr>, \<lparr>pnLeafIndex = 3, pnAssetId = ''A'', pnValue = 4\<rparr>,
     \<lparr>pnLeafIndex = 7, pnAssetId = ''A'', pnValue = 1\<rparr>]"

definition toyPlan :: actionPlan where
  "toyPlan = \<lparr>apSteps = [\<lparr>psOp = JOIN, psInputs = [1, 4], psOutgoing = 0, psChange = 15\<rparr>,
       \<lparr>psOp = WITHDRAW, psInputs = [- 1], psOutgoing = 11, psChange = 4\<rparr>], apJoinsRequired = 1, apTotalSelected = 15\<rparr>"

theorem plan_spend_executes_witness:
  "planSpend toyNotes \<lparr>siOp = WITHDRAW, siAssetId = ''A'', siTarget = 11\<rparr> DEFAULT_PLAN_POLICY = Inr toyPlan
    \<and> (\<exists>vals. execPlan (walletOf (forAsset toyNotes ''A''), None) (apSteps toyPlan) = Some (vals, Some 4))"
proof -
  have p: "planSpend toyNotes \<lparr>siOp = WITHDRAW, siAssetId = ''A'', siTarget = 11\<rparr> DEFAULT_PLAN_POLICY = Inr toyPlan" by code_simp
  have "distinct (map pnLeafIndex toyNotes)" "\<forall>n\<in>set toyNotes. 0 \<le> pnLeafIndex n" by code_simp+
  from plan_spend_executes [OF this p] show ?thesis using p by (auto simp: toyPlan_def)
qed

text \<open>when planning fails.  The four outcomes are decided by the target, the notes of the asset
  and the limit: a non-positive target and an asset without notes are refused; otherwise the total is
  insufficient exactly when it is below the target, and with a sufficient total the only other refusal
  is the limit on steps.\<close>

theorem plan_spend_outcome:
  "planSpend notes intent policy = Inl e \<longleftrightarrow>
     (if siTarget intent \<le> 0 then e = PlanError ''NON_POSITIVE_TARGET''
      else if forAsset notes (siAssetId intent) = [] then e = PlanError ''NO_NOTES_FOR_ASSET''
      else if sum_list (map pnValue (forAsset notes (siAssetId intent))) < siTarget intent then e = PlanError ''INSUFFICIENT_TOTAL''
      else planSpend notes intent policy = Inl (PlanError ''EXCEEDS_MAX_STEPS'') \<and> e = PlanError ''EXCEEDS_MAX_STEPS'')"
proof -
  let ?cs = "forAsset notes (siAssetId intent)" and ?t = "siTarget intent"
  have pos: "\<forall>n\<in>set ?cs. 0 < pnValue n" by (simp add: forAsset_set)
  have small: "bestFit ?cs ?t policy = None" if "sum_list (map pnValue ?cs) < ?t"
  proof (cases "bestFit ?cs ?t policy")
    case (Some n)
    then have "n \<in> set ?cs" "?t \<le> pnValue n" using bestFit_Some [of ?t policy None ?cs n "set ?cs"] by (simp_all add: bestFit_def)
    moreover have "pnValue n \<le> sum_list (map pnValue ?cs)"
      using pos \<open>n \<in> set ?cs\<close> by (intro member_le_sum_list) (auto intro: less_imp_le)
    ultimately show ?thesis using that by simp
  qed
  show ?thesis
  proof (cases "0 < ?t \<and> ?cs \<noteq> []")
    case False
    then show ?thesis by (auto simp: planSpend_def Let_def)
  next
    case True
    then show ?thesis
      using minimalCover_None [OF pos, of ?t] small
      by (cases "sum_list (map pnValue ?cs) < ?t"; cases "bestFit ?cs ?t policy"; cases "minimalCover ?cs ?t")
        (auto simp: planSpend_def Let_def split: prod.splits if_splits)
  qed
qed

lemma cover_not_smallest:
  "minimalCover (forAsset toyNotes ''A'') 11 = Some [\<lparr>pnLeafIndex = 4, pnAssetId = ''A'', pnValue = 5\<rparr>, \<lparr>pnLeafIndex = 1, pnAssetId = ''A'', pnValue = 10\<rparr>]
    \<and> {\<lparr>pnLeafIndex = 7, pnAssetId = ''A'', pnValue = 1\<rparr>, \<lparr>pnLeafIndex = 1, pnAssetId = ''A'', pnValue = 10\<rparr>} \<subseteq> set (forAsset toyNotes ''A'')"
  by code_simp

end
