(* ===== verification/EventDecode.thy ===== *)
theory EventDecode
  imports JsText
begin

text \<open>
  \<open>events/decode.ts\<close>, \<open>events/logScope.ts\<close> and \<open>events/types.ts\<close> of the indexer: the Borsh decoder driven
  by an interface description, the scoping of log lines to the frames of one program, and the events of
  the pool.  The reference for the decoder is an encoder of typed values, that for the scoping a tree of
  invocations.
\<close>

section \<open>Interface descriptions and values\<close>

datatype idlType = TU8 | TU16 | TU32 | TU64 | TBool | TArray idlType nat | TOption idlType | TDefined string

datatype idlValue = VNum int | VBool bool | VBytes "byte list" | VList "idlValue list" | VNull

record idlTypeDef =
  tdName :: string
  tdFields :: "(string \<times> idlType) list"

text \<open>The reader is the rest of the buffer.\<close>

definition takeBytes :: "nat \<Rightarrow> byte list \<Rightarrow> (byte list \<times> byte list) result" where
  "takeBytes n buf =
     (if length buf < n then Inl (EventDecodeError ''unexpected end of event data'')
      else Inr (take n buf, drop n buf))"

definition readU8 :: "byte list \<Rightarrow> (nat \<times> byte list) result" where
  "readU8 buf = bindR (takeBytes 1 buf) (\<lambda>(b, rest). Inr (b ! 0, rest))"

text \<open>\<open>(b0 | b1 << 8 | b2 << 16 | b3 << 24) >>> 0\<close>: the signed 32-bit value read as unsigned.\<close>

definition readU32 :: "byte list \<Rightarrow> (int \<times> byte list) result" where
  "readU32 buf = bindR (takeBytes 4 buf) (\<lambda>(b, rest). Inr (bytesLE b, rest))"

definition readU64 :: "byte list \<Rightarrow> (int \<times> byte list) result" where
  "readU64 buf = bindR (takeBytes 8 buf) (\<lambda>(b, rest). Inr (bytesLE b, rest))"

fun repeatR :: "nat \<Rightarrow> ('s \<Rightarrow> ('a \<times> 's) result) \<Rightarrow> 's \<Rightarrow> ('a list \<times> 's) result" where
  "repeatR 0 f s = Inr ([], s)"
| "repeatR (Suc n) f s = bindR (f s) (\<lambda>(x, s'). bindR (repeatR n f s') (\<lambda>(xs, s''). Inr (x # xs, s'')))"

primrec decodeValue :: "idlType \<Rightarrow> byte list \<Rightarrow> (idlValue \<times> byte list) result" where
  "decodeValue TU8 r = bindR (readU8 r) (\<lambda>(b, r'). Inr (VNum (int b), r'))"
| "decodeValue TU16 r = Inl (EventDecodeError ''u16 decoding not implemented'')"
| "decodeValue TU32 r = bindR (readU32 r) (\<lambda>(v, r'). Inr (VNum v, r'))"
| "decodeValue TU64 r = bindR (readU64 r) (\<lambda>(v, r'). Inr (VNum v, r'))"
| "decodeValue TBool r = bindR (readU8 r) (\<lambda>(b, r'). Inr (VBool (b \<noteq> 0), r'))"
| "decodeValue (TArray elem len) r =
     (if elem = TU8 then bindR (takeBytes len r) (\<lambda>(bs, r'). Inr (VBytes bs, r'))
      else bindR (repeatR len (decodeValue elem) r) (\<lambda>(vs, r'). Inr (VList vs, r')))"
| "decodeValue (TOption t) r =
     bindR (readU8 r) (\<lambda>(tag, r').
       if tag = 0 then Inr (VNull, r') else if tag = 1 then decodeValue t r'
       else Inl (EventDecodeError ''invalid Option tag byte''))"
| "decodeValue (TDefined d) r = Inl (EventDecodeError ''unsupported defined type reference'')"

record decodedEvent =
  deName :: string
  deFields :: "(string \<times> idlValue) list"

fun decodeFields :: "(string \<times> idlType) list \<Rightarrow> byte list \<Rightarrow> (string \<times> idlValue) list result" where
  "decodeFields [] r = Inr []"
| "decodeFields ((name, ty) # fs) r =
     bindR (decodeValue ty r) (\<lambda>(v, r'). bindR (decodeFields fs r') (\<lambda>vs. Inr ((name, v) # vs)))"

definition decodeBody :: "idlTypeDef list \<Rightarrow> string \<Rightarrow> byte list \<Rightarrow> decodedEvent result" where
  "decodeBody types eventName body =
     (case find (\<lambda>t. tdName t = eventName) types of
        None \<Rightarrow> Inl (EventDecodeError ''IDL has no type definition for event'')
      | Some td \<Rightarrow> bindR (decodeFields (tdFields td) body) (\<lambda>fields. Inr \<lparr>deName = eventName, deFields = fields\<rparr>))"

section \<open>Log lines\<close>

text \<open>\<open>Buffer.from(text, "base64")\<close>: both alphabets, other characters skipped, decoding ends at \<open>=\<close>.\<close>

definition sextet :: "char \<Rightarrow> nat option" where
  "sextet c =
     (let n = of_char c :: nat in
      if 65 \<le> n \<and> n \<le> 90 then Some (n - 65) else if 97 \<le> n \<and> n \<le> 122 then Some (n - 71)
      else if 48 \<le> n \<and> n \<le> 57 then Some (n + 4)
      else if n = 43 \<or> n = 45 then Some 62 else if n = 47 \<or> n = 95 then Some 63 else None)"

fun sextetBytes :: "nat list \<Rightarrow> byte list" where
  "sextetBytes (a # b # c # d # rest) =
     [a * 4 + b div 16, (b mod 16) * 16 + c div 4, (c mod 4) * 64 + d] @ sextetBytes rest"
| "sextetBytes [a, b, c] = [a * 4 + b div 16, (b mod 16) * 16 + c div 4]"
| "sextetBytes [a, b] = [a * 4 + b div 16]"
| "sextetBytes _ = []"

definition fromBase64 :: "string \<Rightarrow> byte list" where
  "fromBase64 s = sextetBytes (List.map_filter sextet (takeWhile (\<lambda>c. c \<noteq> CHR ''='') s))"

definition PROGRAM_DATA_PREFIX :: string where "PROGRAM_DATA_PREFIX = ''Program data: ''"
definition KAKURE_EVENT_TAG_PREFIX :: string where "KAKURE_EVENT_TAG_PREFIX = ''kakure:''"

definition decodeSolLogDataFields :: "idlTypeDef list \<Rightarrow> string list \<Rightarrow> decodedEvent result" where
  "decodeSolLogDataFields types toks =
     (if length toks < 2 then Inl (EventDecodeError ''sol_log_data event needs at least 2 base64 fields (tag, body)'')
      else let tag = map char_of (fromBase64 (toks ! 0)); bodyBytes = fromBase64 (toks ! 1) in
        if \<not> startsWith tag KAKURE_EVENT_TAG_PREFIX then Inl (EventDecodeError ''not a kakure event tag'')
        else decodeBody types (drop (length KAKURE_EVENT_TAG_PREFIX) tag) bodyBytes)"

text \<open>\<open>text.split(/\s+/)\<close> of a trimmed text; the empty text gives one empty field.\<close>

function splitSpaces :: "string \<Rightarrow> string list" where
  "splitSpaces s =
     (let w = takeWhile (\<lambda>c. \<not> isSpace c) s; rest = dropWhile (\<lambda>c. \<not> isSpace c) s in
      if rest = [] then [w] else w # splitSpaces (dropWhile isSpace rest))"
  by pat_completeness auto
termination
proof (relation "measure length")
  fix s w rest :: string
  assume r: "rest = dropWhile (\<lambda>c. \<not> isSpace c) s" "rest \<noteq> []"
  then have "isSpace (hd rest)" using hd_dropWhile [of "\<lambda>c. \<not> isSpace c" s] by simp
  then have "dropWhile isSpace rest = dropWhile isSpace (tl rest)" using r(2) by (cases rest) simp_all
  then have "length (dropWhile isSpace rest) \<le> length (tl rest)" by (simp only: length_dropWhile_le)
  also have "\<dots> < length rest" using r(2) by simp
  also have "\<dots> \<le> length s" unfolding r(1) by (rule length_dropWhile_le)
  finally show "(dropWhile isSpace rest, s) \<in> measure length" by simp
qed simp

declare splitSpaces.simps [simp del]

definition decodeProgramDataLine :: "idlTypeDef list \<Rightarrow> string \<Rightarrow> decodedEvent option result" where
  "decodeProgramDataLine types line =
     (if \<not> startsWith line PROGRAM_DATA_PREFIX then Inr None
      else bindR (decodeSolLogDataFields types (splitSpaces (trim (drop (length PROGRAM_DATA_PREFIX) line))))
        (\<lambda>e. Inr (Some e)))"

text \<open>The regular expressions \<open>/^Program (\S+) invoke \[\d+\]$/\<close> and \<open>/^Program (\S+) (success|failed)/\<close>:
  the program name they capture.\<close>

definition isDigit :: "char \<Rightarrow> bool" where
  "isDigit c \<longleftrightarrow> digitVal 10 c \<noteq> None"

definition afterProgram :: "string \<Rightarrow> (string \<times> string) option" where
  "afterProgram line =
     (if startsWith line ''Program '' then
        let s = drop 8 line; name = takeWhile (\<lambda>c. \<not> isSpace c) s in
        if name = [] then None else Some (name, drop (length name) s)
      else None)"

definition invokeRe :: "string \<Rightarrow> string option" where
  "invokeRe line =
     (case afterProgram line of None \<Rightarrow> None
      | Some (name, rest) \<Rightarrow>
        let ds = drop 9 rest in
        if startsWith rest '' invoke ['' \<and> 2 \<le> length ds \<and> last ds = CHR '']'' \<and> list_all isDigit (butlast ds)
        then Some name else None)"

definition endRe :: "string \<Rightarrow> string option" where
  "endRe line =
     (case afterProgram line of None \<Rightarrow> None
      | Some (name, rest) \<Rightarrow>
        if startsWith rest '' success'' \<or> startsWith rest '' failed'' then Some name else None)"

text \<open>\<open>stack.lastIndexOf(name)\<close> followed by cutting the stack there; the stack grows at its end.\<close>

definition cutStack :: "string \<Rightarrow> string list \<Rightarrow> string list" where
  "cutStack name stack =
     (if name \<in> set stack then rev (tl (dropWhile (\<lambda>x. x \<noteq> name) (rev stack))) else stack)"

fun scopeLoop :: "string \<Rightarrow> string list \<Rightarrow> string list \<Rightarrow> string list" where
  "scopeLoop programId stack [] = []"
| "scopeLoop programId stack (line # ls) =
     (case invokeRe line of Some name \<Rightarrow> scopeLoop programId (stack @ [name]) ls
      | None \<Rightarrow>
        (case endRe line of Some name \<Rightarrow> scopeLoop programId (cutStack name stack) ls
         | None \<Rightarrow>
           if startsWith line ''Program data: '' \<and> stack \<noteq> [] \<and> last stack = programId
           then line # scopeLoop programId stack ls
           else scopeLoop programId stack ls))"

definition programDataLinesFor :: "string list \<Rightarrow> string \<Rightarrow> string list" where
  "programDataLinesFor logMessages programId = scopeLoop programId [] logMessages"

section \<open>The pool's events\<close>

record noteInserted =
  niLeafIndex :: int
  niLeaf :: string
  niEphPubX :: string
  niTag :: "string option"
  niCekWrap :: "string option"
  niCiphertext :: "string list"
  niRoot :: string

datatype poolEvent =
    NoteInserted noteInserted
  | NullifierSpent string
  | ComplianceKeyRotated int int string string

definition toHex :: "idlValue option \<Rightarrow> string result" where
  "toHex v = (case v of Some (VBytes bs) \<Rightarrow> Inr (''0x'' @ bytesHex bs)
     | _ \<Rightarrow> Inl (EventDecodeError ''expected a byte array field''))"

definition toHexOrNull :: "idlValue option \<Rightarrow> string option result" where
  "toHexOrNull v = (if v = Some VNull then Inr None else bindR (toHex v) (\<lambda>s. Inr (Some s)))"

definition toHexArray :: "idlValue option \<Rightarrow> string list result" where
  "toHexArray v = (case v of Some (VList vs) \<Rightarrow> mapR (\<lambda>x. toHex (Some x)) vs
     | _ \<Rightarrow> Inl (EventDecodeError ''expected an array field''))"

text \<open>The casts \<open>as bigint\<close> and \<open>as number\<close> are unchecked in the source; a field of another type is
  outside the interface and is refused here.\<close>

definition numField :: "idlValue option \<Rightarrow> int result" where
  "numField v = (case v of Some (VNum n) \<Rightarrow> Inr n | _ \<Rightarrow> Inl (LibraryError ''not a number field''))"

definition toDomainEvent :: "decodedEvent \<Rightarrow> poolEvent result" where
  "toDomainEvent d =
     (let f = map_of (deFields d) in
      if deName d = ''NoteInserted'' then
        bindR (numField (f ''leaf_index'')) (\<lambda>i. bindR (toHex (f ''leaf'')) (\<lambda>l. bindR (toHex (f ''eph_pub_x'')) (\<lambda>x.
        bindR (toHexOrNull (f ''tag'')) (\<lambda>t. bindR (toHexOrNull (f ''cek_wrap'')) (\<lambda>c.
        bindR (toHexArray (f ''ciphertext'')) (\<lambda>ct. bindR (toHex (f ''root'')) (\<lambda>r.
        Inr (NoteInserted \<lparr>niLeafIndex = i, niLeaf = l, niEphPubX = x, niTag = t, niCekWrap = c, niCiphertext = ct, niRoot = r\<rparr>))))))))
      else if deName d = ''NullifierSpent'' then bindR (toHex (f ''nullifier'')) (\<lambda>n. Inr (NullifierSpent n))
      else if deName d = ''ComplianceKeyRotated'' then
        bindR (numField (f ''old_version'')) (\<lambda>ov. bindR (numField (f ''new_version'')) (\<lambda>nv.
        bindR (toHex (f ''x'')) (\<lambda>x. bindR (toHex (f ''y'')) (\<lambda>y. Inr (ComplianceKeyRotated ov nv x y)))))
      else Inl (EventDecodeError ''no domain mapping for event''))"

section \<open>The decoder inverts the encoder\<close>

primrec wellTyped :: "idlType \<Rightarrow> idlValue \<Rightarrow> bool" where
  "wellTyped TU8 v \<longleftrightarrow> (\<exists>n. v = VNum n \<and> 0 \<le> n \<and> n < 256)"
| "wellTyped TU16 v \<longleftrightarrow> False"
| "wellTyped TU32 v \<longleftrightarrow> (\<exists>n. v = VNum n \<and> 0 \<le> n \<and> n < 256 ^ 4)"
| "wellTyped TU64 v \<longleftrightarrow> (\<exists>n. v = VNum n \<and> 0 \<le> n \<and> n < 256 ^ 8)"
| "wellTyped TBool v \<longleftrightarrow> (\<exists>b. v = VBool b)"
| "wellTyped (TArray e n) v \<longleftrightarrow> (if e = TU8 then \<exists>bs. v = VBytes bs \<and> length bs = n
     else \<exists>vs. v = VList vs \<and> length vs = n \<and> list_all (wellTyped e) vs)"
| "wellTyped (TOption t) v \<longleftrightarrow> v = VNull \<or> wellTyped t v"
| "wellTyped (TDefined d) v \<longleftrightarrow> False"

fun numOf :: "idlValue \<Rightarrow> int" where
  "numOf (VNum n) = n"
| "numOf _ = 0"

fun bytesOf :: "idlValue \<Rightarrow> byte list" where
  "bytesOf (VBytes bs) = bs"
| "bytesOf _ = []"

fun listOf :: "idlValue \<Rightarrow> idlValue list" where
  "listOf (VList vs) = vs"
| "listOf _ = []"

primrec encodeValue :: "idlType \<Rightarrow> idlValue \<Rightarrow> byte list" where
  "encodeValue TU8 v = [nat (numOf v)]"
| "encodeValue TU16 v = []"
| "encodeValue TU32 v = toBytesLE 4 (numOf v)"
| "encodeValue TU64 v = toBytesLE 8 (numOf v)"
| "encodeValue TBool v = [if v = VBool True then 1 else 0]"
| "encodeValue (TArray e n) v = (if e = TU8 then bytesOf v else concat (map (encodeValue e) (listOf v)))"
| "encodeValue (TOption t) v = (if v = VNull then [0] else 1 # encodeValue t v)"
| "encodeValue (TDefined d) v = []"

lemma takeBytes_append: "length xs = n \<Longrightarrow> takeBytes n (xs @ ys) = Inr (xs, ys)"
  by (simp add: takeBytes_def)

lemma readU8_Cons [simp]: "readU8 (b # r) = Inr (b, r)"
  by (simp add: readU8_def takeBytes_def)

lemma repeatR_encoded:
  assumes "\<And>v rest. v \<in> set vs \<Longrightarrow> f (g v @ rest) = Inr (v, rest)"
  shows "repeatR (length vs) f (concat (map g vs) @ rest) = Inr (vs, rest)"
  using assms by (induction vs) simp_all

lemma decodeValue_encoded: "wellTyped t v \<Longrightarrow> decodeValue t (encodeValue t v @ rest) = Inr (v, rest)"
proof (induction t arbitrary: v rest)
  case (TArray e n)
  show ?case
  proof (cases "e = TU8")
    case True
    then show ?thesis using TArray.prems by (auto simp: takeBytes_append)
  next
    case False
    then obtain vs where v: "v = VList vs" "length vs = n" "list_all (wellTyped e) vs" using TArray.prems by auto
    have "repeatR (length vs) (decodeValue e) (concat (map (encodeValue e) vs) @ rest) = Inr (vs, rest)"
      using v(3) TArray.IH by (intro repeatR_encoded) (auto simp: list_all_iff)
    then show ?thesis using False v(1,2) by simp
  qed
next
  case TU32
  then obtain n where "v = VNum n" "0 \<le> n" "n < 256 ^ 4" by auto
  then show ?case by (simp add: readU32_def takeBytes_append bytesLE_toBytesLE toBytesLE_length)
next
  case TU64
  then obtain n where "v = VNum n" "0 \<le> n" "n < 256 ^ 8" by auto
  then show ?case by (simp add: readU64_def takeBytes_append bytesLE_toBytesLE toBytesLE_length)
qed (auto split: if_splits)

definition wellTypedFields :: "(string \<times> idlType) list \<Rightarrow> (string \<times> idlValue) list \<Rightarrow> bool" where
  "wellTypedFields fs vs \<longleftrightarrow> list_all2 (\<lambda>f v. fst f = fst v \<and> wellTyped (snd f) (snd v)) fs vs"

definition encodeFields :: "(string \<times> idlType) list \<Rightarrow> (string \<times> idlValue) list \<Rightarrow> byte list" where
  "encodeFields fs vs = concat (map2 (\<lambda>f v. encodeValue (snd f) (snd v)) fs vs)"

lemma decodeFields_encoded: "wellTypedFields fs vs \<Longrightarrow> decodeFields fs (encodeFields fs vs @ rest) = Inr vs"
  unfolding wellTypedFields_def encodeFields_def
  by (induction fs vs rule: list_all2_induct) (auto simp: decodeValue_encoded)

section \<open>Scoping\<close>

text \<open>What a transaction logs: frames of invocations with plain lines, data lines and nested frames.\<close>

datatype traceItem = PlainLine string | DataLine string | CallFrame string string bool "traceItem list"

definition invokeLine :: "string \<Rightarrow> string \<Rightarrow> string" where
  "invokeLine p depth = ''Program '' @ p @ '' invoke ['' @ depth @ '']''"

definition endLine :: "string \<Rightarrow> bool \<Rightarrow> string" where
  "endLine p ok = ''Program '' @ p @ (if ok then '' success'' else '' failed: error'')"

fun renderItem :: "traceItem \<Rightarrow> string list" where
  "renderItem (PlainLine l) = [l]"
| "renderItem (DataLine l) = [l]"
| "renderItem (CallFrame p depth ok items) = invokeLine p depth # concat (map renderItem items) @ [endLine p ok]"

text \<open>The data lines whose innermost frame runs \<open>programId\<close>; \<open>cur\<close> is the program running the items.\<close>

fun dataLines :: "string \<Rightarrow> string \<Rightarrow> traceItem \<Rightarrow> string list" where
  "dataLines programId cur (PlainLine l) = []"
| "dataLines programId cur (DataLine l) = (if cur = programId then [l] else [])"
| "dataLines programId cur (CallFrame p depth ok items) = concat (map (dataLines programId p) items)"

definition plainLine :: "string \<Rightarrow> bool" where
  "plainLine l \<longleftrightarrow> invokeRe l = None \<and> endRe l = None"

fun wfItem :: "traceItem \<Rightarrow> bool" where
  "wfItem (PlainLine l) \<longleftrightarrow> plainLine l \<and> \<not> startsWith l ''Program data: ''"
| "wfItem (DataLine l) \<longleftrightarrow> plainLine l \<and> startsWith l ''Program data: ''"
| "wfItem (CallFrame p depth ok items) \<longleftrightarrow> p \<noteq> [] \<and> (\<forall>c\<in>set p. \<not> isSpace c) \<and> depth \<noteq> [] \<and> list_all isDigit depth
     \<and> list_all wfItem items"

lemma startsWith_append [simp]: "startsWith (p @ s) p"
  by (simp add: startsWith_def)

lemma takeWhile_name: "(\<forall>c\<in>set p. \<not> isSpace c) \<Longrightarrow> takeWhile (\<lambda>c. \<not> isSpace c) (p @ CHR '' '' # s) = p"
  by (subst takeWhile_append2) (auto simp: isSpace_def)

lemma afterProgram_name:
  assumes "p \<noteq> []" "\<forall>c\<in>set p. \<not> isSpace c"
  shows "afterProgram (''Program '' @ p @ CHR '' '' # s) = Some (p, CHR '' '' # s)"
proof -
  have d: "drop 8 (''Program '' @ p @ CHR '' '' # s) = p @ CHR '' '' # s" by (simp add: eval_nat_numeral)
  have t: "startsWith (''Program '' @ p @ CHR '' '' # s) ''Program ''" by (rule startsWith_append)
  show ?thesis unfolding afterProgram_def Let_def d using t assms takeWhile_name [OF assms(2), of s] by simp
qed

lemma invokeRe_line:
  assumes "p \<noteq> []" "\<forall>c\<in>set p. \<not> isSpace c" "depth \<noteq> []" "list_all isDigit depth"
  shows "invokeRe (invokeLine p depth) = Some p"
proof -
  have e: "invokeLine p depth = ''Program '' @ p @ CHR '' '' # (''invoke ['' @ depth @ '']'')" by (simp add: invokeLine_def)
  have d: "drop 9 (CHR '' '' # (''invoke ['' @ depth @ '']'')) = depth @ '']''" by (simp add: eval_nat_numeral)
  have "startsWith (CHR '' '' # (''invoke ['' @ depth @ '']'')) '' invoke [''" by (simp add: startsWith_def)
  moreover have "2 \<le> length (depth @ '']'')" using assms(3) by (cases depth) simp_all
  ultimately show ?thesis
    unfolding invokeRe_def e afterProgram_name [OF assms(1,2)] using assms(4) by (simp add: d)
qed

lemma endRe_line:
  assumes "p \<noteq> []" "\<forall>c\<in>set p. \<not> isSpace c"
  shows "endRe (endLine p ok) = Some p \<and> invokeRe (endLine p ok) = None"
proof -
  let ?r = "if ok then ''success'' else ''failed: error''"
  have e: "endLine p ok = ''Program '' @ p @ CHR '' '' # ?r" by (simp add: endLine_def)
  show ?thesis
    unfolding endRe_def invokeRe_def e afterProgram_name [OF assms] by (simp add: startsWith_def)
qed

lemma cutStack_last: "cutStack p (stack @ [p]) = stack"
  by (simp add: cutStack_def)

lemma scopeLoop_item:
  "wfItem it \<Longrightarrow> stack \<noteq> [] \<Longrightarrow>
    scopeLoop pid stack (renderItem it @ ls) = dataLines pid (last stack) it @ scopeLoop pid stack ls"
proof (induction it arbitrary: stack ls)
  case (CallFrame p depth ok items)
  have p: "p \<noteq> []" "\<forall>c\<in>set p. \<not> isSpace c" "depth \<noteq> []" "list_all isDigit depth" using CallFrame.prems(1) by simp_all
  have items: "scopeLoop pid (stack @ [p]) (concat (map renderItem xs) @ rest)
      = concat (map (dataLines pid p) xs) @ scopeLoop pid (stack @ [p]) rest" if "set xs \<subseteq> set items" for xs rest
    using that
  proof (induction xs)
    case (Cons x xs)
    then have "wfItem x" using CallFrame.prems(1) by (auto simp: list_all_iff)
    then show ?case using Cons CallFrame.IH [of x "stack @ [p]" "concat (map renderItem xs) @ rest"] by simp
  qed simp
  show ?case
    using items [of items "endLine p ok # ls"] invokeRe_line [OF p] endRe_line [OF p(1,2), of ok] cutStack_last [of p stack] by simp
qed (simp_all add: plainLine_def)

lemma scopeLoop_frames:
  assumes "list_all wfItem frames" "\<forall>f\<in>set frames. \<exists>p d ok items. f = CallFrame p d ok items"
  shows "scopeLoop pid [] (concat (map renderItem frames)) = concat (map (dataLines pid []) frames)"
  using assms
proof (induction frames)
  case (Cons f fs)
  then obtain p d ok items where f: "f = CallFrame p d ok items" by auto
  have p: "p \<noteq> []" "\<forall>c\<in>set p. \<not> isSpace c" "d \<noteq> []" "list_all isDigit d" using Cons.prems(1) f by simp_all
  have "scopeLoop pid [p] (concat (map renderItem xs) @ rest)
      = concat (map (dataLines pid p) xs) @ scopeLoop pid [p] rest" if "list_all wfItem xs" for xs rest
    using that by (induction xs) (simp_all add: scopeLoop_item)
  then show ?case
    using Cons f invokeRe_line [OF p] endRe_line [OF p(1,2), of ok] cutStack_last [of p "[]"] by simp
qed simp

section \<open>Properties\<close>

text \<open>decoding an event body.  For any interface description, a body that starts with the Borsh
  encoding of fields of the described types (nested arrays and options included) is decoded to exactly
  those fields; bytes after it are ignored.\<close>

theorem event_body_round_trip:
  assumes "find (\<lambda>t. tdName t = name) types = Some td" "wellTypedFields (tdFields td) vs"
  shows "decodeBody types name (encodeFields (tdFields td) vs @ rest) = Inr \<lparr>deName = name, deFields = vs\<rparr>"
  using assms by (simp add: decodeBody_def decodeFields_encoded)

definition toyTypes :: "idlTypeDef list" where
  "toyTypes = [\<lparr>tdName = ''E'', tdFields = [(''n'', TU32), (''t'', TOption (TArray TU8 2)), (''a'', TArray TBool 2)]\<rparr>]"

theorem event_body_round_trip_witness:
  "encodeFields (tdFields (hd toyTypes)) [(''n'', VNum 258), (''t'', VBytes [7, 8]), (''a'', VList [VBool True, VBool False])]
      = [2, 1, 0, 0, 1, 7, 8, 1, 0]
    \<and> decodeBody toyTypes ''E'' [2, 1, 0, 0, 1, 7, 8, 1, 0, 9]
      = Inr \<lparr>deName = ''E'', deFields = [(''n'', VNum 258), (''t'', VBytes [7, 8]), (''a'', VList [VBool True, VBool False])]\<rparr>"
proof -
  let ?vs = "[(''n'', VNum 258), (''t'', VBytes [7, 8]), (''a'', VList [VBool True, VBool False])]"
  have e: "encodeFields (tdFields (hd toyTypes)) ?vs = [2, 1, 0, 0, 1, 7, 8, 1, 0]" by code_simp
  have f: "find (\<lambda>t. tdName t = ''E'') toyTypes = Some (hd toyTypes)" by code_simp
  have "wellTypedFields (tdFields (hd toyTypes)) ?vs" by (auto simp: wellTypedFields_def toyTypes_def)
  from event_body_round_trip [OF f this, of "[9]"] show ?thesis unfolding e by simp
qed

text \<open>log scoping is exact.  On the log of any forest of nested invocations, of any depth and with
  frames that fail, \<open>programDataLinesFor\<close> returns exactly the data lines whose innermost running program
  is the given one, in order; data lines of programs it calls or that call it are left out.\<close>

theorem log_scope_exact:
  assumes "list_all wfItem frames" "\<forall>f\<in>set frames. \<exists>p d ok items. f = CallFrame p d ok items"
  shows "programDataLinesFor (concat (map renderItem frames)) programId = concat (map (dataLines programId []) frames)"
  unfolding programDataLinesFor_def by (rule scopeLoop_frames [OF assms])

definition toyFrames :: "traceItem list" where
  "toyFrames = [CallFrame ''W'' ''1'' True [DataLine ''Program data: AA'',
     CallFrame ''P'' ''2'' True [PlainLine ''Program log: x'', DataLine ''Program data: BB'',
       CallFrame ''T'' ''3'' False [DataLine ''Program data: CC''], DataLine ''Program data: DD'']]]"

theorem log_scope_exact_witness:
  "programDataLinesFor (concat (map renderItem toyFrames)) ''P'' = [''Program data: BB'', ''Program data: DD'']"
proof -
  have "list_all wfItem toyFrames" by code_simp
  moreover have "\<forall>f\<in>set toyFrames. \<exists>p d ok items. f = CallFrame p d ok items" by (auto simp: toyFrames_def)
  moreover have "concat (map (dataLines ''P'' []) toyFrames) = [''Program data: BB'', ''Program data: DD'']" by code_simp
  ultimately show ?thesis by (simp add: log_scope_exact)
qed

end
