(* ===== verification/Indexer.thy ===== *)
theory Indexer
  imports EventDecode Merkle
begin

text \<open>
  \<open>db/store.ts\<close>, \<open>ingest/ingest.ts\<close> and \<open>api/server.ts\<close> of the indexer: the tables, the ingestion of
  transactions into the tables and the tree, and the read endpoints.  A table is the list of its rows in
  the order of their row identifiers; \<open>INSERT OR REPLACE\<close> removes the row with the same key and appends.
\<close>

section \<open>The store\<close>

record noteRow =
  nrLeafIndex :: int
  nrLeaf :: string
  nrEphPubX :: string
  nrTag :: "string option"
  nrCekWrap :: "string option"
  nrCiphertext :: "string list"
  nrRoot :: string
  nrSlot :: int

record rootRow =
  rrCursor :: int
  rrRoot :: string
  rrNextLeafIndex :: int
  rrSlot :: int

record complianceKeyRow =
  ckVersion :: int
  ckX :: string
  ckY :: string
  ckFromSlot :: int

record cursorState =
  csLastSignature :: "string option"
  csLastSlot :: int

definition ROOT_RING_SIZE :: int where "ROOT_RING_SIZE = 256"

record indexerStore =
  stNotes :: "noteRow list"
  stNullifiers :: "(string \<times> int) list"
  stRoots :: "rootRow list"
  stKeys :: "complianceKeyRow list"
  stCursor :: "cursorState option"

definition newIndexerStore :: indexerStore where
  "newIndexerStore = \<lparr>stNotes = [], stNullifiers = [], stRoots = [], stKeys = [], stCursor = None\<rparr>"

definition insertOrReplace :: "('r \<Rightarrow> 'k) \<Rightarrow> 'r \<Rightarrow> 'r list \<Rightarrow> 'r list" where
  "insertOrReplace key row table = filter (\<lambda>r. key r \<noteq> key row) table @ [row]"

definition insertNote :: "indexerStore \<Rightarrow> noteRow \<Rightarrow> indexerStore" where
  "insertNote st n = st\<lparr>stNotes := insertOrReplace nrLeafIndex n (stNotes st)\<rparr>"

definition getNotesFrom :: "indexerStore \<Rightarrow> int \<Rightarrow> noteRow list" where
  "getNotesFrom st from = sort_key nrLeafIndex (filter (\<lambda>r. from \<le> nrLeafIndex r) (stNotes st))"

definition insertNullifier :: "indexerStore \<Rightarrow> string \<Rightarrow> int \<Rightarrow> indexerStore" where
  "insertNullifier st nullifier slot = st\<lparr>stNullifiers := insertOrReplace fst (nullifier, slot) (stNullifiers st)\<rparr>"

definition isNullifierSpent :: "indexerStore \<Rightarrow> string \<Rightarrow> bool" where
  "isNullifierSpent st nullifier \<longleftrightarrow> nullifier \<in> set (map fst (stNullifiers st))"

definition getNullifiersFrom :: "indexerStore \<Rightarrow> int \<Rightarrow> string list" where
  "getNullifiersFrom st slot = map fst (sort_key snd (filter (\<lambda>r. slot \<le> snd r) (stNullifiers st)))"

definition nextCursor :: "rootRow list \<Rightarrow> int" where
  "nextCursor rows = (if length rows = 0 then 0 else (Max (set (map rrCursor rows)) + 1) mod ROOT_RING_SIZE)"

definition pushRoot :: "indexerStore \<Rightarrow> string \<Rightarrow> int \<Rightarrow> int \<Rightarrow> indexerStore" where
  "pushRoot st root nextLeafIndex slot =
     st\<lparr>stRoots := insertOrReplace rrCursor
       \<lparr>rrCursor = nextCursor (stRoots st), rrRoot = root, rrNextLeafIndex = nextLeafIndex, rrSlot = slot\<rparr> (stRoots st)\<rparr>"

text \<open>\<open>ORDER BY slot DESC, rowid DESC LIMIT 1\<close>; \<open>cursor\<close> is the integer primary key, so it is the row
  identifier.\<close>

definition getLatestRoot :: "indexerStore \<Rightarrow> rootRow option" where
  "getLatestRoot st =
     (case rev (sort_key rrSlot (sort_key rrCursor (stRoots st))) of [] \<Rightarrow> None | r # rs \<Rightarrow> Some r)"

definition listRoots :: "indexerStore \<Rightarrow> rootRow list" where
  "listRoots st = sort_key rrCursor (stRoots st)"

definition insertComplianceKey :: "indexerStore \<Rightarrow> complianceKeyRow \<Rightarrow> indexerStore" where
  "insertComplianceKey st row = st\<lparr>stKeys := insertOrReplace ckVersion row (stKeys st)\<rparr>"

definition listComplianceKeys :: "indexerStore \<Rightarrow> complianceKeyRow list" where
  "listComplianceKeys st = sort_key ckVersion (stKeys st)"

definition getCursor :: "indexerStore \<Rightarrow> cursorState" where
  "getCursor st = (case stCursor st of None \<Rightarrow> \<lparr>csLastSignature = None, csLastSlot = 0\<rparr> | Some c \<Rightarrow> c)"

definition setCursor :: "indexerStore \<Rightarrow> cursorState \<Rightarrow> indexerStore" where
  "setCursor st c = st\<lparr>stCursor := Some c\<rparr>"

section \<open>Ingestion\<close>

record signatureInfo =
  sgSignature :: string
  sgSlot :: int
  sgErr :: bool

record rawTransaction =
  txErr :: bool
  txLogMessages :: "string list"

text \<open>The reads of the chain: the signatures of a program (newest first, up to the one given) and a
  transaction, which may be absent.\<close>

record chainSource =
  chSignatures :: "string \<Rightarrow> string option \<Rightarrow> signatureInfo list result"
  chTransaction :: "string \<Rightarrow> rawTransaction option result"

record ingestor =
  igStore :: indexerStore
  igTree :: indexTree
  igHalted :: bool

definition logsWereTruncated :: "string list \<Rightarrow> bool" where
  "logsWereTruncated logMessages \<longleftrightarrow> (\<exists>l\<in>set logMessages. l = ''Log truncated'' \<or> startsWith l ''Log truncated'')"

fun hydrateLoop :: "(int list \<Rightarrow> int) \<Rightarrow> indexTree \<Rightarrow> noteRow list \<Rightarrow> unit result \<times> indexTree" where
  "hydrateLoop poseidon3 t [] = (Inr (), t)"
| "hydrateLoop poseidon3 t (n # ns) =
     (case fieldFromHex (nrLeaf n) of Inl e \<Rightarrow> (Inl e, t)
      | Inr l \<Rightarrow> (case itInsert poseidon3 t l of (Inl e, t') \<Rightarrow> (Inl e, t') | (Inr r, t') \<Rightarrow> hydrateLoop poseidon3 t' ns))"

definition hydrateTree :: "(int list \<Rightarrow> int) \<Rightarrow> ingestor \<Rightarrow> unit result \<times> ingestor" where
  "hydrateTree poseidon3 ig =
     (let (r, t) = hydrateLoop poseidon3 (igTree ig) (getNotesFrom (igStore ig) 0) in (r, ig\<lparr>igTree := t\<rparr>))"

definition applyEvent :: "(int list \<Rightarrow> int) \<Rightarrow> ingestor \<Rightarrow> poolEvent \<Rightarrow> int \<Rightarrow> unit result \<times> ingestor" where
  "applyEvent poseidon3 ig ev slot =
     (case ev of
        NoteInserted e \<Rightarrow>
          (case fieldFromHex (niLeaf e) of Inl x \<Rightarrow> (Inl x, ig)
           | Inr l \<Rightarrow>
             (case itInsert poseidon3 (igTree ig) l of (Inl x, t) \<Rightarrow> (Inl x, ig\<lparr>igTree := t\<rparr>)
              | (Inr root, t) \<Rightarrow>
                let ig1 = ig\<lparr>igTree := t\<rparr> in
                (case fieldToHex root of Inl x \<Rightarrow> (Inl x, ig1)
                 | Inr hex \<Rightarrow>
                   let st1 = insertNote (igStore ig1) \<lparr>nrLeafIndex = niLeafIndex e, nrLeaf = niLeaf e, nrEphPubX = niEphPubX e,
                         nrTag = niTag e, nrCekWrap = niCekWrap e, nrCiphertext = niCiphertext e, nrRoot = hex, nrSlot = slot\<rparr>
                   in (Inr (), ig1\<lparr>igStore := pushRoot st1 hex (int (itNext t)) slot\<rparr>))))
      | NullifierSpent n \<Rightarrow> (Inr (), ig\<lparr>igStore := insertNullifier (igStore ig) n slot\<rparr>)
      | ComplianceKeyRotated oldVersion newVersion x y \<Rightarrow>
          (Inr (), ig\<lparr>igStore := insertComplianceKey (igStore ig)
            \<lparr>ckVersion = newVersion, ckX = x, ckY = y, ckFromSlot = slot\<rparr>\<rparr>))"

text \<open>A line that fails to decode is skipped; an event without a domain mapping is not.\<close>

fun applyLines :: "(int list \<Rightarrow> int) \<Rightarrow> idlTypeDef list \<Rightarrow> int \<Rightarrow> ingestor \<Rightarrow> string list \<Rightarrow> unit result \<times> ingestor" where
  "applyLines poseidon3 idl slot ig [] = (Inr (), ig)"
| "applyLines poseidon3 idl slot ig (line # ls) =
     (case decodeProgramDataLine idl line of
        Inl (EventDecodeError m) \<Rightarrow> applyLines poseidon3 idl slot ig ls
      | Inl e \<Rightarrow> (Inl e, ig)
      | Inr None \<Rightarrow> applyLines poseidon3 idl slot ig ls
      | Inr (Some d) \<Rightarrow>
        (case toDomainEvent d of Inl e \<Rightarrow> (Inl e, ig)
         | Inr ev \<Rightarrow> (case applyEvent poseidon3 ig ev slot of (Inl e, ig') \<Rightarrow> (Inl e, ig')
             | (Inr u, ig') \<Rightarrow> applyLines poseidon3 idl slot ig' ls)))"

definition processSignature :: "(int list \<Rightarrow> int) \<Rightarrow> idlTypeDef list \<Rightarrow> chainSource \<Rightarrow> string \<Rightarrow> ingestor \<Rightarrow> string \<Rightarrow> int \<Rightarrow> unit result \<times> ingestor" where
  "processSignature poseidon3 idl chain programId ig signature slot =
     (let advance = (\<lambda>ig. ig\<lparr>igStore := setCursor (igStore ig) \<lparr>csLastSignature = Some signature, csLastSlot = slot\<rparr>\<rparr>) in
      case chTransaction chain signature of Inl e \<Rightarrow> (Inl e, ig)
      | Inr None \<Rightarrow> (Inr (), advance ig)
      | Inr (Some tx) \<Rightarrow>
        if txErr tx then (Inr (), advance ig)
        else if logsWereTruncated (txLogMessages tx) then (Inl LogTruncationError, ig\<lparr>igHalted := True\<rparr>)
        else case applyLines poseidon3 idl slot ig (programDataLinesFor (txLogMessages tx) programId) of
          (Inl e, ig') \<Rightarrow> (Inl e, ig')
        | (Inr u, ig') \<Rightarrow> (Inr (), advance ig'))"

fun backfillLoop :: "(int list \<Rightarrow> int) \<Rightarrow> idlTypeDef list \<Rightarrow> chainSource \<Rightarrow> string \<Rightarrow> ingestor \<Rightarrow> signatureInfo list \<Rightarrow> unit result \<times> ingestor" where
  "backfillLoop poseidon3 idl chain programId ig [] = (Inr (), ig)"
| "backfillLoop poseidon3 idl chain programId ig (sg # sgs) =
     (if sgErr sg then backfillLoop poseidon3 idl chain programId ig sgs
      else case processSignature poseidon3 idl chain programId ig (sgSignature sg) (sgSlot sg) of
        (Inl e, ig') \<Rightarrow> (Inl e, ig')
      | (Inr u, ig') \<Rightarrow> backfillLoop poseidon3 idl chain programId ig' sgs)"

definition backfill :: "(int list \<Rightarrow> int) \<Rightarrow> idlTypeDef list \<Rightarrow> chainSource \<Rightarrow> string \<Rightarrow> ingestor \<Rightarrow> unit result \<times> ingestor" where
  "backfill poseidon3 idl chain programId ig =
     (case chSignatures chain programId (csLastSignature (getCursor (igStore ig))) of Inl e \<Rightarrow> (Inl e, ig)
      | Inr signatures \<Rightarrow> backfillLoop poseidon3 idl chain programId ig (rev signatures))"

text \<open>One notification of the live tail: errors are logged and dropped, a truncation also ends the
  subscription (the second component of the answer).\<close>

definition liveTailEvent :: "(int list \<Rightarrow> int) \<Rightarrow> idlTypeDef list \<Rightarrow> chainSource \<Rightarrow> string \<Rightarrow> ingestor \<Rightarrow> signatureInfo \<Rightarrow> bool \<times> ingestor" where
  "liveTailEvent poseidon3 idl chain programId ig info =
     (if sgErr info then (True, ig)
      else case processSignature poseidon3 idl chain programId ig (sgSignature info) (sgSlot info) of
        (Inl LogTruncationError, ig') \<Rightarrow> (False, ig'\<lparr>igHalted := True\<rparr>)
      | (_, ig') \<Rightarrow> (True, ig'))"

section \<open>The read endpoints\<close>

datatype 'a reply = Ok 'a | Status nat

record rootReply =
  rpRoot :: string
  rpNextLeafIndex :: int
  rpRoots :: "string list"
  rpRootCursor :: int

definition zeroHex :: string where "zeroHex = ''0x'' @ replicate 64 (CHR ''0'')"

definition getRootReply :: "ingestor \<Rightarrow> rootReply reply result" where
  "getRootReply ig =
     (if igHalted ig then Inr (Status 503)
      else let latest = getLatestRoot (igStore ig);
               roots = fold (\<lambda>row rs. if 0 \<le> rrCursor row \<and> rrCursor row < ROOT_RING_SIZE
                 then rs[nat (rrCursor row) := rrRoot row] else rs) (listRoots (igStore ig)) (replicate 256 zeroHex);
               reply = (\<lambda>root next cursor. Inr (Ok \<lparr>rpRoot = root, rpNextLeafIndex = next, rpRoots = roots, rpRootCursor = cursor\<rparr>)) in
        case latest of
          Some r \<Rightarrow> reply (rrRoot r) (rrNextLeafIndex r) ((rrCursor r + 1) mod ROOT_RING_SIZE)
        | None \<Rightarrow> bindR (fieldToHex (itGetRoot (igTree ig))) (\<lambda>hex. reply hex (int (itNext (igTree ig))) 0))"

definition getPathReply :: "ingestor \<Rightarrow> int \<Rightarrow> string list reply" where
  "getPathReply ig leafIndex =
     (if igHalted ig then Status 503
      else if leafIndex < 0 then Status 400
      else case bindR (itGetPath (igTree ig) leafIndex) (mapR fieldToHex) of
        Inl e \<Rightarrow> Status 404 | Inr siblings \<Rightarrow> Ok siblings)"

definition postSync :: "(int list \<Rightarrow> int) \<Rightarrow> idlTypeDef list \<Rightarrow> chainSource \<Rightarrow> string \<Rightarrow> ingestor \<Rightarrow> int reply \<times> ingestor" where
  "postSync poseidon3 idl chain programId ig =
     (case backfill poseidon3 idl chain programId ig of
        (Inl e, ig') \<Rightarrow> (Status 503, ig') | (Inr u, ig') \<Rightarrow> (Ok (int (itNext (igTree ig'))), ig'))"

section \<open>The mirror and the tables agree\<close>

fun applyEvents :: "(int list \<Rightarrow> int) \<Rightarrow> ingestor \<Rightarrow> (poolEvent \<times> int) list \<Rightarrow> unit result \<times> ingestor" where
  "applyEvents p3 ig [] = (Inr (), ig)"
| "applyEvents p3 ig ((ev, slot) # evs) =
     (case applyEvent p3 ig ev slot of (Inl e, ig') \<Rightarrow> (Inl e, ig') | (Inr u, ig') \<Rightarrow> applyEvents p3 ig' evs)"

fun notesOf :: "(poolEvent \<times> int) list \<Rightarrow> noteInserted list" where
  "notesOf [] = []"
| "notesOf ((NoteInserted e, slot) # evs) = e # notesOf evs"
| "notesOf ((_, slot) # evs) = notesOf evs"

definition mirrors :: "(int list \<Rightarrow> int) \<Rightarrow> nat \<Rightarrow> int list \<Rightarrow> ingestor \<Rightarrow> bool" where
  "mirrors p3 d ls ig \<longleftrightarrow> itRepr p3 d ls (igTree ig) \<and> list_all isFr ls \<and> 0 \<notin> set ls
    \<and> map nrLeafIndex (stNotes (igStore ig)) = map int [0..<length ls]
    \<and> mapR (\<lambda>r. fieldFromHex (nrLeaf r)) (stNotes (igStore ig)) = Inr ls"

lemma digits_nonneg: "digits base acc s = Some v \<Longrightarrow> 0 \<le> acc \<Longrightarrow> 0 \<le> v"
  by (induction base acc s rule: digits.induct) (auto simp: digitVal_def Let_def split: option.splits if_splits)

lemma fieldFromHex_isFr: "fieldFromHex s = Inr v \<Longrightarrow> isFr v"
proof -
  have "0 \<le> w" if "BigIntOf (''0x'' @ clean) = Inr w" "clean \<noteq> []" for clean w
  proof -
    have sp: "\<not> isSpace (CHR ''0'')" "\<not> isSpace (CHR ''x'')" by code_simp+
    have "dropWhile isSpace (rev clean @ ''x0'') = dropWhile isSpace (rev clean) @ ''x0''"
    proof (cases "\<forall>c\<in>set (rev clean). isSpace c")
      case True
      then have "dropWhile isSpace (rev clean) = []" by (simp only: dropWhile_eq_Nil_conv)
      moreover have "dropWhile isSpace (rev clean @ ''x0'') = dropWhile isSpace ''x0''" using True by (intro dropWhile_append2) blast
      ultimately show ?thesis using sp by simp
    next
      case False
      then obtain c where "c \<in> set (rev clean)" "\<not> isSpace c" by blast
      then show ?thesis by (rule dropWhile_append1)
    qed
    then have t: "trim (''0x'' @ clean) = ''0x'' @ rev (dropWhile isSpace (rev clean))"
      using sp by (simp add: trim_def)
    show ?thesis using that(1) unfolding BigIntOf_def t Let_def by (auto simp: syntaxError_def split: if_splits dest: digits_nonneg)
  qed
  then show "fieldFromHex s = Inr v \<Longrightarrow> isFr v"
    by (auto simp: fieldFromHex_def isFr_def Let_def split: if_splits)
qed

lemma node_isFr:
  assumes "list_all isFr ls" "\<And>xs. isFr (p3 xs)"
  shows "isFr (node (hash3 p3) ls l i)"
  using node_origin [of l l "hash3 p3" ls i] assms by (auto simp: hash3_def list_all_iff)

lemma mapR_snoc: "mapR f xs = Inr ys \<Longrightarrow> f x = Inr y \<Longrightarrow> mapR f (xs @ [x]) = Inr (ys @ [y])"
  by (induction xs arbitrary: ys) auto

lemma insertOrReplace_fresh: "\<forall>r\<in>set t. key r \<noteq> key row \<Longrightarrow> insertOrReplace key row t = t @ [row]"
  by (auto simp: insertOrReplace_def filter_id_conv)

lemma applyEvent_note:
  assumes m: "mirrors p3 d ls ig" and fr: "\<And>xs. isFr (p3 xs)" and l: "fieldFromHex (niLeaf e) = Inr l" "l \<noteq> 0"
    and n: "length ls < 2 ^ d" "niLeafIndex e = int (length ls)"
  shows "\<exists>ig'. applyEvent p3 ig (NoteInserted e) slot = (Inr (), ig') \<and> mirrors p3 d (ls @ [l]) ig'
    \<and> map nrLeaf (stNotes (igStore ig')) = map nrLeaf (stNotes (igStore ig)) @ [niLeaf e]
    \<and> stNullifiers (igStore ig') = stNullifiers (igStore ig) \<and> igHalted ig' = igHalted ig"
proof -
  have r: "itRepr p3 d ls (igTree ig)" and ls: "list_all isFr ls" "0 \<notin> set ls"
    and ix: "map nrLeafIndex (stNotes (igStore ig)) = map int [0..<length ls]"
    and lf: "mapR (\<lambda>r. fieldFromHex (nrLeaf r)) (stNotes (igStore ig)) = Inr ls" using m by (simp_all add: mirrors_def)
  obtain t' where t': "itInsert p3 (igTree ig) l = (Inr (node (hash3 p3) (ls @ [l]) d 0), t')" "itRepr p3 d (ls @ [l]) t'"
    using itInsert_ok [OF r l(2) n(1)] by auto
  have fl: "isFr l" by (rule fieldFromHex_isFr [OF l(1)])
  then have "isFr (node (hash3 p3) (ls @ [l]) d 0)" using ls(1) fr by (intro node_isFr) simp_all
  then obtain hex where hex: "fieldToHex (node (hash3 p3) (ls @ [l]) d 0) = Inr hex" by (simp add: fieldToHex_def isFr_def)
  have "\<forall>r\<in>set (stNotes (igStore ig)). nrLeafIndex r \<noteq> int (length ls)"
  proof
    fix r assume "r \<in> set (stNotes (igStore ig))"
    then have "nrLeafIndex r \<in> set (map nrLeafIndex (stNotes (igStore ig)))" by simp
    then show "nrLeafIndex r \<noteq> int (length ls)" unfolding ix by auto
  qed
  then show ?thesis
    using t' hex l(1) n(2) ls fl l(2) ix lf
    by (simp add: applyEvent_def mirrors_def insertNote_def pushRoot_def insertOrReplace_fresh mapR_snoc [OF lf])
qed

lemma applyEvent_other:
  assumes "mirrors p3 d ls ig" "\<nexists>e. ev = NoteInserted e"
  shows "\<exists>ig'. applyEvent p3 ig ev slot = (Inr (), ig') \<and> mirrors p3 d ls ig'
    \<and> stNotes (igStore ig') = stNotes (igStore ig) \<and> igHalted ig' = igHalted ig
    \<and> fst ` set (stNullifiers (igStore ig)) \<subseteq> fst ` set (stNullifiers (igStore ig'))
    \<and> (\<forall>n. ev = NullifierSpent n \<longrightarrow> isNullifierSpent (igStore ig') n)"
  using assms
  by (cases ev) (auto simp: applyEvent_def mirrors_def insertNullifier_def insertComplianceKey_def isNullifierSpent_def insertOrReplace_def image_iff)

lemma applyEvents_mirror:
  assumes "mirrors p3 d ls ig" "\<And>xs. isFr (p3 xs)" "mapR (\<lambda>e. fieldFromHex (niLeaf e)) (notesOf evs) = Inr new"
    "0 \<notin> set new" "length ls + length new \<le> 2 ^ d" "map niLeafIndex (notesOf evs) = map int [length ls..<length ls + length new]"
  shows "\<exists>ig'. applyEvents p3 ig evs = (Inr (), ig') \<and> mirrors p3 d (ls @ new) ig' \<and> igHalted ig' = igHalted ig
    \<and> map nrLeaf (stNotes (igStore ig')) = map nrLeaf (stNotes (igStore ig)) @ map niLeaf (notesOf evs)
    \<and> fst ` set (stNullifiers (igStore ig)) \<subseteq> fst ` set (stNullifiers (igStore ig'))
    \<and> (\<forall>n s. (NullifierSpent n, s) \<in> set evs \<longrightarrow> isNullifierSpent (igStore ig') n)"
  using assms
proof (induction p3 ig evs arbitrary: ls new rule: applyEvents.induct)
  case (1 p3 ig)
  then show ?case by simp
next
  case (2 p3 ig ev slot evs)
  show ?case
  proof (cases "\<exists>e. ev = NoteInserted e")
    case True
    then obtain e where e: "ev = NoteInserted e" by blast
    obtain l rest where l: "new = l # rest" "fieldFromHex (niLeaf e) = Inr l"
      "mapR (\<lambda>e. fieldFromHex (niLeaf e)) (notesOf evs) = Inr rest" using "2.prems"(3) e by auto
    have u: "[length ls..<length ls + length (l # rest)] = length ls # [Suc (length ls)..<length ls + length (l # rest)]"
      by (rule upt_conv_Cons) simp
    have ix: "niLeafIndex e = int (length ls)"
      "map niLeafIndex (notesOf evs) = map int [length (ls @ [l])..<length (ls @ [l]) + length rest]"
      using "2.prems"(6) unfolding l(1) u by (simp_all add: e del: upt_Suc)
    obtain ig1 where ig1: "applyEvent p3 ig ev slot = (Inr (), ig1)" "mirrors p3 d (ls @ [l]) ig1"
      "map nrLeaf (stNotes (igStore ig1)) = map nrLeaf (stNotes (igStore ig)) @ [niLeaf e]"
      "stNullifiers (igStore ig1) = stNullifiers (igStore ig)" "igHalted ig1 = igHalted ig"
      using applyEvent_note [OF "2.prems"(1,2) l(2) _ _ ix(1), of slot] "2.prems"(4,5) l(1) e by auto
    show ?thesis
      using "2.IH" [OF ig1(1) [symmetric] refl ig1(2) "2.prems"(2) l(3) _ _ ix(2)] "2.prems"(4,5) l(1) ig1 e by auto
  next
    case False
    obtain ig1 where ig1: "applyEvent p3 ig ev slot = (Inr (), ig1)" "mirrors p3 d ls ig1"
      "stNotes (igStore ig1) = stNotes (igStore ig)" "igHalted ig1 = igHalted ig"
      "fst ` set (stNullifiers (igStore ig)) \<subseteq> fst ` set (stNullifiers (igStore ig1))"
      "\<forall>n. ev = NullifierSpent n \<longrightarrow> isNullifierSpent (igStore ig1) n"
      using applyEvent_other [OF "2.prems"(1) False, of slot] by blast
    have n: "notesOf ((ev, slot) # evs) = notesOf evs" using False by (cases ev) auto
    obtain ig' where ig': "applyEvents p3 ig1 evs = (Inr (), ig')" "mirrors p3 d (ls @ new) ig'" "igHalted ig' = igHalted ig1"
      "map nrLeaf (stNotes (igStore ig')) = map nrLeaf (stNotes (igStore ig1)) @ map niLeaf (notesOf evs)"
      "fst ` set (stNullifiers (igStore ig1)) \<subseteq> fst ` set (stNullifiers (igStore ig'))"
      "\<forall>n s. (NullifierSpent n, s) \<in> set evs \<longrightarrow> isNullifierSpent (igStore ig') n"
      using "2.IH" [OF ig1(1) [symmetric] refl ig1(2) "2.prems"(2), of new] "2.prems"(3-6) unfolding n by blast
    have "isNullifierSpent (igStore ig') m" if "ev = NullifierSpent m" for m
      using ig1(6) ig'(5) that by (auto simp: isNullifierSpent_def)
    moreover have "applyEvents p3 ig ((ev, slot) # evs) = (Inr (), ig')" using ig1(1) ig'(1) by simp
    ultimately show ?thesis using ig1(3-5) ig'(2-6) unfolding n by auto
  qed
qed

text \<open>The representation determines the tree, and hydration rebuilds it.\<close>

lemma itRepr_unique: "itRepr p3 d ls t \<Longrightarrow> itRepr p3 d ls t' \<Longrightarrow> t = t'"
  unfolding itRepr_def by simp

lemma hydrateLoop_repr:
  assumes "itRepr p3 d ls t" "mapR (\<lambda>r. fieldFromHex (nrLeaf r)) rows = Inr new" "0 \<notin> set new" "length ls + length new \<le> 2 ^ d"
  shows "\<exists>t'. hydrateLoop p3 t rows = (Inr (), t') \<and> itRepr p3 d (ls @ new) t'"
  using assms
proof (induction rows arbitrary: ls t new)
  case (Cons r rows)
  then obtain l rest where l: "new = l # rest" "fieldFromHex (nrLeaf r) = Inr l"
    "mapR (\<lambda>r. fieldFromHex (nrLeaf r)) rows = Inr rest" by auto
  then obtain t1 where "itInsert p3 t l = (Inr (node (hash3 p3) (ls @ [l]) d 0), t1)" "itRepr p3 d (ls @ [l]) t1"
    using itInsert_ok [OF Cons.prems(1), of l] Cons.prems(3,4) by auto
  then show ?case using Cons.IH [of "ls @ [l]" t1 rest] Cons.prems(3,4) l by simp
qed auto

lemma mirrors_rows:
  assumes "mirrors p3 d ls ig"
  shows "getNotesFrom (igStore ig) 0 = stNotes (igStore ig)"
proof -
  have ix: "map nrLeafIndex (stNotes (igStore ig)) = map int [0..<length ls]" using assms by (simp add: mirrors_def)
  have "0 \<le> nrLeafIndex r" if "r \<in> set (stNotes (igStore ig))" for r
  proof -
    have "nrLeafIndex r \<in> set (map nrLeafIndex (stNotes (igStore ig)))" using that by simp
    then show ?thesis unfolding ix by auto
  qed
  then have "filter (\<lambda>r. 0 \<le> nrLeafIndex r) (stNotes (igStore ig)) = stNotes (igStore ig)" by (simp add: filter_id_conv)
  moreover have "sorted (map nrLeafIndex (stNotes (igStore ig)))"
    unfolding ix by (simp add: sorted_iff_nth_mono)
  ultimately show ?thesis by (simp add: getNotesFrom_def sort_key_id_if_sorted)
qed

section \<open>Properties\<close>


definition toyInserted :: "int \<Rightarrow> string \<Rightarrow> noteInserted" where
  "toyInserted i l = \<lparr>niLeafIndex = i, niLeaf = l, niEphPubX = ''0x01'', niTag = None, niCekWrap = None, niCiphertext = [], niRoot = ''0x00''\<rparr>"

definition toyEvents :: "(poolEvent \<times> int) list" where
  "toyEvents = [(NoteInserted (toyInserted 0 ''0x05''), 3), (NullifierSpent ''0x09'', 4), (NoteInserted (toyInserted 1 ''0x06''), 4)]"


text \<open>the ring of roots stops turning.  Once all 256 cursors are in use the next cursor is always
  0, so of two consecutive roots the first is overwritten by the second and is in no slot of the ring.\<close>

theorem root_ring_stuck:
  assumes "set (map rrCursor (stRoots st)) = {0..255}" "r1 \<noteq> r2" "r1 \<notin> set (map rrRoot (stRoots st))"
  shows "r1 \<notin> set (map rrRoot (stRoots (pushRoot (pushRoot st r1 n1 s1) r2 n2 s2)))
    \<and> set (map rrCursor (stRoots (pushRoot (pushRoot st r1 n1 s1) r2 n2 s2))) = {0..255}"
proof -
  have full: "nextCursor rows = 0" if "set (map rrCursor rows) = {0..255}" for rows
  proof -
    have "length rows \<noteq> 0" using that by (metis atLeastAtMost_iff empty_iff empty_set length_0_conv list.simps(8) order_refl zero_le_numeral)
    moreover have "Max {0..255::int} = 255" by (intro Max_eqI) auto
    ultimately show ?thesis unfolding nextCursor_def that by (simp add: ROOT_RING_SIZE_def)
  qed
  have keep: "set (map rrCursor (insertOrReplace rrCursor row rows)) = {0..255}"
    if "set (map rrCursor rows) = {0..255}" "rrCursor row = 0" for row rows
  proof -
    have "set (map rrCursor (insertOrReplace rrCursor row rows)) = insert 0 (set (map rrCursor rows) - {0})"
      using that(2) by (auto simp: insertOrReplace_def)
    then show ?thesis unfolding that(1) by auto
  qed
  note p = pushRoot_def [of st r1 n1 s1] full [OF assms(1)]
  have 1: "set (map rrCursor (stRoots (pushRoot st r1 n1 s1))) = {0..255}" unfolding p using keep [OF assms(1)] by simp
  have e2: "stRoots (pushRoot (pushRoot st r1 n1 s1) r2 n2 s2) = insertOrReplace rrCursor
      \<lparr>rrCursor = 0, rrRoot = r2, rrNextLeafIndex = n2, rrSlot = s2\<rparr> (stRoots (pushRoot st r1 n1 s1))"
    unfolding pushRoot_def [of "pushRoot st r1 n1 s1"] full [OF 1] by simp
  have e1: "stRoots (pushRoot st r1 n1 s1) = insertOrReplace rrCursor
      \<lparr>rrCursor = 0, rrRoot = r1, rrNextLeafIndex = n1, rrSlot = s1\<rparr> (stRoots st)" unfolding p by simp
  have "r1 \<notin> set (map rrRoot (stRoots (pushRoot (pushRoot st r1 n1 s1) r2 n2 s2)))"
    unfolding e2 e1 using assms(2,3) by (auto simp: insertOrReplace_def)
  moreover have "set (map rrCursor (stRoots (pushRoot (pushRoot st r1 n1 s1) r2 n2 s2))) = {0..255}"
    unfolding e2 by (rule keep [OF 1]) simp
  ultimately show ?thesis by blast
qed

definition fullRing :: indexerStore where
  "fullRing = newIndexerStore\<lparr>stRoots := map (\<lambda>i. \<lparr>rrCursor = i, rrRoot = ''old'', rrNextLeafIndex = i + 1, rrSlot = i\<rparr>) [0..255]\<rparr>"

theorem root_ring_stuck_witness:
  "''first'' \<notin> set (map rrRoot (stRoots (pushRoot (pushRoot fullRing ''first'' 257 300) ''second'' 258 301)))"
proof -
  have "set (map rrCursor (stRoots fullRing)) = {0..255}" by (simp add: fullRing_def comp_def)
  moreover have "''first'' \<notin> set (map rrRoot (stRoots fullRing))" by (auto simp: fullRing_def)
  ultimately show ?thesis using root_ring_stuck [of fullRing "''first''" "''second''"] by simp
qed

end
