(* ===== verification/Coordinator.thy ===== *)
theory Coordinator
  imports JsText
begin

text \<open>
  The coordinator package: the envelope schema (\<open>schema.ts\<close>), the message store (\<open>db/store.ts\<close>), the
  relay with its long polls and sockets (\<open>api/server.ts\<close>) and the sweep.  The table is the list of its rows
  in insertion order; time is an argument.  The reachable states of the relay are an inductive set.
\<close>

section \<open>Envelopes\<close>

datatype envelopeKind = Dkg1 | Dkg2 | Proposal | Nonce | Share | Final

record envelope =
  enSession :: string
  enSeq :: int
  enKind :: envelopeKind
  enCiphertext :: string

text \<open>The body of a request before validation.\<close>

record rawEnvelope =
  reSession :: string
  reSeq :: int
  reKind :: string
  reCiphertext :: string

definition parseKind :: "string \<Rightarrow> envelopeKind option" where
  "parseKind s = map_of [(''dkg1'', Dkg1), (''dkg2'', Dkg2), (''proposal'', Proposal), (''nonce'', Nonce), (''share'', Share), (''final'', Final)] s"

definition isHex32 :: "string \<Rightarrow> bool" where
  "isHex32 s \<longleftrightarrow> length s = 64 \<and> list_all (\<lambda>c. digitVal 16 c \<noteq> None) s"

definition base64Char :: "char \<Rightarrow> bool" where
  "base64Char c \<longleftrightarrow> digitVal 36 c \<noteq> None \<or> c = CHR ''+'' \<or> c = CHR ''/''"

definition isBase64 :: "string \<Rightarrow> bool" where
  "isBase64 s \<longleftrightarrow> (let tail = dropWhile base64Char s in length tail \<le> 2 \<and> list_all (\<lambda>c. c = CHR ''='') tail)"

definition parseEnvelope :: "rawEnvelope \<Rightarrow> envelope option" where
  "parseEnvelope r =
     (case parseKind (reKind r) of None \<Rightarrow> None
      | Some k \<Rightarrow>
        if isHex32 (reSession r) \<and> 0 \<le> reSeq r \<and> length (reCiphertext r) mod 4 = 0 \<and> isBase64 (reCiphertext r)
        then Some \<lparr>enSession = reSession r, enSeq = reSeq r, enKind = k, enCiphertext = reCiphertext r\<rparr> else None)"

section \<open>The store\<close>

definition TTL_MS :: int where "TTL_MS = 24 * 60 * 60 * 1000"

record messageRow =
  mrEnvelope :: envelope
  mrCreatedAt :: int

type_synonym messageStore = "messageRow list"

definition sessionRows :: "messageStore \<Rightarrow> string \<Rightarrow> messageRow list" where
  "sessionRows st sid = filter (\<lambda>r. enSession (mrEnvelope r) = sid) st"

definition nextSeq :: "messageStore \<Rightarrow> string \<Rightarrow> int" where
  "nextSeq st sid =
     (case map (\<lambda>r. enSeq (mrEnvelope r)) (sessionRows st sid) of [] \<Rightarrow> 0 | m # ms \<Rightarrow> fold max ms m + 1)"

definition appendMsg :: "messageStore \<Rightarrow> int \<Rightarrow> envelope \<Rightarrow> messageStore result" where
  "appendMsg st now e =
     (if enSeq e \<noteq> nextSeq st (enSession e) then Inl SequenceConflictError
      else Inr (st @ [\<lparr>mrEnvelope = e, mrCreatedAt = now\<rparr>]))"

definition sinceMsgs :: "messageStore \<Rightarrow> string \<Rightarrow> int option \<Rightarrow> envelope list" where
  "sinceMsgs st sid since =
     sort_key enSeq (map mrEnvelope (filter (\<lambda>r. orElse since (- 1) < enSeq (mrEnvelope r)) (sessionRows st sid)))"

definition expiredSession :: "messageStore \<Rightarrow> int \<Rightarrow> string \<Rightarrow> bool" where
  "expiredSession st cutoff sid \<longleftrightarrow> sessionRows st sid \<noteq> [] \<and> list_all (\<lambda>r. mrCreatedAt r < cutoff) (sessionRows st sid)"

definition sweepExpired :: "messageStore \<Rightarrow> int \<Rightarrow> nat \<times> messageStore" where
  "sweepExpired st now =
     (let cutoff = now - TTL_MS;
          kept = filter (\<lambda>r. \<not> expiredSession st cutoff (enSession (mrEnvelope r))) st
      in (length st - length kept, kept))"

section \<open>The relay\<close>

text \<open>A pending long poll is its request number, session and \<open>since\<close>; a socket its number and session.\<close>

record relay =
  rlStore :: messageStore
  rlPolls :: "(nat \<times> string \<times> int option) list"
  rlSockets :: "(nat \<times> string) list"

definition newRelay :: relay where
  "newRelay = \<lparr>rlStore = [], rlPolls = [], rlSockets = []\<rparr>"

definition wakes :: "envelope \<Rightarrow> nat \<times> string \<times> int option \<Rightarrow> bool" where
  "wakes e w \<longleftrightarrow> (case w of (q, sid, since) \<Rightarrow> sid = enSession e \<and> (case since of None \<Rightarrow> True | Some n \<Rightarrow> n < enSeq e))"

record postReply =
  poStatus :: nat
  poResolved :: "(nat \<times> envelope list) list"
  poPushed :: "(nat \<times> envelope) list"

definition postMessage :: "relay \<Rightarrow> int \<Rightarrow> string \<Rightarrow> rawEnvelope \<Rightarrow> postReply \<times> relay" where
  "postMessage rl now urlId body =
     (let refuse = (\<lambda>code. (\<lparr>poStatus = code, poResolved = [], poPushed = []\<rparr>, rl)) in
      case parseEnvelope body of None \<Rightarrow> refuse 400
      | Some e \<Rightarrow>
        if enSession e \<noteq> urlId then refuse 400
        else case appendMsg (rlStore rl) now e of
          Inl err \<Rightarrow> refuse 409
        | Inr st \<Rightarrow>
          (\<lparr>poStatus = 201, poResolved = map (\<lambda>w. (fst w, [e])) (filter (wakes e) (rlPolls rl)),
             poPushed = map (\<lambda>s. (fst s, e)) (filter (\<lambda>s. snd s = enSession e) (rlSockets rl))\<rparr>,
           rl\<lparr>rlStore := st, rlPolls := filter (\<lambda>w. \<not> wakes e w) (rlPolls rl)\<rparr>))"

text \<open>The answer to a read: at once, or \<open>None\<close> while the poll waits.  A \<open>since\<close> that is not a number is
  refused with 400 before this point.\<close>

definition getMessages :: "relay \<Rightarrow> nat \<Rightarrow> string \<Rightarrow> int option \<Rightarrow> envelope list option \<times> relay" where
  "getMessages rl q sid since =
     (let existing = sinceMsgs (rlStore rl) sid since in
      if 0 < length existing then (Some existing, rl)
      else (None, rl\<lparr>rlPolls := rlPolls rl @ [(q, sid, since)]\<rparr>))"

definition pollTimeout :: "relay \<Rightarrow> nat \<Rightarrow> envelope list option \<times> relay" where
  "pollTimeout rl q =
     (if q \<in> set (map fst (rlPolls rl)) then (Some [], rl\<lparr>rlPolls := filter (\<lambda>w. fst w \<noteq> q) (rlPolls rl)\<rparr>) else (None, rl))"

definition wsConnect :: "relay \<Rightarrow> nat \<Rightarrow> string \<Rightarrow> relay" where
  "wsConnect rl k sid = (if isHex32 sid then rl\<lparr>rlSockets := rlSockets rl @ [(k, sid)]\<rparr> else rl)"

definition wsClose :: "relay \<Rightarrow> nat \<Rightarrow> relay" where
  "wsClose rl k = rl\<lparr>rlSockets := filter (\<lambda>s. fst s \<noteq> k) (rlSockets rl)\<rparr>"

definition sweepRelay :: "relay \<Rightarrow> int \<Rightarrow> relay" where
  "sweepRelay rl now = rl\<lparr>rlStore := snd (sweepExpired (rlStore rl) now)\<rparr>"

inductive relayStep :: "relay \<Rightarrow> relay \<Rightarrow> bool" where
  step_post: "relayStep rl (snd (postMessage rl now urlId body))"
| step_get: "relayStep rl (snd (getMessages rl q sid since))"
| step_timeout: "relayStep rl (snd (pollTimeout rl q))"
| step_connect: "relayStep rl (wsConnect rl k sid)"
| step_close: "relayStep rl (wsClose rl k)"
| step_sweep: "relayStep rl (sweepRelay rl now)"

inductive reachable :: "relay \<Rightarrow> bool" where
  reach_init: "reachable newRelay"
| reach_step: "reachable rl \<Longrightarrow> relayStep rl rl' \<Longrightarrow> reachable rl'"

section \<open>Streams are gap-free\<close>

definition stream :: "messageStore \<Rightarrow> string \<Rightarrow> envelope list" where
  "stream st sid = map mrEnvelope (sessionRows st sid)"

definition gapFree :: "messageStore \<Rightarrow> bool" where
  "gapFree st \<longleftrightarrow> (\<forall>sid. map enSeq (stream st sid) = map int [0..<length (stream st sid)])"

lemma fold_max_upt: "fold max (map int [a..<b]) (int a) = (if a < b then int b - 1 else int a)"
proof (induction b)
  case (Suc b)
  then show ?case by (cases "a \<le> b") auto
qed simp

lemma nextSeq_length:
  assumes "map enSeq (stream st sid) = map int [0..<length (stream st sid)]"
  shows "nextSeq st sid = int (length (stream st sid))"
proof -
  have s: "map (\<lambda>r. enSeq (mrEnvelope r)) (sessionRows st sid) = map int [0..<length (stream st sid)]"
    using assms by (simp add: stream_def comp_def)
  show ?thesis
  proof (cases "length (stream st sid)")
    case 0
    then show ?thesis unfolding nextSeq_def s by simp
  next
    case (Suc n)
    have "map int [0..<Suc n] = 0 # map int [1..<Suc n]" by (simp add: upt_conv_Cons del: upt_Suc)
    moreover have "fold max (map int [1..<Suc n]) 0 = int n"
      by (induction n) auto
    ultimately show ?thesis unfolding nextSeq_def s Suc by simp
  qed
qed

lemma stream_append: "stream (st @ [r]) sid = stream st sid @ (if enSession (mrEnvelope r) = sid then [mrEnvelope r] else [])"
  by (simp add: stream_def sessionRows_def)

lemma append_gapFree: "gapFree st \<Longrightarrow> appendMsg st now e = Inr st' \<Longrightarrow> gapFree st'"
  using nextSeq_length [of st "enSession e"]
  by (auto simp: gapFree_def appendMsg_def stream_append split: if_splits)

lemma sweep_stream:
  "stream (snd (sweepExpired st now)) sid = (if expiredSession st (now - TTL_MS) sid then [] else stream st sid)"
proof -
  have "filter (\<lambda>r. enSession (mrEnvelope r) = sid) (filter (\<lambda>r. \<not> expiredSession st c (enSession (mrEnvelope r))) rs)
      = (if expiredSession st c sid then [] else filter (\<lambda>r. enSession (mrEnvelope r) = sid) rs)" for rs c
    by (induction rs) auto
  note f = this
  show ?thesis unfolding stream_def sessionRows_def [of _ sid] sweepExpired_def Let_def snd_conv f by simp
qed

lemma sweep_gapFree: "gapFree st \<Longrightarrow> gapFree (snd (sweepExpired st now))"
  by (simp add: gapFree_def sweep_stream)

lemma step_gapFree: "relayStep rl rl' \<Longrightarrow> gapFree (rlStore rl) \<Longrightarrow> gapFree (rlStore rl')"
proof (induction rule: relayStep.induct)
  case (step_post rl now urlId body)
  then show ?case
    by (auto simp: postMessage_def Let_def dest: append_gapFree split: option.splits sum.splits)
qed (auto simp: getMessages_def pollTimeout_def wsConnect_def wsClose_def sweepRelay_def sweep_gapFree Let_def)

lemma reachable_gapFree: "reachable rl \<Longrightarrow> gapFree (rlStore rl)"
proof (induction rule: reachable.induct)
  case reach_init
  show ?case by (simp add: newRelay_def gapFree_def stream_def sessionRows_def)
qed (rule step_gapFree)

text \<open>Reading past a cursor is dropping from the stream.\<close>

lemma sinceMsgs_drop:
  assumes "map enSeq (stream st sid) = map int [0..<length (stream st sid)]" "- 1 \<le> c"
  shows "sinceMsgs st sid (Some c) = drop (nat (c + 1)) (stream st sid)"
proof -
  have f: "map mrEnvelope (filter (\<lambda>r. c < enSeq (mrEnvelope r)) (sessionRows st sid)) = filter (\<lambda>e. c < enSeq e) (stream st sid)"
    by (simp add: stream_def filter_map comp_def)
  have "filter (\<lambda>e. c < enSeq e) es = drop (nat (c + 1)) es" if "map enSeq es = map int [0..<length es]" for es
    using that
  proof (induction es rule: rev_induct)
    case (snoc e es)
    then have "map enSeq es = map int [0..<length es]" "enSeq e = int (length es)" by simp_all
    then show ?case using snoc.IH assms(2) by (auto simp: nat_le_iff)
  qed simp
  then have e: "map mrEnvelope (filter (\<lambda>r. c < enSeq (mrEnvelope r)) (sessionRows st sid)) = drop (nat (c + 1)) (stream st sid)"
    using f assms(1) by simp
  have "sorted (map enSeq (stream st sid))" unfolding assms(1) by (simp add: sorted_iff_nth_mono)
  then have "sorted (map enSeq (drop (nat (c + 1)) (stream st sid)))" by (metis drop_map sorted_wrt_drop)
  then show ?thesis unfolding sinceMsgs_def orElse.simps e by (simp add: sort_key_id_if_sorted)
qed

section \<open>Long polls\<close>

lemma sinceMsgs_empty: "sinceMsgs st sid since = [] \<longleftrightarrow> (\<forall>e \<in> set (stream st sid). enSeq e \<le> orElse since (- 1))"
proof -
  have "sort_key f xs = [] \<longleftrightarrow> xs = []" for f :: "envelope \<Rightarrow> int" and xs by (metis length_0_conv length_sort)
  then show ?thesis by (auto simp: sinceMsgs_def stream_def filter_empty_conv not_less)
qed

lemma wakes_iff: "0 \<le> enSeq e \<Longrightarrow> wakes e (q, sid, since) \<longleftrightarrow> sid = enSession e \<and> (since = None \<or> orElse since (- 1) < enSeq e)"
  by (cases since) (auto simp: wakes_def)

lemma parseEnvelope_seq: "parseEnvelope r = Some e \<Longrightarrow> 0 \<le> enSeq e"
  by (auto simp: parseEnvelope_def split: option.splits if_splits)

definition idlePolls :: "relay \<Rightarrow> bool" where
  "idlePolls rl \<longleftrightarrow> (\<forall>(q, sid, since) \<in> set (rlPolls rl). sinceMsgs (rlStore rl) sid since = [])"

lemma appendMsg_stream:
  "appendMsg st now e = Inr st' \<Longrightarrow> stream st' sid = stream st sid @ (if enSession e = sid then [e] else [])"
  by (auto simp: appendMsg_def stream_append split: if_splits)

lemma idlePollsI: "(\<And>q sid since. (q, sid, since) \<in> set (rlPolls rl) \<Longrightarrow> sinceMsgs (rlStore rl) sid since = []) \<Longrightarrow> idlePolls rl"
  by (auto simp: idlePolls_def)

lemma idlePollsD: "idlePolls rl \<Longrightarrow> (q, sid, since) \<in> set (rlPolls rl) \<Longrightarrow> sinceMsgs (rlStore rl) sid since = []"
  by (auto simp: idlePolls_def)

lemma post_cases:
  obtains (refused) code where "postMessage rl now urlId body = (\<lparr>poStatus = code, poResolved = [], poPushed = []\<rparr>, rl)" "code \<noteq> 201"
  | (accepted) e st where "parseEnvelope body = Some e" "enSession e = urlId" "appendMsg (rlStore rl) now e = Inr st"
      "postMessage rl now urlId body =
        (\<lparr>poStatus = 201, poResolved = map (\<lambda>w. (fst w, [e])) (filter (wakes e) (rlPolls rl)),
           poPushed = map (\<lambda>s. (fst s, e)) (filter (\<lambda>s. snd s = enSession e) (rlSockets rl))\<rparr>,
         rl\<lparr>rlStore := st, rlPolls := filter (\<lambda>w. \<not> wakes e w) (rlPolls rl)\<rparr>)"
proof (cases "parseEnvelope body")
  case None
  then show ?thesis using refused [of 400] by (simp add: postMessage_def)
next
  case (Some e)
  show ?thesis
  proof (cases "enSession e = urlId")
    case True
    show ?thesis
    proof (cases "appendMsg (rlStore rl) now e")
      case (Inl err)
      then show ?thesis using refused [of 409] Some True by (simp add: postMessage_def)
    next
      case (Inr st)
      show ?thesis by (rule accepted [OF Some True Inr]) (simp add: postMessage_def Some True Inr)
    qed
  next
    case False
    then show ?thesis using refused [of 400] Some by (simp add: postMessage_def)
  qed
qed

lemma post_idle:
  assumes "idlePolls rl"
  shows "idlePolls (snd (postMessage rl now urlId body))"
proof (cases rule: post_cases [of rl now urlId body])
  case (accepted e st)
  show ?thesis
  proof (rule idlePollsI)
    fix q sid since
    assume "(q, sid, since) \<in> set (rlPolls (snd (postMessage rl now urlId body)))"
    then have w: "(q, sid, since) \<in> set (rlPolls rl)" "\<not> wakes e (q, sid, since)"
      unfolding accepted(4) by auto
    have "sid \<noteq> enSession e \<or> enSeq e \<le> orElse since (- 1)"
      using w(2) wakes_iff [OF parseEnvelope_seq [OF accepted(1)]] by auto
    then show "sinceMsgs (rlStore (snd (postMessage rl now urlId body))) sid since = []"
      using idlePollsD [OF assms w(1)] unfolding accepted(4)
      by (auto simp: sinceMsgs_empty appendMsg_stream [OF accepted(3)])
  qed
qed (use assms in simp)

lemma step_idle: "relayStep rl rl' \<Longrightarrow> idlePolls rl \<Longrightarrow> idlePolls rl'"
proof (induction rule: relayStep.induct)
  case (step_post rl now urlId body)
  then show ?case by (rule post_idle)
next
  case (step_sweep rl now)
  then show ?case by (fastforce simp: idlePolls_def sweepRelay_def sinceMsgs_empty sweep_stream split: if_splits)
qed (auto simp: idlePolls_def getMessages_def pollTimeout_def wsConnect_def wsClose_def Let_def)

lemma reachable_idle: "reachable rl \<Longrightarrow> idlePolls rl"
proof (induction rule: reachable.induct)
  case reach_init
  show ?case by (simp add: newRelay_def idlePolls_def)
qed (rule step_idle)

lemma sinceMsgs_append_one:
  assumes "sinceMsgs st (enSession e) since = []" "appendMsg st now e = Inr st'" "orElse since (- 1) < enSeq e"
  shows "sinceMsgs st' (enSession e) since = [e]"
proof -
  have s: "sinceMsgs s sid since = sort_key enSeq (filter (\<lambda>e. orElse since (- 1) < enSeq e) (stream s sid))" for s sid
    by (simp add: sinceMsgs_def stream_def filter_map comp_def)
  have "filter (\<lambda>e. orElse since (- 1) < enSeq e) (stream st (enSession e)) = []"
    using assms(1) unfolding sinceMsgs_empty by (auto simp: filter_empty_conv)
  then show ?thesis using assms(3) by (simp add: s appendMsg_stream [OF assms(2)])
qed

section \<open>Properties\<close>

text \<open>C22: Whatever the participants post, read, connect or leave and however sweeps fall in between, every session's
  stream is numbered 0, 1, 2, ... without gaps or repetitions, a read past a cursor returns exactly the
  messages after it in order, and a post is accepted only with the next number.\<close>

theorem relay_streams_gap_free:
  assumes "reachable rl" "- 1 \<le> c"
  shows "map enSeq (stream (rlStore rl) sid) = map int [0..<length (stream (rlStore rl) sid)]
    \<and> sinceMsgs (rlStore rl) sid (Some c) = drop (nat (c + 1)) (stream (rlStore rl) sid)
    \<and> ((\<exists>st. appendMsg (rlStore rl) now e = Inr st) \<longleftrightarrow> enSeq e = int (length (stream (rlStore rl) (enSession e))))"
proof (intro conjI)
  have g: "map enSeq (stream (rlStore rl) s) = map int [0..<length (stream (rlStore rl) s)]" for s
    using reachable_gapFree [OF assms(1)] by (simp add: gapFree_def)
  show "map enSeq (stream (rlStore rl) sid) = map int [0..<length (stream (rlStore rl) sid)]" by (rule g)
  show "sinceMsgs (rlStore rl) sid (Some c) = drop (nat (c + 1)) (stream (rlStore rl) sid)"
    by (rule sinceMsgs_drop [OF g assms(2)])
  show "(\<exists>st. appendMsg (rlStore rl) now e = Inr st) \<longleftrightarrow> enSeq e = int (length (stream (rlStore rl) (enSession e)))"
    by (simp add: appendMsg_def nextSeq_length [OF g])
qed

definition demoBody :: "int \<Rightarrow> rawEnvelope" where
  "demoBody n = \<lparr>reSession = replicate 64 CHR ''a'', reSeq = n, reKind = ''nonce'', reCiphertext = ''QUJD''\<rparr>"

definition demoRelay :: relay where
  "demoRelay = snd (postMessage (snd (postMessage newRelay 5 (replicate 64 CHR ''a'') (demoBody 0))) 6 (replicate 64 CHR ''a'') (demoBody 1))"

lemma demoRelay_reachable: "reachable demoRelay"
  unfolding demoRelay_def by (rule reach_step [OF reach_step [OF reach_init step_post] step_post])

lemma demoRelay_stream: "map enSeq (stream (rlStore demoRelay) (replicate 64 CHR ''a'')) = [0, 1]"
  by code_simp

theorem relay_streams_gap_free_witness:
  "length (stream (rlStore demoRelay) (replicate 64 CHR ''a'')) = 2 \<and>
   sinceMsgs (rlStore demoRelay) (replicate 64 CHR ''a'') (Some 0) = drop 1 (stream (rlStore demoRelay) (replicate 64 CHR ''a''))"
  using relay_streams_gap_free [OF demoRelay_reachable, of 0 "replicate 64 CHR ''a''"]
    arg_cong [OF demoRelay_stream, of length] by simp

text \<open>C29: No wake-up is lost.  In every reachable state a waiting long poll has no stored message past its cursor,
  and the next accepted post in its session past that cursor answers it with exactly what a fresh read of the
  new store would return; every other waiting poll stays registered.\<close>

theorem long_poll_no_lost_wakeup:
  assumes "reachable rl" "(q, sid, since) \<in> set (rlPolls rl)"
    "postMessage rl now sid body = (rep, rl')" "poStatus rep = 201" "parseEnvelope body = Some e"
  shows "sinceMsgs (rlStore rl) sid since = []
    \<and> (if orElse since (- 1) < enSeq e
        then (q, sinceMsgs (rlStore rl') sid since) \<in> set (poResolved rep) \<and> (q, sid, since) \<notin> set (rlPolls rl')
        else (q, sid, since) \<in> set (rlPolls rl'))"
proof (rule conjI)
  show idle: "sinceMsgs (rlStore rl) sid since = []"
    by (rule idlePollsD [OF reachable_idle [OF assms(1)] assms(2)])
  obtain st where st: "enSession e = sid" "appendMsg (rlStore rl) now e = Inr st"
    "rep = \<lparr>poStatus = 201, poResolved = map (\<lambda>w. (fst w, [e])) (filter (wakes e) (rlPolls rl)),
           poPushed = map (\<lambda>s. (fst s, e)) (filter (\<lambda>s. snd s = enSession e) (rlSockets rl))\<rparr>"
    "rl' = rl\<lparr>rlStore := st, rlPolls := filter (\<lambda>w. \<not> wakes e w) (rlPolls rl)\<rparr>"
    by (cases rule: post_cases [of rl now sid body]) (use assms(3-5) in auto)
  have pos: "0 \<le> enSeq e" by (rule parseEnvelope_seq [OF assms(5)])
  show "if orElse since (- 1) < enSeq e
        then (q, sinceMsgs (rlStore rl') sid since) \<in> set (poResolved rep) \<and> (q, sid, since) \<notin> set (rlPolls rl')
        else (q, sid, since) \<in> set (rlPolls rl')"
  proof (cases "orElse since (- 1) < enSeq e")
    case True
    have w: "wakes e (q, sid, since)" using True st(1) by (auto simp: wakes_iff [OF pos])
    have "sinceMsgs (rlStore rl') sid since = [e]"
      using sinceMsgs_append_one [of "rlStore rl" e since now st] idle True st by simp
    then show ?thesis using w assms(2) True by (force simp: st(3,4))
  next
    case False
    then show ?thesis using assms(2) pos by (cases since) (auto simp: st(4) wakes_def)
  qed
qed

definition waitingRelay :: relay where
  "waitingRelay = snd (getMessages demoRelay 7 (replicate 64 CHR ''a'') (Some 1))"

lemma waitingRelay_reachable: "reachable waitingRelay"
  unfolding waitingRelay_def by (rule reach_step [OF demoRelay_reachable step_get])

lemma waitingRelay_polls: "rlPolls waitingRelay = [(7, replicate 64 CHR ''a'', Some 1)]"
  by code_simp

lemma waitingRelay_post: "poStatus (fst (postMessage waitingRelay 9 (replicate 64 CHR ''a'') (demoBody 2))) = 201"
  by code_simp

lemma waitingRelay_seq: "map_option enSeq (parseEnvelope (demoBody 2)) = Some 2"
  by code_simp

theorem long_poll_no_lost_wakeup_witness:
  "(let (rep, rl) = postMessage waitingRelay 9 (replicate 64 CHR ''a'') (demoBody 2) in
     (7, sinceMsgs (rlStore rl) (replicate 64 CHR ''a'') (Some 1)) \<in> set (poResolved rep))"
proof -
  obtain rep rl where r: "postMessage waitingRelay 9 (replicate 64 CHR ''a'') (demoBody 2) = (rep, rl)"
    by (cases "postMessage waitingRelay 9 (replicate 64 CHR ''a'') (demoBody 2)")
  obtain e where e: "parseEnvelope (demoBody 2) = Some e" "enSeq e = 2" using waitingRelay_seq by auto
  have "(7, sinceMsgs (rlStore rl) (replicate 64 CHR ''a'') (Some 1)) \<in> set (poResolved rep)"
    using long_poll_no_lost_wakeup [OF waitingRelay_reachable _ r _ e(1), of 7 "Some 1"]
      waitingRelay_polls waitingRelay_post e(2) unfolding r by simp
  then show ?thesis unfolding r by simp
qed

text \<open>A session swept as a whole restarts at 0, and the stream that follows is invisible to a client that kept
  its cursor: its reads return nothing, with no error, until the new stream is longer than the old one.\<close>

theorem swept_session_restarts_silently:
  assumes "reachable rl" "expiredSession (rlStore rl) (now - TTL_MS) sid" "enSession e = sid"
  shows "((\<exists>st. appendMsg (rlStore (sweepRelay rl now)) now' e = Inr st) \<longleftrightarrow> enSeq e = 0)
    \<and> (\<forall>st. appendMsg (rlStore (sweepRelay rl now)) now' e = Inr st \<longrightarrow>
           sinceMsgs st sid (Some (int (length (stream (rlStore rl) sid)) - 1)) = [])"
proof (intro conjI allI impI)
  have z: "stream (rlStore (sweepRelay rl now)) sid = []"
    using assms(2) by (simp add: sweepRelay_def sweep_stream)
  then have n: "nextSeq (rlStore (sweepRelay rl now)) sid = 0" using nextSeq_length [of "rlStore (sweepRelay rl now)" sid] by simp
  show "(\<exists>st. appendMsg (rlStore (sweepRelay rl now)) now' e = Inr st) \<longleftrightarrow> enSeq e = 0"
    using assms(3) n by (auto simp: appendMsg_def)
  fix st
  assume a: "appendMsg (rlStore (sweepRelay rl now)) now' e = Inr st"
  have "stream (rlStore rl) sid \<noteq> []" using assms(2) by (simp add: expiredSession_def stream_def)
  then have "0 < length (stream (rlStore rl) sid)" by simp
  moreover have "enSeq e = 0" using a n assms(3) by (auto simp: appendMsg_def split: if_splits)
  ultimately show "sinceMsgs st sid (Some (int (length (stream (rlStore rl) sid)) - 1)) = []"
    using z assms(3) by (simp add: sinceMsgs_empty appendMsg_stream [OF a])
qed

lemma demoRelay_expired: "expiredSession (rlStore demoRelay) (86400007 - TTL_MS) (replicate 64 CHR ''a'')"
  by code_simp

theorem swept_session_restarts_silently_witness:
  "\<exists>e. enSession e = replicate 64 CHR ''a'' \<and> (\<exists>st. appendMsg (rlStore (sweepRelay demoRelay 86400007)) 86400008 e = Inr st)"
proof -
  define e where "e = \<lparr>enSession = replicate 64 CHR ''a'', enSeq = 0, enKind = Nonce, enCiphertext = ''QUJD''\<rparr>"
  show ?thesis
    using swept_session_restarts_silently [OF demoRelay_reachable demoRelay_expired, of e 86400008]
    by (intro exI [of _ e]) (simp add: e_def)
qed

end
