(* ===== verification/Discovery.thy ===== *)
theory Discovery
  imports NoteModel Counters
begin

text \<open>
  \<open>discovery/types.ts\<close>, \<open>discovery/codec.ts\<close>, \<open>discovery/reconstruct.ts\<close> and \<open>discovery/reconcile.ts\<close>: the
  256-byte cell of the discovery service, the reconstruction of the two stripped ciphertext words and the
  reconciliation of the ephemeral counter with the chain.  Encoder and decoder are mutually inverse, the
  reconstruction gives the original ciphertext, and the counter only moves forward, past every occupied index.
\<close>

section \<open>Wire constants\<close>

definition RECORD_KIND_SELF :: int where "RECORD_KIND_SELF = 0"
definition RECORD_KIND_INCOMING :: int where "RECORD_KIND_INCOMING = 1"
definition HOWL_NOTE_LAYOUT_VERSION :: int where "HOWL_NOTE_LAYOUT_VERSION = 1"
definition HOWL_NOTE_RECORD_BYTES :: nat where "HOWL_NOTE_RECORD_BYTES = 246"
definition HOWL_NOTE_CELL_BYTES :: nat where "HOWL_NOTE_CELL_BYTES = 256"
definition COMMITMENT_PREFIX_BYTES :: nat where "COMMITMENT_PREFIX_BYTES = 16"
definition CIPHERTEXT_KEPT_INDICES :: "nat list" where "CIPHERTEXT_KEPT_INDICES = [1, 2, 3, 4, 6]"

definition OFF_LAYOUT :: nat where "OFF_LAYOUT = 0"
definition OFF_KIND :: nat where "OFF_KIND = 1"
definition OFF_LEAF_INDEX :: nat where "OFF_LEAF_INDEX = 2"
definition OFF_COMMITMENT_PREFIX :: nat where "OFF_COMMITMENT_PREFIX = 6"
definition OFF_EPH_X :: nat where "OFF_EPH_X = 22"
definition OFF_CEK_WRAP :: nat where "OFF_CEK_WRAP = 54"
definition OFF_CIPHERTEXT :: nat where "OFF_CIPHERTEXT = 86"
definition FIELD_BYTES :: nat where "FIELD_BYTES = 32"

record howlNoteRecord =
  hrLayoutVersion :: int
  hrRecordKind :: int
  hrLeafIndex :: int
  hrCommitmentPrefix :: "byte list"
  hrEphemeralPkX :: int
  hrCekWrap :: int
  hrCiphertextKept :: "int list"

section \<open>The codec\<close>

text \<open>\<open>Uint8Array.set\<close>, and a store to one byte, which keeps the low eight bits.\<close>

definition setBytes :: "byte list \<Rightarrow> nat \<Rightarrow> byte list \<Rightarrow> byte list" where
  "setBytes out offset bs = take offset out @ bs @ drop (offset + length bs) out"

definition setByte :: "byte list \<Rightarrow> nat \<Rightarrow> int \<Rightarrow> byte list" where
  "setByte out offset v = setBytes out offset [nat (v mod 256)]"

text \<open>\<open>Fr.toBuffer()\<close>: 32 bytes, big-endian.\<close>

definition toBuffer :: "int \<Rightarrow> byte list" where
  "toBuffer v = toBytesBE 32 v"

definition putField :: "byte list \<Rightarrow> nat \<Rightarrow> int \<Rightarrow> byte list result" where
  "putField out offset value =
     (let bs = toBuffer value in
      if length bs \<noteq> FIELD_BYTES then Inl (Error ''field serialises to an unexpected number of bytes'')
      else Inr (setBytes out offset bs))"

definition readField :: "libs \<Rightarrow> byte list \<Rightarrow> nat \<Rightarrow> int result" where
  "readField L src offset = FrFromBuffer L (take FIELD_BYTES (drop offset src))"

definition encodeHowlNoteRecord :: "howlNoteRecord \<Rightarrow> byte list result" where
  "encodeHowlNoteRecord r =
     (if length (hrCiphertextKept r) \<noteq> length CIPHERTEXT_KEPT_INDICES
      then Inl (Error ''record carries an unexpected number of kept ciphertext words'')
      else if length (hrCommitmentPrefix r) \<noteq> COMMITMENT_PREFIX_BYTES
      then Inl (Error ''commitment prefix has an unexpected length'')
      else if hrLeafIndex r < 0 \<or> 0xffffffff < hrLeafIndex r then Inl (Error ''leafIndex is not a u32'')
      else
        let out = replicate HOWL_NOTE_CELL_BYTES 0;
            out = setByte out OFF_LAYOUT (hrLayoutVersion r);
            out = setByte out OFF_KIND (hrRecordKind r);
            out = setBytes out OFF_LEAF_INDEX (toBytesBE 4 (hrLeafIndex r));
            out = setBytes out OFF_COMMITMENT_PREFIX (hrCommitmentPrefix r)
        in bindR (putField out OFF_EPH_X (hrEphemeralPkX r)) (\<lambda>out.
           bindR (putField out OFF_CEK_WRAP (hrCekWrap r)) (\<lambda>out.
           foldR (\<lambda>out (i, word). putField out (OFF_CIPHERTEXT + i * FIELD_BYTES) word) out
             (List.enumerate 0 (hrCiphertextKept r)))))"

definition decodeHowlNoteRecord :: "libs \<Rightarrow> byte list \<Rightarrow> howlNoteRecord result" where
  "decodeHowlNoteRecord L cell =
     (if length cell \<noteq> HOWL_NOTE_CELL_BYTES then Inl (Error ''cell has an unexpected length'')
      else let layoutVersion = int (cell ! OFF_LAYOUT); kind = int (cell ! OFF_KIND) in
      if layoutVersion \<noteq> HOWL_NOTE_LAYOUT_VERSION then Inl (Error ''record layout version is not supported'')
      else if kind \<noteq> RECORD_KIND_SELF \<and> kind \<noteq> RECORD_KIND_INCOMING
      then Inl (Error ''record kind is neither self nor incoming'')
      else if list_ex (\<lambda>i. cell ! i \<noteq> 0) [HOWL_NOTE_RECORD_BYTES..<HOWL_NOTE_CELL_BYTES]
      then Inl (Error ''cell padding is non-zero'')
      else
        bindR (readField L cell OFF_EPH_X) (\<lambda>ephX.
        bindR (readField L cell OFF_CEK_WRAP) (\<lambda>cekWrap.
        bindR (mapR (\<lambda>i. readField L cell (OFF_CIPHERTEXT + i * FIELD_BYTES)) [0..<length CIPHERTEXT_KEPT_INDICES]) (\<lambda>kept.
        Inr \<lparr>hrLayoutVersion = layoutVersion, hrRecordKind = kind,
             hrLeafIndex = bytesBE (take 4 (drop OFF_LEAF_INDEX cell)),
             hrCommitmentPrefix = take COMMITMENT_PREFIX_BYTES (drop OFF_COMMITMENT_PREFIX cell),
             hrEphemeralPkX = ephX, hrCekWrap = cekWrap, hrCiphertextKept = kept\<rparr>))))"

definition commitmentPrefixMatches :: "howlNoteRecord \<Rightarrow> int \<Rightarrow> bool" where
  "commitmentPrefixMatches r commitment =
     (let expected = take COMMITMENT_PREFIX_BYTES (toBuffer commitment) in
      list_all (\<lambda>(i, b). i < length expected \<and> b = expected ! i) (List.enumerate 0 (hrCommitmentPrefix r)))"

section \<open>Reconstruction of the stripped words\<close>

definition keystream :: "libs \<Rightarrow> int \<Rightarrow> nat \<Rightarrow> int result" where
  "keystream L cek index =
     bindR (toFr L ENC_DOMAIN) (\<lambda>d. bindR (toFr L (int index)) (\<lambda>n. Poseidon_hash L [cek, d, n]))"

definition STRIPPED_NOTE_VERSION_INDEX :: nat where "STRIPPED_NOTE_VERSION_INDEX = 0"
definition STRIPPED_OWNER_INDEX :: nat where "STRIPPED_OWNER_INDEX = 5"

definition reconstructCiphertext :: "libs \<Rightarrow> howlNoteRecord \<Rightarrow> int \<Rightarrow> int \<Rightarrow> int list result" where
  "reconstructCiphertext L r cek ownerCommitment =
     (if length (hrCiphertextKept r) \<noteq> length CIPHERTEXT_KEPT_INDICES
      then Inl (Error ''record carries an unexpected number of kept words'')
      else
        let full = fold (\<lambda>(i, wordIndex) full. full[wordIndex := Some (hrCiphertextKept r ! i)])
              (List.enumerate 0 CIPHERTEXT_KEPT_INDICES) (replicate DEM_FIELDS None)
        in bindR (keystream L cek STRIPPED_NOTE_VERSION_INDEX) (\<lambda>versionPad.
           bindR (keystream L cek STRIPPED_OWNER_INDEX) (\<lambda>ownerPad.
           bindR (newFr L ((NOTE_VERSION + versionPad) smod FrMODULUS L)) (\<lambda>w0.
           bindR (newFr L ((ownerCommitment + ownerPad) smod FrMODULUS L)) (\<lambda>w5.
           let full = (full[STRIPPED_NOTE_VERSION_INDEX := Some w0])[STRIPPED_OWNER_INDEX := Some w5] in
           if None \<in> set full then Inl (Error ''reconstructed ciphertext is missing a word'')
           else Inr (map the full))))))"

section \<open>Reconciliation of the counter\<close>

record firstOccurrence =
  foTag :: int
  foRecord :: "howlNoteRecord option"
  foOccurrenceCount :: int

record indexedTag =
  itIndex :: int
  itTag :: int

text \<open>The counter interface as a pair of operations on the store's state.\<close>

definition ratchetCounter :: "('s \<Rightarrow> string \<Rightarrow> int \<Rightarrow> reservation result \<times> 's) \<Rightarrow> ('s \<Rightarrow> string \<Rightarrow> int) \<Rightarrow> 's \<Rightarrow> string \<Rightarrow> int
    \<Rightarrow> int result \<times> 's" where
  "ratchetCounter reserve high s scope toExclusive =
     (if toExclusive < 0 then (Inl (Error ''ratchet target is not a non-negative integer''), s)
      else let current = high s scope in
      if toExclusive \<le> current then (Inr current, s)
      else case reserve s scope (toExclusive - current) of
        (Inl e, s') \<Rightarrow> (Inl e, s')
      | (Inr r, s') \<Rightarrow> (Inr toExclusive, s'))"

text \<open>The batch probe is the discovery service's; \<open>Map\<close> keeps the last index of a repeated tag.\<close>

definition occupiedTags :: "(int list \<Rightarrow> firstOccurrence list result) \<Rightarrow> indexedTag list \<Rightarrow> int list result" where
  "occupiedTags probeFirst tags =
     (if tags = [] then Inr []
      else bindR (probeFirst (map itTag tags)) (\<lambda>probed.
        let byTag = map_of (rev (map (\<lambda>t. (itTag t, itIndex t)) tags)) in
        Inr (remdups (List.map_filter (\<lambda>entry. if foOccurrenceCount entry \<le> 0 then None else byTag (foTag entry)) probed))))"

definition reconcileCounterWithChain :: "(int list \<Rightarrow> firstOccurrence list result)
    \<Rightarrow> ('s \<Rightarrow> string \<Rightarrow> int \<Rightarrow> reservation result \<times> 's) \<Rightarrow> ('s \<Rightarrow> string \<Rightarrow> int) \<Rightarrow> 's \<Rightarrow> string
    \<Rightarrow> indexedTag list \<Rightarrow> (int \<times> int list) result \<times> 's" where
  "reconcileCounterWithChain probeFirst reserve high s scope candidates =
     (case occupiedTags probeFirst candidates of Inl e \<Rightarrow> (Inl e, s)
      | Inr occupied \<Rightarrow>
        let sortedOcc = sort occupied;
            highest = (if sortedOcc = [] then - 1 else last sortedOcc) in
        case ratchetCounter reserve high s scope (highest + 1) of
          (Inl e, s') \<Rightarrow> (Inl e, s')
        | (Inr highWater, s') \<Rightarrow> (Inr (highWater, sortedOcc), s'))"

section \<open>Cells\<close>

lemmas cell_consts = HOWL_NOTE_CELL_BYTES_def HOWL_NOTE_RECORD_BYTES_def COMMITMENT_PREFIX_BYTES_def CIPHERTEXT_KEPT_INDICES_def
  OFF_LAYOUT_def OFF_KIND_def OFF_LEAF_INDEX_def OFF_COMMITMENT_PREFIX_def OFF_EPH_X_def OFF_CEK_WRAP_def OFF_CIPHERTEXT_def FIELD_BYTES_def

text \<open>What the TypeScript type of a record and the wire format allow.\<close>

definition recordOk :: "howlNoteRecord \<Rightarrow> bool" where
  "recordOk r \<longleftrightarrow> hrLayoutVersion r = HOWL_NOTE_LAYOUT_VERSION
    \<and> (hrRecordKind r = RECORD_KIND_SELF \<or> hrRecordKind r = RECORD_KIND_INCOMING)
    \<and> 0 \<le> hrLeafIndex r \<and> hrLeafIndex r < 2 ^ 32
    \<and> length (hrCommitmentPrefix r) = COMMITMENT_PREFIX_BYTES \<and> list_all isByte (hrCommitmentPrefix r)
    \<and> isFr (hrEphemeralPkX r) \<and> isFr (hrCekWrap r)
    \<and> length (hrCiphertextKept r) = length CIPHERTEXT_KEPT_INDICES \<and> list_all isFr (hrCiphertextKept r)"

text \<open>The layout a record is written to, field after field.\<close>

definition cellOf :: "howlNoteRecord \<Rightarrow> byte list" where
  "cellOf r = [nat (hrLayoutVersion r mod 256), nat (hrRecordKind r mod 256)] @ toBytesBE 4 (hrLeafIndex r)
     @ hrCommitmentPrefix r @ toBuffer (hrEphemeralPkX r) @ toBuffer (hrCekWrap r)
     @ concat (map toBuffer (hrCiphertextKept r)) @ replicate 10 0"

lemma toBuffer_length [simp]: "length (toBuffer v) = 32"
  by (simp add: toBuffer_def)

lemma setBytes_next:
  "length pre = offset \<Longrightarrow> length bs \<le> n \<Longrightarrow>
    setBytes (pre @ replicate n 0) offset bs = (pre @ bs) @ replicate (n - length bs) 0"
  by (simp add: setBytes_def)

lemma setByte_next:
  "length pre = offset \<Longrightarrow> 1 \<le> n \<Longrightarrow>
    setByte (pre @ replicate n 0) offset v = (pre @ [nat (v mod 256)]) @ replicate (n - 1) 0"
  by (simp add: setByte_def setBytes_next)

lemma putField_next:
  "length pre = offset \<Longrightarrow> 32 \<le> n \<Longrightarrow>
    putField (pre @ replicate n 0) offset v = Inr ((pre @ toBuffer v) @ replicate (n - 32) 0)"
  by (simp add: putField_def FIELD_BYTES_def setBytes_next)

lemma putFields:
  assumes "length pre = 22"
  shows "bindR (putField (pre @ replicate 234 0) 22 x) (\<lambda>out. bindR (putField out 54 y) (\<lambda>out.
      foldR (\<lambda>out (i, word). putField out (86 + i * 32) word) out (List.enumerate 0 [a, b, c, d, e])))
    = Inr (pre @ toBuffer x @ toBuffer y @ toBuffer a @ toBuffer b @ toBuffer c @ toBuffer d @ toBuffer e @ replicate 10 0)"
  by (simp add: putField_next assms del: append_assoc bindR_eq_Inr)

lemma five_words: "length xs = 5 \<Longrightarrow> \<exists>a b c d e. xs = [a, b, c, d, e]"
  by (auto simp: numeral_eq_Suc length_Suc_conv)

lemma recordOk_kept:
  assumes "recordOk r"
  obtains a b c d e where "hrCiphertextKept r = [a, b, c, d, e]"
proof -
  have "length (hrCiphertextKept r) = 5" using assms by (simp add: recordOk_def CIPHERTEXT_KEPT_INDICES_def)
  then show thesis using five_words that by blast
qed

lemma encode_cellOf:
  assumes "recordOk r"
  shows "encodeHowlNoteRecord r = Inr (cellOf r)"
proof -
  obtain a b c d e where kept: "hrCiphertextKept r = [a, b, c, d, e]"
    using recordOk_kept [OF assms] .
  let ?p1 = "[] @ [nat (hrLayoutVersion r mod 256)]"
  let ?p2 = "?p1 @ [nat (hrRecordKind r mod 256)]"
  let ?p3 = "?p2 @ toBytesBE 4 (hrLeafIndex r)"
  let ?p4 = "?p3 @ hrCommitmentPrefix r"
  have len: "length (hrCommitmentPrefix r) = 16" using assms by (simp add: recordOk_def COMMITMENT_PREFIX_BYTES_def)
  have s1: "setByte (replicate 256 0) 0 (hrLayoutVersion r) = ?p1 @ replicate 255 0"
    using setByte_next [of "[]" 0 256] by simp
  have s2: "setByte (?p1 @ replicate 255 0) 1 (hrRecordKind r) = ?p2 @ replicate 254 0"
    by (subst setByte_next) simp_all
  have s3: "setBytes (?p2 @ replicate 254 0) 2 (toBytesBE 4 (hrLeafIndex r)) = ?p3 @ replicate 250 0"
    by (subst setBytes_next) simp_all
  have s4: "setBytes (?p3 @ replicate 250 0) 6 (hrCommitmentPrefix r) = ?p4 @ replicate 234 0"
    by (subst setBytes_next) (simp_all add: len)
  have l4: "length ?p4 = 22" by (simp add: len)
  have ok: "0 \<le> hrLeafIndex r" "hrLeafIndex r \<le> 0xffffffff" using assms by (simp_all add: recordOk_def)
  show ?thesis
    unfolding encodeHowlNoteRecord_def cell_consts Let_def s1 s2 s3 s4 kept
    using putFields [OF l4, of "hrEphemeralPkX r" "hrCekWrap r" a b c d e] ok len
    by (simp add: cellOf_def kept del: bindR_eq_Inr)
qed

lemma readField_of:
  assumes "fr_laws L" "take FIELD_BYTES (drop offset cell) = toBuffer v" "isFr v"
  shows "readField L cell offset = Inr v"
proof -
  have "bytesBE (toBuffer v) = v"
    using assms(3) by (simp add: toBuffer_def bytesBE_toBytesBE isFr_def BN254_P_def)
  then show ?thesis using assms by (simp add: readField_def fr_laws_buffer)
qed

lemma slice_append: "length pre = k \<Longrightarrow> length x = n \<Longrightarrow> take n (drop k (pre @ x @ post)) = x"
  by simp

lemma decode_cellOf:
  assumes L: "fr_laws L" and r: "recordOk r"
  shows "decodeHowlNoteRecord L (cellOf r) = Inr r"
proof -
  obtain a b c d e where kept: "hrCiphertextKept r = [a, b, c, d, e]" using recordOk_kept [OF r] .
  let ?h = "[nat (hrLayoutVersion r mod 256), nat (hrRecordKind r mod 256)]"
  let ?l = "toBytesBE 4 (hrLeafIndex r)" and ?p = "hrCommitmentPrefix r" and ?B = toBuffer
  let ?x = "?B (hrEphemeralPkX r)" and ?w = "?B (hrCekWrap r)"
  have cell: "cellOf r = ?h @ ?l @ ?p @ ?x @ ?w @ ?B a @ ?B b @ ?B c @ ?B d @ ?B e @ replicate 10 0"
    by (simp add: cellOf_def kept)
  have len: "length ?p = 16" "length (?B v) = 32" "length ?l = 4" for v
    using r by (simp_all add: recordOk_def COMMITMENT_PREFIX_BYTES_def)
  have rf: "readField L (cellOf r) k = Inr v" if "cellOf r = pre @ ?B v @ post" "length pre = k" "isFr v" for pre post k v
    using that slice_append [of pre k "?B v" 32 post] by (intro readField_of [OF L]) (simp_all add: FIELD_BYTES_def)
  have fr: "isFr (hrEphemeralPkX r)" "isFr (hrCekWrap r)" "isFr a" "isFr b" "isFr c" "isFr d" "isFr e"
    using r by (simp_all add: recordOk_def kept)
  have reads: "readField L (cellOf r) 22 = Inr (hrEphemeralPkX r)"
    "readField L (cellOf r) 54 = Inr (hrCekWrap r)"
    "readField L (cellOf r) 86 = Inr (a)"
    "readField L (cellOf r) 118 = Inr (b)"
    "readField L (cellOf r) 150 = Inr (c)"
    "readField L (cellOf r) 182 = Inr (d)"
    "readField L (cellOf r) 214 = Inr (e)"
    subgoal by (rule rf [of "?h @ ?l @ ?p" _ _ 22, OF _ _ fr(1)]) (simp_all add: cell len)
    subgoal by (rule rf [of "?h @ ?l @ ?p @ ?x" _ _ 54, OF _ _ fr(2)]) (simp_all add: cell len)
    subgoal by (rule rf [of "?h @ ?l @ ?p @ ?x @ ?w" _ _ 86, OF _ _ fr(3)]) (simp_all add: cell len)
    subgoal by (rule rf [of "?h @ ?l @ ?p @ ?x @ ?w @ ?B a" _ _ 118, OF _ _ fr(4)]) (simp_all add: cell len)
    subgoal by (rule rf [of "?h @ ?l @ ?p @ ?x @ ?w @ ?B a @ ?B b" _ _ 150, OF _ _ fr(5)]) (simp_all add: cell len)
    subgoal by (rule rf [of "?h @ ?l @ ?p @ ?x @ ?w @ ?B a @ ?B b @ ?B c" _ _ 182, OF _ _ fr(6)]) (simp_all add: cell len)
    subgoal by (rule rf [of "?h @ ?l @ ?p @ ?x @ ?w @ ?B a @ ?B b @ ?B c @ ?B d" _ _ 214, OF _ _ fr(7)]) (simp_all add: cell len)
    done
  have leaf: "take 4 (drop 2 (cellOf r)) = ?l" unfolding cell by (rule slice_append) simp_all
  have pre: "take 16 (drop 6 (cellOf r)) = ?p"
    using slice_append [of "?h @ ?l" 6 ?p 16] len unfolding cell by simp
  have pad: "list_ex (\<lambda>i. cellOf r ! i \<noteq> 0) [246..<256] = False"
  proof -
    have "cellOf r = (?h @ ?l @ ?p @ ?x @ ?w @ ?B a @ ?B b @ ?B c @ ?B d @ ?B e) @ replicate 10 0" by (simp add: cell)
    moreover have "length (?h @ ?l @ ?p @ ?x @ ?w @ ?B a @ ?B b @ ?B c @ ?B d @ ?B e) = 246" by (simp add: len)
    ultimately have "cellOf r ! i = 0" if "246 \<le> i" "i < 256" for i using that by (simp only: nth_append) simp
    then show ?thesis by (auto simp: list_ex_iff)
  qed
  have lenc: "length (cellOf r) = 256" by (simp add: cell len)
  have hd: "int (cellOf r ! 0) = hrLayoutVersion r" "int (cellOf r ! 1) = hrRecordKind r"
    using r by (auto simp: cell recordOk_def HOWL_NOTE_LAYOUT_VERSION_def RECORD_KIND_SELF_def RECORD_KIND_INCOMING_def)
  have idx: "bytesBE ?l = hrLeafIndex r" using r by (simp add: bytesBE_toBytesBE recordOk_def)
  have ks: "mapR (\<lambda>i. readField L (cellOf r) (86 + i * 32)) [0..<length [1, 2, 3, 4, 6::nat]] = Inr (hrCiphertextKept r)"
    using reads by (simp add: upt_rec kept)
  show ?thesis
    unfolding decodeHowlNoteRecord_def cell_consts Let_def lenc pad hd leaf pre idx ks reads
    using r by (auto simp: recordOk_def intro: howlNoteRecord.equality)
qed

text \<open>The converse: a decoded cell is the cell of its record.\<close>

lemma slice_bytes: "list_all isByte cell \<Longrightarrow> list_all isByte (take n (drop k cell))"
  by (auto simp: list_all_iff dest: in_set_takeD in_set_dropD)

lemma slice_step: "take n (drop k xs) @ drop (k + n) xs = drop k xs"
  by (metis append_take_drop_id drop_drop add.commute)

lemma readField_Inr:
  assumes "fr_laws L" "list_all isByte cell" "length cell = 256" "k + 32 \<le> 256" "readField L cell k = Inr v"
  shows "isFr v \<and> toBuffer v = take 32 (drop k cell)"
proof -
  let ?s = "take 32 (drop k cell)"
  have len: "length ?s = 32" using assms(3,4) by simp
  then have "newFr L (bytesBE ?s) = Inr v" using assms(1,5) by (simp add: readField_def FIELD_BYTES_def fr_laws_buffer)
  then have "v = bytesBE ?s" "isFr v" using fr_laws_newD [OF assms(1)] by auto
  moreover have "toBytesBE (length ?s) (bytesBE ?s) = ?s" by (rule toBytesBE_bytesBE [OF slice_bytes [OF assms(2)]])
  ultimately show ?thesis using len by (simp add: toBuffer_def)
qed

lemma decode_Inr:
  assumes L: "fr_laws L" and bytes: "list_all isByte cell" and dec: "decodeHowlNoteRecord L cell = Inr r"
  shows "recordOk r \<and> cellOf r = cell"
proof -
  have len: "length cell = 256" and v: "int (cell ! 0) = 1" and k: "int (cell ! 1) = 0 \<or> int (cell ! 1) = 1"
    and pad: "\<forall>i \<in> set [246..<256]. cell ! i = 0"
    using dec by (auto simp: decodeHowlNoteRecord_def cell_consts Let_def RECORD_KIND_SELF_def RECORD_KIND_INCOMING_def
        HOWL_NOTE_LAYOUT_VERSION_def list_ex_iff split: if_splits)
  obtain x w a b c d e where f: "readField L cell 22 = Inr x" "readField L cell 54 = Inr w"
    "readField L cell 86 = Inr a" "readField L cell 118 = Inr b" "readField L cell 150 = Inr c"
    "readField L cell 182 = Inr d" "readField L cell 214 = Inr e"
    and r: "r = \<lparr>hrLayoutVersion = int (cell ! 0), hrRecordKind = int (cell ! 1), hrLeafIndex = bytesBE (take 4 (drop 2 cell)),
      hrCommitmentPrefix = take 16 (drop 6 cell), hrEphemeralPkX = x, hrCekWrap = w, hrCiphertextKept = [a, b, c, d, e]\<rparr>"
    using dec by (auto simp: decodeHowlNoteRecord_def cell_consts Let_def upt_rec split: if_splits)
  note rd = readField_Inr [OF L bytes len]
  have w: "toBuffer x = take 32 (drop 22 cell)" "toBuffer w = take 32 (drop 54 cell)"
    "toBuffer a = take 32 (drop 86 cell)" "toBuffer b = take 32 (drop 118 cell)" "toBuffer c = take 32 (drop 150 cell)"
    "toBuffer d = take 32 (drop 182 cell)" "toBuffer e = take 32 (drop 214 cell)"
    using f [THEN rd [rotated]] by simp_all
  have fr: "isFr x" "isFr w" "isFr a" "isFr b" "isFr c" "isFr d" "isFr e"
    using f [THEN rd [rotated]] by simp_all
  have l4: "toBytesBE 4 (bytesBE (take 4 (drop 2 cell))) = take 4 (drop 2 cell)"
    using toBytesBE_bytesBE [OF slice_bytes [OF bytes, of 4 2]] len by simp
  have u32: "bytesBE (take 4 (drop 2 cell)) < 2 ^ 32"
    using bytesBE_bound [OF slice_bytes [OF bytes, of 4 2]] len by simp
  have pad': "cell ! (246 + i) = 0" if "i < 10" for i
  proof -
    have "246 + i \<in> set [246..<256]" unfolding set_upt atLeastLessThan_iff using that by linarith
    with pad show ?thesis by blast
  qed
  have tail: "drop 246 cell = replicate 10 0"
    using pad' len by (intro nth_equalityI) simp_all
  have hd: "[nat (int (cell ! 0) mod 256), nat (int (cell ! 1) mod 256)] @ drop 2 cell = cell"
  proof -
    have "cell = cell ! 0 # cell ! 1 # drop 2 cell"
      using Cons_nth_drop_Suc [of 0 cell] Cons_nth_drop_Suc [of 1 cell] len by (simp add: numeral_2_eq_2)
    moreover have "nat (int (cell ! 0) mod 256) = cell ! 0" "nat (int (cell ! 1) mod 256) = cell ! 1" using v k by auto
    ultimately show ?thesis by simp
  qed
  have "cellOf r = cell"
    using slice_step [of 4 2 cell] slice_step [of 16 6 cell] slice_step [of 32 22 cell] slice_step [of 32 54 cell]
      slice_step [of 32 86 cell] slice_step [of 32 118 cell] slice_step [of 32 150 cell] slice_step [of 32 182 cell]
      slice_step [of 32 214 cell] hd
    by (simp add: cellOf_def r l4 w tail)
  moreover have "recordOk r"
    using fr v k u32 len slice_bytes [OF bytes, of 16 6] bytesBE_nonneg [of "take 4 (drop 2 cell)"]
    by (auto simp: recordOk_def r HOWL_NOTE_LAYOUT_VERSION_def RECORD_KIND_SELF_def RECORD_KIND_INCOMING_def
        COMMITMENT_PREFIX_BYTES_def CIPHERTEXT_KEPT_INDICES_def)
  ultimately show ?thesis by simp
qed

section \<open>Reconstruction\<close>

lemma keystream_dem: "keystream L cek k = demKeystream L cek k"
  by (simp add: keystream_def demKeystream_def)

lemma reconstruct_original:
  assumes L: "fr_laws L" and pt: "length pt = DEM_FIELDS" "pt ! 0 = NOTE_VERSION" "pt ! 5 = owner" "isFr owner"
    and ct: "demEncrypt L cek pt = Inr ct" and kept: "hrCiphertextKept r = map (\<lambda>i. ct ! i) CIPHERTEXT_KEPT_INDICES"
  shows "reconstructCiphertext L r cek owner = Inr ct"
proof -
  let ?ks = "\<lambda>k. poseidon2Hash L [cek, ENC_DOMAIN, int k]"
  have ct_eq: "ct = map (\<lambda>k. FrAdd L (pt ! k) (?ks k)) [0..<7]"
    using ct demEncrypt_ok [OF L pt(1)] by (simp add: DEM_FIELDS_def)
  have ks: "keystream L cek k = Inr (?ks k)" "0 \<le> ?ks k" if "k < 7" for k
    using demKeystream_ok [OF L, of k cek] that fr_laws_hash [OF L] by (simp_all add: keystream_dem DEM_FIELDS_def isFr_def)
  have w: "newFr L ((p + ?ks k) smod FrMODULUS L) = Inr (FrAdd L p (?ks k))" if "0 \<le> p" "k < 7" for p k
    using that ks(2) [of k] L by (simp add: fr_laws_modulus fr_laws_add smod_nonneg)
  have full: "fold (\<lambda>(i, wordIndex) full. full[wordIndex := Some (hrCiphertextKept r ! i)])
      (List.enumerate 0 CIPHERTEXT_KEPT_INDICES) (replicate DEM_FIELDS None)
    = [None, Some (ct ! 1), Some (ct ! 2), Some (ct ! 3), Some (ct ! 4), None, Some (ct ! 6)]"
    by (simp add: CIPHERTEXT_KEPT_INDICES_def DEM_FIELDS_def kept numeral_eq_Suc)
  have "ct = [ct ! 0, ct ! 1, ct ! 2, ct ! 3, ct ! 4, ct ! 5, ct ! 6]"
    unfolding ct_eq by (simp add: upt_rec)
  moreover have "ct ! 0 = FrAdd L NOTE_VERSION (?ks 0)" "ct ! 5 = FrAdd L owner (?ks 5)"
    using pt by (simp_all add: ct_eq)
  moreover have "0 \<le> NOTE_VERSION" "0 \<le> owner" using pt(4) by (simp_all add: NOTE_VERSION_def isFr_def)
  moreover have "length (hrCiphertextKept r) = length CIPHERTEXT_KEPT_INDICES" by (simp add: kept)
  ultimately show ?thesis
    using ks(1) [of 0] ks(1) [of 5] w [of NOTE_VERSION 0] w [of owner 5]
    unfolding reconstructCiphertext_def full Let_def STRIPPED_NOTE_VERSION_INDEX_def STRIPPED_OWNER_INDEX_def
    by simp
qed

section \<open>Reconciliation\<close>

context counter_store
begin

lemma ratchet_spec:
  assumes "ratchetCounter reserve high s scope t = (r, s')"
  shows "(\<forall>sc. high s sc \<le> high s' sc) \<and> (\<forall>v. r = Inr v \<longrightarrow> v = max t (high s scope) \<and> high s' scope = v)"
proof (cases "0 \<le> t \<and> high s scope < t")
  case True
  obtain x s1 where x: "reserve s scope (t - high s scope) = (x, s1)" by (cases "reserve s scope (t - high s scope)")
  then have "s' = s1" "\<forall>v. r = Inr v \<longrightarrow> v = t \<and> (\<exists>res. x = Inr res)"
    using assms True by (auto simp: ratchetCounter_def split: sum.splits)
  then show ?thesis using True reserve_mono [OF x] reserve_ok [of s scope "t - high s scope" _ s1] x by auto
next
  case False
  then show ?thesis using assms by (auto simp: ratchetCounter_def Let_def split: if_splits)
qed

lemma reconcile_spec:
  assumes "reconcileCounterWithChain probe reserve high s scope cands = (r, s')"
  shows "(\<forall>sc. high s sc \<le> high s' sc)
    \<and> (\<forall>hw occ. r = Inr (hw, occ) \<longrightarrow> hw = high s' scope \<and> (\<exists>o0. occupiedTags probe cands = Inr o0 \<and> set occ = set o0) \<and> (\<forall>i \<in> set occ. i < hw))"
proof (cases "occupiedTags probe cands")
  case (Inl e)
  then show ?thesis using assms by (auto simp: reconcileCounterWithChain_def)
next
  case (Inr o0)
  define h where "h = (if sort o0 = [] then - 1 else last (sort o0))"
  obtain x s1 where x: "ratchetCounter reserve high s scope (h + 1) = (x, s1)"
    by (cases "ratchetCounter reserve high s scope (h + 1)")
  have le: "i \<le> h" if "i \<in> set o0" for i
  proof -
    have "i \<in> set (sort o0)" using that by simp
    then obtain j where j: "j < length (sort o0)" "sort o0 ! j = i" by (metis in_set_conv_nth)
    then have "i \<le> sort o0 ! (length (sort o0) - 1)"
      using sorted_nth_mono [OF sorted_sort [of o0], of j "length (sort o0) - 1"] by simp
    moreover have "sort o0 \<noteq> []" using j(1) by (metis length_0_conv not_less_zero)
    ultimately show ?thesis unfolding h_def by (simp add: last_conv_nth)
  qed
  have "s' = s1" "\<forall>hw occ. r = Inr (hw, occ) \<longrightarrow> x = Inr hw \<and> occ = sort o0"
    using assms x unfolding reconcileCounterWithChain_def Inr h_def Let_def by (auto split: sum.splits)
  then show ?thesis using ratchet_spec [OF x] Inr le by fastforce
qed

end

lemma occupied_mem:
  assumes "occupiedTags probe cands = Inr o0" "distinct (map itTag cands)" "probe (map itTag cands) = Inr probed"
    and "t \<in> set cands" "e \<in> set probed" "foTag e = itTag t" "0 < foOccurrenceCount e"
  shows "itIndex t \<in> set o0"
proof -
  let ?m = "rev (map (\<lambda>t. (itTag t, itIndex t)) cands)"
  have "distinct (map fst ?m)" using assms(2) by (simp add: rev_map [symmetric] comp_def)
  moreover have "(itTag t, itIndex t) \<in> set ?m" using assms(4) by auto
  ultimately have "map_of ?m (itTag t) = Some (itIndex t)" by simp
  moreover have "cands \<noteq> []" using assms(4) by auto
  then have "o0 = remdups (List.map_filter (\<lambda>entry. if foOccurrenceCount entry \<le> 0 then None else map_of ?m (foTag entry)) probed)"
    using assms(1,3) by (simp add: occupiedTags_def Let_def)
  ultimately show ?thesis using assms(5-7) by (force simp: List.map_filter_def)
qed

section \<open>Properties\<close>

text \<open>the discovery cell.  For every record of the wire format encoding succeeds with a cell of 256 bytes that
  decodes to the record, and conversely every byte string the decoder accepts is the encoding of the record it
  returns: records and accepted cells are in bijection.\<close>

theorem howl_cell_bijection:
  assumes "fr_laws L" "list_all isByte cell"
  shows "(recordOk r \<and> encodeHowlNoteRecord r = Inr cell) \<longleftrightarrow> decodeHowlNoteRecord L cell = Inr r"
  using decode_Inr [OF assms] decode_cellOf [OF assms(1)] encode_cellOf by auto

definition toyRecord :: howlNoteRecord where
  "toyRecord = \<lparr>hrLayoutVersion = 1, hrRecordKind = 0, hrLeafIndex = 70000, hrCommitmentPrefix = [0..<16],
     hrEphemeralPkX = 0, hrCekWrap = 0, hrCiphertextKept = [3, 500, 70000, 9, 12]\<rparr>"

lemma toyRecord_ok: "recordOk toyRecord"
  by (simp add: recordOk_def toyRecord_def HOWL_NOTE_LAYOUT_VERSION_def RECORD_KIND_SELF_def COMMITMENT_PREFIX_BYTES_def
      CIPHERTEXT_KEPT_INDICES_def isFr_def BN254_P_def isByte_def list_all_iff)

lemma toyRecord_bytes: "list_all isByte (cellOf toyRecord)"
  by code_simp

theorem howl_cell_bijection_witness: "decodeHowlNoteRecord toyLibs (cellOf toyRecord) = Inr toyRecord"
  using howl_cell_bijection [OF toyLibs_fr_laws toyRecord_bytes, of toyRecord] toyRecord_ok encode_cellOf [OF toyRecord_ok]
  by simp

text \<open>nothing is lost by stripping.  From the five words a discovery service keeps, the content key and the
  owner's own commitment, the client rebuilds the ciphertext word for word, and decrypting it gives the
  plaintext that was encrypted.\<close>

theorem stripped_ciphertext_decrypts:
  assumes "fr_laws L" "list_all isFr pt" "length pt = DEM_FIELDS" "pt ! 0 = NOTE_VERSION" "pt ! 5 = owner"
    and "demEncrypt L cek pt = Inr ct" "hrCiphertextKept r = map (\<lambda>i. ct ! i) CIPHERTEXT_KEPT_INDICES"
  shows "reconstructCiphertext L r cek owner = Inr ct
    \<and> bindR (reconstructCiphertext L r cek owner) (demDecrypt L cek) = Inr pt"
proof -
  have "isFr owner" using assms(2,3,5) by (auto simp: list_all_length DEM_FIELDS_def)
  then have "reconstructCiphertext L r cek owner = Inr ct"
    by (rule reconstruct_original [OF assms(1,3-5) _ assms(6,7)])
  then show ?thesis using dem_inverts [OF assms(1,3,2), of cek] assms(6) by simp
qed

theorem stripped_ciphertext_decrypts_witness:
  "\<exists>ct r. demEncrypt toyLibs 9 [1, 2, 3, 4, 5, 6, 7] = Inr ct \<and> length (hrCiphertextKept r) = 5
    \<and> bindR (reconstructCiphertext toyLibs r 9 6) (demDecrypt toyLibs 9) = Inr [1, 2, 3, 4, 5, 6, 7]"
proof -
  obtain ct where ct: "demEncrypt toyLibs 9 [1, 2, 3, 4, 5, 6, 7] = Inr ct"
    using demEncrypt_ok [OF toyLibs_fr_laws, of "[1, 2, 3, 4, 5, 6, 7]" 9] by (simp add: DEM_FIELDS_def)
  let ?r = "toyRecord\<lparr>hrCiphertextKept := map (\<lambda>i. ct ! i) CIPHERTEXT_KEPT_INDICES\<rparr>"
  have "list_all isFr [1, 2, 3, 4, 5, 6, 7]" by (simp add: isFr_small)
  then have "bindR (reconstructCiphertext toyLibs ?r 9 6) (demDecrypt toyLibs 9) = Inr [1, 2, 3, 4, 5, 6, 7]"
    using stripped_ciphertext_decrypts [OF toyLibs_fr_laws, of "[1, 2, 3, 4, 5, 6, 7]" 6 9 ct ?r] ct
    by (auto simp: DEM_FIELDS_def NOTE_VERSION_def)
  then show ?thesis using ct by (intro exI [of _ ct] exI [of _ ?r]) (simp add: CIPHERTEXT_KEPT_INDICES_def)
qed

text \<open>reconciling after a restore only moves the counter forward, and past the chain.  Whatever else the
  discovery service answers, no high-water mark is lowered, and an index whose tag it reported as occurring is
  not in any reservation the wallet makes afterwards.\<close>

theorem reconcile_never_reuses:
  assumes "persistence_laws P" "distinct (map itTag cands)" "probe (map itTag cands) = Inr probed"
    and "reconcileCounterWithChain probe (persistentReserve P) (persistentHigh P) d scope cands = (Inr (hw, occ), d1)"
    and "t \<in> set cands" "e \<in> set probed" "foTag e = itTag t" "0 < foOccurrenceCount e"
    and "runReserves (persistentReserve P) d1 calls = (rs, d2)" "(scope, res) \<in> set rs"
  shows "(\<forall>sc. persistentHigh P d sc \<le> persistentHigh P d1 sc) \<and> itIndex t \<notin> resIndices res"
proof -
  have spec: "(\<forall>sc. persistentHigh P d sc \<le> persistentHigh P d1 sc) \<and> hw = persistentHigh P d1 scope
      \<and> (\<exists>o0. occupiedTags probe cands = Inr o0 \<and> set occ = set o0) \<and> (\<forall>i \<in> set occ. i < hw)"
    using persistent.reconcile_spec [of probe P d scope cands] assms(1,4) by auto
  moreover have "itIndex t \<in> set o0" if "occupiedTags probe cands = Inr o0" for o0
    using occupied_mem [OF that assms(2,3,5-8)] .
  moreover have "persistentHigh P d1 scope \<le> resBase res"
    using persistent.run_above [of P d1 calls rs d2 scope res] assms(1,9,10) by simp
  ultimately show ?thesis by (fastforce simp: resIndices_def)
qed

definition toyProbe :: "int list \<Rightarrow> firstOccurrence list result" where
  "toyProbe tags = Inr [\<lparr>foTag = 44, foRecord = Some toyRecord, foOccurrenceCount = 1\<rparr>]"

lemma toyProbe_reconcile:
  "reconcileCounterWithChain toyProbe (persistentReserve mapPersistence) (persistentHigh mapPersistence) Map.empty ''self''
      [\<lparr>itIndex = 0, itTag = 33\<rparr>, \<lparr>itIndex = 4, itTag = 44\<rparr>] = (Inr (5, [4]), Map.empty(''self'' \<mapsto> 5))"
  by (simp add: reconcileCounterWithChain_def occupiedTags_def toyProbe_def map_filter_simps ratchetCounter_def
      persistentReserve_def persistentHigh_def mapPersistence_def maxSafe_def)

theorem reconcile_never_reuses_witness: "4 \<notin> resIndices \<lparr>resBase = 5, resSpan = 1\<rparr>"
proof -
  have r: "runReserves (persistentReserve mapPersistence) (Map.empty(''self'' \<mapsto> 5)) [(''self'', 1)]
      = ([(''self'', \<lparr>resBase = 5, resSpan = 1\<rparr>)], Map.empty(''self'' \<mapsto> 5, ''self'' \<mapsto> 6))"
    by (simp add: persistentReserve_def mapPersistence_def maxSafe_def)
  show ?thesis
    using reconcile_never_reuses [OF mapPersistence_laws _ _ toyProbe_reconcile _ _ _ _ r,
        of "[\<lparr>foTag = 44, foRecord = Some toyRecord, foOccurrenceCount = 1\<rparr>]" "\<lparr>itIndex = 4, itTag = 44\<rparr>"
           "\<lparr>foTag = 44, foRecord = Some toyRecord, foOccurrenceCount = 1\<rparr>" "\<lparr>resBase = 5, resSpan = 1\<rparr>"]
    by (simp add: toyProbe_def)
qed

end
