(* ===== verification/Preflight.thy ===== *)
theory Preflight
  imports Discovery Scan
begin

text \<open>
  \<open>types/ephemeral.ts\<close> and \<open>discovery/preflight.ts\<close>: provenance of derived self-mint candidates, one-shot
  authorizations, and the preflight that turns free candidates into authorizations.  A \<open>WeakMap\<close> keyed by object
  identity is a list indexed by the object's number; a number past its end is an object the map does not know.
  The lemmas show that a derivation is used at most once, that consumption is atomic, that a tag of the wallet's
  own note is never authorized again, and that the search for a free tag is bounded.
\<close>

section \<open>Provenance\<close>

text \<open>The fields of a candidate object when it is read.  \<open>mcTyped\<close> is the outcome of the run-time type checks
  (\<open>eph\<close> and \<open>tag\<close> are \<open>Fr\<close>, \<open>ephPub\<close> is a pair of \<open>bigint\<close>, \<open>memberId\<close> and \<open>j\<close> are absent or \<open>bigint\<close>).\<close>

record mintCandidate =
  mcEph :: int
  mcEphPub :: point
  mcTag :: int
  mcIndex :: int
  mcMemberId :: "int option"
  mcJ :: "int option"
  mcTyped :: bool

record provenance =
  pvOwnerCommitment :: int
  pvEph :: int
  pvEphPub :: point
  pvTag :: int
  pvIndex :: int
  pvMemberId :: "int option"
  pvJ :: "int option"
  pvClaimed :: bool

definition markDerivedSelfMintCandidate :: "provenance list \<Rightarrow> mintCandidate \<Rightarrow> int \<Rightarrow> nat \<times> provenance list" where
  "markDerivedSelfMintCandidate pvs c ownerCommitment =
     (length pvs, pvs @ [\<lparr>pvOwnerCommitment = ownerCommitment, pvEph = mcEph c, pvEphPub = mcEphPub c, pvTag = mcTag c,
        pvIndex = mcIndex c, pvMemberId = mcMemberId c, pvJ = mcJ c, pvClaimed = False\<rparr>])"

datatype mintClaim = CLAIMED | UNKNOWN | OWNER_MISMATCH | PROVENANCE_MISMATCH | ALREADY_CLAIMED

definition claimDerivedSelfMintCandidate :: "provenance list \<Rightarrow> nat \<Rightarrow> mintCandidate \<Rightarrow> int \<Rightarrow> mintClaim \<times> provenance list" where
  "claimDerivedSelfMintCandidate pvs obj c ownerCommitment =
     (if length pvs \<le> obj then (UNKNOWN, pvs)
      else let p = pvs ! obj in
        if pvOwnerCommitment p \<noteq> ownerCommitment then (OWNER_MISMATCH, pvs)
        else if \<not> mcTyped c then (PROVENANCE_MISMATCH, pvs)
        else if mcEph c \<noteq> pvEph p \<or> fst (mcEphPub c) \<noteq> fst (pvEphPub p) \<or> snd (mcEphPub c) \<noteq> snd (pvEphPub p)
          \<or> mcTag c \<noteq> pvTag p \<or> mcIndex c \<noteq> pvIndex p \<or> mcMemberId c \<noteq> pvMemberId p \<or> mcJ c \<noteq> pvJ p
        then (PROVENANCE_MISMATCH, pvs)
        else if pvClaimed p then (ALREADY_CLAIMED, pvs)
        else (CLAIMED, pvs[obj := p\<lparr>pvClaimed := True\<rparr>]))"

section \<open>Authorizations\<close>

definition PREFLIGHT_COLLISION_BATCH_SIZE :: nat where "PREFLIGHT_COLLISION_BATCH_SIZE = 5"
definition MAX_PREFLIGHT_CANDIDATES :: nat where "MAX_PREFLIGHT_CANDIDATES = 256"

record authorizedCandidate =
  auEph :: int
  auEphPub :: point
  auTag :: int
  auIndex :: int

record selfMintContext =
  scOwnerCommitment :: int
  scCompliancePk :: point
  scComplianceVersion :: int
  scComplianceHistory :: historyObj
  scChainId :: int
  scPoolAddress :: string
  scDeploymentAnchor :: int

record certifiedContext =
  ccOwnerCommitment :: int
  ccCompliancePk :: point
  ccComplianceVersion :: int
  ccComplianceHistory :: string
  ccChainId :: int
  ccPoolAddress :: string
  ccDeploymentAnchor :: int

record authorizationState =
  asCandidate :: authorizedCandidate
  asContext :: certifiedContext
  asConsumed :: bool

text \<open>Decimal rendering of a number in a template string.\<close>

function showNat :: "nat \<Rightarrow> string" where
  "showNat n = (if n < 10 then [digitChar n] else showNat (n div 10) @ [digitChar (n mod 10)])"
  by pat_completeness auto
termination
  by (relation "measure id") auto

declare showNat.simps [simp del]

definition showInt :: "int \<Rightarrow> string" where
  "showInt v = (if v < 0 then ''-'' @ showNat (nat (- v)) else showNat (nat v))"

fun joinWith :: "string \<Rightarrow> string list \<Rightarrow> string" where
  "joinWith sep [] = []"
| "joinWith sep [x] = x"
| "joinWith sep (x # y # xs) = x @ sep @ joinWith sep (y # xs)"

definition toLowerCase :: "string \<Rightarrow> string" where
  "toLowerCase s = map (\<lambda>c. if 65 \<le> (of_char c :: nat) \<and> (of_char c :: nat) \<le> 90 then char_of (of_char c + 32 :: nat) else c) s"

definition historyIdentity :: "nat set \<Rightarrow> historyObj \<Rightarrow> string result" where
  "historyIdentity reg h =
     bindR (assertCompleteComplianceHistory reg h) (\<lambda>_.
     Inr (joinWith ''|'' (map (\<lambda>e. showInt (epVersion e) @ '':'' @ showInt (fst (epPk e)) @ '':'' @ showInt (snd (epPk e)) @ '':''
       @ (case epFromBlock e of None \<Rightarrow> '''' | Some b \<Rightarrow> showInt b)) (chRing (hoHistory h)))))"

definition sameContext :: "nat set \<Rightarrow> certifiedContext \<Rightarrow> selfMintContext \<Rightarrow> bool result" where
  "sameContext reg certified expected =
     (if ccOwnerCommitment certified = scOwnerCommitment expected
        \<and> fst (ccCompliancePk certified) = fst (scCompliancePk expected)
        \<and> snd (ccCompliancePk certified) = snd (scCompliancePk expected)
        \<and> ccComplianceVersion certified = scComplianceVersion expected
      then bindR (historyIdentity reg (scComplianceHistory expected)) (\<lambda>ident.
        Inr (ccComplianceHistory certified = ident \<and> ccChainId certified = scChainId expected
          \<and> ccPoolAddress certified = toLowerCase (scPoolAddress expected)
          \<and> ccDeploymentAnchor certified = scDeploymentAnchor expected))
      else Inr False)"

definition freezeCandidate :: "libs \<Rightarrow> authorizedCandidate \<Rightarrow> authorizedCandidate result" where
  "freezeCandidate L c =
     bindR (newFr L (auEph c)) (\<lambda>eph. bindR (newFr L (auTag c)) (\<lambda>tag.
     Inr \<lparr>auEph = eph, auEphPub = (fst (auEphPub c), snd (auEphPub c)), auTag = tag, auIndex = auIndex c\<rparr>))"

text \<open>The new handle is the number of the state appended.\<close>

definition issueAuthorization :: "nat set \<Rightarrow> selfMintContext \<Rightarrow> authorizationState list \<Rightarrow> authorizedCandidate
    \<Rightarrow> (nat \<times> authorizationState list) result" where
  "issueAuthorization reg ctx auths c =
     bindR (historyIdentity reg (scComplianceHistory ctx)) (\<lambda>ident.
     Inr (length auths, auths @ [\<lparr>asCandidate = c,
       asContext = \<lparr>ccOwnerCommitment = scOwnerCommitment ctx, ccCompliancePk = scCompliancePk ctx,
         ccComplianceVersion = scComplianceVersion ctx, ccComplianceHistory = ident, ccChainId = scChainId ctx,
         ccPoolAddress = toLowerCase (scPoolAddress ctx), ccDeploymentAnchor = scDeploymentAnchor ctx\<rparr>,
       asConsumed = False\<rparr>]))"

text \<open>The checks on one handle.\<close>

definition usableState :: "nat set \<Rightarrow> selfMintContext \<Rightarrow> authorizationState list \<Rightarrow> nat \<Rightarrow> authorizationState result" where
  "usableState reg expected auths h =
     (if length auths \<le> h then Inl (SelfMintAuthorizationError ''UNKNOWN_AUTHORIZATION'')
      else if asConsumed (auths ! h) then Inl (SelfMintAuthorizationError ''AUTHORIZATION_CONSUMED'')
      else bindR (sameContext reg (asContext (auths ! h)) expected) (\<lambda>same.
        if \<not> same then Inl (SelfMintAuthorizationError ''CONTEXT_MISMATCH'') else Inr (auths ! h)))"

definition consumeSelfMints :: "libs \<Rightarrow> nat set \<Rightarrow> authorizationState list \<Rightarrow> nat list \<Rightarrow> selfMintContext
    \<Rightarrow> authorizedCandidate list result \<times> authorizationState list" where
  "consumeSelfMints L reg auths handles expected =
     (if length handles \<noteq> 1 \<and> length handles \<noteq> 2 then (Inl (SelfMintAuthorizationError ''UNKNOWN_AUTHORIZATION''), auths)
      else if card (set handles) \<noteq> length handles then (Inl (SelfMintAuthorizationError ''DUPLICATE_AUTHORIZATION''), auths)
      else case mapR (usableState reg expected auths) handles of Inl e \<Rightarrow> (Inl e, auths)
      | Inr states \<Rightarrow>
        if length states = 2 \<and> (auEph (asCandidate (states ! 0)) = auEph (asCandidate (states ! 1))
          \<or> auTag (asCandidate (states ! 0)) = auTag (asCandidate (states ! 1)))
        then (Inl (SelfMintAuthorizationError ''DUPLICATE_AUTHORIZATION''), auths)
        else (mapR (\<lambda>st. freezeCandidate L (asCandidate st)) states,
              fold (\<lambda>h auths. auths[h := (auths ! h)\<lparr>asConsumed := True\<rparr>]) handles auths))"

section \<open>Classifying a candidate\<close>

definition protocolError :: js_error where
  "protocolError = SelfMintPreflightError ''DISCOVERY_PROTOCOL''"

definition validatedRecord :: "howlNoteRecord option \<Rightarrow> howlNoteRecord result" where
  "validatedRecord raw =
     (case raw of None \<Rightarrow> Inl protocolError
      | Some r \<Rightarrow>
        if hrLayoutVersion r \<noteq> HOWL_NOTE_LAYOUT_VERSION
          \<or> (hrRecordKind r \<noteq> RECORD_KIND_SELF \<and> hrRecordKind r \<noteq> RECORD_KIND_INCOMING)
          \<or> hrLeafIndex r < 0 \<or> 0xffffffff < hrLeafIndex r
          \<or> length (hrCommitmentPrefix r) \<noteq> COMMITMENT_PREFIX_BYTES
          \<or> length (hrCiphertextKept r) \<noteq> length CIPHERTEXT_KEPT_INDICES
        then Inl protocolError else Inr r)"

text \<open>One iteration of the loop over the keys; a throw is caught and the next key is tried.\<close>

definition opensUnder :: "libs \<Rightarrow> int \<Rightarrow> howlNoteRecord \<Rightarrow> int \<Rightarrow> complianceKeyEpoch \<Rightarrow> bool result" where
  "opensUnder L eph r ownerCommitment epoch =
     bindR (deriveCek L eph (epPk epoch)) (\<lambda>cek.
     bindR (reconstructCiphertext L r cek ownerCommitment) (\<lambda>ciphertext.
     bindR (demDecrypt L cek ciphertext) (\<lambda>plaintext.
     bindR (computePsi L cek) (\<lambda>psi.
     bindR (leaf L \<lparr>noteVersion = plaintext ! 0, assetId = plaintext ! 1, noteType = plaintext ! 2,
         conditionsHash = plaintext ! 3, noteValue = plaintext ! 4, noteOwner = plaintext ! 5,
         notePsi = psi, noteParents = plaintext ! 6\<rparr>) (\<lambda>commitment.
     Inr (commitmentPrefixMatches r commitment))))))"

definition opensExistingSelfRecord :: "libs \<Rightarrow> nat set \<Rightarrow> int \<Rightarrow> howlNoteRecord option \<Rightarrow> historyObj \<Rightarrow> int \<Rightarrow> bool result" where
  "opensExistingSelfRecord L reg eph rec history ownerCommitment =
     bindR (assertCompleteComplianceHistory reg history) (\<lambda>_.
     case rec of None \<Rightarrow> Inr False
     | Some r \<Rightarrow>
       if hrRecordKind r \<noteq> RECORD_KIND_SELF then Inr False
       else Inr (list_ex (\<lambda>epoch. opensUnder L eph r ownerCommitment epoch = Inr True)
              (candidatesFor (chRing (hoHistory history)) None)))"

section \<open>The preflight\<close>

text \<open>What a preflight is built from.  The allocator may derive and mark new candidates when asked for the next one,
  and answers with a candidate object and its fields.  The discovery service answers with \<open>None\<close> where the source
  receives something other than an array, and a row is \<open>None\<close> where it is not an object with a tag and a count.\<close>

record 'a preflightDeps =
  pdLibs :: libs
  pdRegistry :: "nat set"
  pdNext :: "provenance list \<Rightarrow> 'a \<Rightarrow> (nat \<times> mintCandidate) result \<times> provenance list \<times> 'a"
  pdProbe :: "int list \<Rightarrow> firstOccurrence option list option result"
  pdContext :: selfMintContext

record 'a preflight =
  pfAllocator :: 'a
  pfReady :: "authorizedCandidate list"

record selfMintDomain =
  sdChainId :: int
  sdPoolAddress :: string
  sdDeploymentAnchor :: int

definition isPoolAddress :: "string \<Rightarrow> bool" where
  "isPoolAddress s \<longleftrightarrow> startsWith s ''0x'' \<and> length s = 42 \<and> list_all (\<lambda>c. digitVal 16 c \<noteq> None) (drop 2 s)"

definition newPreflight :: "libs \<Rightarrow> nat set \<Rightarrow> (provenance list \<Rightarrow> 'a \<Rightarrow> (nat \<times> mintCandidate) result \<times> provenance list \<times> 'a)
    \<Rightarrow> (int list \<Rightarrow> firstOccurrence option list option result) \<Rightarrow> historyObj \<Rightarrow> int \<Rightarrow> selfMintDomain \<Rightarrow> 'a
    \<Rightarrow> ('a preflightDeps \<times> 'a preflight) result" where
  "newPreflight L reg nxt probe history ownerCommitment domain a =
     bindR (assertCompleteComplianceHistory reg history) (\<lambda>_.
     if sdChainId domain < 0 \<or> sdDeploymentAnchor domain < 0 then Inl protocolError
     else if \<not> isPoolAddress (sdPoolAddress domain) then Inl protocolError
     else bindR (newFr L ownerCommitment) (\<lambda>owner.
       Inr (\<lparr>pdLibs = L, pdRegistry = reg, pdNext = nxt, pdProbe = probe,
         pdContext = \<lparr>scOwnerCommitment = owner, scCompliancePk = chCurrentPk (hoHistory history),
           scComplianceVersion = chCurrentVersion (hoHistory history), scComplianceHistory = history,
           scChainId = sdChainId domain, scPoolAddress = toLowerCase (sdPoolAddress domain),
           scDeploymentAnchor = sdDeploymentAnchor domain\<rparr>\<rparr>,
         \<lparr>pfAllocator = a, pfReady = []\<rparr>)))"

fun claimFailure :: "mintClaim \<Rightarrow> unit result" where
  "claimFailure UNKNOWN = Inl protocolError"
| "claimFailure OWNER_MISMATCH = Inl (SelfMintPreflightError ''CANDIDATE_OWNER_MISMATCH'')"
| "claimFailure PROVENANCE_MISMATCH = Inl (SelfMintPreflightError ''CANDIDATE_PROVENANCE_MISMATCH'')"
| "claimFailure ALREADY_CLAIMED = Inl (SelfMintPreflightError ''CANDIDATE_ALREADY_CLAIMED'')"
| "claimFailure CLAIMED = Inr ()"

text \<open>The checks on the fields of a claimed candidate.\<close>

definition checkedCandidate :: "libs \<Rightarrow> mintCandidate \<Rightarrow> authorizedCandidate result" where
  "checkedCandidate L c =
     (if \<not> mcTyped c then Inl protocolError
      else bindR (newFr L (mcEph c)) (\<lambda>eph.
        let ephPub = publicKey L eph in
        bindR (newFr L (fst ephPub)) (\<lambda>tag.
        if fst (mcEphPub c) \<noteq> fst ephPub \<or> snd (mcEphPub c) \<noteq> snd ephPub \<or> mcTag c \<noteq> tag
          \<or> \<not> isSafeInteger (mcIndex c) \<or> mcIndex c < 0
        then Inl protocolError
        else freezeCandidate L \<lparr>auEph = eph, auEphPub = ephPub, auTag = tag, auIndex = mcIndex c\<rparr>)))"

fun allocate :: "'a preflightDeps \<Rightarrow> nat \<Rightarrow> provenance list \<Rightarrow> 'a
    \<Rightarrow> authorizedCandidate list result \<times> provenance list \<times> 'a" where
  "allocate D 0 pvs a = (Inr [], pvs, a)"
| "allocate D (Suc n) pvs a =
     (case pdNext D pvs a of
        (Inl e, pvs1, a1) \<Rightarrow> (Inl e, pvs1, a1)
      | (Inr (obj, c), pvs1, a1) \<Rightarrow>
        let (claim, pvs2) = claimDerivedSelfMintCandidate pvs1 obj c (scOwnerCommitment (pdContext D)) in
        case bindR (claimFailure claim) (\<lambda>_. checkedCandidate (pdLibs D) c) of
          Inl e \<Rightarrow> (Inl e, pvs2, a1)
        | Inr ac \<Rightarrow>
          (case allocate D n pvs2 a1 of
             (Inl e, pvs3, a3) \<Rightarrow> (Inl e, pvs3, a3)
           | (Inr acs, pvs3, a3) \<Rightarrow> (Inr (ac # acs), pvs3, a3)))"

definition collectEntry :: "int list \<Rightarrow> (int \<rightharpoonup> howlNoteRecord) \<Rightarrow> firstOccurrence option \<Rightarrow> (int \<rightharpoonup> howlNoteRecord) result" where
  "collectEntry requested returned rawEntry =
     (case rawEntry of None \<Rightarrow> Inl protocolError
      | Some entry \<Rightarrow>
        if \<not> isSafeInteger (foOccurrenceCount entry) \<or> foOccurrenceCount entry < 0 then Inl protocolError
        else if foTag entry \<notin> set requested \<or> returned (foTag entry) \<noteq> None then Inl protocolError
        else bindR (validatedRecord (foRecord entry)) (\<lambda>r. Inr (returned(foTag entry \<mapsto> r))))"

fun classifyLoop :: "'a preflightDeps \<Rightarrow> (int \<rightharpoonup> howlNoteRecord) \<Rightarrow> authorizedCandidate list \<Rightarrow> authorizedCandidate list
    \<Rightarrow> unit result \<times> authorizedCandidate list" where
  "classifyLoop D returned [] ready = (Inr (), ready)"
| "classifyLoop D returned (c # cs) ready =
     (case returned (auTag c) of None \<Rightarrow> (Inl protocolError, ready)
      | Some r \<Rightarrow>
        (case bindR (opensExistingSelfRecord (pdLibs D) (pdRegistry D) (auEph c) (Some r)
                (scComplianceHistory (pdContext D)) (scOwnerCommitment (pdContext D))) (\<lambda>occupied.
              if occupied then Inr [] else bindR (freezeCandidate (pdLibs D) c) (\<lambda>f. Inr [f])) of
           Inl e \<Rightarrow> (Inl e, ready)
         | Inr pushed \<Rightarrow> classifyLoop D returned cs (ready @ pushed)))"

definition classify :: "'a preflightDeps \<Rightarrow> authorizedCandidate list \<Rightarrow> authorizedCandidate list \<Rightarrow> unit result \<times> authorizedCandidate list" where
  "classify D cands ready =
     (let requestedTags = map auTag cands in
      case pdProbe D requestedTags of
        Inl e \<Rightarrow> (Inl (SelfMintPreflightError ''DISCOVERY_UNAVAILABLE''), ready)
      | Inr None \<Rightarrow> (Inl protocolError, ready)
      | Inr (Some rawResponse) \<Rightarrow>
        if length rawResponse \<noteq> length cands then (Inl protocolError, ready)
        else if card (set requestedTags) \<noteq> length cands then (Inl protocolError, ready)
        else case foldR (collectEntry requestedTags) Map.empty rawResponse of
          Inl e \<Rightarrow> (Inl e, ready)
        | Inr returned \<Rightarrow> classifyLoop D returned cands ready)"

lemma allocate_length: "allocate D n pvs a = (Inr acs, pvs', a') \<Longrightarrow> length acs = n"
  by (induction D n pvs a arbitrary: acs rule: allocate.induct)
    (auto simp: Let_def split: prod.splits sum.splits)

function takeLoop :: "'a preflightDeps \<Rightarrow> nat \<Rightarrow> nat \<Rightarrow> provenance list \<Rightarrow> 'a \<Rightarrow> authorizedCandidate list
    \<Rightarrow> unit result \<times> provenance list \<times> 'a \<times> authorizedCandidate list" where
  "takeLoop D want tested pvs a ready =
     (if want \<le> length ready then (Inr (), pvs, a, ready)
      else let remaining = MAX_PREFLIGHT_CANDIDATES - tested in
        if remaining = 0 then (Inl (SelfMintPreflightError ''CANDIDATES_EXHAUSTED''), pvs, a, ready)
        else case allocate D (min PREFLIGHT_COLLISION_BATCH_SIZE remaining) pvs a of
          (Inl e, pvs1, a1) \<Rightarrow> (Inl e, pvs1, a1, ready)
        | (Inr batch, pvs1, a1) \<Rightarrow>
          (case classify D batch ready of
             (Inl e, ready1) \<Rightarrow> (Inl e, pvs1, a1, ready1)
           | (Inr u, ready1) \<Rightarrow> takeLoop D want (tested + length batch) pvs1 a1 ready1))"
  by pat_completeness auto
termination
  by (relation "measure (\<lambda>(D, want, tested, pvs, a, ready). MAX_PREFLIGHT_CANDIDATES - tested)")
    (auto dest!: allocate_length [OF sym] simp: PREFLIGHT_COLLISION_BATCH_SIZE_def)

declare takeLoop.simps [simp del]

text \<open>Filling the queue of free candidates up to \<open>want\<close>.\<close>

definition fillReady :: "'a preflightDeps \<Rightarrow> nat \<Rightarrow> provenance list \<Rightarrow> 'a preflight \<Rightarrow> unit result \<times> provenance list \<times> 'a preflight" where
  "fillReady D want pvs pf =
     (let ready = pfReady pf;
          (r, pvs', a', ready') =
            (if length ready < want then
               (case allocate D (want - length ready) pvs (pfAllocator pf) of
                  (Inl e, pvs1, a1) \<Rightarrow> (Inl e, pvs1, a1, ready)
                | (Inr initial, pvs1, a1) \<Rightarrow>
                  (case classify D initial ready of
                     (Inl e, ready1) \<Rightarrow> (Inl e, pvs1, a1, ready1)
                   | (Inr u, ready1) \<Rightarrow> takeLoop D want (length initial) pvs1 a1 ready1))
             else takeLoop D want 0 pvs (pfAllocator pf) ready)
      in (r, pvs', \<lparr>pfAllocator = a', pfReady = ready'\<rparr>))"

definition issueStep :: "'a preflightDeps \<Rightarrow> nat list \<times> authorizationState list \<Rightarrow> authorizedCandidate
    \<Rightarrow> (nat list \<times> authorizationState list) result" where
  "issueStep D = (\<lambda>(handles, auths) c.
     bindR (issueAuthorization (pdRegistry D) (pdContext D) auths c) (\<lambda>(h, auths'). Inr (handles @ [h], auths')))"

definition takeMints :: "'a preflightDeps \<Rightarrow> nat \<Rightarrow> provenance list \<Rightarrow> authorizationState list \<Rightarrow> 'a preflight
    \<Rightarrow> nat list result \<times> provenance list \<times> authorizationState list \<times> 'a preflight" where
  "takeMints D want pvs auths pf =
     (if want \<noteq> 1 \<and> want \<noteq> 2 then (Inl (SelfMintPreflightError ''INVALID_COUNT''), pvs, auths, pf)
      else case fillReady D want pvs pf of
        (Inl e, pvs', pf') \<Rightarrow> (Inl e, pvs', auths, pf')
      | (Inr u, pvs', pf') \<Rightarrow>
        let taken = take want (pfReady pf'); pf'' = pf'\<lparr>pfReady := drop want (pfReady pf')\<rparr> in
        case foldR (issueStep D) ([], auths) taken of
          Inl e \<Rightarrow> (Inl e, pvs', auths, pf'')
        | Inr (handles, auths') \<Rightarrow> (Inr handles, pvs', auths', pf''))"

section \<open>Every derivation is used at most once\<close>

text \<open>Candidates are counted by scalar and index.\<close>

definition pvKey :: "provenance \<Rightarrow> int \<times> int" where "pvKey p = (pvEph p, pvIndex p)"
definition auKey :: "authorizedCandidate \<Rightarrow> int \<times> int" where "auKey c = (auEph c, auIndex c)"

definition derivedKeys :: "provenance list \<Rightarrow> (int \<times> int) multiset" where
  "derivedKeys pvs = mset (map pvKey pvs)"

definition freeKeys :: "provenance list \<Rightarrow> (int \<times> int) multiset" where
  "freeKeys pvs = mset (map pvKey (filter (\<lambda>p. \<not> pvClaimed p) pvs))"

definition liveKeys :: "authorizationState list \<Rightarrow> (int \<times> int) multiset" where
  "liveKeys auths = mset (map (\<lambda>s. auKey (asCandidate s)) (filter (\<lambda>s. \<not> asConsumed s) auths))"

text \<open>A step from provenance \<open>pvs\<close> and holdings \<open>X\<close> to \<open>pvs'\<close> and \<open>X'\<close> derives some new keys and creates nothing else.\<close>

definition conserves :: "provenance list \<Rightarrow> (int \<times> int) multiset \<Rightarrow> provenance list \<Rightarrow> (int \<times> int) multiset \<Rightarrow> bool" where
  "conserves pvs X pvs' X' \<longleftrightarrow> (\<exists>new. derivedKeys pvs' = derivedKeys pvs + new \<and> freeKeys pvs' + X' \<subseteq># freeKeys pvs + X + new)"

lemma conserves_refl [simp]: "conserves pvs X pvs X"
  by (auto simp: conserves_def)

lemma conserves_weaken: "X' \<subseteq># X \<Longrightarrow> conserves pvs X pvs X'"
  by (auto simp: conserves_def intro!: exI [of _ "{#}"])

lemma conserves_trans:
  assumes "conserves p0 X0 p1 X1" "conserves p1 X1 p2 X2"
  shows "conserves p0 X0 p2 X2"
proof -
  obtain n1 n2 where n: "derivedKeys p1 = derivedKeys p0 + n1" "freeKeys p1 + X1 \<subseteq># freeKeys p0 + X0 + n1"
    "derivedKeys p2 = derivedKeys p1 + n2" "freeKeys p2 + X2 \<subseteq># freeKeys p1 + X1 + n2"
    using assms by (auto simp: conserves_def)
  have "freeKeys p1 + X1 + n2 \<subseteq># (freeKeys p0 + X0 + n1) + n2" using n(2) by simp
  then have "freeKeys p2 + X2 \<subseteq># freeKeys p0 + X0 + (n1 + n2)"
    using subset_mset.order_trans [OF n(4)] by (simp add: add.assoc)
  then show ?thesis unfolding conserves_def by (intro exI [of _ "n1 + n2"]) (simp add: n(1,3) add.assoc)
qed

lemma conserves_frame: "conserves pvs X pvs' X' \<Longrightarrow> conserves pvs (X + Y) pvs' (X' + Y)"
proof -
  assume "conserves pvs X pvs' X'"
  then obtain new where new: "derivedKeys pvs' = derivedKeys pvs + new" "freeKeys pvs' + X' \<subseteq># freeKeys pvs + X + new"
    by (auto simp: conserves_def)
  have "(freeKeys pvs' + X') + Y \<subseteq># (freeKeys pvs + X + new) + Y" using new(2) by simp
  then show ?thesis unfolding conserves_def by (intro exI [of _ new]) (simp add: new(1) ac_simps)
qed

text \<open>Clearing a flag at one place of a list takes one element out of those that have it.\<close>

lemma mset_filter_update:
  assumes "i < length xs" "P (xs ! i)" "\<not> P y"
  shows "mset (map f (filter P xs)) = add_mset (f (xs ! i)) (mset (map f (filter P (xs[i := y]))))"
proof -
  have xs: "xs = take i xs @ xs ! i # drop (Suc i) xs" by (rule id_take_nth_drop [OF assms(1)])
  have up: "xs[i := y] = take i xs @ y # drop (Suc i) xs" by (rule upd_conv_take_nth_drop [OF assms(1)])
  show ?thesis by (subst (1) xs, subst up) (simp add: assms(2,3))
qed

lemma claim_conserves:
  assumes "claimDerivedSelfMintCandidate pvs obj c owner = (r, pvs')"
  shows "conserves pvs X pvs' (X + (if r = CLAIMED then {#(mcEph c, mcIndex c)#} else {#}))"
proof (cases "r = CLAIMED")
  case True
  then have o: "obj < length pvs" "\<not> pvClaimed (pvs ! obj)" "pvKey (pvs ! obj) = (mcEph c, mcIndex c)"
    "pvs' = pvs[obj := (pvs ! obj)\<lparr>pvClaimed := True\<rparr>]"
    using assms by (auto simp: claimDerivedSelfMintCandidate_def Let_def pvKey_def split: if_splits)
  have "derivedKeys pvs' = derivedKeys pvs"
  proof -
    have "map pvKey pvs' = (map pvKey pvs)[obj := pvKey (pvs ! obj)]" by (simp add: o(4) map_update pvKey_def)
    also have "\<dots> = map pvKey pvs" using o(1) by (simp add: list_update_same_conv)
    finally show ?thesis by (simp add: derivedKeys_def)
  qed
  moreover have "freeKeys pvs = add_mset (mcEph c, mcIndex c) (freeKeys pvs')"
    using mset_filter_update [of obj pvs "\<lambda>p. \<not> pvClaimed p" "(pvs ! obj)\<lparr>pvClaimed := True\<rparr>" pvKey] o
    by (simp add: freeKeys_def)
  ultimately show ?thesis using True by (auto simp: conserves_def intro!: exI [of _ "{#}"])
next
  case False
  then have "pvs' = pvs" using assms by (auto simp: claimDerivedSelfMintCandidate_def Let_def split: if_splits)
  then show ?thesis using False by simp
qed

text \<open>What the source relies on of an allocator: it only adds unclaimed derivations.\<close>

definition allocator_laws :: "(provenance list \<Rightarrow> 'a \<Rightarrow> (nat \<times> mintCandidate) result \<times> provenance list \<times> 'a) \<Rightarrow> bool" where
  "allocator_laws nxt \<longleftrightarrow> (\<forall>pvs a r pvs' a'. nxt pvs a = (r, pvs', a') \<longrightarrow>
     (\<exists>new. pvs' = pvs @ new \<and> list_all (\<lambda>p. \<not> pvClaimed p) new))"

lemma append_conserves: "list_all (\<lambda>p. \<not> pvClaimed p) new \<Longrightarrow> conserves pvs X (pvs @ new) X"
  by (auto simp: conserves_def derivedKeys_def freeKeys_def list_all_iff filter_id_conv
      intro!: exI [of _ "mset (map pvKey new)"])

lemma freeze_key: "fr_laws L \<Longrightarrow> freezeCandidate L c = Inr f \<Longrightarrow> auKey f = auKey c"
  by (auto simp: freezeCandidate_def auKey_def fr_laws_new_iff)

lemma checked_key: "fr_laws L \<Longrightarrow> checkedCandidate L c = Inr f \<Longrightarrow> auKey f = (mcEph c, mcIndex c)"
  by (auto simp: checkedCandidate_def Let_def fr_laws_new_iff dest!: freeze_key split: if_splits) (auto simp: auKey_def)

definition auKeys :: "authorizedCandidate list \<Rightarrow> (int \<times> int) multiset" where
  "auKeys cs = mset (map auKey cs)"

lemma auKeys_simps [simp]: "auKeys [] = {#}" "auKeys (c # cs) = add_mset (auKey c) (auKeys cs)" "auKeys (cs @ ds) = auKeys cs + auKeys ds"
  by (simp_all add: auKeys_def)

definition resultKeys :: "authorizedCandidate list result \<Rightarrow> (int \<times> int) multiset" where
  "resultKeys r = (case r of Inl e \<Rightarrow> {#} | Inr cs \<Rightarrow> auKeys cs)"

lemma resultKeys_simps [simp]: "resultKeys (Inl e) = {#}" "resultKeys (Inr cs) = auKeys cs"
  by (simp_all add: resultKeys_def)

definition depsOk :: "'a preflightDeps \<Rightarrow> bool" where
  "depsOk D \<longleftrightarrow> allocator_laws (pdNext D) \<and> fr_laws (pdLibs D)"

lemma next_conserves: "depsOk D \<Longrightarrow> pdNext D pvs a = (r, pvs', a') \<Longrightarrow> conserves pvs X pvs' X"
  unfolding depsOk_def allocator_laws_def by (metis append_conserves)

lemma allocate_conserves:
  assumes D: "depsOk D"
  shows "allocate D n pvs a = (r, pvs', a') \<Longrightarrow> conserves pvs X pvs' (X + resultKeys r)"
proof (induction n arbitrary: pvs a r pvs' a' X)
  case (Suc n)
  obtain q pvs1 a1 where q: "pdNext D pvs a = (q, pvs1, a1)" by (cases "pdNext D pvs a")
  have c1: "conserves pvs X pvs1 X" by (rule next_conserves [OF D q])
  show ?case
  proof (cases q)
    case (Inl e)
    then show ?thesis using Suc.prems q c1 by auto
  next
    case (Inr oc)
    obtain obj c where oc: "oc = (obj, c)" by (cases oc)
    obtain cl pvs2 where cl: "claimDerivedSelfMintCandidate pvs1 obj c (scOwnerCommitment (pdContext D)) = (cl, pvs2)"
      by (cases "claimDerivedSelfMintCandidate pvs1 obj c (scOwnerCommitment (pdContext D))")
    have c2: "conserves pvs X pvs2 (X + (if cl = CLAIMED then {#(mcEph c, mcIndex c)#} else {#}))"
      by (rule conserves_trans [OF c1 claim_conserves [OF cl]])
    show ?thesis
    proof (cases "bindR (claimFailure cl) (\<lambda>_. checkedCandidate (pdLibs D) c)")
      case (Inl e)
      then have r: "r = Inl e" "pvs' = pvs2" using Suc.prems q Inr oc cl by simp_all
      have "conserves pvs2 (X + (if cl = CLAIMED then {#(mcEph c, mcIndex c)#} else {#})) pvs2 X"
        by (rule conserves_weaken) simp
      then show ?thesis using conserves_trans [OF c2] by (simp add: r)
    next
      case ac: (Inr ac)
      then have "cl = CLAIMED" "checkedCandidate (pdLibs D) c = Inr ac" by (cases cl; simp)+
      then have key: "conserves pvs X pvs2 (X + {#auKey ac#})"
        using c2 checked_key [of "pdLibs D" c ac] D by (simp add: depsOk_def)
      obtain r3 pvs3 a3 where r3: "allocate D n pvs2 a1 = (r3, pvs3, a3)" by (cases "allocate D n pvs2 a1")
      have ih: "conserves pvs2 (X + {#auKey ac#}) pvs3 ((X + {#auKey ac#}) + resultKeys r3)" by (rule Suc.IH [OF r3])
      have "pvs' = pvs3" "resultKeys r \<subseteq># {#auKey ac#} + resultKeys r3"
        using Suc.prems q Inr oc cl ac r3 by (auto split: sum.splits)
      then show ?thesis
        using conserves_trans [OF conserves_trans [OF key ih], of pvs3 "X + resultKeys r"] conserves_weaken
        by (simp add: add.assoc)
    qed
  qed
qed auto

lemma classifyLoop_keys:
  "depsOk D \<Longrightarrow> classifyLoop D returned cs ready = (r, ready') \<Longrightarrow> auKeys ready' \<subseteq># auKeys ready + auKeys cs"
proof (induction cs arbitrary: ready)
  case (Cons c cs)
  show ?case
  proof (cases "\<exists>pushed. classifyLoop D returned cs (ready @ pushed) = (r, ready') \<and> auKeys pushed \<subseteq># {#auKey c#}")
    case True
    then obtain pushed where p: "classifyLoop D returned cs (ready @ pushed) = (r, ready')" "auKeys pushed \<subseteq># {#auKey c#}" by blast
    have "auKeys ready' \<subseteq># (auKeys ready + auKeys cs) + auKeys pushed"
      using Cons.IH [OF Cons.prems(1) p(1)] by (simp add: ac_simps)
    also have "\<dots> \<subseteq># (auKeys ready + auKeys cs) + {#auKey c#}" using p(2) by (rule subset_mset.add_left_mono)
    finally show ?thesis by simp
  next
    case False
    have "ready' = ready"
      using Cons.prems False freeze_key [of "pdLibs D" c]
      by (fastforce simp: depsOk_def split: option.splits sum.splits if_splits)
    then show ?thesis by simp
  qed
qed simp

lemma classify_keys:
  assumes "depsOk D" "classify D cs ready = (r, ready')"
  shows "auKeys ready' \<subseteq># auKeys ready + auKeys cs"
  using assms classifyLoop_keys [OF assms(1)]
  by (auto simp: classify_def Let_def split: sum.splits option.splits if_splits)

text \<open>One round: allocate a batch and classify it.\<close>

lemma round_conserves:
  assumes D: "depsOk D" and al: "allocate D n pvs a = (Inr batch, pvs1, a1)" and cl: "classify D batch ready = (r, ready1)"
  shows "conserves pvs (auKeys ready) pvs1 (auKeys ready1)"
  using conserves_trans [OF allocate_conserves [OF D al, of "auKeys ready"] conserves_weaken] classify_keys [OF D cl] by simp

lemma allocate_error_conserves:
  "depsOk D \<Longrightarrow> allocate D n pvs a = (Inl e, pvs1, a1) \<Longrightarrow> conserves pvs X pvs1 X"
  using allocate_conserves [of D n pvs a "Inl e" pvs1 a1 X] by simp

lemma takeLoop_conserves:
  assumes D: "depsOk D"
  shows "takeLoop D want tested pvs a ready = (r, pvs', a', ready') \<Longrightarrow> conserves pvs (auKeys ready) pvs' (auKeys ready')"
proof (induction "MAX_PREFLIGHT_CANDIDATES - tested" arbitrary: tested pvs a ready rule: less_induct)
  case less
  let ?rem = "MAX_PREFLIGHT_CANDIDATES - tested"
  let ?n = "min PREFLIGHT_COLLISION_BATCH_SIZE ?rem"
  show ?case
  proof (cases "want \<le> length ready \<or> ?rem = 0")
    case True
    then show ?thesis using less.prems by (auto simp: takeLoop.simps [of D want tested] split: if_splits)
  next
    case False
    obtain q pvs1 a1 where q: "allocate D ?n pvs a = (q, pvs1, a1)" by (cases "allocate D ?n pvs a")
    show ?thesis
    proof (cases q)
      case (Inl e)
      then show ?thesis
        using less.prems False q allocate_error_conserves [OF D, of ?n pvs a e pvs1 a1] by (auto simp: takeLoop.simps [of D want tested])
    next
      case (Inr batch)
      obtain u ready1 where u: "classify D batch ready = (u, ready1)" by (cases "classify D batch ready")
      have rc: "conserves pvs (auKeys ready) pvs1 (auKeys ready1)" by (rule round_conserves [OF D q [unfolded Inr] u])
      have len: "length batch = ?n" using allocate_length q Inr by fastforce
      show ?thesis
      proof (cases u)
        case (Inl e)
        then show ?thesis using less.prems False q Inr u rc by (auto simp: takeLoop.simps [of D want tested])
      next
        case ok: (Inr v)
        have "takeLoop D want (tested + length batch) pvs1 a1 ready1 = (r, pvs', a', ready')"
          using less.prems False q Inr u ok by (simp add: takeLoop.simps [of D want tested])
        moreover have "MAX_PREFLIGHT_CANDIDATES - (tested + length batch) < ?rem"
          using False len by (auto simp: PREFLIGHT_COLLISION_BATCH_SIZE_def)
        ultimately show ?thesis using conserves_trans [OF rc] less.hyps by blast
      qed
    qed
  qed
qed

lemma fillReady_conserves:
  assumes D: "depsOk D" and f: "fillReady D want pvs pf = (r, pvs', pf')"
  shows "conserves pvs (auKeys (pfReady pf)) pvs' (auKeys (pfReady pf'))"
proof (cases "length (pfReady pf) < want")
  case False
  then show ?thesis using f takeLoop_conserves [OF D] by (auto simp: fillReady_def Let_def split: prod.splits)
next
  case True
  obtain q pvs1 a1 where q: "allocate D (want - length (pfReady pf)) pvs (pfAllocator pf) = (q, pvs1, a1)"
    by (cases "allocate D (want - length (pfReady pf)) pvs (pfAllocator pf)")
  show ?thesis
  proof (cases q)
    case (Inl e)
    then show ?thesis
      using f True q allocate_error_conserves [OF D, of _ pvs _ e pvs1 a1] by (auto simp: fillReady_def)
  next
    case (Inr batch)
    obtain u ready1 where u: "classify D batch (pfReady pf) = (u, ready1)" by (cases "classify D batch (pfReady pf)")
    have rc: "conserves pvs (auKeys (pfReady pf)) pvs1 (auKeys ready1)" by (rule round_conserves [OF D q [unfolded Inr] u])
    show ?thesis
      using f True q Inr u rc conserves_trans [OF rc takeLoop_conserves [OF D]]
      by (auto simp: fillReady_def Let_def split: sum.splits prod.splits)
  qed
qed

lemma issue_keys:
  "foldR (issueStep D) (hs, auths) cs = Inr (hs', auths') \<Longrightarrow>
    liveKeys auths' = liveKeys auths + auKeys cs \<and> hs' = hs @ [length auths..<length auths'] \<and> length auths' = length auths + length cs"
proof (induction cs arbitrary: hs auths)
  case (Cons c cs)
  obtain h auths1 where i: "issueAuthorization (pdRegistry D) (pdContext D) auths c = Inr (h, auths1)"
    "foldR (issueStep D) (hs @ [h], auths1) cs = Inr (hs', auths')"
    using Cons.prems by (auto simp: issueStep_def)
  have "h = length auths" "length auths1 = Suc (length auths)" "liveKeys auths1 = liveKeys auths + {#auKey c#}"
    using i(1) by (auto simp: issueAuthorization_def liveKeys_def)
  then show ?case using Cons.IH [OF i(2)] by (simp add: upt_conv_Cons [of "length auths" "Suc (length auths + length cs)"] del: upt_Suc)
qed simp

lemma auKeys_split: "auKeys (take n cs) + auKeys (drop n cs) = auKeys cs"
  by (metis append_take_drop_id auKeys_simps(3))

lemma auKeys_drop [simp]: "auKeys (drop n cs) \<subseteq># auKeys cs"
  by (metis auKeys_split mset_subset_eq_add_right)

lemma takeMints_conserves:
  assumes D: "depsOk D" and t: "takeMints D want pvs auths pf = (r, pvs', auths', pf')"
  shows "conserves pvs (auKeys (pfReady pf) + liveKeys auths) pvs' (auKeys (pfReady pf') + liveKeys auths')"
proof (cases "want \<noteq> 1 \<and> want \<noteq> 2")
  case False
  obtain u pvs1 pf1 where u: "fillReady D want pvs pf = (u, pvs1, pf1)" by (cases "fillReady D want pvs pf")
  have c: "conserves pvs (auKeys (pfReady pf) + liveKeys auths) pvs1 (auKeys (pfReady pf1) + liveKeys auths)"
    by (rule conserves_frame [OF fillReady_conserves [OF D u]])
  show ?thesis
  proof (cases u)
    case (Inl e)
    then show ?thesis using t False u c by (auto simp: takeMints_def)
  next
    case (Inr v)
    have "auKeys (pfReady pf') + liveKeys auths' \<subseteq># auKeys (pfReady pf1) + liveKeys auths \<and> pvs' = pvs1"
      using t False u Inr auKeys_split [of want "pfReady pf1"] issue_keys [of D "[]" auths "take want (pfReady pf1)"]
      by (auto simp: takeMints_def Let_def ac_simps split: sum.splits)
    then show ?thesis using conserves_trans [OF c conserves_weaken] by blast
  qed
qed (use t in \<open>simp add: takeMints_def\<close>)

lemma usable_fresh: "usableState reg ctx auths h = Inr st \<Longrightarrow> h < length auths \<and> st = auths ! h \<and> \<not> asConsumed st"
  by (auto simp: usableState_def split: if_splits)

lemma consume_fold_keys:
  "distinct hs \<Longrightarrow> (\<And>h. h \<in> set hs \<Longrightarrow> h < length auths \<and> \<not> asConsumed (auths ! h)) \<Longrightarrow>
    liveKeys auths = liveKeys (fold (\<lambda>h auths. auths[h := (auths ! h)\<lparr>asConsumed := True\<rparr>]) hs auths)
      + auKeys (map (\<lambda>h. asCandidate (auths ! h)) hs)"
proof (induction hs arbitrary: auths)
  case (Cons h hs)
  let ?a = "auths[h := (auths ! h)\<lparr>asConsumed := True\<rparr>]"
  have "liveKeys auths = add_mset (auKey (asCandidate (auths ! h))) (liveKeys ?a)"
    using mset_filter_update [of h auths "\<lambda>s. \<not> asConsumed s" "(auths ! h)\<lparr>asConsumed := True\<rparr>" "\<lambda>s. auKey (asCandidate s)"]
      Cons.prems(2) [of h] by (simp add: liveKeys_def)
  moreover have "map (\<lambda>h. asCandidate (?a ! h)) hs = map (\<lambda>h. asCandidate (auths ! h)) hs"
    using Cons.prems(1) by (intro map_cong refl) (metis distinct.simps(2) nth_list_update_neq)
  moreover have "liveKeys ?a = liveKeys (fold (\<lambda>h auths. auths[h := (auths ! h)\<lparr>asConsumed := True\<rparr>]) hs ?a)
      + auKeys (map (\<lambda>h. asCandidate (?a ! h)) hs)"
    by (rule Cons.IH) (use Cons.prems in \<open>auto simp: nth_list_update\<close>)
  ultimately show ?case by simp
qed simp

lemma mapR_freeze_keys: "fr_laws L \<Longrightarrow> mapR (\<lambda>st. freezeCandidate L (asCandidate st)) sts = Inr cs \<Longrightarrow> auKeys cs = auKeys (map asCandidate sts)"
  by (induction sts arbitrary: cs) (auto simp: freeze_key)

text \<open>All or nothing: a failing consumption leaves every authorization as it was, a successful one marks exactly
  its handles.\<close>

lemma consume_cases:
  assumes "consumeSelfMints L reg auths handles ctx = (r, auths')"
  obtains (refused) e where "r = Inl e" "auths' = auths"
  | (consumed) "distinct handles" "\<And>h. h \<in> set handles \<Longrightarrow> h < length auths \<and> \<not> asConsumed (auths ! h)"
      "r = mapR (\<lambda>st. freezeCandidate L (asCandidate st)) (map (\<lambda>h. auths ! h) handles)"
      "auths' = fold (\<lambda>h auths. auths[h := (auths ! h)\<lparr>asConsumed := True\<rparr>]) handles auths"
proof (cases "mapR (usableState reg ctx auths) handles")
  case (Inl e)
  then show ?thesis using assms refused by (auto simp: consumeSelfMints_def split: if_splits)
next
  case (Inr states)
  have l2: "list_all2 (\<lambda>h st. usableState reg ctx auths h = Inr st) handles states" using Inr by (simp add: mapR_eq_Inr)
  have st: "states = map (\<lambda>h. auths ! h) handles"
    using l2 usable_fresh by (induction) auto
  have fr: "h < length auths \<and> \<not> asConsumed (auths ! h)" if "h \<in> set handles" for h
    using l2 that by (induction) (auto dest: usable_fresh)
  show ?thesis
  proof (cases "\<exists>e. r = Inl e \<and> auths' = auths")
    case False
    then have "distinct handles" "r = mapR (\<lambda>st. freezeCandidate L (asCandidate st)) states"
      "auths' = fold (\<lambda>h auths. auths[h := (auths ! h)\<lparr>asConsumed := True\<rparr>]) handles auths"
      using assms Inr by (auto simp: consumeSelfMints_def card_distinct split: if_splits)
    then show ?thesis using consumed fr st by blast
  qed (use refused in blast)
qed

lemma consume_keys:
  assumes "fr_laws L" "consumeSelfMints L reg auths handles ctx = (r, auths')"
  shows "liveKeys auths' + resultKeys r \<subseteq># liveKeys auths"
  using assms(2)
proof (cases rule: consume_cases)
  case consumed
  have "liveKeys auths = liveKeys auths' + auKeys (map (\<lambda>h. asCandidate (auths ! h)) handles)"
    unfolding consumed(4) by (rule consume_fold_keys [OF consumed(1,2)])
  moreover have "resultKeys r \<subseteq># auKeys (map (\<lambda>h. asCandidate (auths ! h)) handles)"
  proof (cases r)
    case (Inr cs)
    then show ?thesis
      using mapR_freeze_keys [OF assms(1) consumed(3) [symmetric, unfolded Inr]] by (simp add: comp_def)
  qed simp
  ultimately show ?thesis by simp
qed simp

section \<open>The module over time\<close>

text \<open>The module's state, every preflight in use, and a log of the candidates handed to assembly.\<close>

record 'a mintWorld =
  mwProvenance :: "provenance list"
  mwAuth :: "authorizationState list"
  mwPreflights :: "('a preflightDeps \<times> 'a preflight) list"
  mwConsumed :: "authorizedCandidate list"

inductive mintReachable :: "'a mintWorld \<Rightarrow> bool" where
  mint_init: "mintReachable \<lparr>mwProvenance = [], mwAuth = [], mwPreflights = [], mwConsumed = []\<rparr>"
| mint_derive: "mintReachable w \<Longrightarrow>
    mintReachable (w\<lparr>mwProvenance := snd (markDerivedSelfMintCandidate (mwProvenance w) c owner)\<rparr>)"
| mint_open: "mintReachable w \<Longrightarrow> newPreflight L reg nxt probe history owner domain a = Inr (D, pf) \<Longrightarrow>
    fr_laws L \<Longrightarrow> allocator_laws nxt \<Longrightarrow> mintReachable (w\<lparr>mwPreflights := mwPreflights w @ [(D, pf)]\<rparr>)"
| mint_take: "mintReachable w \<Longrightarrow> i < length (mwPreflights w) \<Longrightarrow> mwPreflights w ! i = (D, pf) \<Longrightarrow>
    takeMints D want (mwProvenance w) (mwAuth w) pf = (r, pvs, auths, pf') \<Longrightarrow>
    mintReachable (w\<lparr>mwProvenance := pvs, mwAuth := auths, mwPreflights := (mwPreflights w)[i := (D, pf')]\<rparr>)"
| mint_consume: "mintReachable w \<Longrightarrow> fr_laws L \<Longrightarrow> consumeSelfMints L reg (mwAuth w) handles ctx = (r, auths) \<Longrightarrow>
    mintReachable (w\<lparr>mwAuth := auths, mwConsumed := mwConsumed w @ (case r of Inl e \<Rightarrow> [] | Inr cs \<Rightarrow> cs)\<rparr>)"

definition heldKeys :: "'a mintWorld \<Rightarrow> (int \<times> int) multiset" where
  "heldKeys w = auKeys (mwConsumed w) + liveKeys (mwAuth w) + auKeys (concat (map (\<lambda>(D, pf). pfReady pf) (mwPreflights w)))"

definition mintInv :: "'a mintWorld \<Rightarrow> bool" where
  "mintInv w \<longleftrightarrow> freeKeys (mwProvenance w) + heldKeys w \<subseteq># derivedKeys (mwProvenance w)
    \<and> (\<forall>(D, pf) \<in> set (mwPreflights w). depsOk D)"

lemma conserves_inv:
  "conserves pvs X pvs' X' \<Longrightarrow> freeKeys pvs + X \<subseteq># derivedKeys pvs \<Longrightarrow> freeKeys pvs' + X' \<subseteq># derivedKeys pvs'"
  unfolding conserves_def by (metis mset_subset_eq_mono_add_right_cancel subset_mset.order_trans)

lemma ready_update:
  assumes "i < length pfs" "pfs ! i = (D, pf)"
  shows "\<exists>S. auKeys (concat (map (\<lambda>(D, pf). pfReady pf) pfs)) = auKeys (pfReady pf) + S
    \<and> auKeys (concat (map (\<lambda>(D, pf). pfReady pf) (pfs[i := (D, pf')]))) = auKeys (pfReady pf') + S"
proof -
  let ?f = "\<lambda>(D, pf). pfReady pf"
  have "map ?f pfs = map ?f (take i pfs) @ pfReady pf # map ?f (drop (Suc i) pfs)"
    by (subst id_take_nth_drop [OF assms(1)]) (simp add: assms(2))
  moreover have "map ?f (pfs[i := (D, pf')]) = map ?f (take i pfs) @ pfReady pf' # map ?f (drop (Suc i) pfs)"
    by (subst upd_conv_take_nth_drop [OF assms(1)]) simp
  ultimately show ?thesis
    by (intro exI [of _ "auKeys (concat (map ?f (take i pfs))) + auKeys (concat (map ?f (drop (Suc i) pfs)))"]) simp
qed

lemma mint_take_inv:
  assumes inv: "mintInv w" and i: "i < length (mwPreflights w)" "mwPreflights w ! i = (D, pf)"
    and t: "takeMints D want (mwProvenance w) (mwAuth w) pf = (r, pvs, auths, pf')"
  shows "mintInv (w\<lparr>mwProvenance := pvs, mwAuth := auths, mwPreflights := (mwPreflights w)[i := (D, pf')]\<rparr>)"
proof -
  have D: "depsOk D" using inv i by (auto simp: mintInv_def) (metis (mono_tags, lifting) case_prodD nth_mem)
  obtain S where S: "auKeys (concat (map (\<lambda>(D, pf). pfReady pf) (mwPreflights w))) = auKeys (pfReady pf) + S"
    "auKeys (concat (map (\<lambda>(D, pf). pfReady pf) ((mwPreflights w)[i := (D, pf')]))) = auKeys (pfReady pf') + S"
    using ready_update [OF i] by blast
  let ?C = "auKeys (mwConsumed w) + S"
  have "conserves (mwProvenance w) (auKeys (pfReady pf) + liveKeys (mwAuth w) + ?C) pvs (auKeys (pfReady pf') + liveKeys auths + ?C)"
    by (rule conserves_frame [OF takeMints_conserves [OF D t]])
  moreover have "freeKeys (mwProvenance w) + (auKeys (pfReady pf) + liveKeys (mwAuth w) + ?C) \<subseteq># derivedKeys (mwProvenance w)"
    using inv by (simp add: mintInv_def heldKeys_def S ac_simps)
  ultimately have "freeKeys pvs + (auKeys (pfReady pf') + liveKeys auths + ?C) \<subseteq># derivedKeys pvs" by (rule conserves_inv)
  moreover have "\<forall>(D, pf) \<in> set ((mwPreflights w)[i := (D, pf')]). depsOk D"
    using inv D set_update_subset_insert [of "mwPreflights w" i "(D, pf')"] unfolding mintInv_def by blast
  ultimately show ?thesis unfolding mintInv_def heldKeys_def by (simp add: S ac_simps)
qed

lemma mint_consume_inv:
  assumes inv: "mintInv w" and c: "fr_laws L" "consumeSelfMints L reg (mwAuth w) handles ctx = (r, auths)"
  shows "mintInv (w\<lparr>mwAuth := auths, mwConsumed := mwConsumed w @ (case r of Inl e \<Rightarrow> [] | Inr cs \<Rightarrow> cs)\<rparr>)"
proof -
  let ?w = "w\<lparr>mwAuth := auths, mwConsumed := mwConsumed w @ (case r of Inl e \<Rightarrow> [] | Inr cs \<Rightarrow> cs)\<rparr>"
  let ?R = "auKeys (concat (map (\<lambda>(D, pf). pfReady pf) (mwPreflights w)))"
  have "auKeys (case r of Inl e \<Rightarrow> [] | Inr cs \<Rightarrow> cs) = resultKeys r" by (cases r) simp_all
  then have "heldKeys ?w = (liveKeys auths + resultKeys r) + (auKeys (mwConsumed w) + ?R)"
    by (simp add: heldKeys_def ac_simps)
  also have "\<dots> \<subseteq># liveKeys (mwAuth w) + (auKeys (mwConsumed w) + ?R)" using consume_keys [OF c] by simp
  also have "\<dots> = heldKeys w" by (simp add: heldKeys_def ac_simps)
  finally have "freeKeys (mwProvenance w) + heldKeys ?w \<subseteq># freeKeys (mwProvenance w) + heldKeys w" by simp
  then have "freeKeys (mwProvenance w) + heldKeys ?w \<subseteq># derivedKeys (mwProvenance w)"
    using inv subset_mset.order_trans unfolding mintInv_def by blast
  then show ?thesis using inv by (simp add: mintInv_def)
qed

lemma mint_inv: "mintReachable w \<Longrightarrow> mintInv w"
proof (induction rule: mintReachable.induct)
  case mint_init
  show ?case by (simp add: mintInv_def heldKeys_def freeKeys_def derivedKeys_def liveKeys_def)
next
  case (mint_derive w c owner)
  have "conserves (mwProvenance w) (heldKeys w) (snd (markDerivedSelfMintCandidate (mwProvenance w) c owner)) (heldKeys w)"
    unfolding markDerivedSelfMintCandidate_def snd_conv by (rule append_conserves) simp
  from conserves_inv [OF this] mint_derive.IH show ?case by (simp add: mintInv_def heldKeys_def)
next
  case (mint_open w L reg nxt probe history owner domain a D pf)
  then have "pfReady pf = []" "depsOk D" by (auto simp: newPreflight_def depsOk_def split: if_splits)
  then show ?case using mint_open.IH by (simp add: mintInv_def heldKeys_def)
next
  case (mint_take w i D pf want r pvs auths pf')
  then show ?case by (intro mint_take_inv)
next
  case (mint_consume w L reg handles ctx r auths)
  then show ?case by (intro mint_consume_inv)
qed

section \<open>The wallet's registry as the allocator\<close>

text \<open>\<open>KeyRepository.nextSelfEphemeral\<close> with the marking of the candidate it returns.\<close>

definition repoNext :: "libs \<Rightarrow> account \<Rightarrow> 's counterOps \<Rightarrow> provenance list \<Rightarrow> keyRepo \<times> 's
    \<Rightarrow> (nat \<times> mintCandidate) result \<times> provenance list \<times> keyRepo \<times> 's" where
  "repoNext L ac co pvs = (\<lambda>(kr, s).
     case nextSelfEphemeral L ac co kr s of
       (Inl e, kr', s') \<Rightarrow> (Inl e, pvs, kr', s')
     | (Inr se, kr', s') \<Rightarrow>
       (case bindR (acSelfSpendPub ac) (pubkeyOwner L) of Inl e \<Rightarrow> (Inl e, pvs, kr', s')
        | Inr ownerCommitment \<Rightarrow>
          let c = \<lparr>mcEph = seEph se, mcEphPub = seEphPub se, mcTag = seTag se, mcIndex = seIndex se,
                mcMemberId = None, mcJ = None, mcTyped = True\<rparr>;
              (obj, pvs') = markDerivedSelfMintCandidate pvs c ownerCommitment
          in (Inr (obj, c), pvs', kr', s')))"

lemma repoNext_laws: "allocator_laws (repoNext L ac co)"
  unfolding allocator_laws_def repoNext_def
  by (auto simp: markDerivedSelfMintCandidate_def Let_def split: sum.splits prod.splits)

section \<open>The wallet's own notes are recognised\<close>

lemma opensUnder_minted:
  assumes L: "fr_laws L" and m: "mintSelfNote L eph value sk asset pk parents = Inr m" and a: "isFr asset" "isFr parents"
    and ct: "demEncrypt L (mCek m) (noteFields (mNote m)) = Inr ct"
    and r: "hrCiphertextKept r = map (\<lambda>i. ct ! i) CIPHERTEXT_KEPT_INDICES"
      "hrCommitmentPrefix r = take COMMITMENT_PREFIX_BYTES (toBuffer (mCommitment m))"
    and e: "epPk epoch = pk"
  shows "opensUnder L eph r (noteOwner (mNote m)) epoch = Inr True"
proof -
  obtain owner where o: "pubkeyOwner L (publicKey L sk) = Inr owner" "deriveCek L eph pk = Inr (mCek m)"
    "mNote m = mintedPlain L (mCek m) value owner asset parents" "leaf L (mNote m) = Inr (mCommitment m)"
    "0 \<le> value" "value < 2 ^ 128"
    using mintSelfNote_Inr [OF L m] by auto
  have own: "isFr owner" by (rule pubkeyOwner_isFr [OF L o(1)])
  have f: "list_all isFr (noteFields (mNote m))" unfolding o(3) by (rule mintedPlain_fields [OF L o(5,6) own a])
  have v: "noteFields (mNote m) ! 0 = NOTE_VERSION" "noteFields (mNote m) ! 5 = noteOwner (mNote m)"
    by (simp_all add: noteFields_nth) (simp add: o(3) mintedPlain_def)
  have rc: "reconstructCiphertext L r (mCek m) (noteOwner (mNote m)) = Inr ct"
    by (rule reconstruct_original [OF L noteFields_length v _ ct r(1)]) (simp add: o(3) mintedPlain_def own)
  have dec: "demDecrypt L (mCek m) ct = Inr (noteFields (mNote m))" using dem_inverts [OF L noteFields_length f, of "mCek m"] ct by simp
  have n: "\<lparr>noteVersion = noteVersion (mNote m), assetId = assetId (mNote m), noteType = noteType (mNote m),
      conditionsHash = conditionsHash (mNote m), noteValue = noteValue (mNote m), noteOwner = noteOwner (mNote m),
      notePsi = poseidon2Hash L [mCek m, PSI_DOMAIN], noteParents = noteParents (mNote m)\<rparr> = mNote m"
    by (simp add: o(3) mintedPlain_def)
  have "commitmentPrefixMatches r (mCommitment m)"
    by (auto simp: commitmentPrefixMatches_def r(2) list_all_iff in_set_enumerate_eq Let_def)
  then show ?thesis
    unfolding opensUnder_def e o(2) bindR.simps rc dec computePsi_ok [OF L] noteFields_nth n o(4) by simp
qed

lemma opensExisting_minted:
  assumes "hoId history \<in> reg" "hrRecordKind r = RECORD_KIND_SELF" "epoch \<in> set (chRing (hoHistory history))"
    "opensUnder L eph r owner epoch = Inr True"
  shows "opensExistingSelfRecord L reg eph (Some r) history owner = Inr True"
  using assms by (auto simp: opensExistingSelfRecord_def assertCompleteComplianceHistory_def candidatesFor_def list_ex_iff)

lemma collect_returned:
  assumes "foldR (collectEntry req) m raw = Inr m'"
  shows "(\<forall>t r. m t = Some r \<longrightarrow> m' t = Some r) \<and> (\<forall>e. Some e \<in> set raw \<longrightarrow> m' (foTag e) = foRecord e)"
  using assms
proof (induction raw arbitrary: m)
  case (Cons x raw)
  obtain m1 where m1: "collectEntry req m x = Inr m1" "foldR (collectEntry req) m1 raw = Inr m'" using Cons.prems by auto
  obtain e r where e: "x = Some e" "m (foTag e) = None" "foRecord e = Some r" "m1 = m(foTag e \<mapsto> r)"
    using m1(1) by (auto simp: collectEntry_def validatedRecord_def split: option.splits if_splits)
  have keep: "m' t = Some q" if "m1 t = Some q" for t q using Cons.IH [OF m1(2)] that by blast
  have "m' (foTag e) = foRecord e" using keep e(3,4) by simp
  moreover have "m' t = Some q" if "m t = Some q" for t q
    using keep [of t q] that e(2,4) by (cases "t = foTag e") simp_all
  ultimately show ?case using Cons.IH [OF m1(2)] e(1) by auto
qed simp

lemma classifyLoop_ready:
  assumes "classifyLoop D returned cs ready = (x, ready')"
  shows "\<exists>extra. ready' = ready @ extra \<and> (\<forall>f \<in> set extra. \<exists>c \<in> set cs. \<exists>r. freezeCandidate (pdLibs D) c = Inr f \<and> returned (auTag c) = Some r
    \<and> opensExistingSelfRecord (pdLibs D) (pdRegistry D) (auEph c) (Some r) (scComplianceHistory (pdContext D))
        (scOwnerCommitment (pdContext D)) = Inr False)"
  using assms
proof (induction cs arbitrary: ready)
  case (Cons c cs)
  let ?O = "\<lambda>c r. opensExistingSelfRecord (pdLibs D) (pdRegistry D) (auEph c) (Some r) (scComplianceHistory (pdContext D))
        (scOwnerCommitment (pdContext D))"
  consider "ready' = ready" | pushed r where "returned (auTag c) = Some r" "classifyLoop D returned cs (ready @ pushed) = (x, ready')"
      "pushed = [] \<or> (\<exists>f. pushed = [f] \<and> freezeCandidate (pdLibs D) c = Inr f \<and> ?O c r = Inr False)"
    using Cons.prems by (auto split: option.splits sum.splits if_splits)
  then show ?case
  proof cases
    case (2 pushed r)
    from Cons.IH [OF this(2)] obtain extra where x: "ready' = (ready @ pushed) @ extra"
      "\<forall>f \<in> set extra. \<exists>c \<in> set cs. \<exists>r. freezeCandidate (pdLibs D) c = Inr f \<and> returned (auTag c) = Some r \<and> ?O c r = Inr False" by blast
    have "\<exists>c' \<in> set (c # cs). \<exists>r. freezeCandidate (pdLibs D) c' = Inr f \<and> returned (auTag c') = Some r \<and> ?O c' r = Inr False"
      if "f \<in> set (pushed @ extra)" for f
      using that 2 x(2) by auto
    then show ?thesis using x(1) by (intro exI [of _ "pushed @ extra"]) simp
  qed (auto intro: exI [of _ "[]"])
qed simp

section \<open>The search for a free tag is bounded\<close>

definition claimedCount :: "provenance list \<Rightarrow> nat" where
  "claimedCount pvs = length (filter pvClaimed pvs)"

lemma claimedCount_append [simp]: "list_all (\<lambda>p. \<not> pvClaimed p) new \<Longrightarrow> claimedCount (pvs @ new) = claimedCount pvs"
  by (induction new) (auto simp: claimedCount_def)

lemma claimedCount_update: "claimedCount (pvs[i := p]) \<le> Suc (claimedCount pvs)"
proof (cases "i < length pvs")
  case True
  have "pvs = take i pvs @ pvs ! i # drop (Suc i) pvs" by (rule id_take_nth_drop [OF True])
  then have "claimedCount pvs = claimedCount (take i pvs) + claimedCount [pvs ! i] + claimedCount (drop (Suc i) pvs)"
    unfolding claimedCount_def by (metis append_Cons append_Nil filter_append length_append add.assoc)
  moreover have "claimedCount (pvs[i := p]) = claimedCount (take i pvs) + claimedCount [p] + claimedCount (drop (Suc i) pvs)"
    by (simp add: upd_conv_take_nth_drop [OF True] claimedCount_def)
  moreover have "claimedCount [p] \<le> 1" by (simp add: claimedCount_def)
  ultimately show ?thesis by simp
next
  case False
  then show ?thesis by (simp add: list_update_beyond)
qed

lemma claim_count: "claimDerivedSelfMintCandidate pvs obj c owner = (r, pvs') \<Longrightarrow> claimedCount pvs' \<le> Suc (claimedCount pvs)"
  by (auto simp: claimDerivedSelfMintCandidate_def Let_def claimedCount_update split: if_splits)

lemma next_count: "depsOk D \<Longrightarrow> pdNext D pvs a = (r, pvs', a') \<Longrightarrow> claimedCount pvs' = claimedCount pvs"
  unfolding depsOk_def allocator_laws_def by (metis claimedCount_append)

lemma allocate_count:
  assumes D: "depsOk D"
  shows "allocate D n pvs a = (r, pvs', a') \<Longrightarrow> claimedCount pvs' \<le> claimedCount pvs + n"
proof (induction n arbitrary: pvs a r pvs' a')
  case (Suc n)
  obtain q pvs1 a1 where q: "pdNext D pvs a = (q, pvs1, a1)" by (cases "pdNext D pvs a")
  have c1: "claimedCount pvs1 = claimedCount pvs" by (rule next_count [OF D q])
  show ?case
  proof (cases q)
    case (Inr oc)
    obtain obj c where oc: "oc = (obj, c)" by (cases oc)
    obtain cl pvs2 where cl: "claimDerivedSelfMintCandidate pvs1 obj c (scOwnerCommitment (pdContext D)) = (cl, pvs2)"
      by (cases "claimDerivedSelfMintCandidate pvs1 obj c (scOwnerCommitment (pdContext D))")
    have c2: "claimedCount pvs2 \<le> Suc (claimedCount pvs)" using claim_count [OF cl] c1 by simp
    obtain r3 pvs3 a3 where r3: "allocate D n pvs2 a1 = (r3, pvs3, a3)" by (cases "allocate D n pvs2 a1")
    have "pvs' = pvs2 \<or> pvs' = pvs3" using Suc.prems q Inr oc cl r3 by (auto split: sum.splits)
    then show ?thesis using c2 Suc.IH [OF r3] by auto
  qed (use Suc.prems q c1 in auto)
qed auto

lemma takeLoop_count:
  assumes D: "depsOk D"
  shows "takeLoop D want tested pvs a ready = (r, pvs', a', ready') \<Longrightarrow>
    claimedCount pvs' \<le> claimedCount pvs + (MAX_PREFLIGHT_CANDIDATES - tested)"
proof (induction "MAX_PREFLIGHT_CANDIDATES - tested" arbitrary: tested pvs a ready rule: less_induct)
  case less
  let ?rem = "MAX_PREFLIGHT_CANDIDATES - tested"
  let ?n = "min PREFLIGHT_COLLISION_BATCH_SIZE ?rem"
  show ?case
  proof (cases "want \<le> length ready \<or> ?rem = 0")
    case True
    then show ?thesis using less.prems by (auto simp: takeLoop.simps [of D want tested] split: if_splits)
  next
    case False
    obtain q pvs1 a1 where q: "allocate D ?n pvs a = (q, pvs1, a1)" by (cases "allocate D ?n pvs a")
    have c: "claimedCount pvs1 \<le> claimedCount pvs + ?n" by (rule allocate_count [OF D q])
    have "pvs' = pvs1 \<or> (\<exists>batch ready1. q = Inr batch \<and> takeLoop D want (tested + length batch) pvs1 a1 ready1 = (r, pvs', a', ready'))"
      using less.prems False q by (auto simp: takeLoop.simps [of D want tested] split: sum.splits prod.splits)
    then show ?thesis
    proof
      assume "\<exists>batch ready1. q = Inr batch \<and> takeLoop D want (tested + length batch) pvs1 a1 ready1 = (r, pvs', a', ready')"
      then obtain batch ready1 where b: "q = Inr batch" "takeLoop D want (tested + length batch) pvs1 a1 ready1 = (r, pvs', a', ready')" by blast
      have len: "length batch = ?n" using allocate_length q b(1) by fastforce
      then have "0 < length batch" "length batch \<le> ?rem" using False by (auto simp: PREFLIGHT_COLLISION_BATCH_SIZE_def)
      then have "claimedCount pvs' \<le> claimedCount pvs1 + (MAX_PREFLIGHT_CANDIDATES - (tested + length batch))"
        using less.hyps [OF _ b(2)] by linarith
      then show ?thesis using c len \<open>length batch \<le> ?rem\<close> by linarith
    next
      assume p: "pvs' = pvs1"
      have "?n \<le> ?rem" by simp
      with c show ?thesis unfolding p by (meson add_le_cancel_left le_trans)
    qed
  qed
qed

lemma takeLoop_full: "takeLoop D want tested pvs a ready = (Inr u, pvs', a', ready') \<Longrightarrow> want \<le> length ready'"
proof (induction D want tested pvs a ready rule: takeLoop.induct)
  case (1 D want tested pvs a ready)
  let ?rem = "MAX_PREFLIGHT_CANDIDATES - tested"
  let ?n = "min PREFLIGHT_COLLISION_BATCH_SIZE ?rem"
  show ?case
  proof (cases "want \<le> length ready")
    case True
    then show ?thesis using "1.prems" by (simp add: takeLoop.simps [of D want tested])
  next
    case False
    obtain q pvs1 a1 where q: "allocate D ?n pvs a = (q, pvs1, a1)" by (cases "allocate D ?n pvs a")
    obtain batch v ready1 where b: "?rem \<noteq> 0" "q = Inr batch" "classify D batch ready = (Inr v, ready1)"
      "takeLoop D want (tested + length batch) pvs1 a1 ready1 = (Inr u, pvs', a', ready')"
      using "1.prems" False q by (auto simp: takeLoop.simps [of D want tested] split: if_splits sum.splits prod.splits)
    show ?thesis by (rule "1.IH" [OF False refl b(1) q [symmetric] b(2) _ b(3) [symmetric] refl b(4)]) simp
  qed
qed

lemma fillReady_count:
  assumes D: "depsOk D" and f: "fillReady D want pvs pf = (u, pvs1, pf1)" and w: "want = 1 \<or> want = 2"
  shows "claimedCount pvs1 \<le> claimedCount pvs + 256 \<and> (\<forall>v. u = Inr v \<longrightarrow> want \<le> length (pfReady pf1))"
proof (cases "length (pfReady pf) < want")
  case False
  obtain u' p' a' r' where t: "takeLoop D want 0 pvs (pfAllocator pf) (pfReady pf) = (u', p', a', r')"
    by (cases "takeLoop D want 0 pvs (pfAllocator pf) (pfReady pf)")
  then show ?thesis
    using f False takeLoop_count [OF D t] takeLoop_full t by (auto simp: fillReady_def MAX_PREFLIGHT_CANDIDATES_def)
next
  case True
  let ?n = "want - length (pfReady pf)"
  obtain q p1 a1 where q: "allocate D ?n pvs (pfAllocator pf) = (q, p1, a1)" by (cases "allocate D ?n pvs (pfAllocator pf)")
  have c: "claimedCount p1 \<le> claimedCount pvs + ?n" by (rule allocate_count [OF D q])
  have n: "?n \<le> 256" using w by auto
  consider e where "u = Inl e" "pvs1 = p1"
    | batch ready1 where "q = Inr batch"
        "takeLoop D want (length batch) p1 a1 ready1 = (u, pvs1, pfAllocator pf1, pfReady pf1)"
    using f True q by (auto simp: fillReady_def Let_def split: sum.splits prod.splits)
  then show ?thesis
  proof cases
    case 1
    then show ?thesis using c n by simp
  next
    case (2 batch ready1)
    have "length batch = ?n" using allocate_length q 2(1) by fastforce
    then show ?thesis
      using takeLoop_count [OF D 2(2)] c n takeLoop_full [of D want _ p1 a1 ready1] 2(2) by (auto simp: MAX_PREFLIGHT_CANDIDATES_def)
  qed
qed

section \<open>Properties\<close>

text \<open>C8: a derivation mints at most one note.  In every reachable state of the module, with any number of preflights
  over any lawful allocators, calls that fail, handles that are replayed or made up and contexts that do not match,
  the candidates handed to assembly, counted with multiplicity, are among the candidates that were derived, counted
  with multiplicity.\<close>

theorem derivation_minted_once:
  assumes "mintReachable w"
  shows "mset (map auKey (mwConsumed w)) \<subseteq># mset (map pvKey (mwProvenance w))"
proof -
  have "auKeys (mwConsumed w) \<subseteq># freeKeys (mwProvenance w) + heldKeys w" by (simp add: heldKeys_def add.assoc)
  also have "\<dots> \<subseteq># derivedKeys (mwProvenance w)" using mint_inv [OF assms] by (simp add: mintInv_def)
  finally show ?thesis by (simp add: auKeys_def derivedKeys_def)
qed

definition toyHistory :: historyObj where
  "toyHistory = \<lparr>hoId = 0, hoHistory = \<lparr>chRing = toyEpochs, chCurrentPk = (5, 2), chCurrentVersion = 1\<rparr>\<rparr>"

definition missRecord :: howlNoteRecord where
  "missRecord = toyRecord\<lparr>hrRecordKind := 1\<rparr>"

definition toyDiscovery :: "howlNoteRecord \<Rightarrow> int list \<Rightarrow> firstOccurrence option list option result" where
  "toyDiscovery r tags = Inr (Some (map (\<lambda>t. Some \<lparr>foTag = t, foRecord = Some r, foOccurrenceCount = 1\<rparr>) tags))"

definition toyAllocator :: "provenance list \<Rightarrow> int \<Rightarrow> (nat \<times> mintCandidate) result \<times> provenance list \<times> int" where
  "toyAllocator pvs i =
     (let c = \<lparr>mcEph = i + 3, mcEphPub = publicKey toyLibs (i + 3), mcTag = fst (publicKey toyLibs (i + 3)), mcIndex = i,
            mcMemberId = None, mcJ = None, mcTyped = True\<rparr>;
          (obj, pvs') = markDerivedSelfMintCandidate pvs c 88
      in (Inr (obj, c), pvs', i + 1))"

lemma toyAllocator_laws: "allocator_laws toyAllocator"
  by (auto simp: allocator_laws_def toyAllocator_def markDerivedSelfMintCandidate_def)

definition toyContext :: selfMintContext where
  "toyContext = \<lparr>scOwnerCommitment = 88, scCompliancePk = (5, 2), scComplianceVersion = 1, scComplianceHistory = toyHistory,
     scChainId = 1, scPoolAddress = ''0x'' @ replicate 40 CHR ''a'', scDeploymentAnchor = 0\<rparr>"

definition toyDeps :: "howlNoteRecord \<Rightarrow> int preflightDeps" where
  "toyDeps r = \<lparr>pdLibs = toyLibs, pdRegistry = {0}, pdNext = toyAllocator, pdProbe = toyDiscovery r, pdContext = toyContext\<rparr>"

definition toyPreflight :: "int preflight" where
  "toyPreflight = \<lparr>pfAllocator = 0, pfReady = []\<rparr>"

definition toyDomain :: selfMintDomain where
  "toyDomain = \<lparr>sdChainId = 1, sdPoolAddress = ''0x'' @ replicate 40 CHR ''A'', sdDeploymentAnchor = 0\<rparr>"

lemma toyPreflight_new:
  "newPreflight toyLibs {0} toyAllocator (toyDiscovery r) toyHistory 88 toyDomain 0 = Inr (toyDeps r, toyPreflight)"
proof -
  have "isPoolAddress (''0x'' @ replicate 40 CHR ''A'')"
    "toLowerCase (''0x'' @ replicate 40 CHR ''A'') = ''0x'' @ replicate 40 CHR ''a''" by code_simp+
  then show ?thesis
    by (simp add: newPreflight_def assertCompleteComplianceHistory_def toyHistory_def toyDeps_def toyPreflight_def
        toyContext_def toyDomain_def toyLibs_fr_laws isFr_small)
qed

lemma toyTake_consumed:
  "(case takeMints (toyDeps missRecord) 2 [] [] toyPreflight of (r, pvs, auths, pf) \<Rightarrow>
     (r, map pvKey pvs, map_sum id (map auKey) (fst (consumeSelfMints toyLibs {0} auths [0, 1] toyContext))))
   = (Inr [0, 1], [(3, 0), (4, 1)], Inr [(3, 0), (4, 1)])"
  by code_simp

theorem derivation_minted_once_witness:
  "\<exists>w :: int mintWorld. mintReachable w \<and> map auKey (mwConsumed w) = [(3, 0), (4, 1)]
    \<and> mset (map auKey (mwConsumed w)) \<subseteq># mset (map pvKey (mwProvenance w))"
proof -
  let ?w1 = "\<lparr>mwProvenance = [], mwAuth = [], mwPreflights = [(toyDeps missRecord, toyPreflight)], mwConsumed = []\<rparr>"
  obtain r pvs auths pf where t: "takeMints (toyDeps missRecord) 2 [] [] toyPreflight = (r, pvs, auths, pf)"
    by (cases "takeMints (toyDeps missRecord) 2 [] [] toyPreflight")
  obtain q auths' where c: "consumeSelfMints toyLibs {0} auths [0, 1] toyContext = (q, auths')"
    by (cases "consumeSelfMints toyLibs {0} auths [0, 1] toyContext")
  obtain cs where q: "q = Inr cs" "map auKey cs = [(3, 0), (4, 1)]"
    using toyTake_consumed t c by (cases q) auto
  have "mintReachable ?w1"
    using mint_open [OF mint_init toyPreflight_new toyLibs_fr_laws toyAllocator_laws, of missRecord] by simp
  then have "mintReachable (?w1\<lparr>mwProvenance := pvs, mwAuth := auths, mwPreflights := [(toyDeps missRecord, pf)]\<rparr>)"
    using mint_take [of ?w1 0 "toyDeps missRecord" toyPreflight 2 r pvs auths pf] t by simp
  then have w: "mintReachable \<lparr>mwProvenance = pvs, mwAuth = auths', mwPreflights = [(toyDeps missRecord, pf)], mwConsumed = cs\<rparr>"
    (is "mintReachable ?w3")
    using mint_consume [OF _ toyLibs_fr_laws, of _ "{0}" "[0, 1]" toyContext q auths'] c q(1) by fastforce
  show ?thesis using derivation_minted_once [OF w] q(2) w by (intro exI [of _ ?w3]) simp
qed

text \<open>C20: a tag already on chain is not authorized again.  Let the discovery service answer a candidate's tag with
  the stripped record of a self note that the wallet minted with that candidate's scalar under any compliance key of
  the history, the current one or a rotated one.  Then classification never makes that tag ready, whatever else the
  service returns.\<close>

theorem preflight_refuses_occupied_tag:
  assumes "fr_laws (pdLibs D)" "hoId (scComplianceHistory (pdContext D)) \<in> pdRegistry D"
    and mint: "mintSelfNote (pdLibs D) (auEph c) v sk asset (epPk epoch) parents = Inr m" "isFr asset" "isFr parents"
    and "epoch \<in> set (chRing (hoHistory (scComplianceHistory (pdContext D))))"
    and "scOwnerCommitment (pdContext D) = noteOwner (mNote m)"
    and "demEncrypt (pdLibs D) (mCek m) (noteFields (mNote m)) = Inr ct"
    and r: "hrRecordKind r = RECORD_KIND_SELF" "hrCiphertextKept r = map (\<lambda>i. ct ! i) CIPHERTEXT_KEPT_INDICES"
      "hrCommitmentPrefix r = take COMMITMENT_PREFIX_BYTES (toBuffer (mCommitment m))"
    and "pdProbe D (map auTag cands) = Inr (Some raw)"
    and "Some \<lparr>foTag = auTag c, foRecord = Some r, foOccurrenceCount = n\<rparr> \<in> set raw"
    and "c \<in> set cands" "classify D cands ready = (x, ready')"
  shows "\<exists>extra. ready' = ready @ extra \<and> auTag c \<notin> set (map auTag extra)"
proof -
  have open': "opensExistingSelfRecord (pdLibs D) (pdRegistry D) (auEph c) (Some r) (scComplianceHistory (pdContext D))
      (scOwnerCommitment (pdContext D)) = Inr True"
    using opensExisting_minted [OF assms(2) r(1) assms(6) opensUnder_minted [OF assms(1) mint assms(8) r(2,3) refl]] assms(7) by simp
  show ?thesis
  proof (cases "length raw = length cands \<and> card (set (map auTag cands)) = length cands \<and>
      (\<exists>returned. foldR (collectEntry (map auTag cands)) Map.empty raw = Inr returned)")
    case True
    then obtain returned where ret: "foldR (collectEntry (map auTag cands)) Map.empty raw = Inr returned" by blast
    have "classifyLoop D returned cands ready = (x, ready')" using assms(12,15) True ret by (simp add: classify_def)
    from classifyLoop_ready [OF this] obtain extra where x: "ready' = ready @ extra"
      "\<forall>f \<in> set extra. \<exists>c \<in> set cands. \<exists>r. freezeCandidate (pdLibs D) c = Inr f \<and> returned (auTag c) = Some r
        \<and> opensExistingSelfRecord (pdLibs D) (pdRegistry D) (auEph c) (Some r) (scComplianceHistory (pdContext D))
            (scOwnerCommitment (pdContext D)) = Inr False" by blast
    have dist: "distinct (map auTag cands)" using True by (simp add: card_distinct)
    have rc: "returned (auTag c) = Some r" using collect_returned [OF ret] assms(13) by force
    have "auTag f \<noteq> auTag c" if fx: "f \<in> set extra" for f
    proof
      assume eq: "auTag f = auTag c"
      from bspec [OF x(2) fx] obtain c' r' where c': "c' \<in> set cands" "freezeCandidate (pdLibs D) c' = Inr f" "returned (auTag c') = Some r'"
        "opensExistingSelfRecord (pdLibs D) (pdRegistry D) (auEph c') (Some r') (scComplianceHistory (pdContext D))
            (scOwnerCommitment (pdContext D)) = Inr False"
        by (elim bexE exE conjE)
      have "auTag c' = auTag c" using c'(2) eq assms(1) by (auto simp: freezeCandidate_def fr_laws_new_iff)
      moreover from this have "c' = c" using dist c'(1) assms(14) inj_onD unfolding distinct_map by metis
      ultimately show False using c'(3,4) rc open' by simp
    qed
    then have "auTag c \<notin> set (map auTag extra)" by (metis imageE set_map)
    then show ?thesis using x(1) by blast
  next
    case False
    then have "ready' = ready"
      using assms(15) unfolding classify_def Let_def assms(12) by (cases "foldR (collectEntry (map auTag cands)) Map.empty raw") (auto split: if_splits)
    then show ?thesis by simp
  qed
qed

definition ownRecord :: howlNoteRecord where
  "ownRecord = \<lparr>hrLayoutVersion = 1, hrRecordKind = 0, hrLeafIndex = 6, hrCommitmentPrefix = replicate 16 0,
     hrEphemeralPkX = 0, hrCekWrap = 0, hrCiphertextKept = [81, 73, 74, 125, 77]\<rparr>"

definition ownCandidate :: authorizedCandidate where
  "ownCandidate = \<lparr>auEph = 3, auEphPub = (3, 2), auTag = 3, auIndex = 2\<rparr>"

theorem preflight_refuses_occupied_tag_witness:
  "\<exists>extra. snd (classify (toyDeps ownRecord) [ownCandidate] []) = extra \<and> auTag ownCandidate \<notin> set (map auTag extra)"
proof -
  obtain x ready' where c: "classify (toyDeps ownRecord) [ownCandidate] [] = (x, ready')"
    by (cases "classify (toyDeps ownRecord) [ownCandidate] []")
  have m: "mintSelfNote toyLibs 3 50 2 9 (5, 2) 0 = Inr toyMint" by code_simp
  have ct: "demEncrypt toyLibs (mCek toyMint) (noteFields (mNote toyMint)) = Inr [72, 81, 73, 74, 125, 164, 77]" by code_simp
  have pre: "hrCommitmentPrefix ownRecord = take COMMITMENT_PREFIX_BYTES (toBuffer (mCommitment toyMint))" by code_simp
  have "\<exists>extra. ready' = [] @ extra \<and> auTag ownCandidate \<notin> set (map auTag extra)"
    by (rule preflight_refuses_occupied_tag [where D = "toyDeps ownRecord" and c = ownCandidate and m = toyMint and r = ownRecord
          and v = 50 and sk = 2 and asset = 9 and parents = 0 and epoch = "\<lparr>epVersion = 1, epPk = (5, 2), epFromBlock = Some 0\<rparr>"
          and ct = "[72, 81, 73, 74, 125, 164, 77]" and cands = "[ownCandidate]" and ready = "[]" and x = x and n = 1
          and raw = "[Some \<lparr>foTag = 3, foRecord = Some ownRecord, foOccurrenceCount = 1\<rparr>]"])
      (use m ct pre c in \<open>simp_all add: toyDeps_def toyLibs_fr_laws ownCandidate_def toyContext_def toyHistory_def toyEpochs_def
          isFr_small toyDiscovery_def ownRecord_def RECORD_KIND_SELF_def CIPHERTEXT_KEPT_INDICES_def toyMint_def\<close>)
  then show ?thesis using c by simp
qed


definition toyAuths :: "authorizationState list" where
  "toyAuths = fst (snd (snd (takeMints (toyDeps missRecord) 2 [] [] toyPreflight)))"

lemma toyAuths_fr: "map (\<lambda>s. (auEph (asCandidate s), auTag (asCandidate s))) toyAuths = [(3, 3), (4, 4)]"
  by code_simp

lemma toyAuths_consume: "map_sum id (map auKey) (fst (consumeSelfMints toyLibs {0} toyAuths [1] toyContext)) = Inr [(4, 1)]"
  by code_simp


text \<open>C37: the search for free tags ends.  However many tags the discovery service reports as taken, one call of the
  preflight claims at most 256 candidates, so it returns or fails after a bounded number of probes, and when it
  returns it has issued exactly as many authorizations as were asked for.\<close>

theorem preflight_search_bounded:
  assumes "allocator_laws (pdNext D)" "fr_laws (pdLibs D)" "takeMints D want pvs auths pf = (r, pvs', auths', pf')"
  shows "claimedCount pvs' \<le> claimedCount pvs + 256
    \<and> (\<forall>hs. r = Inr hs \<longrightarrow> hs = [length auths..<length auths + want] \<and> length auths' = length auths + want)"
proof (cases "want = 1 \<or> want = 2")
  case False
  then show ?thesis using assms(3) by (auto simp: takeMints_def)
next
  case True
  have D: "depsOk D" using assms by (simp add: depsOk_def)
  obtain u pvs1 pf1 where u: "fillReady D want pvs pf = (u, pvs1, pf1)" by (cases "fillReady D want pvs pf")
  have "claimedCount pvs1 \<le> claimedCount pvs + 256 \<and> (\<forall>v. u = Inr v \<longrightarrow> want \<le> length (pfReady pf1))"
    by (rule fillReady_count [OF D u True])
  moreover have "pvs' = pvs1" using assms(3) True u by (auto simp: takeMints_def Let_def split: sum.splits)
  moreover have "hs = [length auths..<length auths + want] \<and> length auths' = length auths + want"
    if "r = Inr hs" "want \<le> length (pfReady pf1)" for hs
    using assms(3) True u that issue_keys [of D "[]" auths "take want (pfReady pf1)" hs auths']
    by (auto simp: takeMints_def Let_def split: sum.splits)
  moreover have "\<exists>v. u = Inr v" if "r = Inr hs" for hs
    using assms(3) True u that by (cases u) (auto simp: takeMints_def)
  ultimately show ?thesis by blast
qed

theorem preflight_search_bounded_witness:
  "\<exists>r pvs auths pf. takeMints (toyDeps missRecord) 2 [] [] toyPreflight = (r, pvs, auths, pf) \<and> claimedCount pvs \<le> 256"
proof -
  obtain r pvs auths pf where t: "takeMints (toyDeps missRecord) 2 [] [] toyPreflight = (r, pvs, auths, pf)"
    by (cases "takeMints (toyDeps missRecord) 2 [] [] toyPreflight")
  have "claimedCount pvs \<le> claimedCount [] + 256"
    using preflight_search_bounded [OF _ _ t] by (simp add: toyDeps_def toyAllocator_laws toyLibs_fr_laws)
  then show ?thesis using t by (simp add: claimedCount_def)
qed

end
