(* ===== verification/Circuits.thy ===== *)
theory Circuits
  imports NoteModel Merkle
begin

text \<open>
  The Noir circuits \<open>standard/deposit\<close>, \<open>standard/withdraw\<close> and \<open>standard/transfer\<close> with the shared library they call
  (\<open>circuits/shared/src\<close>), as functions from the witness to the public outputs; a failing \<open>assert\<close> is an error.  A
  \<open>Field\<close> is its canonical representative, \<open>u128\<close> additions are checked.  The curve and hash libraries are those of
  \<open>libs\<close>.  The lemmas relate the circuit's arithmetic to the wallet's: the parity test, the inclusion proof and the
  cipher agree.
\<close>

section \<open>Shared checks\<close>

definition assert_c :: "bool \<Rightarrow> string \<Rightarrow> unit result" where
  "assert_c c msg = guardR c (Error msg)"

definition TREE_DEPTH :: nat where "TREE_DEPTH = 32"

definition assert_subgroup_scalar :: "int \<Rightarrow> unit result" where
  "assert_subgroup_scalar x =
     bindR (assert_c (x \<noteq> 0) ''scalar must be non-zero'') (\<lambda>_.
     assert_c (x < BJJ_SUBGROUP_ORDER) ''scalar not in BabyJubJub prime-order subgroup'')"

definition HALF_MODULUS :: int where
  "HALF_MODULUS = 0x183227397098d014dc2822db40c0ac2e9419f4243cdcb848a1f0fac9f8000001"

definition is_even_y :: "point \<Rightarrow> bool" where
  "is_even_y p \<longleftrightarrow> (snd p * HALF_MODULUS) mod BN254_P < HALF_MODULUS"

definition derive_public_key :: "libs \<Rightarrow> int \<Rightarrow> point" where
  "derive_public_key L scalar = mulPointEscalar L (Base8 L) scalar"

definition pubkey_owner :: "libs \<Rightarrow> point \<Rightarrow> int" where
  "pubkey_owner L pk = poseidon2Hash L [fst pk, snd pk]"

definition check_subgroup :: "libs \<Rightarrow> point \<Rightarrow> bool" where
  "check_subgroup L p \<longleftrightarrow> mulPointEscalar L p (subOrder L) = (0, 1)"

text \<open>The constructor \<open>BabyJubJub::new\<close> asserts the curve equation.\<close>

definition assert_valid_compliance_pk :: "libs \<Rightarrow> point \<Rightarrow> unit result" where
  "assert_valid_compliance_pk L c =
     bindR (assert_c (inCurve L c) ''point is not on the curve'') (\<lambda>_.
     bindR (assert_c (check_subgroup L c) ''compliance key not in prime-order subgroup'') (\<lambda>_.
     assert_c (c \<noteq> (0, 1)) ''compliance key must not be the identity''))"

definition assert_valid_recipient_key :: "libs \<Rightarrow> point \<Rightarrow> unit result" where
  "assert_valid_recipient_key L p =
     bindR (assert_c (inCurve L p) ''point is not on the curve'') (\<lambda>_.
     bindR (assert_c (check_subgroup L p) ''recipient key not in prime-order subgroup'') (\<lambda>_.
     assert_c (p \<noteq> (0, 1)) ''recipient key must not be the identity''))"

text \<open>The source writes the inverse of eight modulo the order as a literal; \<open>EIGHT_INV_literal\<close> below shows
  that this expression is it.\<close>

definition EIGHT_INV :: "libs \<Rightarrow> int" where
  "EIGHT_INV L = ((subOrder L + 1) div 2) ^ 3 mod subOrder L"

definition cofactor_preimage_hint :: "libs \<Rightarrow> point \<Rightarrow> point" where
  "cofactor_preimage_hint L p = mulPointEscalar L p (EIGHT_INV L)"

definition assert_cofactor_preimage :: "libs \<Rightarrow> point \<Rightarrow> point \<Rightarrow> string \<Rightarrow> unit result" where
  "assert_cofactor_preimage L p q msg =
     bindR (assert_c (inCurve L q) ''point is not on the curve'') (\<lambda>_.
     (let dbl = (\<lambda>a. addPoint L a a); eight_q = dbl (dbl (dbl q)) in
      bindR (assert_c (fst eight_q = fst p) msg) (\<lambda>_. assert_c (snd eight_q = snd p) msg)))"

definition assert_in_prime_subgroup :: "libs \<Rightarrow> point \<Rightarrow> string \<Rightarrow> unit result" where
  "assert_in_prime_subgroup L p msg = assert_cofactor_preimage L p (cofactor_preimage_hint L p) msg"

definition derive_shared_key :: "libs \<Rightarrow> int \<Rightarrow> point \<Rightarrow> int result" where
  "derive_shared_key L k p =
     bindR (assert_c (inCurve L p) ''Public key not on curve'') (\<lambda>_.
     bindR (assert_c (check_subgroup L p) ''Public key not in valid subgroup'') (\<lambda>_.
     Inr (fst (mulPointEscalar L p k))))"

definition derive_cek :: "libs \<Rightarrow> int \<Rightarrow> point \<Rightarrow> int result" where
  "derive_cek L eph compliance_pk = bindR (assert_subgroup_scalar eph) (\<lambda>_. derive_shared_key L eph compliance_pk)"

definition wrap_cek :: "libs \<Rightarrow> int \<Rightarrow> int \<Rightarrow> point \<Rightarrow> int result" where
  "wrap_cek L cek eph in_pub =
     bindR (assert_subgroup_scalar eph) (\<lambda>_.
     bindR (derive_shared_key L eph in_pub) (\<lambda>pad. Inr ((cek + poseidon2Hash L [pad]) mod BN254_P)))"

definition dem_encrypt :: "libs \<Rightarrow> int \<Rightarrow> int list \<Rightarrow> int list" where
  "dem_encrypt L cek plaintext =
     map (\<lambda>k. (plaintext ! k + poseidon2Hash L [cek, ENC_DOMAIN, int k]) mod BN254_P) [0..<DEM_FIELDS]"

definition psi :: "libs \<Rightarrow> int \<Rightarrow> int" where
  "psi L cek = poseidon2Hash L [cek, PSI_DOMAIN]"

definition nullifier :: "libs \<Rightarrow> int \<Rightarrow> int \<Rightarrow> int" where
  "nullifier L note_psi leaf_index = poseidon2Hash L [note_psi, leaf_index]"

section \<open>Notes\<close>

definition note_leaf :: "libs \<Rightarrow> Note \<Rightarrow> int" where
  "note_leaf L n = poseidon2Hash L [noteVersion n, assetId n, noteType n, conditionsHash n, noteValue n,
     noteOwner n, notePsi n, noteParents n]"

definition assert_asset_id :: "int \<Rightarrow> unit result" where
  "assert_asset_id a = assert_c (a < 2 ^ 160) ''asset id does not fit in 20 bytes''"

definition assert_parents_bound :: "Note \<Rightarrow> int \<Rightarrow> int \<Rightarrow> unit result" where
  "assert_parents_bound n i j =
     assert_c (noteParents n = (i mod 2 ^ 32 + (j mod 2 ^ 32) * 2 ^ 32) mod BN254_P)
       ''output parents not bound to consumed inputs''"

definition u128_add :: "int \<Rightarrow> int \<Rightarrow> int result" where
  "u128_add a b = (if 2 ^ 128 \<le> a + b then Inl (Error ''attempt to add with overflow'') else Inr (a + b))"

definition assert_conserved :: "int list \<Rightarrow> int list \<Rightarrow> int \<Rightarrow> unit result" where
  "assert_conserved inputs outputs public_out =
     bindR (foldR u128_add 0 inputs) (\<lambda>total_in.
     bindR (foldR u128_add public_out outputs) (\<lambda>total_out.
     assert_c (total_in = total_out) ''value not conserved''))"

section \<open>Inclusion\<close>

fun inclusion_loop :: "libs \<Rightarrow> int \<Rightarrow> nat \<Rightarrow> int \<Rightarrow> int list \<Rightarrow> int result" where
  "inclusion_loop L leaf_index i current [] = Inr current"
| "inclusion_loop L leaf_index i current (sibling # siblings) =
     (let path_bit = leaf_index div 2 ^ i mod 2 in
      if sibling \<noteq> 0 then
        let left = (current + path_bit * ((sibling - current) mod BN254_P)) mod BN254_P;
            right = ((current + sibling) mod BN254_P - left) mod BN254_P
        in inclusion_loop L leaf_index (i + 1) (circomPoseidon L [left, right, int i]) siblings
      else bindR (assert_c (path_bit = 0) ''non-canonical leaf index: right child at empty level'') (\<lambda>_.
        inclusion_loop L leaf_index (i + 1) current siblings))"

definition lean_imt_inclusion_proof :: "libs \<Rightarrow> int \<Rightarrow> int \<Rightarrow> int list \<Rightarrow> int result" where
  "lean_imt_inclusion_proof L leaf0 leaf_index siblings =
     bindR (assert_c (leaf_index < 2 ^ length siblings) ''leaf index does not fit in the depth'') (\<lambda>_.
     inclusion_loop L leaf_index 0 leaf0 siblings)"

section \<open>Spending and minting\<close>

definition spend_membership_nullifier :: "libs \<Rightarrow> Note \<Rightarrow> int \<Rightarrow> int list \<Rightarrow> (int \<times> int) result" where
  "spend_membership_nullifier L n leaf_index path =
     bindR (assert_c (noteVersion n = NOTE_VERSION) ''unexpected note version'') (\<lambda>_.
     bindR (assert_asset_id (assetId n)) (\<lambda>_.
     bindR (lean_imt_inclusion_proof L (note_leaf L n) leaf_index path) (\<lambda>computed_root.
     Inr (nullifier L (notePsi n) leaf_index, computed_root))))"

definition verify_spend :: "libs \<Rightarrow> Note \<Rightarrow> int \<Rightarrow> int \<Rightarrow> int list \<Rightarrow> (int \<times> int) result" where
  "verify_spend L n spend_scalar leaf_index path =
     bindR (assert_subgroup_scalar spend_scalar) (\<lambda>_.
     bindR (assert_c (noteOwner n = pubkey_owner L (derive_public_key L spend_scalar)) ''spender does not own this note'') (\<lambda>_.
     bindR (assert_c (noteType n = NOTE_TYPE_STANDARD) ''unexpected note type'') (\<lambda>_.
     spend_membership_nullifier L n leaf_index path)))"

record mintCommon =
  mcmLeaf :: int
  mcmEphPub :: point
  mcmCek :: int
  mcmCiphertext :: "int list"

definition mint_common :: "libs \<Rightarrow> Note \<Rightarrow> int \<Rightarrow> point \<Rightarrow> mintCommon result" where
  "mint_common L n eph compliance_pk =
     bindR (assert_subgroup_scalar eph) (\<lambda>_.
     bindR (assert_c (noteOwner n \<noteq> 0) ''note owner must be non-zero'') (\<lambda>_.
     bindR (assert_c (noteVersion n = NOTE_VERSION) ''unexpected note version'') (\<lambda>_.
     bindR (assert_c (noteType n = NOTE_TYPE_STANDARD \<or> noteType n = NOTE_TYPE_MULTISIG) ''note_type not in {STANDARD, MULTISIG}'') (\<lambda>_.
     bindR (assert_c (conditionsHash n = 0) ''note conditions_hash must be zero'') (\<lambda>_.
     bindR (assert_asset_id (assetId n)) (\<lambda>_.
     bindR (derive_cek L eph compliance_pk) (\<lambda>cek.
     bindR (assert_c (notePsi n = psi L cek) ''psi not bound to CEK'') (\<lambda>_.
     Inr \<lparr>mcmLeaf = note_leaf L n, mcmEphPub = derive_public_key L eph, mcmCek = cek,
          mcmCiphertext = dem_encrypt L cek (noteFields n)\<rparr>))))))))"

definition mint_self_note :: "libs \<Rightarrow> Note \<Rightarrow> int \<Rightarrow> point \<Rightarrow> mintCommon result" where
  "mint_self_note L n eph compliance_pk =
     bindR (assert_c (noteType n = NOTE_TYPE_STANDARD) ''self note must be STANDARD'') (\<lambda>_.
     bindR (mint_common L n eph compliance_pk) (\<lambda>m.
     bindR (assert_c (is_even_y (mcmEphPub m)) ''self discovery tag must be even-y'') (\<lambda>_. Inr m)))"

definition mint_deposit :: "libs \<Rightarrow> Note \<Rightarrow> int \<Rightarrow> point \<Rightarrow> mintCommon result" where
  "mint_deposit L n eph compliance_pk =
     bindR (mint_common L n eph compliance_pk) (\<lambda>m.
     bindR (assert_c (is_even_y (mcmEphPub m)) ''deposit discovery tag must be even-y'') (\<lambda>_. Inr m))"

definition mint_incoming_note :: "libs \<Rightarrow> Note \<Rightarrow> int \<Rightarrow> point \<Rightarrow> point \<Rightarrow> point \<Rightarrow> (mintCommon \<times> int \<times> int) result" where
  "mint_incoming_note L n eph compliance_pk spend_pub view_pub =
     (let is_std = (if noteType n = NOTE_TYPE_STANDARD then 1 else 0 :: int);
          is_ms = (if noteType n = NOTE_TYPE_MULTISIG then 1 else 0);
          same_x = (if fst spend_pub = fst view_pub then 1 else 0) in
      bindR (assert_c (is_std + is_ms = 1) ''incoming memo note_type must be STANDARD or MULTISIG'') (\<lambda>_.
      bindR (assert_c (same_x = is_std) ''STANDARD memo must collapse spend/view; MULTISIG must decouple them'') (\<lambda>_.
      bindR (assert_c ((is_std * (snd spend_pub - snd view_pub)) mod BN254_P = 0) ''STANDARD memo must collapse spend/view; MULTISIG must decouple them'') (\<lambda>_.
      bindR (assert_in_prime_subgroup L spend_pub ''memo spend key not in prime-order subgroup'') (\<lambda>_.
      bindR (assert_c (inCurve L spend_pub) ''point is not on the curve'') (\<lambda>_.
      bindR (assert_c (spend_pub \<noteq> (0, 1)) ''memo spend key must not be the identity'') (\<lambda>_.
      bindR (assert_valid_recipient_key L view_pub) (\<lambda>_.
      bindR (assert_c (noteOwner n = pubkey_owner L spend_pub) ''memo owner must be the recipient owner'') (\<lambda>_.
      bindR (mint_common L n eph compliance_pk) (\<lambda>m.
      bindR (assert_c (is_even_y view_pub) ''incoming discovery tag must be even-y'') (\<lambda>_.
      bindR (assert_c (is_even_y (mcmEphPub m)) ''incoming eph tag must be even-y'') (\<lambda>_.
      bindR (wrap_cek L (mcmCek m) eph view_pub) (\<lambda>cek_wrap.
      Inr (m, fst view_pub, cek_wrap))))))))))))))"

section \<open>The circuits\<close>

definition deposit_main :: "libs \<Rightarrow> point \<Rightarrow> Note \<Rightarrow> int \<Rightarrow> (int \<times> int \<times> int \<times> int \<times> int list) result" where
  "deposit_main L compliance_pk n eph =
     bindR (assert_valid_compliance_pk L compliance_pk) (\<lambda>_.
     bindR (assert_c (noteParents n = 0) ''deposit output parents must be zero'') (\<lambda>_.
     bindR (mint_deposit L n eph compliance_pk) (\<lambda>m.
     Inr (mcmLeaf m, fst (mcmEphPub m), noteValue n, assetId n, mcmCiphertext m))))"

record withdrawWitness =
  wwWithdrawValue :: int
  wwRecipient :: int
  wwIntentHash :: int
  wwCompliancePk :: point
  wwOldNote :: Note
  wwSpendScalar :: int
  wwOldNoteIndex :: int
  wwOldNotePath :: "int list"
  wwChangeNote :: Note
  wwChangeEph :: int

record withdrawPublic =
  wpNullifier :: int
  wpRoot :: int
  wpAssetId :: int
  wpChangeLeaf :: int
  wpChangeEphX :: int
  wpCiphertext :: "int list"

definition withdraw_main :: "libs \<Rightarrow> withdrawWitness \<Rightarrow> withdrawPublic result" where
  "withdraw_main L w =
     bindR (assert_valid_compliance_pk L (wwCompliancePk w)) (\<lambda>_.
     bindR (assert_c (wwRecipient w \<noteq> 0) ''recipient must be nonzero'') (\<lambda>_.
     bindR (assert_c (wwIntentHash w = 0) ''intent_hash must be zero in v1'') (\<lambda>_.
     bindR (verify_spend L (wwOldNote w) (wwSpendScalar w) (wwOldNoteIndex w) (wwOldNotePath w)) (\<lambda>(nf, computed_root).
     bindR (assert_c (assetId (wwOldNote w) = assetId (wwChangeNote w)) ''asset mismatch'') (\<lambda>_.
     bindR (assert_conserved [noteValue (wwOldNote w)] [noteValue (wwChangeNote w)] (wwWithdrawValue w)) (\<lambda>_.
     bindR (assert_parents_bound (wwChangeNote w) (wwOldNoteIndex w) 0) (\<lambda>_.
     bindR (mint_self_note L (wwChangeNote w) (wwChangeEph w) (wwCompliancePk w)) (\<lambda>change.
     Inr \<lparr>wpNullifier = nf, wpRoot = computed_root, wpAssetId = assetId (wwOldNote w), wpChangeLeaf = mcmLeaf change,
          wpChangeEphX = fst (mcmEphPub change), wpCiphertext = mcmCiphertext change\<rparr>))))))))"

record transferWitness =
  twCompliancePk :: point
  twRecipientSpendPub :: point
  twRecipientViewPub :: point
  twOldNote :: Note
  twSpendScalar :: int
  twOldNoteIndex :: int
  twOldNotePath :: "int list"
  twMemoNote :: Note
  twMemoEph :: int
  twChangeNote :: Note
  twChangeEph :: int

record transferPublic =
  tpNullifier :: int
  tpRoot :: int
  tpMemoLeaf :: int
  tpMemoEphX :: int
  tpTag :: int
  tpCekWrap :: int
  tpMemoCiphertext :: "int list"
  tpChangeLeaf :: int
  tpChangeEphX :: int
  tpChangeCiphertext :: "int list"

definition transfer_main :: "libs \<Rightarrow> transferWitness \<Rightarrow> transferPublic result" where
  "transfer_main L w =
     bindR (assert_valid_compliance_pk L (twCompliancePk w)) (\<lambda>_.
     bindR (verify_spend L (twOldNote w) (twSpendScalar w) (twOldNoteIndex w) (twOldNotePath w)) (\<lambda>(nf, computed_root).
     bindR (assert_c (assetId (twOldNote w) = assetId (twMemoNote w)) ''memo asset mismatch'') (\<lambda>_.
     bindR (assert_c (assetId (twOldNote w) = assetId (twChangeNote w)) ''change asset mismatch'') (\<lambda>_.
     bindR (assert_c (twMemoEph w \<noteq> twChangeEph w) ''ephemerals must be distinct'') (\<lambda>_.
     bindR (assert_conserved [noteValue (twOldNote w)] [noteValue (twMemoNote w), noteValue (twChangeNote w)] 0) (\<lambda>_.
     bindR (assert_c (noteParents (twMemoNote w) = PARENTS_HIDDEN) ''memo parents must be hidden sentinel'') (\<lambda>_.
     bindR (assert_parents_bound (twChangeNote w) (twOldNoteIndex w) 0) (\<lambda>_.
     bindR (mint_incoming_note L (twMemoNote w) (twMemoEph w) (twCompliancePk w) (twRecipientSpendPub w) (twRecipientViewPub w)) (\<lambda>(memo, tag, cek_wrap).
     bindR (mint_self_note L (twChangeNote w) (twChangeEph w) (twCompliancePk w)) (\<lambda>change.
     Inr \<lparr>tpNullifier = nf, tpRoot = computed_root, tpMemoLeaf = mcmLeaf memo, tpMemoEphX = fst (mcmEphPub memo), tpTag = tag,
          tpCekWrap = cek_wrap, tpMemoCiphertext = mcmCiphertext memo, tpChangeLeaf = mcmLeaf change,
          tpChangeEphX = fst (mcmEphPub change), tpChangeCiphertext = mcmCiphertext change\<rparr>))))))))))"

section \<open>The circuit agrees with the wallet\<close>

lemma assert_c_simps [simp]: "assert_c c msg = Inr u \<longleftrightarrow> c" "assert_c True msg = Inr ()"
  by (simp_all add: assert_c_def)

lemma EIGHT_INV_literal:
  "subOrder L = BJJ_SUBGROUP_ORDER \<Longrightarrow>
    EIGHT_INV L = 2394026564107420727433200628387514462817212225638746351800188703329891451411"
proof -
  assume q: "subOrder L = BJJ_SUBGROUP_ORDER"
  let ?k = "935732765657466489144507900813825665616545756127748159995339057392877818184772713609984170701233476833715492736717986375902883181561638816402394463350"
  have h: "(BJJ_SUBGROUP_ORDER + 1) div 2 = 1368015179489954701390400359078579693038406986079283629600107830474223686521"
    by (simp add: BJJ_SUBGROUP_ORDER_def)
  have "((BJJ_SUBGROUP_ORDER + 1) div 2) ^ 3
      = 2394026564107420727433200628387514462817212225638746351800188703329891451411 + BJJ_SUBGROUP_ORDER * ?k"
    unfolding h by (simp add: BJJ_SUBGROUP_ORDER_def power3_eq_cube)
  then show ?thesis unfolding EIGHT_INV_def q by (simp only: mod_mult_self2) (simp add: BJJ_SUBGROUP_ORDER_def)
qed

lemma eight_inv: "odd q \<Longrightarrow> 1 < q \<Longrightarrow> (8 * (((q + 1) div 2) ^ 3 mod q)) mod q = (1::int)"
proof -
  assume q: "odd q" "1 < q"
  then obtain h where h: "q + 1 = 2 * h" by (metis evenE odd_even_add odd_one)
  have "(8 * (h ^ 3 mod q)) mod q = (8 * h ^ 3) mod q" by (simp add: mod_mult_right_eq)
  also have "8 * h ^ 3 = (q + 1) ^ 3" by (simp add: h power_mult_distrib)
  also have "(q + 1) ^ 3 mod q = ((q + 1) mod q) ^ 3 mod q" by (rule power_mod [symmetric])
  also have "\<dots> = 1" using q by (simp add: mod_add_self1)
  finally show ?thesis by (simp add: h)
qed

lemma subgroup_gadget_accepts:
  assumes L: "bjj_laws L" and p: "inSubgroup L p"
  shows "assert_in_prime_subgroup L p msg = Inr ()"
proof -
  define e where "e = nat (EIGHT_INV L)"
  have q: "0 < subOrder L" "1 < subOrder L" using bjj_laws_order_pos [OF L] bjj_laws_prime [OF L] by (auto simp: is_prime_def)
  have e: "int e = EIGHT_INV L" using q by (simp add: e_def EIGHT_INV_def)
  let ?m = "\<lambda>n. mulPointEscalar L p (int n)"
  have d: "addPoint L (?m n) (?m n) = ?m (2 * n)" for n
    using bjj_mul_nat(2) [OF L p, of n n, symmetric] by (simp only: mult_2)
  have "?m (8 * e) = mulPointEscalar L p (int (8 * e) mod subOrder L)"
    using bjj_mul_mod [OF L p, of "int (8 * e)"] by simp
  also have "int (8 * e) mod subOrder L = 1" using eight_inv [OF bjj_odd [OF L] q(2)] e by (simp add: EIGHT_INV_def)
  also have "mulPointEscalar L p 1 = p"
    using bjj_mul_Suc [OF L p, of 0] bjj_comm [OF L p bjj_mem_ident [OF L]] L p by (simp add: bjj_mul_0 bjj_id)
  finally have "addPoint L (addPoint L (addPoint L (?m e) (?m e)) (addPoint L (?m e) (?m e)))
      (addPoint L (addPoint L (?m e) (?m e)) (addPoint L (?m e) (?m e))) = p" unfolding d by simp
  then show ?thesis
    using bjj_mul_nat(1) [OF L p, of e]
    by (simp add: assert_in_prime_subgroup_def assert_cofactor_preimage_def cofactor_preimage_hint_def Let_def
        e [symmetric] bjj_mem)
qed

text \<open>Multiplying by the inverse of two halves an even number and lifts an odd one above the middle.\<close>

lemma is_even_y_iff:
  assumes "isFr (snd p)"
  shows "is_even_y p \<longleftrightarrow> isEvenY p"
proof -
  have h: "2 * HALF_MODULUS = BN254_P + 1" by (simp add: HALF_MODULUS_def BN254_P_def)
  have y: "0 \<le> snd p" "snd p < BN254_P" using assms by (simp_all add: isFr_def)
  show ?thesis
  proof (cases "snd p mod 2 = 0")
    case True
    then obtain k where k: "snd p = 2 * k" by auto
    have "snd p * HALF_MODULUS = k * (2 * HALF_MODULUS)" by (simp add: k)
    also have "\<dots> = k + k * BN254_P" unfolding h by (simp add: algebra_simps)
    finally have "(snd p * HALF_MODULUS) mod BN254_P = k mod BN254_P" by simp
    also have "\<dots> = k" using y k by (intro mod_pos_pos_trivial) auto
    finally show ?thesis using True y k h by (simp add: is_even_y_def isEvenY_def)
  next
    case False
    then obtain k where k: "snd p = 2 * k + 1" by (metis mult.commute mult_div_mod_eq not_mod_2_eq_0_eq_1)
    have "snd p * HALF_MODULUS = k * (2 * HALF_MODULUS) + HALF_MODULUS" by (simp add: k algebra_simps)
    also have "\<dots> = (k + HALF_MODULUS) + k * BN254_P" unfolding h by (simp add: algebra_simps)
    finally have "(snd p * HALF_MODULUS) mod BN254_P = (k + HALF_MODULUS) mod BN254_P" by simp
    also have "\<dots> = k + HALF_MODULUS" using y k h by (intro mod_pos_pos_trivial) (auto simp: HALF_MODULUS_def)
    finally show ?thesis using False y k by (simp add: is_even_y_def isEvenY_def)
  qed
qed

lemma path_select:
  assumes "isFr c" "isFr s" "b = 0 \<or> b = 1"
  shows "(c + b * ((s - c) mod BN254_P)) mod BN254_P = (if b = 1 then s else c)"
    "((c + s) mod BN254_P - (if b = 1 then s else c)) mod BN254_P = (if b = 1 then c else s)"
proof -
  have m: "c mod BN254_P = c" "s mod BN254_P = s" using assms(1,2) by (simp_all add: isFr_mod_id)
  show "(c + b * ((s - c) mod BN254_P)) mod BN254_P = (if b = 1 then s else c)"
    using assms(3) m by (auto simp: mod_add_right_eq)
  have "((c + s) mod BN254_P - x) mod BN254_P = (c + s - x) mod BN254_P" for x by (simp add: mod_diff_left_eq)
  then show "((c + s) mod BN254_P - (if b = 1 then s else c)) mod BN254_P = (if b = 1 then c else s)"
    using m by simp
qed

lemma inclusion_loop_fold:
  assumes L: "fr_laws L"
  shows "isFr current \<Longrightarrow> list_all isFr siblings \<Longrightarrow> i + length siblings \<le> 32 \<Longrightarrow>
    inclusion_loop L (int n) i current siblings = Inr root \<longleftrightarrow> foldLoop L n i current siblings = Inr root"
proof (induction siblings arbitrary: i current)
  case (Cons s siblings)
  define b where "b = int n div 2 ^ i mod 2"
  have bn: "b = int (n div 2 ^ i mod 2)" by (simp add: b_def zdiv_int zmod_int)
  have b01: "b = 0 \<or> b = 1" unfolding b_def by auto
  have b1: "(n div 2 ^ i) mod 2 = 1 \<longleftrightarrow> b = 1" unfolding bn of_nat_eq_1_iff by (rule refl)
  note sel = path_select [OF Cons.prems(1) _ b01, of s]
  have fr: "isFr s" using Cons.prems(2) by simp
  let ?l = "if b = 1 then s else current" and ?r = "if b = 1 then current else s"
  have i: "isFr (int i)" using Cons.prems(3) by (simp add: isFr_small)
  have ih: "isFr c \<Longrightarrow> inclusion_loop L (int n) (i + 1) c siblings = Inr root \<longleftrightarrow> foldLoop L n (i + 1) c siblings = Inr root" for c
    using Cons.IH [of c "i + 1"] Cons.prems(2,3) by simp
  show ?case
  proof (cases "s = 0")
    case False
    have "inclusion_loop L (int n) i current (s # siblings) = inclusion_loop L (int n) (i + 1) (circomPoseidon L [?l, ?r, int i]) siblings"
      unfolding inclusion_loop.simps Let_def b_def [symmetric] sel [OF fr] using False by simp
    moreover have "foldLoop L n i current (s # siblings) = foldLoop L n (i + 1) (circomPoseidon L [?l, ?r, int i]) siblings"
      unfolding foldLoop.simps Let_def b1 using False L i by (simp add: toFr_def poseidonV1Hash3_def)
    ultimately show ?thesis using ih [of "circomPoseidon L [?l, ?r, int i]"] L by simp
  next
    case True
    show ?thesis
      unfolding inclusion_loop.simps foldLoop.simps Let_def b_def [symmetric] b1
      using True b01 ih [OF Cons.prems(1)] by auto
  qed
qed simp

lemma inclusion_foldPath:
  assumes "fr_laws L" "isFr l" "list_all isFr siblings" "length siblings \<le> 32" "n < 2 ^ length siblings"
  shows "lean_imt_inclusion_proof L l (int n) siblings = Inr root \<longleftrightarrow> foldPath L l n siblings = Inr root"
proof -
  have "int n < 2 ^ length siblings" using assms(5) by (metis of_nat_less_iff of_nat_numeral of_nat_power)
  then show ?thesis
    using inclusion_loop_fold [OF assms(1-3), of 0 n root] assms(4) by (simp add: lean_imt_inclusion_proof_def foldPath_def)
qed

end
