(* ===== verification/Assemble.thy ===== *)
theory Assemble
  imports Preflight Circuits
begin

text \<open>
  \<open>tx/assemble.ts\<close> of the SDK and \<open>marshal.ts\<close>, \<open>circuits/builders.ts\<close> of the prover package: from spendable notes and
  an intent to the witness of a circuit.  An assembly threads the module's authorizations, because a consumed one
  stays consumed when a later step throws.  The main results compose the wallet with the circuits: what is assembled
  and marshalled is accepted, with the public outputs the wallet expects.  The texts of the input map are the numbers
  they print.
\<close>

section \<open>Inputs\<close>

record spendableNote =
  spNote :: Note
  spLeaf :: int
  spLeafIndex :: int
  spSpendScalar :: int

record assemblyContext =
  axCompliancePk :: point
  axComplianceVersion :: int
  axComplianceHistory :: historyObj
  axChainId :: int
  axPoolAddress :: string
  axDeploymentAnchor :: int
  axWitnessFor :: "int \<Rightarrow> merkleWitness result"

record openedSpend =
  osIndex :: int
  osPath :: "int list"
  osRoot :: int

definition openSpend :: "assemblyContext \<Rightarrow> spendableNote \<Rightarrow> openedSpend result" where
  "openSpend ctx input =
     bindR (axWitnessFor ctx (spLeaf input)) (\<lambda>w.
     if int (mwLeafIndex w) \<noteq> spLeafIndex input then Inl (AssemblyError ''MERKLE_INDEX_MISMATCH'')
     else Inr \<lparr>osIndex = int (mwLeafIndex w), osPath = mwSiblings w, osRoot = mwRoot w\<rparr>)"

definition assertPositive :: "int \<Rightarrow> unit result" where
  "assertPositive v = (if v < 0 then Inl (AssemblyError ''NEGATIVE_VALUE'') else Inr ())"

definition contextFor :: "assemblyContext \<Rightarrow> int \<Rightarrow> selfMintContext" where
  "contextFor ctx ownerCommitment = \<lparr>scOwnerCommitment = ownerCommitment, scCompliancePk = axCompliancePk ctx,
     scComplianceVersion = axComplianceVersion ctx, scComplianceHistory = axComplianceHistory ctx,
     scChainId = axChainId ctx, scPoolAddress = axPoolAddress ctx, scDeploymentAnchor = axDeploymentAnchor ctx\<rparr>"

text \<open>Steps that only read, then the consumption of the handles, then steps that can no longer undo it.\<close>

definition consumeThen :: "libs \<Rightarrow> nat set \<Rightarrow> authorizationState list \<Rightarrow> ('p \<times> int) result \<Rightarrow> assemblyContext \<Rightarrow> nat list
    \<Rightarrow> ('p \<Rightarrow> authorizedCandidate list \<Rightarrow> 'r result) \<Rightarrow> 'r result \<times> authorizationState list" where
  "consumeThen L reg auths prepared ctx handles finish =
     (case prepared of Inl e \<Rightarrow> (Inl e, auths)
      | Inr (p, ownerCommitment) \<Rightarrow>
        (case consumeSelfMints L reg auths handles (contextFor ctx ownerCommitment) of
           (Inl e, auths') \<Rightarrow> (Inl e, auths')
         | (Inr mints, auths') \<Rightarrow> (finish p mints, auths')))"

section \<open>Deposit and withdraw\<close>

record assembledDeposit =
  adCompliancePk :: point
  adNote :: Note
  adEph :: int
  adMinted :: mintedNote

definition assembleDeposit :: "libs \<Rightarrow> nat set \<Rightarrow> authorizationState list \<Rightarrow> assemblyContext \<Rightarrow> int \<Rightarrow> int \<Rightarrow> int \<Rightarrow> nat
    \<Rightarrow> assembledDeposit result \<times> authorizationState list" where
  "assembleDeposit L reg auths ctx v asset spendScalar selfMint =
     consumeThen L reg auths
       (bindR (assertPositive v) (\<lambda>_. bindR (pubkeyOwner L (publicKey L spendScalar)) (\<lambda>owner. Inr ((), owner)))) ctx [selfMint]
       (\<lambda>_ mints. bindR (mintSelfNote L (auEph (mints ! 0)) v spendScalar asset (axCompliancePk ctx) 0) (\<lambda>m.
         Inr \<lparr>adCompliancePk = axCompliancePk ctx, adNote = mNote m, adEph = auEph (mints ! 0), adMinted = m\<rparr>))"

record assembledWithdraw =
  awInputs :: withdrawWitness
  awChange :: mintedNote
  awRoot :: int

record withdrawRequest =
  wrInput :: spendableNote
  wrValue :: int
  wrRecipient :: int
  wrSelfSpendScalar :: int
  wrChangeMint :: nat
  wrIntentHash :: "int option"

text \<open>The part common to withdraw, transfer and split: open the input, compute the remainder, the owner of the change.\<close>

definition prepareSpend :: "libs \<Rightarrow> assemblyContext \<Rightarrow> spendableNote \<Rightarrow> int \<Rightarrow> int \<Rightarrow> ((openedSpend \<times> int) \<times> int) result" where
  "prepareSpend L ctx input v selfSpendScalar =
     bindR (openSpend ctx input) (\<lambda>spend.
     let changeValue = noteValue (spNote input) - v in
     bindR (assertPositive changeValue) (\<lambda>_.
     bindR (pubkeyOwner L (publicKey L selfSpendScalar)) (\<lambda>owner. Inr ((spend, changeValue), owner))))"

definition assembleWithdraw :: "libs \<Rightarrow> nat set \<Rightarrow> authorizationState list \<Rightarrow> assemblyContext \<Rightarrow> withdrawRequest
    \<Rightarrow> assembledWithdraw result \<times> authorizationState list" where
  "assembleWithdraw L reg auths ctx req =
     consumeThen L reg auths (prepareSpend L ctx (wrInput req) (wrValue req) (wrSelfSpendScalar req)) ctx [wrChangeMint req]
       (\<lambda>(spend, changeValue) mints.
         bindR (packParents L (osIndex spend) 0) (\<lambda>parents.
         bindR (mintSelfNote L (auEph (mints ! 0)) changeValue (wrSelfSpendScalar req) (assetId (spNote (wrInput req)))
           (axCompliancePk ctx) parents) (\<lambda>change.
         bindR (toFr L (wrValue req)) (\<lambda>withdrawValue.
         bindR (toFr L 0) (\<lambda>zero.
         Inr \<lparr>awInputs = \<lparr>wwWithdrawValue = withdrawValue, wwRecipient = wrRecipient req,
               wwIntentHash = orElse (wrIntentHash req) zero, wwCompliancePk = axCompliancePk ctx,
               wwOldNote = spNote (wrInput req), wwSpendScalar = spSpendScalar (wrInput req), wwOldNoteIndex = osIndex spend,
               wwOldNotePath = osPath spend, wwChangeNote = mNote change, wwChangeEph = auEph (mints ! 0)\<rparr>,
              awChange = change, awRoot = osRoot spend\<rparr>)))))"

section \<open>Transfer, split and join\<close>

record transferInputs =
  tiCompliancePk :: point
  tiRecipientInPub :: "point option"
  tiRecipientMultisig :: "(point \<times> point) option"
  tiOldNote :: Note
  tiSpendScalar :: int
  tiOldNoteIndex :: int
  tiOldNotePath :: "int list"
  tiMemoNote :: Note
  tiMemoEph :: int
  tiChangeNote :: Note
  tiChangeEph :: int

record assembledTransfer =
  atInputs :: transferInputs
  atMemo :: mintedNote
  atChange :: mintedNote
  atRoot :: int

record transferRequest =
  trInput :: spendableNote
  trValue :: int
  trRecipientInPub :: point
  trRecipientInKey :: int
  trSelfSpendScalar :: int
  trMemoEph :: int
  trChangeMint :: nat

definition assembleTransfer :: "libs \<Rightarrow> nat set \<Rightarrow> authorizationState list \<Rightarrow> assemblyContext \<Rightarrow> transferRequest
    \<Rightarrow> assembledTransfer result \<times> authorizationState list" where
  "assembleTransfer L reg auths ctx req =
     consumeThen L reg auths (prepareSpend L ctx (trInput req) (trValue req) (trSelfSpendScalar req)) ctx [trChangeMint req]
       (\<lambda>(spend, changeValue) mints.
         bindR (mintIncomingNote L (trMemoEph req) (trValue req) (trRecipientInPub req) (trRecipientInKey req)
           (assetId (spNote (trInput req))) (axCompliancePk ctx) PARENTS_HIDDEN) (\<lambda>memo.
         bindR (packParents L (osIndex spend) 0) (\<lambda>parents.
         bindR (mintSelfNote L (auEph (mints ! 0)) changeValue (trSelfSpendScalar req) (assetId (spNote (trInput req)))
           (axCompliancePk ctx) parents) (\<lambda>change.
         Inr \<lparr>atInputs = \<lparr>tiCompliancePk = axCompliancePk ctx, tiRecipientInPub = Some (trRecipientInPub req),
               tiRecipientMultisig = None, tiOldNote = spNote (trInput req), tiSpendScalar = spSpendScalar (trInput req),
               tiOldNoteIndex = osIndex spend, tiOldNotePath = osPath spend, tiMemoNote = mNote memo,
               tiMemoEph = trMemoEph req, tiChangeNote = mNote change, tiChangeEph = auEph (mints ! 0)\<rparr>,
              atMemo = memo, atChange = change, atRoot = osRoot spend\<rparr>))))"

record assembledSplit =
  asNoteIn :: Note
  asIndexIn :: int
  asPathIn :: "int list"
  asOut1 :: mintedNote
  asEph1 :: int
  asOut2 :: mintedNote
  asEph2 :: int
  asRoot :: int

definition assembleSplit :: "libs \<Rightarrow> nat set \<Rightarrow> authorizationState list \<Rightarrow> assemblyContext \<Rightarrow> spendableNote \<Rightarrow> int \<Rightarrow> int \<Rightarrow> nat \<Rightarrow> nat
    \<Rightarrow> assembledSplit result \<times> authorizationState list" where
  "assembleSplit L reg auths ctx input value1 selfSpendScalar h1 h2 =
     consumeThen L reg auths
       (bindR (openSpend ctx input) (\<lambda>spend.
        let value2 = noteValue (spNote input) - value1 in
        bindR (assertPositive value1) (\<lambda>_.
        bindR (assertPositive value2) (\<lambda>_.
        bindR (pubkeyOwner L (publicKey L selfSpendScalar)) (\<lambda>owner. Inr ((spend, value2), owner)))))) ctx [h1, h2]
       (\<lambda>(spend, value2) mints.
         bindR (packParents L (osIndex spend) 0) (\<lambda>parents.
         bindR (mintSelfNote L (auEph (mints ! 0)) value1 selfSpendScalar (assetId (spNote input)) (axCompliancePk ctx) parents) (\<lambda>out1.
         bindR (mintSelfNote L (auEph (mints ! 1)) value2 selfSpendScalar (assetId (spNote input)) (axCompliancePk ctx) parents) (\<lambda>out2.
         Inr \<lparr>asNoteIn = spNote input, asIndexIn = osIndex spend, asPathIn = osPath spend, asOut1 = out1, asEph1 = auEph (mints ! 0),
              asOut2 = out2, asEph2 = auEph (mints ! 1), asRoot = osRoot spend\<rparr>))))"

record assembledJoin =
  ajNoteA :: Note
  ajSpendScalarA :: int
  ajIndexA :: int
  ajPathA :: "int list"
  ajNoteB :: Note
  ajSpendScalarB :: int
  ajIndexB :: int
  ajPathB :: "int list"
  ajOut :: mintedNote
  ajEphOut :: int
  ajRoot :: int

definition prepareJoin :: "libs \<Rightarrow> assemblyContext \<Rightarrow> spendableNote \<Rightarrow> spendableNote \<Rightarrow> int
    \<Rightarrow> ((spendableNote \<times> spendableNote \<times> openedSpend \<times> openedSpend) \<times> int) result" where
  "prepareJoin L ctx inputA inputB selfSpendScalar =
     (if spLeafIndex inputA = spLeafIndex inputB then Inl (AssemblyError ''JOIN_SELF'')
      else let (lo, hi) = (if spLeafIndex inputA < spLeafIndex inputB then (inputA, inputB) else (inputB, inputA)) in
      if assetId (spNote lo) \<noteq> assetId (spNote hi) then Inl (AssemblyError ''JOIN_ASSET_MISMATCH'')
      else bindR (openSpend ctx lo) (\<lambda>a. bindR (openSpend ctx hi) (\<lambda>b.
        if osRoot a \<noteq> osRoot b then Inl (AssemblyError ''JOIN_ROOT_MISMATCH'')
        else bindR (pubkeyOwner L (publicKey L selfSpendScalar)) (\<lambda>owner. Inr ((lo, hi, a, b), owner)))))"

definition assembleJoin :: "libs \<Rightarrow> nat set \<Rightarrow> authorizationState list \<Rightarrow> assemblyContext \<Rightarrow> spendableNote \<Rightarrow> spendableNote \<Rightarrow> int \<Rightarrow> nat
    \<Rightarrow> assembledJoin result \<times> authorizationState list" where
  "assembleJoin L reg auths ctx inputA inputB selfSpendScalar selfMint =
     consumeThen L reg auths (prepareJoin L ctx inputA inputB selfSpendScalar) ctx [selfMint]
       (\<lambda>(lo, hi, a, b) mints.
         bindR (packParents L (osIndex a) (osIndex b)) (\<lambda>parents.
         bindR (mintSelfNote L (auEph (mints ! 0)) (noteValue (spNote lo) + noteValue (spNote hi)) selfSpendScalar
           (assetId (spNote lo)) (axCompliancePk ctx) parents) (\<lambda>out.
         Inr \<lparr>ajNoteA = spNote lo, ajSpendScalarA = spSpendScalar lo, ajIndexA = osIndex a, ajPathA = osPath a,
              ajNoteB = spNote hi, ajSpendScalarB = spSpendScalar hi, ajIndexB = osIndex b, ajPathB = osPath b,
              ajOut = out, ajEphOut = auEph (mints ! 0), ajRoot = osRoot a\<rparr>)))"

section \<open>Marshalling\<close>

definition U128_MAX :: int where "U128_MAX = 2 ^ 128 - 1"

definition marshalU128 :: "int \<Rightarrow> int result" where
  "marshalU128 v = (if U128_MAX < v then Inl (Error ''field exceeds u128 range'') else Inr v)"

definition marshalNote :: "Note \<Rightarrow> Note result" where
  "marshalNote n = (if U128_MAX < noteValue n then Inl (Error ''note value exceeds u128 range'') else Inr n)"

definition memoRecipientPoints :: "int \<Rightarrow> point option \<Rightarrow> (point \<times> point) option \<Rightarrow> (point \<times> point) result" where
  "memoRecipientPoints memoNoteType inPub multisig =
     (let wantsMultisig = (memoNoteType = NOTE_TYPE_MULTISIG) in
      case multisig of
        Some (gpk, viewPub) \<Rightarrow>
          if inPub \<noteq> None then Inl (Error ''memo recipient: pass recipientInPub or recipientMultisig, never both'')
          else if \<not> wantsMultisig then Inl (Error ''memo recipient: recipientMultisig requires the memo note_type to be MULTISIG'')
          else if fst gpk = fst viewPub then Inl (Error ''memo recipient: gpk and viewPub must not share x'')
          else Inr (gpk, viewPub)
      | None \<Rightarrow>
        (case inPub of None \<Rightarrow> Inl (Error ''memo recipient: recipientInPub or recipientMultisig is required'')
         | Some p \<Rightarrow> if wantsMultisig then Inl (Error ''memo recipient: a MULTISIG memo requires recipientMultisig'')
             else Inr (p, p)))"

definition buildWithdrawInputMap :: "withdrawWitness \<Rightarrow> withdrawWitness result" where
  "buildWithdrawInputMap w =
     bindR (marshalU128 (wwWithdrawValue w)) (\<lambda>v.
     bindR (marshalNote (wwOldNote w)) (\<lambda>old.
     bindR (marshalNote (wwChangeNote w)) (\<lambda>change.
     Inr (w\<lparr>wwWithdrawValue := v, wwOldNote := old, wwChangeNote := change\<rparr>))))"

definition buildTransferInputMap :: "transferInputs \<Rightarrow> transferWitness result" where
  "buildTransferInputMap t =
     bindR (memoRecipientPoints (noteType (tiMemoNote t)) (tiRecipientInPub t) (tiRecipientMultisig t)) (\<lambda>(spend, view).
     bindR (marshalNote (tiOldNote t)) (\<lambda>old.
     bindR (marshalNote (tiMemoNote t)) (\<lambda>memo.
     bindR (marshalNote (tiChangeNote t)) (\<lambda>change.
     Inr \<lparr>twCompliancePk = tiCompliancePk t, twRecipientSpendPub = spend, twRecipientViewPub = view, twOldNote = old,
          twSpendScalar = tiSpendScalar t, twOldNoteIndex = tiOldNoteIndex t, twOldNotePath = tiOldNotePath t,
          twMemoNote = memo, twMemoEph = tiMemoEph t, twChangeNote = change, twChangeEph = tiChangeEph t\<rparr>))))"

definition buildDepositInputMap :: "assembledDeposit \<Rightarrow> (point \<times> Note \<times> int) result" where
  "buildDepositInputMap d = bindR (marshalNote (adNote d)) (\<lambda>n. Inr (adCompliancePk d, n, adEph d))"

section \<open>Minted notes satisfy the mint gadgets\<close>

lemma valid_point_circuit:
  "assertValidPoint L p = Inr u \<Longrightarrow> assert_valid_recipient_key L p = Inr () \<and> inSubgroup L p \<and> inCurve L p \<and> p \<noteq> (0, 1)"
  by (auto simp: assertValidPoint_def assert_valid_recipient_key_def check_subgroup_def assert_c_def bjj_mem
      split: prod.splits if_splits)

lemma deriveCek_circuit: "fr_laws L \<Longrightarrow> deriveCek L eph pk = Inr cek \<Longrightarrow> derive_cek L eph pk = Inr cek \<and> assert_subgroup_scalar eph = Inr ()
    \<and> assert_valid_compliance_pk L pk = Inr ()"
  by (auto simp: deriveCek_def derive_cek_def derive_shared_key_def assert_subgroup_scalar_def assertSubgroupScalar_iff
      fr_laws_new_iff assert_c_def assertValidPoint_def assert_valid_compliance_pk_def check_subgroup_def split: prod.splits if_splits)

lemma dem_circuit: "fr_laws L \<Longrightarrow> length pt = DEM_FIELDS \<Longrightarrow> demEncrypt L cek pt = Inr (dem_encrypt L cek pt)"
  by (simp add: demEncrypt_ok dem_encrypt_def fr_laws_add)

lemma mint_common_minted:
  assumes L: "fr_laws L" and m: "finishMint L eph v owner asset sk parents pk = Inr m" and o: "owner \<noteq> 0" "asset < 2 ^ 160"
  shows "mint_common L (mNote m) eph pk = Inr \<lparr>mcmLeaf = mCommitment m, mcmEphPub = publicKey L eph, mcmCek = mCek m,
      mcmCiphertext = dem_encrypt L (mCek m) (noteFields (mNote m))\<rparr>"
proof -
  have f: "deriveCek L eph pk = Inr (mCek m)" "mNote m = mintedPlain L (mCek m) v owner asset parents"
    "leaf L (mNote m) = Inr (mCommitment m)" "0 \<le> v" "v < 2 ^ 128"
    using finishMint_Inr [OF L m] by auto
  have "mCommitment m = note_leaf L (mNote m)"
    using f(3) leaf_ok [OF L, of "mNote m"] f(4,5) by (simp add: f(2) mintedPlain_def note_leaf_def)
  then show ?thesis
    using deriveCek_circuit [OF L f(1)] o
    by (simp add: mint_common_def f(2) mintedPlain_def psi_def assert_asset_id_def derive_public_key_def publicKey_def)
qed

lemma publicKey_even:
  assumes "bjj_laws L" "0 \<le> k"
  shows "is_even_y (publicKey L k) \<longleftrightarrow> isEvenY (publicKey L k)"
  by (rule is_even_y_iff) (use bjj_coords [OF assms(1) publicKey_mem [OF assms]] in simp)

lemma mintSelf_finish:
  "mintSelfNote L eph v sk asset pk parents = Inr m \<Longrightarrow>
    \<exists>owner. pubkeyOwner L (publicKey L sk) = Inr owner \<and> finishMint L eph v owner asset sk parents pk = Inr m"
  by (auto simp: mintSelfNote_def)

lemma mint_self_minted:
  assumes L: "bjj_laws L" "fr_laws L" and m: "mintSelfNote L eph v sk asset pk parents = Inr m"
    and o: "noteOwner (mNote m) \<noteq> 0" "asset < 2 ^ 160" and e: "0 \<le> eph" "isEvenY (publicKey L eph)"
  shows "mint_self_note L (mNote m) eph pk = Inr \<lparr>mcmLeaf = mCommitment m, mcmEphPub = publicKey L eph, mcmCek = mCek m,
      mcmCiphertext = dem_encrypt L (mCek m) (noteFields (mNote m))\<rparr>"
proof -
  obtain owner where f: "finishMint L eph v owner asset sk parents pk = Inr m" using mintSelf_finish [OF m] by blast
  have n: "mNote m = mintedPlain L (mCek m) v owner asset parents" using finishMint_Inr [OF L(2) f] by blast
  have "owner \<noteq> 0" using o(1) by (simp add: n mintedPlain_def)
  from mint_common_minted [OF L(2) f this o(2)] show ?thesis
    using publicKey_even [OF L(1) e(1)] e(2) by (simp add: mint_self_note_def) (simp add: n mintedPlain_def)
qed

section \<open>Opened notes satisfy the spend gadget\<close>

definition spendableOk :: "libs \<Rightarrow> spendableNote \<Rightarrow> bool" where
  "spendableOk L s \<longleftrightarrow> noteVersion (spNote s) = NOTE_VERSION \<and> noteType (spNote s) = NOTE_TYPE_STANDARD
    \<and> 0 \<le> assetId (spNote s) \<and> assetId (spNote s) < 2 ^ 160 \<and> 0 \<le> noteValue (spNote s) \<and> noteValue (spNote s) < 2 ^ 128
    \<and> 0 < spSpendScalar s \<and> spSpendScalar s < BJJ_SUBGROUP_ORDER
    \<and> pubkeyOwner L (publicKey L (spSpendScalar s)) = Inr (noteOwner (spNote s)) \<and> leaf L (spNote s) = Inr (spLeaf s)"

text \<open>The contract of a witness source: what it returns folds to its root.\<close>

definition witness_laws :: "libs \<Rightarrow> (int \<Rightarrow> merkleWitness result) \<Rightarrow> bool" where
  "witness_laws L f \<longleftrightarrow> (\<forall>l w. f l = Inr w \<longrightarrow> length (mwSiblings w) = TREE_DEPTH \<and> list_all isFr (mwSiblings w)
     \<and> mwLeafIndex w < 2 ^ TREE_DEPTH \<and> foldPath L l (mwLeafIndex w) (mwSiblings w) = Inr (mwRoot w))"

lemma pubkeyOwner_circuit: "fr_laws L \<Longrightarrow> pubkeyOwner L p = Inr owner \<Longrightarrow> owner = pubkey_owner L p"
  by (auto simp: pubkeyOwner_def pubkey_owner_def fr_laws_new_iff)

lemma openSpend_Inr:
  assumes "witness_laws L (axWitnessFor ctx)" "openSpend ctx s = Inr sp"
  shows "osIndex sp = spLeafIndex s \<and> (\<exists>n. osIndex sp = int n \<and> n < 2 ^ 32 \<and> length (osPath sp) = 32 \<and> list_all isFr (osPath sp)
    \<and> foldPath L (spLeaf s) n (osPath sp) = Inr (osRoot sp))"
proof -
  obtain w where w: "axWitnessFor ctx (spLeaf s) = Inr w" "int (mwLeafIndex w) = spLeafIndex s"
    "sp = \<lparr>osIndex = int (mwLeafIndex w), osPath = mwSiblings w, osRoot = mwRoot w\<rparr>"
    using assms(2) by (auto simp: openSpend_def split: if_splits)
  then show ?thesis using assms(1) unfolding witness_laws_def TREE_DEPTH_def by (intro conjI exI [of _ "mwLeafIndex w"]) auto
qed

lemma verify_spend_opened:
  assumes L: "fr_laws L" and w: "witness_laws L (axWitnessFor ctx)" and s: "spendableOk L s" and o: "openSpend ctx s = Inr sp"
  shows "verify_spend L (spNote s) (spSpendScalar s) (osIndex sp) (osPath sp)
    = Inr (poseidon2Hash L [notePsi (spNote s), osIndex sp], osRoot sp)"
proof -
  obtain n where n: "osIndex sp = int n" "n < 2 ^ 32" "length (osPath sp) = 32" "list_all isFr (osPath sp)"
    "foldPath L (spLeaf s) n (osPath sp) = Inr (osRoot sp)"
    using openSpend_Inr [OF w o] by blast
  have lf: "spLeaf s = note_leaf L (spNote s)" "isFr (spLeaf s)"
    using s leaf_ok [OF L, of "spNote s"] L by (auto simp: spendableOk_def note_leaf_def)
  have "lean_imt_inclusion_proof L (note_leaf L (spNote s)) (int n) (osPath sp) = Inr (osRoot sp)"
    using inclusion_foldPath [OF L lf(2) n(4), of n "osRoot sp"] n(2,3,5) lf(1) by simp
  then show ?thesis
    using s pubkeyOwner_circuit [OF L, of "publicKey L (spSpendScalar s)"]
    by (simp add: verify_spend_def spend_membership_nullifier_def spendableOk_def assert_subgroup_scalar_def assert_asset_id_def
        n(1) nullifier_def derive_public_key_def publicKey_def)
qed

lemma parents_bound_packed:
  assumes "fr_laws L" "packParents L i j = Inr parents" "noteParents n = parents"
  shows "assert_parents_bound n i j = Inr ()"
proof -
  have "0 \<le> i" "i < 2 ^ 32" "0 \<le> j" "j < 2 ^ 32" "parents = i + j * 2 ^ 32" "isFr (i + j * 2 ^ 32)"
    using assms(1,2) by (auto simp: packParents_def assertU32_def fr_laws_new_iff split: if_splits)
  then show ?thesis using assms(3) by (simp add: assert_parents_bound_def isFr_mod_id)
qed

section \<open>Consumption inside an assembly\<close>

lemma consume_member:
  assumes "fr_laws L" "consumeSelfMints L reg auths hs ctx = (Inr cs, auths')"
  shows "length cs = length hs \<and> (\<forall>c \<in> set cs. \<exists>s \<in> set auths. auEph c = auEph (asCandidate s))"
  using assms(2)
proof (cases rule: consume_cases)
  case consumed
  have l2: "list_all2 (\<lambda>st c. freezeCandidate L (asCandidate st) = Inr c) (map (\<lambda>h. auths ! h) hs) cs"
    using consumed(3) by (simp add: mapR_eq_Inr [symmetric])
  have "\<exists>st \<in> set (map (\<lambda>h. auths ! h) hs). auEph c = auEph (asCandidate st)" if "c \<in> set cs" for c
    using l2 that by (induction) (auto simp: freezeCandidate_def fr_laws_new_iff [OF assms(1)])
  moreover have "set (map (\<lambda>h. auths ! h) hs) \<subseteq> set auths" using consumed(2) by auto
  ultimately show ?thesis using list_all2_lengthD [OF l2] by fastforce
qed simp

lemma consumeThen_Inr:
  assumes "consumeThen L reg auths prepared ctx hs finish = (Inr out, auths')"
  obtains p owner mints where "prepared = Inr (p, owner)" "consumeSelfMints L reg auths hs (contextFor ctx owner) = (Inr mints, auths')"
    "finish p mints = Inr out"
  using assms by (auto simp: consumeThen_def split: sum.splits prod.splits)

text \<open>Every candidate behind an authorization has a public point with an even y, as the registry hands them out.\<close>

definition evenAuths :: "libs \<Rightarrow> authorizationState list \<Rightarrow> bool" where
  "evenAuths L auths \<longleftrightarrow> (\<forall>s \<in> set auths. 0 \<le> auEph (asCandidate s) \<and> isEvenY (publicKey L (auEph (asCandidate s))))"

lemma evenAuths_mint:
  "fr_laws L \<Longrightarrow> evenAuths L auths \<Longrightarrow> consumeSelfMints L reg auths hs ctx = (Inr cs, auths') \<Longrightarrow> i < length hs \<Longrightarrow>
    0 \<le> auEph (cs ! i) \<and> isEvenY (publicKey L (auEph (cs ! i)))"
  using consume_member [of L reg auths hs ctx cs auths'] by (auto simp: evenAuths_def) (metis nth_mem)+

lemma prepareSpend_Inr:
  "prepareSpend L ctx input v sk = Inr ((sp, cv), owner) \<longleftrightarrow>
    openSpend ctx input = Inr sp \<and> cv = noteValue (spNote input) - v \<and> 0 \<le> cv \<and> pubkeyOwner L (publicKey L sk) = Inr owner"
  by (auto simp: prepareSpend_def assertPositive_def Let_def split: if_splits)

lemma marshalNote_ok: "noteValue n < 2 ^ 128 \<Longrightarrow> marshalNote n = Inr n"
  by (simp add: marshalNote_def U128_MAX_def)

lemma u128_add_ok: "a + b < 2 ^ 128 \<Longrightarrow> u128_add a b = Inr (a + b)"
  by (simp add: u128_add_def)

text \<open>A successful withdrawal or transfer, step by step.\<close>

lemma assembleWithdraw_Inr:
  assumes L: "fr_laws L" and ev: "evenAuths L auths" and a: "assembleWithdraw L reg auths ctx req = (Inr out, auths')"
  obtains sp eph parents change where "openSpend ctx (wrInput req) = Inr sp" "0 \<le> noteValue (spNote (wrInput req)) - wrValue req"
    "0 \<le> eph" "isEvenY (publicKey L eph)" "packParents L (osIndex sp) 0 = Inr parents"
    "mintSelfNote L eph (noteValue (spNote (wrInput req)) - wrValue req) (wrSelfSpendScalar req) (assetId (spNote (wrInput req)))
       (axCompliancePk ctx) parents = Inr change"
    "isFr (wrValue req)"
    "out = \<lparr>awInputs = \<lparr>wwWithdrawValue = wrValue req, wwRecipient = wrRecipient req, wwIntentHash = orElse (wrIntentHash req) 0,
       wwCompliancePk = axCompliancePk ctx, wwOldNote = spNote (wrInput req), wwSpendScalar = spSpendScalar (wrInput req),
       wwOldNoteIndex = osIndex sp, wwOldNotePath = osPath sp, wwChangeNote = mNote change, wwChangeEph = eph\<rparr>,
       awChange = change, awRoot = osRoot sp\<rparr>"
proof (rule consumeThen_Inr [OF a [unfolded assembleWithdraw_def]])
  fix p owner mints
  assume p: "prepareSpend L ctx (wrInput req) (wrValue req) (wrSelfSpendScalar req) = Inr (p, owner)"
    and c: "consumeSelfMints L reg auths [wrChangeMint req] (contextFor ctx owner) = (Inr mints, auths')"
    and f: "(case p of (spend, changeValue) \<Rightarrow> \<lambda>mints.
         bindR (packParents L (osIndex spend) 0) (\<lambda>parents.
         bindR (mintSelfNote L (auEph (mints ! 0)) changeValue (wrSelfSpendScalar req) (assetId (spNote (wrInput req)))
           (axCompliancePk ctx) parents) (\<lambda>change.
         bindR (toFr L (wrValue req)) (\<lambda>withdrawValue.
         bindR (toFr L 0) (\<lambda>zero.
         Inr \<lparr>awInputs = \<lparr>wwWithdrawValue = withdrawValue, wwRecipient = wrRecipient req,
               wwIntentHash = orElse (wrIntentHash req) zero, wwCompliancePk = axCompliancePk ctx,
               wwOldNote = spNote (wrInput req), wwSpendScalar = spSpendScalar (wrInput req), wwOldNoteIndex = osIndex spend,
               wwOldNotePath = osPath spend, wwChangeNote = mNote change, wwChangeEph = auEph (mints ! 0)\<rparr>,
              awChange = change, awRoot = osRoot spend\<rparr>))))) mints = Inr out"
  obtain sp cv where q: "p = (sp, cv)" by (cases p)
  show thesis
    using that [of sp "auEph (mints ! 0)"] p f L evenAuths_mint [OF L ev c, of 0]
    by (auto simp: q prepareSpend_Inr toFr_def fr_laws_new_iff)
qed

lemma assembleTransfer_Inr:
  assumes L: "fr_laws L" and ev: "evenAuths L auths" and a: "assembleTransfer L reg auths ctx req = (Inr out, auths')"
  obtains sp eph parents change memo where "openSpend ctx (trInput req) = Inr sp" "0 \<le> noteValue (spNote (trInput req)) - trValue req"
    "0 \<le> eph" "isEvenY (publicKey L eph)" "packParents L (osIndex sp) 0 = Inr parents"
    "mintSelfNote L eph (noteValue (spNote (trInput req)) - trValue req) (trSelfSpendScalar req) (assetId (spNote (trInput req)))
       (axCompliancePk ctx) parents = Inr change"
    "mintIncomingNote L (trMemoEph req) (trValue req) (trRecipientInPub req) (trRecipientInKey req) (assetId (spNote (trInput req)))
       (axCompliancePk ctx) PARENTS_HIDDEN = Inr memo"
    "out = \<lparr>atInputs = \<lparr>tiCompliancePk = axCompliancePk ctx, tiRecipientInPub = Some (trRecipientInPub req),
       tiRecipientMultisig = None, tiOldNote = spNote (trInput req), tiSpendScalar = spSpendScalar (trInput req),
       tiOldNoteIndex = osIndex sp, tiOldNotePath = osPath sp, tiMemoNote = mNote memo, tiMemoEph = trMemoEph req,
       tiChangeNote = mNote change, tiChangeEph = eph\<rparr>, atMemo = memo, atChange = change, atRoot = osRoot sp\<rparr>"
proof (rule consumeThen_Inr [OF a [unfolded assembleTransfer_def]], goal_cases)
  case (1 p owner mints)
  obtain sp cv where q: "p = (sp, cv)" by (cases p)
  show thesis
    using 1 evenAuths_mint [OF L ev 1(3), of 0] by (auto simp: q prepareSpend_Inr)
qed

lemma mintIncoming_Inr:
  assumes "fr_laws L" "mintIncomingNote L eph v p inKey asset pk parents = Inr m"
  shows "\<exists>owner. mNote m = mintedPlain L (mCek m) v owner asset parents \<and> 0 \<le> v"
proof -
  obtain owner built cw t where "finishMint L eph v owner asset inKey parents pk = Inr built"
    "m = built\<lparr>mInPub := Some p, mCekWrap := Some cw, mTag := t\<rparr>"
    using assms(2) by (auto simp: mintIncomingNote_def)
  then show ?thesis using finishMint_Inr [OF assms(1), of eph v owner asset inKey parents pk built] by auto
qed

lemma mint_incoming_minted:
  assumes L: "bjj_laws L" "fr_laws L" and m: "mintIncomingNote L eph v p inKey asset pk parents = Inr m"
    and o: "noteOwner (mNote m) \<noteq> 0" "asset < 2 ^ 160" and e: "0 \<le> eph" "isEvenY (publicKey L eph)" "isFr (snd p)" "isEvenY p"
  shows "\<exists>cek_wrap. mCekWrap m = Some cek_wrap \<and> mTag m = fst p \<and> mint_incoming_note L (mNote m) eph pk p p
    = Inr (\<lparr>mcmLeaf = mCommitment m, mcmEphPub = publicKey L eph, mcmCek = mCek m,
        mcmCiphertext = dem_encrypt L (mCek m) (noteFields (mNote m))\<rparr>, fst p, cek_wrap)"
proof -
  obtain owner built cw where b: "pubkeyOwner L p = Inr owner" "finishMint L eph v owner asset inKey parents pk = Inr built"
    "wrapCek L (mCek built) eph p = Inr cw" "m = built\<lparr>mInPub := Some p, mCekWrap := Some cw, mTag := fst p\<rparr>"
    using m L(2) by (auto simp: mintIncomingNote_def fr_laws_new_iff)
  have n: "mNote built = mintedPlain L (mCek built) v owner asset parents" using finishMint_Inr [OF L(2) b(2)] by blast
  have ow: "owner \<noteq> 0" using o(1) by (simp add: b(4) n mintedPlain_def)
  have pv: "assertValidPoint L p = Inr ()" "wrap_cek L (mCek built) eph p = Inr cw"
    using b(3) L(2) by (auto simp: wrapCek_def wrap_cek_def derive_shared_key_def assert_subgroup_scalar_def assertSubgroupScalar_iff
        fr_laws_new_iff fr_laws_add assertValidPoint_def check_subgroup_def assert_c_def split: prod.splits if_splits)
  have n': "noteType (mNote built) = NOTE_TYPE_STANDARD" "noteOwner (mNote built) = owner"
    by (simp_all add: n mintedPlain_def)
  show ?thesis
    using mint_common_minted [OF L(2) b(2) ow o(2)] valid_point_circuit [OF pv(1)]
      subgroup_gadget_accepts [OF L(1)] pv(2) pubkeyOwner_circuit [OF L(2) b(1)]
      publicKey_even [OF L(1) e(1)] e(2) is_even_y_iff [OF e(3)] e(4)
    by (simp add: mint_incoming_note_def b(4) n' NOTE_TYPE_STANDARD_def NOTE_TYPE_MULTISIG_def)
qed

lemma prepareJoin_Inr:
  "prepareJoin L ctx inputA inputB sk = Inr ((lo, hi, a, b), owner) \<Longrightarrow> spLeafIndex lo < spLeafIndex hi
    \<and> ((lo, hi) = (inputA, inputB) \<or> (lo, hi) = (inputB, inputA)) \<and> assetId (spNote lo) = assetId (spNote hi)
    \<and> openSpend ctx lo = Inr a \<and> openSpend ctx hi = Inr b \<and> osRoot a = osRoot b"
  by (auto simp: prepareJoin_def split: if_splits)

lemma assembleJoin_Inr:
  assumes L: "fr_laws L" and j: "assembleJoin L reg auths ctx inputA inputB sk h = (Inr out, auths')"
  obtains lo hi a b where "spLeafIndex lo < spLeafIndex hi" "(lo, hi) = (inputA, inputB) \<or> (lo, hi) = (inputB, inputA)"
    "assetId (spNote lo) = assetId (spNote hi)" "openSpend ctx lo = Inr a" "openSpend ctx hi = Inr b" "osRoot a = osRoot b"
    "noteValue (mNote (ajOut out)) = noteValue (spNote lo) + noteValue (spNote hi)"
    "assetId (mNote (ajOut out)) = assetId (spNote lo)" "unpackParents (noteParents (mNote (ajOut out))) = Inr (osIndex a, osIndex b)"
    "ajIndexA out = osIndex a" "ajIndexB out = osIndex b" "ajPathA out = osPath a" "ajPathB out = osPath b" "ajRoot out = osRoot a"
proof (rule consumeThen_Inr [OF j [unfolded assembleJoin_def]], goal_cases)
  case (1 p owner mints)
  obtain lo hi a b where q: "p = (lo, hi, a, b)" by (cases p)
  obtain parents m where x: "packParents L (osIndex a) (osIndex b) = Inr parents"
    "mintSelfNote L (auEph (mints ! 0)) (noteValue (spNote lo) + noteValue (spNote hi)) sk (assetId (spNote lo)) (axCompliancePk ctx) parents = Inr m"
    "out = \<lparr>ajNoteA = spNote lo, ajSpendScalarA = spSpendScalar lo, ajIndexA = osIndex a, ajPathA = osPath a, ajNoteB = spNote hi,
      ajSpendScalarB = spSpendScalar hi, ajIndexB = osIndex b, ajPathB = osPath b, ajOut = m, ajEphOut = auEph (mints ! 0), ajRoot = osRoot a\<rparr>"
    using 1(4) by (auto simp: q)
  obtain ow where m: "mNote m = mintedPlain L (mCek m) (noteValue (spNote lo) + noteValue (spNote hi)) ow (assetId (spNote lo)) parents"
    using mintSelfNote_Inr [OF L x(2)] by blast
  have "bindR (packParents L (osIndex a) (osIndex b)) unpackParents = Inr (osIndex a, osIndex b)"
    using parents_packed [OF L x(1)] x(1) by simp
  then have "unpackParents parents = Inr (osIndex a, osIndex b)" using x(1) by simp
  then show thesis using 1(1) [of lo hi a b] prepareJoin_Inr [OF 1(2) [unfolded q]] by (simp add: x(3) m mintedPlain_def)
qed

section \<open>A concrete wallet\<close>

text \<open>A tree with one leaf: the path is empty at every level and the root is the leaf.\<close>

definition soloWitness :: "int \<Rightarrow> merkleWitness result" where
  "soloWitness l = Inr \<lparr>mwLeafIndex = 0, mwSiblings = replicate TREE_DEPTH 0, mwRoot = l\<rparr>"

lemma solo_fold: "foldLoop L 0 i l (replicate n 0) = Inr l"
  by (induction n arbitrary: i) simp_all

lemma soloWitness_laws: "witness_laws L soloWitness"
  by (auto simp: witness_laws_def soloWitness_def foldPath_def solo_fold TREE_DEPTH_def list_all_iff)

definition toyAssembly :: assemblyContext where
  "toyAssembly = \<lparr>axCompliancePk = (5, 2), axComplianceVersion = 1, axComplianceHistory = toyHistory, axChainId = 1,
     axPoolAddress = ''0x'' @ replicate 40 CHR ''a'', axDeploymentAnchor = 0, axWitnessFor = soloWitness\<rparr>"

definition toySpendable :: spendableNote where
  "toySpendable = \<lparr>spNote = mNote toyMint, spLeaf = mCommitment toyMint, spLeafIndex = 0, spSpendScalar = 2\<rparr>"

lemma toySpendable_ok: "spendableOk toyLibs toySpendable"
proof -
  have "pubkeyOwner toyLibs (publicKey toyLibs 2) = Inr 88" "leaf toyLibs (mNote toyMint) = Inr 1" by code_simp+
  then show ?thesis
    by (simp add: spendableOk_def toySpendable_def toyMint_def NOTE_VERSION_def NOTE_TYPE_STANDARD_def BJJ_SUBGROUP_ORDER_def)
qed

lemma toyAuths_even: "evenAuths toyLibs toyAuths"
proof -
  have "list_all (\<lambda>s. 0 \<le> auEph (asCandidate s) \<and> isEvenY (publicKey toyLibs (auEph (asCandidate s)))) toyAuths" by code_simp
  then show ?thesis by (simp add: evenAuths_def list_all_iff)
qed

definition toyWithdraw :: withdrawRequest where
  "toyWithdraw = \<lparr>wrInput = toySpendable, wrValue = 20, wrRecipient = 7, wrSelfSpendScalar = 2, wrChangeMint = 0, wrIntentHash = None\<rparr>"

definition toyTransfer :: transferRequest where
  "toyTransfer = \<lparr>trInput = toySpendable, trValue = 20, trRecipientInPub = (6, 2), trRecipientInKey = 6, trSelfSpendScalar = 2,
     trMemoEph = 5, trChangeMint = 1\<rparr>"

lemma toyWithdraw_out:
  "map_sum id (\<lambda>o1. noteOwner (mNote (awChange o1))) (fst (assembleWithdraw toyLibs {0} toyAuths toyAssembly toyWithdraw)) = Inr 88"
  by code_simp

lemma toyTransfer_out:
  "map_sum id (\<lambda>o1. (noteOwner (mNote (atChange o1)), noteOwner (mNote (atMemo o1)), tiChangeEph (atInputs o1)))
     (fst (assembleTransfer toyLibs {0} toyAuths toyAssembly toyTransfer)) = Inr (88, 11, 4)"
  by code_simp

section \<open>Properties\<close>

text \<open>C4: an assembled withdrawal is provable.  Let the wallet's note be one it owns, the witness source honour its
  contract, the recipient be non-zero and the authorized change candidate have an even-y point.  Then whatever
  \<open>assembleWithdraw\<close> returns is marshalled, and the circuit accepts it: ownership, inclusion, value conservation, the
  binding of the change note's parents and content key all hold.  The public outputs are the nullifier of the spent
  note, the root the wallet opened against, the commitment of the change note the wallet keeps and its discovery tag.\<close>

theorem assembled_withdraw_provable:
  assumes L: "bjj_laws L" "fr_laws L" and w: "witness_laws L (axWitnessFor ctx)" and s: "spendableOk L (wrInput req)"
    and rq: "wrRecipient req \<noteq> 0" "orElse (wrIntentHash req) 0 = 0" and ev: "evenAuths L auths"
    and a: "assembleWithdraw L reg auths ctx req = (Inr out, auths')" and own: "noteOwner (mNote (awChange out)) \<noteq> 0"
  shows "bindR (buildWithdrawInputMap (awInputs out)) (withdraw_main L)
    = Inr \<lparr>wpNullifier = poseidon2Hash L [notePsi (spNote (wrInput req)), spLeafIndex (wrInput req)], wpRoot = awRoot out,
        wpAssetId = assetId (spNote (wrInput req)), wpChangeLeaf = mCommitment (awChange out), wpChangeEphX = mTag (awChange out),
        wpCiphertext = dem_encrypt L (mCek (awChange out)) (noteFields (mNote (awChange out)))\<rparr>"
proof -
  let ?n = "spNote (wrInput req)"
  obtain sp eph parents change where o: "openSpend ctx (wrInput req) = Inr sp" "0 \<le> noteValue ?n - wrValue req"
    and e: "0 \<le> eph" "isEvenY (publicKey L eph)" and x: "packParents L (osIndex sp) 0 = Inr parents"
      "mintSelfNote L eph (noteValue ?n - wrValue req) (wrSelfSpendScalar req) (assetId ?n) (axCompliancePk ctx) parents = Inr change"
      "isFr (wrValue req)"
      "out = \<lparr>awInputs = \<lparr>wwWithdrawValue = wrValue req, wwRecipient = wrRecipient req, wwIntentHash = orElse (wrIntentHash req) 0,
       wwCompliancePk = axCompliancePk ctx, wwOldNote = ?n, wwSpendScalar = spSpendScalar (wrInput req), wwOldNoteIndex = osIndex sp,
       wwOldNotePath = osPath sp, wwChangeNote = mNote change, wwChangeEph = eph\<rparr>, awChange = change, awRoot = osRoot sp\<rparr>"
    by (rule assembleWithdraw_Inr [OF L(2) ev a])
  let ?cv = "noteValue ?n - wrValue req"
  obtain ow where m: "mNote change = mintedPlain L (mCek change) ?cv ow (assetId ?n) parents" "mTag change = fst (publicKey L eph)"
    "deriveCek L eph (axCompliancePk ctx) = Inr (mCek change)"
    using mintSelfNote_Inr [OF L(2) x(2)] by blast
  have asset: "assetId ?n < 2 ^ 160" "0 \<le> noteValue ?n" "noteValue ?n < 2 ^ 128" using s by (simp_all add: spendableOk_def)
  have mint: "mint_self_note L (mNote change) eph (axCompliancePk ctx) = Inr \<lparr>mcmLeaf = mCommitment change,
      mcmEphPub = publicKey L eph, mcmCek = mCek change, mcmCiphertext = dem_encrypt L (mCek change) (noteFields (mNote change))\<rparr>"
    by (rule mint_self_minted [OF L x(2) _ asset(1) e]) (use own x(4) in simp)
  have v: "0 \<le> wrValue req" "wrValue req + ?cv = noteValue ?n" using x(3) by (simp_all add: isFr_def)
  have cons: "assert_conserved [noteValue ?n] [noteValue (mNote change)] (wrValue req) = Inr ()"
    using v asset by (simp add: assert_conserved_def u128_add_ok m(1) mintedPlain_def)
  have par: "assert_parents_bound (mNote change) (osIndex sp) 0 = Inr ()"
    by (rule parents_bound_packed [OF L(2) x(1)]) (simp add: m(1) mintedPlain_def)
  have build: "buildWithdrawInputMap (awInputs out) = Inr (awInputs out)"
    using v asset o(2) by (simp add: buildWithdrawInputMap_def x(4) marshalU128_def U128_MAX_def marshalNote_ok m(1) mintedPlain_def)
  have as: "assetId (mNote change) = assetId ?n" by (simp add: m(1) mintedPlain_def)
  show ?thesis
    unfolding build bindR.simps
    using verify_spend_opened [OF L(2) w s o(1)] openSpend_Inr [OF w o(1)] rq mint cons par as deriveCek_circuit [OF L(2) m(3)]
    by (simp add: withdraw_main_def x(4) m(2))
qed

theorem assembled_withdraw_provable_witness:
  "\<exists>out pub. fst (assembleWithdraw toyLibs {0} toyAuths toyAssembly toyWithdraw) = Inr out
    \<and> bindR (buildWithdrawInputMap (awInputs out)) (withdraw_main toyLibs) = Inr pub \<and> wpChangeLeaf pub = mCommitment (awChange out)"
proof -
  obtain r auths' where a: "assembleWithdraw toyLibs {0} toyAuths toyAssembly toyWithdraw = (r, auths')"
    by (cases "assembleWithdraw toyLibs {0} toyAuths toyAssembly toyWithdraw")
  obtain out where r: "r = Inr out" "noteOwner (mNote (awChange out)) = 88" using toyWithdraw_out a by (cases r) auto
  obtain pub where "bindR (buildWithdrawInputMap (awInputs out)) (withdraw_main toyLibs) = Inr pub"
    "wpChangeLeaf pub = mCommitment (awChange out)"
    using assembled_withdraw_provable [OF toyLibs_bjj_laws toyLibs_fr_laws _ _ _ _ toyAuths_even a [unfolded r(1)]] r(2)
    by (force simp: toyAssembly_def soloWitness_laws toyWithdraw_def toySpendable_ok)
  then show ?thesis using a r(1) by auto
qed

text \<open>C9: an assembled transfer is provable.  As for the withdrawal; the recipient's address and the memo's ephemeral
  must have even-y points and the two ephemerals must differ, which assembly leaves to its caller.  The circuit then
  accepts the memo with its parents hidden and the change, and publishes the recipient's tag and the wrapped content
  key the wallet computed.\<close>

theorem assembled_transfer_provable:
  assumes L: "bjj_laws L" "fr_laws L" and w: "witness_laws L (axWitnessFor ctx)" and s: "spendableOk L (trInput req)"
    and ev: "evenAuths L auths" and memo: "0 \<le> trMemoEph req" "isEvenY (publicKey L (trMemoEph req))"
    and rcp: "isFr (snd (trRecipientInPub req))" "isEvenY (trRecipientInPub req)"
    and a: "assembleTransfer L reg auths ctx req = (Inr out, auths')" and ne: "trMemoEph req \<noteq> tiChangeEph (atInputs out)"
    and own: "noteOwner (mNote (atChange out)) \<noteq> 0" "noteOwner (mNote (atMemo out)) \<noteq> 0"
  shows "\<exists>cek_wrap. mCekWrap (atMemo out) = Some cek_wrap \<and> bindR (buildTransferInputMap (atInputs out)) (transfer_main L)
    = Inr \<lparr>tpNullifier = poseidon2Hash L [notePsi (spNote (trInput req)), spLeafIndex (trInput req)], tpRoot = atRoot out,
        tpMemoLeaf = mCommitment (atMemo out), tpMemoEphX = fst (publicKey L (trMemoEph req)), tpTag = mTag (atMemo out),
        tpCekWrap = cek_wrap, tpMemoCiphertext = dem_encrypt L (mCek (atMemo out)) (noteFields (mNote (atMemo out))),
        tpChangeLeaf = mCommitment (atChange out), tpChangeEphX = mTag (atChange out),
        tpChangeCiphertext = dem_encrypt L (mCek (atChange out)) (noteFields (mNote (atChange out)))\<rparr>"
proof -
  let ?n = "spNote (trInput req)" and ?p = "trRecipientInPub req" and ?pk = "axCompliancePk ctx" and ?me = "trMemoEph req"
  let ?cv = "noteValue ?n - trValue req"
  obtain sp eph parents change m where o: "openSpend ctx (trInput req) = Inr sp" "0 \<le> ?cv"
    and e: "0 \<le> eph" "isEvenY (publicKey L eph)" and x: "packParents L (osIndex sp) 0 = Inr parents"
      "mintSelfNote L eph ?cv (trSelfSpendScalar req) (assetId ?n) ?pk parents = Inr change"
      "mintIncomingNote L ?me (trValue req) ?p (trRecipientInKey req) (assetId ?n) ?pk PARENTS_HIDDEN = Inr m"
      "out = \<lparr>atInputs = \<lparr>tiCompliancePk = ?pk, tiRecipientInPub = Some ?p, tiRecipientMultisig = None, tiOldNote = ?n,
         tiSpendScalar = spSpendScalar (trInput req), tiOldNoteIndex = osIndex sp, tiOldNotePath = osPath sp, tiMemoNote = mNote m,
         tiMemoEph = ?me, tiChangeNote = mNote change, tiChangeEph = eph\<rparr>, atMemo = m, atChange = change, atRoot = osRoot sp\<rparr>"
    by (rule assembleTransfer_Inr [OF L(2) ev a])
  have n: "assetId ?n < 2 ^ 160" "0 \<le> noteValue ?n" "noteValue ?n < 2 ^ 128" using s by (simp_all add: spendableOk_def)
  obtain ow where c: "mNote change = mintedPlain L (mCek change) ?cv ow (assetId ?n) parents" "mTag change = fst (publicKey L eph)"
    "deriveCek L eph ?pk = Inr (mCek change)"
    using mintSelfNote_Inr [OF L(2) x(2)] by blast
  obtain om where m: "mNote m = mintedPlain L (mCek m) (trValue req) om (assetId ?n) PARENTS_HIDDEN" "0 \<le> trValue req"
    using mintIncoming_Inr [OF L(2) x(3)] by blast
  obtain cw where cw: "mCekWrap m = Some cw" "mTag m = fst ?p" "mint_incoming_note L (mNote m) ?me ?pk ?p ?p
      = Inr (\<lparr>mcmLeaf = mCommitment m, mcmEphPub = publicKey L ?me, mcmCek = mCek m,
          mcmCiphertext = dem_encrypt L (mCek m) (noteFields (mNote m))\<rparr>, fst ?p, cw)"
    using mint_incoming_minted [OF L x(3) _ n(1) memo rcp] own(2) x(4) by auto
  have mint: "mint_self_note L (mNote change) eph ?pk = Inr \<lparr>mcmLeaf = mCommitment change, mcmEphPub = publicKey L eph,
      mcmCek = mCek change, mcmCiphertext = dem_encrypt L (mCek change) (noteFields (mNote change))\<rparr>"
    by (rule mint_self_minted [OF L x(2) _ n(1) e]) (use own(1) x(4) in simp)
  have vals: "noteValue (mNote m) = trValue req" "noteValue (mNote change) = ?cv" "assetId (mNote m) = assetId ?n"
    "assetId (mNote change) = assetId ?n" "noteParents (mNote m) = PARENTS_HIDDEN" "noteType (mNote m) = NOTE_TYPE_STANDARD"
    by (simp_all add: m(1) c(1) mintedPlain_def)
  have cons: "assert_conserved [noteValue ?n] [trValue req, ?cv] 0 = Inr ()"
    using n m(2) o(2) by (simp add: assert_conserved_def u128_add_def)
  have par: "assert_parents_bound (mNote change) (osIndex sp) 0 = Inr ()"
    by (rule parents_bound_packed [OF L(2) x(1)]) (simp add: c(1) mintedPlain_def)
  have build: "buildTransferInputMap (atInputs out) = Inr \<lparr>twCompliancePk = ?pk, twRecipientSpendPub = ?p, twRecipientViewPub = ?p,
      twOldNote = ?n, twSpendScalar = spSpendScalar (trInput req), twOldNoteIndex = osIndex sp, twOldNotePath = osPath sp,
      twMemoNote = mNote m, twMemoEph = ?me, twChangeNote = mNote change, twChangeEph = eph\<rparr>"
    using n m(2) o(2) by (simp add: buildTransferInputMap_def x(4) memoRecipientPoints_def marshalNote_ok vals NOTE_TYPE_STANDARD_def NOTE_TYPE_MULTISIG_def)
  show ?thesis
    unfolding build bindR.simps
    using verify_spend_opened [OF L(2) w s o(1)] openSpend_Inr [OF w o(1)] mint cons par cw deriveCek_circuit [OF L(2) c(3)] ne
    by (simp add: transfer_main_def x(4) c(2) vals)
qed

theorem assembled_transfer_provable_witness:
  "\<exists>out pub. fst (assembleTransfer toyLibs {0} toyAuths toyAssembly toyTransfer) = Inr out
    \<and> bindR (buildTransferInputMap (atInputs out)) (transfer_main toyLibs) = Inr pub \<and> tpMemoLeaf pub = mCommitment (atMemo out)"
proof -
  obtain r auths' where a: "assembleTransfer toyLibs {0} toyAuths toyAssembly toyTransfer = (r, auths')"
    by (cases "assembleTransfer toyLibs {0} toyAuths toyAssembly toyTransfer")
  obtain out where r: "r = Inr out" "noteOwner (mNote (atChange out)) = 88" "noteOwner (mNote (atMemo out)) \<noteq> 0"
    "tiChangeEph (atInputs out) = 4" using toyTransfer_out a by (cases r) auto
  have ev: "isEvenY (publicKey toyLibs 5)" "isEvenY (6, 2)" by code_simp+
  obtain cek_wrap pub where "bindR (buildTransferInputMap (atInputs out)) (transfer_main toyLibs) = Inr pub"
    "tpMemoLeaf pub = mCommitment (atMemo out)"
    using assembled_transfer_provable [OF toyLibs_bjj_laws toyLibs_fr_laws _ _ toyAuths_even _ _ _ _ a [unfolded r(1)]] r(2-4) ev
    by (force simp: toyAssembly_def soloWitness_laws toyTransfer_def toySpendable_ok isFr_small)
  then show ?thesis using a r(1) by auto
qed

text \<open>a join does not depend on the order in which the two notes are given, and what it builds has the inputs in
  ascending order, opened against one root, with the output carrying their asset, the sum of their values and parents
  that unpack to the two indices.  Joining a note with itself is refused in both orders.\<close>

theorem join_ordered_and_conserving:
  assumes L: "fr_laws L"
  shows "assembleJoin L reg auths ctx inputA inputB sk h = assembleJoin L reg auths ctx inputB inputA sk h
    \<and> (\<forall>out auths'. assembleJoin L reg auths ctx inputA inputB sk h = (Inr out, auths') \<longrightarrow>
        ajIndexA out < ajIndexB out
      \<and> noteValue (mNote (ajOut out)) = noteValue (spNote inputA) + noteValue (spNote inputB)
      \<and> assetId (mNote (ajOut out)) = assetId (spNote inputA) \<and> assetId (mNote (ajOut out)) = assetId (spNote inputB)
      \<and> unpackParents (noteParents (mNote (ajOut out))) = Inr (ajIndexA out, ajIndexB out)
      \<and> (\<exists>a b. openSpend ctx a = Inr \<lparr>osIndex = ajIndexA out, osPath = ajPathA out, osRoot = ajRoot out\<rparr>
           \<and> openSpend ctx b = Inr \<lparr>osIndex = ajIndexB out, osPath = ajPathB out, osRoot = ajRoot out\<rparr> \<and> {a, b} = {inputA, inputB}))"
proof (intro conjI allI impI)
  have "prepareJoin L ctx inputA inputB sk = prepareJoin L ctx inputB inputA sk" by (auto simp: prepareJoin_def)
  then show "assembleJoin L reg auths ctx inputA inputB sk h = assembleJoin L reg auths ctx inputB inputA sk h"
    by (simp add: assembleJoin_def)
  fix out auths'
  assume j: "assembleJoin L reg auths ctx inputA inputB sk h = (Inr out, auths')"
  obtain lo hi a b where f: "spLeafIndex lo < spLeafIndex hi" "(lo, hi) = (inputA, inputB) \<or> (lo, hi) = (inputB, inputA)"
    "assetId (spNote lo) = assetId (spNote hi)" "openSpend ctx lo = Inr a" "openSpend ctx hi = Inr b" "osRoot a = osRoot b"
    and g: "noteValue (mNote (ajOut out)) = noteValue (spNote lo) + noteValue (spNote hi)"
    "assetId (mNote (ajOut out)) = assetId (spNote lo)" "unpackParents (noteParents (mNote (ajOut out))) = Inr (osIndex a, osIndex b)"
    "ajIndexA out = osIndex a" "ajIndexB out = osIndex b" "ajPathA out = osPath a" "ajPathB out = osPath b" "ajRoot out = osRoot a"
    by (rule assembleJoin_Inr [OF L j])
  have i: "osIndex a = spLeafIndex lo" "osIndex b = spLeafIndex hi"
    using f(4,5) by (auto simp: openSpend_def split: if_splits)
  show "ajIndexA out < ajIndexB out" using f(1) i g(4,5) by simp
  show "noteValue (mNote (ajOut out)) = noteValue (spNote inputA) + noteValue (spNote inputB)" using g(1) f(2) by auto
  show "assetId (mNote (ajOut out)) = assetId (spNote inputA)" "assetId (mNote (ajOut out)) = assetId (spNote inputB)"
    using g(2) f(2,3) by auto
  show "unpackParents (noteParents (mNote (ajOut out))) = Inr (ajIndexA out, ajIndexB out)" using g(3-5) by simp
  show "\<exists>a b. openSpend ctx a = Inr \<lparr>osIndex = ajIndexA out, osPath = ajPathA out, osRoot = ajRoot out\<rparr>
      \<and> openSpend ctx b = Inr \<lparr>osIndex = ajIndexB out, osPath = ajPathB out, osRoot = ajRoot out\<rparr> \<and> {a, b} = {inputA, inputB}"
    using f(2,4-6) g(4-8) by (intro exI [of _ lo] exI [of _ hi]) auto
qed

lemma toyJoin_ok:
  "map_sum id (\<lambda>o1. (ajIndexA o1, ajIndexB o1)) (fst (assembleJoin toyLibs {0} toyAuths
     (toyAssembly\<lparr>axWitnessFor := (\<lambda>l. Inr \<lparr>mwLeafIndex = nat l, mwSiblings = [], mwRoot = 9\<rparr>)\<rparr>)
     (toySpendable\<lparr>spLeaf := 6, spLeafIndex := 6\<rparr>) (toySpendable\<lparr>spLeaf := 2, spLeafIndex := 2\<rparr>) 2 0)) = Inr (2, 6)"
  by code_simp

theorem join_ordered_and_conserving_witness:
  "\<exists>out auths. assembleJoin toyLibs {0} toyAuths (toyAssembly\<lparr>axWitnessFor := (\<lambda>l. Inr \<lparr>mwLeafIndex = nat l, mwSiblings = [], mwRoot = 9\<rparr>)\<rparr>)
     (toySpendable\<lparr>spLeaf := 6, spLeafIndex := 6\<rparr>) (toySpendable\<lparr>spLeaf := 2, spLeafIndex := 2\<rparr>) 2 0 = (Inr out, auths)
    \<and> noteValue (mNote (ajOut out)) = 100"
proof -
  let ?A = "toySpendable\<lparr>spLeaf := 6, spLeafIndex := 6\<rparr>" and ?B = "toySpendable\<lparr>spLeaf := 2, spLeafIndex := 2\<rparr>"
  let ?c = "toyAssembly\<lparr>axWitnessFor := (\<lambda>l. Inr \<lparr>mwLeafIndex = nat l, mwSiblings = [], mwRoot = 9\<rparr>)\<rparr>"
  obtain r auths' where a: "assembleJoin toyLibs {0} toyAuths ?c ?A ?B 2 0 = (r, auths')"
    by (cases "assembleJoin toyLibs {0} toyAuths ?c ?A ?B 2 0")
  obtain out where r: "r = Inr out" using toyJoin_ok a by (cases r) auto
  have "noteValue (mNote (ajOut out)) = noteValue (spNote ?A) + noteValue (spNote ?B)"
    using join_ordered_and_conserving [OF toyLibs_fr_laws, of "{0}" toyAuths ?c ?A ?B 2 0] a r by blast
  then show ?thesis using a r by (simp add: toySpendable_def toyMint_def)
qed

end
