(* ===== verification/ChainTrace.thy ===== *)
theory ChainTrace
  imports NoteModel "HOL-Library.Product_Lexorder"
begin

text \<open>
  \<open>threshold/chainTrace.ts\<close>: the committee's walk over the spend graph, forward along the outputs of a spend and
  backward along the parents a note commits to.  The chain and the decryption hook are caller-supplied and not
  trusted; \<open>decrypt\<close> may reject.  The walk is a loop over a work list, so a trace is \<open>None\<close> when it does not
  return.  The locale \<open>tracer\<close> is what the walk needs of a step (it stays inside the tree); inside it the walk
  returns and visits exactly the reachable leaves.  It is interpreted on both steps of the source.
\<close>

section \<open>Data\<close>

record leafData =
  ldEphPub :: point
  ldCiphertext :: "int list"
  ldLeaf :: int

record chainState =
  getLeaf :: "int \<Rightarrow> leafData option"
  nextLeafIndex :: int
  isNullifierSpent :: "int \<Rightarrow> bool"
  childrenOfSpend :: "int \<Rightarrow> int list"

type_synonym decryptNote = "point \<Rightarrow> int list \<Rightarrow> (int list \<times> int) result"

record spendGraph =
  sgNodes :: "int list"
  sgEdges :: "(int \<times> int) list"
  sgTruncated :: "int list"

record expansion =
  exNeighbor :: int
  exEdge :: "int \<times> int"

record stepResult =
  srExpansions :: "expansion list"
  srTruncated :: bool

section \<open>Opening a leaf\<close>

definition PARENTS_FIELD_INDEX :: nat where
  "PARENTS_FIELD_INDEX = DEM_FIELDS - 1"

definition openLeaf :: "libs \<Rightarrow> leafData \<Rightarrow> decryptNote \<Rightarrow> (int list \<times> int) option result" where
  "openLeaf L data decrypt =
     bindR (decrypt (ldEphPub data) (ldCiphertext data)) (\<lambda>(fieldList, cek).
     if length fieldList < DEM_FIELDS then Inr None
     else if 2 ^ 128 \<le> fieldList ! 4 then Inr None
     else bindR (computePsi L cek) (\<lambda>psi.
       bindR (leaf L \<lparr>noteVersion = fieldList ! 0, assetId = fieldList ! 1, noteType = fieldList ! 2, conditionsHash = fieldList ! 3,
         noteValue = fieldList ! 4, noteOwner = fieldList ! 5, notePsi = psi, noteParents = fieldList ! PARENTS_FIELD_INDEX\<rparr>) (\<lambda>rebuilt.
       Inr (if rebuilt = ldLeaf data then Some (fieldList, psi) else None))))"

section \<open>The graph builder\<close>

text \<open>The three sets of \<open>GraphBuilder\<close>, in insertion order; an edge key is the pair it prints.\<close>

definition addNode :: "spendGraph \<Rightarrow> int \<Rightarrow> spendGraph" where
  "addNode g i = (if i \<in> set (sgNodes g) then g else g\<lparr>sgNodes := sgNodes g @ [i]\<rparr>)"

definition addTruncated :: "spendGraph \<Rightarrow> int \<Rightarrow> spendGraph" where
  "addTruncated g i = (if i \<in> set (sgTruncated g) then g else g\<lparr>sgTruncated := sgTruncated g @ [i]\<rparr>)"

definition addEdge :: "spendGraph \<Rightarrow> int \<Rightarrow> int \<Rightarrow> spendGraph" where
  "addEdge g parent child =
     (if (parent, child) \<in> set (sgEdges g) then g else g\<lparr>sgEdges := sgEdges g @ [(parent, child)]\<rparr>)"

definition buildGraph :: "spendGraph \<Rightarrow> spendGraph" where
  "buildGraph g = \<lparr>sgNodes = sort (sgNodes g), sgEdges = sort (sgEdges g), sgTruncated = sort (sgTruncated g)\<rparr>"

section \<open>The walk\<close>

definition assertInRange :: "int \<Rightarrow> chainState \<Rightarrow> unit result" where
  "assertInRange index chain =
     guardR (\<not> (index < 0 \<or> nextLeafIndex chain \<le> index)) (Error ''chainTrace: leaf index out of range'')"

text \<open>The work list is a stack, written here with its top first.\<close>

definition pushExpansions :: "int set \<Rightarrow> expansion list \<Rightarrow> spendGraph \<times> int list \<Rightarrow> spendGraph \<times> int list" where
  "pushExpansions visited exps = fold (\<lambda>e (g, w).
     (addEdge g (fst (exEdge e)) (snd (exEdge e)), if exNeighbor e \<in> visited then w else exNeighbor e # w)) exps"

definition visitLeaf :: "spendGraph \<Rightarrow> int set \<Rightarrow> int \<Rightarrow> int list \<Rightarrow> stepResult \<Rightarrow> spendGraph \<times> int list" where
  "visitLeaf g visited index rest s =
     (let g1 = addNode g index; g2 = (if srTruncated s then addTruncated g1 index else g1) in
      pushExpansions (insert index visited) (srExpansions s) (g2, rest))"

text \<open>The loop on its variables \<open>(graph, visited)\<close> and \<open>worklist\<close>.\<close>

partial_function (option) traverseLoop ::
    "(int \<Rightarrow> stepResult result) \<Rightarrow> spendGraph \<times> int set \<Rightarrow> int list \<Rightarrow> spendGraph result option" where
  "traverseLoop step gv worklist =
     (case worklist of [] \<Rightarrow> Some (Inr (fst gv))
      | index # rest \<Rightarrow>
        if index \<in> snd gv then traverseLoop step gv rest
        else case step index of Inl e \<Rightarrow> Some (Inl e)
          | Inr s \<Rightarrow> traverseLoop step (fst (visitLeaf (fst gv) (snd gv) index rest s), insert index (snd gv))
              (snd (visitLeaf (fst gv) (snd gv) index rest s)))"

declare traverseLoop.simps [code]

definition emptyGraph :: spendGraph where
  "emptyGraph = \<lparr>sgNodes = [], sgEdges = [], sgTruncated = []\<rparr>"

definition traverse :: "int \<Rightarrow> chainState \<Rightarrow> (int \<Rightarrow> stepResult result) \<Rightarrow> spendGraph result option" where
  "traverse start chain step =
     (case assertInRange start chain of Inl e \<Rightarrow> Some (Inl e)
      | Inr _ \<Rightarrow> map_option (\<lambda>r. bindR r (\<lambda>g. Inr (buildGraph g))) (traverseLoop step (emptyGraph, {}) [start]))"

section \<open>Steps\<close>

definition consumedLeaves :: "int \<Rightarrow> chainState \<Rightarrow> int list option result" where
  "consumedLeaves packed chain =
     (if 2 ^ 64 \<le> packed then Inr None
      else bindR (unpackParents packed) (\<lambda>(p0, p1).
        let indexes = (if p1 = 0 then [p0] else [p0, p1]) in
        Inr (if list_all (\<lambda>i. 0 \<le> i \<and> i < nextLeafIndex chain) indexes then Some indexes else None)))"

abbreviation noExpansions :: "bool \<Rightarrow> stepResult" where
  "noExpansions t \<equiv> \<lparr>srExpansions = [], srTruncated = t\<rparr>"

definition forwardStep :: "libs \<Rightarrow> chainState \<Rightarrow> decryptNote \<Rightarrow> int \<Rightarrow> stepResult result" where
  "forwardStep L chain decrypt index =
     (case getLeaf chain index of None \<Rightarrow> Inr (noExpansions True)
      | Some data \<Rightarrow> bindR (openLeaf L data decrypt) (\<lambda>opened.
        case opened of None \<Rightarrow> Inr (noExpansions True)
        | Some (fieldList, psi) \<Rightarrow>
          bindR (newFr L index) (\<lambda>i.
          bindR (computeNullifier L psi i) (\<lambda>nf.
          if \<not> isNullifierSpent chain nf then Inr (noExpansions False)
          else let children = childrenOfSpend chain nf in
            if list_ex (\<lambda>c. c < 0 \<or> nextLeafIndex chain \<le> c) children then Inr (noExpansions True)
            else Inr \<lparr>srExpansions = map (\<lambda>child. \<lparr>exNeighbor = child, exEdge = (index, child)\<rparr>) children,
                      srTruncated = (children = [])\<rparr>))))"

definition forwardTrace :: "libs \<Rightarrow> int \<Rightarrow> chainState \<Rightarrow> decryptNote \<Rightarrow> spendGraph result option" where
  "forwardTrace L startLeafIndex chain decrypt = traverse startLeafIndex chain (forwardStep L chain decrypt)"

text \<open>One parent of the sibling: it must open, and its spend must list the memo among its outputs.\<close>

definition parentSpendsTo :: "libs \<Rightarrow> chainState \<Rightarrow> decryptNote \<Rightarrow> int \<Rightarrow> int \<Rightarrow> bool result" where
  "parentSpendsTo L chain decrypt memoIndex parent =
     (case getLeaf chain parent of None \<Rightarrow> Inr False
      | Some parentLeaf \<Rightarrow> bindR (openLeaf L parentLeaf decrypt) (\<lambda>opened.
        case opened of None \<Rightarrow> Inr False
        | Some (fieldList, psi) \<Rightarrow>
          bindR (newFr L parent) (\<lambda>i.
          bindR (computeNullifier L psi i) (\<lambda>nf. Inr (memoIndex \<in> set (childrenOfSpend chain nf))))))"

fun parentsSpendTo :: "libs \<Rightarrow> chainState \<Rightarrow> decryptNote \<Rightarrow> int \<Rightarrow> int list \<Rightarrow> bool result" where
  "parentsSpendTo L chain decrypt memoIndex [] = Inr True"
| "parentsSpendTo L chain decrypt memoIndex (parent # parents) =
     bindR (parentSpendsTo L chain decrypt memoIndex parent) (\<lambda>ok.
     if ok then parentsSpendTo L chain decrypt memoIndex parents else Inr False)"

definition bridgeHiddenParents :: "libs \<Rightarrow> int \<Rightarrow> chainState \<Rightarrow> decryptNote \<Rightarrow> int option result" where
  "bridgeHiddenParents L memoIndex chain decrypt =
     (case getLeaf chain (memoIndex + 1) of None \<Rightarrow> Inr None
      | Some sibling \<Rightarrow> bindR (openLeaf L sibling decrypt) (\<lambda>opened.
        case opened of None \<Rightarrow> Inr None
        | Some (fieldList, psi) \<Rightarrow>
          let packed = fieldList ! PARENTS_FIELD_INDEX in
          if packed = 0 \<or> packed = PARENTS_HIDDEN then Inr None
          else bindR (consumedLeaves packed chain) (\<lambda>parents.
            case parents of None \<Rightarrow> Inr None
            | Some ps \<Rightarrow> bindR (parentsSpendTo L chain decrypt memoIndex ps) (\<lambda>ok. Inr (if ok then Some packed else None)))))"

definition expandParents :: "chainState \<Rightarrow> int \<Rightarrow> int \<Rightarrow> stepResult result" where
  "expandParents chain index packed =
     bindR (consumedLeaves packed chain) (\<lambda>parents.
     case parents of None \<Rightarrow> Inr (noExpansions True)
     | Some ps \<Rightarrow> Inr \<lparr>srExpansions = map (\<lambda>parent. \<lparr>exNeighbor = parent, exEdge = (parent, index)\<rparr>) ps, srTruncated = False\<rparr>)"

definition backwardStep :: "libs \<Rightarrow> chainState \<Rightarrow> decryptNote \<Rightarrow> int \<Rightarrow> stepResult result" where
  "backwardStep L chain decrypt index =
     (case getLeaf chain index of None \<Rightarrow> Inr (noExpansions True)
      | Some data \<Rightarrow> bindR (openLeaf L data decrypt) (\<lambda>opened.
        case opened of None \<Rightarrow> Inr (noExpansions True)
        | Some (fieldList, psi) \<Rightarrow>
          let packed = fieldList ! PARENTS_FIELD_INDEX in
          if packed = 0 then Inr (noExpansions False)
          else if packed = PARENTS_HIDDEN then
            bindR (bridgeHiddenParents L index chain decrypt) (\<lambda>bridged.
            case bridged of None \<Rightarrow> Inr (noExpansions True) | Some p \<Rightarrow> expandParents chain index p)
          else expandParents chain index packed))"

definition backwardTrace :: "libs \<Rightarrow> int \<Rightarrow> chainState \<Rightarrow> decryptNote \<Rightarrow> spendGraph result option" where
  "backwardTrace L startLeafIndex chain decrypt = traverse startLeafIndex chain (backwardStep L chain decrypt)"

section \<open>The interface of a step and the walk over it\<close>

text \<open>The edges a step gives and the leaves it leads to.\<close>

definition stepEdges :: "(int \<Rightarrow> stepResult result) \<Rightarrow> int \<Rightarrow> (int \<times> int) set" where
  "stepEdges step i = (case step i of Inl e \<Rightarrow> {} | Inr s \<Rightarrow> exEdge ` set (srExpansions s))"

definition leadsTo :: "(int \<Rightarrow> stepResult result) \<Rightarrow> (int \<times> int) set" where
  "leadsTo step = {(i, j). \<exists>s e. step i = Inr s \<and> e \<in> set (srExpansions s) \<and> j = exNeighbor e}"

definition cutOff :: "(int \<Rightarrow> stepResult result) \<Rightarrow> int \<Rightarrow> bool" where
  "cutOff step i \<longleftrightarrow> (\<exists>s. step i = Inr s \<and> srTruncated s)"

text \<open>What the loop maintains: the graph describes the visited leaves, every leaf a visited one leads to is visited or
  waiting, and everything seen is reachable.\<close>

definition loopInv :: "(int \<Rightarrow> stepResult result) \<Rightarrow> int \<Rightarrow> spendGraph \<Rightarrow> int set \<Rightarrow> int list \<Rightarrow> bool" where
  "loopInv step start g visited worklist \<longleftrightarrow>
     set (sgNodes g) = visited \<and> distinct (sgNodes g)
     \<and> set (sgEdges g) = (\<Union>i\<in>visited. stepEdges step i) \<and> distinct (sgEdges g)
     \<and> set (sgTruncated g) = {i \<in> visited. cutOff step i} \<and> distinct (sgTruncated g)
     \<and> (\<forall>i\<in>visited. isOk (step i) \<and> leadsTo step `` {i} \<subseteq> visited \<union> set worklist)
     \<and> visited \<union> set worklist \<subseteq> (leadsTo step)\<^sup>* `` {start} \<and> start \<in> visited \<union> set worklist"

lemma pushExpansions_fst:
  "sgNodes (fst (pushExpansions V es (g, w))) = sgNodes g \<and> sgTruncated (fst (pushExpansions V es (g, w))) = sgTruncated g
   \<and> set (sgEdges (fst (pushExpansions V es (g, w)))) = set (sgEdges g) \<union> exEdge ` set es
   \<and> (distinct (sgEdges g) \<longrightarrow> distinct (sgEdges (fst (pushExpansions V es (g, w)))))"
proof (induction es arbitrary: g w)
  case (Cons e es)
  show ?case
    using Cons [of "addEdge g (fst (exEdge e)) (snd (exEdge e))" "if exNeighbor e \<in> V then w else exNeighbor e # w"]
    by (auto simp: pushExpansions_def addEdge_def)
qed (simp add: pushExpansions_def)

lemma pushExpansions_snd: "set (snd (pushExpansions V es (g, w))) = set w \<union> (exNeighbor ` set es - V)"
proof (induction es arbitrary: g w)
  case (Cons e es)
  show ?case
    using Cons [of "addEdge g (fst (exEdge e)) (snd (exEdge e))" "if exNeighbor e \<in> V then w else exNeighbor e # w"]
    by (auto simp: pushExpansions_def)
qed (simp add: pushExpansions_def)

lemmas pushExpansions_facts = pushExpansions_fst [THEN conjunct1] pushExpansions_fst [THEN conjunct2, THEN conjunct1]
  pushExpansions_fst [THEN conjunct2, THEN conjunct2, THEN conjunct1]
  pushExpansions_fst [THEN conjunct2, THEN conjunct2, THEN conjunct2, rule_format] pushExpansions_snd

lemma loopInv_skip: "loopInv step start g V (i # w) \<Longrightarrow> i \<in> V \<Longrightarrow> loopInv step start g V w"
  unfolding loopInv_def by (simp add: insert_absorb)

lemma loopInv_visit:
  assumes inv: "loopInv step start g V (i # w)" and i: "i \<notin> V" and s: "step i = Inr s"
  defines "r \<equiv> visitLeaf g V i w s"
  shows "loopInv step start (fst r) (insert i V) (snd r)"
proof -
  have I: "set (sgNodes g) = V" "distinct (sgNodes g)" "set (sgEdges g) = (\<Union>i\<in>V. stepEdges step i)" "distinct (sgEdges g)"
    "set (sgTruncated g) = {i \<in> V. cutOff step i}" "distinct (sgTruncated g)"
    "\<And>j. j \<in> V \<Longrightarrow> isOk (step j) \<and> leadsTo step `` {j} \<subseteq> V \<union> insert i (set w)"
    "V \<union> insert i (set w) \<subseteq> (leadsTo step)\<^sup>* `` {start}" "start \<in> V \<union> insert i (set w)"
    using inv unfolding loopInv_def by auto
  have nb: "leadsTo step `` {i} = exNeighbor ` set (srExpansions s)" using s by (auto simp: leadsTo_def)
  have reach: "exNeighbor ` set (srExpansions s) \<subseteq> (leadsTo step)\<^sup>* `` {start}"
    using I(8) nb by (auto intro: rtrancl_into_rtrancl)
  have r: "set (sgNodes (fst r)) = insert i V" "distinct (sgNodes (fst r))"
    "set (sgEdges (fst r)) = set (sgEdges g) \<union> exEdge ` set (srExpansions s)" "distinct (sgEdges (fst r))"
    "set (sgTruncated (fst r)) = (if srTruncated s then insert i (set (sgTruncated g)) else set (sgTruncated g))"
    "distinct (sgTruncated (fst r))" "set (snd r) = set w \<union> (exNeighbor ` set (srExpansions s) - insert i V)"
    unfolding r_def visitLeaf_def Let_def using I i by (auto simp: pushExpansions_facts addNode_def addTruncated_def)
  have edges: "stepEdges step i = exEdge ` set (srExpansions s)" using s by (simp add: stepEdges_def)
  have cut: "cutOff step i \<longleftrightarrow> srTruncated s" using s by (simp add: cutOff_def)
  have E: "set (sgEdges (fst r)) = (\<Union>j\<in>insert i V. stepEdges step j)" unfolding r(3) I(3) UN_insert edges by (rule Un_commute)
  have T: "set (sgTruncated (fst r)) = {j \<in> insert i V. cutOff step j}" unfolding r(5) I(5) using cut by auto
  have W: "insert i V \<union> set (snd r) = insert i V \<union> set w \<union> exNeighbor ` set (srExpansions s)" unfolding r(7) by blast
  have C: "isOk (step j) \<and> leadsTo step `` {j} \<subseteq> insert i V \<union> set (snd r)" if "j \<in> insert i V" for j
  proof (cases "j = i")
    case True
    then show ?thesis unfolding W nb [folded True] using s by (simp add: nb [folded True]) blast
  next
    case False
    then show ?thesis unfolding W using I(7) [of j] that by blast
  qed
  have D: "insert i V \<union> set (snd r) \<subseteq> (leadsTo step)\<^sup>* `` {start}" "start \<in> insert i V \<union> set (snd r)"
    unfolding W using I(8,9) reach by blast+
  show ?thesis
    unfolding loopInv_def by (intro conjI ballI r(1,2,4,6) E T D C [THEN conjunct1] C [THEN conjunct2])
qed

text \<open>The walk as a contract: a step that returns stays inside the tree of \<open>n\<close> leaves.\<close>

locale tracer =
  fixes step :: "int \<Rightarrow> stepResult result" and n :: int
  assumes step_in_range: "step i = Inr s \<Longrightarrow> e \<in> set (srExpansions s) \<Longrightarrow> 0 \<le> exNeighbor e \<and> exNeighbor e < n"
begin

lemma loop_returns:
  "loopInv step start g V w \<Longrightarrow> V \<union> set w \<subseteq> {0..<n} \<Longrightarrow>
    (\<exists>g'. traverseLoop step (g, V) w = Some (Inr g') \<and> loopInv step start g' (set (sgNodes g')) [])
    \<or> (\<exists>i e. traverseLoop step (g, V) w = Some (Inl e) \<and> (start, i) \<in> (leadsTo step)\<^sup>* \<and> step i = Inl e)"
proof (induction "card ({0..<n} - V)" arbitrary: V g w rule: less_induct)
  case less
  note outer = less.hyps
  from less.prems show ?case
  proof (induction w)
    case Nil
    then have "V = set (sgNodes g)" by (simp add: loopInv_def)
    then show ?case using Nil by (simp add: traverseLoop.simps)
  next
    case (Cons i w)
    show ?case
    proof (cases "i \<in> V")
      case True
      then show ?thesis
        using Cons.IH [OF loopInv_skip [OF Cons.prems(1) True]] Cons.prems(2) by (simp add: traverseLoop.simps)
    next
      case False
      show ?thesis
      proof (cases "step i")
        case (Inl e)
        moreover have "(start, i) \<in> (leadsTo step)\<^sup>*" using Cons.prems(1) by (auto simp: loopInv_def)
        ultimately show ?thesis using False by (auto simp: traverseLoop.simps [of step _ "i # w"])
      next
        case (Inr s)
        define r where "r = visitLeaf g V i w s"
        have inv: "loopInv step start (fst r) (insert i V) (snd r)"
          unfolding r_def by (rule loopInv_visit [OF Cons.prems(1) False Inr])
        have "{0..<n} - insert i V \<subset> {0..<n} - V" using Cons.prems(2) False by auto
        then have "card ({0..<n} - insert i V) < card ({0..<n} - V)" by (rule psubset_card_mono [rotated]) simp
        moreover have "insert i V \<union> set (snd r) \<subseteq> {0..<n}"
          unfolding r_def visitLeaf_def Let_def pushExpansions_snd using Cons.prems(2) step_in_range [OF Inr] by auto
        moreover have "traverseLoop step (g, V) (i # w) = traverseLoop step (fst r, insert i V) (snd r)"
          using False Inr by (subst traverseLoop.simps) (simp add: r_def)
        ultimately show ?thesis using outer [OF _ inv] by simp
      qed
    qed
  qed
qed

lemma loopInv_start: "loopInv step start emptyGraph {} [start]"
  by (auto simp: loopInv_def emptyGraph_def)

lemma walk_exact:
  assumes "nextLeafIndex chain = n"
  shows "(\<exists>g. traverse start chain step = Some (Inr g) \<and> 0 \<le> start \<and> start < n
      \<and> set (sgNodes g) = (leadsTo step)\<^sup>* `` {start} \<and> set (sgEdges g) = (\<Union>i\<in>set (sgNodes g). stepEdges step i)
      \<and> set (sgTruncated g) = {i \<in> set (sgNodes g). cutOff step i}
      \<and> sorted_wrt (<) (sgNodes g) \<and> sorted_wrt (<) (sgEdges g) \<and> sorted_wrt (<) (sgTruncated g))
    \<or> (\<exists>e. traverse start chain step = Some (Inl e)
        \<and> (start < 0 \<or> n \<le> start \<or> (\<exists>i. (start, i) \<in> (leadsTo step)\<^sup>* \<and> step i = Inl e)))"
proof (cases "start < 0 \<or> n \<le> start")
  case True
  then show ?thesis using assms by (auto simp: traverse_def assertInRange_def guardR_def)
next
  case False
  from loop_returns [OF loopInv_start, of start] False
  consider (ok) g where "traverseLoop step (emptyGraph, {}) [start] = Some (Inr g)" "loopInv step start g (set (sgNodes g)) []"
    | (err) i e where "traverseLoop step (emptyGraph, {}) [start] = Some (Inl e)" "(start, i) \<in> (leadsTo step)\<^sup>*" "step i = Inl e"
    by auto
  then show ?thesis
  proof cases
    case ok
    have I: "leadsTo step `` set (sgNodes g) \<subseteq> set (sgNodes g)" "set (sgNodes g) \<subseteq> (leadsTo step)\<^sup>* `` {start}"
      "start \<in> set (sgNodes g)" using ok(2) by (auto simp: loopInv_def)
    have "(leadsTo step)\<^sup>* `` {start} = set (sgNodes g)"
      using I Image_closed_trancl [OF I(1)] by auto
    then show ?thesis
      using ok False assms
      by (auto simp: traverse_def assertInRange_def guardR_def buildGraph_def loopInv_def strict_sorted_iff)
  next
    case err
    then show ?thesis using False assms by (auto simp: traverse_def assertInRange_def guardR_def)
  qed
qed

lemma walk_returns:
  assumes "nextLeafIndex chain = n"
  shows "\<exists>r. traverse start chain step = Some r"
  by (rule disjE [OF walk_exact [OF assms, of start]]) (elim exE conjE, rule exI, assumption)+

lemma walk_edges:
  assumes "nextLeafIndex chain = n" "traverse start chain step = Some (Inr g)"
  shows "set (sgEdges g) = (\<Union>i\<in>set (sgNodes g). stepEdges step i)"
  by (rule disjE [OF walk_exact [OF assms(1), of start]]; elim exE conjE) (use assms(2) in simp_all)

end

section \<open>The two steps of the source\<close>

text \<open>What a leaf that opens and is spent expands to.\<close>

lemma forwardStep_edge:
  assumes "forwardStep L chain decrypt i = Inr s" "srExpansions s \<noteq> []"
  obtains data fieldList psi j nf where "getLeaf chain i = Some data" "openLeaf L data decrypt = Inr (Some (fieldList, psi))"
    "newFr L i = Inr j" "computeNullifier L psi j = Inr nf" "isNullifierSpent chain nf"
    "list_all (\<lambda>c. 0 \<le> c \<and> c < nextLeafIndex chain) (childrenOfSpend chain nf)"
    "srExpansions s = map (\<lambda>child. \<lparr>exNeighbor = child, exEdge = (i, child)\<rparr>) (childrenOfSpend chain nf)"
proof (cases "getLeaf chain i")
  case (Some data)
  show thesis
  proof (cases "openLeaf L data decrypt")
    case (Inr o')
    show thesis
    proof (cases o')
      case (Some q)
      obtain fl psi where q: "q = (fl, psi)" by (cases q)
      obtain j where j: "newFr L i = Inr j"
        using assms(1) \<open>getLeaf chain i = Some data\<close> Inr Some q by (cases "newFr L i") (auto simp: forwardStep_def)
      obtain nf where nf: "computeNullifier L psi j = Inr nf"
        using assms(1) \<open>getLeaf chain i = Some data\<close> Inr Some q j by (cases "computeNullifier L psi j") (auto simp: forwardStep_def)
      show thesis
        using assms that [OF \<open>getLeaf chain i = Some data\<close> _ j nf] \<open>getLeaf chain i = Some data\<close> Inr Some q j nf
        by (auto simp: forwardStep_def Let_def list_ex_iff list_all_iff not_le not_less split: if_splits)
    qed (use assms Some Inr in \<open>auto simp: forwardStep_def\<close>)
  qed (use assms Some in \<open>auto simp: forwardStep_def\<close>)
qed (use assms in \<open>auto simp: forwardStep_def\<close>)

lemma forwardStep_in_range:
  assumes "forwardStep L chain decrypt i = Inr s" "e \<in> set (srExpansions s)"
  shows "0 \<le> exNeighbor e \<and> exNeighbor e < nextLeafIndex chain"
proof -
  have ne: "srExpansions s \<noteq> []" using assms(2) by auto
  show ?thesis
  proof (rule forwardStep_edge [OF assms(1) ne], goal_cases)
    case (1 data fl psi j nf)
    then obtain c where "c \<in> set (childrenOfSpend chain nf)" "exNeighbor e = c" using assms(2) by auto
    then show ?case using 1(6) by (simp add: list_all_iff)
  qed
qed

lemma consumedLeaves_Some:
  assumes "consumedLeaves packed chain = Inr (Some ps)" "p \<in> set ps"
  shows "packed < 2 ^ 64 \<and> (p = packed mod 2 ^ 32 \<or> (p = packed div 2 ^ 32 mod 2 ^ 32 \<and> p \<noteq> 0)) \<and> 0 \<le> p \<and> p < nextLeafIndex chain"
proof -
  define p0 p1 where "p0 = packed mod 2 ^ 32" and "p1 = packed div 2 ^ 32 mod 2 ^ 32"
  have lt: "\<not> 2 ^ 64 \<le> packed" using assms(1) by (cases "2 ^ 64 \<le> packed") (simp_all add: consumedLeaves_def)
  then have "unpackParents packed = Inr (p0, p1)" by (simp only: unpackParents_def p0_def p1_def if_False)
  then have "(if list_all (\<lambda>i. 0 \<le> i \<and> i < nextLeafIndex chain) (if p1 = 0 then [p0] else [p0, p1])
      then Some (if p1 = 0 then [p0] else [p0, p1]) else None) = Some ps"
    using assms(1) lt by (simp only: consumedLeaves_def if_False bindR.simps Let_def split_conv sum.inject)
  then have "ps = (if p1 = 0 then [p0] else [p0, p1])" "list_all (\<lambda>i. 0 \<le> i \<and> i < nextLeafIndex chain) ps"
    by (auto split: if_splits)
  then have "p = p0 \<or> p = p1 \<and> p \<noteq> 0" "0 \<le> p \<and> p < nextLeafIndex chain"
    using assms(2) by (auto simp: list_all_iff split: if_splits)
  then show ?thesis using lt by (simp only: p0_def p1_def not_le simp_thms)
qed

lemma expandParents_edge:
  assumes "expandParents chain i packed = Inr s" "e \<in> set (srExpansions s)"
  obtains ps where "consumedLeaves packed chain = Inr (Some ps)" "exNeighbor e \<in> set ps" "exEdge e = (exNeighbor e, i)"
proof (cases "consumedLeaves packed chain")
  case (Inr o')
  then show thesis using assms that by (cases o') (auto simp: expandParents_def)
qed (use assms in \<open>simp add: expandParents_def\<close>)

lemma backwardStep_edge:
  assumes "backwardStep L chain decrypt i = Inr s" "e \<in> set (srExpansions s)"
  obtains data fieldList psi packed where "getLeaf chain i = Some data" "openLeaf L data decrypt = Inr (Some (fieldList, psi))"
    "fieldList ! PARENTS_FIELD_INDEX \<noteq> 0 \<and> fieldList ! PARENTS_FIELD_INDEX \<noteq> PARENTS_HIDDEN \<and> packed = fieldList ! PARENTS_FIELD_INDEX
     \<or> fieldList ! PARENTS_FIELD_INDEX = PARENTS_HIDDEN \<and> bridgeHiddenParents L i chain decrypt = Inr (Some packed)"
    "expandParents chain i packed = Inr s"
proof (cases "getLeaf chain i")
  case (Some data)
  show thesis
  proof (cases "openLeaf L data decrypt")
    case (Inr o')
    show thesis
    proof (cases o')
      case (Some q)
      obtain fl psi where q: "q = (fl, psi)" by (cases q)
      let ?p = "fl ! PARENTS_FIELD_INDEX"
      consider "?p = 0" | "?p \<noteq> 0" "?p = PARENTS_HIDDEN" | "?p \<noteq> 0" "?p \<noteq> PARENTS_HIDDEN" by blast
      then show thesis
      proof cases
        case 1
        then show thesis using assms \<open>getLeaf chain i = Some data\<close> Inr Some q by (auto simp: backwardStep_def)
      next
        case 2
        have b: "bindR (bridgeHiddenParents L i chain decrypt) (\<lambda>bridged.
            case bridged of None \<Rightarrow> Inr (noExpansions True) | Some p \<Rightarrow> expandParents chain i p) = Inr s"
          using assms(1) \<open>getLeaf chain i = Some data\<close> Inr Some q 2(1) unfolding backwardStep_def Let_def by (simp add: 2(2) [symmetric])
        then obtain packed where "bridgeHiddenParents L i chain decrypt = Inr (Some packed)" "expandParents chain i packed = Inr s"
          using assms(2) by (cases "bridgeHiddenParents L i chain decrypt") (auto split: option.splits)
        then show thesis using that \<open>getLeaf chain i = Some data\<close> Inr Some q 2 by blast
      next
        case 3
        then have "expandParents chain i ?p = Inr s"
          using assms(1) \<open>getLeaf chain i = Some data\<close> Inr Some q by (simp add: backwardStep_def)
        then show thesis using that \<open>getLeaf chain i = Some data\<close> Inr Some q 3 by blast
      qed
    qed (use assms Some Inr in \<open>auto simp: backwardStep_def\<close>)
  qed (use assms Some in \<open>auto simp: backwardStep_def\<close>)
qed (use assms in \<open>auto simp: backwardStep_def\<close>)

lemma backwardStep_in_range:
  assumes "backwardStep L chain decrypt i = Inr s" "e \<in> set (srExpansions s)"
  shows "0 \<le> exNeighbor e \<and> exNeighbor e < nextLeafIndex chain"
  by (rule backwardStep_edge [OF assms], erule expandParents_edge [OF _ assms(2)]) (blast dest: consumedLeaves_Some)

interpretation fwd: tracer "forwardStep L chain decrypt" "nextLeafIndex chain" for L chain decrypt
  by unfold_locales (rule forwardStep_in_range)

interpretation bwd: tracer "backwardStep L chain decrypt" "nextLeafIndex chain" for L chain decrypt
  by unfold_locales (rule backwardStep_in_range)

section \<open>What the graphs mean\<close>

text \<open>The leaf at an index is the commitment of a note that the hook's answer determines.\<close>

definition opensTo :: "libs \<Rightarrow> chainState \<Rightarrow> decryptNote \<Rightarrow> int \<Rightarrow> Note \<Rightarrow> bool" where
  "opensTo L chain decrypt i n \<longleftrightarrow> (\<exists>data fieldList cek. getLeaf chain i = Some data
     \<and> decrypt (ldEphPub data) (ldCiphertext data) = Inr (fieldList, cek) \<and> DEM_FIELDS \<le> length fieldList
     \<and> computePsi L cek = Inr (notePsi n) \<and> noteFields n = take DEM_FIELDS fieldList \<and> leaf L n = Inr (ldLeaf data))"

text \<open>The outputs of the spend of the note at \<open>p\<close>, and the edge from a spent note to an output of its spend.\<close>

definition outputsOf :: "libs \<Rightarrow> chainState \<Rightarrow> decryptNote \<Rightarrow> int \<Rightarrow> int list \<Rightarrow> bool" where
  "outputsOf L chain decrypt p cs \<longleftrightarrow> (\<exists>n nf. opensTo L chain decrypt p n
     \<and> bindR (newFr L p) (computeNullifier L (notePsi n)) = Inr nf \<and> cs = childrenOfSpend chain nf)"

definition spendEdge :: "libs \<Rightarrow> chainState \<Rightarrow> decryptNote \<Rightarrow> (int \<times> int) set" where
  "spendEdge L chain decrypt = {(p, c). \<exists>n nf. opensTo L chain decrypt p n
     \<and> bindR (newFr L p) (computeNullifier L (notePsi n)) = Inr nf \<and> isNullifierSpent chain nf
     \<and> list_all (\<lambda>c. 0 \<le> c \<and> c < nextLeafIndex chain) (childrenOfSpend chain nf) \<and> c \<in> set (childrenOfSpend chain nf)}"

lemma take7: "7 \<le> length xs \<Longrightarrow> take 7 xs = [xs ! 0, xs ! 1, xs ! 2, xs ! 3, xs ! 4, xs ! 5, xs ! 6]"
  by (rule nth_equalityI) (auto simp: nth_Cons' eval_nat_numeral less_Suc_eq)

lemma openLeaf_opensTo:
  "(\<exists>data. getLeaf chain i = Some data \<and> openLeaf L data decrypt = Inr (Some (fieldList, psi))) \<Longrightarrow>
   \<exists>n. opensTo L chain decrypt i n \<and> notePsi n = psi \<and> noteParents n = fieldList ! PARENTS_FIELD_INDEX"
proof (elim exE conjE)
  fix data
  assume d: "getLeaf chain i = Some data" and o: "openLeaf L data decrypt = Inr (Some (fieldList, psi))"
  let ?n = "\<lparr>noteVersion = fieldList ! 0, assetId = fieldList ! 1, noteType = fieldList ! 2, conditionsHash = fieldList ! 3,
      noteValue = fieldList ! 4, noteOwner = fieldList ! 5, notePsi = psi, noteParents = fieldList ! PARENTS_FIELD_INDEX\<rparr>"
  obtain cek where "decrypt (ldEphPub data) (ldCiphertext data) = Inr (fieldList, cek)" "\<not> length fieldList < DEM_FIELDS"
    "computePsi L cek = Inr psi" "leaf L ?n = Inr (ldLeaf data)"
    using o by (cases "decrypt (ldEphPub data) (ldCiphertext data)") (auto simp: openLeaf_def split: prod.splits if_splits)
  then show ?thesis
    using d by (intro exI [of _ ?n]) (auto simp: opensTo_def noteFields_def PARENTS_FIELD_INDEX_def DEM_FIELDS_def take7)
qed

lemma opensTo_openLeaf:
  assumes "opensTo L chain decrypt i n"
  obtains data fieldList where "getLeaf chain i = Some data" "openLeaf L data decrypt = Inr (Some (fieldList, notePsi n))"
    "fieldList ! PARENTS_FIELD_INDEX = noteParents n"
proof -
  obtain data fl cek where d: "getLeaf chain i = Some data" "decrypt (ldEphPub data) (ldCiphertext data) = Inr (fl, cek)"
    "DEM_FIELDS \<le> length fl" "computePsi L cek = Inr (notePsi n)" "noteFields n = take DEM_FIELDS fl" "leaf L n = Inr (ldLeaf data)"
    using assms unfolding opensTo_def by blast
  have f: "fl ! 0 = noteVersion n" "fl ! 1 = assetId n" "fl ! 2 = noteType n" "fl ! 3 = conditionsHash n" "fl ! 4 = noteValue n"
    "fl ! 5 = noteOwner n" "fl ! PARENTS_FIELD_INDEX = noteParents n"
    using d(3,5) by (simp_all add: noteFields_def DEM_FIELDS_def take7 PARENTS_FIELD_INDEX_def)
  have "noteValue n < 2 ^ 128" using d(6) by (auto simp: leaf_def split: if_splits)
  then have "openLeaf L data decrypt = Inr (Some (fl, notePsi n))"
    using d(2,3,4,6) f(2) unfolding openLeaf_def by (simp add: f) (auto simp: leaf_def split: if_splits)
  then show thesis using that d(1) f(7) by blast
qed

lemma forward_spendEdge:
  "stepEdges (forwardStep L chain decrypt) i = {(i, c) | c. (i, c) \<in> spendEdge L chain decrypt}"
  "leadsTo (forwardStep L chain decrypt) = spendEdge L chain decrypt"
proof -
  have edge: "(i, c) \<in> spendEdge L chain decrypt"
    if s: "forwardStep L chain decrypt i = Inr s" "e \<in> set (srExpansions s)" "c = exNeighbor e \<or> exEdge e = (i, c)" for i s e c
  proof -
    have ne: "srExpansions s \<noteq> []" using s(2) by auto
    show ?thesis
    proof (rule forwardStep_edge [OF s(1) ne], goal_cases)
      case (1 data fl psi j nf)
      obtain n where n: "opensTo L chain decrypt i n" "notePsi n = psi" using openLeaf_opensTo 1(1,2) by blast
      have "c \<in> set (childrenOfSpend chain nf)" using s(2,3) 1(7) by auto
      then show ?case unfolding spendEdge_def using n 1(3-6) by auto
    qed
  qed
  have conv: "\<exists>s. forwardStep L chain decrypt i = Inr s \<and> \<lparr>exNeighbor = c, exEdge = (i, c)\<rparr> \<in> set (srExpansions s)"
    if sp: "(i, c) \<in> spendEdge L chain decrypt" for i c
  proof -
    obtain n nf where n: "opensTo L chain decrypt i n" "bindR (newFr L i) (computeNullifier L (notePsi n)) = Inr nf"
      "isNullifierSpent chain nf" "list_all (\<lambda>c. 0 \<le> c \<and> c < nextLeafIndex chain) (childrenOfSpend chain nf)"
      "c \<in> set (childrenOfSpend chain nf)" using sp unfolding spendEdge_def by blast
    obtain data fl where d: "getLeaf chain i = Some data" "openLeaf L data decrypt = Inr (Some (fl, notePsi n))"
      using opensTo_openLeaf [OF n(1)] by blast
    obtain j where j: "newFr L i = Inr j" "computeNullifier L (notePsi n) j = Inr nf" using n(2) by (cases "newFr L i") auto
    have r: "\<not> list_ex (\<lambda>c. c < 0 \<or> nextLeafIndex chain \<le> c) (childrenOfSpend chain nf)"
      using n(4) by (auto simp: list_ex_iff list_all_iff)
    show ?thesis using n(3,5) d j r by (simp add: forwardStep_def Let_def)
  qed
  show "stepEdges (forwardStep L chain decrypt) i = {(i, c) | c. (i, c) \<in> spendEdge L chain decrypt}"
  proof (intro set_eqI iffI, goal_cases)
    case (1 x)
    then obtain s e where e: "forwardStep L chain decrypt i = Inr s" "e \<in> set (srExpansions s)" "x = exEdge e"
      by (auto simp: stepEdges_def split: sum.splits)
    have ne: "srExpansions s \<noteq> []" using e(2) by auto
    have "\<exists>c. exEdge e = (i, c)" by (rule forwardStep_edge [OF e(1) ne]) (use e(2) in auto)
    then show ?case using edge [OF e(1,2)] e(3) by auto
  next
    case (2 x)
    then obtain c where "x = (i, c)" "(i, c) \<in> spendEdge L chain decrypt" by blast
    then show ?case using conv [of i c] by (force simp: stepEdges_def)
  qed
  show "leadsTo (forwardStep L chain decrypt) = spendEdge L chain decrypt"
    unfolding leadsTo_def using edge conv by force
qed

lemma parentsSpendTo_all:
  "parentsSpendTo L chain decrypt memo ps = Inr True \<Longrightarrow> p \<in> set ps \<Longrightarrow>
    \<exists>cs. outputsOf L chain decrypt p cs \<and> memo \<in> set cs"
proof (induction ps)
  case (Cons q ps)
  obtain ok where ok: "parentSpendsTo L chain decrypt memo q = Inr ok" "ok" "parentsSpendTo L chain decrypt memo ps = Inr True"
    using Cons.prems(1) by (cases "parentSpendsTo L chain decrypt memo q") (auto split: if_splits)
  show ?case
  proof (cases "p = q")
    case True
    obtain data fl psi j nf where d: "getLeaf chain q = Some data" "openLeaf L data decrypt = Inr (Some (fl, psi))"
      "newFr L q = Inr j" "computeNullifier L psi j = Inr nf" "memo \<in> set (childrenOfSpend chain nf)"
    proof (cases "getLeaf chain q")
      case (Some data)
      then show thesis using ok(1,2) that
        by (cases "openLeaf L data decrypt") (auto simp: parentSpendsTo_def split: option.splits)
    qed (use ok in \<open>simp add: parentSpendsTo_def\<close>)
    obtain n where "opensTo L chain decrypt q n" "notePsi n = psi" using openLeaf_opensTo d(1,2) by blast
    then show ?thesis using d(3-5) True unfolding outputsOf_def by (intro exI [of _ "childrenOfSpend chain nf"]) auto
  qed (use Cons ok in auto)
qed simp

lemma bridge_Some:
  assumes "bridgeHiddenParents L memo chain decrypt = Inr (Some packed)" "consumedLeaves packed chain = Inr (Some ps)" "p \<in> set ps"
  shows "\<exists>m. opensTo L chain decrypt (memo + 1) m \<and> noteParents m = packed"
    and "\<exists>cs. outputsOf L chain decrypt p cs \<and> memo \<in> set cs"
proof -
  obtain data fl psi where d: "getLeaf chain (memo + 1) = Some data" "openLeaf L data decrypt = Inr (Some (fl, psi))"
    "packed = fl ! PARENTS_FIELD_INDEX" "parentsSpendTo L chain decrypt memo ps = Inr True"
  proof (cases "getLeaf chain (memo + 1)")
    case (Some data)
    obtain o' where o': "openLeaf L data decrypt = Inr o'"
      using assms(1) Some by (cases "openLeaf L data decrypt") (auto simp: bridgeHiddenParents_def)
    obtain fl psi where o: "o' = Some (fl, psi)" using assms(1) Some o' by (cases o') (auto simp: bridgeHiddenParents_def)
    have nz: "\<not> (fl ! PARENTS_FIELD_INDEX = 0 \<or> fl ! PARENTS_FIELD_INDEX = PARENTS_HIDDEN)"
      using assms(1) Some o' o unfolding bridgeHiddenParents_def Let_def by (auto split: if_splits)
    have c: "bindR (consumedLeaves (fl ! PARENTS_FIELD_INDEX) chain) (\<lambda>parents. case parents of None \<Rightarrow> Inr None
        | Some ps \<Rightarrow> bindR (parentsSpendTo L chain decrypt memo ps) (\<lambda>ok. Inr (if ok then Some (fl ! PARENTS_FIELD_INDEX) else None)))
        = Inr (Some packed)"
      using assms(1) Some o' o nz unfolding bridgeHiddenParents_def Let_def by (simp only: bindR.simps option.case split_conv if_False)
    obtain qs where qs: "consumedLeaves (fl ! PARENTS_FIELD_INDEX) chain = Inr (Some qs)"
      using c by (cases "consumedLeaves (fl ! PARENTS_FIELD_INDEX) chain") (auto split: option.splits)
    have "parentsSpendTo L chain decrypt memo qs = Inr True \<and> packed = fl ! PARENTS_FIELD_INDEX"
      using c qs by (cases "parentsSpendTo L chain decrypt memo qs") (auto split: if_splits)
    then show thesis using that Some o' o qs assms(2) by auto
  qed (use assms in \<open>simp add: bridgeHiddenParents_def\<close>)
  then show "\<exists>m. opensTo L chain decrypt (memo + 1) m \<and> noteParents m = packed" using openLeaf_opensTo by blast
  show "\<exists>cs. outputsOf L chain decrypt p cs \<and> memo \<in> set cs" by (rule parentsSpendTo_all [OF d(4) assms(3)])
qed

text \<open>A hook that answers with field elements, on a tree of at most \<open>2 ^ 32\<close> leaves: no step throws.\<close>

definition hookAnswers :: "decryptNote \<Rightarrow> bool" where
  "hookAnswers decrypt \<longleftrightarrow> (\<forall>E ct. \<exists>fieldList cek. decrypt E ct = Inr (fieldList, cek) \<and> list_all isFr fieldList)"

lemma openLeaf_total:
  assumes L: "fr_laws L" and h: "hookAnswers decrypt"
  shows "\<exists>o'. openLeaf L data decrypt = Inr o'"
proof -
  obtain fl cek where d: "decrypt (ldEphPub data) (ldCiphertext data) = Inr (fl, cek)" "list_all isFr fl"
    using h unfolding hookAnswers_def by blast
  show ?thesis
  proof (cases "length fl < DEM_FIELDS \<or> 2 ^ 128 \<le> fl ! 4")
    case True
    then show ?thesis using d by (auto simp: openLeaf_def)
  next
    case False
    have "isFr (fl ! 4)" using d(2) False by (simp add: list_all_length DEM_FIELDS_def)
    then have "0 \<le> fl ! 4" "fl ! 4 < 2 ^ 128" using False by (auto simp: isFr_def)
    then show ?thesis using d False by (simp add: openLeaf_def computePsi_ok [OF L] leaf_ok [OF L])
  qed
qed

lemma forwardStep_total:
  assumes L: "fr_laws L" and h: "hookAnswers decrypt" and i: "isFr i"
  shows "\<exists>s. forwardStep L chain decrypt i = Inr s"
proof (cases "getLeaf chain i")
  case (Some data)
  obtain o' where "openLeaf L data decrypt = Inr o'" using openLeaf_total [OF L h] by blast
  then show ?thesis
    using Some L i by (cases o') (auto simp: forwardStep_def computeNullifier_def Let_def)
qed (simp add: forwardStep_def)

section \<open>Properties\<close>

text \<open>C34: the walk ends.  For every chain and every decryption hook, honest or not (cyclic parents and outputs
  included), both traces return a graph or an error.\<close>

theorem traces_return:
  "(\<exists>r. forwardTrace L start chain decrypt = Some r) \<and> (\<exists>r. backwardTrace L start chain decrypt = Some r)"
  unfolding forwardTrace_def backwardTrace_def by (intro conjI fwd.walk_returns bwd.walk_returns refl)

text \<open>C32: the forward graph.  With a hook that answers, the forward trace from a leaf of the tree returns exactly the
  leaves reachable over spends (the note opens to the leaf's commitment, its nullifier is spent, the outputs are in the
  tree), exactly the spend edges between them, each once and in order.\<close>

theorem forward_trace_exact:
  assumes L: "fr_laws L" and h: "hookAnswers decrypt" and n: "nextLeafIndex chain \<le> 2 ^ 32"
    and start: "0 \<le> start" "start < nextLeafIndex chain"
  shows "\<exists>g. forwardTrace L start chain decrypt = Some (Inr g)
    \<and> set (sgNodes g) = (spendEdge L chain decrypt)\<^sup>* `` {start} \<and> sorted_wrt (<) (sgNodes g)
    \<and> set (sgEdges g) = {(p, c) \<in> spendEdge L chain decrypt. p \<in> set (sgNodes g)} \<and> sorted_wrt (<) (sgEdges g)"
proof -
  have range: "(start, i) \<in> (leadsTo (forwardStep L chain decrypt))\<^sup>* \<Longrightarrow> 0 \<le> i \<and> i < nextLeafIndex chain" for i
  proof (induction rule: rtrancl_induct)
    case (step y z)
    then show ?case using forwardStep_in_range by (auto simp: leadsTo_def)
  qed (use start in simp)
  have ok: "\<exists>s. forwardStep L chain decrypt i = Inr s" if "(start, i) \<in> (leadsTo (forwardStep L chain decrypt))\<^sup>*" for i
    by (rule forwardStep_total [OF L h]) (use range [OF that] n in \<open>simp add: isFr_def BN254_P_def\<close>)
  have e: "(\<Union>i\<in>A. stepEdges (forwardStep L chain decrypt) i) = {(p, c) \<in> spendEdge L chain decrypt. p \<in> A}" for A
    by (auto simp: forward_spendEdge(1))
  from fwd.walk_exact [of chain chain start L decrypt, OF refl] ok start
  obtain g where "traverse start chain (forwardStep L chain decrypt) = Some (Inr g)"
    "set (sgNodes g) = (leadsTo (forwardStep L chain decrypt))\<^sup>* `` {start}"
    "set (sgEdges g) = (\<Union>i\<in>set (sgNodes g). stepEdges (forwardStep L chain decrypt) i)"
    "sorted_wrt (<) (sgNodes g)" "sorted_wrt (<) (sgEdges g)" by fastforce
  then show ?thesis unfolding e forward_spendEdge(2) forwardTrace_def by blast
qed

text \<open>no invented lineage.  Whatever the chain's reader and the decryption hook answer, every edge of a backward
  trace is backed by commitments: the child opens to a note that names the parent in its parents field, or the child
  hides its parents, the next leaf opens to a note that names the parent, and the spend of the parent has the child
  among its outputs.\<close>

theorem backward_edges_committed:
  assumes t: "backwardTrace L start chain decrypt = Some (Inr g)" and e: "(p, c) \<in> set (sgEdges g)"
  shows "\<exists>n packed. opensTo L chain decrypt c n \<and> packed < 2 ^ 64
    \<and> (p = packed mod 2 ^ 32 \<or> (p = packed div 2 ^ 32 mod 2 ^ 32 \<and> p \<noteq> 0))
    \<and> (if noteParents n = PARENTS_HIDDEN
       then (\<exists>m. opensTo L chain decrypt (c + 1) m \<and> noteParents m = packed) \<and> (\<exists>cs. outputsOf L chain decrypt p cs \<and> c \<in> set cs)
       else packed = noteParents n)"
proof -
  have "(p, c) \<in> (\<Union>i\<in>set (sgNodes g). stepEdges (backwardStep L chain decrypt) i)"
    using bwd.walk_edges [OF refl t [unfolded backwardTrace_def]] e by simp
  then obtain i where i: "(p, c) \<in> stepEdges (backwardStep L chain decrypt) i" by blast
  then obtain s x where s: "backwardStep L chain decrypt i = Inr s" "x \<in> set (srExpansions s)" "exEdge x = (p, c)"
    by (cases "backwardStep L chain decrypt i") (auto simp: stepEdges_def)
  show ?thesis
  proof (rule backwardStep_edge [OF s(1,2)], erule expandParents_edge [OF _ s(2)], goal_cases)
    case (1 data fl psi packed ps)
    have x: "p \<in> set ps" "c = i" using 1(5,6) s(3) by auto
    obtain n where n: "opensTo L chain decrypt c n" "noteParents n = fl ! PARENTS_FIELD_INDEX"
      using openLeaf_opensTo 1(1,2) x(2) by blast
    show ?case
    proof (cases "fl ! PARENTS_FIELD_INDEX = PARENTS_HIDDEN")
      case True
      then have "bridgeHiddenParents L c chain decrypt = Inr (Some packed)" using 1(3) x(2) by blast
      then show ?thesis using n True bridge_Some [OF _ 1(4) x(1), of L c decrypt] consumedLeaves_Some [OF 1(4) x(1)]
        by (intro exI [of _ n] exI [of _ packed]) simp
    next
      case False
      then show ?thesis using n 1(3) consumedLeaves_Some [OF 1(4) x(1)] by (intro exI [of _ n] exI [of _ packed]) auto
    qed
  qed
qed

section \<open>A concrete chain\<close>

text \<open>Three leaves: the genesis leaf, a deposit, and a change note whose parent is the deposit.  The hook returns the
  ciphertext as the plaintext under content key 5.\<close>

definition toyHook :: decryptNote where
  "toyHook E ct = Inr (map (\<lambda>x. x mod BN254_P) ct, 5)"

definition toyLeafData :: "int \<Rightarrow> leafData" where
  "toyLeafData parents = \<lparr>ldEphPub = (1, 2), ldCiphertext = [1, 7, 0, 0, 10, 3, parents],
     ldLeaf = toyHash [1, 7, 0, 0, 10, 3, toyHash [5, PSI_DOMAIN], parents]\<rparr>"

definition toyChain :: chainState where
  "toyChain = \<lparr>getLeaf = (\<lambda>i. if i = 1 then Some (toyLeafData 0) else if i = 2 then Some (toyLeafData 1) else None),
     nextLeafIndex = 3, isNullifierSpent = (\<lambda>nf. nf = toyHash [toyHash [5, PSI_DOMAIN], 1]),
     childrenOfSpend = (\<lambda>nf. if nf = toyHash [toyHash [5, PSI_DOMAIN], 1] then [2] else [])\<rparr>"

lemma toyHook_answers: "hookAnswers toyHook"
  by (auto simp: hookAnswers_def toyHook_def list_all_iff)

lemma toyTrace_forward: "forwardTrace toyLibs 1 toyChain toyHook = Some (Inr \<lparr>sgNodes = [1, 2], sgEdges = [(1, 2)], sgTruncated = []\<rparr>)"
  by code_simp

lemma toyTrace_backward: "backwardTrace toyLibs 2 toyChain toyHook = Some (Inr \<lparr>sgNodes = [1, 2], sgEdges = [(1, 2)], sgTruncated = []\<rparr>)"
  by code_simp

theorem forward_trace_exact_witness: "(spendEdge toyLibs toyChain toyHook)\<^sup>* `` {1} = {1, 2}"
  using forward_trace_exact [OF toyLibs_fr_laws toyHook_answers, of toyChain 1] toyTrace_forward
  by (auto simp: toyChain_def)

theorem backward_edges_committed_witness:
  "\<exists>n. opensTo toyLibs toyChain toyHook 2 n \<and> noteParents n = 1"
proof -
  have "\<exists>n packed. opensTo toyLibs toyChain toyHook 2 n \<and> packed < 2 ^ 64
    \<and> ((1::int) = packed mod 2 ^ 32 \<or> (1 = packed div 2 ^ 32 mod 2 ^ 32 \<and> (1::int) \<noteq> 0))
    \<and> (if noteParents n = PARENTS_HIDDEN
       then (\<exists>m. opensTo toyLibs toyChain toyHook (2 + 1) m \<and> noteParents m = packed) \<and> (\<exists>cs. outputsOf toyLibs toyChain toyHook 1 cs \<and> 2 \<in> set cs)
       else packed = noteParents n)"
    by (rule backward_edges_committed [OF toyTrace_backward]) simp
  then obtain n where n: "opensTo toyLibs toyChain toyHook 2 n" by blast
  then have "noteParents n = 1"
    by (auto simp: opensTo_def toyChain_def toyHook_def toyLeafData_def noteFields_def DEM_FIELDS_def BN254_P_def)
  then show ?thesis using n by blast
qed

end
