(* ===== verification/ProofWire.thy ===== *)
theory ProofWire
  imports Discovery
begin

text \<open>
  \<open>decode.ts\<close> and \<open>compress.ts\<close> of the prover package: the byte layouts of a proof and of a public witness, and the
  compression of curve points to an x-coordinate with a sign bit.  Encoding and decoding of public witnesses are
  inverse, and compression loses nothing on curve points.  A typed array is a list of bytes, \<open>slice\<close> is \<open>slice\<close>.
\<close>

section \<open>Public witnesses\<close>

definition slice :: "nat \<Rightarrow> nat \<Rightarrow> byte list \<Rightarrow> byte list" where
  "slice a b bs = take (b - a) (drop a bs)"

definition FR_MODULUS :: int where
  "FR_MODULUS = 21888242871839275222246405745257275088548364400416034343698204186575808495617"

definition beToBigIntFr :: "byte list \<Rightarrow> int" where
  "beToBigIntFr bs = fold (\<lambda>b v. v * 256 + int b) bs 0"

definition assertCanonicalFr :: "byte list \<Rightarrow> int result" where
  "assertCanonicalFr entry =
     (if length entry \<noteq> 32 then Inl (ProofError ''decode: must be exactly 32 bytes'')
      else let v = beToBigIntFr entry in
        if FR_MODULUS \<le> v then Inl (ProofError ''decode: is not a canonical Fr element'') else Inr v)"

text \<open>\<open>DataView.getUint32(offset, false)\<close> and \<open>setUint32(offset, value, false)\<close>, which keeps the low 32 bits.\<close>

definition getUint32 :: "byte list \<Rightarrow> nat \<Rightarrow> nat" where
  "getUint32 bs offset = nat (bytesBE (slice offset (offset + 4) bs))"

definition setUint32 :: "byte list \<Rightarrow> nat \<Rightarrow> nat \<Rightarrow> byte list" where
  "setUint32 out offset v = setBytes out offset (toBytesBE 4 (int v))"

definition decodePublicWitness :: "byte list \<Rightarrow> byte list list result" where
  "decodePublicWitness pw =
     (if length pw < 12 then Inl (ProofError ''decode: public witness too short'')
      else let nrPublic = getUint32 pw 0; nrPrivate = getUint32 pw 4; entriesCount = getUint32 pw 8 in
        if nrPrivate \<noteq> 0 then Inl (ProofError ''decode: expected a PUBLIC witness'')
        else if entriesCount \<noteq> nrPublic then Inl (ProofError ''decode: entries_count != nr_public_inputs'')
        else if length pw \<noteq> 12 + entriesCount * 32 then Inl (ProofError ''decode: public witness length'')
        else foldR (\<lambda>entries i. let entry = slice (12 + i * 32) (12 + i * 32 + 32) pw in
          bindR (assertCanonicalFr entry) (\<lambda>_. Inr (entries @ [entry]))) [] [0..<entriesCount])"

definition encodePublicWitness :: "byte list list \<Rightarrow> byte list result" where
  "encodePublicWitness publicInputs =
     (let n = length publicInputs;
          out = setUint32 (setUint32 (setUint32 (replicate (12 + n * 32) 0) 0 n) 4 0) 8 n
      in foldR (\<lambda>out (i, entry).
           if length entry \<noteq> 32 then Inl (ProofError ''encode: public input must be exactly 32 bytes'')
           else bindR (assertCanonicalFr entry) (\<lambda>_. Inr (setBytes out (12 + i * 32) entry)))
         out (List.enumerate 0 publicInputs))"

section \<open>Proofs\<close>

record decodedProof =
  dpA :: "byte list"
  dpB :: "byte list"
  dpC :: "byte list"
  dpCommitmentCount :: nat
  dpCommitments :: "byte list"
  dpCommitmentPok :: "byte list"

definition decodeProof :: "byte list \<Rightarrow> decodedProof result" where
  "decodeProof proof0 =
     (if length proof0 < 260 then Inl (ProofError ''decode: proof too short'')
      else let commitmentCount = getUint32 proof0 256; commitmentsEnd = 260 + 64 * commitmentCount in
        if length proof0 \<noteq> 260 + 64 * commitmentCount + 64 then Inl (ProofError ''decode: proof length'')
        else Inr \<lparr>dpA = slice 0 64 proof0, dpB = slice 64 192 proof0, dpC = slice 192 256 proof0,
          dpCommitmentCount = commitmentCount, dpCommitments = slice 260 commitmentsEnd proof0,
          dpCommitmentPok = slice commitmentsEnd (commitmentsEnd + 64) proof0\<rparr>)"

definition proofBytesForChain :: "byte list \<Rightarrow> byte list list \<Rightarrow> byte list result" where
  "proofBytesForChain proof0 publicInputs =
     bindR (encodePublicWitness publicInputs) (\<lambda>pw.
     Inr (setBytes (setBytes (replicate (length proof0 + length pw) 0) 0 proof0) (length proof0) pw))"

section \<open>Point compression\<close>

definition FQ_MODULUS :: int where
  "FQ_MODULUS = 21888242871839275222246405745257275088696311157297823662689037894645226208583"

definition SIGN_FLAG_BIT :: nat where "SIGN_FLAG_BIT = 128"

definition isAllZero :: "byte list \<Rightarrow> bool" where
  "isAllZero bs \<longleftrightarrow> list_all (\<lambda>b. b = 0) bs"

definition assertCanonicalFq :: "int \<Rightarrow> unit result" where
  "assertCanonicalFq y = guardR (\<not> (y < 0 \<or> FQ_MODULUS \<le> y)) (ProofError ''encode: is not a canonical Fq element'')"

definition fqSignFlagBit :: "int \<Rightarrow> bool" where
  "fqSignFlagBit y \<longleftrightarrow> (let negY = (FQ_MODULUS - y) smod FQ_MODULUS in negY < y)"

definition fq2SignFlagBit :: "int \<Rightarrow> int \<Rightarrow> bool" where
  "fq2SignFlagBit y0 y1 \<longleftrightarrow>
     (let negY0 = (FQ_MODULUS - y0) smod FQ_MODULUS; negY1 = (FQ_MODULUS - y1) smod FQ_MODULUS in
      if y0 \<noteq> negY0 then negY0 < y0 else negY1 < y1)"

text \<open>\<open>out[0] = out[0] | SIGN_FLAG_BIT\<close>.\<close>

definition setFlag :: "bool \<Rightarrow> byte list \<Rightarrow> byte list" where
  "setFlag f out = (if f then out[0 := Bit_Operations.or (out ! 0) SIGN_FLAG_BIT] else out)"

definition compressG1 :: "byte list \<Rightarrow> byte list result" where
  "compressG1 uncompressed =
     (if length uncompressed \<noteq> 64 then Inl (ProofError ''encode: compressG1 expects a 64-byte G1 point'')
      else if isAllZero uncompressed then Inr (replicate 32 0)
      else let x = slice 0 32 uncompressed; y = bytesBE (slice 32 64 uncompressed) in
        bindR (assertCanonicalFq (bytesBE x)) (\<lambda>_.
        bindR (assertCanonicalFq y) (\<lambda>_.
        Inr (setFlag (fqSignFlagBit y) x))))"

definition compressG2 :: "byte list \<Rightarrow> byte list result" where
  "compressG2 uncompressed =
     (if length uncompressed \<noteq> 128 then Inl (ProofError ''encode: compressG2 expects a 128-byte G2 point'')
      else if isAllZero uncompressed then Inr (replicate 64 0)
      else let x = slice 0 64 uncompressed; y0 = bytesBE (slice 64 96 uncompressed); y1 = bytesBE (slice 96 128 uncompressed) in
        bindR (assertCanonicalFq (bytesBE (slice 0 32 x))) (\<lambda>_.
        bindR (assertCanonicalFq (bytesBE (slice 32 64 x))) (\<lambda>_.
        bindR (assertCanonicalFq y0) (\<lambda>_.
        bindR (assertCanonicalFq y1) (\<lambda>_.
        Inr (setFlag (fq2SignFlagBit y0 y1) x))))))"

definition COMPRESSED_PROOF_LEN :: nat where "COMPRESSED_PROOF_LEN = 192"

definition compressDecodedProof :: "decodedProof \<Rightarrow> byte list result" where
  "compressDecodedProof decoded =
     (if dpCommitmentCount decoded \<noteq> 1 then Inl (ProofError ''encode: compressDecodedProof expects exactly one commitment'')
      else bindR (compressG1 (dpA decoded)) (\<lambda>a.
        bindR (compressG2 (dpB decoded)) (\<lambda>b.
        bindR (compressG1 (dpC decoded)) (\<lambda>c.
        bindR (compressG1 (dpCommitments decoded)) (\<lambda>commitment.
        bindR (compressG1 (dpCommitmentPok decoded)) (\<lambda>pok.
        Inr (setBytes (setBytes (setBytes (setBytes (setBytes (replicate COMPRESSED_PROOF_LEN 0) 0 a) 32 b) 96 c) 128 commitment) 160 pok)))))))"

definition compressProof :: "byte list \<Rightarrow> byte list result" where
  "compressProof proof0 = bindR (decodeProof proof0) compressDecodedProof"

section \<open>Layout facts\<close>

definition canonicalEntry :: "byte list \<Rightarrow> bool" where
  "canonicalEntry e \<longleftrightarrow> length e = 32 \<and> beToBigIntFr e < FR_MODULUS"

lemma assertCanonicalFr_ok: "(\<exists>v. assertCanonicalFr e = Inr v) \<longleftrightarrow> canonicalEntry e"
  by (auto simp: assertCanonicalFr_def canonicalEntry_def Let_def)

definition wireHeader :: "nat \<Rightarrow> byte list" where
  "wireHeader n = toBytesBE 4 (int n) @ toBytesBE 4 0 @ toBytesBE 4 (int n)"

lemma wireHeader_length [simp]: "length (wireHeader n) = 12"
  by (simp add: wireHeader_def)

lemma encode_loop:
  "length pre = 12 + k * 32 \<Longrightarrow>
    foldR (\<lambda>out (i, entry). if length entry \<noteq> 32 then Inl (ProofError ''encode: public input must be exactly 32 bytes'')
        else bindR (assertCanonicalFr entry) (\<lambda>_. Inr (setBytes out (12 + i * 32) entry)))
      (pre @ replicate (length xs * 32) 0) (List.enumerate k xs) = Inr pw
    \<longleftrightarrow> list_all canonicalEntry xs \<and> pw = pre @ concat xs"
proof (induction xs arbitrary: pre k)
  case (Cons x xs)
  show ?case
  proof (cases "canonicalEntry x")
    case True
    then obtain v where v: "assertCanonicalFr x = Inr v" and l: "length x = 32"
      using assertCanonicalFr_ok by (auto simp: canonicalEntry_def)
    have "setBytes (pre @ replicate (length (x # xs) * 32) 0) (12 + k * 32) x = (pre @ x) @ replicate (length xs * 32) 0"
      using setBytes_next [OF Cons.prems, of x "length (x # xs) * 32"] l by simp
    then show ?thesis using Cons.IH [of "pre @ x" "Suc k"] Cons.prems l v True by simp
  next
    case False
    then show ?thesis using assertCanonicalFr_ok [of x] by (auto simp: canonicalEntry_def)
  qed
qed auto

lemma encode_iff:
  "encodePublicWitness xs = Inr pw \<longleftrightarrow> list_all canonicalEntry xs \<and> pw = wireHeader (length xs) @ concat xs"
proof -
  let ?n = "length xs"
  have a: "setUint32 (replicate (12 + ?n * 32) 0) 0 ?n = toBytesBE 4 (int ?n) @ replicate (8 + ?n * 32) 0"
    using setBytes_next [of "[]" 0 "toBytesBE 4 (int ?n)" "12 + ?n * 32"] by (simp add: setUint32_def)
  have b: "setUint32 (toBytesBE 4 (int ?n) @ replicate (8 + ?n * 32) 0) 4 0
      = (toBytesBE 4 (int ?n) @ toBytesBE 4 0) @ replicate (4 + ?n * 32) 0"
    using setBytes_next [of "toBytesBE 4 (int ?n)" 4 "toBytesBE 4 0" "8 + ?n * 32"] by (simp add: setUint32_def)
  have c: "setUint32 ((toBytesBE 4 (int ?n) @ toBytesBE 4 0) @ replicate (4 + ?n * 32) 0) 8 ?n
      = wireHeader ?n @ replicate (?n * 32) 0"
    using setBytes_next [of "toBytesBE 4 (int ?n) @ toBytesBE 4 0" 8 "toBytesBE 4 (int ?n)" "4 + ?n * 32"]
    by (simp add: setUint32_def wireHeader_def)
  show ?thesis unfolding encodePublicWitness_def Let_def a b c using encode_loop [of "wireHeader ?n" 0 xs pw] by simp
qed

lemma decode_loop:
  "foldR (\<lambda>entries i. let entry = g i in bindR (assertCanonicalFr entry) (\<lambda>_. Inr (entries @ [entry]))) acc is = Inr es
    \<longleftrightarrow> list_all (\<lambda>i. canonicalEntry (g i)) is \<and> es = acc @ map g is"
proof (induction "is" arbitrary: acc)
  case (Cons i "is")
  then show ?case using assertCanonicalFr_ok [of "g i"] by (cases "canonicalEntry (g i)") (auto simp: Let_def)
qed auto

lemma chunks_concat: "concat (map (\<lambda>i. take 32 (drop (i * 32) zs)) [0..<n]) = take (n * 32) zs"
proof (induction n)
  case (Suc n)
  have "take (Suc n * 32) zs = take (n * 32) zs @ take 32 (drop (n * 32) zs)"
    using take_add [of "n * 32" 32 zs] by (simp add: add.commute)
  then show ?case using Suc by simp
qed simp

lemma concat_chunks:
  "list_all (\<lambda>x. length x = 32) xs \<Longrightarrow> map (\<lambda>i. take 32 (drop (i * 32) (concat xs))) [0..<length xs] = xs"
proof (induction xs)
  case (Cons x xs)
  have "map (\<lambda>i. take 32 (drop (i * 32) (concat (x # xs)))) [0..<length (x # xs)]
      = x # map (\<lambda>i. take 32 (drop (i * 32) (concat xs))) [0..<length xs]"
    using Cons.prems by (simp add: upt_conv_Cons map_Suc_upt [symmetric] o_def del: upt_Suc)
  then show ?case using Cons by simp
qed simp

lemma uint32_round: "n < 2 ^ 32 \<Longrightarrow> nat (bytesBE (toBytesBE 4 (int n))) = n"
  by (simp add: bytesBE_toBytesBE)

lemma decode_iff:
  "decodePublicWitness pw = Inr es \<longleftrightarrow>
    12 \<le> length pw \<and> getUint32 pw 4 = 0 \<and> getUint32 pw 8 = getUint32 pw 0 \<and> length pw = 12 + getUint32 pw 8 * 32
    \<and> list_all canonicalEntry es \<and> es = map (\<lambda>i. take 32 (drop (i * 32) (drop 12 pw))) [0..<getUint32 pw 8]"
proof -
  have sl: "slice (12 + i * 32) (12 + i * 32 + 32) pw = take 32 (drop (i * 32) (drop 12 pw))" for i
    by (simp add: slice_def add.commute)
  let ?g = "\<lambda>i. take 32 (drop (i * 32) (drop 12 pw))"
  have "decodePublicWitness pw =
     (if length pw < 12 then Inl (ProofError ''decode: public witness too short'')
      else if getUint32 pw 4 \<noteq> 0 then Inl (ProofError ''decode: expected a PUBLIC witness'')
      else if getUint32 pw 8 \<noteq> getUint32 pw 0 then Inl (ProofError ''decode: entries_count != nr_public_inputs'')
      else if length pw \<noteq> 12 + getUint32 pw 8 * 32 then Inl (ProofError ''decode: public witness length'')
      else foldR (\<lambda>entries i. let entry = ?g i in bindR (assertCanonicalFr entry) (\<lambda>_. Inr (entries @ [entry]))) [] [0..<getUint32 pw 8])"
    unfolding decodePublicWitness_def Let_def sl ..
  moreover have "list_all (\<lambda>i. canonicalEntry (?g i)) is \<longleftrightarrow> list_all canonicalEntry (map ?g is)" for "is"
    by (simp add: list_all_iff)
  ultimately show ?thesis using decode_loop [of ?g "[]" "[0..<getUint32 pw 8]" es] by (simp only: append_Nil) auto
qed

lemma uint32_at:
  assumes "length pre = k" "n < 2 ^ 32"
  shows "getUint32 (pre @ toBytesBE 4 (int n) @ post) k = n"
  using assms uint32_round [of n] by (simp add: getUint32_def slice_def)

lemma uint32_bytes:
  assumes "list_all isByte bs" "k + 4 \<le> length bs"
  shows "toBytesBE 4 (int (getUint32 bs k)) = take 4 (drop k bs)"
proof -
  have b: "list_all isByte (take 4 (drop k bs))" using assms(1) by (auto simp: list_all_iff dest: in_set_takeD in_set_dropD)
  have l: "length (take 4 (drop k bs)) = 4" using assms(2) by simp
  show ?thesis using bytesBE_nonneg [of "take 4 (drop k bs)"] toBytesBE_bytesBE [OF b, unfolded l] by (simp add: getUint32_def slice_def)
qed

lemma decode_encoded:
  assumes "list_all canonicalEntry xs" "length xs < 2 ^ 32"
  shows "decodePublicWitness (wireHeader (length xs) @ concat xs) = Inr xs"
proof -
  let ?pw = "wireHeader (length xs) @ concat xs"
  have l: "list_all (\<lambda>x. length x = 32) xs" using assms(1) by (auto simp: list_all_iff canonicalEntry_def)
  then have "length (concat xs) = length xs * 32" by (induction xs) auto
  moreover have "getUint32 ?pw 0 = length xs" "getUint32 ?pw 4 = 0" "getUint32 ?pw 8 = length xs"
    using uint32_at [of "[]" 0 "length xs"] uint32_at [of "toBytesBE 4 (int (length xs))" 4 0]
      uint32_at [of "toBytesBE 4 (int (length xs)) @ toBytesBE 4 0" 8 "length xs"] assms(2)
    by (simp_all add: wireHeader_def)
  ultimately show ?thesis unfolding decode_iff using assms(1) concat_chunks [OF l] by simp
qed

lemma encode_decoded:
  assumes b: "list_all isByte pw" and d: "decodePublicWitness pw = Inr es"
  shows "encodePublicWitness es = Inr pw"
proof -
  let ?n = "getUint32 pw 8"
  have D: "12 \<le> length pw" "getUint32 pw 4 = 0" "?n = getUint32 pw 0" "length pw = 12 + ?n * 32"
    "list_all canonicalEntry es" "es = map (\<lambda>i. take 32 (drop (i * 32) (drop 12 pw))) [0..<?n]"
    using d unfolding decode_iff by auto
  have "length es = ?n" by (subst D(6)) simp
  moreover have "concat es = drop 12 pw" unfolding D(6) chunks_concat using D(4) by simp
  moreover have "wireHeader ?n = take 4 (drop 0 pw) @ take 4 (drop 4 pw) @ take 4 (drop 8 pw)"
    unfolding wireHeader_def using uint32_bytes [OF b, of 0] uint32_bytes [OF b, of 4] uint32_bytes [OF b, of 8] D(1-3) by simp
  moreover have "\<dots> = take 12 pw" using take_add [of 4 8 pw] take_add [of 4 4 "drop 4 pw"] by simp
  ultimately show ?thesis unfolding encode_iff using D(5) by simp
qed

section \<open>Compression facts\<close>

lemma or_flag: "b < 128 \<Longrightarrow> Bit_Operations.or b 128 = b + (128 :: nat)"
proof -
  have "list_all (\<lambda>b. Bit_Operations.or b 128 = b + (128 :: nat)) [0..<128]" by code_simp
  then show "b < 128 \<Longrightarrow> ?thesis" by (simp add: list_all_iff)
qed

lemma bytesBE_append: "bytesBE (xs @ ys) = bytesBE xs * 256 ^ length ys + bytesBE ys"
proof (induction ys rule: rev_induct)
  case (snoc y ys)
  have "bytesBE (xs @ ys @ [y]) = bytesBE (xs @ ys) * 256 + int y" using bytesBE_snoc [of "xs @ ys" y] by simp
  then show ?case using snoc by (simp add: bytesBE_snoc algebra_simps)
qed simp

lemma canonical_top_byte:
  assumes "length x = 32" "bytesBE x < FQ_MODULUS"
  shows "x ! 0 < 128"
proof (cases x)
  case (Cons b bs)
  have "bytesBE x = int b * 256 ^ 31 + bytesBE bs" using bytesBE_append [of "[b]" bs] assms(1) Cons by (simp add: bytesBE_def)
  then have "int b * 256 ^ 31 < 128 * 256 ^ 31" using assms(2) bytesBE_nonneg [of bs] by (simp add: FQ_MODULUS_def)
  then show ?thesis using Cons by simp
qed (use assms in simp)

lemma setFlag_inject:
  assumes "x ! 0 < 128" "x' ! 0 < 128" "x \<noteq> []" "length x = length x'"
  shows "setFlag f x = setFlag f' x' \<longleftrightarrow> f = f' \<and> x = x'"
proof -
  obtain b bs b' bs' where "x = b # bs" "x' = b' # bs'" using assms(3,4) by (cases x; cases x') auto
  then show ?thesis using assms(1,2) by (auto simp: setFlag_def SIGN_FLAG_BIT_def or_flag)
qed

lemma setFlag_length [simp]: "length (setFlag f x) = length x"
  by (simp add: setFlag_def)

lemma fq_neg: "0 \<le> y \<Longrightarrow> y < FQ_MODULUS \<Longrightarrow> (FQ_MODULUS - y) smod FQ_MODULUS = (if y = 0 then 0 else FQ_MODULUS - y)"
proof -
  assume y: "0 \<le> y" "y < FQ_MODULUS"
  then have "(FQ_MODULUS - y) smod FQ_MODULUS = (FQ_MODULUS - y) mod FQ_MODULUS" by (intro smod_nonneg) auto
  also have "\<dots> = (if y = 0 then 0 else FQ_MODULUS - y)"
  proof (cases "y = 0")
    case False
    then have "(FQ_MODULUS - y) mod FQ_MODULUS = FQ_MODULUS - y" using y by (intro mod_pos_pos_trivial) auto
    then show ?thesis using False by simp
  qed simp
  finally show ?thesis .
qed

text \<open>The sign bit separates a nonzero coordinate from its negation, because the modulus is odd.\<close>

lemma fq_odd: "2 * y \<noteq> FQ_MODULUS"
  by (simp add: FQ_MODULUS_def) presburger

definition fqNeg :: "int \<Rightarrow> int" where
  "fqNeg y = (- y) mod FQ_MODULUS"

lemma fqNeg_cases: "0 \<le> y \<Longrightarrow> y < FQ_MODULUS \<Longrightarrow> fqNeg y = (if y = 0 then 0 else FQ_MODULUS - y)"
  by (auto simp: fqNeg_def zmod_zminus1_eq_if)

lemma fqSign_determines:
  assumes "0 \<le> y" "y < FQ_MODULUS" "y' = y \<or> y' = fqNeg y" "fqSignFlagBit y = fqSignFlagBit y'"
  shows "y' = y"
proof (rule ccontr)
  assume ne: "y' \<noteq> y"
  then have y': "y' = FQ_MODULUS - y" "0 < y" using assms(1-3) fqNeg_cases [of y] by (auto split: if_splits)
  then show False using assms fq_neg [of y] fq_neg [of y'] fq_odd [of y] by (auto simp: fqSignFlagBit_def Let_def)
qed

lemma fq2Sign_determines:
  assumes "0 \<le> y0" "y0 < FQ_MODULUS" "0 \<le> y1" "y1 < FQ_MODULUS"
    "(y0', y1') = (y0, y1) \<or> (y0', y1') = (fqNeg y0, fqNeg y1)" "fq2SignFlagBit y0 y1 = fq2SignFlagBit y0' y1'"
  shows "(y0', y1') = (y0, y1)"
proof (rule ccontr)
  assume ne: "(y0', y1') \<noteq> (y0, y1)"
  then have n: "y0' = fqNeg y0" "y1' = fqNeg y1" using assms(5) by auto
  have r: "0 \<le> fqNeg y0" "fqNeg y0 < FQ_MODULUS" "0 \<le> fqNeg y1" "fqNeg y1 < FQ_MODULUS"
    by (simp_all add: fqNeg_def FQ_MODULUS_def)
  show False
    using ne assms(6) unfolding n fq2SignFlagBit_def Let_def fq_neg [OF assms(1,2)] fq_neg [OF assms(3,4)]
      fq_neg [OF r(1,2)] fq_neg [OF r(3,4)]
    using fq_odd [of y0] fq_odd [of y1] assms(1-4) fqNeg_cases [OF assms(1,2)] fqNeg_cases [OF assms(3,4)]
    by (auto split: if_splits)
qed

section \<open>Properties\<close>

text \<open>
  What the two compressed points must satisfy: they are points of one curve, given as bytes.  On the curves of the
  pairing, points with the same x-coordinate are equal or mirror each other, and no point other than infinity (written
  as zeros) has x-coordinate zero.
\<close>

definition sameG1 :: "byte list \<Rightarrow> byte list \<Rightarrow> bool" where
  "sameG1 u u' \<longleftrightarrow> (\<forall>w\<in>{u, u'}. isAllZero w \<or> \<not> isAllZero (slice 0 32 w))
     \<and> (slice 0 32 u = slice 0 32 u' \<longrightarrow> bytesBE (slice 32 64 u') \<in> {bytesBE (slice 32 64 u), fqNeg (bytesBE (slice 32 64 u))})"

definition sameG2 :: "byte list \<Rightarrow> byte list \<Rightarrow> bool" where
  "sameG2 u u' \<longleftrightarrow> (\<forall>w\<in>{u, u'}. isAllZero w \<or> \<not> isAllZero (slice 0 64 w))
     \<and> (slice 0 64 u = slice 0 64 u' \<longrightarrow> (bytesBE (slice 64 96 u'), bytesBE (slice 96 128 u'))
       \<in> {(bytesBE (slice 64 96 u), bytesBE (slice 96 128 u)),
           (fqNeg (bytesBE (slice 64 96 u)), fqNeg (bytesBE (slice 96 128 u)))})"

lemma isAllZero_replicate: "isAllZero w \<longleftrightarrow> w = replicate (length w) 0"
  by (induction w) (auto simp: isAllZero_def)

lemma bytesBE_inject: "list_all isByte a \<Longrightarrow> list_all isByte b \<Longrightarrow> length a = length b \<Longrightarrow> bytesBE a = bytesBE b \<Longrightarrow> a = b"
  by (metis toBytesBE_bytesBE)

lemma wire_slice_bytes: "list_all isByte u \<Longrightarrow> list_all isByte (slice a b u)"
  by (auto simp: slice_def list_all_iff dest: in_set_takeD in_set_dropD)

lemma slice_eq:
  "list_all isByte u \<Longrightarrow> list_all isByte u' \<Longrightarrow> length u = length u' \<Longrightarrow> bytesBE (slice a b u) = bytesBE (slice a b u') \<Longrightarrow>
    slice a b u = slice a b u'"
  by (rule bytesBE_inject) (simp_all add: wire_slice_bytes, simp add: slice_def)

lemma setFlag_zero: "length x = n \<Longrightarrow> 0 < n \<Longrightarrow> x ! 0 < 128 \<Longrightarrow> setFlag f x = replicate n 0 \<longleftrightarrow> \<not> f \<and> isAllZero x"
  using setFlag_inject [of x "replicate n 0" f False] by (auto simp: setFlag_def [of False] isAllZero_replicate)

lemma compressG1_cases:
  assumes "compressG1 u = Inr c"
  shows "length u = 64 \<and> (if isAllZero u then c = replicate 32 0 else
    bytesBE (slice 0 32 u) < FQ_MODULUS \<and> 0 \<le> bytesBE (slice 32 64 u) \<and> bytesBE (slice 32 64 u) < FQ_MODULUS
    \<and> c = setFlag (fqSignFlagBit (bytesBE (slice 32 64 u))) (slice 0 32 u))"
  using assms by (auto simp: compressG1_def assertCanonicalFq_def Let_def split: if_splits)

lemma compressG2_cases:
  assumes "compressG2 u = Inr c"
  shows "length u = 128 \<and> (if isAllZero u then c = replicate 64 0 else
    bytesBE (slice 0 32 (slice 0 64 u)) < FQ_MODULUS
    \<and> 0 \<le> bytesBE (slice 64 96 u) \<and> bytesBE (slice 64 96 u) < FQ_MODULUS
    \<and> 0 \<le> bytesBE (slice 96 128 u) \<and> bytesBE (slice 96 128 u) < FQ_MODULUS
    \<and> c = setFlag (fq2SignFlagBit (bytesBE (slice 64 96 u)) (bytesBE (slice 96 128 u))) (slice 0 64 u))"
  using assms by (auto simp: compressG2_def assertCanonicalFq_def Let_def split: if_splits)

text \<open>Two compressed points with the same bytes: both are infinity, or they agree in x-coordinate and sign.\<close>

lemma compressed_eq:
  assumes "\<And>w. w \<in> {u, u'} \<Longrightarrow> length (X w) = n \<and> (if isAllZero w then c = replicate n 0
      else X w ! 0 < 128 \<and> \<not> isAllZero (X w) \<and> c = setFlag (S w) (X w))" and n: "0 < n"
  shows "isAllZero u \<and> isAllZero u' \<or> \<not> isAllZero u \<and> \<not> isAllZero u' \<and> X u = X u' \<and> S u = S u'"
proof -
  note A = assms(1) [of u, simplified] assms(1) [of u', simplified]
  have ne: "X u \<noteq> []" using A(1) n by auto
  show ?thesis
  proof (cases "isAllZero u"; cases "isAllZero u'")
    assume z: "\<not> isAllZero u" "\<not> isAllZero u'"
    then show ?thesis using A setFlag_inject [of "X u" "X u'" "S u" "S u'"] ne by auto
  next
    assume z: "\<not> isAllZero u" "isAllZero u'"
    then show ?thesis using A n setFlag_zero [of "X u" n "S u"] by auto
  next
    assume z: "isAllZero u" "\<not> isAllZero u'"
    then show ?thesis using A n setFlag_zero [of "X u'" n "S u'"] by auto
  qed auto
qed

lemma compressG1_inject:
  assumes c: "compressG1 u = Inr c" "compressG1 u' = Inr c" and b: "list_all isByte u" "list_all isByte u'" and m: "sameG1 u u'"
  shows "u = u'"
proof -
  note C = compressG1_cases [OF c(1)] and C' = compressG1_cases [OF c(2)]
  have len: "length u = 64" "length u' = 64" using C C' by auto
  have split: "w = slice 0 32 w @ slice 32 64 w" if "length w = 64" for w :: "byte list" using that by (simp add: slice_def)
  have "isAllZero u \<and> isAllZero u' \<or> \<not> isAllZero u \<and> \<not> isAllZero u' \<and> slice 0 32 u = slice 0 32 u'
      \<and> fqSignFlagBit (bytesBE (slice 32 64 u)) = fqSignFlagBit (bytesBE (slice 32 64 u'))"
  proof (rule compressed_eq [where n = 32 and c = c], goal_cases)
    case (1 w)
    have l: "length (slice 0 32 w) = 32" using 1 len by (auto simp: slice_def)
    have "\<not> isAllZero w \<Longrightarrow> \<not> isAllZero (slice 0 32 w)" using m 1 by (auto simp: sameG1_def)
    then show ?case using 1 C C' l canonical_top_byte [OF l] by auto
  qed simp
  then show ?thesis
  proof (elim disjE conjE)
    assume "isAllZero u" "isAllZero u'"
    then show ?thesis using len by (simp add: isAllZero_replicate)
  next
    assume nz: "\<not> isAllZero u" and x: "slice 0 32 u = slice 0 32 u'"
      and s: "fqSignFlagBit (bytesBE (slice 32 64 u)) = fqSignFlagBit (bytesBE (slice 32 64 u'))"
    have "bytesBE (slice 32 64 u') = bytesBE (slice 32 64 u)"
      by (rule fqSign_determines) (use C nz x s m in \<open>auto simp: sameG1_def\<close>)
    then have "slice 32 64 u' = slice 32 64 u"
      using slice_eq [OF b(2,1)] len by simp
    then show ?thesis using split [OF len(1)] split [OF len(2)] x by simp
  qed
qed

lemma compressG2_inject:
  assumes c: "compressG2 u = Inr c" "compressG2 u' = Inr c" and b: "list_all isByte u" "list_all isByte u'" and m: "sameG2 u u'"
  shows "u = u'"
proof -
  note C = compressG2_cases [OF c(1)] and C' = compressG2_cases [OF c(2)]
  have len: "length u = 128" "length u' = 128" using C C' by auto
  have split: "w = slice 0 64 w @ slice 64 96 w @ slice 96 128 w" if "length w = 128" for w :: "byte list"
    using that take_add [of 32 32 "drop 64 w"] by (simp add: slice_def)
  have "isAllZero u \<and> isAllZero u' \<or> \<not> isAllZero u \<and> \<not> isAllZero u' \<and> slice 0 64 u = slice 0 64 u'
      \<and> fq2SignFlagBit (bytesBE (slice 64 96 u)) (bytesBE (slice 96 128 u))
        = fq2SignFlagBit (bytesBE (slice 64 96 u')) (bytesBE (slice 96 128 u'))"
  proof (rule compressed_eq [where n = 64 and c = c], goal_cases)
    case (1 w)
    have l: "length (slice 0 32 (slice 0 64 w)) = 32" "length (slice 0 64 w) = 64" using 1 len by (auto simp: slice_def)
    have "\<not> isAllZero w \<Longrightarrow> \<not> isAllZero (slice 0 64 w)" using m 1 by (auto simp: sameG2_def)
    moreover have "slice 0 32 (slice 0 64 w) ! 0 = slice 0 64 w ! 0" by (simp add: slice_def)
    ultimately show ?case using 1 C C' l canonical_top_byte [OF l(1)] by auto
  qed simp
  then show ?thesis
  proof (elim disjE conjE)
    assume "isAllZero u" "isAllZero u'"
    then show ?thesis using len by (simp add: isAllZero_replicate)
  next
    assume nz: "\<not> isAllZero u" and x: "slice 0 64 u = slice 0 64 u'"
      and s: "fq2SignFlagBit (bytesBE (slice 64 96 u)) (bytesBE (slice 96 128 u))
        = fq2SignFlagBit (bytesBE (slice 64 96 u')) (bytesBE (slice 96 128 u'))"
    have "(bytesBE (slice 64 96 u'), bytesBE (slice 96 128 u')) = (bytesBE (slice 64 96 u), bytesBE (slice 96 128 u))"
      by (rule fq2Sign_determines) (use C nz x s m in \<open>auto simp: sameG2_def\<close>)
    then have "slice 64 96 u' = slice 64 96 u" "slice 96 128 u' = slice 96 128 u"
      using slice_eq [OF b(2,1)] len by auto
    then show ?thesis using split [OF len(1)] split [OF len(2)] x by simp
  qed
qed

lemma decodeProof_parts:
  assumes b: "list_all isByte p" and d: "decodeProof p = Inr d" and one: "dpCommitmentCount d = 1"
  shows "p = dpA d @ dpB d @ dpC d @ toBytesBE 4 1 @ dpCommitments d @ dpCommitmentPok d"
    and "list_all isByte (dpA d) \<and> list_all isByte (dpB d) \<and> list_all isByte (dpC d) \<and> list_all isByte (dpCommitments d)
      \<and> list_all isByte (dpCommitmentPok d)"
proof -
  have l: "length p = 388" "getUint32 p 256 = 1" and D: "dpA d = slice 0 64 p" "dpB d = slice 64 192 p" "dpC d = slice 192 256 p"
      "dpCommitments d = slice 260 324 p" "dpCommitmentPok d = slice 324 388 p"
    using d one by (auto simp: decodeProof_def Let_def split: if_splits)
  have c: "take 4 (drop 256 p) = toBytesBE 4 1" using uint32_bytes [OF b, of 256] l by simp
  have "p = take 64 p @ take 128 (drop 64 p) @ take 64 (drop 192 p) @ take 4 (drop 256 p) @ take 64 (drop 260 p) @ drop 324 p"
    using append_take_drop_id [of 64 p] append_take_drop_id [of 128 "drop 64 p"] append_take_drop_id [of 64 "drop 192 p"]
      append_take_drop_id [of 4 "drop 256 p"] append_take_drop_id [of 64 "drop 260 p"] by simp
  then show "p = dpA d @ dpB d @ dpC d @ toBytesBE 4 1 @ dpCommitments d @ dpCommitmentPok d"
    unfolding D c using l(1) by (simp add: slice_def)
  show "list_all isByte (dpA d) \<and> list_all isByte (dpB d) \<and> list_all isByte (dpC d) \<and> list_all isByte (dpCommitments d)
      \<and> list_all isByte (dpCommitmentPok d)"
    unfolding D using wire_slice_bytes [OF b] by simp
qed

lemma compressG_length: "compressG1 u = Inr c \<Longrightarrow> length c = 32" "compressG2 u = Inr c \<Longrightarrow> length c = 64"
  using compressG1_cases [of u c] compressG2_cases [of u c] by (auto simp: slice_def split: if_splits)

lemma compressDecoded_parts:
  assumes "compressDecodedProof d = Inr out"
  obtains a b c k q where "dpCommitmentCount d = 1" "compressG1 (dpA d) = Inr a" "compressG2 (dpB d) = Inr b" "compressG1 (dpC d) = Inr c"
    "compressG1 (dpCommitments d) = Inr k" "compressG1 (dpCommitmentPok d) = Inr q" "out = a @ b @ c @ k @ q"
proof -
  obtain a b c k q where p: "dpCommitmentCount d = 1" "compressG1 (dpA d) = Inr a" "compressG2 (dpB d) = Inr b" "compressG1 (dpC d) = Inr c"
    "compressG1 (dpCommitments d) = Inr k" "compressG1 (dpCommitmentPok d) = Inr q"
    "out = setBytes (setBytes (setBytes (setBytes (setBytes (replicate COMPRESSED_PROOF_LEN 0) 0 a) 32 b) 96 c) 128 k) 160 q"
    using assms by (auto simp: compressDecodedProof_def split: if_splits)
  have len: "length a = 32" "length b = 64" "length c = 32" "length k = 32" "length q = 32" using p(2-6) compressG_length by auto
  have "out = a @ b @ c @ k @ q"
    using len unfolding p(7) COMPRESSED_PROOF_LEN_def
    by (simp add: setBytes_next [of "[]", simplified] setBytes_next [of a] setBytes_next [of "a @ b", simplified]
        setBytes_next [of "a @ b @ c", simplified] setBytes_next [of "a @ b @ c @ k", simplified])
  then show thesis using that p(1-6) by blast
qed

text \<open>C33: the public witness on the wire.  Encoding succeeds exactly on lists of canonical 32-byte field elements, what it
  writes decodes to the list it was given, and every byte string that decodes is what encoding its entries writes.\<close>

theorem public_witness_bijection:
  "(\<forall>xs. length xs < 2 ^ 32 \<longrightarrow> (list_all canonicalEntry xs \<longleftrightarrow> isOk (encodePublicWitness xs))
      \<and> (\<forall>pw. encodePublicWitness xs = Inr pw \<longrightarrow> decodePublicWitness pw = Inr xs))
    \<and> (\<forall>pw es. list_all isByte pw \<and> decodePublicWitness pw = Inr es \<longrightarrow> encodePublicWitness es = Inr pw)"
proof (intro conjI allI impI, goal_cases)
  case (1 xs)
  then show ?case using encode_iff [of xs "wireHeader (length xs) @ concat xs"] encode_iff [of xs]
    by (cases "encodePublicWitness xs") auto
next
  case (2 xs pw)
  then show ?case using encode_iff [of xs pw] decode_encoded [of xs] by simp
next
  case (3 pw es)
  then show ?case using encode_decoded by blast
qed

theorem public_witness_bijection_witness:
  "decodePublicWitness (wireHeader 1 @ toBytesBE 32 7) = Inr [toBytesBE 32 7]
    \<and> isOk (encodePublicWitness [toBytesBE 32 7])"
proof -
  have c: "list_all canonicalEntry [toBytesBE 32 7]" by code_simp
  have e: "encodePublicWitness [toBytesBE 32 7] = Inr (wireHeader 1 @ toBytesBE 32 7)"
    using encode_iff [of "[toBytesBE 32 7]"] c by simp
  have "length [toBytesBE 32 7] < 2 ^ 32" by simp
  then show ?thesis
    using public_witness_bijection [THEN conjunct1, rule_format, of "[toBytesBE 32 7]"] c e by (metis (no_types))
qed

text \<open>compression keeps the proof.  Compressed proofs have 192 bytes, and for two proofs whose points lie on the
  same curves the compressed forms are equal only if the proofs are.\<close>

theorem compression_keeps_proof:
  assumes b: "list_all isByte p" "list_all isByte p'"
    and d: "decodeProof p = Inr d" "decodeProof p' = Inr d'" and c: "compressProof p = Inr c" "compressProof p' = Inr c'"
    and m: "sameG1 (dpA d) (dpA d')" "sameG2 (dpB d) (dpB d')" "sameG1 (dpC d) (dpC d')" "sameG1 (dpCommitments d) (dpCommitments d')"
      "sameG1 (dpCommitmentPok d) (dpCommitmentPok d')"
  shows "length c = COMPRESSED_PROOF_LEN \<and> (c = c' \<longleftrightarrow> p = p')"
proof -
  have o: "compressDecodedProof d = Inr c" "compressDecodedProof d' = Inr c'" using c d by (auto simp: compressProof_def)
  show ?thesis
  proof (rule compressDecoded_parts [OF o(1)], rule compressDecoded_parts [OF o(2)], goal_cases)
    case (1 u v w k q u' v' w' k' q')
    have len: "length u = 32" "length v = 64" "length w = 32" "length k = 32" "length q = 32" "length u' = 32" "length v' = 64"
      "length w' = 32" "length k' = 32" "length q' = 32" using 1(2-6,9-13) compressG_length by auto
    note P = decodeProof_parts [OF b(1) d(1) 1(1)] and P' = decodeProof_parts [OF b(2) d(2) 1(8)]
    have "p = p'" if "c = c'"
    proof -
      have e: "u = u'" "v = v'" "w = w'" "k = k'" "q = q'" using that 1(7,14) len by auto
      have "dpA d = dpA d'" by (rule compressG1_inject) (use 1 e P(2) P'(2) m in auto)
      moreover have "dpB d = dpB d'" by (rule compressG2_inject) (use 1 e P(2) P'(2) m in auto)
      moreover have "dpC d = dpC d'" by (rule compressG1_inject) (use 1 e P(2) P'(2) m in auto)
      moreover have "dpCommitments d = dpCommitments d'" by (rule compressG1_inject) (use 1 e P(2) P'(2) m in auto)
      moreover have "dpCommitmentPok d = dpCommitmentPok d'" by (rule compressG1_inject) (use 1 e P(2) P'(2) m in auto)
      ultimately show ?thesis using P(1) P'(1) by simp
    qed
    moreover have "c = c'" if "p = p'" using that c by simp
    ultimately show ?case using len 1(7) by (auto simp: COMPRESSED_PROOF_LEN_def)
  qed
qed

text \<open>The proof whose first point is \<open>(1, y)\<close> and whose other points are infinity; \<open>(1, 2)\<close> is the generator.\<close>

definition demoProof :: "int \<Rightarrow> byte list" where
  "demoProof y = toBytesBE 32 1 @ toBytesBE 32 y @ replicate 192 0 @ toBytesBE 4 1 @ replicate 128 0"

definition demoDecoded :: "int \<Rightarrow> decodedProof" where
  "demoDecoded y = \<lparr>dpA = toBytesBE 32 1 @ toBytesBE 32 y, dpB = replicate 128 0, dpC = replicate 64 0, dpCommitmentCount = 1,
     dpCommitments = replicate 64 0, dpCommitmentPok = replicate 64 0\<rparr>"

definition demoCompressed :: "int \<Rightarrow> byte list" where
  "demoCompressed y = setFlag (fqSignFlagBit y) (toBytesBE 32 1) @ replicate 160 0"

lemma demo_bytes: "list_all isByte (demoProof y)"
  by (simp add: demoProof_def toBytesBE_bytes) (simp add: list_all_iff isByte_def)

lemma demo_2: "decodeProof (demoProof 2) = Inr (demoDecoded 2)" "compressProof (demoProof 2) = Inr (demoCompressed 2)"
  by code_simp+

lemma demo_neg: "decodeProof (demoProof (FQ_MODULUS - 2)) = Inr (demoDecoded (FQ_MODULUS - 2))"
    "compressProof (demoProof (FQ_MODULUS - 2)) = Inr (demoCompressed (FQ_MODULUS - 2))"
  by code_simp+

lemma demo_curve: "sameG1 (dpA (demoDecoded 2)) (dpA (demoDecoded (FQ_MODULUS - 2)))"
  by code_simp

lemma demo_zero: "sameG1 (replicate 64 0) (replicate 64 0)" "sameG2 (replicate 128 0) (replicate 128 0)"
  by code_simp+

theorem compression_keeps_proof_witness: "demoCompressed 2 \<noteq> demoCompressed (FQ_MODULUS - 2)"
proof -
  have "demoProof 2 \<noteq> demoProof (FQ_MODULUS - 2)" by code_simp
  then show ?thesis
    using compression_keeps_proof [OF demo_bytes demo_bytes demo_2(1) demo_neg(1) demo_2(2) demo_neg(2) demo_curve] demo_zero
    by (simp add: demoDecoded_def)
qed

end
