(* ===== verification/GroupKeys.thy ===== *)
theory GroupKeys
  imports NoteModel "HOL-Library.Multiset"
begin

text \<open>
  \<open>tss/groupSecret.ts\<close>, \<open>frost/groupViewKey.ts\<close> and \<open>frost/message.ts\<close>: the view secret of a group from the
  contributions of its members, the even-y view key derived from it, and the messages a quorum signs.  The lemmas show
  that members who hold the same contributions, in whatever order they arrived, get the same key.
\<close>

section \<open>Contributions\<close>

definition GROUP_VIEW_DOMAIN :: int where
  "GROUP_VIEW_DOMAIN = 0x2a9e6844948f649c36de66fbbbbdb35c175af01c06598ea5a99f5761ff213d04"

definition GROUP_VIEW_CONTRIBUTION_BYTES :: nat where "GROUP_VIEW_CONTRIBUTION_BYTES = 32"

record groupViewContribution =
  gcIndex :: int
  gcR :: "byte list"

definition assertContributions :: "groupViewContribution list \<Rightarrow> groupViewContribution list result" where
  "assertContributions contribs =
     (if contribs = [] then Inl (Error ''combineGroupViewContributions: at least one contribution is required'')
      else bindR (foldR (\<lambda>seen c.
          if length (gcR c) \<noteq> GROUP_VIEW_CONTRIBUTION_BYTES then Inl (Error ''combineGroupViewContributions: contribution must be 32 bytes'')
          else if gcIndex c \<in> seen then Inl (Error ''combineGroupViewContributions: duplicate contribution'')
          else Inr (insert (gcIndex c) seen)) {} contribs) (\<lambda>_.
        Inr (sort_key gcIndex contribs)))"

text \<open>Each contribution is copied to its slot of the concatenation, and the digest is read as one number.\<close>

definition combineGroupViewContributions :: "libs \<Rightarrow> groupViewContribution list \<Rightarrow> point \<Rightarrow> int result" where
  "combineGroupViewContributions L contribs gpk =
     bindR (assertContributions contribs) (\<lambda>sorted0.
     (let digest = sha256 L (concat (map gcR sorted0)) in
      bindR (toReducedFr L (bytesBE digest)) (\<lambda>hFr.
      bindR (newFr L GROUP_VIEW_DOMAIN) (\<lambda>d.
      bindR (newFr L (fst gpk)) (\<lambda>x. bindR (newFr L (snd gpk)) (\<lambda>y.
      Poseidon_hash L [d, x, y, hFr]))))))"

section \<open>The view key\<close>

definition MS_VIEW_LABEL :: string where "MS_VIEW_LABEL = ''kakure.msView''"
definition MAX_VIEW_ROLL :: nat where "MAX_VIEW_ROLL = 256"

record groupViewKey =
  gvV :: int
  gvPub :: point
  gvRoll :: int

fun viewRoll :: "libs \<Rightarrow> int \<Rightarrow> point \<Rightarrow> int list \<Rightarrow> groupViewKey result" where
  "viewRoll L secret gpk [] = Inl (Error ''group view key: no even-y V'')"
| "viewRoll L secret gpk (roll # rolls) =
     bindR (newFr L (fst gpk)) (\<lambda>x. bindR (newFr L (snd gpk)) (\<lambda>y. bindR (newFr L roll) (\<lambda>r.
     bindR (Poseidon_hash L [x, y, r]) (\<lambda>salt.
     bindR (Kdf_derive L MS_VIEW_LABEL secret (Some salt)) (\<lambda>k.
     bindR (toBjjScalar L k) (\<lambda>v.
     (let V = publicKey L v in
      if isEvenY V then Inr \<lparr>gvV = v, gvPub = V, gvRoll = roll\<rparr> else viewRoll L secret gpk rolls)))))))"

text \<open>The deprecated derivation starts from the view key of the calling member's account.\<close>

definition deriveGroupViewKey :: "libs \<Rightarrow> int result \<Rightarrow> point \<Rightarrow> groupViewKey result" where
  "deriveGroupViewKey L getViewKey gpk =
     bindR getViewKey (\<lambda>skView. viewRoll L skView gpk (map int [0..<MAX_VIEW_ROLL]))"

definition deriveGroupViewKeyFromSecret :: "libs \<Rightarrow> int \<Rightarrow> point \<Rightarrow> groupViewKey result" where
  "deriveGroupViewKeyFromSecret L gvs gpk = viewRoll L gvs gpk (map int [0..<MAX_VIEW_ROLL])"

section \<open>Messages\<close>

definition ACTION_WITHDRAW :: int where
  "ACTION_WITHDRAW = 0x61c32c849432c5cb181c8aff85b048edfe720f4d14f9330a19892e6b3f2858e"
definition ACTION_TRANSFER :: int where
  "ACTION_TRANSFER = 0x1547047254eb19dda78a0a366ebb6a91dc073c5396d00f1d32a4afbea2ca1b5d"
definition ACTION_SPLIT :: int where
  "ACTION_SPLIT = 0xda9aecde0fd0366b1cc6070cd943bffd9cdc2bece458fe66a67881019937b18"
definition ACTION_JOIN :: int where
  "ACTION_JOIN = 0x8d2a589888a5903aeb21e14836db1b3d9adb31de0dd29fb5103978815f30223"

definition poseidonFields :: "libs \<Rightarrow> int list \<Rightarrow> int result" where
  "poseidonFields L fieldList = bindR (mapR (newFr L) fieldList) (Poseidon_hash L)"

definition multisigOwner :: "libs \<Rightarrow> point \<Rightarrow> int result" where
  "multisigOwner L gpk = poseidonFields L [fst gpk, snd gpk]"

definition msgWithdraw :: "libs \<Rightarrow> int \<Rightarrow> int \<Rightarrow> int \<Rightarrow> int \<Rightarrow> int \<Rightarrow> int \<Rightarrow> int \<Rightarrow> int result" where
  "msgWithdraw L root nullifier changeLeaf publicOut asset recipient intentHash =
     poseidonFields L [ACTION_WITHDRAW, root, nullifier, changeLeaf, publicOut, asset, recipient, intentHash]"

definition msgTransfer :: "libs \<Rightarrow> int \<Rightarrow> int \<Rightarrow> int \<Rightarrow> int \<Rightarrow> int \<Rightarrow> int \<Rightarrow> int result" where
  "msgTransfer L root nullifier memoLeaf memoTag changeLeaf asset =
     poseidonFields L [ACTION_TRANSFER, root, nullifier, memoLeaf, memoTag, changeLeaf, asset]"

definition msgSplit :: "libs \<Rightarrow> int \<Rightarrow> int \<Rightarrow> int \<Rightarrow> int \<Rightarrow> int \<Rightarrow> int result" where
  "msgSplit L root nullifier out1Leaf out2Leaf asset =
     poseidonFields L [ACTION_SPLIT, root, nullifier, out1Leaf, out2Leaf, asset]"

definition msgJoin :: "libs \<Rightarrow> int \<Rightarrow> int \<Rightarrow> int \<Rightarrow> int \<Rightarrow> int \<Rightarrow> int result" where
  "msgJoin L root nullifierA nullifierB outLeaf asset =
     poseidonFields L [ACTION_JOIN, root, nullifierA, nullifierB, outLeaf, asset]"

section \<open>The order of arrival does not matter\<close>

lemma contributions_iff:
  "assertContributions cs = Inr ds \<longleftrightarrow> cs \<noteq> [] \<and> list_all (\<lambda>c. length (gcR c) = GROUP_VIEW_CONTRIBUTION_BYTES) cs
    \<and> distinct (map gcIndex cs) \<and> ds = sort_key gcIndex cs"
proof -
  have loop: "(\<exists>u. foldR (\<lambda>seen c.
        if length (gcR c) \<noteq> GROUP_VIEW_CONTRIBUTION_BYTES then Inl (Error ''combineGroupViewContributions: contribution must be 32 bytes'')
        else if gcIndex c \<in> seen then Inl (Error ''combineGroupViewContributions: duplicate contribution'')
        else Inr (insert (gcIndex c) seen)) seen cs = Inr u)
    \<longleftrightarrow> list_all (\<lambda>c. length (gcR c) = GROUP_VIEW_CONTRIBUTION_BYTES) cs \<and> distinct (map gcIndex cs) \<and> gcIndex ` set cs \<inter> seen = {}" for seen
    by (induction cs arbitrary: seen) auto
  show ?thesis unfolding assertContributions_def using loop [of "{}"] by auto
qed

lemma sort_key_unique:
  assumes "mset xs = mset ys" "distinct (map f xs)"
  shows "sort_key f xs = sort_key f ys"
proof (rule map_sorted_distinct_set_unique [where f = f])
  have s: "set ys = set xs" using assms(1) by (metis set_mset_mset)
  have d: "distinct (map f ys)" using assms by (metis mset_map mset_eq_imp_distinct_iff)
  show "inj_on f (set (sort_key f xs) \<union> set (sort_key f ys))" using assms(2) s by (simp add: distinct_map)
  show "distinct (map f (sort_key f xs))" "distinct (map f (sort_key f ys))"
    using assms(2) d by (simp_all add: distinct_map)
  show "set (sort_key f xs) = set (sort_key f ys)" using s by simp
qed simp_all

lemma contributions_perm:
  assumes "mset cs = mset ds" "assertContributions cs = Inr s"
  shows "assertContributions ds = Inr s"
proof -
  have "list_all P cs = list_all P ds" for P using assms(1) by (metis list_all_iff set_mset_mset)
  moreover have "distinct (map gcIndex cs) = distinct (map gcIndex ds)"
    using assms(1) by (metis mset_map mset_eq_imp_distinct_iff)
  moreover have "cs = [] \<longleftrightarrow> ds = []" using assms(1) by (metis mset_zero_iff)
  ultimately show ?thesis using assms sort_key_unique [of cs ds gcIndex] unfolding contributions_iff by auto
qed

lemma viewRoll_even: "viewRoll L secret gpk rolls = Inr k \<Longrightarrow> gvPub k = publicKey L (gvV k) \<and> isEvenY (gvPub k) \<and> gvRoll k \<in> set rolls"
  by (induction rolls) (auto simp: Let_def split: if_splits)

text \<open>one treasury address for every member.  If one member combines the contributions it received and derives the
  group's view key, then every member that received the same contributions, in any order, derives the same secret and
  the same key; the key's public point has an even y-coordinate and belongs to its secret.\<close>

theorem group_view_key_canonical:
  assumes "mset cs = mset ds"
    and "bindR (combineGroupViewContributions L cs gpk) (\<lambda>gvs. deriveGroupViewKeyFromSecret L gvs gpk) = Inr k"
  shows "bindR (combineGroupViewContributions L ds gpk) (\<lambda>gvs. deriveGroupViewKeyFromSecret L gvs gpk) = Inr k
    \<and> gvPub k = publicKey L (gvV k) \<and> isEvenY (gvPub k)"
proof -
  obtain gvs where g: "combineGroupViewContributions L cs gpk = Inr gvs" "deriveGroupViewKeyFromSecret L gvs gpk = Inr k"
    using assms(2) by auto
  obtain s where "assertContributions cs = Inr s" using g(1) by (auto simp: combineGroupViewContributions_def)
  then have "combineGroupViewContributions L ds gpk = combineGroupViewContributions L cs gpk"
    using contributions_perm [OF assms(1)] by (simp add: combineGroupViewContributions_def)
  then show ?thesis using g viewRoll_even [OF g(2) [unfolded deriveGroupViewKeyFromSecret_def]] by auto
qed

definition toyContribution :: "int \<Rightarrow> groupViewContribution" where
  "toyContribution i = \<lparr>gcIndex = i, gcR = replicate 32 (nat i)\<rparr>"

theorem group_view_key_canonical_witness:
  "\<exists>k. bindR (combineGroupViewContributions toyLibs [toyContribution 2, toyContribution 1] (5, 2))
      (\<lambda>gvs. deriveGroupViewKeyFromSecret toyLibs gvs (5, 2)) = Inr k
    \<and> bindR (combineGroupViewContributions toyLibs [toyContribution 1, toyContribution 2] (5, 2))
      (\<lambda>gvs. deriveGroupViewKeyFromSecret toyLibs gvs (5, 2)) = Inr k \<and> isEvenY (gvPub k)"
proof -
  have "isOk (bindR (combineGroupViewContributions toyLibs [toyContribution 1, toyContribution 2] (5, 2))
      (\<lambda>gvs. deriveGroupViewKeyFromSecret toyLibs gvs (5, 2)))" by code_simp
  then obtain k where k: "bindR (combineGroupViewContributions toyLibs [toyContribution 1, toyContribution 2] (5, 2))
      (\<lambda>gvs. deriveGroupViewKeyFromSecret toyLibs gvs (5, 2)) = Inr k"
    by (cases "bindR (combineGroupViewContributions toyLibs [toyContribution 1, toyContribution 2] (5, 2))
      (\<lambda>gvs. deriveGroupViewKeyFromSecret toyLibs gvs (5, 2))") auto
  have "mset [toyContribution 1, toyContribution 2] = mset [toyContribution 2, toyContribution 1]" by simp
  from group_view_key_canonical [OF this k] show ?thesis using k by blast
qed

end
