(* ===== verification/Multisig.thy ===== *)
theory Multisig
  imports GroupKeys Preflight
begin

text \<open>
  \<open>frost/multisigNote.ts\<close>: the notes of a group.  The owner commitment of a note comes from the group's signing key,
  its tags from the shared view secret; a member reserves an index in its own family before it mints.  The lemmas show
  that what one member mints every member reads, and that a deposit's index is reserved before it is used.
\<close>

section \<open>Addresses and notes\<close>

text \<open>The scope of a member's counter.  \<open>Fr.toString()\<close> prints 64 hexadecimal digits.\<close>

definition depositScope :: "libs \<Rightarrow> int \<Rightarrow> int \<Rightarrow> string result" where
  "depositScope L v memberId =
     bindR (Poseidon_hash L [v]) (\<lambda>h. Inr (''msSelf:'' @ hex32 h @ '':'' @ showInt memberId))"

record multisigSelfMint =
  mmEph :: int
  mmEphPub :: point
  mmTag :: int
  mmJ :: int
  mmMemberId :: int
  mmIndex :: int

record multisigAddr =
  maOwnerCommitment :: int
  maGpk :: point
  maViewPub :: point
  maIndex :: int

definition assertEvenYViewPub :: "point \<Rightarrow> unit result" where
  "assertEvenYViewPub viewPub = guardR (isEvenY viewPub) (Error ''multisig view key V has a non-canonical odd y'')"

definition deriveMultisigIncomingKey :: "libs \<Rightarrow> int \<Rightarrow> int \<Rightarrow> int result" where
  "deriveMultisigIncomingKey L v index =
     bindR (newFr L index) (\<lambda>i. bindR (Kdf_derive L ''kakure.msInKey'' v (Some i)) (\<lambda>k. toBjjScalar L k))"

definition multisigIncomingKeyAt :: "libs \<Rightarrow> int \<Rightarrow> int \<Rightarrow> (int \<times> int \<times> point) result" where
  "multisigIncomingKeyAt L v startIndex =
     bindR (rollToEvenY L (deriveMultisigIncomingKey L v) startIndex) (\<lambda>canonical.
     bindR (deriveMultisigIncomingKey L v (caIndex canonical)) (\<lambda>viewKey.
     Inr (caIndex canonical, viewKey, caPub canonical)))"

definition multisigAddress :: "libs \<Rightarrow> point \<Rightarrow> int \<Rightarrow> int \<Rightarrow> multisigAddr result" where
  "multisigAddress L gpk v index =
     bindR (multisigOwner L gpk) (\<lambda>o'. bindR (newFr L o') (\<lambda>ownerCommitment.
     bindR (multisigIncomingKeyAt L v index) (\<lambda>(rolled, viewKey, viewPub).
     bindR (assertEvenYViewPub viewPub) (\<lambda>_.
     Inr \<lparr>maOwnerCommitment = ownerCommitment, maGpk = gpk, maViewPub = viewPub, maIndex = rolled\<rparr>))))"

record incomingMultisigNote =
  imOwner :: int
  imCek :: int
  imCekWrap :: int
  imTag :: int
  imEphPub :: point

definition buildIncomingMultisigNote :: "libs \<Rightarrow> int \<Rightarrow> point \<Rightarrow> point \<Rightarrow> point \<Rightarrow> incomingMultisigNote result" where
  "buildIncomingMultisigNote L eph compliancePk gpk viewPub =
     bindR (assertEvenYViewPub viewPub) (\<lambda>_.
     bindR (multisigOwner L gpk) (\<lambda>o'. bindR (newFr L o') (\<lambda>owner.
     bindR (deriveCek L eph compliancePk) (\<lambda>cek.
     bindR (wrapCek L cek eph viewPub) (\<lambda>cekWrap.
     bindR (newFr L (fst viewPub)) (\<lambda>tag.
     Inr \<lparr>imOwner = owner, imCek = cek, imCekWrap = cekWrap, imTag = tag, imEphPub = scalarBaseMul L eph\<rparr>))))))"

definition memberReadIncoming :: "libs \<Rightarrow> int \<Rightarrow> int \<Rightarrow> point \<Rightarrow> int result" where
  "memberReadIncoming L cekWrap v ephPub = unwrapCek L cekWrap v ephPub"

definition memberSalt :: "libs \<Rightarrow> int \<Rightarrow> int \<Rightarrow> int result" where
  "memberSalt L memberId j = bindR (newFr L memberId) (\<lambda>m. bindR (newFr L j) (\<lambda>jf. Poseidon_hash L [m, jf]))"

definition deriveSelfEph :: "libs \<Rightarrow> int \<Rightarrow> int \<Rightarrow> int \<Rightarrow> (int \<times> point) result" where
  "deriveSelfEph L v memberId j =
     bindR (memberSalt L memberId j) (\<lambda>salt.
     bindR (Kdf_derive L ''kakure.msSelfEph'' v (Some salt)) (\<lambda>k.
     bindR (toBjjScalar L k) (\<lambda>eph. Inr (eph, scalarBaseMul L eph))))"

record canonicalMultisigTag =
  cmEph :: int
  cmEphPub :: point
  cmJ :: int
  cmTag :: int

fun multisigTagLoop :: "libs \<Rightarrow> int \<Rightarrow> int \<Rightarrow> int list \<Rightarrow> canonicalMultisigTag result" where
  "multisigTagLoop L v memberId [] = Inl (Error ''multisig: no even-y self ephemeral'')"
| "multisigTagLoop L v memberId (j # js) =
     bindR (deriveSelfEph L v memberId j) (\<lambda>(eph, ephPub).
     if isEvenY ephPub
     then bindR (newFr L (fst ephPub)) (\<lambda>tag. Inr \<lparr>cmEph = eph, cmEphPub = ephPub, cmJ = j, cmTag = tag\<rparr>)
     else multisigTagLoop L v memberId js)"

definition canonicalMultisigSelfTag :: "libs \<Rightarrow> int \<Rightarrow> int \<Rightarrow> int \<Rightarrow> canonicalMultisigTag result" where
  "canonicalMultisigSelfTag L v memberId startJ =
     multisigTagLoop L v memberId (map (\<lambda>attempt. startJ + int attempt) [0..<MAX_INDEX_ROLL])"

record selfMultisigNote =
  smCek :: int
  smTag :: int
  smEphPub :: point

definition buildSelfNote :: "libs \<Rightarrow> nat set \<Rightarrow> authorizationState list \<Rightarrow> nat \<Rightarrow> point \<Rightarrow> int \<Rightarrow> historyObj \<Rightarrow> selfMintDomain \<Rightarrow> point
    \<Rightarrow> selfMultisigNote result \<times> authorizationState list" where
  "buildSelfNote L reg auths authorization compliancePk complianceVersion complianceHistory domain gpk =
     (case bindR (multisigOwner L gpk) (newFr L) of Inl e \<Rightarrow> (Inl e, auths)
      | Inr ownerCommitment \<Rightarrow>
        (case consumeSelfMints L reg auths [authorization] \<lparr>scOwnerCommitment = ownerCommitment, scCompliancePk = compliancePk,
            scComplianceVersion = complianceVersion, scComplianceHistory = complianceHistory, scChainId = sdChainId domain,
            scPoolAddress = sdPoolAddress domain, scDeploymentAnchor = sdDeploymentAnchor domain\<rparr> of
           (Inl e, auths') \<Rightarrow> (Inl e, auths')
         | (Inr mints, auths') \<Rightarrow>
           (let mint = mints ! 0; ephPub = scalarBaseMul L (auEph mint) in
            (if fst ephPub \<noteq> fst (auEphPub mint) \<or> snd ephPub \<noteq> snd (auEphPub mint)
             then Inl (Error ''multisig self mint witness is inconsistent: eph_pub does not match the ephemeral scalar'')
             else bindR (newFr L (fst ephPub)) (\<lambda>x.
               if auTag mint \<noteq> x then Inl (Error ''multisig self mint witness is inconsistent: tag is not eph_pub.x'')
               else bindR (deriveCek L (auEph mint) compliancePk) (\<lambda>cek. Inr \<lparr>smCek = cek, smTag = auTag mint, smEphPub = ephPub\<rparr>)),
             auths'))))"

definition memberReadSelf :: "libs \<Rightarrow> int \<Rightarrow> int \<Rightarrow> int \<Rightarrow> point \<Rightarrow> int result" where
  "memberReadSelf L v memberId j compliancePk =
     bindR (deriveSelfEph L v memberId j) (\<lambda>(eph, ephPub). deriveCek L eph compliancePk)"

text \<open>One attempt of the roll per unit of fuel; the source allows 256.  An odd-y index stays reserved.\<close>

fun depositLoop :: "libs \<Rightarrow> int \<Rightarrow> int \<Rightarrow> 's counterOps \<Rightarrow> string \<Rightarrow> point \<Rightarrow> nat \<Rightarrow> provenance list \<Rightarrow> 's
    \<Rightarrow> (nat \<times> multisigSelfMint) result \<times> provenance list \<times> 's" where
  "depositLoop L v memberId co scope gpk 0 pvs s = (Inl (Error ''multisig: no even-y self ephemeral''), pvs, s)"
| "depositLoop L v memberId co scope gpk (Suc n) pvs s =
     (case coReserve co s scope 1 of
        (Inl e, s') \<Rightarrow> (Inl e, pvs, s')
      | (Inr res, s') \<Rightarrow>
        (case deriveSelfEph L v memberId (resBase res) of Inl e \<Rightarrow> (Inl e, pvs, s')
         | Inr (eph, ephPub) \<Rightarrow>
           if \<not> isEvenY ephPub then depositLoop L v memberId co scope gpk n pvs s'
           else case bindR (commitReservation res (resBase res)) (\<lambda>_. bindR (newFr L (fst ephPub)) (\<lambda>tag.
                bindR (bindR (multisigOwner L gpk) (newFr L)) (\<lambda>owner. Inr (tag, owner)))) of
              Inl e \<Rightarrow> (Inl e, pvs, s')
            | Inr (tag, owner) \<Rightarrow>
              let c = \<lparr>mcEph = eph, mcEphPub = ephPub, mcTag = tag, mcIndex = resBase res,
                    mcMemberId = Some memberId, mcJ = Some (resBase res), mcTyped = True\<rparr>;
                  (obj, pvs') = markDerivedSelfMintCandidate pvs c owner
              in (Inr (obj, \<lparr>mmEph = eph, mmEphPub = ephPub, mmTag = tag, mmJ = resBase res, mmMemberId = memberId,
                    mmIndex = resBase res\<rparr>), pvs', s')))"

definition multisigDepositEph :: "libs \<Rightarrow> int \<Rightarrow> int \<Rightarrow> 's counterOps \<Rightarrow> point \<Rightarrow> provenance list \<Rightarrow> 's
    \<Rightarrow> (nat \<times> multisigSelfMint) result \<times> provenance list \<times> 's" where
  "multisigDepositEph L v memberId co gpk pvs s =
     (case depositScope L v memberId of Inl e \<Rightarrow> (Inl e, pvs, s)
      | Inr scope \<Rightarrow> depositLoop L v memberId co scope gpk MAX_INDEX_ROLL pvs s)"

end
