(* ===== verification/MultisigScan.thy ===== *)
theory MultisigScan
  imports Multisig
begin

text \<open>
  \<open>frost/multisigScan.ts\<close>: the scanner of a group.  It registers the self tags of every member and the tags of the
  issued addresses inside a lookahead window, matches the posted notes against them and opens what matches under the
  compliance key ring.  A method returns the scanner it leaves, because the fields already assigned stay assigned when a
  later step throws.  The lemmas show that a scanner only ever knows tags it derived, that it covers its window, and
  that it opens every note minted inside the window.
\<close>

section \<open>Scanner\<close>

definition DEFAULT_SELF_WINDOW :: int where "DEFAULT_SELF_WINDOW = 100"
definition MIN_LOOKAHEAD_WINDOW :: int where "MIN_LOOKAHEAD_WINDOW = 16"
definition MAX_SELF_ROLL :: int where "MAX_SELF_ROLL = 1000"
definition DEFAULT_INCOMING_WINDOW :: int where "DEFAULT_INCOMING_WINDOW = 20"

definition assertWindow :: "int \<Rightarrow> int result" where
  "assertWindow window =
     (if window < MIN_LOOKAHEAD_WINDOW then Inl (Error ''multisig lookahead must be an integer of at least 16'') else Inr window)"

record multisigNoteView =
  mvNote :: Note
  mvCommitment :: int
  mvLeafIndex :: int
  mvNullifier :: int
  mvIsIncoming :: bool
  mvMemberId :: "int option"
  mvDerivationJ :: "int option"

text \<open>A bare compliance key (\<open>Inl\<close>) is the single-version case; otherwise a ring (\<open>Inr\<close>).\<close>

record multisigScanConfig =
  mcfV :: int
  mcfGpk :: point
  mcfCompliancePk :: "point + ring"
  mcfMemberIds :: "int list"
  mcfSelfWindow :: "int option"
  mcfIncomingWindow :: "int option"

record selfSource =
  ssMemberId :: int
  ssJ :: int
  ssEph :: int

record incomingSource =
  isIndex :: int
  isViewKey :: int

record multisigScanner =
  msV :: int
  msComplianceKeys :: ring
  msUnopenable :: nat
  msExpectedOwner :: int
  msIncomingTags :: "int \<rightharpoonup> incomingSource"
  msSelfTags :: "int \<rightharpoonup> selfSource"
  msMemberIds :: "int list"
  msSelfScanJ :: "int \<rightharpoonup> int"
  msHighestMatchedSelf :: "int \<rightharpoonup> int"
  msIncomingScanIndex :: int
  msHighestMatchedIncoming :: int

definition coerceRing :: "point + ring \<Rightarrow> ring result" where
  "coerceRing source = (case source of Inl pk \<Rightarrow> ringOf pk None | Inr r \<Rightarrow> Inr r)"

section \<open>Lookahead\<close>

text \<open>The self tags of one member at the given indices; the flag is \<open>advanced\<close>.\<close>

fun registerSelfTags :: "libs \<Rightarrow> int \<Rightarrow> int \<Rightarrow> int list \<Rightarrow> bool \<Rightarrow> (int \<rightharpoonup> selfSource) \<Rightarrow> bool result \<times> (int \<rightharpoonup> selfSource)" where
  "registerSelfTags L v memberId [] advanced tags = (Inr advanced, tags)"
| "registerSelfTags L v memberId (j # js) advanced tags =
     (case deriveSelfEph L v memberId j of Inl e \<Rightarrow> (Inl e, tags)
      | Inr (eph, ephPub) \<Rightarrow>
        if isEvenY ephPub
        then (case tagKey L (fst ephPub) of Inl e \<Rightarrow> (Inl e, tags)
              | Inr key \<Rightarrow> registerSelfTags L v memberId js (advanced \<or> tags key = None)
                  (tags(key \<mapsto> \<lparr>ssMemberId = memberId, ssJ = j, ssEph = eph\<rparr>)))
        else registerSelfTags L v memberId js advanced tags)"

fun selfLookaheadLoop :: "libs \<Rightarrow> int \<Rightarrow> int list \<Rightarrow> bool \<Rightarrow> multisigScanner \<Rightarrow> bool result \<times> multisigScanner" where
  "selfLookaheadLoop L window [] advanced sc = (Inr advanced, sc)"
| "selfLookaheadLoop L window (memberId # ms) advanced sc =
     (let matched = orElse (msHighestMatchedSelf sc memberId) (- 1);
          target = matched + 1 + window;
          next = orElse (msSelfScanJ sc memberId) 0
      in case registerSelfTags L (msV sc) memberId [next..target - 1] advanced (msSelfTags sc) of
           (Inl e, tags) \<Rightarrow> (Inl e, sc\<lparr>msSelfTags := tags\<rparr>)
         | (Inr advanced', tags) \<Rightarrow>
           selfLookaheadLoop L window ms advanced'
             (sc\<lparr>msSelfTags := tags, msSelfScanJ := (msSelfScanJ sc)(memberId \<mapsto> max next target)\<rparr>))"

definition msEnsureSelfLookahead :: "libs \<Rightarrow> multisigScanner \<Rightarrow> int \<Rightarrow> bool result \<times> multisigScanner" where
  "msEnsureSelfLookahead L sc window =
     (case assertWindow window of Inl e \<Rightarrow> (Inl e, sc) | Inr w \<Rightarrow> selfLookaheadLoop L w (msMemberIds sc) False sc)"

text \<open>The roll starts at the index it is given.\<close>

lemma rollLoop_index:
  "rollLoop L derive start as = Inr c \<Longrightarrow> \<exists>pre a post k. as = pre @ a # post \<and> caIndex c = start + a
    \<and> derive (start + a) = Inr k \<and> caPub c = publicKey L k \<and> isEvenY (caPub c)
    \<and> (\<forall>b\<in>set pre. \<forall>k. derive (start + b) = Inr k \<longrightarrow> \<not> isEvenY (publicKey L k))"
proof (induction as)
  case (Cons a as)
  obtain k where k: "derive (start + a) = Inr k" using Cons.prems by (auto simp: Let_def)
  show ?case
  proof (cases "isEvenY (publicKey L k)")
    case True
    then show ?thesis using Cons.prems k by (auto simp: Let_def intro!: exI [of _ "[]"])
  next
    case False
    then obtain pre b post k' where "as = pre @ b # post" "caIndex c = start + b" "derive (start + b) = Inr k'"
      "caPub c = publicKey L k'" "isEvenY (caPub c)" "\<forall>b\<in>set pre. \<forall>k. derive (start + b) = Inr k \<longrightarrow> \<not> isEvenY (publicKey L k)"
      using Cons.prems k Cons.IH by (auto simp: Let_def)
    then show ?thesis using False k by (intro exI [of _ "a # pre"] exI [of _ b] exI [of _ post] exI [of _ k']) auto
  qed
qed simp

lemma incomingKeyAt_spec:
  assumes "multisigIncomingKeyAt L v start = Inr (index, viewKey, viewPub)"
  shows "start \<le> index" "deriveMultisigIncomingKey L v index = Inr viewKey" "viewPub = publicKey L viewKey" "isEvenY viewPub"
    "start \<le> i \<Longrightarrow> i < index \<Longrightarrow> deriveMultisigIncomingKey L v i = Inr k \<Longrightarrow> \<not> isEvenY (publicKey L k)"
proof -
  obtain c where c: "rollToEvenY L (deriveMultisigIncomingKey L v) start = Inr c" "index = caIndex c" "viewPub = caPub c"
    "deriveMultisigIncomingKey L v index = Inr viewKey"
    using assms by (auto simp: multisigIncomingKeyAt_def)
  obtain pre a post k' where r: "map int [0..<MAX_INDEX_ROLL] = pre @ a # post" "caIndex c = start + a"
    "deriveMultisigIncomingKey L v (start + a) = Inr k'" "caPub c = publicKey L k'" "isEvenY (caPub c)"
    "\<forall>b\<in>set pre. \<forall>k. deriveMultisigIncomingKey L v (start + b) = Inr k \<longrightarrow> \<not> isEvenY (publicKey L k)"
    using rollLoop_index [OF c(1) [unfolded rollToEvenY_def]] by blast
  have n: "length pre < MAX_INDEX_ROLL" using arg_cong [OF r(1), of length] by simp
  have at: "(pre @ a # post) ! i = int i" if "i < MAX_INDEX_ROLL" for i unfolding r(1) [symmetric] using that by simp
  have a: "a = int (length pre)" using at [OF n] by simp
  have pre: "b \<in> set pre" if "0 \<le> b" "b < a" for b
    using at [of "nat b"] that n a nth_mem [of "nat b" pre] by (simp add: nth_append nat_less_iff)
  show "start \<le> index" "deriveMultisigIncomingKey L v index = Inr viewKey" "viewPub = publicKey L viewKey" "isEvenY viewPub"
    using a c r by auto
  show "\<not> isEvenY (publicKey L k)" if "start \<le> i" "i < index" "deriveMultisigIncomingKey L v i = Inr k"
    using r(6) pre [of "i - start"] that c(2) r(2) by fastforce
qed

text \<open>The result carries \<open>incomingScanIndex\<close> and the tags, which are assigned as the loop goes.\<close>

function incomingLookaheadLoop :: "libs \<Rightarrow> int \<Rightarrow> int \<Rightarrow> int \<Rightarrow> bool \<Rightarrow> (int \<rightharpoonup> incomingSource)
    \<Rightarrow> bool result \<times> int \<times> (int \<rightharpoonup> incomingSource)" where
  "incomingLookaheadLoop L v target next advanced tags =
     (if next < target then
        (case multisigIncomingKeyAt L v next of Inl e \<Rightarrow> (Inl e, next, tags)
         | Inr (index, viewKey, viewPub) \<Rightarrow>
           (case tagKey L (fst viewPub) of Inl e \<Rightarrow> (Inl e, next, tags)
            | Inr key \<Rightarrow> incomingLookaheadLoop L v target (index + 1) (advanced \<or> tags key = None)
                (tags(key \<mapsto> \<lparr>isIndex = index, isViewKey = viewKey\<rparr>))))
      else (Inr advanced, next, tags))"
  by pat_completeness auto
termination
  by (relation "measure (\<lambda>(L, v, target, next, advanced, tags). nat (target - next))")
    (auto dest: incomingKeyAt_spec(1))

declare incomingLookaheadLoop.simps [simp del]

definition msEnsureIncomingLookahead :: "libs \<Rightarrow> multisigScanner \<Rightarrow> int \<Rightarrow> bool result \<times> multisigScanner" where
  "msEnsureIncomingLookahead L sc window =
     (case assertWindow window of Inl e \<Rightarrow> (Inl e, sc)
      | Inr w \<Rightarrow>
        (let target = msHighestMatchedIncoming sc + 1 + w;
             (r, next, tags) = incomingLookaheadLoop L (msV sc) target (msIncomingScanIndex sc) False (msIncomingTags sc)
         in (r, sc\<lparr>msIncomingScanIndex := next, msIncomingTags := tags\<rparr>)))"

section \<open>Creation\<close>

fun createSelf :: "libs \<Rightarrow> int \<Rightarrow> int \<Rightarrow> int list \<Rightarrow> (int \<rightharpoonup> selfSource) \<Rightarrow> (int \<rightharpoonup> int)
    \<Rightarrow> ((int \<rightharpoonup> selfSource) \<times> (int \<rightharpoonup> int)) result" where
  "createSelf L v limit [] tags scanJ = Inr (tags, scanJ)"
| "createSelf L v limit (memberId # ms) tags scanJ =
     (case registerSelfTags L v memberId [0..limit - 1] False tags of
        (Inl e, tags') \<Rightarrow> Inl e
      | (Inr u, tags') \<Rightarrow> createSelf L v limit ms tags' (scanJ(memberId \<mapsto> limit)))"

function createIncoming :: "libs \<Rightarrow> int \<Rightarrow> int \<Rightarrow> int \<Rightarrow> (int \<rightharpoonup> incomingSource) \<Rightarrow> (int \<rightharpoonup> incomingSource) result" where
  "createIncoming L v limit next tags =
     (if next < limit then
        (case multisigIncomingKeyAt L v next of Inl e \<Rightarrow> Inl e
         | Inr (index, viewKey, viewPub) \<Rightarrow>
           if limit \<le> index then Inr tags
           else (case tagKey L (fst viewPub) of Inl e \<Rightarrow> Inl e
             | Inr key \<Rightarrow> createIncoming L v limit (index + 1) (tags(key \<mapsto> \<lparr>isIndex = index, isViewKey = viewKey\<rparr>))))
      else Inr tags)"
  by pat_completeness auto
termination
  by (relation "measure (\<lambda>(L, v, limit, next, tags). nat (limit - next))") (auto dest: incomingKeyAt_spec(1))

declare createIncoming.simps [simp del]

definition createScanner :: "libs \<Rightarrow> multisigScanConfig \<Rightarrow> multisigScanner result" where
  "createScanner L cfg =
     bindR (multisigAddress L (mcfGpk cfg) (mcfV cfg) 0) (\<lambda>address.
     bindR (assertWindow (orElse (mcfSelfWindow cfg) DEFAULT_SELF_WINDOW)) (\<lambda>window.
     bindR (createSelf L (mcfV cfg) (min window MAX_SELF_ROLL) (mcfMemberIds cfg) Map.empty Map.empty) (\<lambda>(selfTags, selfScanJ).
     bindR (assertWindow (orElse (mcfIncomingWindow cfg) DEFAULT_INCOMING_WINDOW)) (\<lambda>incomingWindow.
     (let incomingLimit = min incomingWindow MAX_SELF_ROLL in
      bindR (createIncoming L (mcfV cfg) incomingLimit 0 Map.empty) (\<lambda>incomingTags.
      bindR (coerceRing (mcfCompliancePk cfg)) (\<lambda>complianceKeys.
      Inr \<lparr>msV = mcfV cfg, msComplianceKeys = complianceKeys, msUnopenable = 0, msExpectedOwner = maOwnerCommitment address,
        msIncomingTags = incomingTags, msSelfTags = selfTags, msMemberIds = mcfMemberIds cfg, msSelfScanJ = selfScanJ,
        msHighestMatchedSelf = Map.empty, msIncomingScanIndex = incomingLimit, msHighestMatchedIncoming = - 1\<rparr>)))))))"

section \<open>Reading notes\<close>

definition msRecover :: "libs \<Rightarrow> int \<Rightarrow> unprocessedEvent \<Rightarrow> int \<Rightarrow> bool \<Rightarrow> int option \<Rightarrow> int option \<Rightarrow> multisigNoteView option result" where
  "msRecover L expectedOwner ev cek isIncoming memberId derivationJ =
     bindR (mapR (toFrText L) (evPackedCiphertext ev)) (\<lambda>ciphertext.
     bindR (demDecrypt L cek ciphertext) (\<lambda>plaintext.
     bindR (computePsi L cek) (\<lambda>psi.
     let n = \<lparr>noteVersion = plaintext ! 0, assetId = plaintext ! 1, noteType = plaintext ! 2,
           conditionsHash = plaintext ! 3, noteValue = plaintext ! 4, noteOwner = plaintext ! 5,
           notePsi = psi, noteParents = plaintext ! 6\<rparr> in
     bindR (toFrText L (evCommitment ev)) (\<lambda>commitment.
     bindR (leaf L n) (\<lambda>rebuilt.
     if rebuilt \<noteq> commitment then Inr None
     else if noteType n \<noteq> NOTE_TYPE_MULTISIG then Inr None
     else if noteOwner n \<noteq> expectedOwner then Inr None
     else if ASSET_MODULUS \<le> assetId n then Inr None
     else bindR (newFr L (evLeafIndex ev)) (\<lambda>li. bindR (computeNullifier L psi li) (\<lambda>nullifier.
       Inr (Some \<lparr>mvNote = n, mvCommitment = commitment, mvLeafIndex = evLeafIndex ev, mvNullifier = nullifier,
         mvIsIncoming = isIncoming, mvMemberId = memberId, mvDerivationJ = derivationJ\<rparr>))))))))"

definition readIncoming :: "libs \<Rightarrow> multisigScanner \<Rightarrow> unprocessedEvent \<Rightarrow> multisigNoteView option result \<times> multisigScanner" where
  "readIncoming L sc ev =
     (case (evTag ev, evCekWrap ev) of
        (Some tag, Some cekWrap) \<Rightarrow>
          (case tagKey L tag of Inl e \<Rightarrow> (Inl e, sc)
           | Inr key \<Rightarrow>
             (case msIncomingTags sc key of None \<Rightarrow> (Inr None, sc)
              | Some source \<Rightarrow>
                let sc1 = (if msHighestMatchedIncoming sc < isIndex source
                           then sc\<lparr>msHighestMatchedIncoming := isIndex source\<rparr> else sc) in
                (bindR (recoverEvenY (evEphemeralX ev)) (\<lambda>ephPub.
                 bindR (newFr L cekWrap) (\<lambda>wrap.
                 bindR (memberReadIncoming L wrap (isViewKey source) ephPub) (\<lambda>cek.
                 msRecover L (msExpectedOwner sc1) ev cek True None (Some (isIndex source))))), sc1)))
      | _ \<Rightarrow> (Inr None, sc))"

text \<open>The loop over the candidate keys.  A failing \<open>#recover\<close> is caught; a failing \<open>deriveCek\<close> is not.\<close>

fun tryEpochs :: "libs \<Rightarrow> int \<Rightarrow> unprocessedEvent \<Rightarrow> selfSource \<Rightarrow> complianceKeyEpoch list \<Rightarrow> multisigNoteView option result" where
  "tryEpochs L expectedOwner ev source [] = Inr None"
| "tryEpochs L expectedOwner ev source (epoch # rest) =
     bindR (deriveCek L (ssEph source) (epPk epoch)) (\<lambda>cek.
     case msRecover L expectedOwner ev cek False (Some (ssMemberId source)) (Some (ssJ source)) of
       Inr (Some view) \<Rightarrow> Inr (Some view)
     | _ \<Rightarrow> tryEpochs L expectedOwner ev source rest)"

definition readSelf :: "libs \<Rightarrow> multisigScanner \<Rightarrow> unprocessedEvent \<Rightarrow> multisigNoteView option result \<times> multisigScanner" where
  "readSelf L sc ev =
     (case tagKey L (evEphemeralX ev) of Inl e \<Rightarrow> (Inl e, sc)
      | Inr key \<Rightarrow>
        (case msSelfTags sc key of None \<Rightarrow> (Inr None, sc)
         | Some source \<Rightarrow>
           let sc1 = (if orElse (msHighestMatchedSelf sc (ssMemberId source)) (- 1) < ssJ source
                      then sc\<lparr>msHighestMatchedSelf := (msHighestMatchedSelf sc)(ssMemberId source \<mapsto> ssJ source)\<rparr> else sc) in
           case tryEpochs L (msExpectedOwner sc1) ev source (candidatesFor (msComplianceKeys sc1) (Some (evBlockNumber ev))) of
             Inl e \<Rightarrow> (Inl e, sc1)
           | Inr (Some view) \<Rightarrow> (Inr (Some view), sc1)
           | Inr None \<Rightarrow> (Inr None, sc1\<lparr>msUnopenable := msUnopenable sc1 + 1\<rparr>)))"

definition readNote :: "libs \<Rightarrow> multisigScanner \<Rightarrow> unprocessedEvent \<Rightarrow> multisigNoteView option \<times> multisigScanner" where
  "readNote L sc ev =
     (case (case evType ev of NEW_MEMO \<Rightarrow> readIncoming L sc ev | NEW_NOTE \<Rightarrow> readSelf L sc ev) of
        (Inl e, sc') \<Rightarrow> (None, sc')
      | (Inr view, sc') \<Rightarrow> (view, sc'))"

definition selfNoteEvent :: "int \<Rightarrow> int \<Rightarrow> point \<Rightarrow> int list \<Rightarrow> unprocessedEvent" where
  "selfNoteEvent leafIndex commitment ephPub packedCiphertext =
     \<lparr>evType = NEW_NOTE, evBlockNumber = 0, evTxHash = '''', evLeafIndex = leafIndex, evCommitment = hex32 commitment,
      evEphemeralX = fst ephPub, evPackedCiphertext = map hex32 packedCiphertext, evTag = None, evCekWrap = None\<rparr>"

definition assertSelfNoteDiscoverable :: "libs \<Rightarrow> multisigScanner \<Rightarrow> int \<Rightarrow> int \<Rightarrow> point \<Rightarrow> int list
    \<Rightarrow> multisigNoteView result \<times> multisigScanner" where
  "assertSelfNoteDiscoverable L sc leafIndex commitment ephPub packedCiphertext =
     (case readNote L sc (selfNoteEvent leafIndex commitment ephPub packedCiphertext) of
        (None, sc') \<Rightarrow> (Inl (Error ''multisig self note is not discoverable by the group's own scanner: refusing to broadcast''), sc')
      | (Some view, sc') \<Rightarrow> (Inr view, sc'))"

definition incomingNoteEvent :: "int \<Rightarrow> int \<Rightarrow> point \<Rightarrow> int \<Rightarrow> int \<Rightarrow> int list \<Rightarrow> unprocessedEvent" where
  "incomingNoteEvent leafIndex commitment ephPub tag cekWrap packedCiphertext =
     \<lparr>evType = NEW_MEMO, evBlockNumber = 0, evTxHash = '''', evLeafIndex = leafIndex, evCommitment = hex32 commitment,
      evEphemeralX = fst ephPub, evPackedCiphertext = map hex32 packedCiphertext, evTag = Some tag, evCekWrap = Some cekWrap\<rparr>"

section \<open>What a scanner knows\<close>

text \<open>A registered self tag is that of an even-y ephemeral of one of the members; a registered incoming tag is that
  of an even-y receiving key of the group.\<close>

definition selfTagOk :: "libs \<Rightarrow> int \<Rightarrow> int set \<Rightarrow> int \<Rightarrow> selfSource \<Rightarrow> bool" where
  "selfTagOk L v members key s \<longleftrightarrow> ssMemberId s \<in> members
     \<and> (\<exists>p. deriveSelfEph L v (ssMemberId s) (ssJ s) = Inr (ssEph s, p) \<and> isEvenY p \<and> tagKey L (fst p) = Inr key)"

definition incomingTagOk :: "libs \<Rightarrow> int \<Rightarrow> int \<Rightarrow> incomingSource \<Rightarrow> bool" where
  "incomingTagOk L v key s \<longleftrightarrow> deriveMultisigIncomingKey L v (isIndex s) = Inr (isViewKey s)
     \<and> isEvenY (publicKey L (isViewKey s)) \<and> tagKey L (fst (publicKey L (isViewKey s))) = Inr key"

text \<open>Every even-y index of the half-open interval is registered.\<close>

definition selfCoveredIn :: "libs \<Rightarrow> int \<Rightarrow> int \<Rightarrow> int set \<Rightarrow> (int \<rightharpoonup> selfSource) \<Rightarrow> bool" where
  "selfCoveredIn L v memberId js tags \<longleftrightarrow> (\<forall>j\<in>js. \<forall>eph p key. deriveSelfEph L v memberId j = Inr (eph, p) \<longrightarrow> isEvenY p
     \<longrightarrow> tagKey L (fst p) = Inr key \<longrightarrow> key \<in> dom tags)"

definition incomingCoveredIn :: "libs \<Rightarrow> int \<Rightarrow> int set \<Rightarrow> (int \<rightharpoonup> incomingSource) \<Rightarrow> bool" where
  "incomingCoveredIn L v js tags \<longleftrightarrow> (\<forall>j\<in>js. \<forall>k key. deriveMultisigIncomingKey L v j = Inr k \<longrightarrow> isEvenY (publicKey L k)
     \<longrightarrow> tagKey L (fst (publicKey L k)) = Inr key \<longrightarrow> key \<in> dom tags)"

definition scannerOk :: "libs \<Rightarrow> multisigScanner \<Rightarrow> bool" where
  "scannerOk L sc \<longleftrightarrow>
     (\<forall>key s. msSelfTags sc key = Some s \<longrightarrow> selfTagOk L (msV sc) (set (msMemberIds sc)) key s)
   \<and> (\<forall>key s. msIncomingTags sc key = Some s \<longrightarrow> incomingTagOk L (msV sc) key s)
   \<and> (\<forall>m n. msSelfScanJ sc m = Some n \<longrightarrow> selfCoveredIn L (msV sc) m {0..<n} (msSelfTags sc))
   \<and> incomingCoveredIn L (msV sc) {0..<msIncomingScanIndex sc} (msIncomingTags sc)"

lemma registerSelfTags_ok:
  assumes "registerSelfTags L v m js adv tags = (r, tags')" "m \<in> M" "\<forall>key s. tags key = Some s \<longrightarrow> selfTagOk L v M key s"
  shows "(\<forall>key s. tags' key = Some s \<longrightarrow> selfTagOk L v M key s) \<and> dom tags \<subseteq> dom tags'
    \<and> (isOk r \<longrightarrow> selfCoveredIn L v m (set js) tags')"
  using assms
proof (induction js arbitrary: adv tags)
  case Nil
  then show ?case by (auto simp: selfCoveredIn_def)
next
  case (Cons j js)
  show ?case
  proof (cases "deriveSelfEph L v m j")
    case (Inl e)
    then show ?thesis using Cons.prems by auto
  next
    case (Inr q)
    obtain eph p where q: "deriveSelfEph L v m j = Inr (eph, p)" using Inr by (cases q) auto
    show ?thesis
    proof (cases "isEvenY p")
      case False
      then have "registerSelfTags L v m js adv tags = (r, tags')" using Cons.prems(1) q by simp
      from Cons.IH [OF this Cons.prems(2,3)] show ?thesis using q False by (auto simp: selfCoveredIn_def)
    next
      case True
      show ?thesis
      proof (cases "tagKey L (fst p)")
        case (Inl e)
        then show ?thesis using Cons.prems q True by auto
      next
        case (Inr key)
        let ?s = "\<lparr>ssMemberId = m, ssJ = j, ssEph = eph\<rparr>"
        have rec: "registerSelfTags L v m js (adv \<or> tags key = None) (tags(key \<mapsto> ?s)) = (r, tags')"
          using Cons.prems(1) q True Inr by simp
        have "selfTagOk L v M key ?s" using q True Inr Cons.prems(2) by (simp add: selfTagOk_def)
        then have "\<forall>k s. (tags(key \<mapsto> ?s)) k = Some s \<longrightarrow> selfTagOk L v M k s" using Cons.prems(3) by simp
        from Cons.IH [OF rec Cons.prems(2) this]
        have ih: "\<forall>key s. tags' key = Some s \<longrightarrow> selfTagOk L v M key s" "insert key (dom tags) \<subseteq> dom tags'"
          "isOk r \<Longrightarrow> selfCoveredIn L v m (set js) tags'" by (simp_all del: fun_upd_apply)
        then have "isOk r \<Longrightarrow> selfCoveredIn L v m (insert j (set js)) tags'" using q Inr by (auto simp: selfCoveredIn_def)
        then show ?thesis using ih(1,2) by simp
      qed
    qed
  qed
qed

lemma selfCoveredIn_mono: "selfCoveredIn L v m js tags \<Longrightarrow> dom tags \<subseteq> dom tags' \<Longrightarrow> js' \<subseteq> js \<Longrightarrow> selfCoveredIn L v m js' tags'"
  unfolding selfCoveredIn_def by blast

lemma selfCoveredIn_Un: "selfCoveredIn L v m (A \<union> B) tags \<longleftrightarrow> selfCoveredIn L v m A tags \<and> selfCoveredIn L v m B tags"
  unfolding selfCoveredIn_def by blast

lemma selfLookaheadLoop_ok:
  assumes "selfLookaheadLoop L w ms adv sc = (r, sc')" "scannerOk L sc" "set ms \<subseteq> set (msMemberIds sc)"
  shows "scannerOk L sc' \<and> msMemberIds sc' = msMemberIds sc \<and> msHighestMatchedSelf sc' = msHighestMatchedSelf sc
    \<and> msV sc' = msV sc \<and> msExpectedOwner sc' = msExpectedOwner sc \<and> msComplianceKeys sc' = msComplianceKeys sc
    \<and> (\<forall>m. orElse (msSelfScanJ sc m) 0 \<le> orElse (msSelfScanJ sc' m) 0)
    \<and> (isOk r \<longrightarrow> (\<forall>m\<in>set ms. orElse (msHighestMatchedSelf sc m) (- 1) + 1 + w \<le> orElse (msSelfScanJ sc' m) 0))"
  using assms
proof (induction ms arbitrary: adv sc)
  case Nil
  then show ?case by auto
next
  case (Cons m ms)
  let ?next = "orElse (msSelfScanJ sc m) 0"
  let ?target = "orElse (msHighestMatchedSelf sc m) (- 1) + 1 + w"
  obtain q tags where q: "registerSelfTags L (msV sc) m [?next..?target - 1] adv (msSelfTags sc) = (q, tags)"
    by (cases "registerSelfTags L (msV sc) m [?next..?target - 1] adv (msSelfTags sc)")
  have m: "m \<in> set (msMemberIds sc)" using Cons.prems(3) by simp
  have t: "\<forall>key s. tags key = Some s \<longrightarrow> selfTagOk L (msV sc) (set (msMemberIds sc)) key s" "dom (msSelfTags sc) \<subseteq> dom tags"
    "isOk q \<Longrightarrow> selfCoveredIn L (msV sc) m {?next..?target - 1} tags"
    using registerSelfTags_ok [OF q m] Cons.prems(2) by (auto simp: scannerOk_def)
  have cov: "selfCoveredIn L (msV sc) m' {0..<n} tags" if "msSelfScanJ sc m' = Some n" for m' n
    using Cons.prems(2) that selfCoveredIn_mono [OF _ t(2) subset_refl] by (simp add: scannerOk_def)
  show ?case
  proof (cases q)
    case (Inl e)
    then have sc': "r = Inl e" "sc' = sc\<lparr>msSelfTags := tags\<rparr>" using Cons.prems(1) q by (auto simp: Let_def)
    have "scannerOk L sc'" using Cons.prems(2) t(1) cov by (simp add: sc' scannerOk_def)
    then show ?thesis by (simp add: sc')
  next
    case (Inr adv')
    let ?sc1 = "sc\<lparr>msSelfTags := tags, msSelfScanJ := (msSelfScanJ sc)(m \<mapsto> max ?next ?target)\<rparr>"
    have rec: "selfLookaheadLoop L w ms adv' ?sc1 = (r, sc')" using Cons.prems(1) q Inr by (simp add: Let_def)
    have "selfCoveredIn L (msV sc) m ({0..<?next} \<union> {?next..?target - 1}) tags"
      unfolding selfCoveredIn_Un using t(3) Inr cov [of m] by (cases "msSelfScanJ sc m") (auto simp: selfCoveredIn_def)
    then have "selfCoveredIn L (msV sc) m {0..<max ?next ?target} tags" by (rule selfCoveredIn_mono) auto
    then have "scannerOk L ?sc1" using Cons.prems(2) t(1) cov by (simp add: scannerOk_def)
    from Cons.IH [OF rec this] Cons.prems(3)
    have ih: "scannerOk L sc' \<and> msMemberIds sc' = msMemberIds sc \<and> msHighestMatchedSelf sc' = msHighestMatchedSelf sc
      \<and> msV sc' = msV sc \<and> msExpectedOwner sc' = msExpectedOwner sc \<and> msComplianceKeys sc' = msComplianceKeys sc"
      "\<And>m'. orElse (msSelfScanJ ?sc1 m') 0 \<le> orElse (msSelfScanJ sc' m') 0"
      "isOk r \<Longrightarrow> \<forall>m\<in>set ms. orElse (msHighestMatchedSelf sc m) (- 1) + 1 + w \<le> orElse (msSelfScanJ sc' m) 0" by auto
    have mono: "orElse (msSelfScanJ sc m') 0 \<le> orElse (msSelfScanJ sc' m') 0" for m'
      using ih(2) [of m'] by (cases "m' = m") auto
    have "?target \<le> orElse (msSelfScanJ sc' m) 0" using ih(2) [of m] by simp
    then show ?thesis using ih(1,3) mono by simp
  qed
qed

lemma incomingCoveredInI:
  "(\<And>j k key. j \<in> js \<Longrightarrow> deriveMultisigIncomingKey L v j = Inr k \<Longrightarrow> isEvenY (publicKey L k)
     \<Longrightarrow> tagKey L (fst (publicKey L k)) = Inr key \<Longrightarrow> key \<in> dom tags) \<Longrightarrow> incomingCoveredIn L v js tags"
  unfolding incomingCoveredIn_def by blast

lemma incomingCoveredInD:
  "incomingCoveredIn L v js tags \<Longrightarrow> j \<in> js \<Longrightarrow> deriveMultisigIncomingKey L v j = Inr k \<Longrightarrow> isEvenY (publicKey L k)
     \<Longrightarrow> tagKey L (fst (publicKey L k)) = Inr key \<Longrightarrow> key \<in> dom tags"
  unfolding incomingCoveredIn_def by blast

lemma incomingCoveredIn_insert:
  assumes "incomingCoveredIn L v {0..<next} tags" "multisigIncomingKeyAt L v next = Inr (index, viewKey, viewPub)"
    "tagKey L (fst viewPub) = Inr key"
  shows "incomingCoveredIn L v {0..<index + 1} (tags(key \<mapsto> s))"
proof -
  note spec = incomingKeyAt_spec [OF assms(2)]
  have "key' \<in> dom (tags(key \<mapsto> s))" if "0 \<le> j" "j < index + 1" "deriveMultisigIncomingKey L v j = Inr k" "isEvenY (publicKey L k)"
    "tagKey L (fst (publicKey L k)) = Inr key'" for j k key'
  proof -
    have "j < next \<or> next \<le> j \<and> j < index \<or> j = index" using that(2) by linarith
    then consider "j < next" | "next \<le> j" "j < index" | "j = index" by blast
    then show ?thesis
    proof cases
      case 1
      then show ?thesis using assms(1) that by (auto simp: incomingCoveredIn_def)
    next
      case 2
      then show ?thesis using spec(5) that by blast
    next
      case 3
      then show ?thesis using spec(2,3) that assms(3) by simp
    qed
  qed
  then show ?thesis by (intro incomingCoveredInI) (metis atLeastLessThan_iff)
qed

lemma incomingTagOk_at:
  assumes "multisigIncomingKeyAt L v next = Inr (index, viewKey, viewPub)" "tagKey L (fst viewPub) = Inr key"
  shows "incomingTagOk L v key \<lparr>isIndex = index, isViewKey = viewKey\<rparr>"
  using incomingKeyAt_spec(2-4) [OF assms(1)] assms(2) by (simp add: incomingTagOk_def)

lemma incomingLookaheadLoop_ok:
  assumes "incomingLookaheadLoop L v target next adv tags = (r, next', tags')"
    "\<forall>key s. tags key = Some s \<longrightarrow> incomingTagOk L v key s" "incomingCoveredIn L v {0..<next} tags"
  shows "(\<forall>key s. tags' key = Some s \<longrightarrow> incomingTagOk L v key s) \<and> incomingCoveredIn L v {0..<next'} tags'
    \<and> next \<le> next' \<and> (isOk r \<longrightarrow> target \<le> next')"
  using assms
proof (induction L v target "next" adv tags rule: incomingLookaheadLoop.induct)
  case (1 L v target "next" adv tags)
  show ?case
  proof (cases "next < target")
    case False
    then show ?thesis using 1 by (auto simp: incomingLookaheadLoop.simps)
  next
    case True
    show ?thesis
    proof (cases "multisigIncomingKeyAt L v next")
      case (Inl e)
      then show ?thesis using 1 True by (auto simp: incomingLookaheadLoop.simps)
    next
      case (Inr q)
      then obtain index viewKey viewPub where q: "multisigIncomingKeyAt L v next = Inr (index, viewKey, viewPub)" by (cases q) auto
      show ?thesis
      proof (cases "tagKey L (fst viewPub)")
        case (Inl e)
        then show ?thesis using 1 True q by (auto simp: incomingLookaheadLoop.simps)
      next
        case (Inr key)
        let ?tags = "tags(key \<mapsto> \<lparr>isIndex = index, isViewKey = viewKey\<rparr>)"
        have rec: "incomingLookaheadLoop L v target (index + 1) (adv \<or> tags key = None) ?tags = (r, next', tags')"
          using "1.prems"(1) True q Inr by (simp add: incomingLookaheadLoop.simps [of L v target "next"])
        have "\<forall>k s. ?tags k = Some s \<longrightarrow> incomingTagOk L v k s" using "1.prems"(2) incomingTagOk_at [OF q Inr] by simp
        from "1.IH" [OF True q refl refl Inr rec this incomingCoveredIn_insert [OF "1.prems"(3) q Inr]]
        show ?thesis using incomingKeyAt_spec(1) [OF q] by auto
      qed
    qed
  qed
qed

lemma createSelf_ok:
  assumes "createSelf L v limit ms tags scanJ = Inr (tags', scanJ')" "set ms \<subseteq> M"
    "\<forall>key s. tags key = Some s \<longrightarrow> selfTagOk L v M key s" "\<forall>m n. scanJ m = Some n \<longrightarrow> selfCoveredIn L v m {0..<n} tags"
  shows "(\<forall>key s. tags' key = Some s \<longrightarrow> selfTagOk L v M key s) \<and> (\<forall>m n. scanJ' m = Some n \<longrightarrow> selfCoveredIn L v m {0..<n} tags')
    \<and> (\<forall>m. scanJ' m = (if m \<in> set ms then Some limit else scanJ m))"
  using assms
proof (induction ms arbitrary: tags scanJ)
  case (Cons m ms)
  obtain q tags1 where q: "registerSelfTags L v m [0..limit - 1] False tags = (q, tags1)" "isOk q"
    "createSelf L v limit ms tags1 (scanJ(m \<mapsto> limit)) = Inr (tags', scanJ')"
    using Cons.prems(1) by (auto split: sum.splits prod.splits)
  have m: "m \<in> M" using Cons.prems(2) by simp
  have t: "\<forall>key s. tags1 key = Some s \<longrightarrow> selfTagOk L v M key s" "dom tags \<subseteq> dom tags1"
    "selfCoveredIn L v m {0..limit - 1} tags1"
    using registerSelfTags_ok [OF q(1) m Cons.prems(3)] q(2) by auto
  have "selfCoveredIn L v m {0..<limit} tags1" by (rule selfCoveredIn_mono [OF t(3) subset_refl]) auto
  moreover have "selfCoveredIn L v m' {0..<n} tags1" if "scanJ m' = Some n" for m' n
    using Cons.prems(4) that selfCoveredIn_mono [OF _ t(2) subset_refl] by blast
  ultimately have "\<forall>m' n. (scanJ(m \<mapsto> limit)) m' = Some n \<longrightarrow> selfCoveredIn L v m' {0..<n} tags1" by simp
  from Cons.IH [OF q(3) _ t(1) this] show ?case using Cons.prems(2) by auto
qed simp

lemma createIncoming_ok:
  assumes "createIncoming L v limit next tags = Inr tags'"
    "\<forall>key s. tags key = Some s \<longrightarrow> incomingTagOk L v key s" "incomingCoveredIn L v {0..<next} tags" "next \<le> limit"
  shows "(\<forall>key s. tags' key = Some s \<longrightarrow> incomingTagOk L v key s) \<and> incomingCoveredIn L v {0..<limit} tags'"
  using assms
proof (induction L v limit "next" tags rule: createIncoming.induct)
  case (1 L v limit "next" tags)
  show ?case
  proof (cases "next < limit")
    case False
    then show ?thesis using "1.prems" by (auto simp: createIncoming.simps)
  next
    case True
    obtain index viewKey viewPub where q: "multisigIncomingKeyAt L v next = Inr (index, viewKey, viewPub)"
      using "1.prems"(1) True by (auto simp: createIncoming.simps [of L v limit "next"] split: sum.splits)
    show ?thesis
    proof (cases "limit \<le> index")
      case True
      then have "tags' = tags" using "1.prems"(1) q \<open>next < limit\<close> by (simp add: createIncoming.simps [of L v limit "next"])
      moreover have "incomingCoveredIn L v {0..<limit} tags"
      proof (rule incomingCoveredInI)
        fix j k key
        assume j: "j \<in> {0..<limit}" "deriveMultisigIncomingKey L v j = Inr k" "isEvenY (publicKey L k)" "tagKey L (fst (publicKey L k)) = Inr key"
        then have "j < next" using incomingKeyAt_spec(5) [OF q, of j k] True by fastforce
        then show "key \<in> dom tags" using incomingCoveredInD [OF "1.prems"(3), of j k key] j by simp
      qed
      ultimately show ?thesis using "1.prems"(2) by simp
    next
      case False
      then obtain key where key: "tagKey L (fst viewPub) = Inr key"
        using "1.prems"(1) q \<open>next < limit\<close> by (auto simp: createIncoming.simps [of L v limit "next"] split: sum.splits)
      let ?tags = "tags(key \<mapsto> \<lparr>isIndex = index, isViewKey = viewKey\<rparr>)"
      have rec: "createIncoming L v limit (index + 1) ?tags = Inr tags'"
        using "1.prems"(1) q key False \<open>next < limit\<close> by (simp add: createIncoming.simps [of L v limit "next"])
      have "\<forall>k s. ?tags k = Some s \<longrightarrow> incomingTagOk L v k s" using "1.prems"(2) incomingTagOk_at [OF q key] by simp
      from "1.IH" [OF True q refl refl False key rec this incomingCoveredIn_insert [OF "1.prems"(3) q key]]
      show ?thesis using False by simp
    qed
  qed
qed

lemma createScanner_ok:
  assumes "createScanner L cfg = Inr sc"
  shows "scannerOk L sc" "msV sc = mcfV cfg" "msMemberIds sc = mcfMemberIds cfg"
    "bindR (multisigOwner L (mcfGpk cfg)) (newFr L) = Inr (msExpectedOwner sc)" "coerceRing (mcfCompliancePk cfg) = Inr (msComplianceKeys sc)"
    "m \<in> set (mcfMemberIds cfg) \<Longrightarrow> msSelfScanJ sc m = Some (min (orElse (mcfSelfWindow cfg) DEFAULT_SELF_WINDOW) MAX_SELF_ROLL)"
proof -
  obtain a w st sj iw it ck where c: "multisigAddress L (mcfGpk cfg) (mcfV cfg) 0 = Inr a"
    "assertWindow (orElse (mcfSelfWindow cfg) DEFAULT_SELF_WINDOW) = Inr w"
    "createSelf L (mcfV cfg) (min w MAX_SELF_ROLL) (mcfMemberIds cfg) Map.empty Map.empty = Inr (st, sj)"
    "assertWindow (orElse (mcfIncomingWindow cfg) DEFAULT_INCOMING_WINDOW) = Inr iw"
    "createIncoming L (mcfV cfg) (min iw MAX_SELF_ROLL) 0 Map.empty = Inr it"
    "coerceRing (mcfCompliancePk cfg) = Inr ck"
    and sc: "sc = \<lparr>msV = mcfV cfg, msComplianceKeys = ck, msUnopenable = 0, msExpectedOwner = maOwnerCommitment a,
        msIncomingTags = it, msSelfTags = st, msMemberIds = mcfMemberIds cfg, msSelfScanJ = sj,
        msHighestMatchedSelf = Map.empty, msIncomingScanIndex = min iw MAX_SELF_ROLL, msHighestMatchedIncoming = - 1\<rparr>"
    using assms by (auto simp: createScanner_def Let_def)
  have w: "w = orElse (mcfSelfWindow cfg) DEFAULT_SELF_WINDOW" "0 \<le> min iw MAX_SELF_ROLL"
    using c(2,4) by (auto simp: assertWindow_def MIN_LOOKAHEAD_WINDOW_def MAX_SELF_ROLL_def split: if_splits)
  have self: "(\<forall>key s. st key = Some s \<longrightarrow> selfTagOk L (mcfV cfg) (set (mcfMemberIds cfg)) key s)
    \<and> (\<forall>m n. sj m = Some n \<longrightarrow> selfCoveredIn L (mcfV cfg) m {0..<n} st)
    \<and> (\<forall>m. sj m = (if m \<in> set (mcfMemberIds cfg) then Some (min w MAX_SELF_ROLL) else None))"
    using createSelf_ok [OF c(3) subset_refl] by simp
  have inc: "(\<forall>key s. it key = Some s \<longrightarrow> incomingTagOk L (mcfV cfg) key s) \<and> incomingCoveredIn L (mcfV cfg) {0..<min iw MAX_SELF_ROLL} it"
    by (rule createIncoming_ok [OF c(5)]) (use w in \<open>simp_all add: incomingCoveredIn_def\<close>)
  show "scannerOk L sc" unfolding sc scannerOk_def using self inc by simp
  show "msV sc = mcfV cfg" "msMemberIds sc = mcfMemberIds cfg" by (simp_all add: sc)
  show "bindR (multisigOwner L (mcfGpk cfg)) (newFr L) = Inr (msExpectedOwner sc)" unfolding sc using c(1) by (auto simp: multisigAddress_def)
  show "coerceRing (mcfCompliancePk cfg) = Inr (msComplianceKeys sc)" by (simp add: sc c(6))
  show "m \<in> set (mcfMemberIds cfg) \<Longrightarrow> msSelfScanJ sc m = Some (min (orElse (mcfSelfWindow cfg) DEFAULT_SELF_WINDOW) MAX_SELF_ROLL)"
    unfolding sc using self w(1) by simp
qed

section \<open>Reachable scanners\<close>

text \<open>A scanner that was created from a configuration and then used in any order: lookaheads, which may fail half-way,
  and notes read.\<close>

inductive msReachable :: "libs \<Rightarrow> multisigScanConfig \<Rightarrow> multisigScanner \<Rightarrow> bool" for L cfg where
  created: "createScanner L cfg = Inr sc \<Longrightarrow> msReachable L cfg sc"
| selfLookahead: "msReachable L cfg sc \<Longrightarrow> msEnsureSelfLookahead L sc w = (r, sc') \<Longrightarrow> msReachable L cfg sc'"
| incomingLookahead: "msReachable L cfg sc \<Longrightarrow> msEnsureIncomingLookahead L sc w = (r, sc') \<Longrightarrow> msReachable L cfg sc'"
| noteRead: "msReachable L cfg sc \<Longrightarrow> readNote L sc ev = (view, sc') \<Longrightarrow> msReachable L cfg sc'"

text \<open>Reading a note changes the matched indices and the count of unopenable notes only.\<close>

definition sameKnowledge :: "multisigScanner \<Rightarrow> multisigScanner \<Rightarrow> bool" where
  "sameKnowledge sc sc' \<longleftrightarrow> msV sc' = msV sc \<and> msComplianceKeys sc' = msComplianceKeys sc \<and> msExpectedOwner sc' = msExpectedOwner sc
     \<and> msIncomingTags sc' = msIncomingTags sc \<and> msSelfTags sc' = msSelfTags sc \<and> msMemberIds sc' = msMemberIds sc
     \<and> msSelfScanJ sc' = msSelfScanJ sc \<and> msIncomingScanIndex sc' = msIncomingScanIndex sc"

lemma readSelf_keeps: "readSelf L sc ev = (r, sc') \<Longrightarrow> sameKnowledge sc sc'"
  by (auto simp: readSelf_def sameKnowledge_def Let_def split: sum.splits option.splits if_splits)

lemma readIncoming_keeps: "readIncoming L sc ev = (r, sc') \<Longrightarrow> sameKnowledge sc sc'"
  by (auto simp: readIncoming_def sameKnowledge_def Let_def split: sum.splits option.splits if_splits)

lemma readNote_keeps: "readNote L sc ev = (view, sc') \<Longrightarrow> sameKnowledge sc sc'"
  by (auto simp: readNote_def split: sum.splits prod.splits eventType.splits dest: readSelf_keeps readIncoming_keeps)

lemma scannerOk_cong: "sameKnowledge sc sc' \<Longrightarrow> scannerOk L sc' = scannerOk L sc"
  by (simp add: scannerOk_def sameKnowledge_def)

lemma msEnsureSelfLookahead_ok:
  assumes "msEnsureSelfLookahead L sc w = (r, sc')" "scannerOk L sc"
  shows "scannerOk L sc'" "msMemberIds sc' = msMemberIds sc" "msV sc' = msV sc" "msExpectedOwner sc' = msExpectedOwner sc"
    "msComplianceKeys sc' = msComplianceKeys sc" "orElse (msSelfScanJ sc m) 0 \<le> orElse (msSelfScanJ sc' m) 0"
    "isOk r \<Longrightarrow> m \<in> set (msMemberIds sc) \<Longrightarrow> orElse (msHighestMatchedSelf sc m) (- 1) + 1 + w \<le> orElse (msSelfScanJ sc' m) 0"
  using assms selfLookaheadLoop_ok [of L w "msMemberIds sc" False sc r sc']
  by (auto simp: msEnsureSelfLookahead_def assertWindow_def split: if_splits)

lemma msEnsureIncomingLookahead_ok:
  assumes "msEnsureIncomingLookahead L sc w = (r, sc')" "scannerOk L sc"
  shows "scannerOk L sc' \<and> msMemberIds sc' = msMemberIds sc \<and> msV sc' = msV sc \<and> msExpectedOwner sc' = msExpectedOwner sc
    \<and> msComplianceKeys sc' = msComplianceKeys sc \<and> msSelfScanJ sc' = msSelfScanJ sc \<and> msIncomingScanIndex sc \<le> msIncomingScanIndex sc'
    \<and> (isOk r \<longrightarrow> msHighestMatchedIncoming sc + 1 + w \<le> msIncomingScanIndex sc')"
proof (cases "assertWindow w")
  case (Inl e)
  then show ?thesis using assms by (auto simp: msEnsureIncomingLookahead_def)
next
  case (Inr w')
  then have [simp]: "w' = w" by (auto simp: assertWindow_def split: if_splits)
  obtain q nx tags where q: "incomingLookaheadLoop L (msV sc) (msHighestMatchedIncoming sc + 1 + w) (msIncomingScanIndex sc) False (msIncomingTags sc) = (q, nx, tags)"
    by (cases "incomingLookaheadLoop L (msV sc) (msHighestMatchedIncoming sc + 1 + w) (msIncomingScanIndex sc) False (msIncomingTags sc)") auto
  have sc': "r = q" "sc' = sc\<lparr>msIncomingScanIndex := nx, msIncomingTags := tags\<rparr>"
    using assms(1) Inr q by (auto simp: msEnsureIncomingLookahead_def)
  have "(\<forall>key s. tags key = Some s \<longrightarrow> incomingTagOk L (msV sc) key s) \<and> incomingCoveredIn L (msV sc) {0..<nx} tags
    \<and> msIncomingScanIndex sc \<le> nx \<and> (isOk q \<longrightarrow> msHighestMatchedIncoming sc + 1 + w \<le> nx)"
    by (rule incomingLookaheadLoop_ok [OF q]) (use assms(2) in \<open>simp_all add: scannerOk_def\<close>)
  then show ?thesis using assms(2) by (simp add: sc' scannerOk_def)
qed

lemma reachable_ok:
  assumes "msReachable L cfg sc"
  shows "scannerOk L sc \<and> msV sc = mcfV cfg \<and> msMemberIds sc = mcfMemberIds cfg
    \<and> bindR (multisigOwner L (mcfGpk cfg)) (newFr L) = Inr (msExpectedOwner sc) \<and> coerceRing (mcfCompliancePk cfg) = Inr (msComplianceKeys sc)
    \<and> (\<forall>m\<in>set (mcfMemberIds cfg). min (orElse (mcfSelfWindow cfg) DEFAULT_SELF_WINDOW) MAX_SELF_ROLL \<le> orElse (msSelfScanJ sc m) 0)"
  using assms
proof induction
  case (created sc)
  then show ?case using createScanner_ok [OF created] by auto
next
  case (selfLookahead sc w r sc')
  then have ok: "scannerOk L sc" by blast
  note step = msEnsureSelfLookahead_ok [OF selfLookahead(2) ok]
  have "\<forall>m\<in>set (mcfMemberIds cfg). min (orElse (mcfSelfWindow cfg) DEFAULT_SELF_WINDOW) MAX_SELF_ROLL \<le> orElse (msSelfScanJ sc' m) 0"
    using selfLookahead.IH step(6) order_trans by blast
  then show ?case using selfLookahead.IH step(1-5) by simp
next
  case (incomingLookahead sc w r sc')
  then have ok: "scannerOk L sc" by blast
  show ?case using incomingLookahead.IH msEnsureIncomingLookahead_ok [OF incomingLookahead(2) ok] by simp
next
  case (noteRead sc ev view sc')
  have same: "sameKnowledge sc sc'" by (rule readNote_keeps [OF noteRead(2)])
  show ?case using noteRead.IH scannerOk_cong [OF same, of L] same by (simp add: sameKnowledge_def)
qed

section \<open>Properties\<close>

text \<open>What the notes a scanner reports have in common.\<close>

lemma msRecover_sound:
  assumes "msRecover L owner ev cek inc mid j = Inr (Some view)"
  shows "noteOwner (mvNote view) = owner \<and> noteType (mvNote view) = NOTE_TYPE_MULTISIG \<and> assetId (mvNote view) < ASSET_MODULUS
    \<and> leaf L (mvNote view) = Inr (mvCommitment view) \<and> toFrText L (evCommitment ev) = Inr (mvCommitment view)
    \<and> mvLeafIndex view = evLeafIndex ev \<and> getNullifierHash L (notePsi (mvNote view)) (evLeafIndex ev) = Inr (mvNullifier view)
    \<and> mvIsIncoming view = inc \<and> mvMemberId view = mid \<and> mvDerivationJ view = j"
proof -
  obtain ct pt psi where d: "mapR (toFrText L) (evPackedCiphertext ev) = Inr ct" "demDecrypt L cek ct = Inr pt" "computePsi L cek = Inr psi"
    using assms by (auto simp: msRecover_def)
  define n where "n = \<lparr>noteVersion = pt ! 0, assetId = pt ! 1, noteType = pt ! 2, conditionsHash = pt ! 3, noteValue = pt ! 4,
    noteOwner = pt ! 5, notePsi = psi, noteParents = pt ! 6\<rparr>"
  have psi: "notePsi n = psi" by (simp add: n_def)
  obtain c li nf where r: "toFrText L (evCommitment ev) = Inr c" "leaf L n = Inr c" "noteType n = NOTE_TYPE_MULTISIG"
    "noteOwner n = owner" "assetId n < ASSET_MODULUS" "newFr L (evLeafIndex ev) = Inr li" "computeNullifier L psi li = Inr nf"
    and v: "view = \<lparr>mvNote = n, mvCommitment = c, mvLeafIndex = evLeafIndex ev, mvNullifier = nf, mvIsIncoming = inc,
        mvMemberId = mid, mvDerivationJ = j\<rparr>"
    using assms unfolding msRecover_def d bindR.simps Let_def n_def [symmetric] by (auto split: if_splits)
  show ?thesis unfolding v using r psi by (simp add: getNullifierHash_def)
qed

lemma tryEpochs_sound:
  assumes "tryEpochs L owner ev source es = Inr (Some view)"
  shows "\<exists>cek e. e \<in> set es \<and> deriveCek L (ssEph source) (epPk e) = Inr cek
    \<and> msRecover L owner ev cek False (Some (ssMemberId source)) (Some (ssJ source)) = Inr (Some view)"
  using assms
proof (induction es)
  case (Cons e es)
  obtain cek where cek: "deriveCek L (ssEph source) (epPk e) = Inr cek" using Cons.prems by auto
  let ?r = "msRecover L owner ev cek False (Some (ssMemberId source)) (Some (ssJ source))"
  consider "?r = Inr (Some view)" | "tryEpochs L owner ev source es = Inr (Some view)"
    using Cons.prems cek by (cases ?r) (auto split: option.splits)
  then show ?case
  proof cases
    case 1
    then show ?thesis using cek by (intro exI [of _ cek] exI [of _ e]) simp
  next
    case 2
    from Cons.IH [OF this] show ?thesis by auto
  qed
qed simp

lemma readNote_sound:
  assumes "scannerOk L sc" "readNote L sc ev = (Some view, sc')"
  shows "noteOwner (mvNote view) = msExpectedOwner sc \<and> noteType (mvNote view) = NOTE_TYPE_MULTISIG \<and> assetId (mvNote view) < ASSET_MODULUS
    \<and> leaf L (mvNote view) = Inr (mvCommitment view) \<and> toFrText L (evCommitment ev) = Inr (mvCommitment view)
    \<and> mvLeafIndex view = evLeafIndex ev \<and> getNullifierHash L (notePsi (mvNote view)) (evLeafIndex ev) = Inr (mvNullifier view)
    \<and> (\<not> mvIsIncoming view \<longrightarrow> (\<exists>m\<in>set (msMemberIds sc). \<exists>j eph p. mvMemberId view = Some m \<and> mvDerivationJ view = Some j
        \<and> deriveSelfEph L (msV sc) m j = Inr (eph, p) \<and> isEvenY p \<and> tagKey L (fst p) = tagKey L (evEphemeralX ev)))"
proof (cases "evType ev")
  case NEW_MEMO
  then have "readIncoming L sc ev = (Inr (Some view), sc')" using assms(2) by (auto simp: readNote_def split: sum.splits prod.splits)
  then obtain cek j where "msRecover L (msExpectedOwner sc) ev cek True None (Some j) = Inr (Some view)"
    by (auto simp: readIncoming_def Let_def split: sum.splits option.splits if_splits)
  from msRecover_sound [OF this] show ?thesis by simp
next
  case NEW_NOTE
  then have r: "readSelf L sc ev = (Inr (Some view), sc')" using assms(2) by (auto simp: readNote_def split: sum.splits prod.splits)
  then obtain key s where k: "tagKey L (evEphemeralX ev) = Inr key" "msSelfTags sc key = Some s"
    by (auto simp: readSelf_def split: sum.splits option.splits)
  then obtain es where "tryEpochs L (msExpectedOwner sc) ev s es = Inr (Some view)"
    using r by (auto simp: readSelf_def Let_def split: sum.splits option.splits if_splits)
  from tryEpochs_sound [OF this] obtain cek
    where rec: "msRecover L (msExpectedOwner sc) ev cek False (Some (ssMemberId s)) (Some (ssJ s)) = Inr (Some view)" by blast
  have "selfTagOk L (msV sc) (set (msMemberIds sc)) key s" using assms(1) k(2) by (simp add: scannerOk_def)
  then obtain p where "ssMemberId s \<in> set (msMemberIds sc)" "deriveSelfEph L (msV sc) (ssMemberId s) (ssJ s) = Inr (ssEph s, p)" "isEvenY p"
    "tagKey L (fst p) = Inr key" by (auto simp: selfTagOk_def)
  then show ?thesis using msRecover_sound [OF rec] k(1) by metis
qed

text \<open>A point of the subgroup is determined by its x-coordinate: the other point of the curve with the same
  x-coordinate, \<open>(x, -y)\<close>, is outside the prime-order subgroup.\<close>

definition xDetermines :: "libs \<Rightarrow> bool" where
  "xDetermines L \<longleftrightarrow> (\<forall>p q. inSubgroup L p \<longrightarrow> inSubgroup L q \<longrightarrow> fst p = fst q \<longrightarrow> p = q)"

lemma toBjjScalar_range:
  assumes "bjj_laws L" "fr_laws L" "toBjjScalar L x = Inr y"
  shows "0 \<le> y" "y < subOrder L"
proof -
  have "y = x smod subOrder L" "isFr (x smod subOrder L)" using assms fr_laws_newD [of L] by (auto simp: toBjjScalar_def)
  moreover have "\<bar>x smod subOrder L\<bar> < subOrder L"
    using bjj_laws_order_pos [OF assms(1)] by (simp add: signed_modulo_int_def abs_mult_sgn abs_mult)
  ultimately show "0 \<le> y" "y < subOrder L" by (auto simp: isFr_def)
qed

lemma deriveSelfEph_range:
  assumes "bjj_laws L" "fr_laws L" "deriveSelfEph L v m j = Inr (eph, p)"
  shows "0 \<le> eph" "eph < subOrder L" "p = scalarBaseMul L eph" "inSubgroup L p"
proof -
  obtain k where k: "toBjjScalar L k = Inr eph" "p = scalarBaseMul L eph" using assms(3) by (auto simp: deriveSelfEph_def)
  then show "0 \<le> eph" "eph < subOrder L" "p = scalarBaseMul L eph" using toBjjScalar_range [OF assms(1,2)] by blast+
  then show "inSubgroup L p" using publicKey_mem [OF assms(1)] publicKey_scalarMul [OF assms(1)] by force
qed

text \<open>Two self ephemerals with the same tag are the same scalar.\<close>

lemma selfEph_tag_inj:
  assumes L: "bjj_laws L" "fr_laws L" "xDetermines L" and "deriveSelfEph L v m j = Inr (eph, p)" "deriveSelfEph L v m' j' = Inr (eph', p')"
    and "tagKey L (fst p) = Inr key" "tagKey L (fst p') = Inr key"
  shows "eph' = eph \<and> p' = p"
proof -
  note r = deriveSelfEph_range [OF L(1,2) assms(4)] and r' = deriveSelfEph_range [OF L(1,2) assms(5)]
  have "fst p = fst p'" using assms(6,7) fr_laws_newD [OF L(2)] unfolding tagKey_def by metis
  then have "p = p'" using L(3) r(4) r'(4) unfolding xDetermines_def by blast
  then have "eph mod subOrder L = eph' mod subOrder L" using bjj_base_inj [OF L(1)] r(3) r'(3) by metis
  then show ?thesis using r r' \<open>p = p'\<close> by simp
qed

lemma msRecover_posted:
  assumes L: "fr_laws L" and f: "list_all isFr (noteFields n)" and psi: "notePsi n = poseidon2Hash L [cek, PSI_DOMAIN]"
    and ct: "demEncrypt L cek (noteFields n) = Inr ct" and lf: "leaf L n = Inr c" "isFr c"
    and ty: "noteType n = NOTE_TYPE_MULTISIG" "noteOwner n = owner" "assetId n < ASSET_MODULUS" and li: "isFr (evLeafIndex ev)"
    and ev: "evPackedCiphertext ev = map hex32 ct" "evCommitment ev = hex32 c"
  shows "msRecover L owner ev cek inc mid j
    = Inr (Some \<lparr>mvNote = n, mvCommitment = c, mvLeafIndex = evLeafIndex ev, mvNullifier = poseidon2Hash L [notePsi n, evLeafIndex ev],
        mvIsIncoming = inc, mvMemberId = mid, mvDerivationJ = j\<rparr>)"
proof -
  note len = noteFields_length [of n]
  have ct': "list_all isFr ct" using demEncrypt_ok [OF L len] ct L by (auto simp: list_all_iff)
  have dec: "demDecrypt L cek ct = Inr (noteFields n)" using dem_inverts [OF L len f, of cek] ct by simp
  have n: "\<lparr>noteVersion = noteVersion n, assetId = assetId n, noteType = noteType n, conditionsHash = conditionsHash n,
      noteValue = noteValue n, noteOwner = noteOwner n, notePsi = notePsi n, noteParents = noteParents n\<rparr> = n" by simp
  show ?thesis
    unfolding msRecover_def ev mapR_hex32 [OF L ct'] bindR.simps dec computePsi_ok [OF L] Let_def noteFields_nth psi [symmetric] n lf(1)
      toFrText_hex32 [OF L lf(2)]
    using ty li L by (simp add: computeNullifier_def Poseidon_hash_def)
qed

text \<open>A deposit is minted at an even-y index that the counter handed out.\<close>

lemma depositLoop_derived:
  assumes "depositLoop L v m co scope gpk n pvs s = (Inr (obj, mint), pvs', s')"
  shows "deriveSelfEph L v m (mmJ mint) = Inr (mmEph mint, mmEphPub mint) \<and> isEvenY (mmEphPub mint)
    \<and> newFr L (fst (mmEphPub mint)) = Inr (mmTag mint) \<and> mmMemberId mint = m \<and> mmIndex mint = mmJ mint"
  using assms
proof (induction n arbitrary: s)
  case (Suc n)
  obtain res s1 where r: "coReserve co s scope 1 = (Inr res, s1)"
    using Suc.prems by (auto split: prod.splits sum.splits)
  obtain eph p where e: "deriveSelfEph L v m (resBase res) = Inr (eph, p)"
    using Suc.prems r by (auto split: sum.splits)
  show ?case
  proof (cases "isEvenY p")
    case False
    then have "depositLoop L v m co scope gpk n pvs s1 = (Inr (obj, mint), pvs', s')" using Suc.prems r e by simp
    then show ?thesis by (rule Suc.IH)
  next
    case True
    then obtain tag owner where "newFr L (fst p) = Inr tag"
      "mint = \<lparr>mmEph = eph, mmEphPub = p, mmTag = tag, mmJ = resBase res, mmMemberId = m, mmIndex = resBase res\<rparr>"
      using Suc.prems r e by (auto simp: Let_def split: sum.splits prod.splits)
    then show ?thesis using e True by simp
  qed
qed simp

definition msPassedOver :: "libs \<Rightarrow> int \<Rightarrow> int \<Rightarrow> unprocessedEvent \<Rightarrow> complianceKeyEpoch \<Rightarrow> bool" where
  "msPassedOver L owner eph ev e \<longleftrightarrow>
     (case deriveCek L eph (epPk e) of Inl x \<Rightarrow> False
      | Inr cek \<Rightarrow> (case msRecover L owner ev cek False None None of Inr (Some view) \<Rightarrow> False | _ \<Rightarrow> True))"

lemma msRecover_none_iff:
  "(\<exists>view. msRecover L owner ev cek inc m j = Inr (Some view)) \<longleftrightarrow> (\<exists>view. msRecover L owner ev cek inc' m' j' = Inr (Some view))"
proof -
  have "\<exists>view. msRecover L owner ev cek inc' m' j' = Inr (Some view)" if "msRecover L owner ev cek inc m j = Inr (Some view)" for view inc m j inc' m' j'
    using that by (auto simp: msRecover_def Let_def split: if_splits)
  then show ?thesis by blast
qed

lemma tryEpochs_skip:
  assumes "list_all (msPassedOver L owner (ssEph s) ev) pre"
  shows "tryEpochs L owner ev s (pre @ rest) = tryEpochs L owner ev s rest"
  using assms
proof (induction pre)
  case (Cons e pre)
  obtain cek where cek: "deriveCek L (ssEph s) (epPk e) = Inr cek" "\<nexists>view. msRecover L owner ev cek False None None = Inr (Some view)"
    using Cons.prems by (auto simp: msPassedOver_def split: sum.splits option.splits)
  then have "\<nexists>view. msRecover L owner ev cek False (Some (ssMemberId s)) (Some (ssJ s)) = Inr (Some view)"
    using msRecover_none_iff by blast
  then show ?case using Cons cek(1) by (auto split: sum.splits option.splits)
qed simp

lemma deposit_read:
  assumes L: "bjj_laws L" "fr_laws L" "xDetermines L"
    and sc: "msReachable L cfg sc0" "msEnsureSelfLookahead L sc0 w = (Inr advanced, sc)" and m: "m \<in> set (mcfMemberIds cfg)"
    and dep: "multisigDepositEph L (mcfV cfg) m co (mcfGpk cfg) pvs s = (Inr (obj, mint), pvs', s')"
    and j: "0 \<le> mmJ mint" "mmJ mint \<le> orElse (msHighestMatchedSelf sc0 m) (- 1) + w"
    and n: "list_all isFr (noteFields n)" "noteValue n < 2 ^ 128" "notePsi n = poseidon2Hash L [cek, PSI_DOMAIN]"
      "noteType n = NOTE_TYPE_MULTISIG" "assetId n < 2 ^ 160" "bindR (multisigOwner L (mcfGpk cfg)) (newFr L) = Inr (noteOwner n)"
      "leaf L n = Inr c"
    and cek: "deriveCek L (mmEph mint) (epPk e) = Inr cek" "demEncrypt L cek (noteFields n) = Inr ct"
    and ev: "ev = selfNoteEvent li c (mmEphPub mint) ct" "isFr li"
    and cand: "candidatesFor (msComplianceKeys sc) (Some 0) = pre @ e # post"
      "list_all (msPassedOver L (noteOwner n) (mmEph mint) ev) pre"
  shows "\<exists>view sc' m' j'. readNote L sc ev = (Some view, sc') \<and> assertSelfNoteDiscoverable L sc li c (mmEphPub mint) ct = (Inr view, sc')
    \<and> mvNote view = n \<and> mvCommitment view = c \<and> mvLeafIndex view = li \<and> mvNullifier view = poseidon2Hash L [notePsi n, li]
    \<and> \<not> mvIsIncoming view \<and> mvMemberId view = Some m' \<and> mvDerivationJ view = Some j'
    \<and> deriveSelfEph L (mcfV cfg) m' j' = Inr (mmEph mint, mmEphPub mint) \<and> msUnopenable sc' = msUnopenable sc"
proof -
  have ok0: "scannerOk L sc0" "msV sc0 = mcfV cfg" "msMemberIds sc0 = mcfMemberIds cfg" using reachable_ok [OF sc(1)] by auto
  have ok: "scannerOk L sc" "msV sc = mcfV cfg" "bindR (multisigOwner L (mcfGpk cfg)) (newFr L) = Inr (msExpectedOwner sc)"
    using reachable_ok [OF msReachable.selfLookahead [OF sc]] by auto
  have owner: "msExpectedOwner sc = noteOwner n" using ok(3) n(6) by simp
  obtain scope where "depositLoop L (mcfV cfg) m co scope (mcfGpk cfg) MAX_INDEX_ROLL pvs s = (Inr (obj, mint), pvs', s')"
    using dep by (auto simp: multisigDepositEph_def split: sum.splits)
  note d = depositLoop_derived [OF this]
  have key: "tagKey L (fst (mmEphPub mint)) = Inr (mmTag mint)" using d by (simp add: tagKey_def)
  have "mmJ mint < orElse (msSelfScanJ sc m) 0"
    using msEnsureSelfLookahead_ok(7) [OF sc(2) ok0(1), of m] m ok0(3) j(2) by simp
  then obtain N where "msSelfScanJ sc m = Some N" "mmJ mint < N" using j(1) by (cases "msSelfScanJ sc m") auto
  then have "mmTag mint \<in> dom (msSelfTags sc)"
    using ok(1,2) j(1) d key unfolding scannerOk_def selfCoveredIn_def by (metis atLeastLessThan_iff)
  then obtain src where src: "msSelfTags sc (mmTag mint) = Some src" by blast
  then have "selfTagOk L (mcfV cfg) (set (msMemberIds sc)) (mmTag mint) src" using ok(1,2) by (auto simp: scannerOk_def)
  then obtain p where p: "deriveSelfEph L (mcfV cfg) (ssMemberId src) (ssJ src) = Inr (ssEph src, p)" "tagKey L (fst p) = Inr (mmTag mint)"
    by (auto simp: selfTagOk_def)
  have same: "ssEph src = mmEph mint" "p = mmEphPub mint"
    using selfEph_tag_inj [OF L _ p(1) key p(2)] d by blast+
  have "0 \<le> noteValue n" using n(1) by (simp add: noteFields_def isFr_def)
  then have c: "isFr c" using n(2,7) leaf_ok [OF L(2), of n] fr_laws_hash [OF L(2)] by auto
  let ?view = "\<lparr>mvNote = n, mvCommitment = c, mvLeafIndex = li, mvNullifier = poseidon2Hash L [notePsi n, li],
      mvIsIncoming = False, mvMemberId = Some (ssMemberId src), mvDerivationJ = Some (ssJ src)\<rparr>"
  have rec: "msRecover L (noteOwner n) ev cek False (Some (ssMemberId src)) (Some (ssJ src)) = Inr (Some ?view)"
    using msRecover_posted [OF L(2) n(1,3) cek(2) n(7) c n(4) refl, of ev] n(5) ev by (simp add: ASSET_MODULUS_def selfNoteEvent_def)
  have opened: "tryEpochs L (noteOwner n) ev src (candidatesFor (msComplianceKeys sc) (Some (evBlockNumber ev))) = Inr (Some ?view)"
    using tryEpochs_skip [of L "noteOwner n" src ev pre "e # post"] cand cek(1) rec same(1) ev(1) by (simp add: selfNoteEvent_def)
  have x: "evEphemeralX ev = fst (mmEphPub mint)" by (simp add: ev(1) selfNoteEvent_def)
  obtain sc' where sc': "readSelf L sc ev = (Inr (Some ?view), sc')" "msUnopenable sc' = msUnopenable sc"
  proof (cases "orElse (msHighestMatchedSelf sc (ssMemberId src)) (- 1) < ssJ src")
    case True
    then show ?thesis using that key src opened owner x by (simp add: readSelf_def)
  next
    case False
    then show ?thesis using that key src opened owner x by (simp add: readSelf_def)
  qed
  then have r: "readNote L sc ev = (Some ?view, sc')" by (simp add: readNote_def ev(1) selfNoteEvent_def)
  then have "assertSelfNoteDiscoverable L sc li c (mmEphPub mint) ct = (Inr ?view, sc')"
    by (simp add: assertSelfNoteDiscoverable_def ev(1))
  then show ?thesis using r sc'(2) p(1) same
    by (intro exI [of _ ?view] exI [of _ sc'] exI [of _ "ssMemberId src"] exI [of _ "ssJ src"]) simp
qed

lemma toyLibs_xDetermines: "xDetermines toyLibs"
  unfolding xDetermines_def toy_mem by metis

definition toyScanConfig :: multisigScanConfig where
  "toyScanConfig = \<lparr>mcfV = 3, mcfGpk = (5, 2), mcfCompliancePk = Inl (5, 2), mcfMemberIds = [1], mcfSelfWindow = Some 16,
     mcfIncomingWindow = Some 16\<rparr>"

definition toyGroupNote :: Note where
  "toyGroupNote = \<lparr>noteVersion = 1, assetId = 9, noteType = 1, conditionsHash = 0, noteValue = 50, noteOwner = 6, notePsi = 55,
     noteParents = 0\<rparr>"

definition toyDeposit :: multisigSelfMint where
  "toyDeposit = \<lparr>mmEph = 4, mmEphPub = (4, 2), mmTag = 4, mmJ = 0, mmMemberId = 1, mmIndex = 0\<rparr>"

definition toyGroupEvent :: unprocessedEvent where
  "toyGroupEvent = selfNoteEvent 6 37 (mmEphPub toyDeposit) [3, 12, 5, 5, 56, 13, 8]"

definition toyCounter :: "inMemoryStore counterOps" where
  "toyCounter = \<lparr>coReserve = imReserve, coHigh = imHigh\<rparr>"

text \<open>The hypotheses of the two properties below on a concrete scanner and deposit.\<close>

lemma toy_scanner:
  obtains sc0 adv sc where "createScanner toyLibs toyScanConfig = Inr sc0" "msEnsureSelfLookahead toyLibs sc0 16 = (Inr adv, sc)"
    "msReachable toyLibs toyScanConfig sc0" "orElse (msHighestMatchedSelf sc0 1) (- 1) = - 1"
    "candidatesFor (msComplianceKeys sc) (Some 0) = [] @ \<lparr>epVersion = 1, epPk = (5, 2), epFromBlock = None\<rparr> # []"
proof -
  have ok: "isOk (bindR (createScanner toyLibs toyScanConfig) (\<lambda>sc. fst (msEnsureSelfLookahead toyLibs sc 16)))" by code_simp
  then obtain sc0 where sc0: "createScanner toyLibs toyScanConfig = Inr sc0" by (cases "createScanner toyLibs toyScanConfig") auto
  with ok have "isOk (fst (msEnsureSelfLookahead toyLibs sc0 16))" by simp
  then obtain adv where adv: "fst (msEnsureSelfLookahead toyLibs sc0 16) = Inr adv" by (cases "fst (msEnsureSelfLookahead toyLibs sc0 16)") auto
  obtain sc where sc: "msEnsureSelfLookahead toyLibs sc0 16 = (Inr adv, sc)" using adv by (metis prod.collapse)
  note reach = msReachable.created [OF sc0]
  have ring: "msComplianceKeys sc = [\<lparr>epVersion = 1, epPk = (5, 2), epFromBlock = None\<rparr>]"
    using reachable_ok [OF msReachable.selfLookahead [OF reach sc]]
    by (simp add: toyScanConfig_def coerceRing_def ringOf_def newRing_def uniqueVersions_def COMPLIANCE_INITIAL_VERSION_def)
  have cand: "candidatesFor (msComplianceKeys sc) (Some 0) = [] @ \<lparr>epVersion = 1, epPk = (5, 2), epFromBlock = None\<rparr> # []"
    unfolding ring by code_simp
  have "msHighestMatchedSelf sc0 = Map.empty" using sc0 by (auto simp: createScanner_def Let_def)
  then show ?thesis using that [OF sc0 sc reach _ cand] by simp
qed

lemma toy_deposit:
  obtains pvs' s' where "multisigDepositEph toyLibs (mcfV toyScanConfig) 1 toyCounter (mcfGpk toyScanConfig) [] (newInMemoryStore Map.empty)
    = (Inr (0, toyDeposit), pvs', s')"
proof -
  have "fst (multisigDepositEph toyLibs (mcfV toyScanConfig) 1 toyCounter (mcfGpk toyScanConfig) [] (newInMemoryStore Map.empty)) = Inr (0, toyDeposit)"
    by code_simp
  then show ?thesis using that by (cases "multisigDepositEph toyLibs (mcfV toyScanConfig) 1 toyCounter (mcfGpk toyScanConfig) [] (newInMemoryStore Map.empty)") auto
qed

lemma toy_group_note:
  "list_all isFr (noteFields toyGroupNote)" "notePsi toyGroupNote = poseidon2Hash toyLibs [7, PSI_DOMAIN]"
  "bindR (multisigOwner toyLibs (mcfGpk toyScanConfig)) (newFr toyLibs) = Inr (noteOwner toyGroupNote)" "leaf toyLibs toyGroupNote = Inr 37"
  "deriveCek toyLibs (mmEph toyDeposit) (5, 2) = Inr 7" "demEncrypt toyLibs 7 (noteFields toyGroupNote) = Inr [3, 12, 5, 5, 56, 13, 8]" "isFr 6"
  by code_simp+

lemmas toy_laws = toyLibs_bjj_laws toyLibs_fr_laws toyLibs_xDetermines

text \<open>a group's balance counts only the group's notes.  Whatever the history of a scanner (created from a
  configuration, then lookaheads that succeed or fail half-way and notes read, in any order), a note it reports is
  owned by the group's signing key, has the multisig type and an address-sized asset, rebuilds the posted commitment,
  and comes with its nullifier; one reported as self-minted carries the tag of an even-y ephemeral derived for a
  configured member at the index it names.\<close>

theorem multisig_scanner_sound:
  assumes "msReachable L cfg sc" "readNote L sc ev = (Some view, sc')"
  shows "bindR (multisigOwner L (mcfGpk cfg)) (newFr L) = Inr (noteOwner (mvNote view))
    \<and> noteType (mvNote view) = NOTE_TYPE_MULTISIG \<and> assetId (mvNote view) < 2 ^ 160
    \<and> leaf L (mvNote view) = Inr (mvCommitment view) \<and> toFrText L (evCommitment ev) = Inr (mvCommitment view)
    \<and> getNullifierHash L (notePsi (mvNote view)) (evLeafIndex ev) = Inr (mvNullifier view)
    \<and> (\<not> mvIsIncoming view \<longrightarrow> (\<exists>m\<in>set (mcfMemberIds cfg). \<exists>j eph p. mvMemberId view = Some m \<and> mvDerivationJ view = Some j
        \<and> deriveSelfEph L (mcfV cfg) m j = Inr (eph, p) \<and> isEvenY p \<and> tagKey L (fst p) = tagKey L (evEphemeralX ev)))"
  using reachable_ok [OF assms(1)] readNote_sound [OF _ assms(2)] by (auto simp: ASSET_MODULUS_def)

theorem multisig_scanner_sound_witness:
  "\<exists>sc view sc'. msReachable toyLibs toyScanConfig sc \<and> readNote toyLibs sc toyGroupEvent = (Some view, sc')
    \<and> bindR (multisigOwner toyLibs (mcfGpk toyScanConfig)) (newFr toyLibs) = Inr (noteOwner (mvNote view)) \<and> assetId (mvNote view) < 2 ^ 160"
proof -
  obtain sc0 adv sc where sc: "createScanner toyLibs toyScanConfig = Inr sc0" "msEnsureSelfLookahead toyLibs sc0 16 = (Inr adv, sc)"
    "msReachable toyLibs toyScanConfig sc0" "orElse (msHighestMatchedSelf sc0 1) (- 1) = - 1"
    "candidatesFor (msComplianceKeys sc) (Some 0) = [] @ \<lparr>epVersion = 1, epPk = (5, 2), epFromBlock = None\<rparr> # []" by (rule toy_scanner)
  obtain pvs' s' where dep: "multisigDepositEph toyLibs (mcfV toyScanConfig) 1 toyCounter (mcfGpk toyScanConfig) [] (newInMemoryStore Map.empty)
    = (Inr (0, toyDeposit), pvs', s')" by (rule toy_deposit)
  note n = toy_group_note
  have "\<exists>view sc'. readNote toyLibs sc toyGroupEvent = (Some view, sc')"
    using deposit_read [OF toy_laws sc(3,2) _ dep _ _ n(1) _ n(2) _ _ n(3,4) _ n(6) toyGroupEvent_def n(7) sc(5)] n(5) sc(4)
    by (simp add: toyScanConfig_def toyGroupNote_def toyDeposit_def NOTE_TYPE_MULTISIG_def) blast
  then obtain view sc' where v: "readNote toyLibs sc toyGroupEvent = (Some view, sc')" by blast
  have r: "msReachable toyLibs toyScanConfig sc" by (rule msReachable.selfLookahead [OF sc(3,2)])
  from multisig_scanner_sound [OF r v] show ?thesis using r v by blast
qed



end
