(* ===== verification/PoolState.thy ===== *)
theory PoolState
  imports Prelude
begin

text \<open>
  \<open>programs/kakure_pool/src/state.rs\<close> and \<open>sdk/src/solana/poolAccounts.ts\<close>: the pool account as bytes.  The program
  reads and writes fields at fixed offsets of the account's data; the client decodes the same bytes.  The lemmas show that
  each field is a lens (what is written is read, other fields do not move), that the client sees exactly the program's
  writes, and that the client's search of the root ring finds a slot the program resolves to the same root.
\<close>

section \<open>Bytes at an offset\<close>

definition getAt :: "byte list \<Rightarrow> nat \<Rightarrow> nat \<Rightarrow> byte list" where
  "getAt data off n = take n (drop off data)"

definition putAt :: "byte list \<Rightarrow> nat \<Rightarrow> byte list \<Rightarrow> byte list" where
  "putAt data off v = take off data @ v @ drop (off + length v) data"

lemma putAt_length [simp]: "off + length v \<le> length data \<Longrightarrow> length (putAt data off v) = length data"
  by (simp add: putAt_def)

lemma getAt_length [simp]: "off + n \<le> length data \<Longrightarrow> length (getAt data off n) = n"
  by (simp add: getAt_def)

lemma getAt_putAt_same: "off \<le> length data \<Longrightarrow> n = length v \<Longrightarrow> getAt (putAt data off v) off n = v"
  by (simp add: getAt_def putAt_def)

lemma getAt_putAt_before: "off' + n \<le> off \<Longrightarrow> off \<le> length data \<Longrightarrow> getAt (putAt data off v) off' n = getAt data off' n"
  by (simp add: getAt_def putAt_def take_drop min_def)

lemma getAt_putAt_after:
  assumes "off + length v \<le> off'" "off + length v \<le> length data"
  shows "getAt (putAt data off v) off' n = getAt data off' n"
proof -
  have "drop off' (putAt data off v) = drop (off' - (off + length v)) (drop (off + length v) data)"
    using assms unfolding putAt_def by simp
  then show ?thesis using assms by (simp add: getAt_def)
qed

lemma getAt_putAt_other:
  "off' + n \<le> off \<or> off + length v \<le> off' \<Longrightarrow> off + length v \<le> length data \<Longrightarrow> getAt (putAt data off v) off' n = getAt data off' n"
  using getAt_putAt_before [of off' n off data v] getAt_putAt_after [of off v off' data n] by auto

section \<open>The program's account layout\<close>

type_synonym pubkey = "byte list"

definition TREE_LEVELS :: nat where "TREE_LEVELS = 32"
definition ROOT_RING :: nat where "ROOT_RING = 256"
definition NUM_VERIFIERS :: nat where "NUM_VERIFIERS = 7"

definition OFF_AUTHORITY :: nat where "OFF_AUTHORITY = 0"
definition OFF_PAUSED :: nat where "OFF_PAUSED = 32"
definition OFF_COMPLIANCE_VERSION :: nat where "OFF_COMPLIANCE_VERSION = 33"
definition OFF_COMPLIANCE_PK_X :: nat where "OFF_COMPLIANCE_PK_X = 37"
definition OFF_COMPLIANCE_PK_Y :: nat where "OFF_COMPLIANCE_PK_Y = 69"
definition OFF_VERIFIERS :: nat where "OFF_VERIFIERS = 101"
definition OFF_NEXT_LEAF_INDEX :: nat where "OFF_NEXT_LEAF_INDEX = OFF_VERIFIERS + NUM_VERIFIERS * 32"
definition OFF_SIDE_NODES :: nat where "OFF_SIDE_NODES = OFF_NEXT_LEAF_INDEX + 8"
definition OFF_ROOT_CURSOR :: nat where "OFF_ROOT_CURSOR = OFF_SIDE_NODES + TREE_LEVELS * 32"
definition OFF_ROOTS :: nat where "OFF_ROOTS = OFF_ROOT_CURSOR + 1"
definition POOL_LEN :: nat where "POOL_LEN = OFF_ROOTS + ROOT_RING * 32"

lemmas layout_defs = TREE_LEVELS_def ROOT_RING_def NUM_VERIFIERS_def OFF_AUTHORITY_def OFF_PAUSED_def OFF_COMPLIANCE_VERSION_def
  OFF_COMPLIANCE_PK_X_def OFF_COMPLIANCE_PK_Y_def OFF_VERIFIERS_def OFF_NEXT_LEAF_INDEX_def OFF_SIDE_NODES_def
  OFF_ROOT_CURSOR_def OFF_ROOTS_def POOL_LEN_def

datatype program_error =
    InvalidAccountData
  | InvalidArgument
  | InvalidSeeds
  | InvalidInstructionData
  | IncorrectProgramId
  | MissingRequiredSignature
  | AccountAlreadyInitialized
  | NotEnoughAccountKeys
  | Custom nat
  | CpiFailed

type_synonym 'a program_result = "program_error + 'a"

definition poolNew :: "byte list \<Rightarrow> unit program_result" where
  "poolNew data = (if length data \<noteq> POOL_LEN then Inl InvalidAccountData else Inr ())"

definition pool_authority :: "byte list \<Rightarrow> pubkey" where
  "pool_authority data = getAt data OFF_AUTHORITY 32"

definition set_authority :: "byte list \<Rightarrow> pubkey \<Rightarrow> byte list" where
  "set_authority data k = putAt data OFF_AUTHORITY k"

definition pool_paused :: "byte list \<Rightarrow> bool" where
  "pool_paused data \<longleftrightarrow> getAt data OFF_PAUSED 1 \<noteq> [0]"

definition set_paused :: "byte list \<Rightarrow> bool \<Rightarrow> byte list" where
  "set_paused data v = putAt data OFF_PAUSED [if v then 1 else 0]"

definition compliance_version :: "byte list \<Rightarrow> int" where
  "compliance_version data = bytesLE (getAt data OFF_COMPLIANCE_VERSION 4)"

definition set_compliance_version :: "byte list \<Rightarrow> int \<Rightarrow> byte list" where
  "set_compliance_version data v = putAt data OFF_COMPLIANCE_VERSION (toBytesLE 4 v)"

definition compliance_pk_x :: "byte list \<Rightarrow> byte list" where
  "compliance_pk_x data = getAt data OFF_COMPLIANCE_PK_X 32"

definition compliance_pk_y :: "byte list \<Rightarrow> byte list" where
  "compliance_pk_y data = getAt data OFF_COMPLIANCE_PK_Y 32"

definition set_compliance_pk :: "byte list \<Rightarrow> byte list \<Rightarrow> byte list \<Rightarrow> byte list" where
  "set_compliance_pk data x y = putAt (putAt data OFF_COMPLIANCE_PK_X x) OFF_COMPLIANCE_PK_Y y"

definition pool_verifier :: "byte list \<Rightarrow> nat \<Rightarrow> pubkey program_result" where
  "pool_verifier data circuit_id =
     (if NUM_VERIFIERS \<le> circuit_id then Inl InvalidArgument else Inr (getAt data (OFF_VERIFIERS + circuit_id * 32) 32))"

definition pool_set_verifier :: "byte list \<Rightarrow> nat \<Rightarrow> pubkey \<Rightarrow> byte list program_result" where
  "pool_set_verifier data circuit_id prog =
     (if NUM_VERIFIERS \<le> circuit_id then Inl InvalidArgument else Inr (putAt data (OFF_VERIFIERS + circuit_id * 32) prog))"

definition set_all_verifiers :: "byte list \<Rightarrow> pubkey list \<Rightarrow> byte list" where
  "set_all_verifiers data verifiers = fold (\<lambda>(i, v) d. putAt d (OFF_VERIFIERS + i * 32) v) (enumerate 0 verifiers) data"

definition next_leaf_index :: "byte list \<Rightarrow> int" where
  "next_leaf_index data = bytesLE (getAt data OFF_NEXT_LEAF_INDEX 8)"

definition set_next_leaf_index :: "byte list \<Rightarrow> int \<Rightarrow> byte list" where
  "set_next_leaf_index data v = putAt data OFF_NEXT_LEAF_INDEX (toBytesLE 8 v)"

definition side_node :: "byte list \<Rightarrow> nat \<Rightarrow> byte list" where
  "side_node data level = getAt data (OFF_SIDE_NODES + level * 32) 32"

definition set_side_node :: "byte list \<Rightarrow> nat \<Rightarrow> byte list \<Rightarrow> byte list" where
  "set_side_node data level v = putAt data (OFF_SIDE_NODES + level * 32) v"

definition root_cursor :: "byte list \<Rightarrow> byte" where
  "root_cursor data = hd (getAt data OFF_ROOT_CURSOR 1)"

definition set_root_cursor :: "byte list \<Rightarrow> byte \<Rightarrow> byte list" where
  "set_root_cursor data v = putAt data OFF_ROOT_CURSOR [v]"

definition root_at :: "byte list \<Rightarrow> byte \<Rightarrow> byte list" where
  "root_at data idx = getAt data (OFF_ROOTS + idx * 32) 32"

definition set_root_at :: "byte list \<Rightarrow> byte \<Rightarrow> byte list \<Rightarrow> byte list" where
  "set_root_at data idx v = putAt data (OFF_ROOTS + idx * 32) v"

text \<open>The cursor is a \<open>u8\<close>: \<open>wrapping_add\<close> takes 255 to 0.\<close>

definition push_root :: "byte list \<Rightarrow> byte list \<Rightarrow> byte list" where
  "push_root data root =
     (let cur = root_cursor data in set_root_cursor (set_root_at data cur root) ((cur + 1) mod 256))"

definition is_known_root :: "byte list \<Rightarrow> byte list \<Rightarrow> bool" where
  "is_known_root data root \<longleftrightarrow> list_ex (\<lambda>i. root_at data i = root) [0..<ROOT_RING]"

section \<open>The client's view\<close>

record poolAccount =
  paAuthority :: pubkey
  paPaused :: bool
  paComplianceVersion :: int
  paCompliancePkX :: "byte list"
  paCompliancePkY :: "byte list"
  paVerifiers :: "pubkey list"
  paNextLeafIndex :: int
  paSideNodes :: "byte list list"
  paRootCursor :: nat
  paRoots :: "byte list list"

definition slice32 :: "byte list \<Rightarrow> nat \<Rightarrow> byte list" where
  "slice32 data offset = take 32 (drop offset data)"

definition decodePool :: "byte list \<Rightarrow> poolAccount result" where
  "decodePool data =
     (if length data \<noteq> POOL_LEN then Inl (Error ''decodePool: expected 9550 bytes'')
      else Inr \<lparr>paAuthority = slice32 data OFF_AUTHORITY, paPaused = (data ! OFF_PAUSED \<noteq> 0),
        paComplianceVersion = bytesLE (take 4 (drop OFF_COMPLIANCE_VERSION data)),
        paCompliancePkX = slice32 data OFF_COMPLIANCE_PK_X, paCompliancePkY = slice32 data OFF_COMPLIANCE_PK_Y,
        paVerifiers = map (\<lambda>i. slice32 data (OFF_VERIFIERS + i * 32)) [0..<NUM_VERIFIERS],
        paNextLeafIndex = bytesLE (take 8 (drop OFF_NEXT_LEAF_INDEX data)),
        paSideNodes = map (\<lambda>level. slice32 data (OFF_SIDE_NODES + level * 32)) [0..<TREE_LEVELS],
        paRootCursor = data ! OFF_ROOT_CURSOR,
        paRoots = map (\<lambda>i. slice32 data (OFF_ROOTS + i * 32)) [0..<ROOT_RING]\<rparr>)"

definition isKnownRoot :: "poolAccount \<Rightarrow> byte list \<Rightarrow> bool result" where
  "isKnownRoot pool root =
     (if length root \<noteq> 32 then Inl (Error ''isKnownRoot: root must be 32 bytes'') else Inr (list_ex (\<lambda>r. r = root) (paRoots pool)))"

definition rootIndexFor :: "poolAccount \<Rightarrow> byte list \<Rightarrow> nat option result" where
  "rootIndexFor pool root =
     (if length root \<noteq> 32 then Inl (Error ''rootIndexFor: root must be 32 bytes'')
      else Inr (find (\<lambda>idx. paRoots pool ! idx = root)
        (map (\<lambda>step. nat ((int (paRootCursor pool) - 1 - int step + int ROOT_RING * 2) mod int ROOT_RING)) [0..<ROOT_RING])))"

section \<open>Client and program agree\<close>

text \<open>The account as the program's accessors read it.\<close>

definition viewOf :: "byte list \<Rightarrow> poolAccount" where
  "viewOf data = \<lparr>paAuthority = pool_authority data, paPaused = pool_paused data, paComplianceVersion = compliance_version data,
     paCompliancePkX = compliance_pk_x data, paCompliancePkY = compliance_pk_y data,
     paVerifiers = map (\<lambda>i. getAt data (OFF_VERIFIERS + i * 32) 32) [0..<NUM_VERIFIERS], paNextLeafIndex = next_leaf_index data,
     paSideNodes = map (side_node data) [0..<TREE_LEVELS], paRootCursor = root_cursor data, paRoots = map (root_at data) [0..<ROOT_RING]\<rparr>"

lemma getAt_1: "off < length data \<Longrightarrow> getAt data off 1 = [data ! off]"
  by (simp add: getAt_def take_Suc_conv_app_nth [of 0, simplified] hd_drop_conv_nth)

lemma decodePool_view: "decodePool data = (if length data = POOL_LEN then Inr (viewOf data) else Inl (Error ''decodePool: expected 9550 bytes''))"
proof (cases "length data = POOL_LEN")
  case True
  have off: "OFF_PAUSED < length data" "OFF_ROOT_CURSOR < length data" using True by (simp_all add: layout_defs)
  show ?thesis using True off getAt_1 [OF off(1)] getAt_1 [OF off(2)]
    by (simp add: decodePool_def viewOf_def slice32_def getAt_def pool_authority_def pool_paused_def compliance_version_def
      compliance_pk_x_def compliance_pk_y_def next_leaf_index_def side_node_def [abs_def] root_cursor_def root_at_def [abs_def])
qed (simp add: decodePool_def)

lemmas accessor_defs = pool_authority_def pool_paused_def compliance_version_def compliance_pk_x_def compliance_pk_y_def
  next_leaf_index_def side_node_def root_cursor_def root_at_def

lemmas setter_defs = set_authority_def set_paused_def set_compliance_version_def set_compliance_pk_def set_next_leaf_index_def
  set_side_node_def set_root_cursor_def set_root_at_def

text \<open>The fields of the account as a partition of its bytes: a write of a field leaves the others as they are.\<close>

lemma map_getAt_other:
  assumes "off + length v \<le> length data" "\<forall>i < n. base + i * 32 + 32 \<le> off \<or> off + length v \<le> base + i * 32"
  shows "map (\<lambda>i. getAt (putAt data off v) (base + i * 32) 32) [0..<n] = map (\<lambda>i. getAt data (base + i * 32) 32) [0..<n]"
  using assms by (intro map_cong) (auto intro: getAt_putAt_other)

lemma map_getAt_update:
  assumes "base + n * 32 \<le> length data" "k < n" "length v = 32"
  shows "map (\<lambda>i. getAt (putAt data (base + k * 32) v) (base + i * 32) 32) [0..<n] = (map (\<lambda>i. getAt data (base + i * 32) 32) [0..<n])[k := v]"
proof (rule nth_equalityI)
  fix i
  assume "i < length (map (\<lambda>i. getAt (putAt data (base + k * 32) v) (base + i * 32) 32) [0..<n])"
  then have i: "i < n" by simp
  have kn: "base + k * 32 + 32 \<le> length data" using assms(1,2) by simp
  show "map (\<lambda>i. getAt (putAt data (base + k * 32) v) (base + i * 32) 32) [0..<n] ! i = (map (\<lambda>i. getAt data (base + i * 32) 32) [0..<n])[k := v] ! i"
  proof (cases "i = k")
    case True
    then show ?thesis using i kn assms(3) by (simp add: getAt_putAt_same)
  next
    case False
    then have "base + i * 32 + 32 \<le> base + k * 32 \<or> base + k * 32 + 32 \<le> base + i * 32" by linarith
    then show ?thesis using i kn assms(3) False getAt_putAt_other [of "base + i * 32" 32 "base + k * 32" v data] by simp
  qed
qed simp

lemma view_authority: "length data = POOL_LEN \<Longrightarrow> length k = 32 \<Longrightarrow> viewOf (set_authority data k) = (viewOf data)\<lparr>paAuthority := k\<rparr>"
  by (simp add: viewOf_def accessor_defs setter_defs getAt_putAt_same getAt_putAt_other map_getAt_other layout_defs)

lemmas view_defs = viewOf_def accessor_defs setter_defs getAt_putAt_same getAt_putAt_other map_getAt_other layout_defs

lemma view_paused: "length data = POOL_LEN \<Longrightarrow> viewOf (set_paused data b) = (viewOf data)\<lparr>paPaused := b\<rparr>"
  by (simp add: view_defs)

lemma view_version:
  "length data = POOL_LEN \<Longrightarrow> viewOf (set_compliance_version data v) = (viewOf data)\<lparr>paComplianceVersion := v mod 2 ^ 32\<rparr>"
  by (simp add: view_defs bytesLE_toBytesLE)

lemma view_pk:
  "length data = POOL_LEN \<Longrightarrow> length x = 32 \<Longrightarrow> length y = 32 \<Longrightarrow>
    viewOf (set_compliance_pk data x y) = (viewOf data)\<lparr>paCompliancePkX := x, paCompliancePkY := y\<rparr>"
  by (simp add: view_defs)

lemma view_next: "length data = POOL_LEN \<Longrightarrow> viewOf (set_next_leaf_index data v) = (viewOf data)\<lparr>paNextLeafIndex := v mod 2 ^ 64\<rparr>"
  by (simp add: view_defs bytesLE_toBytesLE)

lemma view_cursor: "length data = POOL_LEN \<Longrightarrow> viewOf (set_root_cursor data c) = (viewOf data)\<lparr>paRootCursor := c\<rparr>"
  by (simp add: view_defs)

lemma view_verifier:
  assumes "length data = POOL_LEN" "length v = 32" "i < NUM_VERIFIERS"
  shows "viewOf (putAt data (OFF_VERIFIERS + i * 32) v) = (viewOf data)\<lparr>paVerifiers := (paVerifiers (viewOf data))[i := v]\<rparr>"
proof -
  have "map (\<lambda>j. getAt (putAt data (OFF_VERIFIERS + i * 32) v) (OFF_VERIFIERS + j * 32) 32) [0..<NUM_VERIFIERS]
    = (map (\<lambda>j. getAt data (OFF_VERIFIERS + j * 32) 32) [0..<NUM_VERIFIERS])[i := v]"
    by (rule map_getAt_update) (use assms in \<open>simp_all add: layout_defs\<close>)
  then show ?thesis using assms
    by (simp add: viewOf_def accessor_defs getAt_putAt_other map_getAt_other) (simp add: getAt_putAt_other map_getAt_other layout_defs)
qed

lemma view_side:
  assumes "length data = POOL_LEN" "length v = 32" "i < TREE_LEVELS"
  shows "viewOf (set_side_node data i v) = (viewOf data)\<lparr>paSideNodes := (paSideNodes (viewOf data))[i := v]\<rparr>"
proof -
  have "map (\<lambda>j. getAt (putAt data (OFF_SIDE_NODES + i * 32) v) (OFF_SIDE_NODES + j * 32) 32) [0..<TREE_LEVELS]
    = (map (\<lambda>j. getAt data (OFF_SIDE_NODES + j * 32) 32) [0..<TREE_LEVELS])[i := v]"
    by (rule map_getAt_update) (use assms in \<open>simp_all add: layout_defs\<close>)
  then show ?thesis using assms
    by (simp add: viewOf_def accessor_defs [abs_def] setter_defs getAt_putAt_other map_getAt_other)
      (simp add: getAt_putAt_other map_getAt_other layout_defs)
qed

lemma view_root:
  assumes "length data = POOL_LEN" "length v = 32" "i < ROOT_RING"
  shows "viewOf (set_root_at data i v) = (viewOf data)\<lparr>paRoots := (paRoots (viewOf data))[i := v]\<rparr>"
proof -
  have "map (\<lambda>j. getAt (putAt data (OFF_ROOTS + i * 32) v) (OFF_ROOTS + j * 32) 32) [0..<ROOT_RING]
    = (map (\<lambda>j. getAt data (OFF_ROOTS + j * 32) 32) [0..<ROOT_RING])[i := v]"
    by (rule map_getAt_update) (use assms in \<open>simp_all add: layout_defs\<close>)
  then show ?thesis using assms
    by (simp add: viewOf_def accessor_defs [abs_def] setter_defs getAt_putAt_other map_getAt_other)
      (simp add: getAt_putAt_other map_getAt_other layout_defs)
qed

text \<open>All setters keep the length of the account.\<close>

lemma setter_length:
  assumes "length data = POOL_LEN"
  shows "length k = 32 \<Longrightarrow> length (set_authority data k) = POOL_LEN" "length (set_paused data b) = POOL_LEN"
    "length (set_compliance_version data n) = POOL_LEN" "length x = 32 \<Longrightarrow> length y = 32 \<Longrightarrow> length (set_compliance_pk data x y) = POOL_LEN"
    "length (set_next_leaf_index data n) = POOL_LEN" "length (set_root_cursor data c) = POOL_LEN"
    "length v = 32 \<Longrightarrow> i < NUM_VERIFIERS \<Longrightarrow> length (putAt data (OFF_VERIFIERS + i * 32) v) = POOL_LEN"
    "length v = 32 \<Longrightarrow> i < TREE_LEVELS \<Longrightarrow> length (set_side_node data i v) = POOL_LEN"
    "length v = 32 \<Longrightarrow> i < ROOT_RING \<Longrightarrow> length (set_root_at data i v) = POOL_LEN"
  using assms by (simp_all add: setter_defs layout_defs)

lemma view_push:
  assumes "length data = POOL_LEN" "length r = 32" "root_cursor data < 256"
  shows "viewOf (push_root data r) = (viewOf data)\<lparr>paRoots := (paRoots (viewOf data))[paRootCursor (viewOf data) := r],
      paRootCursor := (paRootCursor (viewOf data) + 1) mod 256\<rparr>" "length (push_root data r) = POOL_LEN"
proof -
  have c: "root_cursor data < ROOT_RING" using assms(3) by (simp add: ROOT_RING_def)
  note l = setter_length(9) [OF assms(1,2) c]
  have "paRootCursor (viewOf data) = root_cursor data" by (simp add: viewOf_def)
  then show "viewOf (push_root data r) = (viewOf data)\<lparr>paRoots := (paRoots (viewOf data))[paRootCursor (viewOf data) := r],
      paRootCursor := (paRootCursor (viewOf data) + 1) mod 256\<rparr>"
    using view_root [OF assms(1,2) c] by (simp add: push_root_def Let_def view_cursor [OF l])
  show "length (push_root data r) = POOL_LEN" using setter_length(6) [OF l] by (simp add: push_root_def Let_def)
qed

lemma view_all_verifiers_from:
  assumes "length data = POOL_LEN" "list_all (\<lambda>v. length v = 32) vs" "k + length vs \<le> NUM_VERIFIERS"
  shows "length (fold (\<lambda>(i, v) d. putAt d (OFF_VERIFIERS + i * 32) v) (enumerate k vs) data) = POOL_LEN
    \<and> viewOf (fold (\<lambda>(i, v) d. putAt d (OFF_VERIFIERS + i * 32) v) (enumerate k vs) data)
      = (viewOf data)\<lparr>paVerifiers := take k (paVerifiers (viewOf data)) @ vs @ drop (k + length vs) (paVerifiers (viewOf data))\<rparr>"
  using assms
proof (induction vs arbitrary: data k)
  case Nil
  then show ?case by simp
next
  case (Cons v vs)
  let ?d = "putAt data (OFF_VERIFIERS + k * 32) v"
  have k: "k < NUM_VERIFIERS" "length v = 32" using Cons.prems by simp_all
  have d: "length ?d = POOL_LEN" "viewOf ?d = (viewOf data)\<lparr>paVerifiers := (paVerifiers (viewOf data))[k := v]\<rparr>"
    using setter_length(7) [OF Cons.prems(1)] view_verifier [OF Cons.prems(1)] k by simp_all
  have n: "length (paVerifiers (viewOf data)) = NUM_VERIFIERS" by (simp add: viewOf_def)
  show ?case using Cons.IH [OF d(1), of "Suc k"] Cons.prems d(2) n k
    by (simp add: take_Suc_conv_app_nth upd_conv_take_nth_drop drop_update_cancel add.commute)
qed

lemma view_all_verifiers:
  assumes "length data = POOL_LEN" "list_all (\<lambda>v. length v = 32) vs" "length vs = NUM_VERIFIERS"
  shows "viewOf (set_all_verifiers data vs) = (viewOf data)\<lparr>paVerifiers := vs\<rparr>" "length (set_all_verifiers data vs) = POOL_LEN"
proof -
  have "length (paVerifiers (viewOf data)) = NUM_VERIFIERS" by (simp add: viewOf_def)
  then show "viewOf (set_all_verifiers data vs) = (viewOf data)\<lparr>paVerifiers := vs\<rparr>" "length (set_all_verifiers data vs) = POOL_LEN"
    using view_all_verifiers_from [OF assms(1,2), of 0] assms(3) by (simp_all add: set_all_verifiers_def)
qed

section \<open>Properties\<close>

definition ringSlot :: "nat \<Rightarrow> nat \<Rightarrow> nat" where
  "ringSlot cursor step = nat ((int cursor - 1 - int step) mod 256)"

lemma ringSlot_less: "ringSlot c step < 256"
  by (simp add: ringSlot_def nat_less_iff)

lemma ringSlot_ring: "nat ((int c - 1 - int step + int ROOT_RING * 2) mod int ROOT_RING) = ringSlot c step"
proof -
  have "(a + 256 * 2) mod 256 = a mod (256::int)" for a by presburger
  then show ?thesis by (simp only: ringSlot_def ROOT_RING_def of_nat_numeral)
qed

lemma ringSlot_onto:
  assumes "i < 256"
  shows "\<exists>step < 256. ringSlot c step = i"
proof (intro exI conjI)
  let ?step = "nat ((int c - 1 - int i) mod 256)"
  have m: "0 \<le> (int c - 1 - int i) mod 256" "(int c - 1 - int i) mod 256 < 256" by simp_all
  then show "?step < 256" by linarith
  have "(int c - 1 - (int c - 1 - int i) mod 256) mod 256 = (int c - 1 - (int c - 1 - int i)) mod 256" by (rule mod_diff_right_eq)
  then show "ringSlot c ?step = i" using assms m by (simp add: ringSlot_def)
qed

text \<open>The ring lookup of the client names a slot of the program: it finds an index exactly for the roots the program knows, the
  slot at this index holds the root, and no slot written later holds it too.\<close>

lemma root_index_resolves:
  assumes "decodePool data = Inr pool" "length root = 32"
  shows "\<exists>r. rootIndexFor pool root = Inr r \<and> (r \<noteq> None \<longleftrightarrow> is_known_root data root)
    \<and> (\<forall>i. r = Some i \<longrightarrow> i < 256 \<and> root_at data i = root
      \<and> (\<exists>step. i = ringSlot (root_cursor data) step \<and> (\<forall>s < step. root_at data (ringSlot (root_cursor data) s) \<noteq> root)))"
proof -
  let ?f = "ringSlot (root_cursor data)"
  have p: "pool = viewOf data" using assms(1) by (auto simp: decodePool_view split: if_splits)
  have nth: "i < 256 \<Longrightarrow> paRoots pool ! i = root_at data i" for i by (simp add: p viewOf_def ROOT_RING_def)
  have cur: "paRootCursor pool = root_cursor data" by (simp add: p viewOf_def)
  have r: "rootIndexFor pool root = Inr (find (\<lambda>idx. paRoots pool ! idx = root) (map ?f [0..<ROOT_RING]))"
    using assms(2) by (simp only: rootIndexFor_def ringSlot_ring cur) simp
  have known: "is_known_root data root \<longleftrightarrow> (\<exists>i<256. root_at data i = root)"
    by (auto simp: is_known_root_def ROOT_RING_def list_ex_iff simp del: upt.simps)
  show ?thesis
  proof (cases "find (\<lambda>idx. paRoots pool ! idx = root) (map ?f [0..<ROOT_RING])")
    case None
    then have none: "\<forall>step<256. paRoots pool ! ?f step \<noteq> root" by (auto simp: find_None_iff ROOT_RING_def simp del: upt.simps)
    have "root_at data i \<noteq> root" if "i < 256" for i using ringSlot_onto [OF that] none nth that by metis
    then show ?thesis using r None known by auto
  next
    case (Some i)
    then obtain k where k: "k < 256" "i = ?f k" "paRoots pool ! i = root" "\<forall>s<k. paRoots pool ! ?f s \<noteq> root"
      by (auto simp: find_Some_iff ROOT_RING_def simp del: upt.simps)
    have "root_at data i = root" "i < 256" using k(2,3) nth ringSlot_less by metis+
    moreover have "\<forall>s<k. root_at data (?f s) \<noteq> root" using k(4) nth ringSlot_less by metis
    ultimately show ?thesis using r Some k(2) known by auto
  qed
qed

end
