(* ===== verification/PoolTree.thy ===== *)
theory PoolTree
  imports PoolState Merkle
begin

text \<open>
  \<open>programs/kakure_pool/src/merkle.rs\<close>: the frontier insertion of the on-chain program.  It keeps one left sibling per
  level instead of the whole tree.  The lemmas show that it computes the root of the reference tree of theory Merkle, which
  the wallet's and the indexer's trees implement, and that the ring holds the last 256 roots.
\<close>

section \<open>Insertion\<close>

datatype pool_error = Paused | InvalidPublicInputCount | ComplianceKeyStale | StaleRoot | NullifierSpent | InvalidProof | InvalidLeaf
  | AmountMismatch | AssetMismatch | AssetCollision | RecipientMismatch | IntentHashNotZero | UnsupportedMint | VerifierUnset

text \<open>\<open>ProgramError::Custom(e as u32)\<close>: the position of the variant.\<close>

primrec errorCode :: "pool_error \<Rightarrow> nat" where
  "errorCode Paused = 0" | "errorCode InvalidPublicInputCount = 1" | "errorCode ComplianceKeyStale = 2" | "errorCode StaleRoot = 3"
| "errorCode NullifierSpent = 4" | "errorCode InvalidProof = 5" | "errorCode InvalidLeaf = 6" | "errorCode AmountMismatch = 7"
| "errorCode AssetMismatch = 8" | "errorCode AssetCollision = 9" | "errorCode RecipientMismatch = 10" | "errorCode IntentHashNotZero = 11"
| "errorCode UnsupportedMint = 12" | "errorCode VerifierUnset = 13"

definition poolErr :: "pool_error \<Rightarrow> program_error" where
  "poolErr e = Custom (errorCode e)"

definition ZERO32 :: "byte list" where "ZERO32 = replicate 32 0"

text \<open>The \<open>sol_poseidon\<close> syscall is a parameter: it answers the hash of its inputs, or fails.\<close>

type_synonym poseidon_syscall = "byte list list \<Rightarrow> byte list option"

definition rs_hash3 :: "poseidon_syscall \<Rightarrow> byte list \<Rightarrow> byte list \<Rightarrow> nat \<Rightarrow> byte list program_result" where
  "rs_hash3 hashv left right level =
     (case hashv [left, right, replicate 24 0 @ toBytesBE 8 (int level)] of None \<Rightarrow> Inl (poolErr InvalidLeaf) | Some h \<Rightarrow> Inr h)"

fun frontierWalk :: "poseidon_syscall \<Rightarrow> nat list \<Rightarrow> byte list \<Rightarrow> byte list \<Rightarrow> nat \<Rightarrow> (byte list \<times> byte list) program_result" where
  "frontierWalk hashv [] data nd index = Inr (nd, data)"
| "frontierWalk hashv (level # rest) data nd index =
     (if index mod 2 = 0 then
        let data' = set_side_node data level nd in
        if index = 0 then Inr (nd, data') else frontierWalk hashv rest data' nd (index div 2)
      else bindR (rs_hash3 hashv (side_node data level) nd level) (\<lambda>nd'. frontierWalk hashv rest data nd' (index div 2)))"

text \<open>The leaf index, the new root and the account's data after the insertion.\<close>

definition rs_insert :: "poseidon_syscall \<Rightarrow> byte list \<Rightarrow> byte list \<Rightarrow> (int \<times> byte list \<times> byte list) program_result" where
  "rs_insert hashv data leaf =
     (if leaf = ZERO32 then Inl (poolErr InvalidLeaf)
      else let leaf_index = next_leaf_index data in
        if 2 ^ TREE_LEVELS \<le> leaf_index then Inl InvalidAccountData
        else bindR (frontierWalk hashv [0..<TREE_LEVELS] data leaf (nat leaf_index)) (\<lambda>(root, data').
          Inr (leaf_index, root, push_root (set_next_leaf_index data' (leaf_index + 1)) root)))"

section \<open>The frontier represents the tree\<close>

text \<open>The syscall computes the same three-input hash as the wallet's library, on canonical field elements.\<close>

definition poseidon_agrees :: "poseidon_syscall \<Rightarrow> libs \<Rightarrow> bool" where
  "poseidon_agrees hashv L \<longleftrightarrow> (\<forall>a b c. isFr a \<longrightarrow> isFr b \<longrightarrow> isFr c \<longrightarrow>
     hashv [toBytesBE 32 a, toBytesBE 32 b, toBytesBE 32 c] = Some (toBytesBE 32 (circomPoseidon L [a, b, c])))"

definition frontierOk :: "libs \<Rightarrow> int list \<Rightarrow> byte list list \<Rightarrow> bool" where
  "frontierOk L ls side \<longleftrightarrow> length side = 32 \<and> (\<forall>l<32. odd (length ls div 2 ^ l) \<longrightarrow>
     side ! l = toBytesBE 32 (node (nodeHash L) ls l (length ls div 2 ^ l - 1)))"

definition ringOkFor :: "libs \<Rightarrow> int list \<Rightarrow> nat \<Rightarrow> byte list list \<Rightarrow> bool" where
  "ringOkFor L ls cursor roots \<longleftrightarrow> cursor = length ls mod 256 \<and> length roots = 256
     \<and> (\<forall>k < length ls. length ls \<le> k + 256 \<longrightarrow> roots ! (k mod 256) = toBytesBE 32 (node (nodeHash L) (take (Suc k) ls) 32 0))"

definition poolRepr :: "libs \<Rightarrow> int list \<Rightarrow> byte list \<Rightarrow> bool" where
  "poolRepr L ls data \<longleftrightarrow> length data = POOL_LEN \<and> next_leaf_index data = int (length ls) \<and> length ls \<le> 2 ^ 32
     \<and> list_all isFr ls \<and> frontierOk L ls (paSideNodes (viewOf data)) \<and> ringOkFor L ls (root_cursor data) (paRoots (viewOf data))"

lemma node_isFr': "fr_laws L \<Longrightarrow> list_all isFr ls \<Longrightarrow> isFr (node (nodeHash L) ls l i)"
proof (induction l arbitrary: i)
  case 0
  then show ?case by (simp add: nodeOrZero_def list_all_length)
next
  case (Suc l)
  then show ?case by (simp add: combRef_def nodeHash_def fr_laws_v1)
qed

lemma node_up:
  assumes "length ls \<le> 2 ^ l"
  shows "node H ls (l + k) 0 = node H ls l 0"
proof (induction k)
  case (Suc k)
  have "(2::nat) ^ l \<le> 2 ^ (l + k)" by (rule power_increasing) simp_all
  with assms have "length ls \<le> 2 ^ (l + k)" by (rule order_trans)
  then have "node H ls (l + k) 1 = 0" by (intro node_zero) simp
  then show ?case using Suc by (simp add: combRef_def)
qed simp

text \<open>Half-way through an insertion: the levels below \<open>l\<close> are those of the new tree, the others those of the old one.\<close>

definition midFrontier :: "libs \<Rightarrow> int list \<Rightarrow> int \<Rightarrow> nat \<Rightarrow> byte list list \<Rightarrow> bool" where
  "midFrontier L ls x l side \<longleftrightarrow> length side = 32
     \<and> (\<forall>k<32. l \<le> k \<longrightarrow> odd (length ls div 2 ^ k) \<longrightarrow> side ! k = toBytesBE 32 (node (nodeHash L) ls k (length ls div 2 ^ k - 1)))
     \<and> (\<forall>k<l. odd (Suc (length ls) div 2 ^ k) \<longrightarrow>
          side ! k = toBytesBE 32 (node (nodeHash L) (ls @ [x]) k (Suc (length ls) div 2 ^ k - 1)))"

lemma midFrontier_start: "frontierOk L ls side \<Longrightarrow> midFrontier L ls x 0 side"
  by (simp add: frontierOk_def midFrontier_def)

lemma midFrontier_end: "midFrontier L ls x 32 side \<Longrightarrow> frontierOk L (ls @ [x]) side"
  by (simp add: frontierOk_def midFrontier_def)

lemma Suc_div_pow: "Suc n div 2 ^ k = n div 2 ^ k \<or> Suc n div 2 ^ k = Suc (n div 2 ^ k)"
  by (simp add: div_Suc)

lemma midFrontier_even:
  assumes "midFrontier L ls x l side" "l < 32" "even (length ls div 2 ^ l)"
  shows "midFrontier L ls x (Suc l) (side[l := toBytesBE 32 (node (nodeHash L) (ls @ [x]) l (length ls div 2 ^ l))])"
proof -
  have "length ls div 2 ^ l = Suc (length ls) div 2 ^ l - 1" if "odd (Suc (length ls) div 2 ^ l)"
    using Suc_div_pow [of "length ls" l] that assms(3) by auto
  then show ?thesis using assms unfolding midFrontier_def by (auto simp: nth_list_update less_Suc_eq)
qed

lemma midFrontier_odd:
  assumes "midFrontier L ls x l side" "l < 32" "odd (length ls div 2 ^ l)"
  shows "midFrontier L ls x (Suc l) side"
proof -
  have "side ! l = toBytesBE 32 (node (nodeHash L) (ls @ [x]) l (Suc (length ls) div 2 ^ l - 1))" if "odd (Suc (length ls) div 2 ^ l)"
  proof -
    have e: "Suc (length ls) div 2 ^ l = length ls div 2 ^ l" using Suc_div_pow [of "length ls" l] that assms(3) by auto
    have "0 < length ls div 2 ^ l" using assms(3) by (cases "length ls div 2 ^ l") simp_all
    then have "node (nodeHash L) (ls @ [x]) l (length ls div 2 ^ l - 1) = node (nodeHash L) ls l (length ls div 2 ^ l - 1)"
      by (intro node_append) simp
    then show ?thesis using assms e by (simp add: midFrontier_def)
  qed
  then show ?thesis using assms unfolding midFrontier_def by (auto simp: less_Suc_eq)
qed

lemma midFrontier_stop:
  assumes "midFrontier L ls x (Suc l) side" "length ls div 2 ^ l = 0"
  shows "frontierOk L (ls @ [x]) side"
proof -
  have "length ls < 2 ^ l" using assms(2) by (simp add: div_eq_0_iff)
  have "Suc (length ls) div 2 ^ k = 0" if "l < k" for k
  proof -
    have "(2::nat) ^ l < 2 ^ k" using that by simp
    then have "Suc (length ls) < 2 ^ k" using \<open>length ls < 2 ^ l\<close> by linarith
    then show ?thesis by simp
  qed
  then have "k \<le> l" if "odd (Suc (length ls) div 2 ^ k)" for k using that by (metis even_zero not_le)
  then show ?thesis using assms(1) unfolding midFrontier_def frontierOk_def by (simp add: less_Suc_eq_le)
qed

lemma toBytesBE_zero: "toBytesBE n 0 = replicate n 0"
  by (induction n) (simp_all add: replicate_append_same)

lemma rs_hash3_ok:
  assumes "poseidon_agrees hashv L" "isFr a" "isFr b" "l < 32"
  shows "rs_hash3 hashv (toBytesBE 32 a) (toBytesBE 32 b) l = Inr (toBytesBE 32 (nodeHash L a b (int l)))"
proof -
  have "toBytesBE (m + n) v = toBytesBE m (v div 256 ^ n) @ toBytesBE n v" for m n v
    by (induction n arbitrary: v) (simp_all add: zdiv_zmult2_eq)
  from this [of 24 8 "int l"] have e: "replicate 24 0 @ toBytesBE 8 (int l) = toBytesBE 32 (int l)" using assms(4) by (simp add: toBytesBE_zero)
  have "isFr (int l)" using assms(4) by (simp add: isFr_def BN254_P_def)
  then show ?thesis unfolding rs_hash3_def e using assms by (simp add: poseidon_agrees_def nodeHash_def)
qed

lemma frontierWalk_spec:
  assumes L: "fr_laws L" "poseidon_agrees hashv L" and n: "length ls < 2 ^ 32" and fr: "list_all isFr ls" "isFr x"
    and nz: "noZeroNode (nodeHash L) (ls @ [x]) 32" and "l \<le> 32" "length data = POOL_LEN" "midFrontier L ls x l (paSideNodes (viewOf data))"
  shows "\<exists>data'. frontierWalk hashv [l..<32] data (toBytesBE 32 (node (nodeHash L) (ls @ [x]) l (length ls div 2 ^ l))) (length ls div 2 ^ l)
      = Inr (toBytesBE 32 (node (nodeHash L) (ls @ [x]) 32 0), data')
    \<and> length data' = POOL_LEN \<and> frontierOk L (ls @ [x]) (paSideNodes (viewOf data'))
    \<and> viewOf data' = (viewOf data)\<lparr>paSideNodes := paSideNodes (viewOf data')\<rparr>"
  using assms(7-9)
proof (induction "32 - l" arbitrary: l data)
  case 0
  then have [simp]: "l = 32" by simp
  show ?case using 0 n by (intro exI [of _ data]) (simp add: midFrontier_end)
next
  case (Suc m)
  have l: "l < 32" using Suc(2) by simp
  have m: "m = 32 - Suc l" "Suc l \<le> 32" using Suc(2) l by simp_all
  let ?H = "nodeHash L" and ?i = "length ls div 2 ^ l" and ?side = "paSideNodes (viewOf data)"
  let ?nd = "toBytesBE 32 (node ?H (ls @ [x]) l ?i)"
  have up: "[l..<32] = l # [Suc l..<32]" using l by (rule upt_step)
  have i': "?i div 2 = length ls div 2 ^ Suc l" by (rule div_step)
  have parent: "combRef ?H l (if ?i mod 2 = 0 then node ?H (ls @ [x]) l ?i else node ?H (ls @ [x]) l (siblingIndex ?i))
      (if ?i mod 2 = 0 then node ?H (ls @ [x]) l (siblingIndex ?i) else node ?H (ls @ [x]) l ?i) = node ?H (ls @ [x]) (Suc l) (length ls div 2 ^ Suc l)"
    using combRef_parent [of ?H l ?i "ls @ [x]"] by (simp only: i')
  have cur: "node ?H (ls @ [x]) l ?i \<noteq> 0" using noZeroNodeD [OF nz, of l ?i] l div_mult_le [of "length ls" "2 ^ l"] by simp
  show ?case
  proof (cases "even ?i")
    case True
    let ?d = "set_side_node data l ?nd"
    have d: "length ?d = POOL_LEN" "viewOf ?d = (viewOf data)\<lparr>paSideNodes := ?side[l := ?nd]\<rparr>"
      using setter_length(8) [OF Suc(4), of ?nd l] view_side [OF Suc(4), of ?nd l] l by (simp_all add: TREE_LEVELS_def)
    have mid: "midFrontier L ls x (Suc l) (paSideNodes (viewOf ?d))" using midFrontier_even [OF Suc(5) l True] d(2) by simp
    have "node ?H (ls @ [x]) l (?i + 1) = 0"
    proof (rule node_zero)
      have "length ls < (?i + 1) * 2 ^ l" using dividend_less_div_times [of "2 ^ l" "length ls"] by simp
      then show "length (ls @ [x]) \<le> (?i + 1) * 2 ^ l" by simp
    qed
    then have nd': "node ?H (ls @ [x]) (Suc l) (length ls div 2 ^ Suc l) = node ?H (ls @ [x]) l ?i"
      using parent cur True by (simp add: siblingIndex_def combRef_def even_iff_mod_2_eq_zero [symmetric])
    show ?thesis
    proof (cases "?i = 0")
      case True
      have "length (ls @ [x]) \<le> 2 ^ l" using True by (simp add: div_eq_0_iff)
      then have "node ?H (ls @ [x]) 32 0 = node ?H (ls @ [x]) l 0" using node_up [of "ls @ [x]" l ?H "32 - l"] l by simp
      then show ?thesis using True d midFrontier_stop [OF mid True] unfolding up by simp
    next
      case False
      have "frontierWalk hashv [l..<32] data ?nd ?i = frontierWalk hashv [Suc l..<32] ?d ?nd (length ls div 2 ^ Suc l)"
        unfolding up using True False by (simp add: i' even_iff_mod_2_eq_zero [symmetric])
      moreover obtain data' where "frontierWalk hashv [Suc l..<32] ?d (toBytesBE 32 (node ?H (ls @ [x]) (Suc l) (length ls div 2 ^ Suc l))) (length ls div 2 ^ Suc l)
          = Inr (toBytesBE 32 (node ?H (ls @ [x]) 32 0), data')" "length data' = POOL_LEN" "frontierOk L (ls @ [x]) (paSideNodes (viewOf data'))"
        "viewOf data' = (viewOf ?d)\<lparr>paSideNodes := paSideNodes (viewOf data')\<rparr>"
        using Suc(1) [OF m d(1) mid] by blast
      ultimately show ?thesis unfolding nd' d(2) by auto
    qed
  next
    case False
    then have pos: "0 < ?i" by (cases ?i) simp_all
    have old: "node ?H (ls @ [x]) l (?i - 1) = node ?H ls l (?i - 1)" using pos by (intro node_append) simp
    have "?i * 2 ^ l < Suc (length ls)" by (rule le_imp_less_Suc) (rule div_mult_le)
    moreover have "(?i - 1) * 2 ^ l \<le> ?i * 2 ^ l" by simp
    ultimately have "(?i - 1) * 2 ^ l < Suc (length ls)" by (rule order_le_less_trans [rotated])
    then have left: "node ?H (ls @ [x]) l (?i - 1) \<noteq> 0" using noZeroNodeD [OF nz, of l "?i - 1"] l by simp
    have nd': "node ?H (ls @ [x]) (Suc l) (length ls div 2 ^ Suc l) = ?H (node ?H (ls @ [x]) l (?i - 1)) (node ?H (ls @ [x]) l ?i) (int l)"
      using parent cur left False by (simp add: siblingIndex_def combRef_def odd_iff_mod_2_eq_one)
    have side: "side_node data l = toBytesBE 32 (node ?H (ls @ [x]) l (?i - 1))"
      using Suc(5) False l old by (simp add: midFrontier_def viewOf_def TREE_LEVELS_def)
    have fr': "isFr (node ?H (ls @ [x]) k i)" for k i using node_isFr' [OF L(1), of "ls @ [x]"] fr by simp
    have "frontierWalk hashv [l..<32] data ?nd ?i
        = frontierWalk hashv [Suc l..<32] data (toBytesBE 32 (node ?H (ls @ [x]) (Suc l) (length ls div 2 ^ Suc l))) (length ls div 2 ^ Suc l)"
      unfolding up nd' using False rs_hash3_ok [OF L(2) fr' fr' l] by (simp add: i' side odd_iff_mod_2_eq_one del: power_Suc)
    then show ?thesis using Suc(1) [OF m Suc(4) midFrontier_odd [OF Suc(5) l False]] by (simp only:)
  qed
qed

text \<open>One insertion on the account's data.\<close>

lemma rs_insert_ok:
  assumes L: "fr_laws L" "poseidon_agrees hashv L" and r: "poolRepr L ls data" and n: "length ls < 2 ^ 32" and x: "isFr x" "x \<noteq> 0"
    and nz: "noZeroNode (nodeHash L) (ls @ [x]) 32"
  shows "\<exists>data'. rs_insert hashv data (toBytesBE 32 x)
      = Inr (int (length ls), toBytesBE 32 (node (nodeHash L) (ls @ [x]) 32 0), data') \<and> poolRepr L (ls @ [x]) data'
    \<and> (\<exists>side nx cur roots. viewOf data' = (viewOf data)\<lparr>paSideNodes := side, paNextLeafIndex := nx, paRoots := roots, paRootCursor := cur\<rparr>)"
proof -
  let ?root = "node (nodeHash L) (ls @ [x]) 32 0"
  have len: "length data = POOL_LEN" and fr: "list_all isFr ls" using r by (simp_all add: poolRepr_def)
  have leaf: "toBytesBE 32 x \<noteq> ZERO32"
  proof
    assume "toBytesBE 32 x = ZERO32"
    then have "bytesBE (toBytesBE 32 x) = bytesBE (toBytesBE 32 0)" by (simp only: ZERO32_def toBytesBE_zero)
    then show False using x by (simp add: bytesBE_toBytesBE isFr_def BN254_P_def)
  qed
  obtain d1 where d1: "frontierWalk hashv [0..<32] data (toBytesBE 32 x) (length ls) = Inr (toBytesBE 32 ?root, d1)"
    "length d1 = POOL_LEN" "frontierOk L (ls @ [x]) (paSideNodes (viewOf d1))" "viewOf d1 = (viewOf data)\<lparr>paSideNodes := paSideNodes (viewOf d1)\<rparr>"
    using frontierWalk_spec [where l = 0, OF L n fr x(1) nz _ len midFrontier_start] r by (auto simp: poolRepr_def nodeOrZero_def simp del: upt.simps)
  let ?d2 = "set_next_leaf_index d1 (int (length ls) + 1)"
  have next': "next_leaf_index data = int (length ls)" and ring: "ringOkFor L ls (root_cursor data) (paRoots (viewOf data))"
    using r by (simp_all add: poolRepr_def)
  have v2: "viewOf ?d2 = (viewOf data)\<lparr>paSideNodes := paSideNodes (viewOf d1), paNextLeafIndex := int (Suc (length ls))\<rparr>"
    "length ?d2 = POOL_LEN" using view_next [OF d1(2)] setter_length(5) [OF d1(2)] d1(4) n by simp_all
  have pc: "paRootCursor (viewOf data) = root_cursor data" by (simp add: viewOf_def)
  have cur: "root_cursor ?d2 = root_cursor data" using arg_cong [OF v2(1), of paRootCursor] by (simp add: viewOf_def)
  have c256: "root_cursor data = length ls mod 256" "root_cursor ?d2 < 256" using ring cur by (simp_all add: ringOkFor_def)
  let ?d3 = "push_root ?d2 (toBytesBE 32 ?root)"
  have v3: "viewOf ?d3 = (viewOf data)\<lparr>paSideNodes := paSideNodes (viewOf d1), paNextLeafIndex := int (Suc (length ls)),
      paRoots := (paRoots (viewOf data))[length ls mod 256 := toBytesBE 32 ?root], paRootCursor := Suc (length ls) mod 256\<rparr>"
    "length ?d3 = POOL_LEN"
    using view_push [OF v2(2) _ c256(2), of "toBytesBE 32 ?root"] c256(1) v2(1) by (simp_all add: pc mod_Suc_eq)
  have ins: "rs_insert hashv data (toBytesBE 32 x) = Inr (int (length ls), toBytesBE 32 ?root, ?d3)"
    using leaf next' n d1(1) by (simp add: rs_insert_def TREE_LEVELS_def Let_def)
  have f3: "next_leaf_index ?d3 = int (Suc (length ls))" "root_cursor ?d3 = Suc (length ls) mod 256"
    using arg_cong [OF v3(1), of paNextLeafIndex] arg_cong [OF v3(1), of paRootCursor] by (simp_all add: viewOf_def)
  have "ringOkFor L (ls @ [x]) (Suc (length ls) mod 256) ((paRoots (viewOf data))[length ls mod 256 := toBytesBE 32 ?root])"
  proof -
    have "((paRoots (viewOf data))[length ls mod 256 := toBytesBE 32 ?root]) ! (k mod 256) = toBytesBE 32 (node (nodeHash L) (take (Suc k) (ls @ [x])) 32 0)"
      if k: "k < Suc (length ls)" "Suc (length ls) \<le> k + 256" for k
    proof (cases "k = length ls")
      case True
      then show ?thesis using ring by (simp add: ringOkFor_def)
    next
      case False
      then have "0 < length ls - k" "length ls - k < 256" "k \<le> length ls" using k by auto
      then have "k mod 256 \<noteq> length ls mod 256" using mod_eq_dvd_iff_nat [of k "length ls" 256] dvd_imp_le by fastforce
      then show ?thesis using ring k False by (simp add: ringOkFor_def)
    qed
    then show ?thesis using ring by (simp add: ringOkFor_def)
  qed
  then have "poolRepr L (ls @ [x]) ?d3" using v3 f3 n fr x(1) d1(3) by (simp add: poolRepr_def)
  then show ?thesis using ins v3(1) by blast
qed

text \<open>What an insertion does to the account whatever the leaf: only the tree's fields move.\<close>

lemma frontierWalk_shape:
  assumes "frontierWalk hashv ls data nd index = Inr (root, data')" "length data = POOL_LEN" "length nd = 32"
    "\<forall>l\<in>set ls. l < TREE_LEVELS" "\<forall>xs h. hashv xs = Some h \<longrightarrow> length h = 32"
  shows "length data' = POOL_LEN \<and> length root = 32 \<and> (\<exists>side. viewOf data' = (viewOf data)\<lparr>paSideNodes := side\<rparr>)"
  using assms
proof (induction hashv ls data nd index rule: frontierWalk.induct)
  case (1 hashv data nd index)
  have "\<exists>side. viewOf data = (viewOf data)\<lparr>paSideNodes := side\<rparr>" by (rule exI [of _ "paSideNodes (viewOf data)"]) simp
  then show ?case using 1 by simp
next
  case (2 hashv level rest data nd index)
  show ?case
  proof (cases "index mod 2 = 0")
    case True
    let ?d = "set_side_node data level nd"
    have d: "length ?d = POOL_LEN" "viewOf ?d = (viewOf data)\<lparr>paSideNodes := (paSideNodes (viewOf data))[level := nd]\<rparr>"
      using setter_length(8) [OF 2(4), of nd level] view_side [OF 2(4), of nd level] 2(5,6) by simp_all
    show ?thesis
    proof (cases "index = 0")
      case True
      then show ?thesis using 2(3,5) d by auto
    next
      case False
      have "frontierWalk hashv rest ?d nd (index div 2) = Inr (root, data')" using 2(3) True False by simp
      then have "length data' = POOL_LEN \<and> length root = 32 \<and> (\<exists>side. viewOf data' = (viewOf ?d)\<lparr>paSideNodes := side\<rparr>)"
        using 2(1) [OF True refl False _ d(1) 2(5) _ 2(7)] 2(6) by simp
      then show ?thesis unfolding d(2) by auto
    qed
  next
    case False
    then obtain nd' where n: "rs_hash3 hashv (side_node data level) nd level = Inr nd'" "frontierWalk hashv rest data nd' (index div 2) = Inr (root, data')"
      using 2(3) by auto
    have "length nd' = 32" using n(1) 2(7) by (auto simp: rs_hash3_def split: option.splits)
    then show ?thesis using 2(2) [OF False n(2) 2(4) _ _ 2(7)] 2(6) by simp
  qed
qed

lemma next_leaf_index_nonneg: "0 \<le> next_leaf_index data"
  by (simp add: next_leaf_index_def bytesLE_def bytesBE_nonneg)

lemma next_leaf_index_push:
  assumes "length data = POOL_LEN"
  shows "next_leaf_index (push_root data r) = next_leaf_index data"
proof -
  have before: "getAt (putAt d off v) off' n = getAt d off' n" if "off' + n \<le> off" "off' + n \<le> length d" for d off v off' n
    using that by (simp add: getAt_def putAt_def take_drop min_def)
  have off: "OFF_NEXT_LEAF_INDEX + 8 \<le> OFF_ROOT_CURSOR" "OFF_NEXT_LEAF_INDEX + 8 \<le> OFF_ROOTS + c * 32" "OFF_NEXT_LEAF_INDEX + 8 \<le> length data" for c
    using assms by (simp_all add: layout_defs)
  have "OFF_NEXT_LEAF_INDEX + 8 \<le> length (set_root_at data c r)" for c using off(2,3) by (simp add: set_root_at_def putAt_def)
  then show ?thesis using off by (simp add: push_root_def Let_def next_leaf_index_def set_root_cursor_def set_root_at_def before)
qed

lemma rs_insert_next:
  assumes i: "rs_insert hashv data leaf = Inr (i, root, data')" and d: "length data = POOL_LEN" "length leaf = 32"
    and h: "\<forall>xs h. hashv xs = Some h \<longrightarrow> length h = 32"
  shows "next_leaf_index data' = next_leaf_index data + 1"
proof -
  obtain d1 where f: "frontierWalk hashv [0..<TREE_LEVELS] data leaf (nat i) = Inr (root, d1)" "i = next_leaf_index data" "i < 2 ^ 32"
    "data' = push_root (set_next_leaf_index d1 (i + 1)) root"
    using i by (auto simp: rs_insert_def Let_def TREE_LEVELS_def split: if_splits)
  have s: "length d1 = POOL_LEN" using frontierWalk_shape [OF f(1) d(1,2) _ h] by auto
  have "(i + 1) mod 2 ^ 64 = i + 1" using f(2,3) next_leaf_index_nonneg [of data] by simp
  then have "next_leaf_index (set_next_leaf_index d1 (i + 1)) = i + 1"
    using arg_cong [OF view_next [OF s, of "i + 1"], of paNextLeafIndex] by (simp add: viewOf_def)
  then show ?thesis using next_leaf_index_push [OF setter_length(5) [OF s]] f(2,4) by simp
qed

lemma rs_insert_shape:
  assumes i: "rs_insert hashv data leaf = Inr (i, root, data')" and d: "length data = POOL_LEN" "length leaf = 32" "root_cursor data < 256"
    and h: "\<forall>xs h. hashv xs = Some h \<longrightarrow> length h = 32"
  shows "i = next_leaf_index data" "i < 2 ^ 32" "leaf \<noteq> ZERO32" "length data' = POOL_LEN" "next_leaf_index data' = i + 1" "root_cursor data' < 256"
    "\<exists>side nx roots cur. viewOf data' = (viewOf data)\<lparr>paSideNodes := side, paNextLeafIndex := nx, paRoots := roots, paRootCursor := cur\<rparr>"
proof -
  obtain d1 where f: "frontierWalk hashv [0..<TREE_LEVELS] data leaf (nat i) = Inr (root, d1)" "i = next_leaf_index data" "i < 2 ^ 32"
    "leaf \<noteq> ZERO32" "data' = push_root (set_next_leaf_index d1 (i + 1)) root"
    using i by (auto simp: rs_insert_def Let_def TREE_LEVELS_def split: if_splits)
  obtain side where s: "length d1 = POOL_LEN" "length root = 32" "viewOf d1 = (viewOf data)\<lparr>paSideNodes := side\<rparr>"
    using frontierWalk_shape [OF f(1) d(1,2) _ h] by auto
  let ?d2 = "set_next_leaf_index d1 (i + 1)"
  have i0: "(i + 1) mod 2 ^ 64 = i + 1" using f(2,3) next_leaf_index_nonneg [of data] by simp
  have v2: "length ?d2 = POOL_LEN" "viewOf ?d2 = (viewOf data)\<lparr>paSideNodes := side, paNextLeafIndex := i + 1\<rparr>"
    using setter_length(5) [OF s(1)] view_next [OF s(1)] s(3) i0 by simp_all
  have c2: "root_cursor ?d2 < 256" using arg_cong [OF v2(2), of paRootCursor] d(3) by (simp add: viewOf_def)
  note v3 = view_push [OF v2(1) s(2) c2]
  show "i = next_leaf_index data" "i < 2 ^ 32" "leaf \<noteq> ZERO32" by (fact f)+
  show "length data' = POOL_LEN" using v3(2) f(5) by simp
  show "next_leaf_index data' = i + 1" using arg_cong [OF v3(1), of paNextLeafIndex] f(5) v2(2) by (simp add: viewOf_def)
  show "root_cursor data' < 256" using arg_cong [OF v3(1), of paRootCursor] f(5) by (simp add: viewOf_def)
  show "\<exists>side nx roots cur. viewOf data' = (viewOf data)\<lparr>paSideNodes := side, paNextLeafIndex := nx, paRoots := roots, paRootCursor := cur\<rparr>"
    unfolding f(5) v3(1) v2(2) by (intro exI) simp
qed

section \<open>Properties\<close>

fun rsInsertAll :: "poseidon_syscall \<Rightarrow> byte list \<Rightarrow> byte list list \<Rightarrow> byte list program_result" where
  "rsInsertAll hashv data [] = Inr data"
| "rsInsertAll hashv data (x # xs) = bindR (rs_insert hashv data x) (\<lambda>(i, root, data'). rsInsertAll hashv data' xs)"

definition noZeroRun :: "libs \<Rightarrow> int list \<Rightarrow> bool" where
  "noZeroRun L ls \<longleftrightarrow> (\<forall>k\<le>length ls. noZeroNode (nodeHash L) (take k ls) 32)"

lemma rsInsertAll_ok:
  assumes L: "fr_laws L" "poseidon_agrees hashv L" and r: "poolRepr L ls data" and x: "list_all isFr xs" "0 \<notin> set xs"
    and n: "length ls + length xs \<le> 2 ^ 32" and nz: "noZeroRun L (ls @ xs)"
  shows "\<exists>data'. rsInsertAll hashv data (map (toBytesBE 32) xs) = Inr data' \<and> poolRepr L (ls @ xs) data'"
  using r x n nz
proof (induction xs arbitrary: ls data)
  case Nil
  then show ?case by simp
next
  case (Cons x xs)
  have "noZeroNode (nodeHash L) (take (Suc (length ls)) (ls @ x # xs)) 32"
    using Cons.prems(5) unfolding noZeroRun_def by (rule allE [of _ "Suc (length ls)"]) simp
  then have z: "noZeroNode (nodeHash L) (ls @ [x]) 32" by simp
  obtain root data1 where d1: "rs_insert hashv data (toBytesBE 32 x) = Inr (int (length ls), root, data1)" "poolRepr L (ls @ [x]) data1"
    using rs_insert_ok [OF L Cons.prems(1) _ _ _ z] Cons.prems by auto
  show ?case using Cons.IH [OF d1(2)] Cons.prems d1(1) by simp
qed

lemma fresh_repr:
  assumes "length data = POOL_LEN" "next_leaf_index data = 0" "root_cursor data = 0"
  shows "poolRepr L [] data"
  using assms by (simp add: poolRepr_def frontierOk_def ringOkFor_def viewOf_def TREE_LEVELS_def ROOT_RING_def)

lemma repr_recent_root:
  assumes r: "poolRepr L ls data" and k: "k < length ls" "length ls \<le> k + 256"
  shows "\<exists>pool i. decodePool data = Inr pool \<and> rootIndexFor pool (toBytesBE 32 (node (nodeHash L) (take (Suc k) ls) 32 0)) = Inr (Some i)
    \<and> i < 256 \<and> root_at data i = toBytesBE 32 (node (nodeHash L) (take (Suc k) ls) 32 0)"
proof -
  let ?r = "toBytesBE 32 (node (nodeHash L) (take (Suc k) ls) 32 0)"
  have d: "decodePool data = Inr (viewOf data)" using r by (simp add: decodePool_view poolRepr_def)
  have "root_at data (k mod 256) = ?r" using r k by (simp add: poolRepr_def ringOkFor_def viewOf_def ROOT_RING_def)
  moreover have "k mod 256 < ROOT_RING" by (simp add: ROOT_RING_def)
  ultimately have "is_known_root data ?r" unfolding is_known_root_def list_ex_iff by (intro bexI [of _ "k mod 256"]) simp_all
  then show ?thesis using root_index_resolves [OF d, of ?r] d by (auto simp del: toBytesBE.simps)
qed

text \<open>one tree on chain and off chain.  Started from a zeroed pool account, the program's frontier insertion accepts
  every list of non-zero field elements the tree has room for; for each of the last 256 insertions, the root that the
  wallet's tree has after the same leaves is found by the client's ring lookup, and the slot it names holds it: a proof
  against a root stays usable for 255 further insertions.\<close>

theorem onchain_tree_agrees:
  assumes L: "fr_laws L" "poseidon_agrees hashv L" and t: "newLeanIMT 32 = Inr t"
    and d: "length data = POOL_LEN" "next_leaf_index data = 0" "root_cursor data = 0"
    and x: "list_all isFr leaves" "0 \<notin> set leaves" "length leaves \<le> 2 ^ 32" "noZeroRun L leaves"
  shows "\<exists>data' pool. rsInsertAll hashv data (map (toBytesBE 32) leaves) = Inr data' \<and> decodePool data' = Inr pool
    \<and> paNextLeafIndex pool = int (length leaves)
    \<and> (\<forall>k < length leaves. length leaves \<le> k + 256 \<longrightarrow>
        (\<exists>tk i. insertAll (imtInsert L) t (take (Suc k) leaves) = Inr tk \<and> rootIndexFor pool (toBytesBE 32 (imtGetRoot tk)) = Inr (Some i)
          \<and> root_at data' i = toBytesBE 32 (imtGetRoot tk)))"
proof -
  obtain data' where d': "rsInsertAll hashv data (map (toBytesBE 32) leaves) = Inr data'" "poolRepr L leaves data'"
    using rsInsertAll_ok [OF L fresh_repr [OF d] x(1,2)] x(3,4) by auto
  have p: "decodePool data' = Inr (viewOf data')" "paNextLeafIndex (viewOf data') = int (length leaves)"
    using d'(2) by (simp_all add: decodePool_view poolRepr_def viewOf_def)
  have "\<exists>tk i. insertAll (imtInsert L) t (take (Suc k) leaves) = Inr tk \<and> rootIndexFor (viewOf data') (toBytesBE 32 (imtGetRoot tk)) = Inr (Some i)
      \<and> root_at data' i = toBytesBE 32 (imtGetRoot tk)" if k: "k < length leaves" "length leaves \<le> k + 256" for k
  proof -
    have "0 \<notin> set (take (Suc k) leaves)" using x(2) by (meson in_set_takeD)
    moreover have "length (take (Suc k) leaves) \<le> 2 ^ 32" using x(3) by simp
    ultimately obtain tk where tk: "insertAll (imtInsert L) t (take (Suc k) leaves) = Inr tk" "imtGetRoot tk = node (nodeHash L) (take (Suc k) leaves) 32 0"
      using sdkTree.built_tree [OF newLeanIMT_repr [OF L(1) t]] by blast
    then show ?thesis using repr_recent_root [OF d'(2) k] p(1) by auto
  qed
  then show ?thesis using d'(1) p by blast
qed

text \<open>A hash for concrete runs.\<close>

definition toyPoseidon :: poseidon_syscall where
  "toyPoseidon xs = (case xs of [a, b, c] \<Rightarrow> Some (toBytesBE 32 (circomPoseidon toyLibs [bytesBE a, bytesBE b, bytesBE c])) | _ \<Rightarrow> None)"

lemma toy_agrees: "poseidon_agrees toyPoseidon toyLibs"
  by (simp add: poseidon_agrees_def toyPoseidon_def bytesBE_toBytesBE isFr_def BN254_P_def)

lemma noZeroNode_raise:
  assumes "noZeroNode H ls d" "length ls \<le> 2 ^ d" "d \<le> d'"
  shows "noZeroNode H ls d'"
  unfolding noZeroNode_def
proof (intro allI impI)
  fix l i
  assume l: "l \<le> d'" "i * 2 ^ l < length ls"
  show "node H ls l i \<noteq> 0"
  proof (cases "l \<le> d")
    case True
    then show ?thesis using noZeroNodeD [OF assms(1)] l by blast
  next
    case False
    have "i * 2 ^ l < 2 ^ d * 1" using l(2) assms(2) by linarith
    moreover have "(2::nat) ^ d \<le> 2 ^ l" using False by (simp add: power_increasing)
    ultimately have i: "i = 0" by (cases i) auto
    then have "node H ls l 0 = node H ls d 0" using node_up [OF assms(2), of H "l - d"] False by simp
    then show ?thesis using noZeroNodeD [OF assms(1), of d 0] l(2) i by simp
  qed
qed

lemma toy_noZero:
  shows "noZeroNode (nodeHash toyLibs) [5] 32" "noZeroNode (nodeHash toyLibs) [5, 6] 32" "noZeroNode (nodeHash toyLibs) [5, 6, 7] 32"
proof -
  have a: "node (nodeHash toyLibs) [5] 0 0 \<noteq> 0" "\<forall>l\<in>{0, 1::nat}. \<forall>i\<in>{0, 1::nat}. i * 2 ^ l < 2 \<longrightarrow> node (nodeHash toyLibs) [5, 6] l i \<noteq> 0" by code_simp+
  have "noZeroNode (nodeHash toyLibs) [5] 0" using a(1) by (simp add: noZeroNode_def)
  then show "noZeroNode (nodeHash toyLibs) [5] 32" by (rule noZeroNode_raise) simp_all
  have "noZeroNode (nodeHash toyLibs) [5, 6] 1"
    unfolding noZeroNode_def
  proof (intro allI impI)
    fix l i :: nat
    assume l: "l \<le> 1" "i * 2 ^ l < length [5, 6::int]"
    have "i \<le> i * 2 ^ l" by simp
    also have "i * 2 ^ l < 2" using l(2) by simp
    finally have "i < 2" .
    then have "i \<in> {0, 1}" "l \<in> {0, 1}" using l(1) by auto
    then show "node (nodeHash toyLibs) [5, 6] l i \<noteq> 0" using a(2) l(2) by auto
  qed
  then show "noZeroNode (nodeHash toyLibs) [5, 6] 32" by (rule noZeroNode_raise) simp_all
  show "noZeroNode (nodeHash toyLibs) [5, 6, 7] 32" by (rule noZeroNode_raise [OF toyNode_nonzero]) simp_all
qed


lemma toy_noZeroRun: "noZeroRun toyLibs [5, 6, 7]"
proof -
  have "noZeroNode (nodeHash toyLibs) (take k [5, 6, 7]) 32" if "k \<le> 3" for k
  proof -
    have "k = 0 \<or> k = 1 \<or> k = 2 \<or> k = 3" using that by linarith
    then show ?thesis using toy_noZero by (auto simp: noZeroNode_def [of _ "[]"])
  qed
  then show ?thesis by (simp add: noZeroRun_def)
qed

theorem onchain_tree_agrees_witness:
  "\<exists>t data' pool. newLeanIMT 32 = Inr t \<and> rsInsertAll toyPoseidon (replicate POOL_LEN 0) (map (toBytesBE 32) [5, 6, 7]) = Inr data'
    \<and> decodePool data' = Inr pool \<and> paNextLeafIndex pool = 3
    \<and> (\<forall>k < length [5, 6, 7::int]. length [5, 6, 7::int] \<le> k + 256 \<longrightarrow>
        (\<exists>tk i. insertAll (imtInsert toyLibs) t (take (Suc k) [5, 6, 7]) = Inr tk \<and> rootIndexFor pool (toBytesBE 32 (imtGetRoot tk)) = Inr (Some i)
          \<and> root_at data' i = toBytesBE 32 (imtGetRoot tk)))"
proof -
  obtain t where t: "newLeanIMT 32 = Inr t" by (simp add: newLeanIMT_def)
  have "next_leaf_index (replicate POOL_LEN 0) = 0" "root_cursor (replicate POOL_LEN 0) = 0"
    by (simp_all add: next_leaf_index_def root_cursor_def getAt_def layout_defs) code_simp
  then obtain data' pool where "rsInsertAll toyPoseidon (replicate POOL_LEN 0) (map (toBytesBE 32) [5, 6, 7]) = Inr data'"
    "decodePool data' = Inr pool" "paNextLeafIndex pool = int (length [5, 6, 7::int])"
    "\<forall>k < length [5, 6, 7::int]. length [5, 6, 7::int] \<le> k + 256 \<longrightarrow>
        (\<exists>tk i. insertAll (imtInsert toyLibs) t (take (Suc k) [5, 6, 7]) = Inr tk \<and> rootIndexFor pool (toBytesBE 32 (imtGetRoot tk)) = Inr (Some i)
          \<and> root_at data' i = toBytesBE 32 (imtGetRoot tk))"
    using onchain_tree_agrees [OF toyLibs_fr_laws toy_agrees t, of "replicate POOL_LEN 0" "[5, 6, 7]"] toy_noZeroRun
    by (auto simp: isFr_def BN254_P_def)
  then show ?thesis using t by (intro exI conjI) simp_all
qed

end
