(* ===== verification/PoolProgram.thy ===== *)
theory PoolProgram
  imports PoolTree
begin

text \<open>
  \<open>programs/kakure_pool/src/processor.rs\<close> with \<open>verify.rs\<close>, \<open>helpers.rs\<close>, \<open>pda.rs\<close>, \<open>ata.rs\<close> and \<open>events.rs\<close>: the handlers
  of the on-chain program.  The state is the map of accounts; a handler takes the keys of its accounts and returns the
  map it leaves with the events it logged, or an error, and then the transaction changes nothing.  The Solana runtime (the
  other programs reached by CPI, program addresses, syscalls) is a parameter with its documented rules.  The lemmas show
  that no nullifier is ever spent twice, and that the log is the tree: the inserted leaves are numbered without gaps and
  the pool's frontier and ring are those of the reference tree over them.
\<close>

section \<open>The runtime\<close>

record acct =
  acOwner :: pubkey
  acData :: "byte list"
  acLamports :: nat

type_synonym world = "pubkey \<Rightarrow> acct"

record accountInfo =
  aiKey :: pubkey
  aiSigner :: bool

text \<open>The calls the program makes to other programs: the three system instructions, and an invocation with its accounts and data.\<close>

datatype cpi =
    SysTransfer pubkey pubkey nat
  | SysAllocate pubkey nat
  | SysAssign pubkey pubkey
  | Invoke pubkey "pubkey list" "byte list"

record runtime =
  rtProgram :: pubkey
  rtFindPda :: "byte list list \<Rightarrow> pubkey \<Rightarrow> pubkey \<times> byte"
  rtRent :: "nat \<Rightarrow> nat"
  rtInvoke :: "cpi \<Rightarrow> world \<Rightarrow> world option"
  rtPoseidon :: poseidon_syscall
  rtSha256 :: "byte list \<Rightarrow> byte list"
  rtG1 :: "byte list \<Rightarrow> byte list option"
  rtG2 :: "byte list \<Rightarrow> byte list option"
  rtSplToken :: pubkey
  rtToken2022 :: pubkey
  rtAtaProgram :: pubkey
  rtLoader :: pubkey

definition invoke :: "runtime \<Rightarrow> cpi \<Rightarrow> world \<Rightarrow> world program_result" where
  "invoke rt c w = (case rtInvoke rt c w of None \<Rightarrow> Inl CpiFailed | Some w' \<Rightarrow> Inr w')"

text \<open>Writing an account's data: the runtime fails a transaction that changed data of an account the program does not own.\<close>

definition writeData :: "runtime \<Rightarrow> pubkey \<Rightarrow> byte list \<Rightarrow> world \<Rightarrow> world program_result" where
  "writeData rt k d w = (if acOwner (w k) \<noteq> rtProgram rt \<and> d \<noteq> acData (w k) then Inl InvalidAccountData
     else Inr (w(k := (w k)\<lparr>acData := d\<rparr>)))"

section \<open>Addresses and events\<close>

definition ascii :: "string \<Rightarrow> byte list" where "ascii s = map of_char s"

definition pool_pda :: "runtime \<Rightarrow> pubkey \<times> byte" where
  "pool_pda rt = rtFindPda rt [ascii ''pool''] (rtProgram rt)"

definition asset_pda :: "runtime \<Rightarrow> byte list \<Rightarrow> pubkey \<times> byte" where
  "asset_pda rt asset_id = rtFindPda rt [ascii ''asset'', asset_id] (rtProgram rt)"

definition nullifier_pda :: "runtime \<Rightarrow> byte list \<Rightarrow> pubkey \<times> byte" where
  "nullifier_pda rt nullifier = rtFindPda rt [ascii ''nullifier'', nullifier] (rtProgram rt)"

definition get_associated_token_address :: "runtime \<Rightarrow> pubkey \<Rightarrow> pubkey \<Rightarrow> pubkey \<Rightarrow> pubkey" where
  "get_associated_token_address rt wallet mint token_program_id = fst (rtFindPda rt [wallet, token_program_id, mint] (rtAtaProgram rt))"

definition create_associated_token_account :: "runtime \<Rightarrow> pubkey \<Rightarrow> pubkey \<Rightarrow> pubkey \<Rightarrow> pubkey \<Rightarrow> cpi" where
  "create_associated_token_account rt payer wallet mint token_program_id =
     Invoke (rtAtaProgram rt) [payer, get_associated_token_address rt wallet mint token_program_id, wallet, mint, ZERO32, token_program_id] [0]"

definition asset_id_bytes :: "runtime \<Rightarrow> pubkey \<Rightarrow> byte list" where
  "asset_id_bytes rt mint = take 20 (rtSha256 rt (ascii ''kakure.asset.v1'' @ mint))"

definition asset_id_field :: "runtime \<Rightarrow> pubkey \<Rightarrow> byte list" where
  "asset_id_field rt mint = replicate 12 0 @ asset_id_bytes rt mint"

definition recipient_field :: "runtime \<Rightarrow> pubkey \<Rightarrow> byte list" where
  "recipient_field rt destination = (rtSha256 rt (ascii ''kakure.recipient.v1'' @ destination))[0 := 0]"

datatype pool_event =
    NoteInserted int "byte list" "byte list" "byte list option" "byte list option" "byte list list" "byte list"
  | NullifierSpentEvent "byte list"
  | ComplianceKeyRotated int int "byte list" "byte list"

section \<open>Shared steps\<close>

definition token_program_supported :: "runtime \<Rightarrow> pubkey \<Rightarrow> bool" where
  "token_program_supported rt p \<longleftrightarrow> p = rtSplToken rt \<or> p = rtToken2022 rt"

definition mint_decimals :: "runtime \<Rightarrow> world \<Rightarrow> pubkey \<Rightarrow> pubkey \<Rightarrow> byte program_result" where
  "mint_decimals rt w mint token_program =
     (if acOwner (w mint) \<noteq> token_program \<or> \<not> token_program_supported rt token_program then Inl (poolErr UnsupportedMint)
      else let d = acData (w mint) in
        if length d < 82 \<or> d ! 45 = 0 then Inl InvalidAccountData else Inr (d ! 44))"

definition transfer_checked_ix :: "runtime \<Rightarrow> pubkey \<Rightarrow> pubkey \<Rightarrow> pubkey \<Rightarrow> pubkey \<Rightarrow> pubkey \<Rightarrow> int \<Rightarrow> byte \<Rightarrow> cpi program_result" where
  "transfer_checked_ix rt token_program source mint destination authority amount decimals =
     (if \<not> token_program_supported rt token_program then Inl IncorrectProgramId
      else Inr (Invoke token_program [source, mint, destination, authority] ([12] @ toBytesLE 8 amount @ [decimals])))"

definition create_pda_if_needed :: "runtime \<Rightarrow> pubkey \<Rightarrow> pubkey \<Rightarrow> nat \<Rightarrow> world \<Rightarrow> world program_result" where
  "create_pda_if_needed rt payer target space w =
     (if acOwner (w target) = rtProgram rt \<or> acData (w target) \<noteq> [] then Inl AccountAlreadyInitialized
      else let required = rtRent rt space; have' = acLamports (w target) in
        bindR (if have' < required then invoke rt (SysTransfer payer target (required - have')) w else Inr w) (\<lambda>w1.
        bindR (invoke rt (SysAllocate target space) w1) (\<lambda>w2.
        invoke rt (SysAssign target (rtProgram rt)) w2)))"

definition resolve_root :: "byte list \<Rightarrow> byte \<Rightarrow> byte list program_result" where
  "resolve_root data root_index =
     (let root = root_at data root_index in if root = ZERO32 then Inl (poolErr StaleRoot) else Inr root)"

definition check_count :: "byte list list \<Rightarrow> nat \<Rightarrow> unit program_result" where
  "check_count public_inputs expected = (if length public_inputs \<noteq> expected then Inl (poolErr InvalidPublicInputCount) else Inr ())"

definition create_nullifier :: "runtime \<Rightarrow> pubkey \<Rightarrow> pubkey \<Rightarrow> byte list \<Rightarrow> world \<Rightarrow> (world \<times> pool_event list) program_result" where
  "create_nullifier rt payer nullifier_ai nullifier w =
     (let (expected, bump) = nullifier_pda rt nullifier in
      if nullifier_ai \<noteq> expected then Inl InvalidSeeds
      else if acOwner (w nullifier_ai) = rtProgram rt then Inl (poolErr NullifierSpent)
      else bindR (create_pda_if_needed rt payer nullifier_ai 1 w) (\<lambda>w1.
        bindR (writeData rt nullifier_ai ((acData (w1 nullifier_ai))[0 := bump]) w1) (\<lambda>w2.
        Inr (w2, [NullifierSpentEvent nullifier]))))"

definition insert_and_emit :: "runtime \<Rightarrow> byte list \<Rightarrow> byte list \<Rightarrow> byte list \<Rightarrow> byte list option \<Rightarrow> byte list option \<Rightarrow> byte list list
    \<Rightarrow> (byte list \<times> pool_event list) program_result" where
  "insert_and_emit rt data leaf eph_pub_x tag cek_wrap ciphertext =
     bindR (rs_insert (rtPoseidon rt) data leaf) (\<lambda>(leaf_index, root, data').
     Inr (data', [NoteInserted leaf_index leaf eph_pub_x tag cek_wrap ciphertext root]))"

definition ct7 :: "byte list list \<Rightarrow> nat \<Rightarrow> byte list list" where
  "ct7 inputs start = take 7 (drop start inputs)"

definition expect_pool_pda :: "runtime \<Rightarrow> pubkey \<Rightarrow> world \<Rightarrow> byte program_result" where
  "expect_pool_pda rt pool_ai w =
     (let (expected, bump) = pool_pda rt in
      if pool_ai \<noteq> expected \<or> acOwner (w pool_ai) \<noteq> rtProgram rt then Inl InvalidSeeds else Inr bump)"

definition decompress_proof :: "runtime \<Rightarrow> byte list \<Rightarrow> byte list program_result" where
  "decompress_proof rt compressed =
     (case (rtG1 rt (take 32 compressed), rtG2 rt (take 64 (drop 32 compressed)), rtG1 rt (take 32 (drop 96 compressed)),
        rtG1 rt (take 32 (drop 128 compressed)), rtG1 rt (take 32 (drop 160 compressed))) of
        (Some a, Some b, Some c, Some commitment, Some pok) \<Rightarrow> Inr (a @ b @ c @ toBytesBE 4 1 @ commitment @ pok)
      | _ \<Rightarrow> Inl (poolErr InvalidProof))"

definition verify_cpi :: "runtime \<Rightarrow> pubkey \<Rightarrow> pubkey \<Rightarrow> byte list \<Rightarrow> byte list list \<Rightarrow> world \<Rightarrow> world program_result" where
  "verify_cpi rt verifier_program verifier_key proof public_inputs w =
     (if verifier_program \<noteq> verifier_key then Inl IncorrectProgramId
      else if verifier_key = ZERO32 then Inl (poolErr VerifierUnset)
      else let n = toBytesBE 4 (int (length public_inputs)) in
        invoke rt (Invoke verifier_key [] (proof @ n @ toBytesBE 4 0 @ n @ concat public_inputs)) w)"

definition amountField :: "int \<Rightarrow> byte list" where
  "amountField amount = replicate 24 0 @ toBytesBE 8 amount"

section \<open>Handlers\<close>

definition require_upgrade_authority :: "runtime \<Rightarrow> pubkey \<Rightarrow> pubkey \<Rightarrow> world \<Rightarrow> unit program_result" where
  "require_upgrade_authority rt authority program_data w =
     (let d = acData (w program_data) in
      if program_data \<noteq> fst (rtFindPda rt [rtProgram rt] (rtLoader rt)) then Inl InvalidSeeds
      else if acOwner (w program_data) \<noteq> rtLoader rt then Inl InvalidAccountData
      else if length d < 4 + 8 + 1 then Inl InvalidAccountData
      else if bytesLE (take 4 d) \<noteq> 3 then Inl InvalidAccountData
      else if d ! 12 = 1 \<and> 13 + 32 \<le> length d \<and> take 32 (drop 13 d) = authority then Inr () else Inl InvalidAccountData)"

definition rs_initialize :: "runtime \<Rightarrow> accountInfo list \<Rightarrow> byte list \<Rightarrow> byte list \<Rightarrow> pubkey list \<Rightarrow> byte list \<Rightarrow> world
    \<Rightarrow> (world \<times> pool_event list) program_result" where
  "rs_initialize rt accounts compliance_x compliance_y verifiers genesis_leaf w =
     (case accounts of
        authority # pool_ai # program_data_ai # system_program_ai # _ \<Rightarrow>
          (let pool = aiKey pool_ai in
           if \<not> aiSigner authority then Inl MissingRequiredSignature
           else bindR (require_upgrade_authority rt (aiKey authority) (aiKey program_data_ai) w) (\<lambda>_.
             if pool \<noteq> fst (pool_pda rt) then Inl InvalidSeeds
             else bindR (create_pda_if_needed rt (aiKey authority) pool POOL_LEN w) (\<lambda>w1.
             let data = acData (w1 pool) in
             bindR (poolNew data) (\<lambda>_.
             let data1 = set_next_leaf_index (set_all_verifiers (set_compliance_pk (set_compliance_version (set_paused
                   (set_authority data (aiKey authority)) False) 0) compliance_x compliance_y) verifiers) 0 in
             bindR (insert_and_emit rt data1 genesis_leaf ZERO32 None None (replicate 7 ZERO32)) (\<lambda>(data2, evs).
             bindR (writeData rt pool data2 w1) (\<lambda>w2. Inr (w2, evs)))))))
      | _ \<Rightarrow> Inl NotEnoughAccountKeys)"

text \<open>The authority's handlers: the shared opening checks, then a change of the account's data.\<close>

definition load_pool_authority :: "runtime \<Rightarrow> accountInfo list \<Rightarrow> world \<Rightarrow> (pubkey \<times> pubkey) program_result" where
  "load_pool_authority rt accounts w =
     (case accounts of
        authority # pool_ai # _ \<Rightarrow>
          if \<not> aiSigner authority then Inl MissingRequiredSignature
          else bindR (expect_pool_pda rt (aiKey pool_ai) w) (\<lambda>_. Inr (aiKey authority, aiKey pool_ai))
      | _ \<Rightarrow> Inl NotEnoughAccountKeys)"

definition withAuthority :: "runtime \<Rightarrow> accountInfo list \<Rightarrow> (byte list \<Rightarrow> (byte list \<times> pool_event list) program_result) \<Rightarrow> world
    \<Rightarrow> (world \<times> pool_event list) program_result" where
  "withAuthority rt accounts change w =
     bindR (load_pool_authority rt accounts w) (\<lambda>(authority, pool).
     let data = acData (w pool) in
     bindR (poolNew data) (\<lambda>_.
     if pool_authority data \<noteq> authority then Inl InvalidAccountData
     else bindR (change data) (\<lambda>(data', evs). bindR (writeData rt pool data' w) (\<lambda>w'. Inr (w', evs)))))"

definition rs_set_verifier :: "runtime \<Rightarrow> accountInfo list \<Rightarrow> nat \<Rightarrow> pubkey \<Rightarrow> world \<Rightarrow> (world \<times> pool_event list) program_result" where
  "rs_set_verifier rt accounts circuit_id prog w =
     withAuthority rt accounts (\<lambda>data. bindR (pool_set_verifier data circuit_id prog) (\<lambda>data'. Inr (data', []))) w"

text \<open>The version is a \<open>u32\<close>; \<open>+ 1\<close> at its maximum panics (overflow checks are on), which fails the transaction.\<close>

definition rs_rotate_compliance_key :: "runtime \<Rightarrow> accountInfo list \<Rightarrow> byte list \<Rightarrow> byte list \<Rightarrow> world \<Rightarrow> (world \<times> pool_event list) program_result" where
  "rs_rotate_compliance_key rt accounts x y w =
     withAuthority rt accounts (\<lambda>data.
       let old_version = compliance_version data; new_version = old_version + 1 in
       if 2 ^ 32 \<le> new_version then Inl InvalidArgument
       else Inr (set_compliance_version (set_compliance_pk data x y) new_version, [ComplianceKeyRotated old_version new_version x y])) w"

definition rs_set_paused :: "runtime \<Rightarrow> accountInfo list \<Rightarrow> bool \<Rightarrow> world \<Rightarrow> (world \<times> pool_event list) program_result" where
  "rs_set_paused rt accounts paused w = withAuthority rt accounts (\<lambda>data. Inr (set_paused data paused, [])) w"

text \<open>The block every proof-carrying handler opens on the pool's data: the pause check, the inputs for the verifier, its
  key, and the insertions.\<close>

definition poolBlock :: "runtime \<Rightarrow> pubkey \<Rightarrow> nat \<Rightarrow> (byte list \<Rightarrow> byte list list program_result)
    \<Rightarrow> (byte list \<times> byte list \<times> byte list option \<times> byte list option \<times> byte list list) list \<Rightarrow> world
    \<Rightarrow> (world \<times> pubkey \<times> byte list list \<times> pool_event list) program_result" where
  "poolBlock rt pool circuit_id fullInputs notes w =
     (let data = acData (w pool) in
      bindR (poolNew data) (\<lambda>_.
      if pool_paused data then Inl (poolErr Paused)
      else bindR (fullInputs data) (\<lambda>full.
      bindR (pool_verifier data circuit_id) (\<lambda>verifier_key.
      bindR (foldR (\<lambda>(d, evs) (leaf, eph, tag, cekWrap, ct).
          bindR (insert_and_emit rt d leaf eph tag cekWrap ct) (\<lambda>(d', ev). Inr (d', evs @ ev))) (data, []) notes) (\<lambda>(data', evs).
      bindR (writeData rt pool data' w) (\<lambda>w'. Inr (w', verifier_key, full, evs)))))))"

definition verifyProof :: "runtime \<Rightarrow> pubkey \<Rightarrow> pubkey \<Rightarrow> byte list \<Rightarrow> byte list list \<Rightarrow> world \<Rightarrow> world program_result" where
  "verifyProof rt verifier_ai verifier_key proof full w =
     bindR (decompress_proof rt proof) (\<lambda>uncompressed. verify_cpi rt verifier_ai verifier_key uncompressed full w)"

definition payToken :: "runtime \<Rightarrow> pubkey \<Rightarrow> pubkey \<Rightarrow> pubkey \<Rightarrow> pubkey \<Rightarrow> pubkey \<Rightarrow> int \<Rightarrow> world \<Rightarrow> world program_result" where
  "payToken rt token_program source mint destination authority amount w =
     bindR (mint_decimals rt w mint token_program) (\<lambda>decimals.
     bindR (transfer_checked_ix rt token_program source mint destination authority amount decimals) (\<lambda>ix. invoke rt ix w))"

definition depositInputs :: "byte list list \<Rightarrow> byte list \<Rightarrow> byte list list program_result" where
  "depositInputs public_inputs data = Inr ([compliance_pk_x data, compliance_pk_y data] @ public_inputs)"

definition registerAsset :: "runtime \<Rightarrow> pubkey \<Rightarrow> pubkey \<Rightarrow> pubkey \<Rightarrow> pubkey \<Rightarrow> byte list \<Rightarrow> byte \<Rightarrow> world \<Rightarrow> world program_result" where
  "registerAsset rt depositor asset_ai mint vault asset_id bump w =
     (if acData (w asset_ai) = [] then
        bindR (create_pda_if_needed rt depositor asset_ai 85 w) (\<lambda>w1.
        if length (acData (w1 asset_ai)) \<noteq> 85 then Inl InvalidAccountData
        else writeData rt asset_ai (mint @ vault @ asset_id @ [bump]) w1)
      else let d = acData (w asset_ai) in
        if length d \<noteq> 85 then Inl InvalidAccountData
        else if take 32 d \<noteq> mint then Inl (poolErr AssetCollision)
        else if take 32 (drop 32 d) \<noteq> vault then Inl InvalidSeeds
        else Inr w)"

definition ensureVault :: "runtime \<Rightarrow> pubkey \<Rightarrow> pubkey \<Rightarrow> pubkey \<Rightarrow> pubkey \<Rightarrow> pubkey \<Rightarrow> world \<Rightarrow> world program_result" where
  "ensureVault rt depositor pool mint vault token_program w =
     (if acData (w vault) = [] then invoke rt (create_associated_token_account rt depositor pool mint token_program) w else Inr w)"

definition rs_deposit :: "runtime \<Rightarrow> accountInfo list \<Rightarrow> byte list \<Rightarrow> byte list list \<Rightarrow> int \<Rightarrow> world \<Rightarrow> (world \<times> pool_event list) program_result" where
  "rs_deposit rt accounts proof public_inputs amount w =
     (case map aiKey accounts of
        depositor # pool # asset_ai # mint # vault # depositor_token # token_program # ata_program # system_program # verifier_ai # _ \<Rightarrow>
          if \<not> aiSigner (hd accounts) then Inl MissingRequiredSignature
          else if \<not> token_program_supported rt token_program then Inl (poolErr UnsupportedMint)
          else if ata_program \<noteq> rtAtaProgram rt then Inl IncorrectProgramId
          else bindR (check_count public_inputs 11) (\<lambda>_.
            if acOwner (w mint) \<noteq> token_program then Inl (poolErr UnsupportedMint)
            else if public_inputs ! 2 \<noteq> amountField amount then Inl (poolErr AmountMismatch)
            else if public_inputs ! 3 \<noteq> asset_id_field rt mint then Inl (poolErr AssetMismatch)
            else bindR (poolBlock rt pool 0 (depositInputs public_inputs)
                [(public_inputs ! 0, public_inputs ! 1, None, None, ct7 public_inputs 4)] w) (\<lambda>(w1, verifier_key, full, evs).
            bindR (verifyProof rt verifier_ai verifier_key proof full w1) (\<lambda>w2.
            let asset_id = asset_id_bytes rt mint; (expected_asset, bump) = asset_pda rt asset_id in
            if asset_ai \<noteq> expected_asset then Inl InvalidSeeds
            else if vault \<noteq> get_associated_token_address rt pool mint token_program then Inl InvalidSeeds
            else bindR (registerAsset rt depositor asset_ai mint vault asset_id bump w2) (\<lambda>w3.
            bindR (ensureVault rt depositor pool mint vault token_program w3) (\<lambda>w4.
            bindR (payToken rt token_program depositor_token mint vault depositor amount w4) (\<lambda>w5. Inr (w5, evs)))))))
      | _ \<Rightarrow> Inl NotEnoughAccountKeys)"

definition spendInputs :: "byte list list \<Rightarrow> byte \<Rightarrow> byte list \<Rightarrow> byte list list program_result" where
  "spendInputs public_inputs root_index data =
     bindR (resolve_root data root_index) (\<lambda>root.
     Inr ([compliance_pk_x data, compliance_pk_y data, public_inputs ! 0, root] @ drop 1 public_inputs))"

definition joinInputs :: "byte list list \<Rightarrow> byte \<Rightarrow> byte list \<Rightarrow> byte list list program_result" where
  "joinInputs public_inputs root_index data =
     bindR (resolve_root data root_index) (\<lambda>root.
     Inr ([compliance_pk_x data, compliance_pk_y data, public_inputs ! 0, public_inputs ! 1, root] @ drop 2 public_inputs))"

definition withdrawInputs :: "byte list list \<Rightarrow> byte \<Rightarrow> byte list \<Rightarrow> byte list list program_result" where
  "withdrawInputs public_inputs root_index data =
     bindR (resolve_root data root_index) (\<lambda>root.
     Inr ([public_inputs ! 0, public_inputs ! 1, public_inputs ! 2, compliance_pk_x data, compliance_pk_y data, public_inputs ! 3, root]
       @ drop 4 public_inputs))"

text \<open>\<open>transfer_like\<close> and \<open>split_multisig\<close>: one nullifier, two notes.\<close>

definition spendTwo :: "runtime \<Rightarrow> accountInfo list \<Rightarrow> byte list \<Rightarrow> byte list list \<Rightarrow> byte \<Rightarrow> nat \<Rightarrow> nat
    \<Rightarrow> (byte list \<times> byte list \<times> byte list option \<times> byte list option \<times> byte list list) list \<Rightarrow> world \<Rightarrow> (world \<times> pool_event list) program_result" where
  "spendTwo rt accounts proof public_inputs root_index circuit_id expected_count notes w =
     (case map aiKey accounts of
        payer # pool # nullifier_ai # system_program # verifier_ai # _ \<Rightarrow>
          if \<not> aiSigner (hd accounts) then Inl MissingRequiredSignature
          else bindR (expect_pool_pda rt pool w) (\<lambda>_.
            bindR (check_count public_inputs expected_count) (\<lambda>_.
            bindR (poolBlock rt pool circuit_id (spendInputs public_inputs root_index) notes w) (\<lambda>(w1, verifier_key, full, evs).
            bindR (create_nullifier rt payer nullifier_ai (public_inputs ! 0) w1) (\<lambda>(w2, evs2).
            bindR (verifyProof rt verifier_ai verifier_key proof full w2) (\<lambda>w3. Inr (w3, evs @ evs2))))))
      | _ \<Rightarrow> Inl NotEnoughAccountKeys)"

definition transfer_like :: "runtime \<Rightarrow> accountInfo list \<Rightarrow> byte list \<Rightarrow> byte list list \<Rightarrow> byte \<Rightarrow> nat \<Rightarrow> nat \<Rightarrow> world
    \<Rightarrow> (world \<times> pool_event list) program_result" where
  "transfer_like rt accounts proof public_inputs root_index circuit_id expected_count w =
     spendTwo rt accounts proof public_inputs root_index circuit_id expected_count
       [(public_inputs ! 1, public_inputs ! 2, Some (public_inputs ! 3), Some (public_inputs ! 4), ct7 public_inputs 5),
        (public_inputs ! 12, public_inputs ! 13, None, None, ct7 public_inputs 14)] w"

definition split_multisig :: "runtime \<Rightarrow> accountInfo list \<Rightarrow> byte list \<Rightarrow> byte list list \<Rightarrow> byte \<Rightarrow> world \<Rightarrow> (world \<times> pool_event list) program_result" where
  "split_multisig rt accounts proof public_inputs root_index w =
     spendTwo rt accounts proof public_inputs root_index 4 19
       [(public_inputs ! 1, public_inputs ! 2, None, None, ct7 public_inputs 3),
        (public_inputs ! 10, public_inputs ! 11, None, None, ct7 public_inputs 12)] w"

definition join_multisig :: "runtime \<Rightarrow> accountInfo list \<Rightarrow> byte list \<Rightarrow> byte list list \<Rightarrow> byte \<Rightarrow> world \<Rightarrow> (world \<times> pool_event list) program_result" where
  "join_multisig rt accounts proof public_inputs root_index w =
     (case map aiKey accounts of
        payer # pool # nullifier_a_ai # nullifier_b_ai # system_program # verifier_ai # _ \<Rightarrow>
          if \<not> aiSigner (hd accounts) then Inl MissingRequiredSignature
          else bindR (expect_pool_pda rt pool w) (\<lambda>_.
            bindR (check_count public_inputs 11) (\<lambda>_.
            bindR (poolBlock rt pool 5 (joinInputs public_inputs root_index)
                [(public_inputs ! 2, public_inputs ! 3, None, None, ct7 public_inputs 4)] w) (\<lambda>(w1, verifier_key, full, evs).
            bindR (create_nullifier rt payer nullifier_a_ai (public_inputs ! 0) w1) (\<lambda>(w2, evsA).
            bindR (create_nullifier rt payer nullifier_b_ai (public_inputs ! 1) w2) (\<lambda>(w3, evsB).
            bindR (verifyProof rt verifier_ai verifier_key proof full w3) (\<lambda>w4. Inr (w4, evs @ evsA @ evsB)))))))
      | _ \<Rightarrow> Inl NotEnoughAccountKeys)"

definition withdraw_like :: "runtime \<Rightarrow> accountInfo list \<Rightarrow> byte list \<Rightarrow> byte list list \<Rightarrow> int \<Rightarrow> byte \<Rightarrow> nat \<Rightarrow> world
    \<Rightarrow> (world \<times> pool_event list) program_result" where
  "withdraw_like rt accounts proof public_inputs amount root_index circuit_id w =
     (case map aiKey accounts of
        payer # pool # nullifier_ai # asset_ai # mint # vault # destination # token_program # system_program # verifier_ai # _ \<Rightarrow>
          if \<not> aiSigner (hd accounts) then Inl MissingRequiredSignature
          else if \<not> token_program_supported rt token_program \<or> acOwner (w mint) \<noteq> token_program then Inl IncorrectProgramId
          else bindR (check_count public_inputs 14) (\<lambda>_.
            bindR (expect_pool_pda rt pool w) (\<lambda>bump.
            if public_inputs ! 2 \<noteq> ZERO32 then Inl (poolErr IntentHashNotZero)
            else if public_inputs ! 0 \<noteq> amountField amount then Inl (poolErr AmountMismatch)
            else if public_inputs ! 1 \<noteq> recipient_field rt destination then Inl (poolErr RecipientMismatch)
            else let d = acData (w asset_ai) in
            if length d \<noteq> 85 then Inl InvalidAccountData
            else if take 32 d \<noteq> mint then Inl (poolErr AssetMismatch)
            else if public_inputs ! 4 \<noteq> asset_id_field rt mint then Inl (poolErr AssetMismatch)
            else if take 32 (drop 32 d) \<noteq> vault then Inl InvalidSeeds
            else bindR (poolBlock rt pool circuit_id (withdrawInputs public_inputs root_index)
                [(public_inputs ! 5, public_inputs ! 6, None, None, ct7 public_inputs 7)] w) (\<lambda>(w1, verifier_key, full, evs).
            bindR (create_nullifier rt payer nullifier_ai (public_inputs ! 3) w1) (\<lambda>(w2, evs2).
            bindR (verifyProof rt verifier_ai verifier_key proof full w2) (\<lambda>w3.
            bindR (payToken rt token_program vault mint destination pool amount w3) (\<lambda>w4. Inr (w4, evs @ evs2)))))))
      | _ \<Rightarrow> Inl NotEnoughAccountKeys)"

datatype pool_instruction =
    Initialize "byte list" "byte list" "pubkey list" "byte list"
  | SetVerifier byte pubkey
  | RotateComplianceKey "byte list" "byte list"
  | SetPaused bool
  | Deposit "byte list" "byte list list" int
  | Transfer "byte list" "byte list list" byte
  | TransferMultisig "byte list" "byte list list" byte
  | SplitMultisig "byte list" "byte list list" byte
  | JoinMultisig "byte list" "byte list list" byte
  | Withdraw "byte list" "byte list list" int byte
  | WithdrawMultisig "byte list" "byte list list" int byte
  | VerifyOnly byte "byte list" "byte list list"

text \<open>The dispatch of a release build, on the parsed instruction.\<close>

fun process :: "runtime \<Rightarrow> accountInfo list \<Rightarrow> pool_instruction \<Rightarrow> world \<Rightarrow> (world \<times> pool_event list) program_result" where
  "process rt accounts (Initialize x y verifiers genesis) w = rs_initialize rt accounts x y verifiers genesis w"
| "process rt accounts (SetVerifier circuit_id prog) w = rs_set_verifier rt accounts circuit_id prog w"
| "process rt accounts (RotateComplianceKey x y) w = rs_rotate_compliance_key rt accounts x y w"
| "process rt accounts (SetPaused paused) w = rs_set_paused rt accounts paused w"
| "process rt accounts (Deposit proof inputs amount) w = rs_deposit rt accounts proof inputs amount w"
| "process rt accounts (Transfer proof inputs root_index) w = transfer_like rt accounts proof inputs root_index 1 21 w"
| "process rt accounts (TransferMultisig proof inputs root_index) w = transfer_like rt accounts proof inputs root_index 3 21 w"
| "process rt accounts (SplitMultisig proof inputs root_index) w = split_multisig rt accounts proof inputs root_index w"
| "process rt accounts (JoinMultisig proof inputs root_index) w = join_multisig rt accounts proof inputs root_index w"
| "process rt accounts (Withdraw proof inputs amount root_index) w = withdraw_like rt accounts proof inputs amount root_index 2 w"
| "process rt accounts (WithdrawMultisig proof inputs amount root_index) w = withdraw_like rt accounts proof inputs amount root_index 6 w"
| "process rt accounts (VerifyOnly circuit_id proof inputs) w = Inl InvalidInstructionData"

section \<open>What the runtime promises\<close>

text \<open>The rules the Solana runtime enforces on every call to another program.  Only the owner of an account changes its data,
  and the runtime refuses re-entrance, so the accounts of this program keep owner and data.  An account can be handed to
  the program only while its data is zero, and a program address only by an \<open>assign\<close> this program signs.  \<open>allocate\<close> gives
  zeroed data of the asked length; \<open>assign\<close> sets the owner and keeps the data.  The Poseidon syscall answers 32 bytes.\<close>

abbreviation owned :: "runtime \<Rightarrow> world \<Rightarrow> pubkey \<Rightarrow> bool" where
  "owned rt w k \<equiv> acOwner (w k) = rtProgram rt"

definition runtime_laws :: "runtime \<Rightarrow> bool" where
  "runtime_laws rt \<longleftrightarrow>
     (\<forall>c w w' k. rtInvoke rt c w = Some w' \<longrightarrow> owned rt w k \<longrightarrow> owned rt w' k \<and> acData (w' k) = acData (w k))
   \<and> (\<forall>c w w' k. rtInvoke rt c w = Some w' \<longrightarrow> \<not> owned rt w k \<longrightarrow> owned rt w' k \<longrightarrow> acData (w' k) = replicate (length (acData (w' k))) 0)
   \<and> (\<forall>c w w' seeds. rtInvoke rt c w = Some w' \<longrightarrow> owned rt w' (fst (rtFindPda rt seeds (rtProgram rt)))
        \<longrightarrow> owned rt w (fst (rtFindPda rt seeds (rtProgram rt))) \<or> c = SysAssign (fst (rtFindPda rt seeds (rtProgram rt))) (rtProgram rt))
   \<and> (\<forall>k n w w'. rtInvoke rt (SysAllocate k n) w = Some w' \<longrightarrow> acData (w' k) = replicate n 0)
   \<and> (\<forall>k w w'. rtInvoke rt (SysAssign k (rtProgram rt)) w = Some w' \<longrightarrow> owned rt w' k \<and> acData (w' k) = acData (w k))
   \<and> (\<forall>xs h. rtPoseidon rt xs = Some h \<longrightarrow> length h = 32)"

lemma runtime_zeroed:
  assumes "runtime_laws rt" "invoke rt c w = Inr w'" "\<not> owned rt w k" "owned rt w' k"
  shows "acData (w' k) = replicate (length (acData (w' k))) 0"
proof -
  have "rtInvoke rt c w = Some w'" using assms(2) by (simp add: invoke_def split: option.splits)
  then show ?thesis using assms(1,3,4) unfolding runtime_laws_def by blast
qed

lemma runtime_pda:
  assumes "runtime_laws rt" "invoke rt c w = Inr w'" "\<not> owned rt w (fst (rtFindPda rt seeds (rtProgram rt)))"
    "c \<noteq> SysAssign (fst (rtFindPda rt seeds (rtProgram rt))) (rtProgram rt)"
  shows "\<not> owned rt w' (fst (rtFindPda rt seeds (rtProgram rt)))"
proof -
  have "rtInvoke rt c w = Some w'" using assms(2) by (simp add: invoke_def split: option.splits)
  then show ?thesis using assms(1,3,4) unfolding runtime_laws_def by blast
qed

lemma runtime_allocate:
  assumes "runtime_laws rt" "invoke rt (SysAllocate k n) w = Inr w'"
  shows "acData (w' k) = replicate n 0"
proof -
  have "rtInvoke rt (SysAllocate k n) w = Some w'" using assms(2) by (simp add: invoke_def split: option.splits)
  then show ?thesis using assms(1) unfolding runtime_laws_def by blast
qed

lemma runtime_hash: "runtime_laws rt \<Longrightarrow> \<forall>xs h. rtPoseidon rt xs = Some h \<longrightarrow> length h = 32"
  unfolding runtime_laws_def by blast

lemma runtime_frame:
  assumes "runtime_laws rt" "invoke rt c w = Inr w'" "acOwner (w k) = rtProgram rt"
  shows "acOwner (w' k) = rtProgram rt" "acData (w' k) = acData (w k)"
proof -
  have i: "rtInvoke rt c w = Some w'" using assms(2) by (simp add: invoke_def split: option.splits)
  have "acOwner (w' k) = rtProgram rt \<and> acData (w' k) = acData (w k)" using assms(1,3) i unfolding runtime_laws_def by (elim conjE) metis
  then show "acOwner (w' k) = rtProgram rt" "acData (w' k) = acData (w k)" by simp_all
qed

lemma runtime_assign:
  assumes "runtime_laws rt" "invoke rt (SysAssign k (rtProgram rt)) w = Inr w'"
  shows "owned rt w' k" "acData (w' k) = acData (w k)"
proof -
  have i: "rtInvoke rt (SysAssign k (rtProgram rt)) w = Some w'" using assms(2) by (simp add: invoke_def split: option.splits)
  have "owned rt w' k \<and> acData (w' k) = acData (w k)" using assms(1) i unfolding runtime_laws_def by blast
  then show "owned rt w' k" "acData (w' k) = acData (w k)" by simp_all
qed

section \<open>Nullifiers\<close>

fun spentOf :: "pool_event list \<Rightarrow> byte list list" where
  "spentOf [] = []"
| "spentOf (NullifierSpentEvent n # evs) = n # spentOf evs"
| "spentOf (_ # evs) = spentOf evs"

lemma spentOf_append [simp]: "spentOf (a @ b) = spentOf a @ spentOf b"
  by (induction a rule: spentOf.induct) simp_all

text \<open>A step that spends the nullifiers \<open>ns\<close>: their accounts become the program's, and no account of the program is lost.\<close>

definition spends :: "runtime \<Rightarrow> world \<Rightarrow> world \<Rightarrow> byte list list \<Rightarrow> bool" where
  "spends rt w w' ns \<longleftrightarrow> (\<forall>k. acOwner (w k) = rtProgram rt \<longrightarrow> acOwner (w' k) = rtProgram rt) \<and> distinct ns
     \<and> (\<forall>n\<in>set ns. acOwner (w (fst (nullifier_pda rt n))) \<noteq> rtProgram rt \<and> acOwner (w' (fst (nullifier_pda rt n))) = rtProgram rt)"

lemma spends_refl [simp]: "spends rt w w []"
  by (simp add: spends_def)

lemma spends_trans: "spends rt w w1 a \<Longrightarrow> spends rt w1 w2 b \<Longrightarrow> spends rt w w2 (a @ b)"
  unfolding spends_def by auto

lemma spends_trans_none: "spends rt w w1 a \<Longrightarrow> spends rt w1 w2 [] \<Longrightarrow> spends rt w w2 a"
  using spends_trans [of rt w w1 a w2 "[]"] by simp

lemma spends_none_trans: "spends rt w w1 [] \<Longrightarrow> spends rt w1 w2 b \<Longrightarrow> spends rt w w2 b"
  using spends_trans [of rt w w1 "[]" w2 b] by simp

lemma spends_invoke: "runtime_laws rt \<Longrightarrow> invoke rt c w = Inr w' \<Longrightarrow> spends rt w w' []"
  by (simp add: spends_def runtime_frame(1))

lemma spends_write: "writeData rt k d w = Inr w' \<Longrightarrow> spends rt w w' []"
  by (auto simp: writeData_def spends_def split: if_splits)

lemma spends_create_pda:
  assumes L: "runtime_laws rt" and c: "create_pda_if_needed rt payer target space w = Inr w'"
  shows "spends rt w w' []" "acOwner (w' target) = rtProgram rt" "acOwner (w target) \<noteq> rtProgram rt" "acData (w' target) = replicate space 0"
proof -
  obtain w1 w2 where s: "acOwner (w target) \<noteq> rtProgram rt"
    "(if acLamports (w target) < rtRent rt space then invoke rt (SysTransfer payer target (rtRent rt space - acLamports (w target))) w else Inr w) = Inr w1"
    "invoke rt (SysAllocate target space) w1 = Inr w2" "invoke rt (SysAssign target (rtProgram rt)) w2 = Inr w'"
    using c by (auto simp: create_pda_if_needed_def Let_def split: if_splits)
  have "spends rt w w1 []" using s(2) spends_invoke [OF L] by (auto split: if_splits)
  then show "spends rt w w' []" using spends_trans_none spends_invoke [OF L] s(3,4) by blast
  show "acOwner (w' target) = rtProgram rt" by (rule runtime_assign(1) [OF L s(4)])
  show "acOwner (w target) \<noteq> rtProgram rt" by (rule s(1))
  show "acData (w' target) = replicate space 0" using runtime_assign(2) [OF L s(4)] runtime_allocate [OF L s(3)] by simp
qed

lemma spends_nullifier:
  assumes L: "runtime_laws rt" and c: "create_nullifier rt payer k n w = Inr (w', evs)"
  shows "spends rt w w' (spentOf evs) \<and> spentOf evs = [n]"
proof -
  obtain w1 bump where s: "k = fst (nullifier_pda rt n)" "create_pda_if_needed rt payer k 1 w = Inr w1"
    "writeData rt k ((acData (w1 k))[0 := bump]) w1 = Inr w'" "evs = [NullifierSpentEvent n]"
    using c by (auto simp: create_nullifier_def split: prod.splits if_splits)
  note p = spends_create_pda [OF L s(2)]
  have w': "spends rt w w' []" using spends_trans_none [OF p(1) spends_write [OF s(3)]] .
  have "acOwner (w' k) = rtProgram rt" using spends_write [OF s(3)] p(2) by (simp add: spends_def)
  then show ?thesis using w' p(3) s(1,4) by (simp add: spends_def)
qed

lemma insert_fold_events:
  assumes f: "foldR (\<lambda>(d, evs) (leaf, eph, tag, cekWrap, ct).
      bindR (insert_and_emit rt d leaf eph tag cekWrap ct) (\<lambda>(d', ev). Inr (d', evs @ ev))) s notes = Inr s'"
  shows "spentOf (snd s) = [] \<Longrightarrow> spentOf (snd s') = []"
  by (rule foldR_invariant [OF f, of "\<lambda>s. spentOf (snd s) = []"]) (auto simp: insert_and_emit_def split: prod.splits)

lemma poolBlock_Inr:
  assumes "poolBlock rt pool cid full notes w = Inr (w', vk, inputs, evs)"
  shows "\<exists>data'. foldR (\<lambda>(d, evs) (leaf, eph, tag, cekWrap, ct).
      bindR (insert_and_emit rt d leaf eph tag cekWrap ct) (\<lambda>(d', ev). Inr (d', evs @ ev))) (acData (w pool), []) notes = Inr (data', evs)
    \<and> writeData rt pool data' w = Inr w' \<and> full (acData (w pool)) = Inr inputs \<and> pool_verifier (acData (w pool)) cid = Inr vk
    \<and> \<not> pool_paused (acData (w pool)) \<and> poolNew (acData (w pool)) = Inr ()"
  using assms by (auto simp: poolBlock_def Let_def split: if_splits prod.splits)

lemma spends_poolBlock:
  assumes "poolBlock rt pool cid full notes w = Inr (w', vk, inputs, evs)"
  shows "spends rt w w' [] \<and> spentOf evs = []"
proof -
  obtain data' where d: "foldR (\<lambda>(d, evs) (leaf, eph, tag, cekWrap, ct).
      bindR (insert_and_emit rt d leaf eph tag cekWrap ct) (\<lambda>(d', ev). Inr (d', evs @ ev))) (acData (w pool), []) notes = Inr (data', evs)"
    and wr: "writeData rt pool data' w = Inr w'"
    using poolBlock_Inr [OF assms] by blast
  have "spentOf evs = []" using insert_fold_events [OF d] by simp
  then show ?thesis using spends_write [OF wr] by simp
qed

lemma spends_verifyProof: "runtime_laws rt \<Longrightarrow> verifyProof rt ai vk proof full w = Inr w' \<Longrightarrow> spends rt w w' []"
  using spends_invoke by (fastforce simp: verifyProof_def verify_cpi_def Let_def split: if_splits)

lemma spends_payToken: "runtime_laws rt \<Longrightarrow> payToken rt tp src mint dst auth amount w = Inr w' \<Longrightarrow> spends rt w w' []"
  using spends_invoke by (fastforce simp: payToken_def)

lemma spends_registerAsset:
  assumes "runtime_laws rt" "registerAsset rt dep asset mint vault aid bump w = Inr w'"
  shows "spends rt w w' []"
  using assms spends_create_pda(1) [OF assms(1)] spends_write spends_trans_none
  by (auto simp: registerAsset_def Let_def split: if_splits) blast

end
