(* ===== verification/PoolLog.thy ===== *)
theory PoolLog
  imports PoolProgram
begin

text \<open>
  Runs of the on-chain program: any sequence of its calls, with any other transactions in between.  The theorems are over
  every world and log a run reaches: no nullifier is logged twice, although the accounts, their order and the foreign
  calls are the attacker's; and the log is the tree: the logged leaves are numbered without gaps, and the wallet's tree
  rebuilt from the log alone has a root the pool accepts.  The second one holds although \<open>deposit\<close> never checks that the
  account it is given is the pool: an account made to look like the pool has no verifier.
\<close>

section \<open>What the pool account records\<close>

abbreviation thePool :: "runtime \<Rightarrow> pubkey" where
  "thePool rt \<equiv> fst (pool_pda rt)"

fun insertedOf :: "pool_event list \<Rightarrow> (int \<times> byte list) list" where
  "insertedOf [] = []"
| "insertedOf (NoteInserted i leaf eph tag cek ct root # evs) = (i, leaf) # insertedOf evs"
| "insertedOf (_ # evs) = insertedOf evs"

lemma insertedOf_append [simp]: "insertedOf (a @ b) = insertedOf a @ insertedOf b"
  by (induction a rule: insertedOf.induct) simp_all

definition canonicalLeaf :: "byte list \<Rightarrow> bool" where
  "canonicalLeaf leaf \<longleftrightarrow> isFr (bytesBE leaf) \<and> leaf = toBytesBE 32 (bytesBE leaf)"

text \<open>The account's tree is the tree of the logged insertions: by number, and by value where the leaves are field elements.\<close>

definition tracks :: "runtime \<Rightarrow> libs \<Rightarrow> byte list \<Rightarrow> (int \<times> byte list) list \<Rightarrow> bool" where
  "tracks rt L data ins \<longleftrightarrow> length data = POOL_LEN \<and> root_cursor data < 256 \<and> next_leaf_index data = int (length ins)
     \<and> map fst ins = map int [0..<length ins]
     \<and> (fr_laws L \<longrightarrow> poseidon_agrees (rtPoseidon rt) L \<longrightarrow> list_all (canonicalLeaf \<circ> snd) ins \<longrightarrow> noZeroRun L (map (bytesBE \<circ> snd) ins)
        \<longrightarrow> poolRepr L (map (bytesBE \<circ> snd) ins) data)"

lemma noZeroRun_prefix: "noZeroRun L (ls @ xs) \<Longrightarrow> noZeroRun L ls"
proof -
  assume a: "noZeroRun L (ls @ xs)"
  have "noZeroNode (nodeHash L) (take k ls) 32" if "k \<le> length ls" for k
  proof -
    have "noZeroNode (nodeHash L) (take k (ls @ xs)) 32" using a [unfolded noZeroRun_def, THEN spec, of k] that by simp
    then show ?thesis using that by simp
  qed
  then show ?thesis by (simp add: noZeroRun_def)
qed

lemma noZeroRun_all: "noZeroRun L ls \<Longrightarrow> noZeroNode (nodeHash L) ls 32"
  using spec [of "\<lambda>k. k \<le> length ls \<longrightarrow> noZeroNode (nodeHash L) (take k ls) 32" "length ls"] by (simp add: noZeroRun_def)

lemma noZeroRun_nonzero:
  assumes "noZeroRun L ls"
  shows "0 \<notin> set ls"
proof
  assume "0 \<in> set ls"
  then obtain i where "i < length ls" "ls ! i = 0" by (auto simp: in_set_conv_nth)
  then show False using noZeroNodeD [OF noZeroRun_all [OF assms], of 0 i] by (simp add: nodeOrZero_def)
qed

lemma tracks_insert:
  assumes h: "\<forall>xs h. rtPoseidon rt xs = Some h \<longrightarrow> length h = 32" and t: "tracks rt L data ins" "length leaf = 32"
    and i: "rs_insert (rtPoseidon rt) data leaf = Inr (i, root, data')"
  shows "tracks rt L data' (ins @ [(i, leaf)])"
proof -
  have d: "length data = POOL_LEN" "root_cursor data < 256" "next_leaf_index data = int (length ins)" "map fst ins = map int [0..<length ins]"
    using t(1) by (simp_all add: tracks_def)
  note s = rs_insert_shape [OF i d(1) t(2) d(2) h]
  let ?ls = "map (bytesBE \<circ> snd) ins" and ?x = "bytesBE leaf"
  have "poolRepr L (?ls @ [?x]) data'" if L: "fr_laws L" "poseidon_agrees (rtPoseidon rt) L"
    and c: "list_all (canonicalLeaf \<circ> snd) (ins @ [(i, leaf)])" and z: "noZeroRun L (?ls @ [?x])"
  proof -
    have r: "poolRepr L ?ls data" using t(1) L c noZeroRun_prefix [OF z] by (simp add: tracks_def)
    have leaf: "leaf = toBytesBE 32 ?x" "isFr ?x" using c by (simp_all add: canonicalLeaf_def)
    have x0: "?x \<noteq> 0" using leaf(1) s(3) by (metis ZERO32_def toBytesBE_zero)
    have n: "length ?ls < 2 ^ 32" using s(1,2) d(3) by simp
    obtain data'' where "rs_insert (rtPoseidon rt) data (toBytesBE 32 ?x)
        = Inr (int (length ?ls), toBytesBE 32 (node (nodeHash L) (?ls @ [?x]) 32 0), data'')" "poolRepr L (?ls @ [?x]) data''"
      using rs_insert_ok [OF L r n leaf(2) x0 noZeroRun_all [OF z]] by blast
    then show ?thesis using i leaf(1) by simp
  qed
  then show ?thesis using s d by (simp add: tracks_def)
qed

text \<open>Changes of the other fields keep the tree.\<close>

definition sameTree :: "byte list \<Rightarrow> byte list \<Rightarrow> bool" where
  "sameTree data data' \<longleftrightarrow> length data' = POOL_LEN \<and> paNextLeafIndex (viewOf data') = paNextLeafIndex (viewOf data)
     \<and> paSideNodes (viewOf data') = paSideNodes (viewOf data) \<and> paRootCursor (viewOf data') = paRootCursor (viewOf data)
     \<and> paRoots (viewOf data') = paRoots (viewOf data)"

lemma tracks_sameTree:
  assumes "sameTree data data'" "tracks rt L data ins"
  shows "tracks rt L data' ins"
proof -
  have "next_leaf_index data' = next_leaf_index data" "root_cursor data' = root_cursor data"
    using assms(1) by (simp_all add: sameTree_def viewOf_def)
  moreover from this have "poolRepr L ls data \<Longrightarrow> poolRepr L ls data'" for ls
    using assms(1) by (simp add: poolRepr_def sameTree_def)
  ultimately show ?thesis using assms by (simp add: tracks_def sameTree_def)
qed

section \<open>The invariant of the accounts\<close>

text \<open>Accounts of the program that have the pool's size are the pool, or still all zero.\<close>

definition forgedZero :: "runtime \<Rightarrow> world \<Rightarrow> bool" where
  "forgedZero rt w \<longleftrightarrow> (\<forall>k. k \<noteq> thePool rt \<longrightarrow> owned rt w k \<longrightarrow> length (acData (w k)) = POOL_LEN \<longrightarrow> acData (w k) = replicate POOL_LEN 0)"

definition poolInv :: "runtime \<Rightarrow> libs \<Rightarrow> world \<Rightarrow> (int \<times> byte list) list \<Rightarrow> bool" where
  "poolInv rt L w ins \<longleftrightarrow> forgedZero rt w
     \<and> (if owned rt w (thePool rt) then ins \<noteq> [] \<and> tracks rt L (acData (w (thePool rt))) ins else ins = [])"

definition keepsPool :: "runtime \<Rightarrow> world \<Rightarrow> world \<Rightarrow> bool" where
  "keepsPool rt w w' \<longleftrightarrow> (owned rt w (thePool rt) \<longleftrightarrow> owned rt w' (thePool rt))
     \<and> (owned rt w (thePool rt) \<longrightarrow> acData (w' (thePool rt)) = acData (w (thePool rt)))
     \<and> (forgedZero rt w \<longrightarrow> forgedZero rt w')"

lemma keepsPool_refl [simp]: "keepsPool rt w w"
  by (simp add: keepsPool_def)

lemma keepsPool_trans [trans]: "keepsPool rt w w1 \<Longrightarrow> keepsPool rt w1 w2 \<Longrightarrow> keepsPool rt w w2"
  by (simp add: keepsPool_def)

lemma keepsPool_inv: "keepsPool rt w w' \<Longrightarrow> poolInv rt L w ins \<Longrightarrow> poolInv rt L w' ins"
  by (auto simp: keepsPool_def poolInv_def split: if_splits)

lemma keepsPool_owned: "keepsPool rt w w' \<Longrightarrow> owned rt w (thePool rt) \<Longrightarrow> owned rt w' (thePool rt)"
  by (simp add: keepsPool_def)

lemma forgedZero_invoke:
  assumes L: "runtime_laws rt" and i: "invoke rt c w = Inr w'" and f: "forgedZero rt w"
  shows "forgedZero rt w'"
  unfolding forgedZero_def
proof (intro allI impI)
  fix k
  assume k: "k \<noteq> thePool rt" "owned rt w' k" "length (acData (w' k)) = POOL_LEN"
  show "acData (w' k) = replicate POOL_LEN 0"
  proof (cases "owned rt w k")
    case True
    then show ?thesis using f k runtime_frame(2) [OF L i True] by (simp add: forgedZero_def)
  next
    case False
    then show ?thesis using runtime_zeroed [OF L i False k(2)] k(3) by simp
  qed
qed

lemma keepsPool_invoke:
  assumes L: "runtime_laws rt" and i: "invoke rt c w = Inr w'" and c: "c \<noteq> SysAssign (thePool rt) (rtProgram rt)"
  shows "keepsPool rt w w'"
proof -
  have "owned rt w (thePool rt) \<longleftrightarrow> owned rt w' (thePool rt)"
    using runtime_frame(1) [OF L i] runtime_pda [OF L i, of "[ascii ''pool'']"] c by (auto simp: pool_pda_def)
  then show ?thesis using runtime_frame(2) [OF L i] forgedZero_invoke [OF L i] by (simp add: keepsPool_def)
qed

lemma keepsPool_write:
  assumes "writeData rt k d w = Inr w'" "k \<noteq> thePool rt" "length d \<noteq> POOL_LEN"
  shows "keepsPool rt w w'"
  using assms by (auto simp: writeData_def keepsPool_def forgedZero_def split: if_splits)

lemma keepsPool_create:
  assumes L: "runtime_laws rt" and c: "create_pda_if_needed rt payer target space w = Inr w'" and t: "target \<noteq> thePool rt"
  shows "keepsPool rt w w'"
proof -
  obtain w1 w2 where s:
    "(if acLamports (w target) < rtRent rt space then invoke rt (SysTransfer payer target (rtRent rt space - acLamports (w target))) w else Inr w) = Inr w1"
    "invoke rt (SysAllocate target space) w1 = Inr w2" "invoke rt (SysAssign target (rtProgram rt)) w2 = Inr w'"
    using c by (auto simp: create_pda_if_needed_def Let_def split: if_splits)
  have "keepsPool rt w w1" using s(1) keepsPool_invoke [OF L] by (auto split: if_splits)
  also have "keepsPool rt w1 w2" using keepsPool_invoke [OF L s(2)] by simp
  also have "keepsPool rt w2 w'" using keepsPool_invoke [OF L s(3)] t by simp
  finally show ?thesis .
qed

lemma keepsPool_nullifier:
  assumes L: "runtime_laws rt" and c: "create_nullifier rt payer k n w = Inr (w', evs)" and o: "owned rt w (thePool rt)"
  shows "keepsPool rt w w'" "insertedOf evs = []"
proof -
  obtain w1 bump where s: "create_pda_if_needed rt payer k 1 w = Inr w1"
    "writeData rt k ((acData (w1 k))[0 := bump]) w1 = Inr w'" "evs = [NullifierSpentEvent n]"
    using c by (auto simp: create_nullifier_def split: prod.splits if_splits)
  note p = spends_create_pda [OF L s(1)]
  have k: "k \<noteq> thePool rt" using p(3) o by auto
  have "length ((acData (w1 k))[0 := bump]) \<noteq> POOL_LEN" using p(4) by (simp add: layout_defs)
  then show "keepsPool rt w w'" using keepsPool_trans [OF keepsPool_create [OF L s(1) k] keepsPool_write [OF s(2) k]] by blast
  show "insertedOf evs = []" by (simp add: s(3))
qed

lemma keepsPool_verifyProof: "runtime_laws rt \<Longrightarrow> verifyProof rt ai vk proof full w = Inr w' \<Longrightarrow> keepsPool rt w w'"
  using keepsPool_invoke by (fastforce simp: verifyProof_def verify_cpi_def Let_def split: if_splits)

lemma keepsPool_payToken: "runtime_laws rt \<Longrightarrow> payToken rt tp src mint dst auth amount w = Inr w' \<Longrightarrow> keepsPool rt w w'"
  using keepsPool_invoke by (fastforce simp: payToken_def transfer_checked_ix_def split: if_splits)

lemma keepsPool_registerAsset:
  assumes L: "runtime_laws rt" and r: "registerAsset rt dep asset mint vault aid bump w = Inr w'" and o: "owned rt w (thePool rt)"
    and n: "length mint = 32" "length vault = 32" "length aid \<le> 20"
  shows "keepsPool rt w w'"
proof (cases "acData (w asset) = []")
  case True
  then obtain w1 where s: "create_pda_if_needed rt dep asset 85 w = Inr w1" "writeData rt asset (mint @ vault @ aid @ [bump]) w1 = Inr w'"
    using r by (auto simp: registerAsset_def split: if_splits)
  have k: "asset \<noteq> thePool rt" using spends_create_pda(3) [OF L s(1)] o by auto
  have "length (mint @ vault @ aid @ [bump]) \<noteq> POOL_LEN" using n by (simp add: layout_defs)
  then show ?thesis using keepsPool_trans [OF keepsPool_create [OF L s(1) k] keepsPool_write [OF s(2) k]] by blast
next
  case False
  then show ?thesis using r by (auto simp: registerAsset_def Let_def split: if_splits)
qed

section \<open>The effect of a call\<close>

text \<open>What a part of a handler does to nullifiers and to the pool, with the events it logs.  The parts compose.\<close>

definition callOk :: "runtime \<Rightarrow> world \<Rightarrow> world \<Rightarrow> pool_event list \<Rightarrow> bool" where
  "callOk rt w w' evs \<longleftrightarrow> spends rt w w' (spentOf evs) \<and> (\<forall>L ins. poolInv rt L w ins \<longrightarrow> poolInv rt L w' (ins @ insertedOf evs))"

lemma callOk_trans: "callOk rt w w1 e1 \<Longrightarrow> callOk rt w1 w2 e2 \<Longrightarrow> callOk rt w w2 (e1 @ e2)"
  unfolding callOk_def using spends_trans [of rt w w1 "spentOf e1" w2 "spentOf e2"] by (simp flip: append_assoc)

lemma callOk_quiet: "spends rt w w' [] \<Longrightarrow> keepsPool rt w w' \<Longrightarrow> callOk rt w w' []"
  using keepsPool_inv by (auto simp: callOk_def)

lemma callOk_then_quiet: "callOk rt w w1 e \<Longrightarrow> callOk rt w1 w2 [] \<Longrightarrow> callOk rt w w2 e"
  using callOk_trans [of rt w w1 e w2 "[]"] by simp

lemma callOk_owned: "callOk rt w w' e \<Longrightarrow> owned rt w k \<Longrightarrow> owned rt w' k"
  by (simp add: callOk_def spends_def)

lemma callOk_nullifier:
  assumes L: "runtime_laws rt" and c: "create_nullifier rt payer k n w = Inr (w', evs)" and o: "owned rt w (thePool rt)"
  shows "callOk rt w w' evs"
  using conjunct1 [OF spends_nullifier [OF L c]] keepsPool_nullifier [OF L c o] keepsPool_inv by (simp add: callOk_def)

lemma callOk_verifyProof: "runtime_laws rt \<Longrightarrow> verifyProof rt ai vk proof full w = Inr w' \<Longrightarrow> callOk rt w w' []"
  by (rule callOk_quiet [OF spends_verifyProof keepsPool_verifyProof])

lemma callOk_payToken: "runtime_laws rt \<Longrightarrow> payToken rt tp src mint dst auth amount w = Inr w' \<Longrightarrow> callOk rt w w' []"
  by (rule callOk_quiet [OF spends_payToken keepsPool_payToken])

lemma callOk_registerAsset:
  assumes "runtime_laws rt" "registerAsset rt dep asset mint vault aid bump w = Inr w'" "owned rt w (thePool rt)"
    "length mint = 32" "length vault = 32" "length aid \<le> 20"
  shows "callOk rt w w' []"
  by (rule callOk_quiet [OF spends_registerAsset [OF assms(1,2)] keepsPool_registerAsset [OF assms]])

lemma callOk_vault:
  assumes "runtime_laws rt" "ensureVault rt a b c vault d w = Inr w'"
  shows "callOk rt w w' []"
  using assms callOk_quiet [OF spends_invoke keepsPool_invoke] callOk_quiet [OF spends_refl keepsPool_refl]
  by (auto simp: ensureVault_def create_associated_token_account_def split: if_splits)

lemma tracks_notes:
  assumes f: "foldR (\<lambda>(d, evs) (leaf, eph, tag, cekWrap, ct).
      bindR (insert_and_emit rt d leaf eph tag cekWrap ct) (\<lambda>(d', ev). Inr (d', evs @ ev))) (data, []) notes = Inr (data', evs)"
    and t: "tracks rt L data ins" and n: "list_all (\<lambda>x. length (fst x) = 32) notes" and h: "\<forall>xs h. rtPoseidon rt xs = Some h \<longrightarrow> length h = 32"
  shows "tracks rt L data' (ins @ insertedOf evs)"
proof -
  have "(\<lambda>s. tracks rt L (fst s) (ins @ insertedOf (snd s))) (data', evs)"
  proof (rule foldR_invariant [OF f])
    show "tracks rt L (fst (data, [])) (ins @ insertedOf (snd (data, [])))" using t by simp
    fix s x s'
    assume s: "tracks rt L (fst s) (ins @ insertedOf (snd s))" and x: "x \<in> set notes"
      and e: "(case s of (d, evs) \<Rightarrow> \<lambda>(leaf, eph, tag, cekWrap, ct). bindR (insert_and_emit rt d leaf eph tag cekWrap ct) (\<lambda>(d', ev). Inr (d', evs @ ev))) x = Inr s'"
    obtain d evs1 leaf eph tag cek ct where sx: "s = (d, evs1)" "x = (leaf, eph, tag, cek, ct)" by (metis surj_pair)
    obtain i root d' where i: "rs_insert (rtPoseidon rt) d leaf = Inr (i, root, d')" "s' = (d', evs1 @ [NoteInserted i leaf eph tag cek ct root])"
      using e by (auto simp: sx insert_and_emit_def split: prod.splits)
    have "length leaf = 32" using n x sx(2) by (auto simp: list_all_iff)
    then show "tracks rt L (fst s') (ins @ insertedOf (snd s'))" using tracks_insert [OF h _ _ i(1)] s sx(1) i(2) by (simp flip: append_assoc)
  qed
  then show ?thesis by simp
qed

lemma callOk_poolBlock:
  assumes L: "runtime_laws rt" and b: "poolBlock rt (thePool rt) cid full notes w = Inr (w', vk, inputs, evs)"
    and o: "owned rt w (thePool rt)" and n: "list_all (\<lambda>x. length (fst x) = 32) notes"
  shows "callOk rt w w' evs"
proof -
  let ?P = "thePool rt"
  obtain data' where f: "foldR (\<lambda>(d, evs) (leaf, eph, tag, cekWrap, ct).
      bindR (insert_and_emit rt d leaf eph tag cekWrap ct) (\<lambda>(d', ev). Inr (d', evs @ ev))) (acData (w ?P), []) notes = Inr (data', evs)"
    and wr: "writeData rt ?P data' w = Inr w'"
    using poolBlock_Inr [OF b] by blast
  have w': "w' = w(?P := (w ?P)\<lparr>acData := data'\<rparr>)" using wr o by (simp add: writeData_def)
  have "poolInv rt M w' (ins @ insertedOf evs)" if i: "poolInv rt M w ins" for M ins
  proof -
    have "tracks rt M data' (ins @ insertedOf evs)" using tracks_notes [OF f _ n runtime_hash [OF L]] i o by (simp add: poolInv_def)
    then show ?thesis using i o by (simp add: poolInv_def forgedZero_def w')
  qed
  then show ?thesis using spends_poolBlock [OF b] by (simp add: callOk_def)
qed

lemma expect_pool_pda_Inr: "expect_pool_pda rt k w = Inr b \<Longrightarrow> k = thePool rt \<and> owned rt w (thePool rt)"
  by (auto simp: expect_pool_pda_def split: prod.splits if_splits)

section \<open>The handlers\<close>

lemma callOk_spendTwo:
  assumes L: "runtime_laws rt" and s: "spendTwo rt accounts proof inputs ri cid n notes w = Inr (w', evs)"
    and leaves: "length inputs = n \<Longrightarrow> list_all (\<lambda>x. length (fst x) = 32) notes"
  shows "callOk rt w w' evs"
proof -
  obtain payer pool nai ver bump w1 vk full e1 w2 e2 where c:
    "expect_pool_pda rt pool w = Inr bump" "check_count inputs n = Inr ()"
    "poolBlock rt pool cid (spendInputs inputs ri) notes w = Inr (w1, vk, full, e1)"
    "create_nullifier rt payer nai (inputs ! 0) w1 = Inr (w2, e2)" "verifyProof rt ver vk proof full w2 = Inr w'" "evs = e1 @ e2"
    using s by (auto simp: spendTwo_def split: list.splits if_splits prod.splits)
  note p = expect_pool_pda_Inr [OF c(1)]
  have "list_all (\<lambda>x. length (fst x) = 32) notes" using leaves c(2) by (simp add: check_count_def split: if_splits)
  then have b: "callOk rt w w1 e1" using callOk_poolBlock [OF L _ _ ] c(3) p by blast
  have "callOk rt w1 w2 e2" using callOk_nullifier [OF L c(4)] callOk_owned [OF b] p by blast
  then show ?thesis using callOk_then_quiet [OF callOk_trans [OF b] callOk_verifyProof [OF L c(5)]] c(6) by blast
qed

lemma callOk_join:
  assumes L: "runtime_laws rt" and s: "join_multisig rt accounts proof inputs ri w = Inr (w', evs)" and n: "list_all (\<lambda>x. length x = 32) inputs"
  shows "callOk rt w w' evs"
proof -
  obtain payer pool na nb ver bump w1 vk full e1 w2 e2 w3 e3 where c:
    "expect_pool_pda rt pool w = Inr bump" "check_count inputs 11 = Inr ()"
    "poolBlock rt pool 5 (joinInputs inputs ri) [(inputs ! 2, inputs ! 3, None, None, ct7 inputs 4)] w = Inr (w1, vk, full, e1)"
    "create_nullifier rt payer na (inputs ! 0) w1 = Inr (w2, e2)" "create_nullifier rt payer nb (inputs ! 1) w2 = Inr (w3, e3)"
    "verifyProof rt ver vk proof full w3 = Inr w'" "evs = e1 @ e2 @ e3"
    using s by (auto simp: join_multisig_def split: list.splits if_splits prod.splits)
  note p = expect_pool_pda_Inr [OF c(1)]
  have "length (inputs ! 2) = 32" using n c(2) by (auto simp: check_count_def list_all_length split: if_splits)
  then have b: "callOk rt w w1 e1" using callOk_poolBlock [OF L _ _ ] c(3) p by simp
  have b2: "callOk rt w1 w2 e2" using callOk_nullifier [OF L c(4)] callOk_owned [OF b] p by blast
  have b3: "callOk rt w2 w3 e3" using callOk_nullifier [OF L c(5)] callOk_owned [OF b2 callOk_owned [OF b]] p by blast
  then show ?thesis using callOk_then_quiet [OF callOk_trans [OF b callOk_trans [OF b2]] callOk_verifyProof [OF L c(6)]] c(7) by blast
qed

lemma callOk_withdraw:
  assumes L: "runtime_laws rt" and s: "withdraw_like rt accounts proof inputs amount ri cid w = Inr (w', evs)"
    and n: "list_all (\<lambda>x. length x = 32) inputs"
  shows "callOk rt w w' evs"
proof -
  obtain payer pool nai vault mint dest tp ver bump w1 vk full e1 w2 e2 w3 where c:
    "expect_pool_pda rt pool w = Inr bump" "check_count inputs 14 = Inr ()"
    "poolBlock rt pool cid (withdrawInputs inputs ri) [(inputs ! 5, inputs ! 6, None, None, ct7 inputs 7)] w = Inr (w1, vk, full, e1)"
    "create_nullifier rt payer nai (inputs ! 3) w1 = Inr (w2, e2)" "verifyProof rt ver vk proof full w2 = Inr w3"
    "payToken rt tp vault mint dest pool amount w3 = Inr w'" "evs = e1 @ e2"
    using s by (auto simp: withdraw_like_def Let_def split: list.splits if_splits prod.splits)
  note p = expect_pool_pda_Inr [OF c(1)]
  have "length (inputs ! 5) = 32" using n c(2) by (auto simp: check_count_def list_all_length split: if_splits)
  then have b: "callOk rt w w1 e1" using callOk_poolBlock [OF L _ _ ] c(3) p by simp
  have b2: "callOk rt w1 w2 e2" using callOk_nullifier [OF L c(4)] callOk_owned [OF b] p by blast
  show ?thesis
    using callOk_then_quiet [OF callOk_then_quiet [OF callOk_trans [OF b b2] callOk_verifyProof [OF L c(5)]] callOk_payToken [OF L c(6)]] c(7) by simp
qed

text \<open>\<open>deposit\<close> does not check the address of the pool account it is given.  The account must still be the program's, as the
  insertion writes to it, and it must name a verifier, which a forged account does not.\<close>

lemma deposit_pool:
  assumes L: "runtime_laws rt" and v: "poolInv rt M w ins"
    and b: "poolBlock rt pool 0 full [(leaf, eph, tag, cek, ct)] w = Inr (w1, vk, inputs, evs)" and n: "length leaf = 32"
    and p: "verifyProof rt ver vk proof inputs w1 = Inr w2"
  shows "pool = thePool rt \<and> owned rt w (thePool rt)"
proof -
  let ?d = "acData (w pool)"
  obtain i root data' where s: "rs_insert (rtPoseidon rt) ?d leaf = Inr (i, root, data')" "writeData rt pool data' w = Inr w1"
    "pool_verifier ?d 0 = Inr vk" "length ?d = POOL_LEN"
    using poolBlock_Inr [OF b] by (auto simp: insert_and_emit_def poolNew_def split: if_splits)
  have "data' \<noteq> ?d" using rs_insert_next [OF s(1,4) n runtime_hash [OF L]] by auto
  then have o: "owned rt w pool" using s(2) by (auto simp: writeData_def split: if_splits)
  have "pool = thePool rt"
  proof (rule ccontr)
    assume "pool \<noteq> thePool rt"
    then have "?d = replicate POOL_LEN 0" using v o s(4) by (simp add: poolInv_def forgedZero_def)
    then have "vk = ZERO32" using s(3) by (simp add: pool_verifier_def getAt_def ZERO32_def layout_defs)
    then show False using p by (auto simp: verifyProof_def verify_cpi_def split: if_splits)
  qed
  then show ?thesis using o by simp
qed

lemma callOk_deposit:
  assumes L: "runtime_laws rt" and s: "rs_deposit rt accounts proof inputs amount w = Inr (w', evs)"
    and n: "list_all (\<lambda>x. length x = 32) inputs" "list_all (\<lambda>a. length (aiKey a) = 32) accounts"
  shows "callOk rt w w' evs"
proof -
  obtain dep pool asset mint vault dt tp ata sys ver rest where keys: "map aiKey accounts = dep # pool # asset # mint # vault # dt # tp # ata # sys # ver # rest"
    using s by (auto simp: rs_deposit_def split: list.splits)
  have "list_all (\<lambda>k. length k = 32) (map aiKey accounts)" using n(2) by (simp add: list_all_iff)
  then have len: "length mint = 32" "length vault = 32" by (simp_all add: keys)
  obtain w1 vk full w2 w3 w4 where c: "check_count inputs 11 = Inr ()"
    "poolBlock rt pool 0 (depositInputs inputs) [(inputs ! 0, inputs ! 1, None, None, ct7 inputs 4)] w = Inr (w1, vk, full, evs)"
    "verifyProof rt ver vk proof full w1 = Inr w2" "registerAsset rt dep asset mint vault (asset_id_bytes rt mint) (snd (asset_pda rt (asset_id_bytes rt mint))) w2 = Inr w3"
    "ensureVault rt dep pool mint vault tp w3 = Inr w4"
    "payToken rt tp dt mint vault dep amount w4 = Inr w'"
    using s unfolding rs_deposit_def keys
    by (cases "asset_pda rt (asset_id_bytes rt mint)") (auto simp: Let_def split: if_splits)
  have leaf: "length (inputs ! 0) = 32" using n(1) c(1) by (auto simp: check_count_def list_all_length split: if_splits)
  have aid: "length (asset_id_bytes rt mint) \<le> 20" by (simp add: asset_id_bytes_def)
  have sp: "spends rt w w' (spentOf evs)"
  proof -
    note b = spends_poolBlock [OF c(2)]
    have "spends rt w w3 []" using spends_trans_none b spends_verifyProof [OF L c(3)] spends_registerAsset [OF L c(4)] by blast
    moreover have "spends rt w3 w4 []" using callOk_vault [OF L c(5)] by (simp add: callOk_def)
    ultimately have "spends rt w w' []" using spends_trans_none spends_payToken [OF L c(6)] by blast
    then show ?thesis using b by simp
  qed
  have "poolInv rt M w' (ins @ insertedOf evs)" if v: "poolInv rt M w ins" for M ins
  proof -
    note p = deposit_pool [OF L v c(2) leaf c(3)]
    have b: "callOk rt w w1 evs" using callOk_poolBlock [OF L] c(2) p leaf by simp
    note b2 = callOk_then_quiet [OF b callOk_verifyProof [OF L c(3)]]
    have "callOk rt w2 w3 []" using callOk_registerAsset [OF L c(4) _ len aid] callOk_owned [OF b2] p by blast
    note b3 = callOk_then_quiet [OF callOk_then_quiet [OF callOk_then_quiet [OF b2 this] callOk_vault [OF L c(5)]] callOk_payToken [OF L c(6)]]
    then show ?thesis using v by (simp add: callOk_def)
  qed
  then show ?thesis using sp by (simp add: callOk_def)
qed

lemma callOk_withAuthority:
  assumes s: "withAuthority rt accounts change w = Inr (w', evs)"
    and c: "\<And>data data' evs. change data = Inr (data', evs) \<Longrightarrow> length data = POOL_LEN \<Longrightarrow> sameTree data data' \<and> spentOf evs = [] \<and> insertedOf evs = []"
  shows "callOk rt w w' evs"
proof -
  let ?P = "thePool rt"
  obtain a pool data' where l: "load_pool_authority rt accounts w = Inr (a, pool)" "length (acData (w pool)) = POOL_LEN"
    "change (acData (w pool)) = Inr (data', evs)" "writeData rt pool data' w = Inr w'"
    using s by (auto simp: withAuthority_def Let_def poolNew_def split: if_splits prod.splits)
  have p: "pool = ?P" "owned rt w ?P"
    using l(1) expect_pool_pda_Inr by (fastforce simp: load_pool_authority_def split: list.splits if_splits)+
  note t = c [OF l(3,2)]
  have w': "w' = w(?P := (w ?P)\<lparr>acData := data'\<rparr>)" using l(4) p by (simp add: writeData_def)
  have "poolInv rt M w' ins" if "poolInv rt M w ins" for M ins
    using that t tracks_sameTree p by (auto simp: poolInv_def forgedZero_def w')
  then show ?thesis using t spends_write [OF l(4)] by (simp add: callOk_def)
qed

lemma forgedZero_create:
  assumes L: "runtime_laws rt" and c: "create_pda_if_needed rt payer target space w = Inr w'" and f: "forgedZero rt w"
  shows "forgedZero rt w'"
proof -
  obtain w1 w2 where s:
    "(if acLamports (w target) < rtRent rt space then invoke rt (SysTransfer payer target (rtRent rt space - acLamports (w target))) w else Inr w) = Inr w1"
    "invoke rt (SysAllocate target space) w1 = Inr w2" "invoke rt (SysAssign target (rtProgram rt)) w2 = Inr w'"
    using c by (auto simp: create_pda_if_needed_def Let_def split: if_splits)
  have "forgedZero rt w1" using s(1) forgedZero_invoke [OF L _ f] f by (auto split: if_splits)
  then show ?thesis using forgedZero_invoke [OF L s(3)] forgedZero_invoke [OF L s(2)] by blast
qed

lemma initial_tracks:
  assumes "length a = 32" "length x = 32" "length y = 32" "length vs = NUM_VERIFIERS" "list_all (\<lambda>v. length v = 32) vs"
  shows "tracks rt L (set_next_leaf_index (set_all_verifiers (set_compliance_pk (set_compliance_version (set_paused
      (set_authority (replicate POOL_LEN 0) a) False) 0) x y) vs) 0) []"
proof -
  let ?zero = "replicate POOL_LEN 0 :: byte list"
  let ?d1 = "set_authority ?zero a"
  let ?d2 = "set_paused ?d1 False"
  let ?d3 = "set_compliance_version ?d2 0"
  let ?d4 = "set_compliance_pk ?d3 x y"
  let ?d5 = "set_all_verifiers ?d4 vs"
  have l0: "length ?zero = POOL_LEN" by simp
  have l1: "length ?d1 = POOL_LEN" by (rule setter_length(1) [OF l0 assms(1)])
  have l2: "length ?d2 = POOL_LEN" by (rule setter_length(2) [OF l1])
  have l3: "length ?d3 = POOL_LEN" by (rule setter_length(3) [OF l2])
  have l4: "length ?d4 = POOL_LEN" by (rule setter_length(4) [OF l3 assms(2,3)])
  note v5 = view_all_verifiers [OF l4 assms(5,4)]
  let ?d = "set_next_leaf_index ?d5 0"
  have v: "paNextLeafIndex (viewOf ?d) = 0" "paRootCursor (viewOf ?d) = paRootCursor (viewOf ?zero)"
    unfolding view_next [OF v5(2)] v5(1) view_pk [OF l3 assms(2,3)] view_version [OF l2] view_paused [OF l1] view_authority [OF l0 assms(1)] by simp_all
  have "root_cursor ?zero = 0" by (simp add: root_cursor_def getAt_def layout_defs)
  moreover have "next_leaf_index ?d = paNextLeafIndex (viewOf ?d)" "root_cursor ?d = paRootCursor (viewOf ?d)"
    "paRootCursor (viewOf ?zero) = root_cursor ?zero" by (simp_all only: viewOf_def poolAccount.simps)
  ultimately have f: "next_leaf_index ?d = 0" "root_cursor ?d = 0" using v by simp_all
  have l: "length ?d = POOL_LEN" by (rule setter_length(5) [OF v5(2)])
  show ?thesis using l f fresh_repr [OF l f] by (simp add: tracks_def)
qed

lemma callOk_initialize:
  assumes L: "runtime_laws rt" and s: "rs_initialize rt accounts x y vs genesis w = Inr (w', evs)"
    and n: "list_all (\<lambda>a. length (aiKey a) = 32) accounts" "length x = 32" "length y = 32" "length vs = NUM_VERIFIERS"
      "list_all (\<lambda>v. length v = 32) vs" "length genesis = 32"
  shows "callOk rt w w' evs"
proof -
  let ?P = "thePool rt"
  obtain authority pool pd sys rest where acc: "accounts = authority # pool # pd # sys # rest"
    using s by (auto simp: rs_initialize_def split: list.splits)
  have a: "length (aiKey authority) = 32" using n(1) by (simp add: acc)
  obtain w1 data2 where c: "create_pda_if_needed rt (aiKey authority) ?P POOL_LEN w = Inr w1"
    "insert_and_emit rt (set_next_leaf_index (set_all_verifiers (set_compliance_pk (set_compliance_version (set_paused
      (set_authority (acData (w1 ?P)) (aiKey authority)) False) 0) x y) vs) 0) genesis ZERO32 None None (replicate 7 ZERO32) = Inr (data2, evs)"
    "writeData rt ?P data2 w1 = Inr w'"
    using s unfolding rs_initialize_def acc by (auto simp: Let_def split: if_splits)
  note k = spends_create_pda [OF L c(1)]
  obtain i root where e: "rs_insert (rtPoseidon rt) (set_next_leaf_index (set_all_verifiers (set_compliance_pk (set_compliance_version (set_paused
      (set_authority (replicate POOL_LEN 0) (aiKey authority)) False) 0) x y) vs) 0) genesis = Inr (i, root, data2)"
    "evs = [NoteInserted i genesis ZERO32 None None (replicate 7 ZERO32) root]"
    using c(2) unfolding k(4) insert_and_emit_def by auto
  have t: "tracks rt M data2 (insertedOf evs)" for M
    using tracks_insert [OF runtime_hash [OF L] initial_tracks [OF a n(2-5)] n(6) e(1)] e(2) by simp
  have w': "w' = w1(?P := (w1 ?P)\<lparr>acData := data2\<rparr>)" using c(3) k(2) by (simp add: writeData_def)
  have "poolInv rt M w' (ins @ insertedOf evs)" if v: "poolInv rt M w ins" for M ins
  proof -
    have "forgedZero rt w1" "ins = []" using forgedZero_create [OF L c(1)] v k(3) by (simp_all add: poolInv_def)
    then show ?thesis using t e(2) k(2) by (simp add: poolInv_def forgedZero_def w')
  qed
  moreover have "spends rt w w' (spentOf evs)" using spends_trans_none [OF k(1) spends_write [OF c(3)]] e(2) by simp
  ultimately show ?thesis by (simp add: callOk_def)
qed

text \<open>The version of the compliance key: 0 after initialisation; a rotation logs the step from the stored version to its successor.\<close>

lemma compliance_version_view: "compliance_version data = paComplianceVersion (viewOf data)"
  by (simp add: viewOf_def)

lemma initialize_version:
  assumes L: "runtime_laws rt" and s: "rs_initialize rt accounts x y vs genesis w = Inr (w', evs)"
    and n: "list_all (\<lambda>a. length (aiKey a) = 32) accounts" "length x = 32" "length y = 32" "length vs = NUM_VERIFIERS"
      "list_all (\<lambda>v. length v = 32) vs" "length genesis = 32"
  shows "compliance_version (acData (w' (thePool rt))) = 0"
proof -
  let ?P = "thePool rt"
  obtain authority pool pd sys rest where acc: "accounts = authority # pool # pd # sys # rest"
    using s by (auto simp: rs_initialize_def split: list.splits)
  let ?a = "aiKey authority"
  have a: "length ?a = 32" using n(1) by (simp add: acc)
  let ?s1 = "set_authority (replicate POOL_LEN 0) ?a"
  let ?s2 = "set_paused ?s1 False"
  let ?s3 = "set_compliance_version ?s2 0"
  let ?s4 = "set_compliance_pk ?s3 x y"
  let ?fin = "set_next_leaf_index (set_all_verifiers ?s4 vs) 0"
  obtain w1 data2 where c: "create_pda_if_needed rt ?a ?P POOL_LEN w = Inr w1"
    "insert_and_emit rt (set_next_leaf_index (set_all_verifiers (set_compliance_pk (set_compliance_version (set_paused
      (set_authority (acData (w1 ?P)) ?a) False) 0) x y) vs) 0) genesis ZERO32 None None (replicate 7 ZERO32) = Inr (data2, evs)"
    "writeData rt ?P data2 w1 = Inr w'"
    using s unfolding rs_initialize_def acc by (auto simp: Let_def split: if_splits)
  note k = spends_create_pda [OF L c(1)]
  obtain i root where e: "rs_insert (rtPoseidon rt) ?fin genesis = Inr (i, root, data2)"
    using c(2) unfolding k(4) insert_and_emit_def by auto
  have l1: "length ?s1 = POOL_LEN" by (rule setter_length(1)) (simp_all add: a)
  have l2: "length ?s2 = POOL_LEN" by (rule setter_length(2) [OF l1])
  have l3: "length ?s3 = POOL_LEN" by (rule setter_length(3) [OF l2])
  have l4: "length ?s4 = POOL_LEN" by (rule setter_length(4) [OF l3 n(2,3)])
  note v5 = view_all_verifiers [OF l4 n(5,4)]
  have l: "length ?fin = POOL_LEN" by (rule setter_length(5) [OF v5(2)])
  have v: "paComplianceVersion (viewOf ?fin) = 0"
    unfolding view_next [OF v5(2)] v5(1) view_pk [OF l3 n(2,3)] view_version [OF l2] by simp
  have cur: "root_cursor ?fin < 256" using initial_tracks [OF a n(2-5)] by (simp add: tracks_def)
  have "paComplianceVersion (viewOf data2) = 0" using rs_insert_shape(7) [OF e l n(6) cur runtime_hash [OF L]] v by auto
  moreover have "acData (w' ?P) = data2" using c(3) by (auto simp: writeData_def split: if_splits)
  ultimately show ?thesis by (simp add: compliance_version_view)
qed

lemma rotate_event:
  assumes "rs_rotate_compliance_key rt accounts x y w = Inr (w', evs)"
  shows "\<exists>v. v = compliance_version (acData (w (thePool rt))) \<and> evs = [ComplianceKeyRotated v (v + 1) x y]"
  using assms expect_pool_pda_Inr
  by (fastforce simp: rs_rotate_compliance_key_def withAuthority_def load_pool_authority_def Let_def split: if_splits list.splits prod.splits)

text \<open>The typed calls: Rust's array and key types fix these lengths.\<close>

fun wfIx :: "pool_instruction \<Rightarrow> bool" where
  "wfIx (Initialize x y vs g) \<longleftrightarrow> length x = 32 \<and> length y = 32 \<and> length vs = NUM_VERIFIERS \<and> list_all (\<lambda>v. length v = 32) vs \<and> length g = 32"
| "wfIx (SetVerifier c p) \<longleftrightarrow> length p = 32"
| "wfIx (RotateComplianceKey x y) \<longleftrightarrow> length x = 32 \<and> length y = 32"
| "wfIx (SetPaused b) \<longleftrightarrow> True"
| "wfIx (Deposit p ins a) \<longleftrightarrow> length p = 192 \<and> list_all (\<lambda>x. length x = 32) ins"
| "wfIx (Transfer p ins r) \<longleftrightarrow> length p = 192 \<and> list_all (\<lambda>x. length x = 32) ins"
| "wfIx (TransferMultisig p ins r) \<longleftrightarrow> length p = 192 \<and> list_all (\<lambda>x. length x = 32) ins"
| "wfIx (SplitMultisig p ins r) \<longleftrightarrow> length p = 192 \<and> list_all (\<lambda>x. length x = 32) ins"
| "wfIx (JoinMultisig p ins r) \<longleftrightarrow> length p = 192 \<and> list_all (\<lambda>x. length x = 32) ins"
| "wfIx (Withdraw p ins a r) \<longleftrightarrow> length p = 192 \<and> list_all (\<lambda>x. length x = 32) ins"
| "wfIx (WithdrawMultisig p ins a r) \<longleftrightarrow> length p = 192 \<and> list_all (\<lambda>x. length x = 32) ins"
| "wfIx (VerifyOnly c p ins) \<longleftrightarrow> length p = 192 \<and> list_all (\<lambda>x. length x = 32) ins"

definition wfAccounts :: "accountInfo list \<Rightarrow> bool" where
  "wfAccounts accounts \<longleftrightarrow> list_all (\<lambda>a. length (aiKey a) = 32) accounts"

lemma sameTree_setters:
  assumes d: "length data = POOL_LEN"
  shows "sameTree data (set_paused data b)" "length x = 32 \<Longrightarrow> length y = 32 \<Longrightarrow> sameTree data (set_compliance_version (set_compliance_pk data x y) v)"
    "length p = 32 \<Longrightarrow> pool_set_verifier data c p = Inr data' \<Longrightarrow> sameTree data data'"
proof -
  show "sameTree data (set_paused data b)" using view_paused [OF d] setter_length(2) [OF d] by (simp add: sameTree_def)
  show "sameTree data (set_compliance_version (set_compliance_pk data x y) v)" if "length x = 32" "length y = 32"
  proof -
    have l: "length (set_compliance_pk data x y) = POOL_LEN" by (rule setter_length(4) [OF d that])
    show ?thesis using view_version [OF l] view_pk [OF d that] setter_length(3) [OF l] by (simp add: sameTree_def)
  qed
  show "sameTree data data'" if "length p = 32" "pool_set_verifier data c p = Inr data'"
  proof -
    have c: "c < NUM_VERIFIERS" "data' = putAt data (OFF_VERIFIERS + c * 32) p" using that(2) by (simp_all add: pool_set_verifier_def split: if_splits)
    show ?thesis unfolding c(2) using view_verifier [OF d that(1) c(1)] setter_length(7) [OF d that(1) c(1)] by (simp add: sameTree_def)
  qed
qed

lemma input_length: "list_all (\<lambda>x. length x = 32) ins \<Longrightarrow> k < length ins \<Longrightarrow> length (ins ! k) = 32"
  by (simp add: list_all_length)

lemma callOk_process:
  assumes L: "runtime_laws rt" and s: "process rt accounts ix w = Inr (w', evs)" and n: "wfAccounts accounts" "wfIx ix"
  shows "callOk rt w w' evs"
proof (cases ix)
  case (Initialize x y vs g)
  then show ?thesis using callOk_initialize [OF L] s n by (simp add: wfAccounts_def)
next
  case (SetVerifier c p)
  then show ?thesis using s n by (auto simp: rs_set_verifier_def intro!: callOk_withAuthority sameTree_setters(3))
next
  case (RotateComplianceKey x y)
  then show ?thesis using s n by (auto simp: rs_rotate_compliance_key_def Let_def intro!: callOk_withAuthority sameTree_setters(2) split: if_splits)
next
  case (SetPaused b)
  then show ?thesis using s by (auto simp: rs_set_paused_def intro!: callOk_withAuthority sameTree_setters(1))
next
  case (Deposit p ins a)
  then show ?thesis using callOk_deposit [OF L] s n by (simp add: wfAccounts_def)
next
  case (Transfer p ins r)
  then show ?thesis using s n by (auto simp: transfer_like_def input_length intro!: callOk_spendTwo [OF L])
next
  case (TransferMultisig p ins r)
  then show ?thesis using s n by (auto simp: transfer_like_def input_length intro!: callOk_spendTwo [OF L])
next
  case (SplitMultisig p ins r)
  then show ?thesis using s n by (auto simp: split_multisig_def input_length intro!: callOk_spendTwo [OF L])
next
  case (JoinMultisig p ins r)
  then show ?thesis using callOk_join [OF L] s n by simp
next
  case (Withdraw p ins a r)
  then show ?thesis using callOk_withdraw [OF L] s n by simp
next
  case (WithdrawMultisig p ins a r)
  then show ?thesis using callOk_withdraw [OF L] s n by simp
next
  case (VerifyOnly c p ins)
  then show ?thesis using s by simp
qed

section \<open>Runs\<close>

text \<open>A transaction of other programs: it keeps the accounts of this program, and can give it only zeroed accounts at
  addresses that are not program addresses of it.\<close>

definition otherTx :: "runtime \<Rightarrow> world \<Rightarrow> world \<Rightarrow> bool" where
  "otherTx rt w w' \<longleftrightarrow> (\<forall>k. owned rt w k \<longrightarrow> owned rt w' k \<and> acData (w' k) = acData (w k))
     \<and> (\<forall>k. \<not> owned rt w k \<longrightarrow> owned rt w' k \<longrightarrow> acData (w' k) = replicate (length (acData (w' k))) 0 \<and> (\<forall>seeds. k \<noteq> fst (rtFindPda rt seeds (rtProgram rt))))"

inductive pool_run :: "runtime \<Rightarrow> world \<Rightarrow> pool_event list \<Rightarrow> bool" for rt where
  deployed: "\<forall>k. \<not> owned rt w k \<Longrightarrow> pool_run rt w []"
| call: "pool_run rt w log \<Longrightarrow> wfAccounts accounts \<Longrightarrow> wfIx ix \<Longrightarrow> process rt accounts ix w = Inr (w', evs) \<Longrightarrow> pool_run rt w' (log @ evs)"
| other: "pool_run rt w log \<Longrightarrow> otherTx rt w w' \<Longrightarrow> pool_run rt w' log"

lemma otherTx_callOk:
  assumes o: "otherTx rt w w'"
  shows "callOk rt w w' []"
proof (rule callOk_quiet)
  have frame: "owned rt w k \<Longrightarrow> owned rt w' k \<and> acData (w' k) = acData (w k)" for k using o unfolding otherTx_def by meson
  have fresh: "\<not> owned rt w k \<Longrightarrow> owned rt w' k \<Longrightarrow> acData (w' k) = replicate (length (acData (w' k))) 0 \<and> k \<noteq> thePool rt" for k
    using o unfolding otherTx_def pool_pda_def by metis
  show "spends rt w w' []" using frame by (simp add: spends_def)
  have "forgedZero rt w'" if f: "forgedZero rt w"
    unfolding forgedZero_def
  proof (intro allI impI)
    fix k
    assume k: "k \<noteq> thePool rt" "owned rt w' k" "length (acData (w' k)) = POOL_LEN"
    show "acData (w' k) = replicate POOL_LEN 0"
      using frame [of k] fresh [of k] k f by (cases "owned rt w k") (simp_all add: forgedZero_def)
  qed
  then show "keepsPool rt w w'" using frame fresh unfolding keepsPool_def by blast
qed

text \<open>The two invariants, by rule induction on the run.\<close>

definition spentOk :: "runtime \<Rightarrow> world \<Rightarrow> pool_event list \<Rightarrow> bool" where
  "spentOk rt w log \<longleftrightarrow> distinct (spentOf log) \<and> (\<forall>n\<in>set (spentOf log). owned rt w (fst (nullifier_pda rt n)))"

lemma spentOk_callOk: "callOk rt w w' evs \<Longrightarrow> spentOk rt w log \<Longrightarrow> spentOk rt w' (log @ evs)"
  unfolding callOk_def spends_def spentOk_def by auto

lemma pool_run_invariant:
  assumes "runtime_laws rt" "pool_run rt w log"
  shows "spentOk rt w log \<and> poolInv rt L w (insertedOf log)"
  using assms(2)
proof (induction rule: pool_run.induct)
  case (deployed w)
  then show ?case by (simp add: spentOk_def poolInv_def forgedZero_def)
next
  case (call w log accounts ix w' evs)
  have c: "callOk rt w w' evs" by (rule callOk_process [OF assms(1) call(4,2,3)])
  then show ?case using call.IH spentOk_callOk [OF c] by (simp add: callOk_def)
next
  case (other w log w')
  note c = otherTx_callOk [OF other(2)]
  then show ?case using other.IH spentOk_callOk [OF c] by (simp add: callOk_def)
qed

lemma spent_refused:
  assumes "owned rt w (fst (nullifier_pda rt n))"
  shows "create_nullifier rt payer k n w \<in> {Inl InvalidSeeds, Inl (poolErr NullifierSpent)}"
  using assms by (auto simp: create_nullifier_def split: prod.splits)

section \<open>A concrete run\<close>

text \<open>A runtime that keeps the rules, and a run on it: the pool is initialised and a note is transferred.\<close>

definition toyProgram :: pubkey where "toyProgram = replicate 32 1"
definition toyLoader :: pubkey where "toyLoader = replicate 32 2"
definition toyVerifier :: pubkey where "toyVerifier = replicate 32 3"
definition toyAuthority :: pubkey where "toyAuthority = replicate 32 4"

definition toyFindPda :: "byte list list \<Rightarrow> pubkey \<Rightarrow> pubkey \<times> byte" where
  "toyFindPda seeds prog = (take 32 (last seeds @ replicate 32 (hd prog + 100)), 255)"

fun toyInvoke :: "cpi \<Rightarrow> world \<Rightarrow> world option" where
  "toyInvoke (SysTransfer a b n) w = Some (w(b := (w b)\<lparr>acLamports := acLamports (w b) + n\<rparr>))"
| "toyInvoke (SysAllocate k n) w = (if acOwner (w k) = toyProgram \<or> acData (w k) \<noteq> [] then None else Some (w(k := (w k)\<lparr>acData := replicate n 0\<rparr>)))"
| "toyInvoke (SysAssign k p) w = (if acOwner (w k) = toyProgram \<or> list_ex (\<lambda>b. b \<noteq> 0) (acData (w k)) then None else Some (w(k := (w k)\<lparr>acOwner := p\<rparr>)))"
| "toyInvoke (Invoke p ks d) w = Some w"

definition toyRuntime :: runtime where
  "toyRuntime = \<lparr>rtProgram = toyProgram, rtFindPda = toyFindPda, rtRent = (\<lambda>n. n), rtInvoke = toyInvoke, rtPoseidon = toyPoseidon,
     rtSha256 = (\<lambda>bs. replicate 32 5), rtG1 = (\<lambda>bs. Some (bs @ bs)), rtG2 = (\<lambda>bs. Some (bs @ bs)), rtSplToken = replicate 32 6,
     rtToken2022 = replicate 32 7, rtAtaProgram = replicate 32 8, rtLoader = toyLoader\<rparr>"

definition toyWorld :: world where
  "toyWorld k = (if k = fst (toyFindPda [toyProgram] toyLoader)
     then \<lparr>acOwner = toyLoader, acData = [3, 0, 0, 0] @ replicate 8 0 @ [1] @ toyAuthority, acLamports = 0\<rparr>
     else \<lparr>acOwner = ZERO32, acData = [], acLamports = 0\<rparr>)"

definition toyKeys :: "pubkey list \<Rightarrow> accountInfo list" where
  "toyKeys ks = map (\<lambda>k. \<lparr>aiKey = k, aiSigner = True\<rparr>) ks"


lemma toy_program [simp]: "rtProgram toyRuntime = toyProgram" by (simp add: toyRuntime_def)

lemma toyRuntime_laws: "runtime_laws toyRuntime"
proof -
  have i: "rtInvoke toyRuntime = toyInvoke" "rtFindPda toyRuntime = toyFindPda" "rtPoseidon toyRuntime = toyPoseidon" by (simp_all add: toyRuntime_def)
  have zero: "\<not> list_ex (\<lambda>b. b \<noteq> 0) xs \<Longrightarrow> xs = replicate (length xs) (0::byte)" for xs by (induction xs) simp_all
  have frame: "toyInvoke c w = Some w' \<Longrightarrow> acOwner (w k) = toyProgram \<Longrightarrow> acOwner (w' k) = toyProgram \<and> acData (w' k) = acData (w k)" for c w w' k
    by (cases c) (auto split: if_splits)
  have fresh: "toyInvoke c w = Some w' \<Longrightarrow> acOwner (w k) \<noteq> toyProgram \<Longrightarrow> acOwner (w' k) = toyProgram \<Longrightarrow>
      c = SysAssign k toyProgram \<and> acData (w' k) = replicate (length (acData (w' k))) 0" for c w w' k
    by (cases c) (auto split: if_splits intro: zero)
  have assign: "toyInvoke (SysAssign k toyProgram) w = Some w' \<Longrightarrow> acOwner (w' k) = toyProgram \<and> acData (w' k) = acData (w k)" for k w w'
    by (auto split: if_splits)
  have alloc: "toyInvoke (SysAllocate k n) w = Some w' \<Longrightarrow> acData (w' k) = replicate n 0" for k n w w' by (auto split: if_splits)
  have hash: "toyPoseidon xs = Some h \<Longrightarrow> length h = 32" for xs h by (auto simp: toyPoseidon_def split: list.splits)
  show ?thesis unfolding runtime_laws_def i toy_program
    by (intro conjI allI impI) (use frame fresh assign alloc hash in \<open>blast | metis\<close>)+
qed

definition toyPool :: pubkey where "toyPool = ascii ''pool'' @ replicate 28 101"

lemma toy_pool: "pool_pda toyRuntime = (toyPool, 255)"
  by code_simp

definition toyGenesis :: pool_event where
  "toyGenesis = NoteInserted 0 (toBytesBE 32 5) ZERO32 None None (replicate 7 ZERO32) (toBytesBE 32 5)"

definition toyInitAccounts :: "accountInfo list" where
  "toyInitAccounts = toyKeys [toyAuthority, toyPool, fst (toyFindPda [toyProgram] toyLoader), ZERO32]"

definition toyInitIx :: pool_instruction where
  "toyInitIx = Initialize (toBytesBE 32 11) (toBytesBE 32 12) (replicate 7 toyVerifier) (toBytesBE 32 5)"

definition toyReady :: "world \<Rightarrow> int list \<Rightarrow> bool" where
  "toyReady w ls \<longleftrightarrow> acOwner (w toyPool) = toyProgram \<and> poolRepr toyLibs ls (acData (w toyPool)) \<and> \<not> pool_paused (acData (w toyPool))
     \<and> pool_verifier (acData (w toyPool)) 1 = Inr toyVerifier \<and> pool_verifier (acData (w toyPool)) 2 = Inr toyVerifier
     \<and> pool_authority (acData (w toyPool)) = toyAuthority \<and> (\<forall>k. k \<noteq> toyPool \<longrightarrow> w k = toyWorld k)"

lemma toy_world_pool: "toyWorld toyPool = \<lparr>acOwner = ZERO32, acData = [], acLamports = 0\<rparr>"
  by code_simp

lemma toy_fields:
  shows "rtRent toyRuntime n = n" "rtInvoke toyRuntime = toyInvoke" "rtPoseidon toyRuntime = toyPoseidon"
    "rtG1 toyRuntime bs = Some (bs @ bs)" "rtG2 toyRuntime bs = Some (bs @ bs)"
  by (simp_all add: toyRuntime_def)

lemma toy_create:
  assumes "w k = \<lparr>acOwner = ZERO32, acData = [], acLamports = 0\<rparr>" "0 < space"
  shows "create_pda_if_needed toyRuntime payer k space w = Inr (w(k := \<lparr>acOwner = toyProgram, acData = replicate space 0, acLamports = space\<rparr>))"
proof -
  have "ZERO32 \<noteq> toyProgram" by code_simp
  then show ?thesis using assms by (simp add: create_pda_if_needed_def invoke_def toy_fields list_ex_iff Let_def)
qed

lemma pool_verifier_view: "c < NUM_VERIFIERS \<Longrightarrow> pool_verifier d c = Inr (paVerifiers (viewOf d) ! c)"
  by (simp add: viewOf_def pool_verifier_def)

lemma pool_paused_view: "pool_paused d = paPaused (viewOf d)"
  by (simp add: viewOf_def)

lemma toyInit_run:
  "\<exists>w. process toyRuntime toyInitAccounts toyInitIx toyWorld = Inr (w, [toyGenesis]) \<and> toyReady w [5]"
proof -
  let ?w1 = "toyWorld(toyPool := \<lparr>acOwner = toyProgram, acData = replicate POOL_LEN 0, acLamports = POOL_LEN\<rparr>)"
  have auth: "require_upgrade_authority toyRuntime toyAuthority (fst (toyFindPda [toyProgram] toyLoader)) toyWorld = Inr ()" by code_simp
  have create: "create_pda_if_needed toyRuntime toyAuthority toyPool POOL_LEN toyWorld = Inr ?w1"
    by (rule toy_create) (simp_all add: toy_world_pool layout_defs)
  let ?d4 = "set_compliance_pk (set_compliance_version (set_paused (set_authority (replicate POOL_LEN 0) toyAuthority) False) 0) (toBytesBE 32 11) (toBytesBE 32 12)"
  let ?d = "set_next_leaf_index (set_all_verifiers ?d4 (replicate 7 toyVerifier)) 0"
  have len: "length toyAuthority = 32" "length (replicate 7 toyVerifier) = NUM_VERIFIERS" "list_all (\<lambda>v. length v = 32) (replicate 7 toyVerifier)"
    by (simp_all add: toyAuthority_def toyVerifier_def NUM_VERIFIERS_def list_all_iff)
  have t: "tracks toyRuntime toyLibs ?d []" by (rule initial_tracks [OF len(1) _ _ len(2,3)]) simp_all
  have "noZeroRun toyLibs []" by (simp add: noZeroRun_def noZeroNode_def)
  then have r: "poolRepr toyLibs [] ?d" using t toyLibs_fr_laws toy_agrees by (simp add: tracks_def toy_fields)
  obtain d' side nx cur roots where d': "rs_insert toyPoseidon ?d (toBytesBE 32 5) = Inr (0, toBytesBE 32 (node (nodeHash toyLibs) [5] 32 0), d')"
    "poolRepr toyLibs [5] d'" "viewOf d' = (viewOf ?d)\<lparr>paSideNodes := side, paNextLeafIndex := nx, paRoots := roots, paRootCursor := cur\<rparr>"
    using rs_insert_ok [OF toyLibs_fr_laws toy_agrees r, of 5] toy_noZero(1) by (auto simp: isFr_def BN254_P_def)
  have root: "node (nodeHash toyLibs) [5] 32 0 = 5" using node_up [of "[5]" 0 "nodeHash toyLibs" 32] by (simp add: nodeOrZero_def)
  have l4: "length ?d4 = POOL_LEN" by (intro setter_length) (simp_all add: len)
  note v5 = view_all_verifiers [OF l4 len(3,2)]
  have l3: "length (set_compliance_version (set_paused (set_authority (replicate POOL_LEN 0) toyAuthority) False) 0) = POOL_LEN"
    "length (set_paused (set_authority (replicate POOL_LEN 0) toyAuthority) False) = POOL_LEN" "length (set_authority (replicate POOL_LEN 0) toyAuthority) = POOL_LEN"
    by (intro setter_length, simp_all add: len)+
  have v: "paPaused (viewOf ?d) = False" "paVerifiers (viewOf ?d) = replicate 7 toyVerifier" "paAuthority (viewOf ?d) = toyAuthority"
    unfolding view_next [OF v5(2)] v5(1) using view_pk [OF l3(1), of "toBytesBE 32 11" "toBytesBE 32 12"] view_version [OF l3(2)] view_paused [OF l3(3)]
      view_authority [of "replicate POOL_LEN 0" toyAuthority] len(1)
    by simp_all
  have "\<not> pool_paused d'" using v(1) by (simp only: pool_paused_view d'(3)) simp
  moreover have "pool_verifier d' c = Inr toyVerifier" if "c < 7" for c
  proof -
    have "paVerifiers (viewOf d') ! c = toyVerifier" using v(2) that by (simp only: d'(3)) simp
    then show ?thesis using pool_verifier_view [of c d'] that by (simp add: NUM_VERIFIERS_def)
  qed
  moreover have "pool_authority d' = toyAuthority"
  proof -
    have "paAuthority (viewOf d') = toyAuthority" using v(3) by (simp only: d'(3)) simp
    then show ?thesis by (simp add: viewOf_def)
  qed
  moreover have "process toyRuntime toyInitAccounts toyInitIx toyWorld = Inr (?w1(toyPool := (?w1 toyPool)\<lparr>acData := d'\<rparr>), [toyGenesis])"
    using auth create d'(1) by (simp add: toyInitAccounts_def toyInitIx_def toyKeys_def rs_initialize_def toy_pool poolNew_def
        insert_and_emit_def toy_fields writeData_def toyGenesis_def root Let_def)
  ultimately show ?thesis using d'(2) by (auto simp: toyReady_def)
qed


definition toyInputs :: "byte list list" where
  "toyInputs = toBytesBE 32 9 # toBytesBE 32 6 # replicate 10 ZERO32 @ [toBytesBE 32 7] @ replicate 8 ZERO32"

definition toySpendAccounts :: "accountInfo list" where
  "toySpendAccounts = toyKeys [toyAuthority, toyPool, toBytesBE 32 9, ZERO32, toyVerifier]"

definition toySpendEvents :: "pool_event list" where
  "toySpendEvents = [NoteInserted 1 (toBytesBE 32 6) ZERO32 (Some ZERO32) (Some ZERO32) (replicate 7 ZERO32) (toBytesBE 32 (node (nodeHash toyLibs) [5, 6] 32 0)),
     NoteInserted 2 (toBytesBE 32 7) ZERO32 None None (replicate 7 ZERO32) (toBytesBE 32 (node (nodeHash toyLibs) [5, 6, 7] 32 0)),
     NullifierSpentEvent (toBytesBE 32 9)]"

lemma toyReady_root:
  assumes "toyReady w [5]"
  shows "root_at (acData (w toyPool)) 0 = toBytesBE 32 5"
proof -
  have "node (nodeHash toyLibs) [5] 32 0 = 5" using node_up [of "[5]" 0 "nodeHash toyLibs" 32] by (simp add: nodeOrZero_def)
  then have "paRoots (viewOf (acData (w toyPool))) ! 0 = toBytesBE 32 5" using assms by (simp add: toyReady_def poolRepr_def ringOkFor_def)
  then show ?thesis by (simp add: viewOf_def ROOT_RING_def)
qed

lemma toy_block:
  assumes r: "toyReady w [5]"
  shows "\<exists>d2 full. poolBlock toyRuntime toyPool 1 (spendInputs toyInputs 0)
      [(toyInputs ! 1, toyInputs ! 2, Some (toyInputs ! 3), Some (toyInputs ! 4), ct7 toyInputs 5), (toyInputs ! 12, toyInputs ! 13, None, None, ct7 toyInputs 14)] w
    = Inr (w(toyPool := (w toyPool)\<lparr>acData := d2\<rparr>), toyVerifier, full, take 2 toySpendEvents)"
proof -
  let ?d = "acData (w toyPool)"
  have p: "poolRepr toyLibs [5] ?d" "length ?d = POOL_LEN" using r by (simp_all add: toyReady_def poolRepr_def)
  obtain d1 where d1: "rs_insert toyPoseidon ?d (toBytesBE 32 6) = Inr (1, toBytesBE 32 (node (nodeHash toyLibs) [5, 6] 32 0), d1)" "poolRepr toyLibs [5, 6] d1"
    using rs_insert_ok [OF toyLibs_fr_laws toy_agrees p(1), of 6] toy_noZero(2) by (auto simp: isFr_def BN254_P_def)
  obtain d2 where d2: "rs_insert toyPoseidon d1 (toBytesBE 32 7) = Inr (2, toBytesBE 32 (node (nodeHash toyLibs) [5, 6, 7] 32 0), d2)"
    using rs_insert_ok [OF toyLibs_fr_laws toy_agrees d1(2), of 7] toy_noZero(3) by (auto simp: isFr_def BN254_P_def)
  have "root_at ?d 0 = toBytesBE 32 5" by (rule toyReady_root [OF r])
  moreover have "toBytesBE 32 5 \<noteq> ZERO32" by code_simp
  ultimately have root: "\<exists>full. spendInputs toyInputs 0 ?d = Inr full" by (simp add: spendInputs_def resolve_root_def Let_def)
  then obtain full where full: "spendInputs toyInputs 0 ?d = Inr full" by blast
  have inputs: "toyInputs ! 1 = toBytesBE 32 6" "toyInputs ! 2 = ZERO32" "toyInputs ! 3 = ZERO32" "toyInputs ! 4 = ZERO32" "toyInputs ! 12 = toBytesBE 32 7"
    "toyInputs ! 13 = ZERO32" "ct7 toyInputs 5 = replicate 7 ZERO32" "ct7 toyInputs 14 = replicate 7 ZERO32" by code_simp+
  show ?thesis
    using r p(2) full d1(1) d2 unfolding inputs
    by (intro exI [of _ d2] exI [of _ full]) (simp add: poolBlock_def poolNew_def toyReady_def insert_and_emit_def toy_fields writeData_def toySpendEvents_def Let_def)
qed

lemma toySpend_run:
  assumes r: "toyReady w [5]"
  shows "\<exists>w'. process toyRuntime toySpendAccounts (Transfer (replicate 192 0) toyInputs 0) w = Inr (w', toySpendEvents) \<and> acOwner (w' toyPool) = toyProgram"
proof -
  obtain d2 full where b: "poolBlock toyRuntime toyPool 1 (spendInputs toyInputs 0)
      [(toyInputs ! 1, toyInputs ! 2, Some (toyInputs ! 3), Some (toyInputs ! 4), ct7 toyInputs 5), (toyInputs ! 12, toyInputs ! 13, None, None, ct7 toyInputs 14)] w
    = Inr (w(toyPool := (w toyPool)\<lparr>acData := d2\<rparr>), toyVerifier, full, take 2 toySpendEvents)" using toy_block [OF r] by blast
  let ?n = "toBytesBE 32 9" and ?w1 = "w(toyPool := (w toyPool)\<lparr>acData := d2\<rparr>)"
  have n: "nullifier_pda toyRuntime ?n = (?n, 255)" "?n \<noteq> toyPool" "toyWorld ?n = \<lparr>acOwner = ZERO32, acData = [], acLamports = 0\<rparr>"
    "ZERO32 \<noteq> toyProgram" "toyVerifier \<noteq> ZERO32" "check_count toyInputs 21 = Inr ()" "toyInputs ! 0 = ?n" by code_simp+
  have w1n: "?w1 ?n = \<lparr>acOwner = ZERO32, acData = [], acLamports = 0\<rparr>" using r n(2,3) by (simp add: toyReady_def)
  let ?w2 = "?w1(?n := \<lparr>acOwner = toyProgram, acData = [255], acLamports = 1\<rparr>)"
  have c: "create_nullifier toyRuntime toyAuthority ?n ?n ?w1 = Inr (?w2, [NullifierSpentEvent ?n])"
    using toy_create [of ?w1 ?n 1 toyAuthority] w1n n(1,4) by (simp add: create_nullifier_def writeData_def del: fun_upd_apply) (simp add: fun_upd_def)
  have v: "verifyProof toyRuntime toyVerifier toyVerifier (replicate 192 0) full ?w2 = Inr ?w2"
    using n(5) by (simp add: verifyProof_def decompress_proof_def toy_fields verify_cpi_def invoke_def Let_def)
  have x: "expect_pool_pda toyRuntime toyPool w = Inr 255" using r by (simp add: expect_pool_pda_def toy_pool toyReady_def)
  have e: "take 2 toySpendEvents @ [NullifierSpentEvent ?n] = toySpendEvents" by (simp add: toySpendEvents_def)
  have "process toyRuntime toySpendAccounts (Transfer (replicate 192 0) toyInputs 0) w = Inr (?w2, toySpendEvents)"
    using b c v x n(6,7) e by (simp add: transfer_like_def spendTwo_def toySpendAccounts_def toyKeys_def)
  then show ?thesis using r n(2) by (auto simp: toyReady_def)
qed

lemma toyRun: "\<exists>w. pool_run toyRuntime w (toyGenesis # toySpendEvents) \<and> acOwner (w toyPool) = toyProgram"
proof -
  have ac: "wfAccounts toyInitAccounts" "wfIx toyInitIx" "wfAccounts toySpendAccounts" "wfIx (Transfer (replicate 192 0) toyInputs 0)"
    by code_simp+
  have "toyLoader \<noteq> toyProgram" "ZERO32 \<noteq> toyProgram" by code_simp+
  then have "\<forall>k. \<not> owned toyRuntime toyWorld k" by (simp add: toyWorld_def)
  then have r0: "pool_run toyRuntime toyWorld []" by (rule pool_run.deployed)
  obtain w1 where w1: "process toyRuntime toyInitAccounts toyInitIx toyWorld = Inr (w1, [toyGenesis])" "toyReady w1 [5]" using toyInit_run by blast
  have r1: "pool_run toyRuntime w1 [toyGenesis]" using pool_run.call [OF r0 ac(1,2) w1(1)] by simp
  obtain w2 where w2: "process toyRuntime toySpendAccounts (Transfer (replicate 192 0) toyInputs 0) w1 = Inr (w2, toySpendEvents)" "acOwner (w2 toyPool) = toyProgram"
    using toySpend_run [OF w1(2)] by blast
  show ?thesis using pool_run.call [OF r1 ac(3,4) w2(1)] w2(2) by auto
qed

lemma toyRotate_run:
  assumes r: "toyReady w [5]" and v: "compliance_version (acData (w toyPool)) = 0"
  shows "\<exists>w' evs. process toyRuntime (toyKeys [toyAuthority, toyPool]) (RotateComplianceKey ZERO32 ZERO32) w = Inr (w', evs)"
proof -
  have "length (acData (w toyPool)) = POOL_LEN" using r by (simp add: toyReady_def poolRepr_def)
  then show ?thesis using r v
    by (simp add: toyReady_def toyKeys_def rs_rotate_compliance_key_def withAuthority_def load_pool_authority_def expect_pool_pda_def toy_pool
        poolNew_def writeData_def Let_def)
qed

section \<open>Properties\<close>

text \<open>C2: no double spend on chain.  In every run of the pool program (any calls with any accounts, other transactions in
  between), no nullifier is logged twice, and in the world the run reaches the step that spends a nullifier of the log
  again is refused, whatever account is passed for it.\<close>

theorem no_double_spend:
  assumes "runtime_laws rt" "pool_run rt w log"
  shows "distinct (spentOf log)
    \<and> (\<forall>n\<in>set (spentOf log). \<forall>payer k. create_nullifier rt payer k n w \<in> {Inl InvalidSeeds, Inl (poolErr NullifierSpent)})"
  using pool_run_invariant [OF assms] spent_refused by (auto simp: spentOk_def)

theorem no_double_spend_witness:
  "\<exists>w. pool_run toyRuntime w (toyGenesis # toySpendEvents) \<and> spentOf (toyGenesis # toySpendEvents) = [toBytesBE 32 9]
    \<and> (\<forall>payer k. create_nullifier toyRuntime payer k (toBytesBE 32 9) w \<in> {Inl InvalidSeeds, Inl (poolErr NullifierSpent)})"
proof -
  obtain w where w: "pool_run toyRuntime w (toyGenesis # toySpendEvents)" using toyRun by blast
  have s: "spentOf (toyGenesis # toySpendEvents) = [toBytesBE 32 9]" by (simp add: toyGenesis_def toySpendEvents_def)
  show ?thesis using no_double_spend [OF toyRuntime_laws w] w s by auto
qed

text \<open>C5: the log is the tree.  In every run that has initialised the pool, the logged insertions are numbered 0, 1, 2, ...
  without gap or repetition and the pool account counts them; and when the leaves are canonical field elements, the
  wallet's tree rebuilt from the log alone has a root that the client's lookup finds in the pool's ring, in a slot that
  holds it.\<close>

theorem log_is_tree:
  assumes "runtime_laws rt" "pool_run rt w log" "owned rt w (fst (pool_pda rt))"
    and "fr_laws L" "poseidon_agrees (rtPoseidon rt) L" "newLeanIMT 32 = Inr t"
    and "list_all (canonicalLeaf \<circ> snd) (insertedOf log)" "noZeroRun L (map (bytesBE \<circ> snd) (insertedOf log))"
  shows "\<exists>pool t' i. decodePool (acData (w (fst (pool_pda rt)))) = Inr pool \<and> paNextLeafIndex pool = int (length (insertedOf log))
    \<and> map fst (insertedOf log) = map int [0..<length (insertedOf log)]
    \<and> insertAll (imtInsert L) t (map (bytesBE \<circ> snd) (insertedOf log)) = Inr t'
    \<and> rootIndexFor pool (toBytesBE 32 (imtGetRoot t')) = Inr (Some i)
    \<and> root_at (acData (w (fst (pool_pda rt)))) i = toBytesBE 32 (imtGetRoot t')"
proof -
  let ?d = "acData (w (fst (pool_pda rt)))" and ?ls = "map (bytesBE \<circ> snd) (insertedOf log)"
  have i: "insertedOf log \<noteq> []" "tracks rt L ?d (insertedOf log)" using pool_run_invariant [OF assms(1,2), of L] assms(3) by (simp_all add: poolInv_def)
  have r: "poolRepr L ?ls ?d" using i(2) assms(4,5,7,8) by (simp add: tracks_def)
  have d: "decodePool ?d = Inr (viewOf ?d)" "paNextLeafIndex (viewOf ?d) = int (length (insertedOf log))"
    using i(2) by (simp_all add: tracks_def decodePool_view viewOf_def)
  obtain t' where t': "insertAll (imtInsert L) t ?ls = Inr t'" "imtGetRoot t' = node (nodeHash L) ?ls 32 0"
    using sdkTree.built_tree [OF newLeanIMT_repr [OF assms(4,6)], of ?ls] noZeroRun_nonzero [OF assms(8)] r by (auto simp: poolRepr_def)
  have "length ?ls - 1 < length ?ls" "take (Suc (length ?ls - 1)) ?ls = ?ls" using i(1) by simp_all
  then obtain k where "rootIndexFor (viewOf ?d) (toBytesBE 32 (node (nodeHash L) ?ls 32 0)) = Inr (Some k)"
      "root_at ?d k = toBytesBE 32 (node (nodeHash L) ?ls 32 0)"
    using repr_recent_root [OF r, of "length ?ls - 1"] d(1) by auto
  then show ?thesis using d t' i(2) by (auto simp: tracks_def)
qed

theorem log_is_tree_witness:
  "\<exists>(w::world) t pool t' i. pool_run toyRuntime w (toyGenesis # toySpendEvents) \<and> newLeanIMT 32 = Inr t \<and> decodePool (acData (w (fst (pool_pda toyRuntime)))) = Inr pool \<and> paNextLeafIndex pool = 3
    \<and> insertAll (imtInsert toyLibs) t [5, 6, 7] = Inr t' \<and> rootIndexFor pool (toBytesBE 32 (imtGetRoot t')) = Inr (Some i)"
proof -
  obtain w where w: "pool_run toyRuntime w (toyGenesis # toySpendEvents)" "acOwner (w toyPool) = toyProgram" using toyRun by blast
  obtain t where t: "newLeanIMT 32 = Inr t" by (simp add: newLeanIMT_def)
  have i: "insertedOf (toyGenesis # toySpendEvents) = [(0, toBytesBE 32 5), (1, toBytesBE 32 6), (2, toBytesBE 32 7)]"
    by (simp add: toyGenesis_def toySpendEvents_def)
  have b: "bytesBE (toBytesBE 32 5) = 5" "bytesBE (toBytesBE 32 6) = 6" "bytesBE (toBytesBE 32 7) = 7" by code_simp+
  then have m: "map (bytesBE \<circ> snd) (insertedOf (toyGenesis # toySpendEvents)) = [5, 6, 7]" by (simp add: i)
  have c: "list_all (canonicalLeaf \<circ> snd) (insertedOf (toyGenesis # toySpendEvents))" using b by (simp add: i canonicalLeaf_def isFr_def BN254_P_def)
  have o: "owned toyRuntime w (fst (pool_pda toyRuntime))" using w(2) by (simp add: toy_pool)
  have a: "poseidon_agrees (rtPoseidon toyRuntime) toyLibs" using toy_agrees by (simp add: toy_fields)
  have "int (length (insertedOf (toyGenesis # toySpendEvents))) = 3" by (simp add: i)
  then obtain pool t' i where r: "decodePool (acData (w (fst (pool_pda toyRuntime)))) = Inr pool" "paNextLeafIndex pool = 3"
    "insertAll (imtInsert toyLibs) t [5, 6, 7] = Inr t'" "rootIndexFor pool (toBytesBE 32 (imtGetRoot t')) = Inr (Some i)"
    using log_is_tree [OF toyRuntime_laws w(1) o toyLibs_fr_laws a t c, unfolded m, OF toy_noZeroRun] by metis
  show ?thesis
    by (rule exI [of _ w], rule exI [of _ t], rule exI [of _ pool], rule exI [of _ t'], rule exI [of _ i]) (intro conjI; fact w t r)
qed

text \<open>C6: a withdrawal pays only what was proved.  When a withdrawal succeeds, the verifier program the pool stores for the
  circuit accepted the proof for these public inputs: the amount, the field of the destination account, a zero intent, the
  pool's compliance key, a nullifier not spent before, a root of the ring at the given index, the asset of the mint, and
  the change note; and the last step was the token program's transfer of this amount to this destination.\<close>

theorem withdraw_authorised:
  assumes "withdraw_like rt accounts proof inputs amount ri cid w = Inr (w', evs)"
  shows "\<exists>payer nul asset mint vault destination tp sys ver rest vk uncompressed w2 w3.
    map aiKey accounts = payer # fst (pool_pda rt) # nul # asset # mint # vault # destination # tp # sys # ver # rest
    \<and> (let data = acData (w (fst (pool_pda rt)));
        full = [amountField amount, recipient_field rt destination, ZERO32, compliance_pk_x data, compliance_pk_y data, inputs ! 3, root_at data ri,
          asset_id_field rt mint] @ drop 5 inputs in
      pool_verifier data cid = Inr vk \<and> vk \<noteq> ZERO32 \<and> \<not> pool_paused data \<and> root_at data ri \<noteq> ZERO32 \<and> length full = 17
      \<and> decompress_proof rt proof = Inr uncompressed
      \<and> invoke rt (Invoke vk [] (uncompressed @ toBytesBE 4 17 @ toBytesBE 4 0 @ toBytesBE 4 17 @ concat full)) w2 = Inr w3
      \<and> payToken rt tp vault mint destination (fst (pool_pda rt)) amount w3 = Inr w'
      \<and> spentOf evs = [inputs ! 3])"
proof -
  let ?P = "thePool rt" and ?d = "acData (w (thePool rt))"
  obtain payer pool nul asset mint vault destination tp sys ver rest where keys:
    "map aiKey accounts = payer # pool # nul # asset # mint # vault # destination # tp # sys # ver # rest"
    using assms by (auto simp: withdraw_like_def split: list.splits)
  obtain bump w1 vk full e1 w2 e2 w3 where c:
    "expect_pool_pda rt pool w = Inr bump" "length inputs = 14" "inputs ! 2 = ZERO32" "inputs ! 0 = amountField amount"
    "inputs ! 1 = recipient_field rt destination" "inputs ! 4 = asset_id_field rt mint"
    "poolBlock rt pool cid (withdrawInputs inputs ri) [(inputs ! 5, inputs ! 6, None, None, ct7 inputs 7)] w = Inr (w1, vk, full, e1)"
    "create_nullifier rt payer nul (inputs ! 3) w1 = Inr (w2, e2)" "verifyProof rt ver vk proof full w2 = Inr w3"
    "payToken rt tp vault mint destination pool amount w3 = Inr w'" "evs = e1 @ e2"
    using assms unfolding withdraw_like_def keys by (auto simp: Let_def check_count_def split: if_splits)
  have pool: "pool = ?P" using expect_pool_pda_Inr [OF c(1)] by blast
  have b: "withdrawInputs inputs ri ?d = Inr full" "pool_verifier ?d cid = Inr vk" "\<not> pool_paused ?d"
    using poolBlock_Inr [OF c(7)] pool by auto
  have five: "drop 4 inputs = inputs ! 4 # drop 5 inputs" using c(2) by (simp add: Cons_nth_drop_Suc eval_nat_numeral)
  have full: "full = [amountField amount, recipient_field rt destination, ZERO32, compliance_pk_x ?d, compliance_pk_y ?d, inputs ! 3, root_at ?d ri,
      asset_id_field rt mint] @ drop 5 inputs" "root_at ?d ri \<noteq> ZERO32"
    using b(1) c(3-6) five by (auto simp: withdrawInputs_def resolve_root_def Let_def split: if_splits)
  have len: "length full = 17" using full(1) c(2) by simp
  obtain u where u: "decompress_proof rt proof = Inr u" "vk \<noteq> ZERO32"
    "invoke rt (Invoke vk [] (u @ toBytesBE 4 17 @ toBytesBE 4 0 @ toBytesBE 4 17 @ concat full)) w2 = Inr w3"
    using c(9) len by (auto simp: verifyProof_def verify_cpi_def Let_def split: if_splits)
  have "e2 = [NullifierSpentEvent (inputs ! 3)]" using c(8) by (auto simp: create_nullifier_def split: prod.splits if_splits)
  then have sp: "spentOf evs = [inputs ! 3]" using c(11) spends_poolBlock [OF c(7)] by simp
  show ?thesis unfolding Let_def
    by (intro exI conjI) (fact keys [unfolded pool] b(2) u(2) b(3) full(2) len [unfolded full(1)] u(1) u(3) [unfolded full(1)] c(10) [unfolded pool] sp)+
qed

definition toyWithdrawInputs :: "byte list list" where
  "toyWithdrawInputs = [amountField 100, 0 # replicate 31 5, ZERO32, toBytesBE 32 9, replicate 12 0 @ replicate 20 5, toBytesBE 32 6] @ replicate 8 ZERO32"

definition toyTokenMint :: pubkey where "toyTokenMint = replicate 32 21"
definition toyVault :: pubkey where "toyVault = replicate 32 22"
definition toyAsset :: pubkey where "toyAsset = replicate 32 23"
definition toyDest :: pubkey where "toyDest = replicate 32 24"

definition toyWithdrawAccounts :: "accountInfo list" where
  "toyWithdrawAccounts = toyKeys [toyAuthority, toyPool, toBytesBE 32 9, toyAsset, toyTokenMint, toyVault, toyDest, replicate 32 6, ZERO32, toyVerifier]"

lemma toyWithdraw_run:
  assumes r: "toyReady u [5]"
    and w: "w = u(toyTokenMint := \<lparr>acOwner = replicate 32 6, acData = replicate 82 1, acLamports = 0\<rparr>,
      toyAsset := \<lparr>acOwner = toyProgram, acData = toyTokenMint @ toyVault @ replicate 21 5, acLamports = 0\<rparr>)"
  shows "isOk (withdraw_like toyRuntime toyWithdrawAccounts (replicate 192 0) toyWithdrawInputs 100 0 2 w)"
proof -
  let ?n = "toBytesBE 32 9"
  have ne: "toyTokenMint \<noteq> toyPool" "toyAsset \<noteq> toyPool" "?n \<noteq> toyPool" "?n \<noteq> toyTokenMint" "?n \<noteq> toyAsset" "toyTokenMint \<noteq> toyAsset"
    "ZERO32 \<noteq> toyProgram" "toyVerifier \<noteq> ZERO32" by code_simp+
  have wp: "w toyPool = u toyPool" using ne by (simp add: w)
  let ?d = "acData (u toyPool)"
  have p: "poolRepr toyLibs [5] ?d" "length ?d = POOL_LEN" using r by (simp_all add: toyReady_def poolRepr_def)
  obtain d1 where d1: "rs_insert toyPoseidon ?d (toBytesBE 32 6) = Inr (1, toBytesBE 32 (node (nodeHash toyLibs) [5, 6] 32 0), d1)"
    using rs_insert_ok [OF toyLibs_fr_laws toy_agrees p(1), of 6] toy_noZero(2) by (auto simp: isFr_def BN254_P_def)
  have "toBytesBE 32 5 \<noteq> ZERO32" by code_simp
  then have "root_at ?d 0 \<noteq> ZERO32" using toyReady_root [OF r] by simp
  then obtain full where full: "withdrawInputs toyWithdrawInputs 0 ?d = Inr full" by (simp add: withdrawInputs_def resolve_root_def Let_def)
  let ?w1 = "w(toyPool := (w toyPool)\<lparr>acData := d1\<rparr>)"
  have inputs: "toyWithdrawInputs ! 0 = amountField 100" "toyWithdrawInputs ! 1 = recipient_field toyRuntime toyDest" "toyWithdrawInputs ! 2 = ZERO32"
    "toyWithdrawInputs ! 3 = ?n" "toyWithdrawInputs ! 4 = asset_id_field toyRuntime toyTokenMint" "toyWithdrawInputs ! 5 = toBytesBE 32 6"
    "check_count toyWithdrawInputs 14 = Inr ()" "token_program_supported toyRuntime (replicate 32 6)" "nullifier_pda toyRuntime ?n = (?n, 255)"
    "toyWorld ?n = \<lparr>acOwner = ZERO32, acData = [], acLamports = 0\<rparr>" "length toyTokenMint = 32" "length toyVault = 32" by code_simp+
  have block: "\<exists>evs. poolBlock toyRuntime toyPool 2 (withdrawInputs toyWithdrawInputs 0) [(toBytesBE 32 6, eph, None, None, ct)] w = Inr (?w1, toyVerifier, full, evs)" for eph ct
    using r p(2) full d1 wp by (simp add: poolBlock_def poolNew_def toyReady_def insert_and_emit_def toy_fields writeData_def Let_def)
  then obtain evs where evs: "poolBlock toyRuntime toyPool 2 (withdrawInputs toyWithdrawInputs 0)
      [(toBytesBE 32 6, toyWithdrawInputs ! 6, None, None, ct7 toyWithdrawInputs 7)] w = Inr (?w1, toyVerifier, full, evs)" by blast
  have w1n: "?w1 ?n = \<lparr>acOwner = ZERO32, acData = [], acLamports = 0\<rparr>" using r ne inputs(10) by (simp add: toyReady_def w)
  let ?w2 = "?w1(?n := \<lparr>acOwner = toyProgram, acData = [255], acLamports = 1\<rparr>)"
  have c: "create_nullifier toyRuntime toyAuthority ?n ?n ?w1 = Inr (?w2, [NullifierSpentEvent ?n])"
    using toy_create [of ?w1 ?n 1 toyAuthority] w1n inputs(9) ne(7) by (simp add: create_nullifier_def writeData_def del: fun_upd_apply) (simp add: fun_upd_def)
  have v: "verifyProof toyRuntime toyVerifier toyVerifier (replicate 192 0) full ?w2 = Inr ?w2"
    using ne(8) by (simp add: verifyProof_def decompress_proof_def toy_fields verify_cpi_def invoke_def Let_def)
  have m: "w toyTokenMint = \<lparr>acOwner = replicate 32 6, acData = replicate 82 1, acLamports = 0\<rparr>"
    "w toyAsset = \<lparr>acOwner = toyProgram, acData = toyTokenMint @ toyVault @ replicate 21 5, acLamports = 0\<rparr>" using ne by (simp_all add: w)
  have "?w2 toyTokenMint = w toyTokenMint" using ne by simp
  then have t: "payToken toyRuntime (replicate 32 6) toyVault toyTokenMint toyDest toyPool 100 ?w2 = Inr ?w2"
    using m(1) inputs(8) by (simp add: payToken_def mint_decimals_def transfer_checked_ix_def invoke_def toy_fields Let_def del: fun_upd_apply)
  have x: "expect_pool_pda toyRuntime toyPool w = Inr 255" using r wp by (simp add: expect_pool_pda_def toy_pool toyReady_def)
  show ?thesis unfolding withdraw_like_def toyWithdrawAccounts_def toyKeys_def
    using evs c v t x m inputs by (simp del: fun_upd_apply)
qed

theorem withdraw_authorised_witness:
  "\<exists>w w' evs vk u w2 w3. withdraw_like toyRuntime toyWithdrawAccounts (replicate 192 0) toyWithdrawInputs 100 0 2 w = Inr (w', evs)
    \<and> pool_verifier (acData (w toyPool)) 2 = Inr vk \<and> invoke toyRuntime (Invoke vk [] u) w2 = Inr w3
    \<and> payToken toyRuntime (replicate 32 6) toyVault toyTokenMint toyDest toyPool 100 w3 = Inr w' \<and> spentOf evs = [toBytesBE 32 9]"
proof -
  obtain u where u: "toyReady u [5]" using toyInit_run by blast
  define w where "w = u(toyTokenMint := \<lparr>acOwner = replicate 32 6, acData = replicate 82 1, acLamports = 0\<rparr>,
      toyAsset := \<lparr>acOwner = toyProgram, acData = toyTokenMint @ toyVault @ replicate 21 5, acLamports = 0\<rparr>)"
  obtain w' evs where r: "withdraw_like toyRuntime toyWithdrawAccounts (replicate 192 0) toyWithdrawInputs 100 0 2 w = Inr (w', evs)"
    using toyWithdraw_run [OF u w_def] by (cases "withdraw_like toyRuntime toyWithdrawAccounts (replicate 192 0) toyWithdrawInputs 100 0 2 w") auto
  have k: "map aiKey toyWithdrawAccounts = [toyAuthority, toyPool, toBytesBE 32 9, toyAsset, toyTokenMint, toyVault, toyDest, replicate 32 6, ZERO32, toyVerifier]"
    by (simp add: toyWithdrawAccounts_def toyKeys_def)
  have n: "toyWithdrawInputs ! 3 = toBytesBE 32 9" by code_simp
  show ?thesis using withdraw_authorised [OF r] r unfolding k n toy_pool fst_conv Let_def by blast
qed

end
