(* ===== verification/TxWire.thy ===== *)
theory TxWire
  imports PoolLog
begin

text \<open>
  \<open>sdk/src/solana/borsh.ts\<close>, \<open>txBuilder.ts\<close>, \<open>pda.ts\<close>, \<open>assetId.ts\<close>, \<open>recipientField.ts\<close>, and the circuit table of
  \<open>tx/ports.ts\<close>: from a proof with its public inputs to the bytes and accounts of an instruction.  The reader of the
  program's side is the derived decoder of \<open>PoolInstruction\<close>.  The lemmas show that every instruction a builder returns is
  decoded by the program to the instruction meant, that its accounts come in the order the handler reads them, and that
  the program, which gets the public inputs without the compliance key and the root, puts back exactly the ones the proof
  was made for.
\<close>

section \<open>Borsh\<close>

text \<open>\<open>BorshWriter\<close>: the chunks written so far.  Writing a number that does not fit a \<open>u32\<close> or \<open>u64\<close> throws.\<close>

type_synonym borshWriter = "byte list list"

definition wU8 :: "nat \<Rightarrow> borshWriter \<Rightarrow> borshWriter" where
  "wU8 v w = w @ [[v mod 256]]"

definition wU32 :: "int \<Rightarrow> borshWriter \<Rightarrow> borshWriter result" where
  "wU32 v w = (if v < 0 \<or> 2 ^ 32 \<le> v then Inl (LibraryError ''RangeError'') else Inr (w @ [toBytesLE 4 v]))"

definition wU64 :: "int \<Rightarrow> borshWriter \<Rightarrow> borshWriter result" where
  "wU64 v w = (if v < 0 \<or> 2 ^ 64 \<le> v then Inl (LibraryError ''RangeError'') else Inr (w @ [toBytesLE 8 v]))"

definition wBool :: "bool \<Rightarrow> borshWriter \<Rightarrow> borshWriter" where
  "wBool v w = wU8 (if v then 1 else 0) w"

definition wBytes :: "byte list \<Rightarrow> borshWriter \<Rightarrow> borshWriter" where
  "wBytes v w = w @ [v]"

definition wPubkey :: "pubkey \<Rightarrow> borshWriter \<Rightarrow> borshWriter" where
  "wPubkey v w = wBytes v w"

definition wVecU8 :: "byte list \<Rightarrow> borshWriter \<Rightarrow> borshWriter result" where
  "wVecU8 v w = bindR (wU32 (int (length v)) w) (\<lambda>w'. Inr (wBytes v w'))"

definition wVecFixed32 :: "byte list list \<Rightarrow> borshWriter \<Rightarrow> borshWriter result" where
  "wVecFixed32 vs w =
     bindR (wU32 (int (length vs)) w) (\<lambda>w'.
     foldR (\<lambda>acc v. if length v \<noteq> 32 then Inl (Error ''BorshWriter.vecFixed32: expected 32-byte elements'') else Inr (wBytes v acc)) w' vs)"

definition wBuffer :: "borshWriter \<Rightarrow> byte list" where
  "wBuffer w = concat w"

text \<open>\<open>BorshReader\<close>: the buffer and the offset.\<close>

type_synonym borshReader = "byte list \<times> nat"

definition rNeed :: "nat \<Rightarrow> borshReader \<Rightarrow> unit result" where
  "rNeed n r = (if length (fst r) < snd r + n then Inl (Error ''BorshReader: unexpected end of data'') else Inr ())"

definition rBytes :: "nat \<Rightarrow> borshReader \<Rightarrow> (byte list \<times> borshReader) result" where
  "rBytes n r = bindR (rNeed n r) (\<lambda>_. Inr (take n (drop (snd r) (fst r)), (fst r, snd r + n)))"

definition rU8 :: "borshReader \<Rightarrow> (nat \<times> borshReader) result" where
  "rU8 r = bindR (rNeed 1 r) (\<lambda>_. Inr (fst r ! snd r, (fst r, snd r + 1)))"

definition rU32 :: "borshReader \<Rightarrow> (int \<times> borshReader) result" where
  "rU32 r = bindR (rNeed 4 r) (\<lambda>_. Inr (bytesLE (take 4 (drop (snd r) (fst r))), (fst r, snd r + 4)))"

definition rU64 :: "borshReader \<Rightarrow> (int \<times> borshReader) result" where
  "rU64 r = bindR (rNeed 8 r) (\<lambda>_. Inr (bytesLE (take 8 (drop (snd r) (fst r))), (fst r, snd r + 8)))"

definition rBool :: "borshReader \<Rightarrow> (bool \<times> borshReader) result" where
  "rBool r = bindR (rU8 r) (\<lambda>(v, r'). Inr (v \<noteq> 0, r'))"

definition rPubkey :: "borshReader \<Rightarrow> (pubkey \<times> borshReader) result" where
  "rPubkey r = rBytes 32 r"

definition rRemaining :: "borshReader \<Rightarrow> nat" where
  "rRemaining r = length (fst r) - snd r"

section \<open>Addresses\<close>

text \<open>What \<open>@solana/web3.js\<close> and \<open>@noble/hashes\<close> provide, and the well-known addresses.\<close>

record solanaLib =
  slFind :: "byte list list \<Rightarrow> pubkey \<Rightarrow> pubkey \<times> byte"
  slSha256 :: "byte list \<Rightarrow> byte list"
  slTokenProgram :: pubkey
  slAtaProgram :: pubkey
  slLoader :: pubkey
  slComputeBudget :: pubkey
  slUnitLimitData :: "int \<Rightarrow> byte list"

definition poolPda :: "solanaLib \<Rightarrow> pubkey \<Rightarrow> pubkey \<times> byte" where
  "poolPda S programId = slFind S [ascii ''pool''] programId"

definition assetPda :: "solanaLib \<Rightarrow> pubkey \<Rightarrow> byte list \<Rightarrow> (pubkey \<times> byte) result" where
  "assetPda S programId assetIdBytes =
     (if length assetIdBytes \<noteq> 20 then Inl (Error ''assetPda: asset_id must be 20 bytes'')
      else Inr (slFind S [ascii ''asset'', assetIdBytes] programId))"

definition nullifierPda :: "solanaLib \<Rightarrow> pubkey \<Rightarrow> byte list \<Rightarrow> (pubkey \<times> byte) result" where
  "nullifierPda S programId nullifierBytes =
     (if length nullifierBytes \<noteq> 32 then Inl (Error ''nullifierPda: nullifier must be 32 bytes'')
      else Inr (slFind S [ascii ''nullifier'', nullifierBytes] programId))"

definition programDataAddress :: "solanaLib \<Rightarrow> pubkey \<Rightarrow> pubkey \<times> byte" where
  "programDataAddress S programId = slFind S [programId] (slLoader S)"

definition assetId :: "solanaLib \<Rightarrow> pubkey \<Rightarrow> byte list" where
  "assetId S mint = take 20 (slSha256 S (ascii ''kakure.asset.v1'' @ mint))"

definition recipientField :: "solanaLib \<Rightarrow> pubkey \<Rightarrow> byte list" where
  "recipientField S destination = (slSha256 S (ascii ''kakure.recipient.v1'' @ destination))[0 := 0]"

section \<open>Circuits and layouts\<close>

datatype circuitId = CDeposit | CTransfer | CWithdraw | CTransferMultisig | CSplitMultisig | CJoinMultisig | CWithdrawMultisig

primrec circuitNumber :: "circuitId \<Rightarrow> nat" where
  "circuitNumber CDeposit = 0" | "circuitNumber CTransfer = 1" | "circuitNumber CWithdraw = 2" | "circuitNumber CTransferMultisig = 3"
| "circuitNumber CSplitMultisig = 4" | "circuitNumber CJoinMultisig = 5" | "circuitNumber CWithdrawMultisig = 6"

primrec PUBLIC_INPUT_COUNT :: "circuitId \<Rightarrow> nat" where
  "PUBLIC_INPUT_COUNT CDeposit = 13" | "PUBLIC_INPUT_COUNT CTransfer = 24" | "PUBLIC_INPUT_COUNT CWithdraw = 17"
| "PUBLIC_INPUT_COUNT CTransferMultisig = 24" | "PUBLIC_INPUT_COUNT CSplitMultisig = 22" | "PUBLIC_INPUT_COUNT CJoinMultisig = 14"
| "PUBLIC_INPUT_COUNT CWithdrawMultisig = 17"

record proofBundle =
  pbCircuitId :: circuitId
  pbProof :: "byte list"
  pbPublicInputs :: "byte list list"

text \<open>\<open>stripIndices\<close> and \<open>rootIndexAt\<close> of each circuit.\<close>

primrec layoutStrip :: "circuitId \<Rightarrow> nat list" where
  "layoutStrip CDeposit = [0, 1]" | "layoutStrip CTransfer = [0, 1, 3]" | "layoutStrip CTransferMultisig = [0, 1, 3]"
| "layoutStrip CSplitMultisig = [0, 1, 3]" | "layoutStrip CJoinMultisig = [0, 1, 4]" | "layoutStrip CWithdraw = [3, 4, 6]"
| "layoutStrip CWithdrawMultisig = [3, 4, 6]"

primrec layoutRoot :: "circuitId \<Rightarrow> nat option" where
  "layoutRoot CDeposit = None" | "layoutRoot CTransfer = Some 3" | "layoutRoot CTransferMultisig = Some 3"
| "layoutRoot CSplitMultisig = Some 3" | "layoutRoot CJoinMultisig = Some 4" | "layoutRoot CWithdraw = Some 6"
| "layoutRoot CWithdrawMultisig = Some 6"

definition wirePublicInputs :: "proofBundle \<Rightarrow> byte list list" where
  "wirePublicInputs bundle =
     map snd (filter (\<lambda>(i, _). i \<notin> set (layoutStrip (pbCircuitId bundle))) (enumerate 0 (pbPublicInputs bundle)))"

definition resolveRootIndex :: "proofBundle \<Rightarrow> poolAccount \<Rightarrow> nat result" where
  "resolveRootIndex bundle pool =
     (case layoutRoot (pbCircuitId bundle) of
        None \<Rightarrow> Inl (Error ''TxBuilder: circuit has no root (deposit) -- resolveRootIndex should not be called for it'')
      | Some at \<Rightarrow>
          if length (pbPublicInputs bundle) \<le> at then Inl (Error ''TxBuilder: bundle.publicInputs[rootIndexAt] (root) is missing'')
          else bindR (rootIndexFor pool (pbPublicInputs bundle ! at)) (\<lambda>idx.
            case idx of None \<Rightarrow> Inl (Error ''RootNotInRingError'') | Some i \<Rightarrow> Inr i))"

definition assertPublicInputs :: "proofBundle \<Rightarrow> byte list list result" where
  "assertPublicInputs bundle =
     (if length (pbPublicInputs bundle) \<noteq> PUBLIC_INPUT_COUNT (pbCircuitId bundle) then Inl (Error ''TxBuilder: public input count'')
      else if list_ex (\<lambda>word. length word \<noteq> 32) (pbPublicInputs bundle) then Inl (Error ''TxBuilder: each public input must be 32 bytes big-endian'')
      else Inr (pbPublicInputs bundle))"

definition assertCompressedProof :: "proofBundle \<Rightarrow> byte list result" where
  "assertCompressedProof bundle =
     (if length (pbProof bundle) \<noteq> 192 then Inl (Error ''TxBuilder: expects a 192-byte compressed proof'') else Inr (pbProof bundle))"

definition writeProofAndWireInputs :: "borshWriter \<Rightarrow> proofBundle \<Rightarrow> borshWriter result" where
  "writeProofAndWireInputs w bundle =
     bindR (assertPublicInputs bundle) (\<lambda>_.
     bindR (assertCompressedProof bundle) (\<lambda>proof.
     wVecFixed32 (wirePublicInputs bundle) (wBytes proof w)))"

section \<open>The builders\<close>

record accountMeta =
  amPubkey :: pubkey
  amSigner :: bool
  amWritable :: bool

record txInstruction =
  tiProgramId :: pubkey
  tiKeys :: "accountMeta list"
  tiData :: "byte list"

definition KAKURE_COMPUTE_UNIT_LIMIT :: int where "KAKURE_COMPUTE_UNIT_LIMIT = 1400000"

definition computeBudgetIx :: "solanaLib \<Rightarrow> txInstruction" where
  "computeBudgetIx S = \<lparr>tiProgramId = slComputeBudget S, tiKeys = [], tiData = slUnitLimitData S KAKURE_COMPUTE_UNIT_LIMIT\<rparr>"

definition SYSTEM_PROGRAM :: pubkey where "SYSTEM_PROGRAM = ZERO32"

abbreviation am :: "pubkey \<Rightarrow> bool \<Rightarrow> bool \<Rightarrow> accountMeta" where
  "am k s w \<equiv> \<lparr>amPubkey = k, amSigner = s, amWritable = w\<rparr>"

text \<open>\<open>enum IxTag\<close>.\<close>

datatype ixTag = TInitialize | TSetVerifier | TRotateComplianceKey | TSetPaused | TDeposit | TTransfer | TTransferMultisig
  | TSplitMultisig | TJoinMultisig | TWithdraw | TWithdrawMultisig

primrec tagByte :: "ixTag \<Rightarrow> nat" where
  "tagByte TInitialize = 0" | "tagByte TSetVerifier = 1" | "tagByte TRotateComplianceKey = 2" | "tagByte TSetPaused = 3"
| "tagByte TDeposit = 4" | "tagByte TTransfer = 5" | "tagByte TTransferMultisig = 6" | "tagByte TSplitMultisig = 7"
| "tagByte TJoinMultisig = 8" | "tagByte TWithdraw = 9" | "tagByte TWithdrawMultisig = 10"

definition poolAddress :: "solanaLib \<Rightarrow> pubkey \<Rightarrow> pubkey" where
  "poolAddress S programId = fst (poolPda S programId)"

definition mkIx :: "pubkey \<Rightarrow> borshWriter \<Rightarrow> accountMeta list \<Rightarrow> txInstruction" where
  "mkIx programId w ks = \<lparr>tiProgramId = programId, tiKeys = ks, tiData = wBuffer w\<rparr>"

definition buildInitialize :: "solanaLib \<Rightarrow> pubkey \<Rightarrow> byte list \<Rightarrow> byte list \<Rightarrow> pubkey list \<Rightarrow> byte list \<Rightarrow> pubkey \<Rightarrow> pubkey \<Rightarrow> txInstruction list result" where
  "buildInitialize S programId compliancePkX compliancePkY verifiers genesis authority programData =
     (if length compliancePkX \<noteq> 32 \<or> length compliancePkY \<noteq> 32 then Inl (Error ''TxBuilder.initialize: compliancePkX/compliancePkY must be 32 bytes'')
      else if length verifiers \<noteq> 7 then Inl (Error ''TxBuilder.initialize: expects exactly 7 verifier programs (I-1)'')
      else if length genesis \<noteq> 32 then Inl (Error ''TxBuilder.initialize: genesisLeaf must be 32 bytes'')
      else let w = wBytes genesis (fold wPubkey verifiers (wBytes compliancePkY (wBytes compliancePkX (wU8 (tagByte TInitialize) [])))) in
        Inr [computeBudgetIx S, mkIx programId w
          [am authority True True, am (poolAddress S programId) False True, am programData False False, am SYSTEM_PROGRAM False False]])"

definition buildSetVerifier :: "pubkey \<Rightarrow> circuitId \<Rightarrow> pubkey \<Rightarrow> pubkey \<Rightarrow> pubkey \<Rightarrow> txInstruction" where
  "buildSetVerifier programId circuit verifierProgram pool authority =
     mkIx programId (wPubkey verifierProgram (wU8 (circuitNumber circuit) (wU8 (tagByte TSetVerifier) []))) [am authority True False, am pool False True]"

definition buildRotateComplianceKey :: "pubkey \<Rightarrow> byte list \<Rightarrow> byte list \<Rightarrow> pubkey \<Rightarrow> pubkey \<Rightarrow> txInstruction result" where
  "buildRotateComplianceKey programId x y pool authority =
     (if length x \<noteq> 32 \<or> length y \<noteq> 32 then Inl (Error ''TxBuilder.rotateComplianceKey: x/y must be 32 bytes'')
      else Inr (mkIx programId (wBytes y (wBytes x (wU8 (tagByte TRotateComplianceKey) []))) [am authority True False, am pool False True]))"

definition buildSetPaused :: "pubkey \<Rightarrow> bool \<Rightarrow> pubkey \<Rightarrow> pubkey \<Rightarrow> txInstruction" where
  "buildSetPaused programId paused pool authority =
     mkIx programId (wBool paused (wU8 (tagByte TSetPaused) [])) [am authority True False, am pool False True]"

record depositAccounts =
  daPool :: pubkey
  daAsset :: pubkey
  daMint :: pubkey
  daVault :: pubkey
  daDepositorToken :: pubkey
  daDepositor :: pubkey
  daVerifier :: pubkey
  daTokenProgram :: "pubkey option"
  daAtaProgram :: "pubkey option"

definition buildDeposit :: "solanaLib \<Rightarrow> pubkey \<Rightarrow> proofBundle \<Rightarrow> int \<Rightarrow> depositAccounts \<Rightarrow> txInstruction list result" where
  "buildDeposit S programId bundle amount a =
     (if pbCircuitId bundle \<noteq> CDeposit then Inl (Error ''TxBuilder.deposit: bundle.circuitId must be CircuitId.Deposit'')
      else bindR (writeProofAndWireInputs (wU8 (tagByte TDeposit) []) bundle) (\<lambda>w1.
        bindR (wU64 amount w1) (\<lambda>w.
        Inr [computeBudgetIx S, mkIx programId w
          [am (daDepositor a) True True, am (daPool a) False True, am (daAsset a) False True, am (daMint a) False False, am (daVault a) False True,
           am (daDepositorToken a) False True, am (case daTokenProgram a of None \<Rightarrow> slTokenProgram S | Some k \<Rightarrow> k) False False,
           am (case daAtaProgram a of None \<Rightarrow> slAtaProgram S | Some k \<Rightarrow> k) False False, am SYSTEM_PROGRAM False False, am (daVerifier a) False False]])))"

record spendAccounts =
  saPool :: pubkey
  saNullifier :: pubkey
  saPayer :: pubkey
  saVerifier :: pubkey

definition spendLike :: "solanaLib \<Rightarrow> pubkey \<Rightarrow> ixTag \<Rightarrow> circuitId \<Rightarrow> proofBundle \<Rightarrow> spendAccounts \<Rightarrow> poolAccount \<Rightarrow> txInstruction list result" where
  "spendLike S programId tag circuit bundle a pool =
     (if pbCircuitId bundle \<noteq> circuit then Inl (Error ''TxBuilder: bundle.circuitId mismatch for ix tag'')
      else bindR (resolveRootIndex bundle pool) (\<lambda>rootIndex.
        bindR (writeProofAndWireInputs (wU8 (tagByte tag) []) bundle) (\<lambda>w1.
        Inr [computeBudgetIx S, mkIx programId (wU8 rootIndex w1)
          [am (saPayer a) True True, am (saPool a) False True, am (saNullifier a) False True, am SYSTEM_PROGRAM False False, am (saVerifier a) False False]])))"

definition buildTransfer :: "solanaLib \<Rightarrow> pubkey \<Rightarrow> proofBundle \<Rightarrow> spendAccounts \<Rightarrow> poolAccount \<Rightarrow> txInstruction list result" where
  "buildTransfer S programId bundle a pool = spendLike S programId TTransfer CTransfer bundle a pool"

definition buildTransferMultisig :: "solanaLib \<Rightarrow> pubkey \<Rightarrow> proofBundle \<Rightarrow> spendAccounts \<Rightarrow> poolAccount \<Rightarrow> txInstruction list result" where
  "buildTransferMultisig S programId bundle a pool = spendLike S programId TTransferMultisig CTransferMultisig bundle a pool"

definition buildSplitMultisig :: "solanaLib \<Rightarrow> pubkey \<Rightarrow> proofBundle \<Rightarrow> spendAccounts \<Rightarrow> poolAccount \<Rightarrow> txInstruction list result" where
  "buildSplitMultisig S programId bundle a pool = spendLike S programId TSplitMultisig CSplitMultisig bundle a pool"

record joinAccounts =
  jaPool :: pubkey
  jaNullifierA :: pubkey
  jaNullifierB :: pubkey
  jaPayer :: pubkey
  jaVerifier :: pubkey

definition buildJoinMultisig :: "solanaLib \<Rightarrow> pubkey \<Rightarrow> proofBundle \<Rightarrow> joinAccounts \<Rightarrow> poolAccount \<Rightarrow> txInstruction list result" where
  "buildJoinMultisig S programId bundle a pool =
     (if pbCircuitId bundle \<noteq> CJoinMultisig then Inl (Error ''TxBuilder.joinMultisig: bundle.circuitId must be CircuitId.JoinMultisig'')
      else bindR (resolveRootIndex bundle pool) (\<lambda>rootIndex.
        bindR (writeProofAndWireInputs (wU8 (tagByte TJoinMultisig) []) bundle) (\<lambda>w1.
        Inr [computeBudgetIx S, mkIx programId (wU8 rootIndex w1)
          [am (jaPayer a) True True, am (jaPool a) False True, am (jaNullifierA a) False True, am (jaNullifierB a) False True,
           am SYSTEM_PROGRAM False False, am (jaVerifier a) False False]])))"

record withdrawAccounts =
  waPool :: pubkey
  waAsset :: pubkey
  waMint :: pubkey
  waNullifier :: pubkey
  waVault :: pubkey
  waDestination :: pubkey
  waPayer :: pubkey
  waVerifier :: pubkey
  waTokenProgram :: "pubkey option"

definition withdrawLike :: "solanaLib \<Rightarrow> pubkey \<Rightarrow> ixTag \<Rightarrow> circuitId \<Rightarrow> proofBundle \<Rightarrow> int \<Rightarrow> withdrawAccounts \<Rightarrow> poolAccount \<Rightarrow> txInstruction list result" where
  "withdrawLike S programId tag circuit bundle amount a pool =
     (if pbCircuitId bundle \<noteq> circuit then Inl (Error ''TxBuilder: bundle.circuitId mismatch for ix tag'')
      else bindR (resolveRootIndex bundle pool) (\<lambda>rootIndex.
        bindR (writeProofAndWireInputs (wU8 (tagByte tag) []) bundle) (\<lambda>w1.
        bindR (wU64 amount w1) (\<lambda>w2.
        Inr [computeBudgetIx S, mkIx programId (wU8 rootIndex w2)
          [am (waPayer a) True True, am (waPool a) False True, am (waNullifier a) False True, am (waAsset a) False False, am (waMint a) False False,
           am (waVault a) False True, am (waDestination a) False True, am (case waTokenProgram a of None \<Rightarrow> slTokenProgram S | Some k \<Rightarrow> k) False False,
           am SYSTEM_PROGRAM False False, am (waVerifier a) False False]]))))"

definition buildWithdraw :: "solanaLib \<Rightarrow> pubkey \<Rightarrow> proofBundle \<Rightarrow> int \<Rightarrow> withdrawAccounts \<Rightarrow> poolAccount \<Rightarrow> txInstruction list result" where
  "buildWithdraw S programId bundle amount a pool = withdrawLike S programId TWithdraw CWithdraw bundle amount a pool"

definition buildWithdrawMultisig :: "solanaLib \<Rightarrow> pubkey \<Rightarrow> proofBundle \<Rightarrow> int \<Rightarrow> withdrawAccounts \<Rightarrow> poolAccount \<Rightarrow> txInstruction list result" where
  "buildWithdrawMultisig S programId bundle amount a pool = withdrawLike S programId TWithdrawMultisig CWithdrawMultisig bundle amount a pool"

section \<open>The program's decoder\<close>

text \<open>The decoder derived for \<open>PoolInstruction\<close>: a tag byte in declaration order, then the fields; fixed arrays have no prefix, a
  vector has a little-endian \<open>u32\<close> count, a boolean is 0 or 1, and no byte may be left over.\<close>

definition takeN :: "nat \<Rightarrow> byte list \<Rightarrow> (byte list \<times> byte list) option" where
  "takeN n bs = (if length bs < n then None else Some (take n bs, drop n bs))"

fun read32s :: "nat \<Rightarrow> byte list \<Rightarrow> (byte list list \<times> byte list) option" where
  "read32s 0 bs = Some ([], bs)"
| "read32s (Suc n) bs = Option.bind (takeN 32 bs) (\<lambda>(v, bs'). Option.bind (read32s n bs') (\<lambda>(vs, r). Some (v # vs, r)))"

definition readVec32 :: "byte list \<Rightarrow> (byte list list \<times> byte list) option" where
  "readVec32 bs = Option.bind (takeN 4 bs) (\<lambda>(n, r). read32s (nat (bytesLE n)) r)"

text \<open>\<open>proof\<close> and \<open>public_inputs\<close>, the opening fields of every proof-carrying variant.\<close>

definition readProof :: "byte list \<Rightarrow> (byte list \<times> byte list list \<times> byte list) option" where
  "readProof bs = Option.bind (takeN 192 bs) (\<lambda>(p, r). Option.bind (readVec32 r) (\<lambda>(ins, r'). Some (p, ins, r')))"

definition readAmount :: "byte list \<Rightarrow> (int \<times> byte list) option" where
  "readAmount bs = Option.bind (takeN 8 bs) (\<lambda>(a, r). Some (bytesLE a, r))"

definition spendIx :: "(byte list \<Rightarrow> byte list list \<Rightarrow> byte \<Rightarrow> pool_instruction) \<Rightarrow> byte list \<Rightarrow> pool_instruction option" where
  "spendIx C bs = Option.bind (readProof bs) (\<lambda>(p, ins, r). case r of [i] \<Rightarrow> Some (C p ins i) | _ \<Rightarrow> None)"

definition withdrawIx :: "(byte list \<Rightarrow> byte list list \<Rightarrow> int \<Rightarrow> byte \<Rightarrow> pool_instruction) \<Rightarrow> byte list \<Rightarrow> pool_instruction option" where
  "withdrawIx C bs = Option.bind (readProof bs) (\<lambda>(p, ins, r).
     Option.bind (readAmount r) (\<lambda>(a, r'). case r' of [i] \<Rightarrow> Some (C p ins a i) | _ \<Rightarrow> None))"

definition try_from_slice :: "byte list \<Rightarrow> pool_instruction option" where
  "try_from_slice data =
     (case data of [] \<Rightarrow> None
      | t # bs \<Rightarrow>
        if t = 0 then (if length bs \<noteq> 320 then None
          else Option.bind (read32s 7 (take 224 (drop 64 bs))) (\<lambda>(vs, _). Some (Initialize (take 32 bs) (take 32 (drop 32 bs)) vs (drop 288 bs))))
        else if t = 1 then (if length bs \<noteq> 33 then None else Some (SetVerifier (hd bs) (tl bs)))
        else if t = 2 then (if length bs \<noteq> 64 then None else Some (RotateComplianceKey (take 32 bs) (drop 32 bs)))
        else if t = 3 then (if bs = [0] then Some (SetPaused False) else if bs = [1] then Some (SetPaused True) else None)
        else if t = 4 then Option.bind (readProof bs) (\<lambda>(p, ins, r).
          Option.bind (readAmount r) (\<lambda>(a, r'). if r' = [] then Some (Deposit p ins a) else None))
        else if t = 5 then spendIx Transfer bs
        else if t = 6 then spendIx TransferMultisig bs
        else if t = 7 then spendIx SplitMultisig bs
        else if t = 8 then spendIx JoinMultisig bs
        else if t = 9 then withdrawIx Withdraw bs
        else if t = 10 then withdrawIx WithdrawMultisig bs
        else if t = 11 then (case bs of c # r \<Rightarrow> Option.bind (readProof r) (\<lambda>(p, ins, r'). if r' = [] then Some (VerifyOnly c p ins) else None) | [] \<Rightarrow> None)
        else None)"

section \<open>Client and program derive the same addresses\<close>

lemma client_addresses_agree:
  assumes "slFind S = rtFindPda rt" "slSha256 S = rtSha256 rt" "slLoader S = rtLoader rt" "programId = rtProgram rt" "\<And>bs. length (rtSha256 rt bs) = 32"
  shows "poolPda S programId = pool_pda rt" "assetId S mint = asset_id_bytes rt mint" "recipientField S destination = recipient_field rt destination"
    "assetPda S programId (assetId S mint) = Inr (asset_pda rt (asset_id_bytes rt mint))"
    "length n = 32 \<Longrightarrow> nullifierPda S programId n = Inr (nullifier_pda rt n)"
    "fst (programDataAddress S programId) = fst (rtFindPda rt [rtProgram rt] (rtLoader rt))"
  using assms by (simp_all add: poolPda_def pool_pda_def assetId_def asset_id_bytes_def recipientField_def recipient_field_def assetPda_def asset_pda_def
      nullifierPda_def nullifier_pda_def programDataAddress_def)

section \<open>Reading back what was written\<close>

lemma takeN_append: "n = length a \<Longrightarrow> takeN n (a @ b) = Some (a, b)"
  by (simp add: takeN_def)

lemma read32s_concat: "list_all (\<lambda>v. length v = 32) vs \<Longrightarrow> read32s (length vs) (concat vs @ r) = Some (vs, r)"
  by (induction vs) (simp_all add: takeN_append)

lemma readVec32_write:
  assumes "list_all (\<lambda>v. length v = 32) vs" "length vs < 2 ^ 32"
  shows "readVec32 (toBytesLE 4 (int (length vs)) @ concat vs @ r) = Some (vs, r)"
proof -
  have "bytesLE (toBytesLE 4 (int (length vs))) = int (length vs)" using assms(2) by (simp add: bytesLE_toBytesLE)
  then show ?thesis using takeN_append [of 4 "toBytesLE 4 (int (length vs))" "concat vs @ r"] read32s_concat [OF assms(1)] by (simp add: readVec32_def)
qed

lemma readAmount_write: "0 \<le> a \<Longrightarrow> a < 2 ^ 64 \<Longrightarrow> readAmount (toBytesLE 8 a @ r) = Some (a, r)"
  using takeN_append [of 8 "toBytesLE 8 a" r] by (simp add: readAmount_def bytesLE_toBytesLE)

lemma vecFixed32_Inr:
  assumes "wVecFixed32 vs w = Inr w'"
  shows "concat w' = concat w @ toBytesLE 4 (int (length vs)) @ concat vs \<and> length vs < 2 ^ 32 \<and> list_all (\<lambda>v. length v = 32) vs"
proof -
  have loop: "concat w2 = concat w1 @ concat vs \<and> list_all (\<lambda>v. length v = 32) vs"
    if "foldR (\<lambda>acc v. if length v \<noteq> 32 then Inl (Error ''BorshWriter.vecFixed32: expected 32-byte elements'') else Inr (wBytes v acc)) w1 vs = Inr w2" for w1 w2
    using that by (induction vs arbitrary: w1) (auto simp: wBytes_def split: if_splits)
  show ?thesis using assms loop by (auto simp: wVecFixed32_def wU32_def split: if_splits)
qed

lemma writeProof_Inr:
  assumes "writeProofAndWireInputs w bundle = Inr w'"
  shows "length (pbProof bundle) = 192" "length (pbPublicInputs bundle) = PUBLIC_INPUT_COUNT (pbCircuitId bundle)"
    "list_all (\<lambda>v. length v = 32) (pbPublicInputs bundle)"
    "\<exists>body. concat w' = concat w @ body \<and> (\<forall>r. readProof (body @ r) = Some (pbProof bundle, wirePublicInputs bundle, r))"
proof -
  have a: "assertPublicInputs bundle = Inr (pbPublicInputs bundle)" "assertCompressedProof bundle = Inr (pbProof bundle)"
    "wVecFixed32 (wirePublicInputs bundle) (wBytes (pbProof bundle) w) = Inr w'"
    using assms by (auto simp: writeProofAndWireInputs_def assertPublicInputs_def assertCompressedProof_def split: if_splits)
  show "length (pbProof bundle) = 192" using a(2) by (simp add: assertCompressedProof_def split: if_splits)
  then have l: "192 = length (pbProof bundle)" by simp
  show "length (pbPublicInputs bundle) = PUBLIC_INPUT_COUNT (pbCircuitId bundle)" "list_all (\<lambda>v. length v = 32) (pbPublicInputs bundle)"
    using a(1) by (auto simp: assertPublicInputs_def list_ex_iff list_all_iff split: if_splits)
  note v = vecFixed32_Inr [OF a(3)]
  have c: "concat w' = concat w @ pbProof bundle @ toBytesLE 4 (int (length (wirePublicInputs bundle))) @ concat (wirePublicInputs bundle)"
    using v by (simp add: wBytes_def)
  have "readProof ((pbProof bundle @ toBytesLE 4 (int (length (wirePublicInputs bundle))) @ concat (wirePublicInputs bundle)) @ r)
      = Some (pbProof bundle, wirePublicInputs bundle, r)" for r
    using readVec32_write [of "wirePublicInputs bundle" r] v takeN_append [OF l] by (simp add: readProof_def)
  then show "\<exists>body. concat w' = concat w @ body \<and> (\<forall>r. readProof (body @ r) = Some (pbProof bundle, wirePublicInputs bundle, r))"
    using c by blast
qed

lemma resolveRootIndex_Inr:
  assumes "resolveRootIndex bundle pool = Inr i" "decodePool data = Inr pool"
  shows "\<exists>at. layoutRoot (pbCircuitId bundle) = Some at \<and> at < length (pbPublicInputs bundle) \<and> i < 256 \<and> root_at data i = pbPublicInputs bundle ! at"
proof -
  obtain at where a: "layoutRoot (pbCircuitId bundle) = Some at" "at < length (pbPublicInputs bundle)" "rootIndexFor pool (pbPublicInputs bundle ! at) = Inr (Some i)"
    using assms(1) by (auto simp: resolveRootIndex_def split: option.splits if_splits)
  have "length (pbPublicInputs bundle ! at) = 32" using a(3) by (auto simp: rootIndexFor_def split: if_splits)
  then show ?thesis using root_index_resolves [OF assms(2)] a by fastforce
qed

text \<open>What each builder returns, read by the program.\<close>

lemma spendLike_decodes:
  assumes b: "spendLike S programId tag circuit bundle a pool = Inr txs" and d: "decodePool data = Inr pool"
  shows "\<exists>ix i bs. txs = [computeBudgetIx S, ix] \<and> resolveRootIndex bundle pool = Inr i \<and> tiData ix = (tagByte tag mod 256) # bs
    \<and> (\<forall>C. spendIx C bs = Some (C (pbProof bundle) (wirePublicInputs bundle) i))
    \<and> map amPubkey (tiKeys ix) = [saPayer a, saPool a, saNullifier a, SYSTEM_PROGRAM, saVerifier a] \<and> map amSigner (tiKeys ix) = [True, False, False, False, False]"
proof -
  obtain i w1 where r: "resolveRootIndex bundle pool = Inr i" "writeProofAndWireInputs (wU8 (tagByte tag) []) bundle = Inr w1"
    "txs = [computeBudgetIx S, mkIx programId (wU8 i w1)
      [am (saPayer a) True True, am (saPool a) False True, am (saNullifier a) False True, am SYSTEM_PROGRAM False False, am (saVerifier a) False False]]"
    using b by (auto simp: spendLike_def split: if_splits)
  have i: "i mod 256 = i" using resolveRootIndex_Inr [OF r(1) d] by auto
  obtain body where w: "concat w1 = [tagByte tag mod 256] @ body" "\<forall>r. readProof (body @ r) = Some (pbProof bundle, wirePublicInputs bundle, r)"
    using writeProof_Inr(4) [OF r(2)] by (auto simp: wU8_def)
  have "concat (wU8 i w1) = (tagByte tag mod 256) # (body @ [i])" using w(1) i by (simp add: wU8_def)
  moreover have "spendIx C (body @ [i]) = Some (C (pbProof bundle) (wirePublicInputs bundle) i)" for C
    using w(2) by (simp add: spendIx_def)
  ultimately show ?thesis using r(1,3) by (auto simp: mkIx_def wBuffer_def)
qed

lemma withdrawLike_decodes:
  assumes b: "withdrawLike S programId tag circuit bundle amount a pool = Inr txs" and d: "decodePool data = Inr pool"
  shows "\<exists>ix i bs. txs = [computeBudgetIx S, ix] \<and> resolveRootIndex bundle pool = Inr i \<and> tiData ix = (tagByte tag mod 256) # bs
    \<and> (\<forall>C. withdrawIx C bs = Some (C (pbProof bundle) (wirePublicInputs bundle) amount i))
    \<and> map amPubkey (tiKeys ix) = [waPayer a, waPool a, waNullifier a, waAsset a, waMint a, waVault a, waDestination a,
        (case waTokenProgram a of None \<Rightarrow> slTokenProgram S | Some k \<Rightarrow> k), SYSTEM_PROGRAM, waVerifier a] \<and> hd (map amSigner (tiKeys ix))"
proof -
  obtain i w1 w2 where r: "resolveRootIndex bundle pool = Inr i" "writeProofAndWireInputs (wU8 (tagByte tag) []) bundle = Inr w1" "wU64 amount w1 = Inr w2"
    "txs = [computeBudgetIx S, mkIx programId (wU8 i w2)
      [am (waPayer a) True True, am (waPool a) False True, am (waNullifier a) False True, am (waAsset a) False False, am (waMint a) False False,
       am (waVault a) False True, am (waDestination a) False True, am (case waTokenProgram a of None \<Rightarrow> slTokenProgram S | Some k \<Rightarrow> k) False False,
       am SYSTEM_PROGRAM False False, am (waVerifier a) False False]]"
    using b by (auto simp: withdrawLike_def split: if_splits)
  have i: "i mod 256 = i" using resolveRootIndex_Inr [OF r(1) d] by auto
  have amt: "0 \<le> amount" "amount < 2 ^ 64" "w2 = w1 @ [toBytesLE 8 amount]" using r(3) by (auto simp: wU64_def split: if_splits)
  obtain body where w: "concat w1 = [tagByte tag mod 256] @ body" "\<forall>r. readProof (body @ r) = Some (pbProof bundle, wirePublicInputs bundle, r)"
    using writeProof_Inr(4) [OF r(2)] by (auto simp: wU8_def)
  have "concat (wU8 i w2) = (tagByte tag mod 256) # (body @ toBytesLE 8 amount @ [i])" using w(1) i amt(3) by (simp add: wU8_def)
  moreover have "withdrawIx C (body @ toBytesLE 8 amount @ [i]) = Some (C (pbProof bundle) (wirePublicInputs bundle) amount i)" for C
    using w(2) readAmount_write [OF amt(1,2)] by (simp add: withdrawIx_def)
  ultimately show ?thesis using r(1,4) by (auto simp: mkIx_def wBuffer_def)
qed

lemma joinMultisig_decodes:
  assumes b: "buildJoinMultisig S programId bundle a pool = Inr txs" and d: "decodePool data = Inr pool"
  shows "\<exists>ix i. txs = [computeBudgetIx S, ix] \<and> resolveRootIndex bundle pool = Inr i
    \<and> try_from_slice (tiData ix) = Some (JoinMultisig (pbProof bundle) (wirePublicInputs bundle) i)
    \<and> map amPubkey (tiKeys ix) = [jaPayer a, jaPool a, jaNullifierA a, jaNullifierB a, SYSTEM_PROGRAM, jaVerifier a] \<and> hd (map amSigner (tiKeys ix))"
proof -
  obtain i w1 where r: "resolveRootIndex bundle pool = Inr i" "writeProofAndWireInputs (wU8 (tagByte TJoinMultisig) []) bundle = Inr w1"
    "txs = [computeBudgetIx S, mkIx programId (wU8 i w1)
      [am (jaPayer a) True True, am (jaPool a) False True, am (jaNullifierA a) False True, am (jaNullifierB a) False True,
       am SYSTEM_PROGRAM False False, am (jaVerifier a) False False]]"
    using b by (auto simp: buildJoinMultisig_def split: if_splits)
  have i: "i mod 256 = i" using resolveRootIndex_Inr [OF r(1) d] by auto
  obtain body where w: "concat w1 = [8] @ body" "\<forall>r. readProof (body @ r) = Some (pbProof bundle, wirePublicInputs bundle, r)"
    using writeProof_Inr(4) [OF r(2)] by (auto simp: wU8_def)
  have "concat (wU8 i w1) = 8 # (body @ [i])" using w(1) i by (simp add: wU8_def)
  moreover have "spendIx C (body @ [i]) = Some (C (pbProof bundle) (wirePublicInputs bundle) i)" for C
    using w(2) by (simp add: spendIx_def)
  ultimately show ?thesis using r(1,3) by (auto simp: mkIx_def wBuffer_def try_from_slice_def)
qed

lemma deposit_decodes:
  assumes b: "buildDeposit S programId bundle amount a = Inr txs"
  shows "\<exists>ix. txs = [computeBudgetIx S, ix] \<and> try_from_slice (tiData ix) = Some (Deposit (pbProof bundle) (wirePublicInputs bundle) amount)
    \<and> map amPubkey (tiKeys ix) = [daDepositor a, daPool a, daAsset a, daMint a, daVault a, daDepositorToken a,
        (case daTokenProgram a of None \<Rightarrow> slTokenProgram S | Some k \<Rightarrow> k), (case daAtaProgram a of None \<Rightarrow> slAtaProgram S | Some k \<Rightarrow> k), SYSTEM_PROGRAM, daVerifier a]
    \<and> hd (map amSigner (tiKeys ix))"
proof -
  obtain w1 w2 ks where r: "writeProofAndWireInputs (wU8 (tagByte TDeposit) []) bundle = Inr w1" "wU64 amount w1 = Inr w2"
    "txs = [computeBudgetIx S, mkIx programId w2 ks]" "map amPubkey ks = [daDepositor a, daPool a, daAsset a, daMint a, daVault a, daDepositorToken a,
        (case daTokenProgram a of None \<Rightarrow> slTokenProgram S | Some k \<Rightarrow> k), (case daAtaProgram a of None \<Rightarrow> slAtaProgram S | Some k \<Rightarrow> k), SYSTEM_PROGRAM, daVerifier a]"
    "hd (map amSigner ks)"
    using b by (auto simp: buildDeposit_def split: if_splits)
  have amt: "0 \<le> amount" "amount < 2 ^ 64" "w2 = w1 @ [toBytesLE 8 amount]" using r(2) by (auto simp: wU64_def split: if_splits)
  obtain body where w: "concat w1 = [4] @ body" "\<forall>r. readProof (body @ r) = Some (pbProof bundle, wirePublicInputs bundle, r)"
    using writeProof_Inr(4) [OF r(1)] by (auto simp: wU8_def)
  have "concat w2 = 4 # (body @ toBytesLE 8 amount)" using w(1) amt(3) by simp
  moreover have "readProof (body @ toBytesLE 8 amount) = Some (pbProof bundle, wirePublicInputs bundle, toBytesLE 8 amount)" using w(2) by blast
  ultimately show ?thesis using r(3-5) readAmount_write [OF amt(1,2), of "[]"] by (auto simp: mkIx_def wBuffer_def try_from_slice_def)
qed

lemma admin_decodes:
  shows "length x = 32 \<Longrightarrow> length y = 32 \<Longrightarrow> length vs = 7 \<Longrightarrow> length g = 32 \<Longrightarrow> list_all (\<lambda>v. length v = 32) vs \<Longrightarrow>
      try_from_slice (wBuffer (wBytes g (fold wPubkey vs (wBytes y (wBytes x (wU8 0 [])))))) = Some (Initialize x y vs g)"
    "length k = 32 \<Longrightarrow> try_from_slice (wBuffer (wPubkey k (wU8 (circuitNumber c) (wU8 1 [])))) = Some (SetVerifier (circuitNumber c) k)"
    "length x = 32 \<Longrightarrow> length y = 32 \<Longrightarrow> try_from_slice (wBuffer (wBytes y (wBytes x (wU8 2 [])))) = Some (RotateComplianceKey x y)"
    "try_from_slice (wBuffer (wBool b (wU8 3 []))) = Some (SetPaused b)"
proof -
  have pks: "fold wPubkey vs w = w @ vs" for w by (induction vs arbitrary: w) (simp_all add: wPubkey_def wBytes_def)
  show "try_from_slice (wBuffer (wBytes g (fold wPubkey vs (wBytes y (wBytes x (wU8 0 [])))))) = Some (Initialize x y vs g)"
    if l: "length x = 32" "length y = 32" "length vs = 7" "length g = 32" "list_all (\<lambda>v. length v = 32) vs"
  proof -
    have c: "length (concat vs) = 224" using l(3,5) by (simp add: length_concat list_all_iff sum_list_triv cong: map_cong)
    have "read32s 7 (concat vs @ []) = Some (vs, [])" using read32s_concat [OF l(5), of "[]"] l(3) by simp
    then show ?thesis using l c by (simp add: try_from_slice_def wBuffer_def wBytes_def wU8_def pks)
  qed
  have "circuitNumber c < 256" by (cases c) simp_all
  then show "length k = 32 \<Longrightarrow> try_from_slice (wBuffer (wPubkey k (wU8 (circuitNumber c) (wU8 1 [])))) = Some (SetVerifier (circuitNumber c) k)"
    by (simp add: try_from_slice_def wBuffer_def wPubkey_def wBytes_def wU8_def)
  show "length x = 32 \<Longrightarrow> length y = 32 \<Longrightarrow> try_from_slice (wBuffer (wBytes y (wBytes x (wU8 2 [])))) = Some (RotateComplianceKey x y)"
    by (simp add: try_from_slice_def wBuffer_def wBytes_def wU8_def)
  show "try_from_slice (wBuffer (wBool b (wU8 3 []))) = Some (SetPaused b)"
    by (simp add: try_from_slice_def wBuffer_def wBool_def wU8_def)
qed

section \<open>What the program puts back\<close>

text \<open>The public inputs the program hands to the verifier, by circuit.\<close>

fun injectInputs :: "circuitId \<Rightarrow> byte list list \<Rightarrow> byte \<Rightarrow> byte list \<Rightarrow> byte list list program_result" where
  "injectInputs CDeposit ins ri data = depositInputs ins data"
| "injectInputs CJoinMultisig ins ri data = joinInputs ins ri data"
| "injectInputs CWithdraw ins ri data = withdrawInputs ins ri data"
| "injectInputs CWithdrawMultisig ins ri data = withdrawInputs ins ri data"
| "injectInputs c ins ri data = spendInputs ins ri data"

text \<open>Where the compliance key stands among the public inputs of a circuit.\<close>

fun cpkAt :: "circuitId \<Rightarrow> nat" where
  "cpkAt CWithdraw = 3"
| "cpkAt CWithdrawMultisig = 3"
| "cpkAt _ = 0"

lemma filter_enumerate_ge:
  assumes "\<forall>i\<in>set strip. i < n"
  shows "map snd (filter (\<lambda>(i, _). i \<notin> set strip) (enumerate n xs)) = xs"
  using assms
proof (induction xs arbitrary: n)
  case (Cons x xs)
  have "n \<notin> set strip" "\<forall>i\<in>set strip. i < Suc n" using Cons.prems by auto
  then show ?case using Cons.IH by simp
qed simp

lemma wire_prefix:
  assumes "pbPublicInputs bundle = pre @ rest" "\<forall>i\<in>set (layoutStrip (pbCircuitId bundle)). i < length pre"
  shows "wirePublicInputs bundle = map snd (filter (\<lambda>(i, _). i \<notin> set (layoutStrip (pbCircuitId bundle))) (enumerate 0 pre)) @ rest"
  using assms filter_enumerate_ge [OF assms(2), of rest] by (simp add: wirePublicInputs_def enumerate_append_eq)

lemma split_at: "n \<le> length xs \<Longrightarrow> \<exists>pre rest. xs = pre @ rest \<and> length pre = n"
  by (metis append_take_drop_id length_take min.absorb2)

lemma inputs_restored:
  assumes n: "length (pbPublicInputs bundle) = PUBLIC_INPUT_COUNT (pbCircuitId bundle)"
    and cpk: "pbPublicInputs bundle ! cpkAt (pbCircuitId bundle) = compliance_pk_x data"
      "pbPublicInputs bundle ! Suc (cpkAt (pbCircuitId bundle)) = compliance_pk_y data"
    and root: "\<forall>at. layoutRoot (pbCircuitId bundle) = Some at \<longrightarrow> root_at data i = pbPublicInputs bundle ! at \<and> pbPublicInputs bundle ! at \<noteq> ZERO32"
  shows "injectInputs (pbCircuitId bundle) (wirePublicInputs bundle) i data = Inr (pbPublicInputs bundle)"
proof -
  have "7 \<le> length (pbPublicInputs bundle)" using n by (cases "pbCircuitId bundle") simp_all
  then obtain pre rest where p: "pbPublicInputs bundle = pre @ rest" "length pre = 7" using split_at by blast
  then obtain a0 a1 a2 a3 a4 a5 a6 where pre: "pre = [a0, a1, a2, a3, a4, a5, a6]" by (auto simp: eval_nat_numeral length_Suc_conv)
  have strip: "\<forall>k\<in>set (layoutStrip (pbCircuitId bundle)). k < length pre" using p(2) by (cases "pbCircuitId bundle") simp_all
  note w = wire_prefix [OF p(1) strip, unfolded pre]
  show ?thesis using w cpk root p(1)
    by (cases "pbCircuitId bundle") (simp_all add: pre depositInputs_def spendInputs_def joinInputs_def withdrawInputs_def resolve_root_def Let_def)
qed

section \<open>What a successful call proves\<close>

text \<open>The proof-carrying instructions: their circuit, proof, wire inputs and root index.\<close>

fun proofParts :: "pool_instruction \<Rightarrow> (circuitId \<times> byte list \<times> byte list list \<times> byte) option" where
  "proofParts (Deposit p ins a) = Some (CDeposit, p, ins, 0)"
| "proofParts (Transfer p ins ri) = Some (CTransfer, p, ins, ri)"
| "proofParts (TransferMultisig p ins ri) = Some (CTransferMultisig, p, ins, ri)"
| "proofParts (SplitMultisig p ins ri) = Some (CSplitMultisig, p, ins, ri)"
| "proofParts (JoinMultisig p ins ri) = Some (CJoinMultisig, p, ins, ri)"
| "proofParts (Withdraw p ins a ri) = Some (CWithdraw, p, ins, ri)"
| "proofParts (WithdrawMultisig p ins a ri) = Some (CWithdrawMultisig, p, ins, ri)"
| "proofParts _ = None"

definition acceptedBy :: "runtime \<Rightarrow> pubkey \<Rightarrow> byte list \<Rightarrow> byte list list \<Rightarrow> bool" where
  "acceptedBy rt vk proof full \<longleftrightarrow> (\<exists>u w2 w3 n. n = toBytesBE 4 (int (length full)) \<and> decompress_proof rt proof = Inr u
     \<and> invoke rt (Invoke vk [] (u @ n @ toBytesBE 4 0 @ n @ concat full)) w2 = Inr w3)"

lemma verifyProof_accepted: "verifyProof rt ai vk proof full w = Inr w' \<Longrightarrow> acceptedBy rt vk proof full"
  by (auto simp: verifyProof_def verify_cpi_def acceptedBy_def Let_def split: if_splits)

lemma block_accepted:
  assumes b: "poolBlock rt pool cid full notes w = Inr (w1, vk, inputs, evs)" and v: "verifyProof rt ai vk proof inputs w2 = Inr w3"
  shows "full (acData (w pool)) = Inr inputs \<and> pool_verifier (acData (w pool)) cid = Inr vk \<and> acceptedBy rt vk proof inputs"
  using poolBlock_Inr [OF b] verifyProof_accepted [OF v] by blast

lemma second_key: "map aiKey accounts = a # b # cs \<Longrightarrow> aiKey (accounts ! 1) = b"
  by (auto simp: map_eq_Cons_conv)

lemma spendTwo_accepted:
  assumes "spendTwo rt accounts proof inputs ri cid n notes w = Inr (w', evs)"
  shows "\<exists>full vk. spendInputs inputs ri (acData (w (aiKey (accounts ! 1)))) = Inr full \<and> pool_verifier (acData (w (aiKey (accounts ! 1)))) cid = Inr vk
    \<and> acceptedBy rt vk proof full"
proof -
  obtain payer pool rest ver w1 vk full e1 w2 where c: "map aiKey accounts = payer # pool # rest"
    "poolBlock rt pool cid (spendInputs inputs ri) notes w = Inr (w1, vk, full, e1)" "verifyProof rt ver vk proof full w2 = Inr w'"
    using assms by (auto simp: spendTwo_def split: list.splits if_splits prod.splits)
  show ?thesis using block_accepted [OF c(2,3)] second_key [OF c(1)] by blast
qed

lemma process_accepted:
  assumes "process rt accounts ix w = Inr (w', evs)" "proofParts ix = Some (c, proof, ins, ri)"
  shows "\<exists>full vk. injectInputs c ins ri (acData (w (aiKey (accounts ! 1)))) = Inr full
    \<and> pool_verifier (acData (w (aiKey (accounts ! 1)))) (circuitNumber c) = Inr vk \<and> acceptedBy rt vk proof full"
proof -
  have dep: "\<exists>full vk. depositInputs inputs (acData (w (aiKey (accounts ! 1)))) = Inr full \<and> pool_verifier (acData (w (aiKey (accounts ! 1)))) 0 = Inr vk
      \<and> acceptedBy rt vk proof full" if d: "rs_deposit rt accounts proof inputs amount w = Inr (w', evs)" for inputs amount
  proof -
    obtain dep pool asset mint vault dt tp ata sys ver rest where keys: "map aiKey accounts = dep # pool # asset # mint # vault # dt # tp # ata # sys # ver # rest"
      using d by (auto simp: rs_deposit_def split: list.splits)
    obtain w1 vk full e1 w2 where
      c: "poolBlock rt pool 0 (depositInputs inputs) [(inputs ! 0, inputs ! 1, None, None, ct7 inputs 4)] w = Inr (w1, vk, full, e1)"
        "verifyProof rt ver vk proof full w1 = Inr w2"
      using d unfolding rs_deposit_def keys
      by (cases "asset_pda rt (asset_id_bytes rt mint)") (auto simp: Let_def split: if_splits)
    show ?thesis using block_accepted [OF c] second_key [OF keys] by blast
  qed
  have join: "\<exists>full vk. joinInputs inputs ri (acData (w (aiKey (accounts ! 1)))) = Inr full \<and> pool_verifier (acData (w (aiKey (accounts ! 1)))) 5 = Inr vk
      \<and> acceptedBy rt vk proof full" if d: "join_multisig rt accounts proof inputs ri w = Inr (w', evs)" for inputs
  proof -
    obtain payer pool rest ver w1 vk full e1 w2 nts where c: "map aiKey accounts = payer # pool # rest"
      "poolBlock rt pool 5 (joinInputs inputs ri) nts w = Inr (w1, vk, full, e1)" "verifyProof rt ver vk proof full w2 = Inr w'"
      using d by (auto simp: join_multisig_def split: list.splits if_splits)
    show ?thesis using block_accepted [OF c(2,3)] second_key [OF c(1)] by blast
  qed
  have wd: "\<exists>full vk. withdrawInputs inputs ri (acData (w (aiKey (accounts ! 1)))) = Inr full \<and> pool_verifier (acData (w (aiKey (accounts ! 1)))) cid = Inr vk
      \<and> acceptedBy rt vk proof full" if d: "withdraw_like rt accounts proof inputs amount ri cid w = Inr (w', evs)" for inputs amount cid
  proof -
    obtain payer pool rest ver w1 vk full e1 w2 w3 nts where c: "map aiKey accounts = payer # pool # rest"
      "poolBlock rt pool cid (withdrawInputs inputs ri) nts w = Inr (w1, vk, full, e1)" "verifyProof rt ver vk proof full w2 = Inr w3"
      using d by (auto simp: withdraw_like_def Let_def split: list.splits if_splits)
    show ?thesis using block_accepted [OF c(2,3)] second_key [OF c(1)] by blast
  qed
  show ?thesis using assms dep join wd spendTwo_accepted
    by (cases ix) (auto simp: transfer_like_def split_multisig_def)
qed

section \<open>Properties\<close>

text \<open>An instruction that some builder of a proof returned for a bundle against a view of the pool.\<close>

definition builtFor :: "solanaLib \<Rightarrow> pubkey \<Rightarrow> proofBundle \<Rightarrow> poolAccount \<Rightarrow> txInstruction \<Rightarrow> bool" where
  "builtFor S programId bundle pool ix \<longleftrightarrow>
     (\<exists>amount a. buildDeposit S programId bundle amount a = Inr [computeBudgetIx S, ix])
   \<or> (\<exists>a. buildTransfer S programId bundle a pool = Inr [computeBudgetIx S, ix])
   \<or> (\<exists>a. buildTransferMultisig S programId bundle a pool = Inr [computeBudgetIx S, ix])
   \<or> (\<exists>a. buildSplitMultisig S programId bundle a pool = Inr [computeBudgetIx S, ix])
   \<or> (\<exists>a. buildJoinMultisig S programId bundle a pool = Inr [computeBudgetIx S, ix])
   \<or> (\<exists>amount a. buildWithdraw S programId bundle amount a pool = Inr [computeBudgetIx S, ix])
   \<or> (\<exists>amount a. buildWithdrawMultisig S programId bundle amount a pool = Inr [computeBudgetIx S, ix])"

lemma built_checked:
  assumes "builtFor S programId bundle pool ix"
  shows "length (pbProof bundle) = 192" "length (pbPublicInputs bundle) = PUBLIC_INPUT_COUNT (pbCircuitId bundle)"
    "list_all (\<lambda>v. length v = 32) (pbPublicInputs bundle)"
proof -
  obtain w w' where "writeProofAndWireInputs w bundle = Inr w'"
    using assms by (auto simp: builtFor_def buildDeposit_def buildTransfer_def buildTransferMultisig_def buildSplitMultisig_def spendLike_def
        buildJoinMultisig_def buildWithdraw_def buildWithdrawMultisig_def withdrawLike_def split: if_splits)
  then show "length (pbProof bundle) = 192" "length (pbPublicInputs bundle) = PUBLIC_INPUT_COUNT (pbCircuitId bundle)"
    "list_all (\<lambda>v. length v = 32) (pbPublicInputs bundle)" using writeProof_Inr(1-3) by blast+
qed

lemma wire_words: "list_all P (pbPublicInputs bundle) \<Longrightarrow> list_all P (wirePublicInputs bundle)"
  by (auto simp: wirePublicInputs_def list_all_iff enumerate_eq_zip dest: set_zip_rightD)

lemma built_decodes:
  assumes b: "builtFor S programId bundle pool ix" and d: "decodePool data = Inr pool"
  shows "\<exists>instr i. try_from_slice (tiData ix) = Some instr \<and> proofParts instr = Some (pbCircuitId bundle, pbProof bundle, wirePublicInputs bundle, i)
    \<and> (layoutRoot (pbCircuitId bundle) \<noteq> None \<longrightarrow> resolveRootIndex bundle pool = Inr i) \<and> wfIx instr"
proof -
  note n = built_checked(1) [OF b] wire_words [OF built_checked(3) [OF b]]
  have sp: "\<exists>i bs. resolveRootIndex bundle pool = Inr i \<and> tiData ix = (tagByte tag mod 256) # bs \<and> pbCircuitId bundle = c
      \<and> (\<forall>C. spendIx C bs = Some (C (pbProof bundle) (wirePublicInputs bundle) i))"
    if "spendLike S programId tag c bundle a pool = Inr [computeBudgetIx S, ix]" for tag c a
    using spendLike_decodes [OF that d] that by (auto simp: spendLike_def split: if_splits)
  have wd: "\<exists>i bs. resolveRootIndex bundle pool = Inr i \<and> tiData ix = (tagByte tag mod 256) # bs \<and> pbCircuitId bundle = c
      \<and> (\<forall>C. withdrawIx C bs = Some (C (pbProof bundle) (wirePublicInputs bundle) amount i))"
    if "withdrawLike S programId tag c bundle amount a pool = Inr [computeBudgetIx S, ix]" for tag c amount a
    using withdrawLike_decodes [OF that d] that by (auto simp: withdrawLike_def split: if_splits)
  consider (dep) amount a where "buildDeposit S programId bundle amount a = Inr [computeBudgetIx S, ix]"
    | (tr) a where "buildTransfer S programId bundle a pool = Inr [computeBudgetIx S, ix]"
    | (trm) a where "buildTransferMultisig S programId bundle a pool = Inr [computeBudgetIx S, ix]"
    | (spl) a where "buildSplitMultisig S programId bundle a pool = Inr [computeBudgetIx S, ix]"
    | (jn) a where "buildJoinMultisig S programId bundle a pool = Inr [computeBudgetIx S, ix]"
    | (wdr) amount a where "buildWithdraw S programId bundle amount a pool = Inr [computeBudgetIx S, ix]"
    | (wdm) amount a where "buildWithdrawMultisig S programId bundle amount a pool = Inr [computeBudgetIx S, ix]"
    using b unfolding builtFor_def by blast
  then show ?thesis
  proof cases
    case dep
    then have "pbCircuitId bundle = CDeposit" by (simp add: buildDeposit_def split: if_splits)
    then show ?thesis using deposit_decodes [OF dep] n by auto
  next
    case tr
    then show ?thesis using sp [OF tr [unfolded buildTransfer_def]] n by (auto simp: try_from_slice_def)
  next
    case trm
    then show ?thesis using sp [OF trm [unfolded buildTransferMultisig_def]] n by (auto simp: try_from_slice_def)
  next
    case spl
    then show ?thesis using sp [OF spl [unfolded buildSplitMultisig_def]] n by (auto simp: try_from_slice_def)
  next
    case jn
    then have "pbCircuitId bundle = CJoinMultisig" by (simp add: buildJoinMultisig_def split: if_splits)
    then show ?thesis using joinMultisig_decodes [OF jn d] n by auto
  next
    case wdr
    then show ?thesis using wd [OF wdr [unfolded buildWithdraw_def]] n by (auto simp: try_from_slice_def)
  next
    case wdm
    then show ?thesis using wd [OF wdm [unfolded buildWithdrawMultisig_def]] n by (auto simp: try_from_slice_def)
  qed
qed

text \<open>C7: a built instruction proves the wallet's statement.  Every instruction a builder returns for a proof is decoded by
  the program, well formed, to the instruction of the proof's circuit; and when the program executes it on a pool that has
  the compliance key of the proof and still holds the proof's root in the slot the builder chose, then the verifier stored
  for this circuit has accepted exactly the proof and the full public inputs of the bundle, although neither the key nor
  the root is on the wire.\<close>

theorem built_instruction_proves_bundle:
  assumes b: "builtFor S programId bundle pool ix" and d: "decodePool data0 = Inr pool"
  shows "\<exists>instr i. try_from_slice (tiData ix) = Some instr \<and> wfIx instr
    \<and> (\<forall>rt accounts w w' evs data. data = acData (w (aiKey (accounts ! 1))) \<longrightarrow> process rt accounts instr w = Inr (w', evs) \<longrightarrow>
        pbPublicInputs bundle ! cpkAt (pbCircuitId bundle) = compliance_pk_x data \<longrightarrow>
        pbPublicInputs bundle ! Suc (cpkAt (pbCircuitId bundle)) = compliance_pk_y data \<longrightarrow> root_at data i = root_at data0 i \<longrightarrow>
        (\<exists>vk. pool_verifier data (circuitNumber (pbCircuitId bundle)) = Inr vk \<and> acceptedBy rt vk (pbProof bundle) (pbPublicInputs bundle)))"
proof -
  obtain instr i where x: "try_from_slice (tiData ix) = Some instr" "proofParts instr = Some (pbCircuitId bundle, pbProof bundle, wirePublicInputs bundle, i)"
    "layoutRoot (pbCircuitId bundle) \<noteq> None \<longrightarrow> resolveRootIndex bundle pool = Inr i" "wfIx instr"
    using built_decodes [OF b d] by blast
  have "\<exists>vk. pool_verifier data (circuitNumber (pbCircuitId bundle)) = Inr vk \<and> acceptedBy rt vk (pbProof bundle) (pbPublicInputs bundle)"
    if dt: "data = acData (w (aiKey (accounts ! 1)))" and p: "process rt accounts instr w = Inr (w', evs)"
      and k: "pbPublicInputs bundle ! cpkAt (pbCircuitId bundle) = compliance_pk_x data"
      "pbPublicInputs bundle ! Suc (cpkAt (pbCircuitId bundle)) = compliance_pk_y data" and r: "root_at data i = root_at data0 i" for rt accounts w w' evs data
  proof -
    obtain full vk where f: "injectInputs (pbCircuitId bundle) (wirePublicInputs bundle) i data = Inr full"
      "pool_verifier data (circuitNumber (pbCircuitId bundle)) = Inr vk" "acceptedBy rt vk (pbProof bundle) full"
      using process_accepted [OF p x(2)] unfolding dt [symmetric] by blast
    have root: "root_at data i = pbPublicInputs bundle ! at \<and> pbPublicInputs bundle ! at \<noteq> ZERO32"
      if "layoutRoot (pbCircuitId bundle) = Some at" for at
    proof -
      have "root_at data i = pbPublicInputs bundle ! at" using resolveRootIndex_Inr [OF _ d] x(3) that r by fastforce
      moreover have "root_at data i \<noteq> ZERO32" using f(1) that
        by (cases "pbCircuitId bundle") (auto simp: spendInputs_def joinInputs_def withdrawInputs_def resolve_root_def Let_def split: if_splits)
      ultimately show ?thesis by simp
    qed
    have "full = pbPublicInputs bundle" using inputs_restored [OF built_checked(2) [OF b] k] root f(1) by auto
    then show ?thesis using f(2,3) by blast
  qed
  then show ?thesis using x(1,4) by blast
qed

definition toySolana :: solanaLib where
  "toySolana = \<lparr>slFind = toyFindPda, slSha256 = (\<lambda>bs. replicate 32 5), slTokenProgram = replicate 32 6, slAtaProgram = replicate 32 8,
     slLoader = toyLoader, slComputeBudget = replicate 32 9, slUnitLimitData = (\<lambda>n. 2 # toBytesLE 4 n)\<rparr>"

definition toyBundle :: proofBundle where
  "toyBundle = \<lparr>pbCircuitId = CDeposit, pbProof = replicate 192 1, pbPublicInputs = replicate 13 (toBytesBE 32 7)\<rparr>"

definition toyDepositAccounts :: depositAccounts where
  "toyDepositAccounts = \<lparr>daPool = toyPool, daAsset = toyAsset, daMint = toyTokenMint, daVault = toyVault, daDepositorToken = toyDest,
     daDepositor = toyAuthority, daVerifier = toyVerifier, daTokenProgram = None, daAtaProgram = None\<rparr>"

theorem built_instruction_proves_bundle_witness:
  "\<exists>ix instr. buildDeposit toySolana toyProgram toyBundle 100 toyDepositAccounts = Inr [computeBudgetIx toySolana, ix]
    \<and> try_from_slice (tiData ix) = Some instr \<and> wfIx instr"
proof -
  have ok: "isOk (buildDeposit toySolana toyProgram toyBundle 100 toyDepositAccounts)" by code_simp
  then obtain txs where "buildDeposit toySolana toyProgram toyBundle 100 toyDepositAccounts = Inr txs"
    by (cases "buildDeposit toySolana toyProgram toyBundle 100 toyDepositAccounts") auto
  then obtain ix where ix: "buildDeposit toySolana toyProgram toyBundle 100 toyDepositAccounts = Inr [computeBudgetIx toySolana, ix]"
    using deposit_decodes by blast
  then have b: "builtFor toySolana toyProgram toyBundle (viewOf (replicate POOL_LEN 0)) ix" unfolding builtFor_def by blast
  have "decodePool (replicate POOL_LEN 0) = Inr (viewOf (replicate POOL_LEN 0))" by (simp add: decodePool_view)
  then show ?thesis using built_instruction_proves_bundle [OF b] ix by blast
qed

end
