(* ===== verification/RelayClient.thy ===== *)
theory RelayClient
  imports Coordinator "HOL-Library.AList" "HOL-Library.Sublist"
begin

text \<open>
  The command line's client of the relay, \<open>cli/src/coordinatorClient.ts\<close>: one request of each kind, the
  append that retries on a sequence conflict, and the collection of a session's envelopes.  The network
  is an argument: for the k-th request of a call it gives the rejection of \<open>fetch\<close> or the status and the
  parsed body.  The lemmas connect the client to the relay of \<open>Coordinator\<close>.
\<close>

section \<open>Requests\<close>

record clientNet =
  netAppend :: "nat \<Rightarrow> envelope \<Rightarrow> string + nat"
  netPoll :: "nat \<Rightarrow> int \<Rightarrow> string + (nat \<times> envelope list)"

definition statusOk :: "nat \<Rightarrow> bool" where
  "statusOk s \<longleftrightarrow> 200 \<le> s \<and> s \<le> 299"

definition clientAppend :: "clientNet \<Rightarrow> nat \<Rightarrow> envelope \<Rightarrow> unit result" where
  "clientAppend net k e =
     (case netAppend net k e of Inl err \<Rightarrow> Inl (LibraryError err)
      | Inr status \<Rightarrow>
        if status = 409 then Inl SequenceConflictError
        else if \<not> statusOk status then Inl (Error ''CoordinatorClient.append: HTTP'')
        else Inr ())"

definition pollOnce :: "clientNet \<Rightarrow> nat \<Rightarrow> int \<Rightarrow> envelope list result" where
  "pollOnce net k since =
     (case netPoll net k since of Inl err \<Rightarrow> Inl (LibraryError err)
      | Inr (status, envs) \<Rightarrow>
        if \<not> statusOk status then Inl (Error ''CoordinatorClient.pollOnce: HTTP'') else Inr envs)"

section \<open>Appending\<close>

type_synonym seqGuesses = "string \<rightharpoonup> int"

definition seqAfter :: "envelope list \<Rightarrow> int" where
  "seqAfter existing = (case map enSeq existing of [] \<Rightarrow> 0 | m # ms \<Rightarrow> fold max ms m + 1)"

text \<open>\<open>left\<close> counts the attempts that remain.\<close>

fun appendLoop :: "clientNet \<Rightarrow> string \<Rightarrow> envelopeKind \<Rightarrow> string \<Rightarrow> nat \<Rightarrow> nat \<Rightarrow> int \<Rightarrow> seqGuesses \<Rightarrow>
    envelope result \<times> seqGuesses" where
  "appendLoop net sid kind ciphertext attempt 0 seq guess = (Inl SequenceConflictError, guess)"
| "appendLoop net sid kind ciphertext attempt (Suc left) seq guess =
     (let e = \<lparr>enSession = sid, enSeq = seq, enKind = kind, enCiphertext = ciphertext\<rparr> in
      case clientAppend net attempt e of
        Inr _ \<Rightarrow> (Inr e, guess(sid \<mapsto> seq + 1))
      | Inl err \<Rightarrow>
        if err \<noteq> SequenceConflictError \<or> left = 0 then (Inl err, guess)
        else case pollOnce net attempt (- 1) of
          Inl err' \<Rightarrow> (Inl err', guess)
        | Inr existing \<Rightarrow>
          (let n = seqAfter existing in
           appendLoop net sid kind ciphertext (Suc attempt) left n (guess(sid \<mapsto> n))))"

definition appendNext :: "clientNet \<Rightarrow> seqGuesses \<Rightarrow> string \<Rightarrow> envelopeKind \<Rightarrow> string \<Rightarrow> nat option \<Rightarrow>
    envelope result \<times> seqGuesses" where
  "appendNext net guess sid kind ciphertext maxAttempts =
     appendLoop net sid kind ciphertext 0 (orElse maxAttempts 20) (orElse (guess sid) 0) guess"

section \<open>Collecting\<close>

text \<open>\<open>seen\<close> is a \<open>Map\<close> from sequence numbers in insertion order.\<close>

definition seeEnvelope :: "envelope \<Rightarrow> (int \<times> envelope) list \<times> int \<Rightarrow> (int \<times> envelope) list \<times> int" where
  "seeEnvelope e = (\<lambda>(seen, since). (AList.update (enSeq e) e seen, if since < enSeq e then enSeq e else since))"

fun collectLoop :: "clientNet \<Rightarrow> (envelope list \<Rightarrow> bool) \<Rightarrow> nat \<Rightarrow> nat \<Rightarrow> (int \<times> envelope) list \<Rightarrow> int \<Rightarrow> envelope list result" where
  "collectLoop net predicate round 0 seen since = Inl (Error ''CoordinatorClient.collectUntil: predicate never satisfied'')"
| "collectLoop net predicate round (Suc left) seen since =
     bindR (pollOnce net round since) (\<lambda>batch.
     (let (seen', since') = fold seeEnvelope batch (seen, since);
          all0 = sort_key enSeq (map snd seen')
      in if predicate all0 then Inr all0 else collectLoop net predicate (Suc round) left seen' since'))"

definition collectUntil :: "clientNet \<Rightarrow> (envelope list \<Rightarrow> bool) \<Rightarrow> nat option \<Rightarrow> int option \<Rightarrow> envelope list result" where
  "collectUntil net predicate maxRounds startSeq =
     collectLoop net predicate 0 (orElse maxRounds 40) [] (orElse startSeq (- 1))"

section \<open>What a collection holds\<close>

text \<open>A stream whose numbers are 0, 1, 2, ...\<close>

definition numbered :: "envelope list \<Rightarrow> bool" where
  "numbered S \<longleftrightarrow> map enSeq S = map int [0..<length S]"

lemma numbered_nth: "numbered S \<Longrightarrow> i < length S \<Longrightarrow> enSeq (S ! i) = int i"
  by (metis (no_types, lifting) add_0 length_map numbered_def nth_map nth_map_upt diff_zero)

lemma numbered_take: "numbered S \<Longrightarrow> numbered (take n S)"
  by (cases "n \<le> length S") (simp_all add: numbered_def take_map [symmetric], simp add: take_map take_upt)

lemma numbered_sorted: "numbered S \<Longrightarrow> sort_key enSeq S = S"
  by (rule sort_key_id_if_sorted) (simp add: numbered_def sorted_iff_nth_mono)

lemma update_fresh: "k \<notin> fst ` set al \<Longrightarrow> AList.update k v al = al @ [(k, v)]"
  by (induction al) auto

lemma see_prefix:
  assumes S: "numbered S" and b: "n + length b \<le> length S" "b = take (length b) (drop n S)"
  shows "fold seeEnvelope b (map (\<lambda>e. (enSeq e, e)) (take n S), int n - 1)
    = (map (\<lambda>e. (enSeq e, e)) (take (n + length b) S), int (n + length b) - 1)"
  using b
proof (induction b arbitrary: n)
  case (Cons e b)
  have n: "n < length S" using Cons.prems by simp
  have d: "drop n S = S ! n # drop (Suc n) S" by (rule Cons_nth_drop_Suc [OF n, symmetric])
  have e: "e = S ! n" "b = take (length b) (drop (Suc n) S)" using Cons.prems(2) by (simp_all add: d)
  have seq: "enSeq e = int n" using numbered_nth [OF S n] e(1) by simp
  have t: "take (Suc n) S = take n S @ [e]" using take_Suc_conv_app_nth [OF n] e(1) by simp
  have "int n \<notin> fst ` set (map (\<lambda>e. (enSeq e, e)) (take n S))"
    using S n by (auto simp: in_set_conv_nth numbered_nth)
  then have "AList.update (int n) e (map (\<lambda>e. (enSeq e, e)) (take n S)) = map (\<lambda>e. (enSeq e, e)) (take (Suc n) S)"
    by (simp add: update_fresh seq t)
  then show ?case using Cons.IH [of "Suc n"] Cons.prems(1) e(2) by (simp add: seeEnvelope_def seq)
qed simp

lemma collect_step:
  "pollOnce net r c = Inr b \<Longrightarrow> collectLoop net P r (Suc left) seen c
    = (let f = fold seeEnvelope b (seen, c); all0 = sort_key enSeq (map snd (fst f))
       in if P all0 then Inr all0 else collectLoop net P (Suc r) left (fst f) (snd f))"
  by (simp add: Let_def split_beta)

lemma collectLoop_take:
  assumes S: "numbered S"
    and serve: "\<And>r c b. - 1 \<le> c \<Longrightarrow> pollOnce net r c = Inr b \<Longrightarrow> prefix b (drop (nat (c + 1)) S)"
  shows "collectLoop net P r left (map (\<lambda>e. (enSeq e, e)) (take n S)) (int n - 1) = Inr res \<Longrightarrow> n \<le> length S
    \<Longrightarrow> \<exists>m. n \<le> m \<and> m \<le> length S \<and> res = take m S \<and> P res"
proof (induction left arbitrary: r n)
  case (Suc left)
  obtain b where b: "pollOnce net r (int n - 1) = Inr b"
    using Suc.prems(1) by (cases "pollOnce net r (int n - 1)") simp_all
  have "prefix b (drop n S)" using serve [OF _ b] by simp
  then have len: "n + length b \<le> length S" and tk: "b = take (length b) (drop n S)"
    using Suc.prems(2) by (auto simp: prefix_def dest: arg_cong [of _ _ length])
  have srt: "sort_key enSeq (map snd (map (\<lambda>e. (enSeq e, e)) (take (n + length b) S))) = take (n + length b) S"
    using numbered_sorted [OF numbered_take [OF S]] by (simp add: comp_def)
  let ?T = "take (n + length b) S"
  have step: "(if P ?T then Inr ?T else collectLoop net P (Suc r) left (map (\<lambda>e. (enSeq e, e)) ?T) (int (n + length b) - 1)) = Inr res"
    using Suc.prems(1) unfolding collect_step [OF b] see_prefix [OF S len tk] Let_def fst_conv snd_conv srt .
  show ?case
  proof (cases "P ?T")
    case True
    with step len show ?thesis by (intro exI [of _ "n + length b"]) simp
  next
    case False
    with step Suc.IH [of "Suc r" "n + length b"] len obtain m where "n + length b \<le> m" "m \<le> length S" "res = take m S" "P res"
      by auto
    then show ?thesis by (intro exI [of _ m]) simp
  qed
qed simp

section \<open>Answers of the relay\<close>

text \<open>What a poll of session \<open>sid\<close> past cursor \<open>c\<close> can be answered with, and the relay at that moment: at
  once, by the timer, or by the post that wakes it.\<close>

inductive answered :: "string \<Rightarrow> int \<Rightarrow> envelope list \<Rightarrow> relay \<Rightarrow> bool" where
  ans_now: "reachable rl \<Longrightarrow> getMessages rl q sid (Some c) = (Some b, rl') \<Longrightarrow> answered sid c b rl'"
| ans_timeout: "reachable rl \<Longrightarrow> pollTimeout rl q = (Some [], rl') \<Longrightarrow> answered sid c [] rl'"
| ans_woken: "reachable rl \<Longrightarrow> (q, sid, Some c) \<in> set (rlPolls rl) \<Longrightarrow> postMessage rl now u body = (rep, rl') \<Longrightarrow>
    poStatus rep = 201 \<Longrightarrow> parseEnvelope body = Some e \<Longrightarrow> wakes e (q, sid, Some c) \<Longrightarrow> answered sid c [e] rl'"

lemma reachable_numbered: "reachable rl \<Longrightarrow> numbered (stream (rlStore rl) sid)"
  using reachable_gapFree [of rl] by (simp add: gapFree_def numbered_def)

lemma answered_prefix:
  assumes "answered sid c b rl'" "- 1 \<le> c"
  shows "prefix b (drop (nat (c + 1)) (stream (rlStore rl') sid))"
  using assms
proof (induction rule: answered.induct)
  case (ans_now rl q sid c b rl')
  have "sinceMsgs (rlStore rl) sid (Some c) = drop (nat (c + 1)) (stream (rlStore rl) sid)"
    by (rule sinceMsgs_drop) (use reachable_numbered [OF ans_now(1)] ans_now(3) in \<open>simp_all add: numbered_def\<close>)
  then show ?case using ans_now(2) by (auto simp: getMessages_def Let_def split: if_splits)
next
  case (ans_woken rl q sid c now u body rep rl' e)
  have p: "sinceMsgs (rlStore rl) sid (Some c) = []"
    by (rule idlePollsD [OF reachable_idle [OF ans_woken(1)] ans_woken(2)])
  have d: "sinceMsgs (rlStore rl) sid (Some c) = drop (nat (c + 1)) (stream (rlStore rl) sid)"
    by (rule sinceMsgs_drop) (use reachable_numbered [OF ans_woken(1)] ans_woken(7) in \<open>simp_all add: numbered_def\<close>)
  obtain st where st: "appendMsg (rlStore rl) now e = Inr st" "rlStore rl' = st"
    using ans_woken(3,4,5) by (auto simp: postMessage_def Let_def split: sum.splits if_splits)
  have same: "enSession e = sid" using ans_woken(6) by (simp add: wakes_def)
  have seq: "enSeq e = int (length (stream (rlStore rl) sid))"
    using st(1) same nextSeq_length [of "rlStore rl" sid] reachable_gapFree [OF ans_woken(1)]
    by (auto simp: appendMsg_def gapFree_def split: if_splits)
  have "nat (c + 1) \<le> length (stream (rlStore rl) sid)" using ans_woken(6,7) seq by (auto simp: wakes_def)
  then show ?case using p d st(2) appendMsg_stream [OF st(1), of sid] same by simp
qed simp

lemma prefix_chain:
  assumes "\<And>r. prefix (S r) (S (Suc r))" "i \<le> j"
  shows "prefix (S i) (S j)"
  using assms(2) by (induction j rule: dec_induct) (use assms(1) prefix_order.trans in blast)+

lemma prefix_drop_mono: "prefix b (drop n S) \<Longrightarrow> prefix S T \<Longrightarrow> prefix b (drop n T)"
  by (auto simp: prefix_def)

text \<open>The polls of one \<open>collectUntil\<close> call: round \<open>r\<close> is answered when the relay is in state \<open>rls r\<close>.\<close>

definition servedBy :: "(nat \<Rightarrow> relay) \<Rightarrow> string \<Rightarrow> clientNet \<Rightarrow> bool" where
  "servedBy rls sid net \<longleftrightarrow>
     (\<forall>r. reachable (rls r) \<and> prefix (stream (rlStore (rls r)) sid) (stream (rlStore (rls (Suc r))) sid))
   \<and> (\<forall>r c b. pollOnce net r c = Inr b \<longrightarrow> answered sid c b (rls r))"

lemma servedBy_loop:
  assumes "servedBy rls sid net" and k: "r + left \<le> k" and loop: "collectLoop net P r left seen c = Inr res"
  shows "\<exists>net'. collectLoop net' P r left seen c = Inr res
    \<and> (\<forall>r c b. - 1 \<le> c \<longrightarrow> pollOnce net' r c = Inr b \<longrightarrow> prefix b (drop (nat (c + 1)) (stream (rlStore (rls k)) sid)))"
proof -
  define net' where "net' = net\<lparr>netPoll := (\<lambda>r c. if r < k then netPoll net r c else Inl [])\<rparr>"
  have "collectLoop net' P r left seen c = Inr res" using k loop
  proof (induction left arbitrary: r seen c)
    case (Suc left)
    have p: "pollOnce net' r c = pollOnce net r c" using Suc.prems(1) by (simp add: pollOnce_def net'_def)
    obtain b where b: "pollOnce net r c = Inr b" using Suc.prems(2) by (cases "pollOnce net r c") simp_all
    show ?case using Suc.prems Suc.IH [of "Suc r"]
      unfolding collect_step [OF b] collect_step [OF p [unfolded b]] Let_def by (simp split: if_splits)
  qed simp
  moreover have "prefix b (drop (nat (c + 1)) (stream (rlStore (rls k)) sid))" if c: "- 1 \<le> c" and b: "pollOnce net' r c = Inr b" for r c b
  proof (cases "r < k")
    case True
    then have "answered sid c b (rls r)" using assms(1) b by (simp add: servedBy_def pollOnce_def net'_def)
    from answered_prefix [OF this c] prefix_chain [of "\<lambda>r. stream (rlStore (rls r)) sid" r k] True assms(1)
    show ?thesis by (simp add: prefix_drop_mono servedBy_def)
  qed (use b in \<open>simp add: pollOnce_def net'_def\<close>)
  ultimately show ?thesis by blast
qed

lemma collected_prefix:
  assumes s: "servedBy rls sid net" and c: "collectUntil net P maxRounds None = Inr res"
  shows "prefix res (stream (rlStore (rls (orElse maxRounds 40))) sid) \<and> P res"
proof -
  let ?S = "stream (rlStore (rls (orElse maxRounds 40))) sid"
  have loop: "collectLoop net P 0 (orElse maxRounds 40) [] (- 1) = Inr res" using c by (simp add: collectUntil_def)
  obtain net' where n: "collectLoop net' P 0 (orElse maxRounds 40) [] (- 1) = Inr res"
    "\<And>r c b. - 1 \<le> c \<Longrightarrow> pollOnce net' r c = Inr b \<Longrightarrow> prefix b (drop (nat (c + 1)) ?S)"
    using servedBy_loop [OF s _ loop, of "orElse maxRounds 40"] unfolding add_0 by blast
  have S: "numbered ?S" using s by (intro reachable_numbered) (simp add: servedBy_def)
  have n0: "collectLoop net' P 0 (orElse maxRounds 40) (map (\<lambda>e. (enSeq e, e)) (take 0 ?S)) (int 0 - 1) = Inr res"
    using n(1) by simp
  have "\<exists>m. 0 \<le> m \<and> m \<le> length ?S \<and> res = take m ?S \<and> P res"
    by (rule collectLoop_take [OF S _ n0]) (use n(2) in auto)
  then obtain m where "res = take m ?S" "P res" by blast
  then show ?thesis by (simp add: take_is_prefix)
qed

section \<open>The client against a relay\<close>

definition kindText :: "envelopeKind \<Rightarrow> string" where
  "kindText k = (case k of Dkg1 \<Rightarrow> ''dkg1'' | Dkg2 \<Rightarrow> ''dkg2'' | Proposal \<Rightarrow> ''proposal'' | Nonce \<Rightarrow> ''nonce''
     | Share \<Rightarrow> ''share'' | Final \<Rightarrow> ''final'')"

text \<open>The body of the request that posts \<open>e\<close>.\<close>

definition wireBody :: "envelope \<Rightarrow> rawEnvelope" where
  "wireBody e = \<lparr>reSession = enSession e, reSeq = enSeq e, reKind = kindText (enKind e), reCiphertext = enCiphertext e\<rparr>"

text \<open>The network while nobody else posts: the relay stays as it is until a post is accepted.\<close>

definition quietNet :: "relay \<Rightarrow> int \<Rightarrow> string \<Rightarrow> clientNet" where
  "quietNet rl now sid =
     \<lparr>netAppend = (\<lambda>k e. Inr (poStatus (fst (postMessage rl now (enSession e) (wireBody e))))),
      netPoll = (\<lambda>k c. Inr (200, sinceMsgs (rlStore rl) sid (Some c)))\<rparr>"

lemma parse_wireBody:
  "isHex32 (enSession e) \<Longrightarrow> 0 \<le> enSeq e \<Longrightarrow> length (enCiphertext e) mod 4 = 0 \<Longrightarrow> isBase64 (enCiphertext e)
    \<Longrightarrow> parseEnvelope (wireBody e) = Some e"
  by (cases "enKind e") (simp_all add: parseEnvelope_def wireBody_def kindText_def parseKind_def)

lemma quiet_append:
  assumes g: "gapFree (rlStore rl)"
    and e: "isHex32 (enSession e)" "0 \<le> enSeq e" "length (enCiphertext e) mod 4 = 0" "isBase64 (enCiphertext e)"
  shows "clientAppend (quietNet rl now sid) k e
    = (if enSeq e = int (length (stream (rlStore rl) (enSession e))) then Inr () else Inl SequenceConflictError)"
  using nextSeq_length [of "rlStore rl" "enSession e"] g
  by (simp add: clientAppend_def quietNet_def postMessage_def parse_wireBody [OF e] appendMsg_def gapFree_def statusOk_def Let_def)

lemma seqAfter_stream: "gapFree st \<Longrightarrow> seqAfter (stream st sid) = int (length (stream st sid))"
proof -
  assume g: "gapFree st"
  have "seqAfter (stream st sid) = nextSeq st sid" by (simp add: seqAfter_def nextSeq_def stream_def comp_def)
  then show ?thesis using nextSeq_length [of st sid] g by (simp add: gapFree_def)
qed

text \<open>C25: An append reaches the relay.  While no other member posts, \<open>appendNext\<close> with any well-formed
  message and whatever sequence number the client guessed returns the envelope that carries the next
  number of the session's stream; the relay accepts that envelope, and the client's next guess is the
  number after it.\<close>

theorem append_next_lands:
  assumes r: "reachable rl"
    and m: "isHex32 sid" "length ciphertext mod 4 = 0" "isBase64 ciphertext"
    and g: "\<forall>n. guess sid = Some n \<longrightarrow> 0 \<le> n"
  shows "\<exists>e guess'. appendNext (quietNet rl now sid) guess sid kind ciphertext None = (Inr e, guess')
    \<and> enSession e = sid \<and> enKind e = kind \<and> enCiphertext e = ciphertext
    \<and> enSeq e = int (length (stream (rlStore rl) sid))
    \<and> stream (rlStore (snd (postMessage rl now sid (wireBody e)))) sid = stream (rlStore rl) sid @ [e]
    \<and> guess' sid = Some (enSeq e + 1)"
proof -
  let ?net = "quietNet rl now sid" and ?n = "int (length (stream (rlStore rl) sid))"
  let ?e = "\<lambda>n. \<lparr>enSession = sid, enSeq = n, enKind = kind, enCiphertext = ciphertext\<rparr>"
  have gf: "gapFree (rlStore rl)" by (rule reachable_gapFree [OF r])
  have ap: "clientAppend ?net k (?e n) = (if n = ?n then Inr () else Inl SequenceConflictError)" if "0 \<le> n" for k n
    using quiet_append [OF gf, of "?e n"] m that by simp
  have all: "pollOnce ?net k (- 1) = Inr (stream (rlStore rl) sid)" for k
    using sinceMsgs_drop [of "rlStore rl" sid "- 1"] reachable_numbered [OF r, of sid]
    by (simp add: pollOnce_def quietNet_def statusOk_def numbered_def)
  let ?g0 = "orElse (guess sid) 0"
  have g0: "0 \<le> ?g0" using g by (cases "guess sid") simp_all
  have loop: "appendLoop ?net sid kind ciphertext k (Suc left) ?n guess0 = (Inr (?e ?n), guess0(sid \<mapsto> ?n + 1))" for k left guess0
    using ap [of ?n k] by simp
  have "\<exists>guess'. appendNext ?net guess sid kind ciphertext None = (Inr (?e ?n), guess') \<and> guess' sid = Some (?n + 1)"
  proof (cases "?g0 = ?n")
    case True
    then show ?thesis using loop [of 0 19 guess] by (simp add: appendNext_def numeral_eq_Suc)
  next
    case False
    have "appendLoop ?net sid kind ciphertext 0 (Suc (Suc left)) ?g0 guess
        = appendLoop ?net sid kind ciphertext 1 (Suc left) ?n (guess(sid \<mapsto> ?n))" for left
      using ap [OF g0, of 0] False all [of 0] seqAfter_stream [OF gf, of sid]
      by (subst appendLoop.simps(2)) (simp add: Let_def del: appendLoop.simps)
    from this [of 18] show ?thesis using loop [of 1 18 "guess(sid \<mapsto> ?n)"] by (simp add: appendNext_def numeral_eq_Suc)
  qed
  moreover have "stream (rlStore (snd (postMessage rl now sid (wireBody (?e ?n))))) sid = stream (rlStore rl) sid @ [?e ?n]"
  proof -
    have "appendMsg (rlStore rl) now (?e ?n) = Inr (rlStore rl @ [\<lparr>mrEnvelope = ?e ?n, mrCreatedAt = now\<rparr>])"
      using nextSeq_length [of "rlStore rl" sid] gf by (simp add: appendMsg_def gapFree_def)
    then show ?thesis using parse_wireBody [of "?e ?n"] m by (simp add: postMessage_def Let_def stream_append)
  qed
  ultimately show ?thesis by (intro exI [of _ "?e ?n"]) auto
qed

theorem append_next_lands_witness:
  "\<exists>e guess'. appendNext (quietNet demoRelay 9 (replicate 64 CHR ''a'')) (Map.empty(replicate 64 CHR ''a'' \<mapsto> 7)) (replicate 64 CHR ''a'')
      Share ''QUJD'' None = (Inr e, guess') \<and> enSeq e = 2"
proof -
  have h: "isHex32 (replicate 64 CHR ''a'')" "isBase64 ''QUJD''" by code_simp+
  have "length (stream (rlStore demoRelay) (replicate 64 CHR ''a'')) = 2"
    using arg_cong [OF demoRelay_stream, of length] by simp
  then show ?thesis
    using append_next_lands [OF demoRelay_reachable h(1) _ h(2), of "Map.empty(replicate 64 CHR ''a'' \<mapsto> 7)" 9 Share] by auto
qed

text \<open>C23: Members collect the same messages.  Two clients that collect from one session, each with its own
  condition and its polls answered by the relay at once, by a wake-up or by the timer while the session's
  stream grows, obtain prefixes of that stream in its order, so one collection extends the other, and
  each collection satisfies the condition it was collected for.\<close>

theorem collections_agree:
  assumes "servedBy rls sid net" "collectUntil net P maxRounds None = Inr res"
    and "servedBy rls' sid net'" "collectUntil net' P' maxRounds' None = Inr res'"
    and "prefix (stream (rlStore (rls (orElse maxRounds 40))) sid) S"
    and "prefix (stream (rlStore (rls' (orElse maxRounds' 40))) sid) S"
  shows "prefix res S \<and> prefix res' S \<and> (prefix res res' \<or> prefix res' res) \<and> P res \<and> P' res'"
proof -
  have "prefix res S" "prefix res' S" "P res" "P' res'"
    using collected_prefix [OF assms(1,2)] collected_prefix [OF assms(3,4)] assms(5,6) prefix_order.trans by blast+
  then show ?thesis using prefix_same_cases by blast
qed

lemma demo_served: "servedBy (\<lambda>_. demoRelay) (replicate 64 CHR ''a'') (quietNet demoRelay 9 (replicate 64 CHR ''a''))"
proof -
  have "answered (replicate 64 CHR ''a'') c (sinceMsgs (rlStore demoRelay) (replicate 64 CHR ''a'') (Some c)) demoRelay" for c
  proof (cases "sinceMsgs (rlStore demoRelay) (replicate 64 CHR ''a'') (Some c) = []")
    case False
    then show ?thesis by (intro ans_now [OF demoRelay_reachable]) (simp add: getMessages_def)
  next
    case True
    let ?rl = "demoRelay\<lparr>rlPolls := [(0, replicate 64 CHR ''a'', Some c)]\<rparr>"
    have p: "rlPolls demoRelay = []" by code_simp
    have "snd (getMessages demoRelay 0 (replicate 64 CHR ''a'') (Some c)) = ?rl"
      by (simp add: getMessages_def True p)
    then have "reachable ?rl" using reach_step [OF demoRelay_reachable step_get, of 0 "replicate 64 CHR ''a''" "Some c"] by simp
    moreover have "pollTimeout ?rl 0 = (Some [], demoRelay)"
      using p by (cases demoRelay) (simp add: pollTimeout_def)
    ultimately show ?thesis unfolding True by (rule ans_timeout)
  qed
  then show ?thesis
    by (auto simp: servedBy_def demoRelay_reachable pollOnce_def quietNet_def statusOk_def)
qed

theorem collections_agree_witness:
  "\<exists>res. collectUntil (quietNet demoRelay 9 (replicate 64 CHR ''a'')) (\<lambda>es. 2 \<le> length es) None None = Inr res
    \<and> prefix res (stream (rlStore demoRelay) (replicate 64 CHR ''a'')) \<and> 2 \<le> length res"
proof -
  have "isOk (collectUntil (quietNet demoRelay 9 (replicate 64 CHR ''a'')) (\<lambda>es. 2 \<le> length es) None None)" by code_simp
  then obtain res where "collectUntil (quietNet demoRelay 9 (replicate 64 CHR ''a'')) (\<lambda>es. 2 \<le> length es) None None = Inr res"
    by (metis isOk.elims(2))
  with collections_agree [OF demo_served this demo_served this prefix_order.refl prefix_order.refl] show ?thesis by simp
qed

end
