(* ===== verification/Json.thy ===== *)
theory Json
  imports EventDecode Crypto
begin

text \<open>
  The parts of the language the ceremony and proposal messages are written with: \<open>JSON.stringify\<close> and
  \<open>JSON.parse\<close> on texts of single-byte characters, \<open>Buffer\<close>'s base64 and hexadecimal, and \<open>toString()\<close>
  of a \<open>bigint\<close>.  A number keeps its text.  The lemmas are the round trips: parsing what was printed, for
  values whose strings need no escape, and the same for base64, hexadecimal and decimal.
\<close>

section \<open>Values and printing\<close>

datatype json = JNull | JBool bool | JNum string | JStr string | JArr "json list" | JObj "(string \<times> json) list"

definition QUOTE :: char where "QUOTE = CHR 0x22"
definition BACKSLASH :: char where "BACKSLASH = CHR 0x5C"

definition jsonEscape :: "char \<Rightarrow> string" where
  "jsonEscape c =
     (let n = of_char c :: nat in
      if c = QUOTE \<or> c = BACKSLASH then [BACKSLASH, c]
      else if n = 8 then [BACKSLASH, CHR ''b''] else if n = 9 then [BACKSLASH, CHR ''t'']
      else if n = 10 then [BACKSLASH, CHR ''n''] else if n = 12 then [BACKSLASH, CHR ''f'']
      else if n = 13 then [BACKSLASH, CHR ''r'']
      else if n < 32 then BACKSLASH # ''u00'' @ [digitChar (n div 16), digitChar (n mod 16)]
      else [c])"

definition jsonQuote :: "string \<Rightarrow> string" where
  "jsonQuote s = QUOTE # concat (map jsonEscape s) @ [QUOTE]"

fun commaJoin :: "string list \<Rightarrow> string" where
  "commaJoin [] = []"
| "commaJoin [x] = x"
| "commaJoin (x # y # xs) = x @ CHR '','' # commaJoin (y # xs)"

primrec stringify :: "json \<Rightarrow> string" where
  "stringify JNull = ''null''"
| "stringify (JBool b) = (if b then ''true'' else ''false'')"
| "stringify (JNum t) = t"
| "stringify (JStr s) = jsonQuote s"
| "stringify (JArr vs) = ''['' @ commaJoin (map stringify vs) @ '']''"
| "stringify (JObj ms) =
     ''{'' @ commaJoin (map (\<lambda>(k, t). jsonQuote k @ '':'' @ t) (map (map_prod id stringify) ms)) @ ''}''"

section \<open>Parsing\<close>

definition jsonSpace :: "char \<Rightarrow> bool" where
  "jsonSpace c \<longleftrightarrow> of_char c \<in> {9, 10, 13, 32 :: nat}"

definition skipWs :: "string \<Rightarrow> string" where
  "skipWs s = dropWhile jsonSpace s"

definition unescape :: "char \<Rightarrow> char option" where
  "unescape c = map_of [(QUOTE, QUOTE), (BACKSLASH, BACKSLASH), (CHR ''/'', CHR ''/''), (CHR ''b'', char_of (8::nat)),
     (CHR ''t'', char_of (9::nat)), (CHR ''n'', char_of (10::nat)), (CHR ''f'', char_of (12::nat)), (CHR ''r'', char_of (13::nat))] c"

text \<open>The rest of a string after its opening quote.  An escape \<open>\u\<close> above 255 has no character here.\<close>

function pStr :: "string \<Rightarrow> (string \<times> string) option" where
  "pStr s =
     (case s of [] \<Rightarrow> None
      | c # cs \<Rightarrow>
        if c = QUOTE then Some ([], cs)
        else if c = BACKSLASH then
          (case cs of [] \<Rightarrow> None
           | e # r \<Rightarrow>
             if e = CHR ''u'' then
               (case digits 16 0 (take 4 r) of None \<Rightarrow> None
                | Some n \<Rightarrow>
                  if length (take 4 r) < 4 \<or> 256 \<le> n then None
                  else map_option (apfst ((#) (char_of (nat n)))) (pStr (drop 4 r)))
             else case unescape e of None \<Rightarrow> None | Some x \<Rightarrow> map_option (apfst ((#) x)) (pStr r))
        else if (of_char c :: nat) < 32 then None
        else map_option (apfst ((#) c)) (pStr cs))"
  by pat_completeness auto
termination
  by (relation "measure length") auto

declare pStr.simps [simp del]

text \<open>The number grammar: sign, integer part without a leading zero, fraction, exponent.\<close>

definition numExponent :: "string \<Rightarrow> bool" where
  "numExponent t \<longleftrightarrow> t = [] \<or>
     (hd t \<in> {CHR ''e'', CHR ''E''} \<and>
      (let r = tl t; ds = (if r \<noteq> [] \<and> hd r \<in> {CHR ''+'', CHR ''-''} then tl r else r)
       in ds \<noteq> [] \<and> list_all isDigit ds))"

definition numFraction :: "string \<Rightarrow> bool" where
  "numFraction t \<longleftrightarrow>
     (if t \<noteq> [] \<and> hd t = CHR ''.'' then takeWhile isDigit (tl t) \<noteq> [] \<and> numExponent (dropWhile isDigit (tl t))
      else numExponent t)"

definition jsonNumber :: "string \<Rightarrow> bool" where
  "jsonNumber t \<longleftrightarrow>
     (let u = (if t \<noteq> [] \<and> hd t = CHR ''-'' then tl t else t); ds = takeWhile isDigit u
      in ds \<noteq> [] \<and> (hd ds = CHR ''0'' \<longrightarrow> length ds = 1) \<and> numFraction (dropWhile isDigit u))"

definition numberChar :: "char \<Rightarrow> bool" where
  "numberChar c \<longleftrightarrow> isDigit c \<or> c \<in> {CHR ''-'', CHR ''+'', CHR ''.'', CHR ''e'', CHR ''E''}"

definition pAtom :: "string \<Rightarrow> (json \<times> string) option" where
  "pAtom s =
     (if startsWith s ''null'' then Some (JNull, drop 4 s)
      else if startsWith s ''true'' then Some (JBool True, drop 4 s)
      else if startsWith s ''false'' then Some (JBool False, drop 5 s)
      else let t = takeWhile numberChar s in if jsonNumber t then Some (JNum t, dropWhile numberChar s) else None)"

text \<open>The nesting of the text bounds the recursion; every call spends one unit of fuel.\<close>

fun pVal :: "nat \<Rightarrow> string \<Rightarrow> (json \<times> string) option"
and pElems :: "nat \<Rightarrow> string \<Rightarrow> (json list \<times> string) option"
and pMembers :: "nat \<Rightarrow> string \<Rightarrow> ((string \<times> json) list \<times> string) option" where
  "pVal 0 s = None"
| "pVal (Suc f) s =
     (case skipWs s of [] \<Rightarrow> None
      | c # r \<Rightarrow>
        if c = QUOTE then map_option (apfst JStr) (pStr r)
        else if c = CHR ''['' then
          (case skipWs r of [] \<Rightarrow> None
           | d # r' \<Rightarrow> if d = CHR '']'' then Some (JArr [], r') else map_option (apfst JArr) (pElems f r))
        else if c = CHR ''{'' then
          (case skipWs r of [] \<Rightarrow> None
           | d # r' \<Rightarrow> if d = CHR ''}'' then Some (JObj [], r') else map_option (apfst JObj) (pMembers f r))
        else pAtom (c # r))"
| "pElems 0 s = None"
| "pElems (Suc f) s =
     (case pVal f s of None \<Rightarrow> None
      | Some (v, r) \<Rightarrow>
        (case skipWs r of [] \<Rightarrow> None
         | c # r' \<Rightarrow>
           if c = CHR '','' then map_option (apfst ((#) v)) (pElems f r')
           else if c = CHR '']'' then Some ([v], r') else None))"
| "pMembers 0 s = None"
| "pMembers (Suc f) s =
     (case skipWs s of [] \<Rightarrow> None
      | q # r \<Rightarrow>
        if q \<noteq> QUOTE then None
        else case pStr r of None \<Rightarrow> None
        | Some (k, r1) \<Rightarrow>
          (case skipWs r1 of [] \<Rightarrow> None
           | c # r2 \<Rightarrow>
             if c \<noteq> CHR '':'' then None
             else case pVal f r2 of None \<Rightarrow> None
             | Some (v, r3) \<Rightarrow>
               (case skipWs r3 of [] \<Rightarrow> None
                | d # r4 \<Rightarrow>
                  if d = CHR '','' then map_option (apfst ((#) (k, v))) (pMembers f r4)
                  else if d = CHR ''}'' then Some ([(k, v)], r4) else None)))"

definition jsonParse :: "string \<Rightarrow> json result" where
  "jsonParse s =
     (case pVal (2 * length s + 2) s of None \<Rightarrow> Inl (Error ''SyntaxError: JSON.parse'')
      | Some (v, r) \<Rightarrow> if skipWs r = [] then Inr v else Inl (Error ''SyntaxError: JSON.parse''))"

text \<open>Reading a property: the last of equal keys wins; a value of another shape is a type error where it is used.\<close>

definition jsonGet :: "string \<Rightarrow> json \<Rightarrow> json option" where
  "jsonGet k v = (case v of JObj ms \<Rightarrow> map_of (rev ms) k | _ \<Rightarrow> None)"

definition jsonTypeError :: js_error where
  "jsonTypeError = Error ''TypeError: unexpected shape''"

definition jsonStr :: "string \<Rightarrow> json \<Rightarrow> string result" where
  "jsonStr k v = (case jsonGet k v of Some (JStr s) \<Rightarrow> Inr s | _ \<Rightarrow> Inl jsonTypeError)"

definition jsonField :: "string \<Rightarrow> json \<Rightarrow> json result" where
  "jsonField k v = getOr jsonTypeError (jsonGet k v)"

section \<open>Parsing what was printed\<close>

definition plainChar :: "char \<Rightarrow> bool" where
  "plainChar c \<longleftrightarrow> c \<noteq> QUOTE \<and> c \<noteq> BACKSLASH \<and> \<not> (of_char c :: nat) < 32"

primrec jsonPlain :: "json \<Rightarrow> bool" where
  "jsonPlain JNull = True"
| "jsonPlain (JBool b) = True"
| "jsonPlain (JNum t) = (list_all isDigit t \<and> jsonNumber t)"
| "jsonPlain (JStr s) = list_all plainChar s"
| "jsonPlain (JArr vs) = list_all id (map jsonPlain vs)"
| "jsonPlain (JObj ms) = list_all (\<lambda>(k, b). list_all plainChar k \<and> b) (map (map_prod id jsonPlain) ms)"

lemma quote_plain: "list_all plainChar s \<Longrightarrow> jsonQuote s = QUOTE # s @ [QUOTE]"
proof -
  assume s: "list_all plainChar s"
  have "jsonEscape c = [c]" if "plainChar c" for c
    using that by (auto simp: plainChar_def jsonEscape_def Let_def)
  then have "concat (map jsonEscape s) = s" using s by (induction s) auto
  then show ?thesis by (simp add: jsonQuote_def)
qed

lemma pStr_quote: "pStr (QUOTE # r) = Some ([], r)"
  by (subst pStr.simps) simp

lemma pStr_plain: "list_all plainChar s \<Longrightarrow> pStr (s @ QUOTE # r) = Some (s, r)"
proof (induction s)
  case Nil
  show ?case by (simp add: pStr_quote)
next
  case (Cons c s)
  then show ?case by (subst pStr.simps) (simp add: plainChar_def)
qed

primrec jsonNeed :: "json \<Rightarrow> nat" where
  "jsonNeed JNull = 1"
| "jsonNeed (JBool b) = 1"
| "jsonNeed (JNum t) = 1"
| "jsonNeed (JStr s) = 1"
| "jsonNeed (JArr vs) = Suc (sum_list (map Suc (map jsonNeed vs)))"
| "jsonNeed (JObj ms) = Suc (sum_list (map (\<lambda>(k, n). Suc n) (map (map_prod id jsonNeed) ms)))"

lemma punctuation [simp]:
  "skipWs (CHR '','' # r) = CHR '','' # r" "skipWs (CHR '':'' # r) = CHR '':'' # r" "skipWs (CHR '']'' # r) = CHR '']'' # r"
  "skipWs (CHR ''['' # r) = CHR ''['' # r" "skipWs (CHR ''{'' # r) = CHR ''{'' # r" "skipWs (CHR ''}'' # r) = CHR ''}'' # r"
  "skipWs (QUOTE # r) = QUOTE # r" "skipWs [] = []"
  "QUOTE \<noteq> CHR '':''" "QUOTE \<noteq> CHR '',''" "QUOTE \<noteq> CHR ''['' " "QUOTE \<noteq> CHR ''{''" "QUOTE \<noteq> CHR '']''" "QUOTE \<noteq> CHR ''}''"
  "CHR ''['' \<noteq> QUOTE" "CHR ''{'' \<noteq> QUOTE" "CHR '']'' \<noteq> QUOTE"
  by (simp_all add: skipWs_def jsonSpace_def QUOTE_def)

text \<open>What may follow a number.\<close>

definition ends :: "string \<Rightarrow> bool" where
  "ends r \<longleftrightarrow> r = [] \<or> \<not> numberChar (hd r)"

lemma ends_simps [simp]: "ends []" "ends (CHR '','' # r)" "ends (CHR '']'' # r)" "ends (CHR ''}'' # r)"
proof -
  have "\<not> numberChar CHR '',''" "\<not> numberChar CHR '']''" "\<not> numberChar CHR ''}''" by code_simp+
  then show "ends []" "ends (CHR '','' # r)" "ends (CHR '']'' # r)" "ends (CHR ''}'' # r)" by (simp_all add: ends_def)
qed

lemma digit_char: "isDigit c \<Longrightarrow> c \<noteq> QUOTE \<and> c \<noteq> CHR ''['' \<and> c \<noteq> CHR '']'' \<and> c \<noteq> CHR ''{'' \<and> c \<noteq> CHR ''n'' \<and> c \<noteq> CHR ''t''
    \<and> c \<noteq> CHR ''f'' \<and> \<not> jsonSpace c \<and> numberChar c"
  by (auto simp: isDigit_def digitVal_def QUOTE_def jsonSpace_def numberChar_def split: if_splits)

lemma plainNumber: "jsonPlain (JNum t) \<Longrightarrow> \<exists>c u. t = c # u \<and> isDigit c"
  by (cases t) (simp_all add: jsonNumber_def Let_def)

lemma pAtom_number:
  assumes "jsonPlain (JNum t)" "ends r"
  shows "pAtom (t @ r) = Some (JNum t, r)"
proof -
  obtain c u where c: "t = c # u" "isDigit c" using plainNumber [OF assms(1)] by blast
  have n: "list_all numberChar t" using assms(1) by (auto simp: list_all_iff digit_char)
  have "takeWhile numberChar (t @ r) = t" "dropWhile numberChar (t @ r) = r"
    using n assms(2) by (induction t) (cases r; simp add: ends_def)+
  then show ?thesis using assms(1) c digit_char [OF c(2)] by (simp add: pAtom_def startsWith_def)
qed

lemma stringify_head: "jsonPlain v \<Longrightarrow> \<exists>c r. stringify v = c # r \<and> \<not> jsonSpace c \<and> c \<noteq> CHR '']''"
proof (cases v)
  case (JNum t)
  then show "jsonPlain v \<Longrightarrow> ?thesis" using plainNumber [of t] digit_char by auto
qed (simp_all add: jsonQuote_def jsonSpace_def QUOTE_def)

lemma stringify_skip: "jsonPlain v \<Longrightarrow> skipWs (stringify v @ r) = stringify v @ r"
  using stringify_head [of v] by (auto simp: skipWs_def)

lemma pElems_printed:
  assumes "vs \<noteq> []" "\<And>v f r. v \<in> set vs \<Longrightarrow> jsonNeed v \<le> f \<Longrightarrow> ends r \<Longrightarrow> pVal f (stringify v @ r) = Some (v, r)"
    and "sum_list (map Suc (map jsonNeed vs)) \<le> f"
  shows "pElems f (commaJoin (map stringify vs) @ CHR '']'' # r) = Some (vs, r)"
  using assms
proof (induction vs arbitrary: f rule: induct_list012)
  case (2 v)
  then obtain g where g: "f = Suc g" "jsonNeed v \<le> g" by (cases f) simp_all
  then show ?case using "2.prems"(2) [of v g] by simp
next
  case (3 v w vs)
  then obtain g where g: "f = Suc g" "jsonNeed v \<le> g" "sum_list (map Suc (map jsonNeed (w # vs))) \<le> g" by (cases f) simp_all
  have "pElems g (commaJoin (map stringify (w # vs)) @ CHR '']'' # r) = Some (w # vs, r)"
    using g(3) by (intro "3.IH"(2)) (use "3.prems"(2) in auto)
  then show ?case using "3.prems"(2) [of v g] g(1,2) by simp
qed simp

lemma need_members: "sum_list (map (\<lambda>(k, n). Suc n) (map (map_prod id jsonNeed) ms)) = (\<Sum>m\<leftarrow>ms. Suc (jsonNeed (snd m)))"
  by (induction ms) (simp_all add: split_beta)

lemma pMembers_printed:
  assumes "ms \<noteq> []" "\<forall>m\<in>set ms. list_all plainChar (fst m) \<and> (\<forall>f r. jsonNeed (snd m) \<le> f \<longrightarrow> ends r \<longrightarrow> pVal f (stringify (snd m) @ r) = Some (snd m, r))"
    and "(\<Sum>m\<leftarrow>ms. Suc (jsonNeed (snd m))) \<le> f"
  shows "pMembers f (commaJoin (map (\<lambda>(k, t). jsonQuote k @ '':'' @ t) (map (map_prod id stringify) ms)) @ CHR ''}'' # r) = Some (ms, r)"
  using assms
proof (induction ms arbitrary: f rule: induct_list012)
  case (2 m)
  then obtain g where g: "f = Suc g" "jsonNeed (snd m) \<le> g" by (cases f) simp_all
  then show ?case using "2.prems"(2) by (cases m) (simp add: quote_plain pStr_plain)
next
  case (3 m n ms)
  then obtain g where g: "f = Suc g" "jsonNeed (snd m) \<le> g" "(\<Sum>m\<leftarrow>(n # ms). Suc (jsonNeed (snd m))) \<le> g"
    by (cases f) simp_all
  have "pMembers g (commaJoin (map (\<lambda>(k, t). jsonQuote k @ '':'' @ t) (map (map_prod id stringify) (n # ms))) @ CHR ''}'' # r) = Some (n # ms, r)"
    by (rule "3.IH"(2)) (use "3.prems"(2) g(3) in simp_all)
  then show ?case using "3.prems"(2) g(1,2) by (cases m; cases n) (simp add: quote_plain pStr_plain id_def)
qed simp

lemma pVal_printed: "jsonPlain v \<Longrightarrow> jsonNeed v \<le> f \<Longrightarrow> ends r \<Longrightarrow> pVal f (stringify v @ r) = Some (v, r)"
proof (induction v arbitrary: f r)
  case JNull
  then show ?case by (cases f) (simp_all add: pAtom_def startsWith_def skipWs_def jsonSpace_def QUOTE_def)
next
  case (JBool b)
  then show ?case by (cases f) (simp_all add: pAtom_def startsWith_def skipWs_def jsonSpace_def QUOTE_def)
next
  case (JNum t)
  then obtain g where g: "f = Suc g" by (cases f) simp_all
  obtain c u where c: "t = c # u" "isDigit c" using plainNumber [OF JNum.prems(1)] by blast
  have "skipWs (c # u @ r) = c # u @ r" using digit_char [OF c(2)] by (simp add: skipWs_def)
  then show ?case using pAtom_number [OF JNum.prems(1,3)] digit_char [OF c(2)] by (simp add: g c(1))
next
  case (JStr s)
  then show ?case by (cases f) (simp_all add: quote_plain pStr_plain)
next
  case (JArr vs)
  then obtain g where g: "f = Suc g" "sum_list (map Suc (map jsonNeed vs)) \<le> g" by (cases f) simp_all
  show ?case
  proof (cases vs)
    case Nil
    then show ?thesis by (simp add: g)
  next
    case (Cons v ws)
    have plain: "\<And>w. w \<in> set vs \<Longrightarrow> jsonPlain w" using JArr.prems(1) by (simp add: list_all_iff)
    obtain c t where c: "stringify v = c # t" "\<not> jsonSpace c" "c \<noteq> CHR '']''" using stringify_head plain Cons by (metis list.set_intros(1))
    have "pElems g (commaJoin (map stringify vs) @ CHR '']'' # r) = Some (vs, r)"
      by (rule pElems_printed) (use Cons JArr.IH plain g(2) in auto)
    moreover obtain t' where "commaJoin (map stringify vs) @ CHR '']'' # r = c # t'"
      using c(1) Cons by (cases ws) simp_all
    moreover have "skipWs (c # t') = c # t'" for t' using c(2) by (simp add: skipWs_def)
    ultimately show ?thesis using c(3) by (simp add: g(1))
  qed
next
  case (JObj ms)
  then obtain g where g: "f = Suc g" "(\<Sum>m\<leftarrow>ms. Suc (jsonNeed (snd m))) \<le> g" by (cases f) (simp_all add: need_members del: map_map)
  show ?case
  proof (cases ms)
    case Nil
    then show ?thesis by (simp add: g)
  next
    case (Cons m ns)
    have "\<forall>m\<in>set ms. list_all plainChar (fst m) \<and> jsonPlain (snd m)" using JObj.prems(1) by (auto simp: list_all_iff)
    moreover have "pVal f (stringify (snd m) @ r) = Some (snd m, r)" if "m \<in> set ms" "jsonPlain (snd m)" "jsonNeed (snd m) \<le> f" "ends r" for m f r
      using JObj.IH [of m "snd m"] that by (cases m) simp
    ultimately have "pMembers g (commaJoin (map (\<lambda>(k, t). jsonQuote k @ '':'' @ t) (map (map_prod id stringify) ms)) @ CHR ''}'' # r) = Some (ms, r)"
      by (intro pMembers_printed) (use Cons g(2) in auto)
    moreover obtain t' where "commaJoin (map (\<lambda>(k, t). jsonQuote k @ '':'' @ t) (map (map_prod id stringify) ms)) @ CHR ''}'' # r = QUOTE # t'"
      using Cons by (cases m; cases ns) (simp_all add: jsonQuote_def)
    ultimately show ?thesis by (simp add: g(1))
  qed
qed

lemma jsonNeed_pos: "0 < jsonNeed v"
  by (cases v) simp_all

lemma commaJoin_length: "ts \<noteq> [] \<Longrightarrow> length (commaJoin ts) + 1 = sum_list (map (\<lambda>t. Suc (length t)) ts)"
  by (induction ts rule: commaJoin.induct) simp_all

lemma jsonNeed_bound: "jsonPlain v \<Longrightarrow> jsonNeed v \<le> 2 * length (stringify v)"
proof (induction v)
  case (JArr vs)
  have "sum_list (map Suc (map jsonNeed vs)) \<le> sum_list (map (\<lambda>v. 2 * Suc (length (stringify v))) vs)"
    unfolding map_map comp_def by (rule sum_list_mono) (use JArr in \<open>force simp: list_all_iff\<close>)
  also have "\<dots> = 2 * sum_list (map (\<lambda>t. Suc (length t)) (map stringify vs))"
    by (simp add: sum_list_const_mult [symmetric] comp_def)
  finally show ?case using commaJoin_length [of "map stringify vs"] by (cases "vs = []") simp_all
next
  case (JObj ms)
  have "sum_list (map (\<lambda>(k, n). Suc n) (map (map_prod id jsonNeed) ms)) \<le> sum_list (map (\<lambda>(k, v). 2 * Suc (length (jsonQuote k @ '':'' @ stringify v))) ms)"
    unfolding map_map comp_def by (rule sum_list_mono) (use JObj in \<open>force simp: list_all_iff\<close>)
  also have "\<dots> = 2 * sum_list (map (\<lambda>t. Suc (length t)) (map (\<lambda>(k, t). jsonQuote k @ '':'' @ t) (map (map_prod id stringify) ms)))"
    by (simp add: sum_list_const_mult [symmetric] comp_def case_prod_unfold)
  finally show ?case
    using commaJoin_length [of "map (\<lambda>(k, t). jsonQuote k @ '':'' @ t) (map (map_prod id stringify) ms)"] by (cases "ms = []") simp_all
next
  case (JNum t)
  then show ?case using plainNumber [of t] by auto
qed (simp_all add: jsonQuote_def)

lemma json_round_trip: "jsonPlain v \<Longrightarrow> jsonParse (stringify v) = Inr v"
  using pVal_printed [of v "2 * length (stringify v) + 2" "[]"] jsonNeed_bound [of v] by (simp add: jsonParse_def)

section \<open>Buffers and numbers\<close>

text \<open>\<open>Buffer.from(bytes).toString("base64")\<close>.\<close>

definition base64Digit :: "nat \<Rightarrow> char" where
  "base64Digit n =
     (if n < 26 then char_of (n + 65) else if n < 52 then char_of (n + 71) else if n < 62 then char_of (n - 4)
      else if n = 62 then CHR ''+'' else CHR ''/'')"

fun toBase64 :: "byte list \<Rightarrow> string" where
  "toBase64 (a # b # c # r) =
     [base64Digit (a div 4), base64Digit ((a mod 4) * 16 + b div 16), base64Digit ((b mod 16) * 4 + c div 64), base64Digit (c mod 64)]
     @ toBase64 r"
| "toBase64 [a, b] = [base64Digit (a div 4), base64Digit ((a mod 4) * 16 + b div 16), base64Digit ((b mod 16) * 4), CHR ''='']"
| "toBase64 [a] = [base64Digit (a div 4), base64Digit ((a mod 4) * 16), CHR ''='', CHR ''='']"
| "toBase64 [] = []"

text \<open>\<open>Buffer.from(text, "hex")\<close> stops at the first pair that is not hexadecimal.\<close>

fun fromHex :: "string \<Rightarrow> byte list" where
  "fromHex (a # b # r) =
     (case (digitVal 16 a, digitVal 16 b) of (Some x, Some y) \<Rightarrow> nat (x * 16 + y) # fromHex r | _ \<Rightarrow> [])"
| "fromHex _ = []"

function toDecDigits :: "nat \<Rightarrow> string" where
  "toDecDigits n = (if n < 10 then [digitChar n] else toDecDigits (n div 10) @ [digitChar (n mod 10)])"
  by pat_completeness auto
termination
  by (relation "measure id") auto

declare toDecDigits.simps [simp del]

definition bigToString :: "int \<Rightarrow> string" where
  "bigToString v = (if v < 0 then CHR ''-'' # toDecDigits (nat (- v)) else toDecDigits (nat v))"

definition bigToHex :: "int \<Rightarrow> string" where
  "bigToHex v = (if v < 0 then CHR ''-'' # toHexDigits (nat (- v)) else toHexDigits (nat v))"

lemma byte_parts: "isByte b \<Longrightarrow> b div 4 < 64 \<and> b div 16 < 16 \<and> b div 64 < 4"
  by (simp add: isByte_def less_mult_imp_div_less)

lemma sextet_parts: "isByte b \<Longrightarrow> (a mod 4) * 16 + b div 16 < 64" "isByte b \<Longrightarrow> (a mod 16) * 4 + b div 64 < 64"
  using byte_parts [of b] by linarith+

lemma base64Digit_code:
  "n < 64 \<Longrightarrow> (of_char (base64Digit n) :: nat) =
     (if n < 26 then n + 65 else if n < 52 then n + 71 else if n < 62 then n - 4 else if n = 62 then 43 else 47)"
  by (simp add: base64Digit_def)

lemma base64Digit_facts:
  assumes "n < 64"
  shows "sextet (base64Digit n) = Some n" "base64Digit n \<noteq> CHR ''=''" "plainChar (base64Digit n)"
proof -
  show "sextet (base64Digit n) = Some n" using assms by (auto simp: sextet_def Let_def base64Digit_code)
  have c: "(of_char (base64Digit n) :: nat) \<notin> {61, 34, 92}" "\<not> (of_char (base64Digit n) :: nat) < 32"
    using assms by (simp_all add: base64Digit_code, linarith+)
  show "base64Digit n \<noteq> CHR ''=''" using c(1) by auto
  show "plainChar (base64Digit n)" using c by (auto simp: plainChar_def QUOTE_def BACKSLASH_def)
qed

lemma base64_round_trip: "list_all isByte bs \<Longrightarrow> fromBase64 (toBase64 bs) = bs"
  by (induction bs rule: toBase64.induct)
    (simp_all add: fromBase64_def map_filter_simps base64Digit_facts byte_parts sextet_parts)

lemma base64_plain: "list_all isByte bs \<Longrightarrow> list_all plainChar (toBase64 bs)"
proof -
  have "plainChar CHR ''=''" by (simp add: plainChar_def QUOTE_def BACKSLASH_def)
  then show "list_all isByte bs \<Longrightarrow> list_all plainChar (toBase64 bs)"
    by (induction bs rule: toBase64.induct) (simp_all add: base64Digit_facts byte_parts sextet_parts)
qed

lemma digitChar_plain: "n < 16 \<Longrightarrow> plainChar (digitChar n)"
proof -
  have "\<forall>n\<in>set [0..<16]. plainChar (digitChar n)" by code_simp
  then show "n < 16 \<Longrightarrow> plainChar (digitChar n)" by simp
qed

lemma hex_round_trip: "list_all isByte bs \<Longrightarrow> fromHex (bytesHex bs) = bs"
proof (induction bs)
  case (Cons b bs)
  then have b: "b div 16 < 16" "b mod 16 < 16" using byte_parts [of b] by simp_all
  have "nat (int (b div 16) * 16 + int (b mod 16)) = b"
    by (metis div_mult_mod_eq nat_int of_nat_add of_nat_mult of_nat_numeral)
  then show ?case using Cons b by (simp add: bytesHex_def digitVal_digitChar del: digitChar.simps)
qed (simp add: bytesHex_def)

lemma hex_plain: "list_all isByte bs \<Longrightarrow> list_all plainChar (bytesHex bs)"
  by (induction bs) (simp_all add: bytesHex_def byte_parts digitChar_plain del: digitChar.simps)

lemma toHexDigits_plain: "list_all plainChar (toHexDigits n)"
  using toHexDigits_chars [of n] digitChar_plain by (fastforce simp: list_all_iff)

lemma decDigit: "n < 10 \<Longrightarrow> digitVal 10 (digitChar n) = Some (int n) \<and> digitVal 10 (digitChar n) \<noteq> None"
  by (auto simp: digitVal_def Let_def)

lemma digits_toDecDigits: "digits 10 0 (toDecDigits n) = Some (int n)"
proof (induction n rule: toDecDigits.induct)
  case (1 n)
  show ?case
  proof (cases "n < 10")
    case True
    then show ?thesis by (subst toDecDigits.simps) (simp add: decDigit del: digitChar.simps)
  next
    case False
    have "int (n div 10) * 10 + int (n mod 10) = int n" by (metis div_mult_mod_eq of_nat_add of_nat_mult of_nat_numeral)
    then show ?thesis
      using 1 [OF False] False by (subst toDecDigits.simps) (simp add: digits_append decDigit del: digitChar.simps)
  qed
qed

lemma toDecDigits_chars: "set (toDecDigits n) \<subseteq> digitChar ` {..<10} \<and> toDecDigits n \<noteq> []"
proof (induction n rule: toDecDigits.induct)
  case (1 n)
  then show ?case by (subst (1 2) toDecDigits.simps) (auto simp del: digitChar.simps)
qed

lemma decimal_text:
  assumes "s \<noteq> []" "set s \<subseteq> digitChar ` {..<10}"
  shows "BigIntOf s = syntaxError (digits 10 0 s)"
proof -
  have d: "\<not> isSpace c \<and> c \<noteq> CHR ''-'' \<and> c \<noteq> CHR ''+'' \<and> c \<notin> {CHR ''x'', CHR ''X'', CHR ''o'', CHR ''O'', CHR ''b'', CHR ''B''}"
    if "c \<in> set s" for c
  proof -
    have "\<forall>c\<in>set (map digitChar [0..<10]). \<not> isSpace c \<and> c \<noteq> CHR ''-'' \<and> c \<noteq> CHR ''+''
        \<and> c \<notin> {CHR ''x'', CHR ''X'', CHR ''o'', CHR ''O'', CHR ''b'', CHR ''B''}" by code_simp
    moreover have "c \<in> set (map digitChar [0..<10])" using assms(2) that by (auto simp del: digitChar.simps)
    ultimately show ?thesis by blast
  qed
  have "trim s = s" by (rule trim_id) (use assms(1) d in auto)
  moreover have "take 2 s \<noteq> CHR ''0'' # [c]" if "c \<in> {CHR ''x'', CHR ''X'', CHR ''o'', CHR ''O'', CHR ''b'', CHR ''B''}" for c
    using d [of c] that in_set_takeD [of c 2 s] by auto
  moreover have "hd s \<noteq> CHR ''-''" "hd s \<noteq> CHR ''+''" using d [of "hd s"] assms(1) by simp_all
  ultimately show ?thesis using assms(1) by (simp add: BigIntOf_def Let_def)
qed

lemma decimal_round_trip: "0 \<le> v \<Longrightarrow> BigIntOf (bigToString v) = Inr v"
  using toDecDigits_chars [of "nat v"] by (simp add: bigToString_def decimal_text digits_toDecDigits syntaxError_def getOr_def)

lemma decimal_inj: "0 \<le> v \<Longrightarrow> 0 \<le> w \<Longrightarrow> bigToString v = bigToString w \<Longrightarrow> v = w"
  by (metis decimal_round_trip sum.inject(2))

lemma decimal_plain: "0 \<le> v \<Longrightarrow> list_all plainChar (bigToString v)"
  using toDecDigits_chars [of "nat v"] by (auto simp: bigToString_def list_all_iff subset_iff simp del: digitChar.simps intro!: digitChar_plain)

lemma lead_nonzero: "0 < n \<Longrightarrow> length (toDecDigits n) = 1 \<Longrightarrow> hd (toDecDigits n) \<noteq> CHR ''0''"
proof -
  assume n: "0 < n" "length (toDecDigits n) = 1"
  have "n < 10"
  proof (rule ccontr)
    assume "\<not> n < 10"
    then have "length (toDecDigits n) = length (toDecDigits (n div 10)) + 1" by (subst toDecDigits.simps) (simp del: digitChar.simps)
    then show False using n(2) toDecDigits_chars [of "n div 10"] by simp
  qed
  then have "toDecDigits n = [digitChar n]" by (subst toDecDigits.simps) (simp del: digitChar.simps)
  moreover have "digitChar n \<noteq> CHR ''0''" using n(1) \<open>n < 10\<close> decDigit [of n] by (auto simp: digitVal_def simp del: digitChar.simps)
  ultimately show ?thesis by simp
qed

lemma decimal_number: "0 \<le> v \<Longrightarrow> jsonPlain (JNum (bigToString v))"
proof -
  assume v: "0 \<le> v"
  have d: "isDigit (digitChar n)" if "n < 10" for n
    using that decDigit [of n] by (simp add: isDigit_def del: digitChar.simps)
  have all: "list_all isDigit (toDecDigits n)" for n
    using toDecDigits_chars [of n] d by (auto simp: list_all_iff simp del: digitChar.simps)
  have lead: "hd (toDecDigits n) = CHR ''0'' \<longrightarrow> length (toDecDigits n) = 1" for n
  proof (induction n rule: toDecDigits.induct)
    case (1 n)
    show ?case
    proof (cases "n < 10")
      case False
      then have "hd (toDecDigits (n div 10)) \<noteq> CHR ''0''"
        using 1 [OF False] lead_nonzero [of "n div 10"] by (auto simp: div_greater_zero_iff)
      then show ?thesis using False toDecDigits_chars [of "n div 10"] by (subst toDecDigits.simps) (simp del: digitChar.simps)
    qed (subst toDecDigits.simps, simp del: digitChar.simps)
  qed
  have dash: "hd (toDecDigits n) \<noteq> CHR ''-''" for n
    using toDecDigits_chars [of n] all [of n] by (cases "toDecDigits n") (auto simp: isDigit_def digitVal_def)
  have tw: "takeWhile isDigit (toDecDigits n) = toDecDigits n" "dropWhile isDigit (toDecDigits n) = []" for n
    using all [of n] by (auto simp: list_all_iff takeWhile_eq_all_conv dropWhile_eq_Nil_conv)
  have "jsonNumber (toDecDigits n)" for n
    using dash [of n] lead [of n] toDecDigits_chars [of n] unfolding jsonNumber_def Let_def
    by (simp add: tw numFraction_def numExponent_def del: digitChar.simps)
  then show ?thesis using v all by (simp add: bigToString_def)
qed

lemma big_hex_round_trip: "0 \<le> v \<Longrightarrow> BigIntOf (''0x'' @ bigToHex v) = Inr v"
  using BigIntOf_printed [of v 0] by (simp add: bigToHex_def padStart0_def)

lemma big_hex_plain: "0 \<le> v \<Longrightarrow> list_all plainChar (bigToHex v)"
  by (simp add: bigToHex_def toHexDigits_plain)

lemma utf8_text: "map char_of (utf8 s) = s"
  by (simp add: utf8_def comp_def)

end
