(* ===== verification/Ceremony.thy ===== *)
theory Ceremony
  imports Dkg GroupKeys RelayClient Json Scan "HOL-Library.List_Lexorder" "HOL-Library.Char_ord"
begin

text \<open>
  The key ceremony of the command line: \<open>cli/src/crypto/seal.ts\<close>, \<open>cli/src/dkg/ceremony.ts\<close> and the group
  record of \<open>cli/src/commands/group.ts\<close>.  Members announce an identity and a box key in clear, order
  themselves by identity, deal Feldman shares in sealed boxes and aggregate what they can open.  Ed25519,
  X25519, HKDF and XChaCha20-Poly1305 are the functions of a record; drawn bytes and scalars are arguments.
  Texts are of single-byte characters, and a JSON value of another shape is a type error where it is read.
\<close>

section \<open>Sealed boxes\<close>

record boxLibs =
  edPublicKey :: "byte list \<Rightarrow> byte list"
  edSign :: "byte list \<Rightarrow> byte list \<Rightarrow> byte list"
  edVerify :: "byte list \<Rightarrow> byte list \<Rightarrow> byte list \<Rightarrow> bool result"
  edwardsToMontgomeryPriv :: "byte list \<Rightarrow> byte list"
  x25519PublicKey :: "byte list \<Rightarrow> byte list"
  x25519SharedSecret :: "byte list \<Rightarrow> byte list \<Rightarrow> byte list result"
  hkdfSha256 :: "byte list \<Rightarrow> byte list \<Rightarrow> nat \<Rightarrow> byte list"
  xcEncrypt :: "byte list \<Rightarrow> byte list \<Rightarrow> byte list \<Rightarrow> byte list"
  xcDecrypt :: "byte list \<Rightarrow> byte list \<Rightarrow> byte list \<Rightarrow> byte list result"

definition x25519FromEd25519Seed :: "boxLibs \<Rightarrow> byte list \<Rightarrow> byte list \<times> byte list" where
  "x25519FromEd25519Seed B seed =
     (let priv = edwardsToMontgomeryPriv B seed in (priv, x25519PublicKey B priv))"

definition NONCE_LEN :: nat where "NONCE_LEN = 24"
definition BOX_KEY_INFO_PREFIX :: string where "BOX_KEY_INFO_PREFIX = ''kakure.dkg.box.v1''"

definition deriveBoxKey :: "boxLibs \<Rightarrow> byte list \<Rightarrow> byte list \<Rightarrow> byte list \<Rightarrow> string \<Rightarrow> byte list" where
  "deriveBoxKey B shared senderPub recipientPub sessionId =
     hkdfSha256 B shared
       (utf8 (BOX_KEY_INFO_PREFIX @ ''|'') @ senderPub @ recipientPub @ utf8 (''|'' @ sessionId)) 32"

definition sealTo :: "boxLibs \<Rightarrow> byte list \<Rightarrow> byte list \<Rightarrow> string \<Rightarrow> byte list \<Rightarrow> byte list \<Rightarrow> byte list result" where
  "sealTo B myPriv recipientX25519Pub sessionId nonce plaintext =
     bindR (x25519SharedSecret B myPriv recipientX25519Pub) (\<lambda>shared.
     (let key = deriveBoxKey B shared (x25519PublicKey B myPriv) recipientX25519Pub sessionId
      in Inr (nonce @ xcEncrypt B key nonce plaintext)))"

definition openFrom :: "boxLibs \<Rightarrow> byte list \<Rightarrow> byte list \<Rightarrow> string \<Rightarrow> byte list \<Rightarrow> byte list result" where
  "openFrom B myPriv senderX25519Pub sessionId sealed =
     bindR (x25519SharedSecret B myPriv senderX25519Pub) (\<lambda>shared.
     (let key = deriveBoxKey B shared senderX25519Pub (x25519PublicKey B myPriv) sessionId
      in xcDecrypt B key (take NONCE_LEN sealed) (drop NONCE_LEN sealed)))"

section \<open>Messages\<close>

definition b64Json :: "json \<Rightarrow> string" where
  "b64Json v = toBase64 (utf8 (stringify v))"

definition readJson :: "string \<Rightarrow> json result" where
  "readJson ciphertext = jsonParse (map char_of (fromBase64 ciphertext))"

record announce =
  anEdPubHex :: string
  anX25519PubHex :: string
  anSig :: string

definition announceJson :: "announce \<Rightarrow> json" where
  "announceJson a = JObj [(''kind'', JStr ''announce''), (''edPubHex'', JStr (anEdPubHex a)),
     (''x25519PubHex'', JStr (anX25519PubHex a)), (''sig'', JStr (anSig a))]"

definition readAnnounce :: "json \<Rightarrow> announce result" where
  "readAnnounce v =
     bindR (jsonStr ''edPubHex'' v) (\<lambda>ed. bindR (jsonStr ''x25519PubHex'' v) (\<lambda>x. bindR (jsonStr ''sig'' v) (\<lambda>s.
     Inr \<lparr>anEdPubHex = ed, anX25519PubHex = x, anSig = s\<rparr>)))"

definition pointJson :: "point \<Rightarrow> json" where
  "pointJson p = JObj [(''x'', JStr (bigToHex (fst p))), (''y'', JStr (bigToHex (snd p)))]"

definition pointFromJson :: "json \<Rightarrow> point result" where
  "pointFromJson v =
     bindR (jsonStr ''x'' v) (\<lambda>x. bindR (jsonStr ''y'' v) (\<lambda>y.
     bindR (BigIntOf (''0x'' @ x)) (\<lambda>px. bindR (BigIntOf (''0x'' @ y)) (\<lambda>py. Inr (px, py)))))"

text \<open>The commitments and the proof are kept as they were parsed: the signature covers their text.\<close>

record innerPayload =
  inCommitments :: json
  inPop :: json
  inShare :: string
  inR :: string
  inSig :: string

definition innerJson :: "innerPayload \<Rightarrow> json" where
  "innerJson p = JObj [(''commitments'', inCommitments p), (''pop'', inPop p), (''share'', JStr (inShare p)),
     (''r'', JStr (inR p)), (''sig'', JStr (inSig p))]"

definition readInner :: "json \<Rightarrow> innerPayload result" where
  "readInner v =
     bindR (jsonField ''commitments'' v) (\<lambda>c. bindR (jsonField ''pop'' v) (\<lambda>p. bindR (jsonStr ''share'' v) (\<lambda>s.
     bindR (jsonStr ''r'' v) (\<lambda>r. bindR (jsonStr ''sig'' v) (\<lambda>g.
     Inr \<lparr>inCommitments = c, inPop = p, inShare = s, inR = r, inSig = g\<rparr>)))))"

definition commitmentsJson :: "point list \<Rightarrow> json" where
  "commitmentsJson cs = JArr (map pointJson cs)"

definition commitmentsFromJson :: "json \<Rightarrow> point list result" where
  "commitmentsFromJson v = (case v of JArr vs \<Rightarrow> mapR pointFromJson vs | _ \<Rightarrow> Inl jsonTypeError)"

definition popJson :: "schnorrPoP \<Rightarrow> json" where
  "popJson p = JObj [(''r'', pointJson (popR p)), (''z'', JStr (bigToString (popZ p)))]"

definition popFromJson :: "json \<Rightarrow> schnorrPoP result" where
  "popFromJson v =
     bindR (jsonField ''r'' v) (\<lambda>rj. bindR (pointFromJson rj) (\<lambda>R. bindR (jsonStr ''z'' v) (\<lambda>zs. bindR (BigIntOf zs) (\<lambda>z.
     Inr \<lparr>popR = R, popZ = z\<rparr>))))"

definition ANNOUNCE_DOMAIN :: string where "ANNOUNCE_DOMAIN = ''kakure.dkg1.v1''"
definition DEALER_DOMAIN :: string where "DEALER_DOMAIN = ''kakure.dkg2.v1''"

definition announceSignBytes :: "string \<Rightarrow> byte list \<Rightarrow> byte list" where
  "announceSignBytes sessionId x25519Pub = utf8 (ANNOUNCE_DOMAIN @ ''|'' @ sessionId @ ''|'') @ x25519Pub"

definition dealerSignBytes :: "string \<Rightarrow> string \<Rightarrow> json \<Rightarrow> json \<Rightarrow> byte list" where
  "dealerSignBytes sessionId dealerId commitments pop =
     (let canonical = stringify (JObj [(''sessionId'', JStr sessionId), (''dealerId'', JStr dealerId),
            (''commitments'', commitments), (''pop'', pop)])
      in utf8 (DEALER_DOMAIN @ ''|'' @ canonical))"

section \<open>Round 1\<close>

definition makeAnnounce :: "boxLibs \<Rightarrow> string \<Rightarrow> byte list \<Rightarrow> byte list \<Rightarrow> announce" where
  "makeAnnounce B sessionId seed edPub =
     (let myPub = snd (x25519FromEd25519Seed B seed) in
      \<lparr>anEdPubHex = bytesHex edPub, anX25519PubHex = bytesHex myPub,
       anSig = bytesHex (edSign B (announceSignBytes sessionId myPub) seed)\<rparr>)"

definition ofKind :: "envelopeKind \<Rightarrow> envelope list \<Rightarrow> envelope list" where
  "ofKind k all0 = filter (\<lambda>e. enKind e = k) all0"

definition readAnnounces :: "envelope list \<Rightarrow> announce list result" where
  "readAnnounces dkg1 = mapR (\<lambda>e. bindR (readJson (enCiphertext e)) readAnnounce) (ofKind Dkg1 dkg1)"

definition sigOk :: "bool result \<Rightarrow> bool" where
  "sigOk r = (case r of Inl _ \<Rightarrow> False | Inr ok \<Rightarrow> ok)"

definition announceOk :: "boxLibs \<Rightarrow> string \<Rightarrow> announce \<Rightarrow> bool" where
  "announceOk B sessionId a =
     sigOk (edVerify B (fromHex (anSig a)) (announceSignBytes sessionId (fromHex (anX25519PubHex a))) (fromHex (anEdPubHex a)))"

definition checkAnnounces :: "boxLibs \<Rightarrow> string \<Rightarrow> announce list \<Rightarrow> unit result" where
  "checkAnnounces B sessionId announces =
     foldR (\<lambda>_ a. guardR (announceOk B sessionId a) (Error ''dkg: bad announce signature'')) () announces"

definition groupAnnounces :: "announce list \<Rightarrow> (string \<times> announce) list result" where
  "groupAnnounces announces =
     foldR (\<lambda>byEdPub a.
       case map_of byEdPub (anEdPubHex a) of
         Some prior \<Rightarrow>
           if anX25519PubHex prior \<noteq> anX25519PubHex a then Inl (Error ''dkg: conflicting announce for identity'')
           else Inr (AList.update (anEdPubHex a) a byEdPub)
       | None \<Rightarrow> Inr (AList.update (anEdPubHex a) a byEdPub)) [] announces"

record roster =
  roIds :: "int list"
  roIdByEdPub :: "(string \<times> int) list"
  roX25519ByEdPub :: "(string \<times> byte list) list"
  roEdPubById :: "(int \<times> string) list"

definition assignIds :: "nat \<Rightarrow> announce list \<Rightarrow> roster result" where
  "assignIds memberCount announces =
     bindR (groupAnnounces announces) (\<lambda>byEdPub.
     (let sorted0 = sort_key anEdPubHex (map snd byEdPub);
          ids = map (\<lambda>i. int i + 1) [0..<length sorted0] in
      if length sorted0 \<noteq> memberCount then Inl (Error ''dkg: expected distinct announces'')
      else Inr \<lparr>roIds = ids, roIdByEdPub = zip (map anEdPubHex sorted0) ids,
             roX25519ByEdPub = map (\<lambda>a. (anEdPubHex a, fromHex (anX25519PubHex a))) sorted0,
             roEdPubById = zip ids (map anEdPubHex sorted0)\<rparr>))"

definition round1 :: "boxLibs \<Rightarrow> string \<Rightarrow> nat \<Rightarrow> byte list \<Rightarrow> envelope list \<Rightarrow> (roster \<times> int) result" where
  "round1 B sessionId memberCount edPub dkg1 =
     bindR (readAnnounces dkg1) (\<lambda>announces.
     bindR (checkAnnounces B sessionId announces) (\<lambda>_.
     bindR (assignIds memberCount announces) (\<lambda>ro.
     bindR (getOr (Error ''dkg: my own announce was not observed back from the coordinator'')
              (map_of (roIdByEdPub ro) (bytesHex edPub))) (\<lambda>myId.
     Inr (ro, myId)))))"

section \<open>Round 2\<close>

text \<open>What a member draws: the scalars of its polynomial and proof, its view contribution, and the nonce of
  each box by recipient.\<close>

record ceremonyDraws =
  cdScalars :: "int list"
  cdR :: "byte list"
  cdNonce :: "int \<Rightarrow> byte list"

definition sealBoxes :: "boxLibs \<Rightarrow> string \<Rightarrow> byte list \<Rightarrow> roster \<Rightarrow> (int \<rightharpoonup> int) \<Rightarrow> (int \<Rightarrow> byte list) \<Rightarrow>
    (string \<Rightarrow> innerPayload) \<Rightarrow> (string \<times> json) list result" where
  "sealBoxes B sessionId myPriv ro shares nonce inner =
     foldR (\<lambda>boxes (edPubHex, rid).
       case map_of (roX25519ByEdPub ro) edPubHex of None \<Rightarrow> Inr boxes
       | Some recipientPub \<Rightarrow>
         (case shares rid of None \<Rightarrow> Inr boxes
          | Some share \<Rightarrow>
            bindR (sealTo B myPriv recipientPub sessionId (nonce rid) (utf8 (stringify (innerJson (inner (bigToString share))))))
              (\<lambda>sealed. Inr (boxes @ [(bigToString rid, JStr (toBase64 sealed))])))) [] (roIdByEdPub ro)"

definition dealerMessageJson :: "int \<Rightarrow> byte list \<Rightarrow> (string \<times> json) list \<Rightarrow> json" where
  "dealerMessageJson myId myPub boxes =
     JObj [(''kind'', JStr ''dealer''), (''dealerId'', JStr (bigToString myId)),
       (''senderX25519PubHex'', JStr (bytesHex myPub)), (''boxes'', JObj boxes)]"

definition makeDealerMessage :: "libs \<Rightarrow> boxLibs \<Rightarrow> string \<Rightarrow> nat \<Rightarrow> int \<Rightarrow> byte list \<Rightarrow> ceremonyDraws \<Rightarrow> roster \<Rightarrow> int \<Rightarrow> json result" where
  "makeDealerMessage L B sessionId threshold context seed d ro myId =
     (let (myPriv, myPub) = x25519FromEd25519Seed B seed in
      bindR (dealerContribute L myId (roIds ro) threshold context (cdScalars d)) (\<lambda>(contribution, _).
      (let coms = commitmentsJson (dcCommitments contribution);
           pop = popJson (dcPop contribution);
           sig = bytesHex (edSign B (dealerSignBytes sessionId (bigToString myId) coms pop) seed);
           inner = (\<lambda>share. \<lparr>inCommitments = coms, inPop = pop, inShare = share, inR = bytesHex (cdR d), inSig = sig\<rparr>)
       in bindR (sealBoxes B sessionId myPriv ro (dcShares contribution) (cdNonce d) inner) (\<lambda>boxes.
          Inr (dealerMessageJson myId myPub boxes)))))"

definition readDealerMessages :: "envelope list \<Rightarrow> json list result" where
  "readDealerMessages dkg2 = mapR (\<lambda>e. readJson (enCiphertext e)) (ofKind Dkg2 dkg2)"

text \<open>One message: the contribution it carries for me and the dealer's view contribution.\<close>

definition acceptDealer :: "libs \<Rightarrow> boxLibs \<Rightarrow> string \<Rightarrow> int \<Rightarrow> byte list \<Rightarrow> roster \<Rightarrow> int \<Rightarrow> json \<Rightarrow>
    (dealerContribution \<times> byte list) result" where
  "acceptDealer L B sessionId context myPriv ro myId msg =
     bindR (jsonStr ''dealerId'' msg) (\<lambda>dealerText. bindR (BigIntOf dealerText) (\<lambda>dealerId.
     bindR (getOr (Error ''dkg: dealer message claims unknown dealer id'') (map_of (roEdPubById ro) dealerId)) (\<lambda>dealerEd.
     bindR (jsonField ''boxes'' msg) (\<lambda>boxes.
     bindR (getOr (Error ''dkg: dealer sent no box for me'') (jsonGet (bigToString myId) boxes)) (\<lambda>boxv.
     bindR (case boxv of JStr s \<Rightarrow> Inr s | _ \<Rightarrow> Inl jsonTypeError) (\<lambda>box.
     bindR (jsonStr ''senderX25519PubHex'' msg) (\<lambda>sender.
     bindR (openFrom B myPriv (fromHex sender) sessionId (fromBase64 box)) (\<lambda>opened.
     bindR (jsonParse (map char_of opened)) (\<lambda>iv. bindR (readInner iv) (\<lambda>inner.
     bindR (guardR (sigOk (edVerify B (fromHex (inSig inner))
              (dealerSignBytes sessionId dealerText (inCommitments inner) (inPop inner)) (fromHex dealerEd)))
            (Error ''dkg: bad dealer-message signature'')) (\<lambda>_.
     bindR (BigIntOf (inShare inner)) (\<lambda>myShare.
     bindR (commitmentsFromJson (inCommitments inner)) (\<lambda>coms. bindR (popFromJson (inPop inner)) (\<lambda>pop.
     (let contribution = \<lparr>dcId = dealerId, dcCommitments = coms, dcPop = pop, dcShares = [myId \<mapsto> myShare]\<rparr> in
      bindR (verifyContribution L myId contribution context) (\<lambda>ok.
      bindR (guardR ok (Error ''dkg: contribution failed verification'')) (\<lambda>_.
      Inr (contribution, fromHex (inR inner)))))))))))))))))))"

text \<open>The loop over the messages keeps every contribution and, per dealer, its last view contribution.\<close>

definition acceptDealers :: "libs \<Rightarrow> boxLibs \<Rightarrow> string \<Rightarrow> int \<Rightarrow> byte list \<Rightarrow> roster \<Rightarrow> int \<Rightarrow> json list \<Rightarrow>
    (dealerContribution list \<times> (int \<times> byte list) list) result" where
  "acceptDealers L B sessionId context myPriv ro myId msgs =
     foldR (\<lambda>(contributions, views) msg.
       bindR (acceptDealer L B sessionId context myPriv ro myId msg) (\<lambda>(c, r).
       Inr (contributions @ [c], AList.update (dcId c) r views))) ([], []) msgs"

record ceremonyResult =
  ceSession :: string
  ceMyId :: int
  ceThreshold :: nat
  ceMembers :: nat
  ceIds :: "int list"
  ceGpk :: point
  ceShare :: int
  ceCommitments :: "(int \<times> point list) list"
  ceViews :: "(int \<times> byte list) list"

definition finishCeremony :: "libs \<Rightarrow> string \<Rightarrow> nat \<Rightarrow> nat \<Rightarrow> roster \<Rightarrow> int \<Rightarrow>
    dealerContribution list \<times> (int \<times> byte list) list \<Rightarrow> ceremonyResult result" where
  "finishCeremony L sessionId threshold memberCount ro myId = (\<lambda>(contributions, views).
     bindR (aggregate L [myId] contributions) (\<lambda>r.
     bindR (getOr typeError (dkgShares r myId)) (\<lambda>share.
     Inr \<lparr>ceSession = sessionId, ceMyId = myId, ceThreshold = threshold, ceMembers = memberCount, ceIds = roIds ro,
       ceGpk = dkgC r, ceShare = share,
       ceCommitments = fold (\<lambda>c al. AList.update (dcId c) (dcCommitments c) al) contributions [], ceViews = views\<rparr>)))"

definition round2 :: "libs \<Rightarrow> boxLibs \<Rightarrow> string \<Rightarrow> nat \<Rightarrow> nat \<Rightarrow> int \<Rightarrow> byte list \<Rightarrow> roster \<Rightarrow> int \<Rightarrow> envelope list \<Rightarrow>
    ceremonyResult result" where
  "round2 L B sessionId threshold memberCount context seed ro myId dkg2 =
     bindR (readDealerMessages dkg2) (\<lambda>msgs.
     bindR (acceptDealers L B sessionId context (fst (x25519FromEd25519Seed B seed)) ro myId msgs)
       (finishCeremony L sessionId threshold memberCount ro myId))"

section \<open>The whole ceremony\<close>

record ceremonyOptions =
  coSession :: string
  coThreshold :: nat
  coMembers :: nat
  coSeed :: "byte list"
  coEdPub :: "byte list"
  coContext :: int
  coMaxRounds :: "nat option"

definition enough :: "envelopeKind \<Rightarrow> nat \<Rightarrow> envelope list \<Rightarrow> bool" where
  "enough kind n all0 \<longleftrightarrow> n \<le> length (ofKind kind all0)"

text \<open>The four calls of the client, each on its own network behaviour.\<close>

definition runDkgCeremony :: "libs \<Rightarrow> boxLibs \<Rightarrow> (nat \<Rightarrow> clientNet) \<Rightarrow> seqGuesses \<Rightarrow> ceremonyOptions \<Rightarrow> ceremonyDraws \<Rightarrow>
    ceremonyResult result" where
  "runDkgCeremony L B net guess o0 d =
     (let sid = coSession o0; n = coMembers o0;
          announce = makeAnnounce B sid (coSeed o0) (coEdPub o0);
          (posted1, guess1) = appendNext (net 0) guess sid Dkg1 (b64Json (announceJson announce)) None in
      bindR posted1 (\<lambda>_.
      bindR (collectUntil (net 1) (enough Dkg1 n) (coMaxRounds o0) None) (\<lambda>dkg1.
      bindR (round1 B sid n (coEdPub o0) dkg1) (\<lambda>(ro, myId).
      bindR (makeDealerMessage L B sid (coThreshold o0) (coContext o0) (coSeed o0) d ro myId) (\<lambda>msg.
      bindR (fst (appendNext (net 2) guess1 sid Dkg2 (b64Json msg) None)) (\<lambda>_.
      bindR (collectUntil (net 3) (enough Dkg2 n) (coMaxRounds o0) None) (\<lambda>dkg2.
      round2 L B sid (coThreshold o0) n (coContext o0) (coSeed o0) ro myId dkg2)))))))"

section \<open>The group record\<close>

definition sessionContext :: "libs \<Rightarrow> string \<Rightarrow> int result" where
  "sessionContext L sessionId =
     (let acc = bytesBE (fromHex sessionId) in
      bindR (newFr L (acc smod 2 ^ 251)) (\<lambda>f. Poseidon_hash L [f]))"

definition groupView :: "libs \<Rightarrow> ceremonyResult \<Rightarrow> (int \<times> groupViewKey) result" where
  "groupView L res =
     (let contribs = map (\<lambda>(i, r). \<lparr>gcIndex = i, gcR = r\<rparr>) (ceViews res) in
      bindR (combineGroupViewContributions L contribs (ceGpk res)) (\<lambda>gvs.
      bindR (deriveGroupViewKeyFromSecret L gvs (ceGpk res)) (\<lambda>k. Inr (gvs, k))))"

text \<open>\<open>Fr.toString()\<close> prints 64 hexadecimal digits after \<open>0x\<close>, \<open>toString()\<close> of a \<open>bigint\<close> decimal digits.\<close>

record groupRecord =
  grSession :: string
  grThreshold :: nat
  grMembers :: nat
  grMyId :: string
  grIds :: "string list"
  grGpk :: "string \<times> string"
  grShare :: string
  grGvs :: string
  grV :: string
  grViewPub :: "string \<times> string"
  grRoll :: string
  grCommitments :: "(string \<times> (string \<times> string) list) list"

definition pointHexPair :: "point \<Rightarrow> string \<times> string" where
  "pointHexPair p = (bigToHex (fst p), bigToHex (snd p))"

definition runGroupCeremony :: "libs \<Rightarrow> boxLibs \<Rightarrow> (nat \<Rightarrow> clientNet) \<Rightarrow> string \<Rightarrow> nat \<Rightarrow> nat \<Rightarrow> byte list \<Rightarrow> byte list \<Rightarrow>
    nat option \<Rightarrow> ceremonyDraws \<Rightarrow> groupRecord result" where
  "runGroupCeremony L B net sessionId threshold memberCount secretKey edPub maxRounds d =
     bindR (sessionContext L sessionId) (\<lambda>context.
     bindR (runDkgCeremony L B net Map.empty
              \<lparr>coSession = sessionId, coThreshold = threshold, coMembers = memberCount, coSeed = take 32 secretKey,
               coEdPub = edPub, coContext = context, coMaxRounds = maxRounds\<rparr> d) (\<lambda>res.
     bindR (groupView L res) (\<lambda>(gvs, k).
     Inr \<lparr>grSession = sessionId, grThreshold = threshold, grMembers = memberCount, grMyId = bigToString (ceMyId res),
       grIds = map bigToString (ceIds res), grGpk = pointHexPair (ceGpk res), grShare = bigToString (ceShare res),
       grGvs = hex32 gvs, grV = hex32 (gvV k), grViewPub = pointHexPair (gvPub k), grRoll = bigToString (gvRoll k),
       grCommitments = map (\<lambda>(i, cs). (bigToString i, map pointHexPair cs)) (ceCommitments res)\<rparr>)))"

section \<open>The roster\<close>

definition keyedTo :: "announce list \<Rightarrow> (string \<times> announce) list \<Rightarrow> bool" where
  "keyedTo as be \<longleftrightarrow> distinct (map fst be)
    \<and> (\<forall>k a. map_of be k = Some a \<longrightarrow> anEdPubHex a = k \<and> a \<in> set as)
    \<and> (\<forall>a\<in>set as. \<exists>b. map_of be (anEdPubHex a) = Some b \<and> anX25519PubHex b = anX25519PubHex a)"

definition consistent :: "announce list \<Rightarrow> bool" where
  "consistent as \<longleftrightarrow> (\<forall>a\<in>set as. \<forall>b\<in>set as. anEdPubHex a = anEdPubHex b \<longrightarrow> anX25519PubHex a = anX25519PubHex b)"

lemma keyedTo_entry: "keyedTo as be \<Longrightarrow> map_of be k = Some a \<Longrightarrow> anEdPubHex a = k \<and> a \<in> set as"
  unfolding keyedTo_def by (elim conjE allE [of _ k] allE [of _ a]) simp

lemma keyedTo_member: "keyedTo as be \<Longrightarrow> a \<in> set as \<Longrightarrow> \<exists>b. map_of be (anEdPubHex a) = Some b \<and> anX25519PubHex b = anX25519PubHex a"
  unfolding keyedTo_def by (elim conjE) (rule bspec)

lemma keyedTo_update:
  assumes k: "keyedTo as be" and c: "\<And>p. map_of be (anEdPubHex a) = Some p \<Longrightarrow> anX25519PubHex p = anX25519PubHex a"
  shows "keyedTo (as @ [a]) (AList.update (anEdPubHex a) a be)"
proof -
  have "\<exists>b'. map_of (AList.update (anEdPubHex a) a be) (anEdPubHex b) = Some b' \<and> anX25519PubHex b' = anX25519PubHex b"
    if "b \<in> set (as @ [a])" for b
  proof (cases "anEdPubHex b = anEdPubHex a")
    case True
    then show ?thesis using that k c by (auto simp: update_conv' keyedTo_def)
  next
    case False
    then show ?thesis using that k by (auto simp: update_conv' keyedTo_def)
  qed
  then show ?thesis using k by (auto simp: keyedTo_def update_conv' distinct_update split: if_splits)
qed

lemma groupAnnounces_keyed: "groupAnnounces as = Inr be \<Longrightarrow> keyedTo as be"
proof (induction as arbitrary: be rule: rev_induct)
  case Nil
  then show ?case by (simp add: groupAnnounces_def keyedTo_def)
next
  case (snoc a as)
  from snoc.prems obtain b0 where b0: "groupAnnounces as = Inr b0"
    by (cases "groupAnnounces as") (simp_all add: groupAnnounces_def foldR_append)
  have step: "be = AList.update (anEdPubHex a) a b0"
      "\<And>p. map_of b0 (anEdPubHex a) = Some p \<Longrightarrow> anX25519PubHex p = anX25519PubHex a"
    using snoc.prems b0 by (auto simp: groupAnnounces_def foldR_append split: option.splits if_splits)
  show ?case unfolding step(1) by (rule keyedTo_update [OF snoc.IH [OF b0] step(2)])
qed

lemma keyedTo_consistent: "keyedTo as be \<Longrightarrow> consistent as"
  unfolding consistent_def
proof (intro ballI impI)
  fix a b
  assume k: "keyedTo as be" and m: "a \<in> set as" "b \<in> set as" "anEdPubHex a = anEdPubHex b"
  obtain p where p: "map_of be (anEdPubHex a) = Some p" "anX25519PubHex p = anX25519PubHex a" using k m(1) by (auto simp: keyedTo_def)
  obtain q where q: "map_of be (anEdPubHex b) = Some q" "anX25519PubHex q = anX25519PubHex b" using k m(2) by (auto simp: keyedTo_def)
  show "anX25519PubHex a = anX25519PubHex b" using p q m(3) by simp
qed

lemma consistent_mono: "consistent bs \<Longrightarrow> set as \<subseteq> set bs \<Longrightarrow> consistent as"
  unfolding consistent_def by blast

lemma consistentD: "consistent as \<Longrightarrow> a \<in> set as \<Longrightarrow> b \<in> set as \<Longrightarrow> anEdPubHex a = anEdPubHex b \<Longrightarrow> anX25519PubHex a = anX25519PubHex b"
  unfolding consistent_def by blast

lemma groupAnnounces_total: "consistent as \<Longrightarrow> \<exists>be. groupAnnounces as = Inr be"
proof (induction as rule: rev_induct)
  case (snoc a as)
  have "consistent as" by (rule consistent_mono [OF snoc.prems]) auto
  then obtain b0 where b0: "groupAnnounces as = Inr b0" using snoc.IH by blast
  have "anX25519PubHex p = anX25519PubHex a" if "map_of b0 (anEdPubHex a) = Some p" for p
  proof -
    have p: "anEdPubHex p = anEdPubHex a" "p \<in> set as" using keyedTo_entry [OF groupAnnounces_keyed [OF b0] that] by simp_all
    then show ?thesis by (intro consistentD [OF snoc.prems]) simp_all
  qed
  then show ?case using b0 by (cases "map_of b0 (anEdPubHex a)") (simp_all add: groupAnnounces_def foldR_append)
qed (simp add: groupAnnounces_def)

definition identities :: "announce list \<Rightarrow> string list" where
  "identities as = sorted_list_of_set (anEdPubHex ` set as)"

definition rosterOf :: "string list \<Rightarrow> (string \<Rightarrow> byte list) \<Rightarrow> roster" where
  "rosterOf eds key =
     (let ids = map (\<lambda>i. int i + 1) [0..<length eds] in
      \<lparr>roIds = ids, roIdByEdPub = zip eds ids, roX25519ByEdPub = map (\<lambda>e. (e, key e)) eds, roEdPubById = zip ids eds\<rparr>)"

lemma keyed_sorted:
  assumes "keyedTo as be"
  shows "map anEdPubHex (sort_key anEdPubHex (map snd be)) = identities as" "set (map snd be) \<subseteq> set as"
proof -
  have k: "anEdPubHex a = k \<and> a \<in> set as" if "(k, a) \<in> set be" for k a
    by (rule keyedTo_entry [OF assms]) (use assms that in \<open>simp add: keyedTo_def\<close>)
  have m: "map anEdPubHex (map snd be) = map fst be"
    unfolding map_map comp_def by (rule map_cong [OF refl]) (use k in force)
  have "set (map fst be) = anEdPubHex ` set as"
  proof
    show "set (map fst be) \<subseteq> anEdPubHex ` set as" using k by force
    show "anEdPubHex ` set as \<subseteq> set (map fst be)"
    proof
      fix e
      assume "e \<in> anEdPubHex ` set as"
      then obtain a where "a \<in> set as" "e = anEdPubHex a" by blast
      then obtain b where "map_of be e = Some b" using keyedTo_member [OF assms] by blast
      then show "e \<in> set (map fst be)" by (force dest: map_of_SomeD)
    qed
  qed
  moreover have "mset (map anEdPubHex (sort_key anEdPubHex (map snd be))) = mset (map fst be)"
    unfolding m [symmetric] by (simp only: mset_map mset_sort)
  then have "distinct (map anEdPubHex (sort_key anEdPubHex (map snd be)))"
      "set (map anEdPubHex (sort_key anEdPubHex (map snd be))) = set (map fst be)"
    using assms mset_eq_imp_distinct_iff mset_eq_setD unfolding keyedTo_def by blast+
  ultimately show "map anEdPubHex (sort_key anEdPubHex (map snd be)) = identities as"
    unfolding identities_def by (intro sorted_distinct_set_unique) simp_all
  show "set (map snd be) \<subseteq> set as" using k by force
qed

lemma assignIds_Inr:
  assumes "assignIds n as = Inr ro" and key: "\<And>a. a \<in> set as \<Longrightarrow> key (anEdPubHex a) = fromHex (anX25519PubHex a)"
  shows "consistent as \<and> length (identities as) = n \<and> ro = rosterOf (identities as) key"
proof -
  from assms(1) obtain by0 where b: "groupAnnounces as = Inr by0"
    by (cases "groupAnnounces as") (simp_all add: assignIds_def)
  note kd = groupAnnounces_keyed [OF b]
  let ?s = "sort_key anEdPubHex (map snd by0)"
  have len: "length ?s = length (identities as)" using arg_cong [OF keyed_sorted(1) [OF kd], of length] by simp
  have "map (\<lambda>a. (anEdPubHex a, fromHex (anX25519PubHex a))) ?s = map (\<lambda>e. (e, key e)) (map anEdPubHex ?s)"
    unfolding map_map comp_def using keyed_sorted(2) [OF kd] key by (intro map_cong) auto
  then show ?thesis
    using assms(1) b len keyedTo_consistent [OF kd]
    by (auto simp: assignIds_def Let_def rosterOf_def keyed_sorted(1) [OF kd] simp del: map_map split: if_splits)
qed

lemma assignIds_total:
  assumes "consistent as" "length (identities as) = n"
  shows "\<exists>ro. assignIds n as = Inr ro"
proof -
  obtain by0 where b: "groupAnnounces as = Inr by0" using groupAnnounces_total [OF assms(1)] by blast
  have "length (sort_key anEdPubHex (map snd by0)) = length (identities as)"
    using arg_cong [OF keyed_sorted(1) [OF groupAnnounces_keyed [OF b]], of length] by simp
  then show ?thesis using assms(2) b by (simp add: assignIds_def Let_def)
qed

lemma consistent_key: "consistent as \<Longrightarrow> \<exists>key. \<forall>a\<in>set as. key (anEdPubHex a) = fromHex (anX25519PubHex a)"
proof -
  assume c: "consistent as"
  let ?key = "\<lambda>e. fromHex (anX25519PubHex (hd (filter (\<lambda>a. anEdPubHex a = e) as)))"
  have "?key (anEdPubHex a) = fromHex (anX25519PubHex a)" if "a \<in> set as" for a
  proof -
    have "filter (\<lambda>b. anEdPubHex b = anEdPubHex a) as \<noteq> []" using that by (auto simp: filter_empty_conv)
    then have "hd (filter (\<lambda>b. anEdPubHex b = anEdPubHex a) as) \<in> set (filter (\<lambda>b. anEdPubHex b = anEdPubHex a) as)" by (rule hd_in_set)
    then have m: "hd (filter (\<lambda>b. anEdPubHex b = anEdPubHex a) as) \<in> set as"
        "anEdPubHex (hd (filter (\<lambda>b. anEdPubHex b = anEdPubHex a) as)) = anEdPubHex a" by simp_all
    have "anX25519PubHex (hd (filter (\<lambda>b. anEdPubHex b = anEdPubHex a) as)) = anX25519PubHex a"
      by (rule consistentD [OF c m(1) that m(2)])
    then show ?thesis by simp
  qed
  then show ?thesis by (intro exI [of _ ?key]) blast
qed

lemma assignIds_consistent: "assignIds n as = Inr ro \<Longrightarrow> consistent as"
  using groupAnnounces_keyed keyedTo_consistent by (cases "groupAnnounces as") (fastforce simp: assignIds_def)+

lemma assignIds_agree:
  assumes a: "assignIds n as = Inr r1" and b: "assignIds n bs = Inr r2" and sub: "set as \<subseteq> set bs"
  shows "r1 = r2"
proof -
  obtain key where key: "\<forall>a\<in>set bs. key (anEdPubHex a) = fromHex (anX25519PubHex a)"
    using consistent_key [OF assignIds_consistent [OF b]] by blast
  have r2: "length (identities bs) = n \<and> r2 = rosterOf (identities bs) key" using assignIds_Inr [OF b, of key] key by blast
  have r1: "length (identities as) = n \<and> r1 = rosterOf (identities as) key" using assignIds_Inr [OF a, of key] key sub by blast
  have "anEdPubHex ` set as = anEdPubHex ` set bs"
    by (rule card_subset_eq) (use sub r1 r2 in \<open>auto simp: identities_def\<close>)
  then show ?thesis using r1 r2 by (simp add: identities_def)
qed

lemma mapR_append: "mapR f (xs @ ys) = bindR (mapR f xs) (\<lambda>as. bindR (mapR f ys) (\<lambda>bs. Inr (as @ bs)))"
proof (induction xs)
  case Nil
  show ?case by (cases "mapR f ys") simp_all
next
  case (Cons x xs)
  then show ?case by (cases "f x"; cases "mapR f xs"; cases "mapR f ys") simp_all
qed

lemma readAnnounces_prefix:
  assumes "prefix es es'" "readAnnounces es = Inr as" "readAnnounces es' = Inr bs"
  shows "set as \<subseteq> set bs"
proof -
  obtain rest where "es' = es @ rest" using assms(1) by (auto simp: prefix_def)
  then show ?thesis using assms(2,3)
    by (auto simp: readAnnounces_def ofKind_def mapR_append
      elim!: bindR.elims)
qed

lemma checkAnnounces_Inr: "checkAnnounces B sid as = Inr u \<longleftrightarrow> (\<forall>a\<in>set as. announceOk B sid a)"
  by (induction as) (auto simp: checkAnnounces_def guardR_def)

lemma round1_Inr:
  assumes "round1 B sid n pub es = Inr (ro, i)"
  shows "\<exists>as. readAnnounces es = Inr as \<and> (\<forall>a\<in>set as. announceOk B sid a) \<and> assignIds n as = Inr ro
    \<and> map_of (roIdByEdPub ro) (bytesHex pub) = Some i"
proof -
  obtain as where a: "readAnnounces es = Inr as" using assms by (cases "readAnnounces es") (simp_all add: round1_def)
  obtain u where u: "checkAnnounces B sid as = Inr u" using assms a by (cases "checkAnnounces B sid as") (simp_all add: round1_def)
  obtain r where r: "assignIds n as = Inr r" using assms a u by (cases "assignIds n as") (simp_all add: round1_def)
  show ?thesis using assms a u r checkAnnounces_Inr [of B sid as u]
    by (cases "map_of (roIdByEdPub r) (bytesHex pub)") (auto simp: round1_def getOr_def)
qed

lemma rosterOf_id_inj:
  assumes "map_of (roIdByEdPub (rosterOf eds key)) e = Some i" "map_of (roIdByEdPub (rosterOf eds key)) f = Some j"
  shows "i = j \<longleftrightarrow> e = f"
proof -
  have "\<exists>k<length eds. eds ! k = x \<and> int k + 1 = m" if "map_of (roIdByEdPub (rosterOf eds key)) x = Some m" for x m
    using map_of_SomeD [OF that] by (auto simp: rosterOf_def Let_def set_zip)
  from this [OF assms(1)] this [OF assms(2)] obtain k l where "eds ! k = e" "int k + 1 = i" "eds ! l = f" "int l + 1 = j" by blast
  moreover have "i = j" if "e = f" using assms that by simp
  ultimately show ?thesis by auto
qed

section \<open>What a member accepts\<close>

text \<open>The dealer of a contribution: the identity that the roster assigns to its number signed the session,
  the number and the parsed commitments and proof.\<close>

definition dealerSigned :: "boxLibs \<Rightarrow> string \<Rightarrow> roster \<Rightarrow> dealerContribution \<Rightarrow> bool" where
  "dealerSigned B sid ro c \<longleftrightarrow>
     (\<exists>ed t coms pop sig. map_of (roEdPubById ro) (dcId c) = Some ed \<and> BigIntOf t = Inr (dcId c)
        \<and> edVerify B sig (dealerSignBytes sid t coms pop) (fromHex ed) = Inr True
        \<and> commitmentsFromJson coms = Inr (dcCommitments c) \<and> popFromJson pop = Inr (dcPop c))"

lemma sigOk_Inr: "sigOk r \<longleftrightarrow> r = Inr True"
  by (cases r) (auto simp: sigOk_def)

lemma acceptDealer_Inr:
  assumes "acceptDealer L B sid context priv ro myId msg = Inr (c, r)"
  shows "dealerSigned B sid ro c \<and> verifyContribution L myId c context = Inr True"
  using assms unfolding acceptDealer_def bindR_eq_Inr guardR_eq_Inr getOr_eq_Inr Let_def sigOk_Inr dealerSigned_def
  by (elim exE conjE, simp only: sum.inject prod.inject, elim conjE, hypsubst, intro conjI exI)
    (simp only: dealerContribution.select_convs; assumption)+

lemma list_all2_right: "list_all2 P xs ys \<Longrightarrow> y \<in> set ys \<Longrightarrow> \<exists>x. P x y"
  by (auto simp: list_all2_conv_all_nth in_set_conv_nth)

lemma acceptDealers_Inr:
  assumes "acceptDealers L B sid context priv ro myId msgs = Inr (cs, views)"
  shows "list_all2 (\<lambda>msg c. \<exists>r. acceptDealer L B sid context priv ro myId msg = Inr (c, r)) msgs cs"
  using assms
proof (induction msgs arbitrary: cs views rule: rev_induct)
  case (snoc m msgs)
  then obtain cs0 v0 where c0: "acceptDealers L B sid context priv ro myId msgs = Inr (cs0, v0)"
    by (cases "acceptDealers L B sid context priv ro myId msgs") (auto simp: acceptDealers_def foldR_append)
  then obtain c r where "acceptDealer L B sid context priv ro myId m = Inr (c, r)" "cs = cs0 @ [c]"
    using snoc.prems by (cases "acceptDealer L B sid context priv ro myId m") (auto simp: acceptDealers_def foldR_append)
  then show ?case using snoc.IH [OF c0] by (auto intro!: list_all2_appendI)
qed (simp add: acceptDealers_def)

lemma verified_share:
  assumes "verifyContribution L i c context = Inr True"
  shows "\<exists>s. dcShares c i = Some s \<and> scalarBaseMul L s = publicShareAt L i (dcCommitments c) \<and> dcCommitments c \<noteq> []"
  using assms by (auto simp: verifyContribution_def feldmanVerifyShare_public split: option.splits if_splits)

lemma aggregateShare_verified:
  assumes L: "bjj_laws L" and v: "\<forall>c\<in>set cs. verifyContribution L i c context = Inr True"
  shows "\<exists>s. aggregateShare L cs i = Inr s \<and> scalarBaseMul L s = aggregatePublicShareAt L i (map dcCommitments cs)"
  using v
proof (induction cs rule: rev_induct)
  case Nil
  then show ?case by (simp add: aggregateShare_def aggregatePublicShareAt_def scalarBaseMul_def scalarMul_0 [OF L bjj_base [OF L]])
next
  case (snoc c cs)
  then obtain s where s: "aggregateShare L cs i = Inr s" "scalarBaseMul L s = aggregatePublicShareAt L i (map dcCommitments cs)" by auto
  obtain x where x: "dcShares c i = Some x" "scalarBaseMul L x = publicShareAt L i (dcCommitments c)"
    using verified_share snoc.prems by (metis in_set_conv_decomp)
  have "scalarBaseMul L ((s + x) mod subOrder L) = pointAdd L (scalarBaseMul L s) (scalarBaseMul L x)"
    by (simp add: scalarBaseMul_def scalarMul_mod [OF L] bjj_smul_add [OF L bjj_base [OF L]])
  then show ?case using s x L by (simp add: aggregateShare_def foldR_append aggregatePublicShareAt_def)
qed

lemma aggregate_single: "aggregate L [i] cs = Inr r \<Longrightarrow> aggregateKey L cs = Inr (dkgC r) \<and> (\<exists>s. aggregateShare L cs i = Inr s \<and> dkgShares r i = Some s)"
  by (cases "aggregateKey L cs"; cases "aggregateShare L cs i") (auto simp: aggregate_def)

lemma commitments_distinct:
  "distinct (map fst xs) \<Longrightarrow> fold (\<lambda>(k, v) al. AList.update k v al) xs [] = xs"
proof (induction xs rule: rev_induct)
  case (snoc x xs)
  then show ?case by (cases x) (auto simp: update_fresh)
qed simp


end
