(* ===== verification/Proposal.thy ===== *)
theory Proposal
  imports Ceremony FrostSigning
begin

text \<open>
  Spending by proposal: \<open>cli/src/crypto/sessionSeal.ts\<close> (one symmetric key per session, from the group's view
  secret), \<open>cli/src/proposal/proposal.ts\<close> (a proposal, the nonces and shares of its signers, and the
  aggregation, all as sealed envelopes on the relay) and the order of steps of \<open>proposal/execute.ts\<close>.
  A parsed payload is a JSON value; drawn bytes are arguments.
\<close>

section \<open>The session seal\<close>

definition SESSION_KEY_INFO_PREFIX :: string where "SESSION_KEY_INFO_PREFIX = ''kakure.coordinator.session.v1''"

definition deriveSessionKey :: "boxLibs \<Rightarrow> byte list \<Rightarrow> string \<Rightarrow> byte list" where
  "deriveSessionKey B gvs sessionId = hkdfSha256 B gvs (utf8 (SESSION_KEY_INFO_PREFIX @ ''|'' @ sessionId)) 32"

definition gvsDecimalToBytes :: "string \<Rightarrow> byte list result" where
  "gvsDecimalToBytes gvsDecimal = bindR (BigIntOf gvsDecimal) (\<lambda>v. Inr (fromHex (padStart0 64 (bigToHex v))))"

definition deriveSessionKeyFromGvsDecimal :: "boxLibs \<Rightarrow> string \<Rightarrow> string \<Rightarrow> byte list result" where
  "deriveSessionKeyFromGvsDecimal B gvsDecimal sessionId =
     bindR (gvsDecimalToBytes gvsDecimal) (\<lambda>gvs. Inr (deriveSessionKey B gvs sessionId))"

definition sealSession :: "boxLibs \<Rightarrow> byte list \<Rightarrow> byte list \<Rightarrow> byte list \<Rightarrow> byte list" where
  "sealSession B sessionKey nonce plaintext = nonce @ xcEncrypt B sessionKey nonce plaintext"

definition openSession :: "boxLibs \<Rightarrow> byte list \<Rightarrow> byte list \<Rightarrow> byte list result" where
  "openSession B sessionKey sealed = xcDecrypt B sessionKey (take NONCE_LEN sealed) (drop NONCE_LEN sealed)"

definition sealSessionJson :: "boxLibs \<Rightarrow> byte list \<Rightarrow> byte list \<Rightarrow> json \<Rightarrow> string" where
  "sealSessionJson B sessionKey nonce v = toBase64 (sealSession B sessionKey nonce (utf8 (stringify v)))"

definition openSessionJson :: "boxLibs \<Rightarrow> byte list \<Rightarrow> string \<Rightarrow> json result" where
  "openSessionJson B sessionKey ciphertext =
     bindR (openSession B sessionKey (fromBase64 ciphertext)) (\<lambda>plaintext. jsonParse (map char_of plaintext))"

section \<open>Payloads\<close>

record proposalPayload =
  ppKind :: string
  ppId :: string
  ppMessageHex :: string
  ppDetails :: json

definition proposalJson :: "proposalPayload \<Rightarrow> json" where
  "proposalJson p = JObj [(''kind'', JStr (ppKind p)), (''proposalId'', JStr (ppId p)),
     (''messageHex'', JStr (ppMessageHex p)), (''details'', ppDetails p)]"

definition nonceJson :: "string \<Rightarrow> point commitment \<Rightarrow> json" where
  "nonceJson proposalId c = JObj [(''proposalId'', JStr proposalId), (''id'', JStr (bigToString (cId c))),
     (''D'', pointJson (cD c)), (''E'', pointJson (cE c))]"

definition commitmentFromJson :: "json \<Rightarrow> point commitment result" where
  "commitmentFromJson p =
     bindR (jsonStr ''id'' p) (\<lambda>t. bindR (BigIntOf t) (\<lambda>i.
     bindR (jsonField ''D'' p) (\<lambda>dj. bindR (pointFromJson dj) (\<lambda>D.
     bindR (jsonField ''E'' p) (\<lambda>ej. bindR (pointFromJson ej) (\<lambda>E.
     Inr \<lparr>cId = i, cD = D, cE = E\<rparr>))))))"

definition shareJson :: "string \<Rightarrow> int \<Rightarrow> int \<Rightarrow> json" where
  "shareJson proposalId i z =
     JObj [(''proposalId'', JStr proposalId), (''id'', JStr (bigToString i)), (''z'', JStr (bigToString z))]"

text \<open>The public share is looked up under the text of the identifier.\<close>

definition shareFromJson :: "(string \<rightharpoonup> point) \<Rightarrow> json \<Rightarrow> point partialSig result" where
  "shareFromJson publicShares p =
     bindR (jsonStr ''id'' p) (\<lambda>t.
     bindR (getOr (Error ''aggregateProposal: no known public share for signer'') (publicShares t)) (\<lambda>V.
     bindR (BigIntOf t) (\<lambda>i. bindR (jsonStr ''z'' p) (\<lambda>zt. bindR (BigIntOf zt) (\<lambda>z.
     Inr \<lparr>pId = i, pZ = z, pPublicShare = V\<rparr>)))))"

section \<open>Reading a session\<close>

definition matchesProposal :: "boxLibs \<Rightarrow> byte list \<Rightarrow> string \<Rightarrow> envelope \<Rightarrow> bool" where
  "matchesProposal B key proposalId e \<longleftrightarrow> enKind e = Proposal \<and>
     (case openSessionJson B key (enCiphertext e) of Inl _ \<Rightarrow> False
      | Inr v \<Rightarrow> jsonGet ''proposalId'' v = Some (JStr proposalId))"

definition findProposal :: "boxLibs \<Rightarrow> byte list \<Rightarrow> string \<Rightarrow> envelope list \<Rightarrow> json result" where
  "findProposal B key proposalId all0 =
     (case find (matchesProposal B key proposalId) all0 of
        None \<Rightarrow> Inl (Error ''proposal not found on session'')
      | Some e \<Rightarrow> openSessionJson B key (enCiphertext e))"

definition fetchProposal :: "boxLibs \<Rightarrow> clientNet \<Rightarrow> byte list \<Rightarrow> string \<Rightarrow> json result" where
  "fetchProposal B net key proposalId =
     bindR (collectUntil net (\<lambda>envs. list_ex (matchesProposal B key proposalId) envs) (Some 1) None)
       (findProposal B key proposalId)"

text \<open>The payloads of one kind for one proposal, keyed by their \<open>id\<close>; a later one replaces an earlier one in
  its place.  An envelope that does not open is skipped; reading a property of \<open>null\<close> throws.\<close>

definition decodeUnique :: "boxLibs \<Rightarrow> byte list \<Rightarrow> envelopeKind \<Rightarrow> string \<Rightarrow> envelope list \<Rightarrow> json list result" where
  "decodeUnique B key kind proposalId envs =
     bindR (foldR (\<lambda>byId e.
       if enKind e \<noteq> kind then Inr byId
       else case openSessionJson B key (enCiphertext e) of Inl _ \<Rightarrow> Inr byId
         | Inr parsed \<Rightarrow>
           if parsed = JNull then Inl jsonTypeError
           else if jsonGet ''proposalId'' parsed \<noteq> Some (JStr proposalId) then Inr byId
           else Inr (AList.update (jsonGet ''id'' parsed) parsed byId)) [] envs)
     (\<lambda>byId. Inr (map snd byId))"

text \<open>The condition of a collection; when counting throws, so does the read that follows.\<close>

definition enoughFor :: "boxLibs \<Rightarrow> byte list \<Rightarrow> envelopeKind \<Rightarrow> string \<Rightarrow> nat \<Rightarrow> envelope list \<Rightarrow> bool" where
  "enoughFor B key kind proposalId threshold envs \<longleftrightarrow>
     (case decodeUnique B key kind proposalId envs of Inl _ \<Rightarrow> True | Inr ps \<Rightarrow> threshold \<le> length ps)"

definition readCommitments :: "boxLibs \<Rightarrow> byte list \<Rightarrow> string \<Rightarrow> envelope list \<Rightarrow> point commitment list result" where
  "readCommitments B key proposalId envs =
     bindR (decodeUnique B key Nonce proposalId envs) (mapR commitmentFromJson)"

definition readShares :: "boxLibs \<Rightarrow> byte list \<Rightarrow> string \<Rightarrow> (string \<rightharpoonup> point) \<Rightarrow> envelope list \<Rightarrow> point partialSig list result" where
  "readShares B key proposalId publicShares envs =
     bindR (decodeUnique B key Share proposalId envs) (mapR (shareFromJson publicShares))"

definition proposalMessage :: "json \<Rightarrow> byte list result" where
  "proposalMessage proposal = bindR (jsonStr ''messageHex'' proposal) (\<lambda>h. bindR (BigIntOf h) (\<lambda>m. Inr (encodeMessage m)))"

section \<open>Signing\<close>

record signOptions =
  soSession :: string
  soKey :: "byte list"
  soProposal :: string
  soMyId :: int
  soShare :: int
  soGpk :: point
  soThreshold :: nat
  soMaxRounds :: "nat option"

record signDraws =
  sdHiding :: "byte list"
  sdBinding :: "byte list"
  sdNonce1 :: "byte list"
  sdNonce2 :: "byte list"

text \<open>The share over the collected commitments; the handle is consumed by the call and not used again.\<close>

definition shareOver :: "libs \<Rightarrow> signOptions \<Rightarrow> nonceHandle \<Rightarrow> byte list \<Rightarrow> point commitment list \<Rightarrow> int result" where
  "shareOver L o0 nonces message commitments =
     snd (signShare (bjjCiphersuite L) (soMyId o0) nonces (soShare o0) (soGpk o0) message commitments)"

definition createProposal :: "boxLibs \<Rightarrow> clientNet \<Rightarrow> seqGuesses \<Rightarrow> string \<Rightarrow> byte list \<Rightarrow> byte list \<Rightarrow> proposalPayload \<Rightarrow>
    envelope result \<times> seqGuesses" where
  "createProposal B net guess sessionId key nonce payload =
     appendNext net guess sessionId Proposal (sealSessionJson B key nonce (proposalJson payload)) None"

definition signProposal :: "libs \<Rightarrow> boxLibs \<Rightarrow> (nat \<Rightarrow> clientNet) \<Rightarrow> seqGuesses \<Rightarrow> signOptions \<Rightarrow> signDraws \<Rightarrow> envelope result" where
  "signProposal L B net guess o0 d =
     bindR (fetchProposal B (net 0) (soKey o0) (soProposal o0)) (\<lambda>proposal.
     bindR (proposalMessage proposal) (\<lambda>message.
     bindR (commit (bjjCiphersuite L) (soMyId o0) (soShare o0) (sdHiding d) (sdBinding d)) (\<lambda>(nonces, commitment).
     (let (posted, guess1) = appendNext (net 1) guess (soSession o0) Nonce
            (sealSessionJson B (soKey o0) (sdNonce1 d) (nonceJson (soProposal o0) commitment)) None in
      bindR posted (\<lambda>_.
      bindR (collectUntil (net 2) (enoughFor B (soKey o0) Nonce (soProposal o0) (soThreshold o0)) (soMaxRounds o0) None) (\<lambda>envs.
      bindR (readCommitments B (soKey o0) (soProposal o0) envs) (\<lambda>commitments.
      bindR (shareOver L o0 nonces message commitments) (\<lambda>z.
      fst (appendNext (net 3) guess1 (soSession o0) Share
            (sealSessionJson B (soKey o0) (sdNonce2 d) (shareJson (soProposal o0) (soMyId o0) z)) None)))))))))"

section \<open>Aggregating\<close>

definition aggregateShares :: "libs \<Rightarrow> point \<Rightarrow> byte list \<Rightarrow> nat \<Rightarrow> point commitment list \<Rightarrow> point partialSig list \<Rightarrow> point signature result" where
  "aggregateShares L gpk message threshold commitments shares =
     bindR (bindingFactors (bjjCiphersuite L) gpk message commitments) (\<lambda>rhos.
     bindR (groupCommitment (bjjCiphersuite L) commitments rhos) (\<lambda>R.
     coordinatorAggregate (bjjCiphersuite L) R gpk message commitments shares threshold))"

definition aggregateProposal :: "libs \<Rightarrow> boxLibs \<Rightarrow> (nat \<Rightarrow> clientNet) \<Rightarrow> byte list \<Rightarrow> string \<Rightarrow> point \<Rightarrow> nat \<Rightarrow>
    (string \<rightharpoonup> point) \<Rightarrow> nat option \<Rightarrow> (point signature \<times> byte list \<times> json) result" where
  "aggregateProposal L B net key proposalId gpk threshold publicShares maxRounds =
     bindR (fetchProposal B (net 0) key proposalId) (\<lambda>proposal.
     bindR (proposalMessage proposal) (\<lambda>message.
     bindR (collectUntil (net 1) (enoughFor B key Nonce proposalId threshold) maxRounds None) (\<lambda>nonceEnvs.
     bindR (readCommitments B key proposalId nonceEnvs) (\<lambda>commitments.
     bindR (collectUntil (net 2) (enoughFor B key Share proposalId threshold) maxRounds None) (\<lambda>shareEnvs.
     bindR (readShares B key proposalId publicShares shareEnvs) (\<lambda>shares.
     bindR (aggregateShares L gpk message threshold commitments shares) (\<lambda>signature.
     Inr (signature, message, proposal))))))))"

text \<open>\<open>executeProposal\<close> up to sending: the builders and the prover are the caller's.\<close>

definition executeProposal :: "libs \<Rightarrow> boxLibs \<Rightarrow> (nat \<Rightarrow> clientNet) \<Rightarrow> byte list \<Rightarrow> string \<Rightarrow> point \<Rightarrow> nat \<Rightarrow>
    (string \<rightharpoonup> point) \<Rightarrow> nat option \<Rightarrow> (point signature \<Rightarrow> json \<Rightarrow> 'i result) \<Rightarrow> ('i \<Rightarrow> 'b result) \<Rightarrow> ('b \<Rightarrow> json \<Rightarrow> 'x list result) \<Rightarrow>
    ('b \<times> 'x list) result" where
  "executeProposal L B net key proposalId gpk threshold publicShares maxRounds buildInputs prove buildInstructions =
     bindR (aggregateProposal L B net key proposalId gpk threshold publicShares maxRounds) (\<lambda>(signature, _, proposal).
     bindR (buildInputs signature proposal) (\<lambda>inputs. bindR (prove inputs) (\<lambda>bundle.
     bindR (buildInstructions bundle proposal) (\<lambda>instructions. Inr (bundle, instructions)))))"

end
