(* ===== verification/HonestCeremony.thy ===== *)
theory HonestCeremony
  imports Ceremony
begin

text \<open>
  The key ceremony run by honest members: what the roster and a member's result promise, the run of any
  number of honest members end to end with any order of arrival, and what happens when a dealer's message
  is repeated.  \<open>toyBox\<close> is a concrete box library on which the witnesses run.
\<close>

section \<open>An honest ceremony\<close>

text \<open>The documented behaviour of the box libraries, on 32-byte seeds and 24-byte nonces: a signature by a
  seed verifies under its public key, two key pairs agree on their shared secret, decryption undoes
  encryption, and keys, signatures and ciphertexts are byte strings.\<close>

definition box_laws :: "boxLibs \<Rightarrow> bool" where
  "box_laws B \<longleftrightarrow>
     (\<forall>msg seed. length seed = 32 \<longrightarrow> edVerify B (edSign B msg seed) msg (edPublicKey B seed) = Inr True
        \<and> list_all isByte (edSign B msg seed) \<and> list_all isByte (edPublicKey B seed)
        \<and> list_all isByte (x25519PublicKey B (edwardsToMontgomeryPriv B seed)))
   \<and> (\<forall>a b. length a = 32 \<longrightarrow> length b = 32 \<longrightarrow>
        (let p = edwardsToMontgomeryPriv B a; q = edwardsToMontgomeryPriv B b in
         \<exists>k. x25519SharedSecret B p (x25519PublicKey B q) = Inr k \<and> x25519SharedSecret B q (x25519PublicKey B p) = Inr k))
   \<and> (\<forall>k n pt. length n = NONCE_LEN \<longrightarrow> xcDecrypt B k n (xcEncrypt B k n pt) = Inr pt
        \<and> (list_all isByte n \<longrightarrow> list_all isByte pt \<longrightarrow> list_all isByte (xcEncrypt B k n pt)))"

lemma box_sign:
  assumes "box_laws B" "length seed = 32"
  shows "edVerify B (edSign B msg seed) msg (edPublicKey B seed) = Inr True" "list_all isByte (edSign B msg seed)"
    "list_all isByte (edPublicKey B seed)" "list_all isByte (x25519PublicKey B (edwardsToMontgomeryPriv B seed))"
  using assms by (simp_all add: box_laws_def)

lemma box_open:
  assumes "box_laws B" "length a = 32" "length b = 32" "length nonce = NONCE_LEN"
  shows "\<exists>s. sealTo B (edwardsToMontgomeryPriv B a) (x25519PublicKey B (edwardsToMontgomeryPriv B b)) sid nonce pt = Inr s
    \<and> openFrom B (edwardsToMontgomeryPriv B b) (x25519PublicKey B (edwardsToMontgomeryPriv B a)) sid s = Inr pt
    \<and> (list_all isByte nonce \<longrightarrow> list_all isByte pt \<longrightarrow> list_all isByte s)"
proof -
  obtain k where "x25519SharedSecret B (edwardsToMontgomeryPriv B a) (x25519PublicKey B (edwardsToMontgomeryPriv B b)) = Inr k"
    "x25519SharedSecret B (edwardsToMontgomeryPriv B b) (x25519PublicKey B (edwardsToMontgomeryPriv B a)) = Inr k"
    using assms unfolding box_laws_def Let_def by blast
  then show ?thesis using assms by (auto simp: sealTo_def openFrom_def box_laws_def Let_def)
qed

subsection \<open>Texts that come back\<close>

lemma readJson_b64Json: "jsonPlain v \<Longrightarrow> readJson (b64Json v) = Inr v"
  by (simp add: readJson_def b64Json_def base64_round_trip utf8_bytes utf8_text json_round_trip)

lemmas plain_eval = plainChar_def QUOTE_def BACKSLASH_def

lemma readAnnounce_json: "readAnnounce (announceJson a) = Inr a"
  by (simp add: readAnnounce_def announceJson_def jsonStr_def jsonGet_def)

lemma readInner_json: "readInner (innerJson p) = Inr p"
  by (simp add: readInner_def innerJson_def jsonStr_def jsonField_def jsonGet_def)

definition nonnegPoint :: "point \<Rightarrow> bool" where
  "nonnegPoint p \<longleftrightarrow> 0 \<le> fst p \<and> 0 \<le> snd p"

lemma pointFromJson_json: "nonnegPoint p \<Longrightarrow> pointFromJson (pointJson p) = Inr p"
  by (simp add: pointFromJson_def pointJson_def jsonStr_def jsonGet_def nonnegPoint_def
      big_hex_round_trip [simplified])

lemma pointJson_plain: "nonnegPoint p \<Longrightarrow> jsonPlain (pointJson p)"
  by (simp add: pointJson_def nonnegPoint_def big_hex_plain plain_eval)

lemma commitments_json: "list_all nonnegPoint cs \<Longrightarrow> commitmentsFromJson (commitmentsJson cs) = Inr cs"
proof -
  assume "list_all nonnegPoint cs"
  then have "mapR pointFromJson (map pointJson cs) = Inr cs" by (induction cs) (simp_all add: pointFromJson_json)
  then show ?thesis by (simp add: commitmentsFromJson_def commitmentsJson_def)
qed

lemma commitments_plain: "list_all nonnegPoint cs \<Longrightarrow> jsonPlain (commitmentsJson cs)"
  by (auto simp: commitmentsJson_def list_all_iff pointJson_plain)

lemma pop_json: "nonnegPoint (popR p) \<Longrightarrow> 0 \<le> popZ p \<Longrightarrow> popFromJson (popJson p) = Inr p"
  by (simp add: popFromJson_def popJson_def jsonStr_def jsonField_def jsonGet_def pointFromJson_json decimal_round_trip)

lemma pop_plain: "nonnegPoint (popR p) \<Longrightarrow> 0 \<le> popZ p \<Longrightarrow> jsonPlain (popJson p)"
  by (simp add: popJson_def pointJson_plain decimal_plain plain_eval)

lemma subgroup_nonneg: "bjj_laws L \<Longrightarrow> inSubgroup L P \<Longrightarrow> nonnegPoint P"
  using bjj_coords [of L P] by (simp add: nonnegPoint_def isFr_def)

subsection \<open>Round 1\<close>

record member =
  mbSeed :: "byte list"
  mbDraws :: ceremonyDraws

definition memberPub :: "boxLibs \<Rightarrow> member \<Rightarrow> byte list" where
  "memberPub B m = edPublicKey B (mbSeed m)"

definition memberHex :: "boxLibs \<Rightarrow> member \<Rightarrow> string" where
  "memberHex B m = bytesHex (memberPub B m)"

definition memberPriv :: "boxLibs \<Rightarrow> member \<Rightarrow> byte list" where
  "memberPriv B m = edwardsToMontgomeryPriv B (mbSeed m)"

definition memberBoxKey :: "boxLibs \<Rightarrow> member \<Rightarrow> byte list" where
  "memberBoxKey B m = x25519PublicKey B (memberPriv B m)"

definition memberAnnounce :: "boxLibs \<Rightarrow> string \<Rightarrow> member \<Rightarrow> announce" where
  "memberAnnounce B sid m = makeAnnounce B sid (mbSeed m) (memberPub B m)"

definition memberOk :: "nat \<Rightarrow> member \<Rightarrow> bool" where
  "memberOk t m \<longleftrightarrow> length (mbSeed m) = 32 \<and> t < length (cdScalars (mbDraws m)) \<and> list_all isByte (cdR (mbDraws m))
     \<and> length (cdR (mbDraws m)) = 32
     \<and> (\<forall>i. length (cdNonce (mbDraws m) i) = NONCE_LEN \<and> list_all isByte (cdNonce (mbDraws m) i))"

lemma announce_fields [simp]:
  "anEdPubHex (memberAnnounce B sid m) = memberHex B m" "anX25519PubHex (memberAnnounce B sid m) = bytesHex (memberBoxKey B m)"
  "anSig (memberAnnounce B sid m) = bytesHex (edSign B (announceSignBytes sid (memberBoxKey B m)) (mbSeed m))"
  by (simp_all add: memberAnnounce_def makeAnnounce_def memberHex_def memberBoxKey_def memberPriv_def x25519FromEd25519Seed_def Let_def)

lemma member_bytes:
  assumes "box_laws B" "memberOk t m"
  shows "list_all isByte (memberPub B m)" "list_all isByte (memberBoxKey B m)" "list_all isByte (edSign B x (mbSeed m))"
    "edVerify B (edSign B x (mbSeed m)) x (memberPub B m) = Inr True"
  using assms box_sign [OF assms(1), of "mbSeed m"] by (simp_all add: memberOk_def memberPub_def memberBoxKey_def memberPriv_def)

lemma member_hex [simp]:
  assumes "box_laws B" "memberOk t m"
  shows "fromHex (memberHex B m) = memberPub B m" "fromHex (bytesHex (memberBoxKey B m)) = memberBoxKey B m"
  using member_bytes [OF assms] by (simp_all add: memberHex_def hex_round_trip)

lemma announce_wire:
  assumes "box_laws B" "memberOk t m"
  shows "bindR (readJson (b64Json (announceJson (memberAnnounce B sid m)))) readAnnounce = Inr (memberAnnounce B sid m)"
    "announceOk B sid (memberAnnounce B sid m)"
proof -
  have "jsonPlain (announceJson (memberAnnounce B sid m))"
    using member_bytes [OF assms] by (simp add: announceJson_def hex_plain memberHex_def plain_eval)
  then show "bindR (readJson (b64Json (announceJson (memberAnnounce B sid m)))) readAnnounce = Inr (memberAnnounce B sid m)"
    by (simp add: readJson_b64Json readAnnounce_json)
  show "announceOk B sid (memberAnnounce B sid m)"
    using member_bytes [OF assms] member_hex [OF assms] by (simp add: announceOk_def sigOk_Inr hex_round_trip)
qed

lemma mapR_total: "(\<And>x. x \<in> set xs \<Longrightarrow> \<exists>y. f x = Inr y) \<Longrightarrow> mapR f xs = Inr (map (projr \<circ> f) xs)"
proof (induction xs)
  case (Cons x xs)
  then obtain y where "f x = Inr y" by (meson list.set_intros(1))
  moreover have "mapR f xs = Inr (map (projr \<circ> f) xs)" using Cons by simp
  ultimately show ?case by simp
qed simp

lemma read_member_announces:
  assumes B: "box_laws B" and ok: "\<forall>m\<in>set ms. memberOk t m"
    and es: "set (map enCiphertext (ofKind Dkg1 es)) = set (map (\<lambda>m. b64Json (announceJson (memberAnnounce B sid m))) ms)"
  shows "\<exists>as. readAnnounces es = Inr as \<and> set as = memberAnnounce B sid ` set ms"
proof -
  let ?F = "\<lambda>c. bindR (readJson c) readAnnounce" and ?T = "\<lambda>m. b64Json (announceJson (memberAnnounce B sid m))"
  have F: "?F (?T m) = Inr (memberAnnounce B sid m)" if "m \<in> set ms" for m
    using announce_wire(1) [OF B] ok that by blast
  have "\<exists>y. ?F (enCiphertext e) = Inr y" if "e \<in> set (ofKind Dkg1 es)" for e
  proof -
    have "enCiphertext e \<in> ?T ` set ms" using es that by (metis image_eqI list.set_map)
    then obtain m where m: "m \<in> set ms" "enCiphertext e = ?T m" by blast
    show ?thesis unfolding m(2) F [OF m(1)] by blast
  qed
  from mapR_total [OF this] have "readAnnounces es = Inr (map (projr \<circ> (\<lambda>e. ?F (enCiphertext e))) (ofKind Dkg1 es))"
    by (simp add: readAnnounces_def)
  moreover have "set (map (projr \<circ> (\<lambda>e. ?F (enCiphertext e))) (ofKind Dkg1 es)) = (projr \<circ> ?F) ` set (map enCiphertext (ofKind Dkg1 es))"
    by (auto simp: image_image)
  moreover have "(projr \<circ> ?F) ` set (map enCiphertext (ofKind Dkg1 es)) = memberAnnounce B sid ` set ms"
    unfolding es unfolding set_map image_image comp_def by (rule image_cong [OF refl]) (use F in \<open>simp del: bindR_eq_Inr\<close>)
  ultimately show ?thesis by auto
qed

definition seated :: "boxLibs \<Rightarrow> member list \<Rightarrow> member list" where
  "seated B ms = sort_key (memberHex B) ms"

definition honestRoster :: "boxLibs \<Rightarrow> member list \<Rightarrow> roster" where
  "honestRoster B ms =
     (let ids = map (\<lambda>i. int i + 1) [0..<length ms]; eds = map (memberHex B) (seated B ms) in
      \<lparr>roIds = ids, roIdByEdPub = zip eds ids, roX25519ByEdPub = map (\<lambda>m. (memberHex B m, memberBoxKey B m)) (seated B ms),
       roEdPubById = zip ids eds\<rparr>)"

lemma member_hex_inj:
  assumes "box_laws B" "\<forall>m\<in>set ms. memberOk t m" "distinct (map (memberPub B) ms)"
  shows "distinct (map (memberHex B) ms)" "inj_on (memberHex B) (set ms)"
proof -
  have "inj_on bytesHex (memberPub B ` set ms)"
    by (rule inj_on_inverseI [of _ fromHex]) (use assms member_bytes(1) hex_round_trip in blast)
  moreover have "inj_on (memberPub B) (set ms)" "distinct ms" using assms(3) by (simp_all add: distinct_map)
  ultimately show "inj_on (memberHex B) (set ms)"
    by (auto simp: inj_on_def memberHex_def)
  then show "distinct (map (memberHex B) ms)" using \<open>distinct ms\<close> by (simp add: distinct_map)
qed

lemma seated_simps [simp]: "mset (seated B ms) = mset ms" "set (seated B ms) = set ms" "length (seated B ms) = length ms"
  by (simp_all add: seated_def)

lemma honest_round1:
  assumes B: "box_laws B" and ok: "\<forall>m\<in>set ms. memberOk t m" and d: "distinct (map (memberPub B) ms)"
    and es: "set (map enCiphertext (ofKind Dkg1 es)) = set (map (\<lambda>m. b64Json (announceJson (memberAnnounce B sid m))) ms)"
    and k: "k < length ms"
  shows "round1 B sid (length ms) (memberPub B (seated B ms ! k)) es = Inr (honestRoster B ms, int k + 1)"
proof -
  note inj = member_hex_inj [OF B ok d]
  obtain as where as: "readAnnounces es = Inr as" "set as = memberAnnounce B sid ` set ms"
    using read_member_announces [OF B ok es] by blast
  have eds: "identities as = map (memberHex B) (seated B ms)"
  proof -
    have "anEdPubHex ` set as = set (map (memberHex B) (seated B ms))" by (simp add: as(2) image_image)
    moreover have "sorted (map (memberHex B) (seated B ms))" by (simp add: seated_def)
    moreover have "distinct (map (memberHex B) (seated B ms))"
      using inj(1) by (metis mset_eq_imp_distinct_iff mset_map seated_simps(1))
    ultimately show ?thesis unfolding identities_def by (intro sorted_distinct_set_unique) simp_all
  qed
  have cons: "consistent as"
    using inj(2) unfolding consistent_def as(2) by (auto dest: inj_onD)
  let ?key = "\<lambda>e. memberBoxKey B (the_inv_into (set ms) (memberHex B) e)"
  have key: "?key (memberHex B m) = memberBoxKey B m" if "m \<in> set ms" for m
    using the_inv_into_f_f [OF inj(2) that] by simp
  obtain ro where ro: "assignIds (length ms) as = Inr ro" using assignIds_total [OF cons] eds by auto
  have ka: "?key (anEdPubHex a) = fromHex (anX25519PubHex a)" if "a \<in> set as" for a
  proof -
    obtain m where m: "m \<in> set ms" "a = memberAnnounce B sid m" using \<open>a \<in> set as\<close> as(2) by blast
    then have "fromHex (bytesHex (memberBoxKey B m)) = memberBoxKey B m" using member_hex(2) [OF B] ok by blast
    then show ?thesis using m key by simp
  qed
  have "ro = rosterOf (identities as) ?key"
    using assignIds_Inr [OF ro ka] by blast
  also have "\<dots> = honestRoster B ms"
    by (simp add: eds rosterOf_def honestRoster_def Let_def key)
  finally have ro': "assignIds (length ms) as = Inr (honestRoster B ms)" using ro by simp
  have chk: "checkAnnounces B sid as = Inr ()"
    unfolding checkAnnounces_Inr as(2) using announce_wire(2) [OF B] ok by blast
  have "map_of (roIdByEdPub (honestRoster B ms)) (map (memberHex B) (seated B ms) ! k) = Some (map (\<lambda>i. int i + 1) [0..<length ms] ! k)"
    unfolding honestRoster_def Let_def roster.simps
    by (rule map_of_zip_nth) (use inj(1) k in \<open>simp_all add: mset_eq_imp_distinct_iff [of "map (memberHex B) (seated B ms)" "map (memberHex B) ms"]\<close>)
  then have "map_of (roIdByEdPub (honestRoster B ms)) (memberHex B (seated B ms ! k)) = Some (int k + 1)" using k by simp
  then show ?thesis by (simp add: round1_def as(1) chk ro' memberHex_def)
qed

subsection \<open>Round 2\<close>

lemma plain_obj: "jsonPlain (JObj ps) \<longleftrightarrow> list_all (\<lambda>p. list_all plainChar (fst p) \<and> jsonPlain (snd p)) ps"
  by (induction ps) auto

lemma map_of_rev_distinct:
  assumes "distinct (map fst al)" "(k, v) \<in> set al"
  shows "map_of (rev al) k = Some v"
  by (rule map_of_is_SomeI) (use assms in \<open>simp_all add: rev_map [symmetric]\<close>)

lemma sealBoxes_map:
  assumes "\<And>e i. (e, i) \<in> set al \<Longrightarrow> \<exists>key. map_of (roX25519ByEdPub ro) e = Some key \<and> shares i = Some (s i)
      \<and> sealTo B priv key sid (nonce i) (utf8 (stringify (innerJson (inner (bigToString (s i)))))) = Inr (box i)"
  shows "foldR (\<lambda>boxes (edPubHex, rid).
       case map_of (roX25519ByEdPub ro) edPubHex of None \<Rightarrow> Inr boxes
       | Some recipientPub \<Rightarrow>
         (case shares rid of None \<Rightarrow> Inr boxes
          | Some share \<Rightarrow>
            bindR (sealTo B priv recipientPub sid (nonce rid) (utf8 (stringify (innerJson (inner (bigToString share))))))
              (\<lambda>sealed. Inr (boxes @ [(bigToString rid, JStr (toBase64 sealed))])))) acc al
    = Inr (acc @ map (\<lambda>(e, i). (bigToString i, JStr (toBase64 (box i)))) al)"
  using assms
proof (induction al arbitrary: acc)
  case (Cons p al)
  obtain e i where p: "p = (e, i)" by (cases p)
  obtain key where "map_of (roX25519ByEdPub ro) e = Some key" "shares i = Some (s i)"
    "sealTo B priv key sid (nonce i) (utf8 (stringify (innerJson (inner (bigToString (s i)))))) = Inr (box i)"
    using Cons.prems [of e i] p by auto
  then show ?case using Cons.IH [OF Cons.prems] by (simp add: p)
qed simp

text \<open>The contribution a recipient reads from an honest dealer's message.\<close>

definition received :: "libs \<Rightarrow> dealerContribution \<Rightarrow> int list \<Rightarrow> int \<Rightarrow> dealerContribution" where
  "received L c f i = \<lparr>dcId = dcId c, dcCommitments = dcCommitments c, dcPop = dcPop c, dcShares = [i \<mapsto> polyEval L f i]\<rparr>"

lemma received_deals: "dealsPoly L ps f c \<Longrightarrow> dealsPoly L [i] f (received L c f i)"
  by (simp add: dealsPoly_def received_def)

lemma received_accepted:
  assumes "bjj_laws L" "dealsPoly L ps f c" "verifyPoP L (dcId c) context (dcCommitments c) (dcPop c) = Inr True"
  shows "verifyContribution L i (received L c f i) context = Inr True"
  by (rule dealsPoly_accepted [OF assms(1) received_deals [OF assms(2)]]) (use assms(3) in \<open>simp_all add: received_def\<close>)

lemma provePoP_nonneg:
  "bjj_laws L \<Longrightarrow> provePoP L i context s com k = Inr p \<Longrightarrow> nonnegPoint (popR p) \<and> 0 \<le> popZ p"
  using subgroup_nonneg [of L "scalarBaseMul L k"] bjj_laws_order_pos [of L]
  by (auto simp: provePoP_def Let_def)

lemma honest_pop_nonneg:
  "bjj_laws L \<Longrightarrow> dealerContribute L i ps t context draws = Inr (c, x) \<Longrightarrow> nonnegPoint (popR (dcPop c)) \<and> 0 \<le> popZ (dcPop c)"
  by (cases "take t draws") (auto simp: dealerContribute_def Let_def dest: provePoP_nonneg)

lemma feldman_nonneg: "bjj_laws L \<Longrightarrow> list_all nonnegPoint (feldmanCommit L f)"
  using subgroup_nonneg by (auto simp: feldmanCommit_def list_all_iff)

lemma polyEval_nonneg: "bjj_laws L \<Longrightarrow> 0 \<le> polyEval L f i"
  using bjj_laws_order_pos [of L] by (simp add: polyEval_horner)

definition memberTurn :: "libs \<Rightarrow> boxLibs \<Rightarrow> string \<Rightarrow> nat \<Rightarrow> nat \<Rightarrow> int \<Rightarrow> envelope list \<Rightarrow> member \<Rightarrow> (roster \<times> int \<times> json) result" where
  "memberTurn L B sid n t context dkg1 m =
     bindR (round1 B sid n (memberPub B m) dkg1) (\<lambda>(ro, i).
     bindR (makeDealerMessage L B sid t context (mbSeed m) (mbDraws m) ro i) (\<lambda>msg. Inr (ro, i, msg)))"

definition seatPoly :: "boxLibs \<Rightarrow> nat \<Rightarrow> member list \<Rightarrow> nat \<Rightarrow> int list" where
  "seatPoly B t ms k = take t (cdScalars (mbDraws (seated B ms ! k)))"

definition seatR :: "boxLibs \<Rightarrow> member list \<Rightarrow> nat \<Rightarrow> byte list" where
  "seatR B ms k = cdR (mbDraws (seated B ms ! k))"

definition idsTo :: "nat \<Rightarrow> int list" where
  "idsTo n = map (\<lambda>k. int k + 1) [0..<n]"

text \<open>What seat \<open>k\<close> deals: a contribution to its polynomial and a message that every seat reads as the share of
  that polynomial at its own number.\<close>

definition seatSpec :: "libs \<Rightarrow> boxLibs \<Rightarrow> string \<Rightarrow> nat \<Rightarrow> int \<Rightarrow> member list \<Rightarrow> nat \<Rightarrow> dealerContribution \<times> json \<Rightarrow> bool" where
  "seatSpec L B sid t context ms k = (\<lambda>(c, msg).
     dealsPoly L (idsTo (length ms)) (seatPoly B t ms k) c \<and> dcId c = int k + 1
   \<and> makeDealerMessage L B sid t context (mbSeed (seated B ms ! k)) (mbDraws (seated B ms ! k)) (honestRoster B ms) (int k + 1) = Inr msg
   \<and> readJson (b64Json msg) = Inr msg
   \<and> (\<forall>j<length ms. acceptDealer L B sid context (memberPriv B (seated B ms ! j)) (honestRoster B ms) (int j + 1) msg
        = Inr (received L c (seatPoly B t ms k) (int j + 1), seatR B ms k)))"

lemma honest_message:
  assumes L: "bjj_laws L" "fr_laws L" and B: "box_laws B" and ok: "\<forall>m\<in>set ms. memberOk t m"
    and d: "distinct (map (memberPub B) ms)" and n: "int (length ms) < subOrder L" and t: "0 < t"
    and sid: "list_all plainChar sid" and ctx: "isFr context" and k: "k < length ms"
  shows "\<exists>cm. seatSpec L B sid t context ms k cm"
proof -
  let ?ids = "map (\<lambda>i. int i + 1) [0..<length ms]" and ?s = "seated B ms" and ?ro = "honestRoster B ms"
  let ?m = "?s ! k" and ?eds = "map (memberHex B) (seated B ms)"
  let ?f = "take t (cdScalars (mbDraws ?m))"
  have mem: "?s ! j \<in> set ms" "memberOk t (?s ! j)" if "j < length ms" for j
    using that ok nth_mem [of j ?s] by simp_all
  have dist: "distinct ?eds"
    using member_hex_inj(1) [OF B ok d] by (metis mset_eq_imp_distinct_iff mset_map seated_simps(1))
  have "BJJ_SUBGROUP_ORDER < BN254_P" by (simp add: BJJ_SUBGROUP_ORDER_def BN254_P_def)
  moreover have "subOrder L \<le> BJJ_SUBGROUP_ORDER" using L(1) by (simp add: bjj_laws_def)
  ultimately have fr: "isFr (int k + 1)" using n k by (simp add: isFr_def)
  have len: "t \<le> length (cdScalars (mbDraws ?m))" using mem [OF k] by (simp add: memberOk_def)
  obtain c where c: "dealerContribute L (int k + 1) ?ids t context (cdScalars (mbDraws ?m)) = Inr (c, hd (cdScalars (mbDraws ?m)))"
    "dcId c = int k + 1" "dealsPoly L ?ids ?f c" "verifyPoP L (int k + 1) context (dcCommitments c) (dcPop c) = Inr True"
    using dealerContribute_honest [OF L fr ctx t len, of ?ids] by (elim exE conjE)
  note pop = honest_pop_nonneg [OF L(1) c(1)]
  have coms: "list_all nonnegPoint (dcCommitments c)" using c(3) feldman_nonneg [OF L(1)] by (simp add: dealsPoly_def)
  let ?cj = "commitmentsJson (dcCommitments c)" and ?pj = "popJson (dcPop c)"
  let ?sig = "edSign B (dealerSignBytes sid (bigToString (int k + 1)) ?cj ?pj) (mbSeed ?m)"
  define inner where "inner = (\<lambda>share. \<lparr>inCommitments = ?cj, inPop = ?pj, inShare = share, inR = bytesHex (cdR (mbDraws ?m)), inSig = bytesHex ?sig\<rparr>)"
  have rb: "list_all isByte (cdR (mbDraws ?m))" using mem(2) [OF k] by (simp add: memberOk_def)
  have plain_in: "jsonPlain (innerJson (inner (bigToString (polyEval L ?f i))))" for i
    using commitments_plain [OF coms] pop_plain pop member_bytes(3) [OF B mem(2) [OF k]] rb polyEval_nonneg [OF L(1), of ?f i]
    by (simp add: innerJson_def inner_def hex_plain decimal_plain plain_eval)
  define box where "box = (\<lambda>i. projr (sealTo B (memberPriv B ?m) (memberBoxKey B (?s ! nat (i - 1))) sid (cdNonce (mbDraws ?m) i)
      (utf8 (stringify (innerJson (inner (bigToString (polyEval L ?f i))))))))"
  have seal: "sealTo B (memberPriv B ?m) (memberBoxKey B (?s ! j)) sid (cdNonce (mbDraws ?m) (int j + 1))
        (utf8 (stringify (innerJson (inner (bigToString (polyEval L ?f (int j + 1))))))) = Inr (box (int j + 1))"
      "openFrom B (memberPriv B (?s ! j)) (memberBoxKey B ?m) sid (box (int j + 1))
        = Inr (utf8 (stringify (innerJson (inner (bigToString (polyEval L ?f (int j + 1)))))))"
      "list_all isByte (box (int j + 1))" if "j < length ms" for j
  proof -
    have "length (cdNonce (mbDraws ?m) (int j + 1)) = NONCE_LEN" "list_all isByte (cdNonce (mbDraws ?m) (int j + 1))"
      "length (mbSeed ?m) = 32" "length (mbSeed (?s ! j)) = 32"
      using mem(2) [OF k] mem(2) [OF that] by (simp_all add: memberOk_def)
    then obtain s where s: "sealTo B (memberPriv B ?m) (memberBoxKey B (?s ! j)) sid (cdNonce (mbDraws ?m) (int j + 1))
        (utf8 (stringify (innerJson (inner (bigToString (polyEval L ?f (int j + 1))))))) = Inr s"
      "openFrom B (memberPriv B (?s ! j)) (memberBoxKey B ?m) sid s = Inr (utf8 (stringify (innerJson (inner (bigToString (polyEval L ?f (int j + 1)))))))"
      "list_all isByte s"
      using box_open [OF B, of "mbSeed ?m" "mbSeed (?s ! j)"] utf8_bytes unfolding memberPriv_def memberBoxKey_def by blast
    moreover have "box (int j + 1) = s" using s(1) by (simp add: box_def)
    ultimately show "sealTo B (memberPriv B ?m) (memberBoxKey B (?s ! j)) sid (cdNonce (mbDraws ?m) (int j + 1))
        (utf8 (stringify (innerJson (inner (bigToString (polyEval L ?f (int j + 1))))))) = Inr (box (int j + 1))"
      "openFrom B (memberPriv B (?s ! j)) (memberBoxKey B ?m) sid (box (int j + 1))
        = Inr (utf8 (stringify (innerJson (inner (bigToString (polyEval L ?f (int j + 1)))))))"
      "list_all isByte (box (int j + 1))" by simp_all
  qed
  let ?boxes = "map (\<lambda>(e, i). (bigToString i, JStr (toBase64 (box i)))) (zip ?eds ?ids)"
  have boxes: "sealBoxes B sid (memberPriv B ?m) ?ro (dcShares c) (cdNonce (mbDraws ?m)) inner = Inr ?boxes"
  proof -
    have "foldR (\<lambda>boxes (edPubHex, rid).
       case map_of (roX25519ByEdPub ?ro) edPubHex of None \<Rightarrow> Inr boxes
       | Some recipientPub \<Rightarrow>
         (case dcShares c rid of None \<Rightarrow> Inr boxes
          | Some share \<Rightarrow>
            bindR (sealTo B (memberPriv B ?m) recipientPub sid (cdNonce (mbDraws ?m) rid) (utf8 (stringify (innerJson (inner (bigToString share))))))
              (\<lambda>sealed. Inr (boxes @ [(bigToString rid, JStr (toBase64 sealed))])))) [] (zip ?eds ?ids) = Inr ([] @ ?boxes)"
    proof (rule sealBoxes_map)
      fix e i
      assume "(e, i) \<in> set (zip ?eds ?ids)"
      then obtain j where j: "j < length ms" "e = memberHex B (?s ! j)" "i = int j + 1" by (auto simp: set_zip)
      have "map_of (roX25519ByEdPub ?ro) e = Some (memberBoxKey B (?s ! j))"
        unfolding honestRoster_def Let_def roster.simps j(2)
        by (rule map_of_is_SomeI) (use dist mem(1) [OF j(1)] in \<open>auto simp: comp_def\<close>)
      moreover have "dcShares c i = Some (polyEval L ?f i)" using c(3) j by (auto simp: dealsPoly_def)
      ultimately show "\<exists>key. map_of (roX25519ByEdPub ?ro) e = Some key \<and> dcShares c i = Some (polyEval L ?f i)
          \<and> sealTo B (memberPriv B ?m) key sid (cdNonce (mbDraws ?m) i) (utf8 (stringify (innerJson (inner (bigToString (polyEval L ?f i)))))) = Inr (box i)"
        using seal(1) [OF j(1)] j(3) by blast
    qed
    then show ?thesis by (simp add: sealBoxes_def honestRoster_def Let_def)
  qed
  let ?msg = "dealerMessageJson (int k + 1) (memberBoxKey B ?m) ?boxes"
  have keys: "distinct (map fst ?boxes)"
  proof -
    have "map fst ?boxes = map bigToString ?ids" by (rule nth_equalityI) simp_all
    moreover have "inj_on bigToString (set ?ids)" by (rule inj_onI) (auto dest!: decimal_inj [rotated 2])
    ultimately show ?thesis by (simp add: distinct_map inj_on_def)
  qed
  have box_plain: "list_all (\<lambda>p. list_all plainChar (fst p) \<and> jsonPlain (snd p)) ?boxes"
    unfolding list_all_iff
  proof (intro ballI)
    fix p
    assume "p \<in> set ?boxes"
    then obtain j where "j < length ms" "p = (bigToString (int j + 1), JStr (toBase64 (box (int j + 1))))" by (auto simp: set_zip)
    then show "(\<forall>c\<in>set (fst p). plainChar c) \<and> jsonPlain (snd p)"
      using decimal_plain [of "int j + 1"] base64_plain [OF seal(3) [of j]] by (simp add: list_all_iff)
  qed
  have "jsonPlain ?msg"
    using box_plain member_bytes(2) [OF B mem(2) [OF k]]
    by (simp add: dealerMessageJson_def plain_obj hex_plain decimal_plain plain_eval del: jsonPlain.simps(6))
  then have wire: "readJson (b64Json ?msg) = Inr ?msg" by (rule readJson_b64Json)
  have keypair: "x25519FromEd25519Seed B (mbSeed m) = (memberPriv B m, memberBoxKey B m)" for m
    by (simp add: x25519FromEd25519Seed_def memberPriv_def memberBoxKey_def Let_def)
  have "roIds ?ro = ?ids" by (simp add: honestRoster_def Let_def)
  then have make: "makeDealerMessage L B sid t context (mbSeed ?m) (mbDraws ?m) ?ro (int k + 1) = Inr ?msg"
    using boxes unfolding inner_def by (simp add: makeDealerMessage_def keypair c(1) Let_def)
  have accept: "acceptDealer L B sid context (memberPriv B (?s ! j)) ?ro (int j + 1) ?msg
      = Inr (received L c ?f (int j + 1), cdR (mbDraws ?m))" if j: "j < length ms" for j
  proof -
    let ?in = "inner (bigToString (polyEval L ?f (int j + 1)))"
    have ed: "map_of (roEdPubById ?ro) (int k + 1) = Some (memberHex B ?m)"
    proof -
      have "map_of (zip ?ids ?eds) (?ids ! k) = Some (?eds ! k)"
        by (rule map_of_zip_nth) (use k in \<open>simp_all add: distinct_map inj_on_def\<close>)
      then show ?thesis using k by (simp add: honestRoster_def Let_def)
    qed
    have "(bigToString (int j + 1), JStr (toBase64 (box (int j + 1)))) \<in> set ?boxes"
      using j by (force simp: set_zip)
    then have bx: "jsonGet (bigToString (int j + 1)) (JObj ?boxes) = Some (JStr (toBase64 (box (int j + 1))))"
      unfolding jsonGet_def json.case by (rule map_of_rev_distinct [OF keys])
    have fields: "jsonStr ''dealerId'' ?msg = Inr (bigToString (int k + 1))" "jsonField ''boxes'' ?msg = Inr (JObj ?boxes)"
      "jsonStr ''senderX25519PubHex'' ?msg = Inr (bytesHex (memberBoxKey B ?m))"
      by (simp_all add: dealerMessageJson_def jsonStr_def jsonField_def jsonGet_def)
    have parse: "jsonParse (map char_of (utf8 (stringify (innerJson ?in)))) = Inr (innerJson ?in)"
      using json_round_trip [OF plain_in] by (simp add: utf8_text)
    have ver: "verifyContribution L (int j + 1) (received L c ?f (int j + 1)) context = Inr True"
      by (rule received_accepted [OF L(1) c(3) c(4) [folded c(2)]])
    have id: "BigIntOf (bigToString (int k + 1)) = Inr (int k + 1)" by (rule decimal_round_trip) simp
    have sig: "edVerify B (fromHex (inSig ?in)) (dealerSignBytes sid (bigToString (int k + 1)) (inCommitments ?in) (inPop ?in)) (fromHex (memberHex B ?m)) = Inr True"
      using member_bytes(3,4) [OF B mem(2) [OF k]] member_hex(1) [OF B mem(2) [OF k]] by (simp add: inner_def hex_round_trip)
    have rest: "BigIntOf (inShare ?in) = Inr (polyEval L ?f (int j + 1))" "commitmentsFromJson (inCommitments ?in) = Inr (dcCommitments c)"
      "popFromJson (inPop ?in) = Inr (dcPop c)" "fromHex (inR ?in) = cdR (mbDraws ?m)"
      using pop rb by (simp_all add: inner_def decimal_round_trip polyEval_nonneg [OF L(1)] commitments_json [OF coms] pop_json hex_round_trip)
    show ?thesis
      unfolding acceptDealer_def fields bindR.simps id ed getOr_simps bx json.case member_hex(2) [OF B mem(2) [OF k]]
        base64_round_trip [OF seal(3) [OF j]] seal(2) [OF j] parse readInner_json sig rest sigOk_def sum.case guardR_simps Let_def
      using ver by (simp add: received_def c(2))
  qed
  have "seatSpec L B sid t context ms k (c, ?msg)"
    using c(2,3) make wire accept by (simp add: seatSpec_def seatPoly_def seatR_def idsTo_def)
  then show ?thesis by blast
qed

subsection \<open>The second round on any list of honest messages\<close>

lemma perm_map: "mset xs = mset (map F ys) \<Longrightarrow> \<exists>zs. mset zs = mset ys \<and> xs = map F zs"
proof (induction xs arbitrary: ys)
  case (Cons x xs)
  then have "x \<in> set (map F ys)" by (metis list.set_intros(1) mset_eq_setD)
  then obtain y where y: "y \<in> set ys" "F y = x" by auto
  obtain us where us: "mset ys = add_mset y (mset us)" using y(1) mset_remove1 by (metis insert_DiffM mset_remove1 set_mset_mset)
  then have "mset xs = mset (map F us)" using Cons.prems y(2) by simp
  from Cons.IH [OF this] obtain zs where zs: "mset zs = mset us" "xs = map F zs" by blast
  then show ?case using y us by (intro exI [of _ "y # zs"]) simp
qed simp

lemma mapR_map: "mapR f (map g xs) = mapR (\<lambda>x. f (g x)) xs"
  by (induction xs) simp_all

lemma sum_perm: "mset ks = mset ys \<Longrightarrow> (\<Sum>k\<leftarrow>ks. g k) = (\<Sum>k\<leftarrow>ys. (g k :: int))"
  by (metis mset_map sum_mset_sum_list)

lemma acceptDealers_map:
  assumes "\<And>k. k \<in> set ks \<Longrightarrow> acceptDealer L B sid context priv ro i (msg k) = Inr (C k, R k)"
  shows "acceptDealers L B sid context priv ro i (map msg ks) = Inr (map C ks, fold (\<lambda>k. AList.update (dcId (C k)) (R k)) ks [])"
  using assms
proof (induction ks rule: rev_induct)
  case (snoc k ks)
  then show ?case by (simp add: acceptDealers_def foldR_append)
qed (simp add: acceptDealers_def)

lemma fold_update_distinct:
  "distinct (map f ks) \<Longrightarrow> fold (\<lambda>k. AList.update (f k) (g k)) ks [] = map (\<lambda>k. (f k, g k)) ks"
  using commitments_distinct [of "map (\<lambda>k. (f k, g k)) ks"] by (simp add: comp_def fold_map)

lemma aggregate_one:
  assumes L: "bjj_laws L" and h: "list_all2 (dealsPoly L [i]) fs cs"
  shows "aggregate L [i] cs = Inr \<lparr>dkgC = scalarBaseMul L (\<Sum>f\<leftarrow>fs. hd f), dkgShares = [i \<mapsto> (\<Sum>f\<leftarrow>fs. horner f i) mod subOrder L],
    dkgV = [i \<mapsto> scalarBaseMul L ((\<Sum>f\<leftarrow>fs. horner f i) mod subOrder L)], dkgQual = map dcId cs\<rparr>"
  using aggregateKey_sum [OF L h] aggregateShare_sum [OF L h, of i] by (simp add: aggregate_def)

lemma seatSpecD:
  assumes "seatSpec L B sid t context ms k cm"
  shows "dealsPoly L (idsTo (length ms)) (seatPoly B t ms k) (fst cm)" "dcId (fst cm) = int k + 1"
    "makeDealerMessage L B sid t context (mbSeed (seated B ms ! k)) (mbDraws (seated B ms ! k)) (honestRoster B ms) (int k + 1) = Inr (snd cm)"
    "readJson (b64Json (snd cm)) = Inr (snd cm)"
    "j < length ms \<Longrightarrow> acceptDealer L B sid context (memberPriv B (seated B ms ! j)) (honestRoster B ms) (int j + 1) (snd cm)
      = Inr (received L (fst cm) (seatPoly B t ms k) (int j + 1), seatR B ms k)"
  using assms by (cases cm; simp add: seatSpec_def)+

text \<open>A member sums what it reads, message by message.\<close>

lemma honest_round2:
  assumes L: "bjj_laws L" and cm: "\<And>k. k < length ms \<Longrightarrow> seatSpec L B sid t context ms k (cm k)" and j: "j < length ms"
    and ks: "set ks \<subseteq> {..<length ms}" "map enCiphertext (ofKind Dkg2 es) = map (\<lambda>k. b64Json (snd (cm k))) ks"
  shows "\<exists>res. round2 L B sid t (length ms) context (mbSeed (seated B ms ! j)) (honestRoster B ms) (int j + 1) es = Inr res
    \<and> ceGpk res = scalarBaseMul L (\<Sum>k\<leftarrow>ks. hd (seatPoly B t ms k))
    \<and> ceShare res = (\<Sum>k\<leftarrow>ks. horner (seatPoly B t ms k) (int j + 1)) mod subOrder L
    \<and> (distinct ks \<longrightarrow> ceViews res = map (\<lambda>k. (int k + 1, seatR B ms k)) ks)"
proof -
  let ?f = "seatPoly B t ms" and ?C = "\<lambda>k. received L (fst (cm k)) (seatPoly B t ms k) (int j + 1)"
  have spec: "dealsPoly L (idsTo (length ms)) (?f k) (fst (cm k))" "dcId (?C k) = int k + 1" "readJson (b64Json (snd (cm k))) = Inr (snd (cm k))"
    "acceptDealer L B sid context (memberPriv B (seated B ms ! j)) (honestRoster B ms) (int j + 1) (snd (cm k)) = Inr (?C k, seatR B ms k)"
    if k: "k \<in> set ks" for k
  proof -
    have "seatSpec L B sid t context ms k (cm k)" using cm k ks(1) by blast
    from seatSpecD [OF this] j show "dealsPoly L (idsTo (length ms)) (?f k) (fst (cm k))" "dcId (?C k) = int k + 1"
      "readJson (b64Json (snd (cm k))) = Inr (snd (cm k))"
      "acceptDealer L B sid context (memberPriv B (seated B ms ! j)) (honestRoster B ms) (int j + 1) (snd (cm k)) = Inr (?C k, seatR B ms k)"
      by (simp_all add: received_def)
  qed
  have read: "readDealerMessages es = Inr (map (\<lambda>k. snd (cm k)) ks)"
  proof -
    have "readDealerMessages es = mapR readJson (map (\<lambda>k. b64Json (snd (cm k))) ks)"
      unfolding readDealerMessages_def ks(2) [symmetric] mapR_map ..
    also have "\<dots> = Inr (map (\<lambda>k. snd (cm k)) ks)" using spec(3) by (induction ks) simp_all
    finally show ?thesis .
  qed
  note acc = acceptDealers_map [OF spec(4), of ks "\<lambda>k. k"]
  have h: "list_all2 (dealsPoly L [int j + 1]) (map ?f ks) (map ?C ks)"
    using received_deals [OF spec(1)] by (simp add: list_all2_conv_all_nth)
  have "fold (\<lambda>k. AList.update (dcId (?C k)) (seatR B ms k)) ks [] = map (\<lambda>k. (int k + 1, seatR B ms k)) ks" if "distinct ks"
  proof -
    have ids: "map (\<lambda>k. dcId (?C k)) ks = map (\<lambda>k. int k + 1) ks" using spec(2) by (intro map_cong) simp_all
    then have "distinct (map (\<lambda>k. dcId (?C k)) ks)" using that by (simp add: distinct_map inj_on_def)
    then show ?thesis using spec(2) by (simp add: fold_update_distinct)
  qed
  then show ?thesis
    using aggregate_one [OF L h] read acc
    by (simp add: round2_def finishCeremony_def x25519FromEd25519Seed_def memberPriv_def Let_def comp_def)
qed

lemma groupView_perm:
  assumes "mset (ceViews a) = mset (ceViews b)" "ceGpk a = ceGpk b" "distinct (map fst (ceViews a))"
    and "\<forall>v\<in>set (ceViews a). length (snd v) = 32" "ceViews a \<noteq> []"
  shows "groupView L a = groupView L b"
proof -
  let ?c = "\<lambda>res. map (\<lambda>(i, r). \<lparr>gcIndex = i, gcR = r\<rparr>) (ceViews res)"
  have ids: "map gcIndex (?c a) = map fst (ceViews a)" by (simp add: comp_def split_beta)
  have "assertContributions (?c a) = Inr (sort_key gcIndex (?c a))"
    unfolding contributions_iff ids
    using assms(3-5) by (auto simp: list_all_iff GROUP_VIEW_CONTRIBUTION_BYTES_def)
  moreover have "mset (?c a) = mset (?c b)" using assms(1) by simp
  ultimately have "assertContributions (?c b) = assertContributions (?c a)" using contributions_perm by metis
  then show ?thesis using assms(2) by (simp add: groupView_def combineGroupViewContributions_def Let_def)
qed

section \<open>Properties\<close>

text \<open>C24: Members who ran the first round on collections of one session, one of which may have seen more
  messages than the other, hold the same roster: the identifiers 1 to n, the same identity for every
  identifier and the same box key for every identity.  Two of them have the same identifier only if they
  have the same identity, and every box key in the roster was signed, for this session, by the identity
  it belongs to.\<close>

theorem members_share_roster:
  assumes a: "round1 B sid n pub es = Inr (ro, i)" and b: "round1 B sid n pub' es' = Inr (ro', i')" and p: "prefix es es'"
  shows "ro' = ro \<and> roIds ro = map (\<lambda>k. int k + 1) [0..<n] \<and> (i = i' \<longleftrightarrow> bytesHex pub = bytesHex pub')
    \<and> (\<forall>(ed, key)\<in>set (roX25519ByEdPub ro).
        \<exists>a. announceOk B sid a \<and> anEdPubHex a = ed \<and> fromHex (anX25519PubHex a) = key)"
proof -
  obtain as where as: "readAnnounces es = Inr as" "\<forall>a\<in>set as. announceOk B sid a" "assignIds n as = Inr ro"
    "map_of (roIdByEdPub ro) (bytesHex pub) = Some i" using round1_Inr [OF a] by blast
  obtain bs where bs: "readAnnounces es' = Inr bs" "assignIds n bs = Inr ro'"
    "map_of (roIdByEdPub ro') (bytesHex pub') = Some i'" using round1_Inr [OF b] by blast
  have eq: "ro' = ro" using assignIds_agree [OF as(3) bs(2) readAnnounces_prefix [OF p as(1) bs(1)]] by simp
  obtain key where key: "\<forall>a\<in>set as. key (anEdPubHex a) = fromHex (anX25519PubHex a)"
    using consistent_key [OF assignIds_consistent [OF as(3)]] by blast
  have ro: "length (identities as) = n" "ro = rosterOf (identities as) key" using assignIds_Inr [OF as(3), of key] key by blast+
  have "\<exists>a. announceOk B sid a \<and> anEdPubHex a = ed \<and> fromHex (anX25519PubHex a) = k" if "(ed, k) \<in> set (roX25519ByEdPub ro)" for ed k
  proof -
    have "ed \<in> set (identities as)" "k = key ed" using that by (auto simp: ro(2) rosterOf_def Let_def)
    then obtain a where "a \<in> set as" "anEdPubHex a = ed" by (auto simp: identities_def)
    then show ?thesis using as(2) key \<open>k = key ed\<close> by auto
  qed
  moreover have "i = i' \<longleftrightarrow> bytesHex pub = bytesHex pub'"
    using rosterOf_id_inj [of "identities as" key] as(4) bs(3) eq ro(2) by simp
  moreover have "roIds ro = map (\<lambda>k. int k + 1) [0..<n]" using ro by (simp add: rosterOf_def Let_def)
  ultimately show ?thesis using eq by blast
qed

text \<open>C14: What a member returns is verified.  When the second round resolves, there is a list of contributions such that the
  group key is the sum of their first commitments, each of them was signed for this session by the
  identity the roster assigns to its dealer and passed the share check and the proof of possession, the
  member's share times the base point is the public share that the commitments of all of them give, and,
  as long as no dealer occurs twice, the recorded commitments are exactly those.\<close>

theorem ceremony_output_verified:
  assumes L: "bjj_laws L" and r: "round2 L B sid t n context seed ro myId es = Inr res"
  shows "\<exists>cs. aggregateKey L cs = Inr (ceGpk res)
    \<and> (\<forall>c\<in>set cs. dealerSigned B sid ro c \<and> verifyContribution L myId c context = Inr True)
    \<and> scalarBaseMul L (ceShare res) = aggregatePublicShareAt L myId (map dcCommitments cs)
    \<and> (distinct (map dcId cs) \<longrightarrow> ceCommitments res = map (\<lambda>c. (dcId c, dcCommitments c)) cs)"
proof -
  obtain msgs cs views where a: "acceptDealers L B sid context (fst (x25519FromEd25519Seed B seed)) ro myId msgs = Inr (cs, views)"
    and f: "finishCeremony L sid t n ro myId (cs, views) = Inr res"
    using r unfolding round2_def bindR_eq_Inr by (metis prod.collapse)
  obtain g where g: "aggregate L [myId] cs = Inr g" "ceGpk res = dkgC g" "dkgShares g myId = Some (ceShare res)"
    "ceCommitments res = fold (\<lambda>c al. AList.update (dcId c) (dcCommitments c) al) cs []"
    using f by (auto simp: finishCeremony_def bindR_eq_Inr getOr_eq_Inr)
  have ok: "\<forall>c\<in>set cs. dealerSigned B sid ro c \<and> verifyContribution L myId c context = Inr True"
    using list_all2_right [OF acceptDealers_Inr [OF a]] acceptDealer_Inr by blast
  obtain s where s: "aggregateShare L cs myId = Inr s" "scalarBaseMul L s = aggregatePublicShareAt L myId (map dcCommitments cs)"
    using aggregateShare_verified [OF L] ok by blast
  have "ceShare res = s" "aggregateKey L cs = Inr (ceGpk res)" using aggregate_single [OF g(1)] s(1) g(2,3) by auto
  moreover have "fold (\<lambda>c al. AList.update (dcId c) (dcCommitments c) al) cs [] = map (\<lambda>c. (dcId c, dcCommitments c)) cs"
    if "distinct (map dcId cs)"
    using commitments_distinct [of "map (\<lambda>c. (dcId c, dcCommitments c)) cs"] that by (simp add: comp_def fold_map)
  ultimately show ?thesis using ok s(2) g(4) by (intro exI [of _ cs]) simp
qed


lemma honest_turn:
  assumes B: "box_laws B" and ok: "\<forall>m\<in>set ms. memberOk t m" and d: "distinct (map (memberPub B) ms)"
    and es: "set (map enCiphertext (ofKind Dkg1 es)) = set (map (\<lambda>m. b64Json (announceJson (memberAnnounce B sid m))) ms)"
    and k: "k < length ms" and cm: "seatSpec L B sid t context ms k cm"
  shows "memberTurn L B sid (length ms) t context es (seated B ms ! k) = Inr (honestRoster B ms, int k + 1, snd cm)"
  using honest_round1 [OF B ok d es k] seatSpecD(3) [OF cm] by (simp add: memberTurn_def)

text \<open>The sharing that an honest ceremony sets up.\<close>

lemma honest_sharing:
  assumes L: "bjj_laws L" and ok: "\<forall>m\<in>set ms. memberOk t m" and cm: "\<And>k. k < length ms \<Longrightarrow> seatSpec L B sid t context ms k (cm k)"
  shows "\<exists>r. dkg_consistent L (idsTo (length ms)) t (\<Sum>k\<leftarrow>[0..<length ms]. hd (seatPoly B t ms k)) r
    \<and> (\<forall>i\<in>set (idsTo (length ms)). dkgShares r i = Some ((\<Sum>k\<leftarrow>[0..<length ms]. horner (seatPoly B t ms k) i) mod subOrder L))"
proof -
  let ?fs = "map (seatPoly B t ms) [0..<length ms]"
  have "length (seatPoly B t ms k) = t" if "k < length ms" for k
  proof -
    have "memberOk t (seated B ms ! k)" using that ok nth_mem [of k "seated B ms"] by simp
    then show ?thesis by (simp add: memberOk_def seatPoly_def)
  qed
  then have lens: "\<forall>f\<in>set ?fs. length f = t" by simp
  have "list_all2 (dealsPoly L (idsTo (length ms))) ?fs (map (\<lambda>k. fst (cm k)) [0..<length ms])"
    using seatSpecD(1) [OF cm] by (simp add: list_all2_conv_all_nth)
  from aggregate_consistent [OF L this lens] show ?thesis by (elim exE conjE) (rule exI, simp add: comp_def)
qed

text \<open>C10: An honest ceremony succeeds.  Let any number of members below the group order, with distinct
  identities, run the two rounds on one session, each on its own collection of the messages of all
  of them, in any order and with announces possibly repeated.  Then every member's rounds resolve; all
  members obtain the same group key and the same group view key; and there is one consistent
  sharing of one secret, of which each member holds the share of its identifier: the group key is the secret
  times the base point, and every quorum of the threshold interpolates its shares to the secret.\<close>

theorem honest_ceremony_agrees:
  assumes L: "bjj_laws L" "fr_laws L" and B: "box_laws B"
    and ok: "\<forall>m\<in>set ms. memberOk t m" and d: "distinct (map (memberPub B) ms)"
    and n: "int (length ms) < subOrder L" and t: "0 < t" and sid: "list_all plainChar sid" and ctx: "isFr context"
    and D1: "\<forall>m\<in>set ms. set (map enCiphertext (ofKind Dkg1 (D1 m)))
        = set (map (\<lambda>m. b64Json (announceJson (memberAnnounce B sid m))) ms)"
    and D2: "\<forall>m\<in>set ms. mset (map enCiphertext (ofKind Dkg2 (D2 m)))
        = mset (map (\<lambda>m. b64Json (snd (snd (projr (memberTurn L B sid (length ms) t context (D1 m) m))))) ms)"
  shows "\<exists>secret r view. dkg_consistent L (idsTo (length ms)) t secret r
    \<and> (\<forall>m\<in>set ms. \<exists>ro i msg res. memberTurn L B sid (length ms) t context (D1 m) m = Inr (ro, i, msg)
        \<and> round2 L B sid t (length ms) context (mbSeed m) ro i (D2 m) = Inr res
        \<and> i \<in> set (idsTo (length ms)) \<and> ceGpk res = dkgC r \<and> dkgShares r i = Some (ceShare res) \<and> groupView L res = view)"
proof -
  let ?n = "length ms" and ?s = "seated B ms"
  let ?views = "map (\<lambda>k. (int k + 1, seatR B ms k))"
  have "\<forall>k. \<exists>cm. k < ?n \<longrightarrow> seatSpec L B sid t context ms k cm" using honest_message [OF L B ok d n t sid ctx] by blast
  from choice [OF this] obtain cm where cm: "\<And>k. k < ?n \<Longrightarrow> seatSpec L B sid t context ms k (cm k)" by blast
  obtain r where r: "dkg_consistent L (idsTo ?n) t (\<Sum>k\<leftarrow>[0..<?n]. hd (seatPoly B t ms k)) r"
    "\<forall>i\<in>set (idsTo ?n). dkgShares r i = Some ((\<Sum>k\<leftarrow>[0..<?n]. horner (seatPoly B t ms k) i) mod subOrder L)"
    using honest_sharing [OF L(1) ok cm] by blast
  have mem: "?s ! k \<in> set ms" if "k < ?n" for k using nth_mem [of k ?s] that by simp
  have turn: "memberTurn L B sid ?n t context (D1 (?s ! k)) (?s ! k) = Inr (honestRoster B ms, int k + 1, snd (cm k))" if k: "k < ?n" for k
    using honest_turn [OF B ok d _ k cm [OF k]] D1 mem [OF k] by blast
  let ?G = "\<lambda>m. b64Json (snd (snd (projr (memberTurn L B sid ?n t context (D1 m) m))))"
  have texts: "mset (map ?G ms) = mset (map (\<lambda>k. b64Json (snd (cm k))) [0..<?n])"
  proof -
    have "mset (map ?G ms) = mset (map ?G ?s)" by (simp only: mset_map seated_simps(1))
    also have "map ?G ?s = map (\<lambda>k. b64Json (snd (cm k))) [0..<?n]" by (rule nth_equalityI) (simp_all add: turn)
    finally show ?thesis .
  qed
  have main: "\<exists>res. round2 L B sid t ?n context (mbSeed (?s ! j)) (honestRoster B ms) (int j + 1) (D2 (?s ! j)) = Inr res
      \<and> ceGpk res = dkgC r \<and> dkgShares r (int j + 1) = Some (ceShare res) \<and> mset (ceViews res) = mset (?views [0..<?n])" if j: "j < ?n" for j
  proof -
    have D2j: "mset (map enCiphertext (ofKind Dkg2 (D2 (?s ! j)))) = mset (map (\<lambda>k. b64Json (snd (cm k))) [0..<?n])"
      using D2 mem [OF j] texts by simp
    obtain ks where ks: "mset ks = mset [0..<?n]" "map enCiphertext (ofKind Dkg2 (D2 (?s ! j))) = map (\<lambda>k. b64Json (snd (cm k))) ks"
      using perm_map [OF D2j] by blast
    have set: "set ks \<subseteq> {..<?n}" "distinct ks" "mset (?views ks) = mset (?views [0..<?n])"
      using mset_eq_setD [OF ks(1)] mset_eq_imp_distinct_iff [OF ks(1)] ks(1) by (auto simp: lessThan_atLeast0)
    have "int j + 1 \<in> set (idsTo ?n)" using j by (simp add: idsTo_def)
    then show ?thesis
      using honest_round2 [OF L(1) cm j _ ks(2)] set r sum_perm [OF ks(1)] by (auto simp: dkg_consistent_def)
  qed
  have views32: "distinct (map fst (ceViews res)) \<and> (\<forall>v\<in>set (ceViews res). length (snd v) = 32) \<and> (?n \<noteq> 0 \<longrightarrow> ceViews res \<noteq> [])"
    if v: "mset (ceViews res) = mset (?views [0..<?n])" for res
  proof -
    have "length (seatR B ms k) = 32" if "k < ?n" for k using ok mem [OF that] by (simp add: seatR_def memberOk_def)
    moreover have "distinct (map fst (?views [0..<?n]))" by (simp add: comp_def distinct_map inj_on_def)
    ultimately show ?thesis
      using mset_eq_setD [OF v] mset_eq_imp_distinct_iff [of "map fst (ceViews res)" "map fst (?views [0..<?n])"] v
      by (auto simp del: map_map)
  qed
  define view where "view = groupView L \<lparr>ceSession = sid, ceMyId = 0, ceThreshold = t, ceMembers = ?n, ceIds = idsTo ?n,
      ceGpk = dkgC r, ceShare = 0, ceCommitments = [], ceViews = ?views [0..<?n]\<rparr>"
  have "\<exists>ro i msg res. memberTurn L B sid ?n t context (D1 m) m = Inr (ro, i, msg)
        \<and> round2 L B sid t ?n context (mbSeed m) ro i (D2 m) = Inr res
        \<and> i \<in> set (idsTo ?n) \<and> ceGpk res = dkgC r \<and> dkgShares r i = Some (ceShare res) \<and> groupView L res = view"
    if mm: "m \<in> set ms" for m
  proof -
    obtain k where k: "k < ?n" "m = ?s ! k" using mm by (metis in_set_conv_nth seated_simps(2,3))
    obtain res where res: "round2 L B sid t ?n context (mbSeed m) (honestRoster B ms) (int k + 1) (D2 m) = Inr res"
      "ceGpk res = dkgC r" "dkgShares r (int k + 1) = Some (ceShare res)" "mset (ceViews res) = mset (?views [0..<?n])"
      using main [OF k(1)] unfolding k(2) by blast
    have "groupView L res = view" unfolding view_def
      by (rule groupView_perm) (use res(2,4) views32 [OF res(4)] k(1) in auto)
    moreover have "int k + 1 \<in> set (idsTo ?n)" using k(1) by (simp add: idsTo_def)
    ultimately show ?thesis using turn [OF k(1)] res unfolding k(2) by blast
  qed
  then show ?thesis using r(1) by blast
qed

text \<open>C39: Repeated dealer messages are summed again.  The second round never compares dealer numbers: on any list of
  honest messages, with repetitions and omissions, every member's round resolves, and two members obtain the same group
  key if and only if the sums of the dealers' secrets over their two lists agree modulo the group order.  So
  a replayed message changes the key of whoever reads it, without any error.\<close>

theorem replayed_dealer_summed_again:
  assumes L: "bjj_laws L" "fr_laws L" and B: "box_laws B"
    and ok: "\<forall>m\<in>set ms. memberOk t m" and d: "distinct (map (memberPub B) ms)"
    and n: "int (length ms) < subOrder L" and t: "0 < t" and sid: "list_all plainChar sid" and ctx: "isFr context"
  shows "\<exists>msg. (\<forall>k<length ms. makeDealerMessage L B sid t context (mbSeed (seated B ms ! k)) (mbDraws (seated B ms ! k)) (honestRoster B ms) (int k + 1) = Inr (msg k))
    \<and> (\<forall>j j' es es' ks ks'. j < length ms \<and> j' < length ms \<and> set ks \<subseteq> {..<length ms} \<and> set ks' \<subseteq> {..<length ms}
         \<and> map enCiphertext (ofKind Dkg2 es) = map (\<lambda>k. b64Json (msg k)) ks \<and> map enCiphertext (ofKind Dkg2 es') = map (\<lambda>k. b64Json (msg k)) ks'
       \<longrightarrow> (\<exists>res res'. round2 L B sid t (length ms) context (mbSeed (seated B ms ! j)) (honestRoster B ms) (int j + 1) es = Inr res
          \<and> round2 L B sid t (length ms) context (mbSeed (seated B ms ! j')) (honestRoster B ms) (int j' + 1) es' = Inr res'
          \<and> (ceGpk res = ceGpk res' \<longleftrightarrow> (\<Sum>k\<leftarrow>ks. hd (seatPoly B t ms k)) mod subOrder L = (\<Sum>k\<leftarrow>ks'. hd (seatPoly B t ms k)) mod subOrder L)))"
proof -
  have "\<forall>k. \<exists>cm. k < length ms \<longrightarrow> seatSpec L B sid t context ms k cm" using honest_message [OF L B ok d n t sid ctx] by blast
  from choice [OF this] obtain cm where cm: "\<And>k. k < length ms \<Longrightarrow> seatSpec L B sid t context ms k (cm k)" by blast
  show ?thesis
  proof (intro exI [of _ "\<lambda>k. snd (cm k)"] conjI allI impI)
    show "makeDealerMessage L B sid t context (mbSeed (seated B ms ! k)) (mbDraws (seated B ms ! k)) (honestRoster B ms) (int k + 1) = Inr (snd (cm k))"
      if "k < length ms" for k by (rule seatSpecD(3) [OF cm [OF that]])
  next
    fix j j' es es' ks ks'
    assume a: "j < length ms \<and> j' < length ms \<and> set ks \<subseteq> {..<length ms} \<and> set ks' \<subseteq> {..<length ms}
         \<and> map enCiphertext (ofKind Dkg2 es) = map (\<lambda>k. b64Json (snd (cm k))) ks \<and> map enCiphertext (ofKind Dkg2 es') = map (\<lambda>k. b64Json (snd (cm k))) ks'"
    then obtain res res' where "round2 L B sid t (length ms) context (mbSeed (seated B ms ! j)) (honestRoster B ms) (int j + 1) es = Inr res"
      "ceGpk res = scalarBaseMul L (\<Sum>k\<leftarrow>ks. hd (seatPoly B t ms k))"
      "round2 L B sid t (length ms) context (mbSeed (seated B ms ! j')) (honestRoster B ms) (int j' + 1) es' = Inr res'"
      "ceGpk res' = scalarBaseMul L (\<Sum>k\<leftarrow>ks'. hd (seatPoly B t ms k))"
      using honest_round2 [OF L(1) cm, where j = j and es = es and ks = ks] honest_round2 [OF L(1) cm, where j = j' and es = es' and ks = ks'] by blast
    then show "\<exists>res res'. round2 L B sid t (length ms) context (mbSeed (seated B ms ! j)) (honestRoster B ms) (int j + 1) es = Inr res
          \<and> round2 L B sid t (length ms) context (mbSeed (seated B ms ! j')) (honestRoster B ms) (int j' + 1) es' = Inr res'
          \<and> (ceGpk res = ceGpk res' \<longleftrightarrow> (\<Sum>k\<leftarrow>ks. hd (seatPoly B t ms k)) mod subOrder L = (\<Sum>k\<leftarrow>ks'. hd (seatPoly B t ms k)) mod subOrder L)"
      by (intro exI [of _ res] exI [of _ res']) (simp add: bjj_base_inj [OF L(1)])
  qed
qed

section \<open>Concrete ceremonies\<close>

definition toyBytes :: "byte list \<Rightarrow> byte list" where
  "toyBytes bs = map (\<lambda>b. b mod 256) bs"

definition toyBox :: boxLibs where
  "toyBox = \<lparr>edPublicKey = toyBytes, edSign = (\<lambda>msg seed. toyBytes seed @ [sum_list msg mod 256]),
     edVerify = (\<lambda>sig msg pub. Inr (sig = pub @ [sum_list msg mod 256])), edwardsToMontgomeryPriv = (\<lambda>s. s),
     x25519PublicKey = toyBytes, x25519SharedSecret = (\<lambda>a P. Inr (map2 (\<lambda>x y. (x + y) mod 256) (toyBytes a) P)),
     hkdfSha256 = (\<lambda>ikm info n. take n ikm), xcEncrypt = (\<lambda>k n pt. pt), xcDecrypt = (\<lambda>k n ct. Inr ct)\<rparr>"

lemma toyBytes_bytes: "list_all isByte (toyBytes bs)"
  by (induction bs) (simp_all add: toyBytes_def isByte_def)

lemma toyBox_laws: "box_laws toyBox"
proof -
  have "map2 (\<lambda>x y. (x + y) mod 256) as bs = map2 (\<lambda>x y. (x + y) mod 256) bs (as :: nat list)" for as bs
    by (induction as bs rule: list_induct2') (simp_all add: add.commute)
  then show ?thesis by (auto simp: box_laws_def toyBox_def toyBytes_bytes isByte_def Let_def)
qed

definition toyMember :: "nat \<Rightarrow> member" where
  "toyMember s = \<lparr>mbSeed = replicate 32 s,
     mbDraws = \<lparr>cdScalars = [int s + 3, 6, 9], cdR = replicate 32 s, cdNonce = (\<lambda>i. replicate 24 7)\<rparr>\<rparr>"

definition toyMembers :: "member list" where
  "toyMembers = [toyMember 1, toyMember 2]"

definition toySid :: string where "toySid = replicate 64 CHR ''a''"

definition toyEnvelope :: "envelopeKind \<Rightarrow> string \<Rightarrow> envelope" where
  "toyEnvelope k c = \<lparr>enSession = toySid, enSeq = 0, enKind = k, enCiphertext = c\<rparr>"

lemma toyMembers_ok: "\<forall>m\<in>set toyMembers. memberOk 2 m"
  by (simp add: toyMembers_def toyMember_def memberOk_def NONCE_LEN_def isByte_def list_all_iff)

lemma toyMembers_distinct: "distinct (map (memberPub toyBox) toyMembers)"
  by (simp add: toyMembers_def toyMember_def memberPub_def toyBox_def toyBytes_def)

lemma toyMembers_length [simp]: "length toyMembers = 2"
  by (simp add: toyMembers_def)

lemma toySid_plain: "list_all plainChar toySid"
proof -
  have "plainChar CHR ''a''" by (simp add: plain_eval)
  then show ?thesis by (simp add: toySid_def list_all_iff)
qed

lemma toyOrder: "int (length toyMembers) < subOrder toyLibs" "isFr 5"
  by (simp_all add: toyLibs_def isFr_small)

definition toyRound1 :: "envelope list" where
  "toyRound1 = map (\<lambda>m. toyEnvelope Dkg1 (b64Json (announceJson (memberAnnounce toyBox toySid m)))) toyMembers"

lemma toyEnvelopes: "ofKind k (map (\<lambda>x. toyEnvelope k (g x)) xs) = map (\<lambda>x. toyEnvelope k (g x)) xs"
  "map enCiphertext (map (\<lambda>x. toyEnvelope k (g x)) xs) = map g xs"
  by (simp_all add: ofKind_def toyEnvelope_def comp_def)

lemma toyRound1_texts:
  "set (map enCiphertext (ofKind Dkg1 toyRound1)) = set (map (\<lambda>m. b64Json (announceJson (memberAnnounce toyBox toySid m))) toyMembers)"
  unfolding toyRound1_def toyEnvelopes ..

lemma toy_round1: "k < 2 \<Longrightarrow>
    round1 toyBox toySid 2 (memberPub toyBox (seated toyBox toyMembers ! k)) toyRound1 = Inr (honestRoster toyBox toyMembers, int k + 1)"
  using honest_round1 [OF toyBox_laws toyMembers_ok toyMembers_distinct toyRound1_texts, of k] by simp

theorem members_share_roster_witness:
  "round1 toyBox toySid 2 (memberPub toyBox (seated toyBox toyMembers ! 0)) toyRound1 = Inr (honestRoster toyBox toyMembers, 1)
    \<and> round1 toyBox toySid 2 (memberPub toyBox (seated toyBox toyMembers ! 1)) toyRound1 = Inr (honestRoster toyBox toyMembers, 2)
    \<and> roIds (honestRoster toyBox toyMembers) = [1, 2]"
proof -
  have "map (\<lambda>k. int k + 1) [0..<2] = [1, 2]" by (simp add: numeral_eq_Suc)
  then show ?thesis
    using toy_round1 [of 0] toy_round1 [of 1] members_share_roster [OF toy_round1 [of 0] toy_round1 [of 1] prefix_order.refl] by simp
qed

theorem honest_ceremony_agrees_witness:
  "\<exists>secret r view. dkg_consistent toyLibs (idsTo 2) 2 secret r
    \<and> (\<forall>m\<in>set toyMembers. \<exists>ro i msg res. memberTurn toyLibs toyBox toySid 2 2 5 toyRound1 m = Inr (ro, i, msg)
        \<and> round2 toyLibs toyBox toySid 2 2 5 (mbSeed m) ro i
            (map (\<lambda>m. toyEnvelope Dkg2 (b64Json (snd (snd (projr (memberTurn toyLibs toyBox toySid 2 2 5 toyRound1 m)))))) toyMembers) = Inr res
        \<and> ceGpk res = dkgC r \<and> groupView toyLibs res = view)"
proof -
  let ?D2 = "map (\<lambda>m. toyEnvelope Dkg2 (b64Json (snd (snd (projr (memberTurn toyLibs toyBox toySid 2 2 5 toyRound1 m)))))) toyMembers"
  have D2: "\<forall>m\<in>set toyMembers. mset (map enCiphertext (ofKind Dkg2 ?D2))
      = mset (map (\<lambda>m. b64Json (snd (snd (projr (memberTurn toyLibs toyBox toySid 2 2 5 toyRound1 m))))) toyMembers)"
    unfolding toyEnvelopes by simp
  show ?thesis
    using honest_ceremony_agrees [OF toyLibs_bjj_laws toyLibs_fr_laws toyBox_laws toyMembers_ok toyMembers_distinct toyOrder(1) _ toySid_plain toyOrder(2),
        of "\<lambda>_. toyRound1" "\<lambda>_. ?D2"] toyRound1_texts D2 unfolding toyMembers_length by fastforce
qed

lemma toy_round2:
  "\<exists>es res. length (ofKind Dkg2 es) = 2
    \<and> round2 toyLibs toyBox toySid 2 2 5 (mbSeed (seated toyBox toyMembers ! 0)) (honestRoster toyBox toyMembers) 1 es = Inr res"
proof -
  have "\<forall>k. \<exists>cm. k < length toyMembers \<longrightarrow> seatSpec toyLibs toyBox toySid 2 5 toyMembers k cm"
    using honest_message [OF toyLibs_bjj_laws toyLibs_fr_laws toyBox_laws toyMembers_ok toyMembers_distinct toyOrder(1) zero_less_numeral toySid_plain toyOrder(2)]
    by blast
  from choice [OF this] obtain cm where cm: "\<And>k. k < length toyMembers \<Longrightarrow> seatSpec toyLibs toyBox toySid 2 5 toyMembers k (cm k)" by blast
  let ?es = "map (\<lambda>k. toyEnvelope Dkg2 (b64Json (snd (cm k)))) [0, 1]"
  have "map enCiphertext (ofKind Dkg2 ?es) = map (\<lambda>k. b64Json (snd (cm k))) [0, 1]" unfolding toyEnvelopes ..
  then have "\<exists>res. round2 toyLibs toyBox toySid 2 2 5 (mbSeed (seated toyBox toyMembers ! 0)) (honestRoster toyBox toyMembers) 1 ?es = Inr res"
    using honest_round2 [OF toyLibs_bjj_laws cm, where j = 0 and ks = "[0, 1]" and es = ?es] by auto
  then show ?thesis unfolding toyEnvelopes by (intro exI [of _ ?es]) (simp add: toyEnvelopes [of Dkg2 _ "[0, 1]", simplified] ofKind_def toyEnvelope_def)
qed

theorem ceremony_output_verified_witness:
  "\<exists>es res cs. length (ofKind Dkg2 es) = 2
    \<and> round2 toyLibs toyBox toySid 2 2 5 (mbSeed (seated toyBox toyMembers ! 0)) (honestRoster toyBox toyMembers) 1 es = Inr res
    \<and> aggregateKey toyLibs cs = Inr (ceGpk res)
    \<and> scalarBaseMul toyLibs (ceShare res) = aggregatePublicShareAt toyLibs 1 (map dcCommitments cs)"
  using toy_round2 ceremony_output_verified [OF toyLibs_bjj_laws] by blast

theorem replayed_dealer_summed_again_witness:
  "\<exists>(msg :: nat \<Rightarrow> json) res res'. round2 toyLibs toyBox toySid 2 2 5 (mbSeed (seated toyBox toyMembers ! 0)) (honestRoster toyBox toyMembers) 1
        [toyEnvelope Dkg2 (b64Json (msg 0)), toyEnvelope Dkg2 (b64Json (msg 0))] = Inr res
    \<and> round2 toyLibs toyBox toySid 2 2 5 (mbSeed (seated toyBox toyMembers ! 1)) (honestRoster toyBox toyMembers) 2
        [toyEnvelope Dkg2 (b64Json (msg 0)), toyEnvelope Dkg2 (b64Json (msg 0)), toyEnvelope Dkg2 (b64Json (msg 1))] = Inr res'
    \<and> ceGpk res \<noteq> ceGpk res'"
proof -
  let ?m = "\<lambda>msg ks. map (\<lambda>k. toyEnvelope Dkg2 (b64Json (msg k))) (ks :: nat list)"
  obtain msg where msg: "\<forall>j j' es es' ks ks'. j < 2 \<and> j' < 2 \<and> set ks \<subseteq> {..<2} \<and> set ks' \<subseteq> {..<2}
         \<and> map enCiphertext (ofKind Dkg2 es) = map (\<lambda>k. b64Json (msg k)) ks \<and> map enCiphertext (ofKind Dkg2 es') = map (\<lambda>k. b64Json (msg k)) ks'
       \<longrightarrow> (\<exists>res res'. round2 toyLibs toyBox toySid 2 2 5 (mbSeed (seated toyBox toyMembers ! j)) (honestRoster toyBox toyMembers) (int j + 1) es = Inr res
          \<and> round2 toyLibs toyBox toySid 2 2 5 (mbSeed (seated toyBox toyMembers ! j')) (honestRoster toyBox toyMembers) (int j' + 1) es' = Inr res'
          \<and> (ceGpk res = ceGpk res' \<longleftrightarrow> (\<Sum>k\<leftarrow>ks. hd (seatPoly toyBox 2 toyMembers k)) mod subOrder toyLibs
              = (\<Sum>k\<leftarrow>ks'. hd (seatPoly toyBox 2 toyMembers k)) mod subOrder toyLibs))"
    using replayed_dealer_summed_again [OF toyLibs_bjj_laws toyLibs_fr_laws toyBox_laws toyMembers_ok toyMembers_distinct toyOrder(1) zero_less_numeral toySid_plain toyOrder(2)]
    unfolding toyMembers_length by (elim exE conjE)
  have last: "hd (seatPoly toyBox 2 toyMembers 1) mod 13 \<noteq> 0"
  proof -
    have "seated toyBox toyMembers ! 1 \<in> set toyMembers" using nth_mem [of 1 "seated toyBox toyMembers"] by simp
    then show ?thesis by (auto simp: seatPoly_def toyMembers_def toyMember_def)
  qed
  have add: "(a + a) mod 13 \<noteq> (a + (a + b)) mod 13" if "b mod 13 \<noteq> 0" for a b :: int
    unfolding mod_eq_dvd_iff using that by (simp add: mod_eq_0_iff_dvd)
  have neq: "(\<Sum>k\<leftarrow>[0, 0]. hd (seatPoly toyBox 2 toyMembers k)) mod subOrder toyLibs
      \<noteq> (\<Sum>k\<leftarrow>[0, 0, 1]. hd (seatPoly toyBox 2 toyMembers k)) mod subOrder toyLibs"
    using add [OF last] by (simp add: toyLibs_def)
  have "\<exists>res res'. round2 toyLibs toyBox toySid 2 2 5 (mbSeed (seated toyBox toyMembers ! 0)) (honestRoster toyBox toyMembers) (int 0 + 1) (?m msg [0, 0]) = Inr res
          \<and> round2 toyLibs toyBox toySid 2 2 5 (mbSeed (seated toyBox toyMembers ! 1)) (honestRoster toyBox toyMembers) (int 1 + 1) (?m msg [0, 0, 1]) = Inr res'
          \<and> (ceGpk res = ceGpk res' \<longleftrightarrow> (\<Sum>k\<leftarrow>[0, 0]. hd (seatPoly toyBox 2 toyMembers k)) mod subOrder toyLibs
              = (\<Sum>k\<leftarrow>[0, 0, 1]. hd (seatPoly toyBox 2 toyMembers k)) mod subOrder toyLibs)"
    by (rule msg [rule_format]) (unfold toyEnvelopes, simp)
  then obtain res res' where r: "round2 toyLibs toyBox toySid 2 2 5 (mbSeed (seated toyBox toyMembers ! 0)) (honestRoster toyBox toyMembers) (int 0 + 1) (?m msg [0, 0]) = Inr res"
    "round2 toyLibs toyBox toySid 2 2 5 (mbSeed (seated toyBox toyMembers ! 1)) (honestRoster toyBox toyMembers) (int 1 + 1) (?m msg [0, 0, 1]) = Inr res'"
    "ceGpk res \<noteq> ceGpk res'" using neq by (elim exE conjE) blast
  show ?thesis by (rule exI [of _ msg], rule exI [of _ res], rule exI [of _ res']) (use r in simp)
qed

end
