(* ===== verification/ProposalRuns.thy ===== *)
theory ProposalRuns
  imports Proposal HonestCeremony
begin

text \<open>
  Runs of \<open>cli/src/proposal/proposal.ts\<close>: what a sealed nonce or share is read back as, a signing session of honest
  signers on the relay from \<open>signProposal\<close> to the aggregated signature, a concrete two-of-three session on which
  the witnesses run, and what the aggregator does when a third signer's nonce is on that session.
\<close>

section \<open>What comes back from a session\<close>

lemma open_sealed:
  assumes "box_laws B" "length nonce = NONCE_LEN" "list_all isByte nonce" "jsonPlain v"
  shows "openSessionJson B key (sealSessionJson B key nonce v) = Inr v"
proof -
  have "list_all isByte (xcEncrypt B key nonce (utf8 (stringify v)))" "xcDecrypt B key nonce (xcEncrypt B key nonce (utf8 (stringify v))) = Inr (utf8 (stringify v))"
    using assms utf8_bytes by (simp_all add: box_laws_def)
  then show ?thesis using assms
    by (simp add: openSessionJson_def sealSessionJson_def openSession_def sealSession_def base64_round_trip utf8_text json_round_trip)
qed

lemma foldR_skip:
  "foldR (\<lambda>byId e. if \<not> P e then Inr byId else F byId e) s xs = foldR F s (filter P xs)"
  by (induction xs arbitrary: s) simp_all

definition decodeStep :: "boxLibs \<Rightarrow> byte list \<Rightarrow> string \<Rightarrow> (json option \<times> json) list \<Rightarrow> envelope \<Rightarrow> (json option \<times> json) list result" where
  "decodeStep B key pid byId e =
     (case openSessionJson B key (enCiphertext e) of Inl _ \<Rightarrow> Inr byId
      | Inr parsed \<Rightarrow>
        if parsed = JNull then Inl jsonTypeError
        else if jsonGet ''proposalId'' parsed \<noteq> Some (JStr pid) then Inr byId
        else Inr (AList.update (jsonGet ''id'' parsed) parsed byId))"

lemma decodeUnique_step:
  "decodeUnique B key kind pid envs = bindR (foldR (decodeStep B key pid) [] (ofKind kind envs)) (\<lambda>byId. Inr (map snd byId))"
  unfolding decodeUnique_def ofKind_def foldR_skip [of "\<lambda>e. enKind e = kind", symmetric] decodeStep_def ..

lemma decodeUnique_map:
  assumes "map enCiphertext (ofKind kind envs) = map (\<lambda>x. sealSessionJson B key (n x) (v x)) xs"
    and "\<And>x. x \<in> set xs \<Longrightarrow> openSessionJson B key (sealSessionJson B key (n x) (v x)) = Inr (v x)
        \<and> jsonGet ''proposalId'' (v x) = Some (JStr pid)"
    and "distinct (map (\<lambda>x. jsonGet ''id'' (v x)) xs)"
  shows "decodeUnique B key kind pid envs = Inr (map v xs)"
proof -
  have "foldR (decodeStep B key pid) [] es = Inr (map (\<lambda>x. (jsonGet ''id'' (v x), v x)) xs)"
    if "map enCiphertext es = map (\<lambda>x. sealSessionJson B key (n x) (v x)) xs" for es
    using that assms(2,3)
  proof (induction xs arbitrary: es rule: rev_induct)
    case (snoc x xs)
    then obtain es0 e where es: "es = es0 @ [e]" "map enCiphertext es0 = map (\<lambda>x. sealSessionJson B key (n x) (v x)) xs"
      "enCiphertext e = sealSessionJson B key (n x) (v x)"
      by (cases es rule: rev_cases) auto
    have 1: "foldR (decodeStep B key pid) [] es0 = Inr (map (\<lambda>x. (jsonGet ''id'' (v x), v x)) xs)"
      by (rule snoc.IH [OF es(2)]) (use snoc.prems es(1) in auto)
    have x: "openSessionJson B key (enCiphertext e) = Inr (v x)" "jsonGet ''proposalId'' (v x) = Some (JStr pid)"
      using snoc.prems(2) es(3) by simp_all
    then have "v x \<noteq> JNull" by (auto simp: jsonGet_def)
    moreover have "jsonGet ''id'' (v x) \<notin> fst ` set (map (\<lambda>x. (jsonGet ''id'' (v x), v x)) xs)" using snoc.prems(3) by auto
    moreover from x \<open>v x \<noteq> JNull\<close> have "decodeStep B key pid acc e = Inr (AList.update (jsonGet ''id'' (v x)) (v x) acc)" for acc
      by (simp add: decodeStep_def)
    ultimately show ?case using 1 by (simp add: es(1) foldR_append update_fresh)
  qed simp
  from this [OF assms(1)] show ?thesis by (simp add: decodeUnique_step comp_def)
qed

lemma nonceJson_plain:
  "list_all plainChar pid \<Longrightarrow> 0 \<le> cId c \<Longrightarrow> nonnegPoint (cD c) \<Longrightarrow> nonnegPoint (cE c) \<Longrightarrow> jsonPlain (nonceJson pid c)"
  by (simp add: nonceJson_def decimal_plain pointJson_plain plain_eval)

lemma nonceJson_get: "jsonGet ''proposalId'' (nonceJson pid c) = Some (JStr pid)" "jsonGet ''id'' (nonceJson pid c) = Some (JStr (bigToString (cId c)))"
  by (simp_all add: nonceJson_def jsonGet_def)

lemma commitmentFromJson_json:
  "0 \<le> cId c \<Longrightarrow> nonnegPoint (cD c) \<Longrightarrow> nonnegPoint (cE c) \<Longrightarrow> commitmentFromJson (nonceJson pid c) = Inr c"
  by (simp add: commitmentFromJson_def nonceJson_def jsonStr_def jsonField_def jsonGet_def decimal_round_trip pointFromJson_json)

lemma shareJson_plain: "list_all plainChar pid \<Longrightarrow> 0 \<le> i \<Longrightarrow> 0 \<le> z \<Longrightarrow> jsonPlain (shareJson pid i z)"
  by (simp add: shareJson_def decimal_plain plain_eval)

lemma shareJson_get: "jsonGet ''proposalId'' (shareJson pid i z) = Some (JStr pid)" "jsonGet ''id'' (shareJson pid i z) = Some (JStr (bigToString i))"
  by (simp_all add: shareJson_def jsonGet_def)

lemma shareFromJson_json:
  "0 \<le> i \<Longrightarrow> 0 \<le> z \<Longrightarrow> pubs (bigToString i) = Some V \<Longrightarrow> shareFromJson pubs (shareJson pid i z) = Inr \<lparr>pId = i, pZ = z, pPublicShare = V\<rparr>"
  by (simp add: shareFromJson_def shareJson_def jsonStr_def jsonGet_def decimal_round_trip)

lemma mapR_id: "(\<And>x. x \<in> set xs \<Longrightarrow> f (v x) = Inr (g x)) \<Longrightarrow> mapR f (map v xs) = Inr (map g xs)"
  by (induction xs) simp_all

lemma honest_commitment_nonneg: "bjj_laws L \<Longrightarrow> nonnegPoint (cD (honestCommitment L sg)) \<and> nonnegPoint (cE (honestCommitment L sg))"
  using subgroup_nonneg [of L] by (simp add: honestCommitment_def)

lemma distinct_decimal:
  assumes "distinct (map i xs)" "\<And>x. x \<in> set xs \<Longrightarrow> (0::int) \<le> i x"
  shows "distinct (map (\<lambda>x. Some (JStr (bigToString (i x)))) xs)"
proof -
  have "inj_on (\<lambda>x. Some (JStr (bigToString (i x)))) (set xs)"
  proof (rule inj_onI)
    fix x y assume a: "x \<in> set xs" "y \<in> set xs" "Some (JStr (bigToString (i x))) = Some (JStr (bigToString (i y)))"
    then have "i x = i y" using decimal_inj assms(2) by simp
    then show "x = y" using assms(1) a(1,2) by (auto simp: distinct_map dest: inj_onD)
  qed
  then show ?thesis using assms(1) by (simp add: distinct_map)
qed

lemma read_sealed_shares:
  assumes B: "box_laws B" and pid: "list_all plainChar pid"
    and xs: "\<forall>x\<in>set xs. length (n x) = NONCE_LEN \<and> list_all isByte (n x) \<and> 0 \<le> i x \<and> 0 \<le> z x \<and> pubs (bigToString (i x)) = Some (V x)"
    and d: "distinct (map i xs)"
    and es: "map enCiphertext (ofKind Share es) = map (\<lambda>x. sealSessionJson B key (n x) (shareJson pid (i x) (z x))) xs"
  shows "readShares B key pid pubs es = Inr (map (\<lambda>x. \<lparr>pId = i x, pZ = z x, pPublicShare = V x\<rparr>) xs)"
    and "enoughFor B key Share pid t es \<longleftrightarrow> t \<le> length xs"
proof -
  have dec: "decodeUnique B key Share pid es = Inr (map (\<lambda>x. shareJson pid (i x) (z x)) xs)"
  proof (rule decodeUnique_map [OF es])
    show "openSessionJson B key (sealSessionJson B key (n x) (shareJson pid (i x) (z x))) = Inr (shareJson pid (i x) (z x))
        \<and> jsonGet ''proposalId'' (shareJson pid (i x) (z x)) = Some (JStr pid)" if "x \<in> set xs" for x
      using open_sealed [OF B, of "n x" "shareJson pid (i x) (z x)" key] xs that shareJson_plain [OF pid] by (simp add: shareJson_get)
    show "distinct (map (\<lambda>x. jsonGet ''id'' (shareJson pid (i x) (z x))) xs)"
      unfolding shareJson_get by (rule distinct_decimal [OF d]) (use xs in blast)
  qed
  have "mapR (shareFromJson pubs) (map (\<lambda>x. shareJson pid (i x) (z x)) xs) = Inr (map (\<lambda>x. \<lparr>pId = i x, pZ = z x, pPublicShare = V x\<rparr>) xs)"
    by (rule mapR_id, rule shareFromJson_json) (use xs in auto)
  with dec show "readShares B key pid pubs es = Inr (map (\<lambda>x. \<lparr>pId = i x, pZ = z x, pPublicShare = V x\<rparr>) xs)"
    by (simp add: readShares_def)
  show "enoughFor B key Share pid t es \<longleftrightarrow> t \<le> length xs" by (simp add: enoughFor_def dec)
qed

section \<open>A signing session on the relay\<close>

lemma polyEval_isFr: "bjj_laws L \<Longrightarrow> isFr (polyEval L f x)"
proof -
  assume L: "bjj_laws L"
  have "0 < subOrder L" "subOrder L \<le> BJJ_SUBGROUP_ORDER" using L by (auto simp: bjj_laws_def is_prime_def)
  moreover have "BJJ_SUBGROUP_ORDER < BN254_P" by (simp add: BJJ_SUBGROUP_ORDER_def BN254_P_def)
  moreover have "polyEval L f x = horner f x mod subOrder L" by (rule polyEval_horner [OF L])
  ultimately show ?thesis using pos_mod_sign [of "subOrder L" "horner f x"] pos_mod_bound [of "subOrder L" "horner f x"] unfolding isFr_def by linarith
qed

lemma commit_honest:
  assumes "bjj_laws L" "fr_laws L" "isFr s"
  shows "\<exists>h. commit (bjjCiphersuite L) i s hr br = Inr (h, honestCommitment L (i, h)) \<and> \<not> consumed h"
proof -
  have "isFr (bytesToField bs)" for bs
    using smod_range [of "bytesBE bs" BN254_P] bytesBE_nonneg [of bs] by (simp add: bytesToField_def isFr_def BN254_P_def)
  then obtain d e where "bjjNonceScalar L hr s = Inr d" "bjjNonceScalar L br s = Inr e"
    using hashToScalar_ok [OF assms(2), of FROST_NONCE_DOMAIN] assms(3) by (force simp: bjjNonceScalar_def)
  then show ?thesis by (simp add: commit_def honestCommitment_def newNonceHandle_def scalarBaseMul_def)
qed

text \<open>A signer's run: its identifier, what it draws, the relay as it answers and the client's guesses.  All
  runs sign over the sharing polynomial \<open>f\<close>.\<close>

record signerRun =
  srId :: int
  srDraws :: signDraws
  srNet :: "nat \<Rightarrow> clientNet"
  srGuess :: seqGuesses

definition runHandle :: "libs \<Rightarrow> int list \<Rightarrow> signerRun \<Rightarrow> nonceHandle" where
  "runHandle L f r = fst (projr (commit (bjjCiphersuite L) (srId r) (polyEval L f (srId r)) (sdHiding (srDraws r)) (sdBinding (srDraws r))))"

definition runSigner :: "libs \<Rightarrow> int list \<Rightarrow> signerRun \<Rightarrow> int \<times> nonceHandle" where
  "runSigner L f r = (srId r, runHandle L f r)"

definition runOptions :: "libs \<Rightarrow> int list \<Rightarrow> string \<Rightarrow> byte list \<Rightarrow> string \<Rightarrow> nat \<Rightarrow> signerRun \<Rightarrow> signOptions" where
  "runOptions L f sid key pid t r = \<lparr>soSession = sid, soKey = key, soProposal = pid, soMyId = srId r,
     soShare = polyEval L f (srId r), soGpk = scalarBaseMul L (polyEval L f 0), soThreshold = t, soMaxRounds = None\<rparr>"

definition nonceText :: "libs \<Rightarrow> boxLibs \<Rightarrow> int list \<Rightarrow> byte list \<Rightarrow> string \<Rightarrow> signerRun \<Rightarrow> string" where
  "nonceText L B f key pid r = sealSessionJson B key (sdNonce1 (srDraws r)) (nonceJson pid (honestCommitment L (runSigner L f r)))"

definition shareText :: "boxLibs \<Rightarrow> byte list \<Rightarrow> string \<Rightarrow> signerRun \<times> int \<Rightarrow> string" where
  "shareText B key pid = (\<lambda>(r, z). sealSessionJson B key (sdNonce2 (srDraws r)) (shareJson pid (srId r) z))"

definition runOk :: "signerRun \<Rightarrow> bool" where
  "runOk r \<longleftrightarrow> isFr (srId r) \<and> length (sdNonce1 (srDraws r)) = NONCE_LEN \<and> list_all isByte (sdNonce1 (srDraws r))
     \<and> length (sdNonce2 (srDraws r)) = NONCE_LEN \<and> list_all isByte (sdNonce2 (srDraws r))"

text \<open>The relay shows a signer the proposal, takes its nonce, and then shows the nonces of all runs.\<close>

definition runServed :: "libs \<Rightarrow> boxLibs \<Rightarrow> int list \<Rightarrow> string \<Rightarrow> byte list \<Rightarrow> string \<Rightarrow> nat \<Rightarrow> json \<Rightarrow> signerRun list \<Rightarrow> signerRun \<Rightarrow> bool" where
  "runServed L B f sid key pid t proposal rs r \<longleftrightarrow>
     fetchProposal B (srNet r 0) key pid = Inr proposal
     \<and> (\<exists>e. fst (appendNext (srNet r 1) (srGuess r) sid Nonce (nonceText L B f key pid r) None) = Inr e)
     \<and> (\<exists>es. collectUntil (srNet r 2) (enoughFor B key Nonce pid t) None None = Inr es
          \<and> map enCiphertext (ofKind Nonce es) = map (nonceText L B f key pid) rs)"

lemma run_commit:
  assumes "bjj_laws L" "fr_laws L"
  shows "commit (bjjCiphersuite L) (srId r) (polyEval L f (srId r)) (sdHiding (srDraws r)) (sdBinding (srDraws r))
      = Inr (runHandle L f r, honestCommitment L (runSigner L f r)) \<and> \<not> consumed (runHandle L f r)"
  using commit_honest [OF assms polyEval_isFr [OF assms(1)], of "srId r" f "srId r" "sdHiding (srDraws r)" "sdBinding (srDraws r)"]
  by (auto simp: runHandle_def runSigner_def)

lemma read_run_nonces:
  assumes "bjj_laws L" "box_laws B" "list_all plainChar pid" "\<forall>r\<in>set rs. runOk r" "distinct (map srId rs)"
    and "map enCiphertext (ofKind Nonce es) = map (nonceText L B f key pid) rs"
  shows "readCommitments B key pid es = Inr (map (honestCommitment L) (map (runSigner L f) rs))"
    and "enoughFor B key Nonce pid t es \<longleftrightarrow> t \<le> length rs"
proof -
  have cid: "cId (honestCommitment L (runSigner L f r)) = srId r" for r by (simp add: honestCommitment_def runSigner_def)
  have ids: "0 \<le> srId r" "length (sdNonce1 (srDraws r)) = NONCE_LEN" "list_all isByte (sdNonce1 (srDraws r))" if "r \<in> set rs" for r
    using assms(4) that by (auto simp: runOk_def isFr_def)
  have dec: "decodeUnique B key Nonce pid es = Inr (map (\<lambda>r. nonceJson pid (honestCommitment L (runSigner L f r))) rs)"
  proof (rule decodeUnique_map)
    show "map enCiphertext (ofKind Nonce es) = map (\<lambda>x. sealSessionJson B key (sdNonce1 (srDraws x)) (nonceJson pid (honestCommitment L (runSigner L f x)))) rs"
      using assms(6) by (simp add: nonceText_def)
    show "openSessionJson B key (sealSessionJson B key (sdNonce1 (srDraws x)) (nonceJson pid (honestCommitment L (runSigner L f x))))
          = Inr (nonceJson pid (honestCommitment L (runSigner L f x)))
        \<and> jsonGet ''proposalId'' (nonceJson pid (honestCommitment L (runSigner L f x))) = Some (JStr pid)" if "x \<in> set rs" for x
      using open_sealed [OF assms(2) ids(2,3) [OF that], of "nonceJson pid (honestCommitment L (runSigner L f x))" key] ids(1) [OF that]
        nonceJson_plain [OF assms(3), of "honestCommitment L (runSigner L f x)"] honest_commitment_nonneg [OF assms(1)] by (simp add: nonceJson_get cid)
    show "distinct (map (\<lambda>x. jsonGet ''id'' (nonceJson pid (honestCommitment L (runSigner L f x)))) rs)"
      unfolding nonceJson_get cid by (rule distinct_decimal [OF assms(5)]) (use ids(1) in blast)
  qed
  have "mapR commitmentFromJson (map (\<lambda>r. nonceJson pid (honestCommitment L (runSigner L f r))) rs)
      = Inr (map (\<lambda>r. honestCommitment L (runSigner L f r)) rs)"
    by (rule mapR_id, rule commitmentFromJson_json) (use ids(1) honest_commitment_nonneg [OF assms(1)] in \<open>simp_all add: cid\<close>)
  with dec show "readCommitments B key pid es = Inr (map (honestCommitment L) (map (runSigner L f) rs))"
    by (simp add: readCommitments_def comp_def)
  show "enoughFor B key Nonce pid t es \<longleftrightarrow> t \<le> length rs" by (simp add: enoughFor_def dec)
qed


lemma signShare_range:
  assumes "bjj_laws L" "snd (signShare (bjjCiphersuite L) i h s gpk msg coms) = Inr z"
  shows "0 \<le> z"
proof -
  have "0 < subOrder L" using assms(1) by (auto simp: bjj_laws_def is_prime_def)
  then show ?thesis using assms(2)
    by (auto simp: signShare_def signShareUnchecked_def Let_def bindR_eq_Inr frostMod_def posMod_eq_mod split: sum.splits)
qed

text \<open>The shares of the runs: each is what \<open>signShare\<close> gives over the commitments of all runs.\<close>

lemma run_shares:
  fixes L f and rs :: "signerRun list"
  assumes L: "bjj_laws L" "fr_laws L" and rs: "\<forall>r\<in>set rs. runOk r" "signerSetOk (subOrder L) (map srId rs)"
  defines "signers \<equiv> map (runSigner L f) rs" and "gpk \<equiv> scalarBaseMul L (polyEval L f 0)"
  obtains ps where "list_all2 (\<lambda>r p. snd (signShare (bjjCiphersuite L) (srId r) (runHandle L f r) (polyEval L f (srId r)) gpk msg
        (map (honestCommitment L) signers)) = Inr (pZ p) \<and> 0 \<le> pZ p
      \<and> p = \<lparr>pId = srId r, pZ = pZ p, pPublicShare = scalarBaseMul L (polyEval L f (srId r))\<rparr>) rs ps"
    "\<forall>p\<in>set ps. verifySignatureShare (bjjCiphersuite L) (pId p) (pZ p) (pPublicShare p) gpk msg (map (honestCommitment L) signers) = Inr True"
    "map pId ps = map srId rs"
proof -
  have fst: "map fst signers = map srId rs" by (simp add: signers_def runSigner_def comp_def)
  have "\<forall>sg\<in>set signers. isFr (fst sg) \<and> \<not> consumed (snd sg)"
    using rs(1) run_commit [OF L] by (auto simp: signers_def runSigner_def runOk_def)
  then obtain ps where ps: "honestSigns L f msg signers = Inr ps" "map pId ps = map srId rs"
    "\<forall>p\<in>set ps. verifySignatureShare (bjjCiphersuite L) (pId p) (pZ p) (pPublicShare p) gpk msg (map (honestCommitment L) signers) = Inr True"
    using honestSigns_ok [OF L, of signers f msg] rs(2) by (auto simp: fst gpk_def)
  have "list_all2 (\<lambda>sg p. \<exists>z. snd (signShare (bjjCiphersuite L) (fst sg) (snd sg) (polyEval L f (fst sg)) gpk msg
        (map (honestCommitment L) signers)) = Inr z \<and> p = \<lparr>pId = fst sg, pZ = z, pPublicShare = scalarBaseMul L (polyEval L f (fst sg))\<rparr>) signers ps"
    using ps(1) by (simp add: honestSigns_def mapR_eq_Inr split_beta bindR_eq_Inr gpk_def) (erule list_all2_mono, auto)
  then have "list_all2 (\<lambda>r p. snd (signShare (bjjCiphersuite L) (srId r) (runHandle L f r) (polyEval L f (srId r)) gpk msg
        (map (honestCommitment L) signers)) = Inr (pZ p) \<and> 0 \<le> pZ p
      \<and> p = \<lparr>pId = srId r, pZ = pZ p, pPublicShare = scalarBaseMul L (polyEval L f (srId r))\<rparr>) rs ps"
    unfolding signers_def list_all2_map1 runSigner_def fst_conv snd_conv
    by (rule list_all2_mono) (elim exE conjE, simp, erule signShare_range [OF L(1)])
  then show ?thesis using that ps(2,3) by blast
qed


text \<open>One run, given the share that \<open>signShare\<close> makes over the commitments of all runs.\<close>

lemma run_posts:
  assumes L: "bjj_laws L" "fr_laws L" and B: "box_laws B" and pid: "list_all plainChar pid"
    and m: "proposalMessage proposal = Inr msg"
    and rs: "\<forall>r\<in>set rs. runOk r" "distinct (map srId rs)"
    and served: "runServed L B f sid key pid t proposal rs r" and r: "r \<in> set rs"
    and z: "snd (signShare (bjjCiphersuite L) (srId r) (runHandle L f r) (polyEval L f (srId r)) (scalarBaseMul L (polyEval L f 0)) msg
      (map (honestCommitment L) (map (runSigner L f) rs))) = Inr z"
  shows "signProposal L B (srNet r) (srGuess r) (runOptions L f sid key pid t r) (srDraws r)
        = fst (appendNext (srNet r 3) (snd (appendNext (srNet r 1) (srGuess r) sid Nonce (nonceText L B f key pid r) None))
            sid Share (shareText B key pid (r, z)) None)"
proof -
  obtain e g where e: "appendNext (srNet r 1) (srGuess r) sid Nonce (nonceText L B f key pid r) None = (Inr e, g)"
    using served by (auto simp: runServed_def) (metis prod.collapse)
  obtain es where es: "collectUntil (srNet r 2) (enoughFor B key Nonce pid t) None None = Inr es"
    "map enCiphertext (ofKind Nonce es) = map (nonceText L B f key pid) rs" using served by (auto simp: runServed_def)
  have share: "shareOver L (runOptions L f sid key pid t r) (runHandle L f r) msg (map (honestCommitment L) (map (runSigner L f) rs)) = Inr z"
    using z by (simp add: shareOver_def runOptions_def)
  show ?thesis
    using served run_commit [OF L, of r f] e es(1) m read_run_nonces(1) [OF L(1) B pid rs es(2)] share
    by (simp add: signProposal_def runServed_def runOptions_def nonceText_def shareText_def)
qed

lemma run_aggregate:
  assumes L: "bjj_laws L" "fr_laws L"
    and rs: "\<forall>r\<in>set rs. runOk r" "signerSetOk (subOrder L) (map srId rs)" "length f \<le> length rs" "t \<le> length rs"
    and ok: "\<forall>p\<in>set ps. verifySignatureShare (bjjCiphersuite L) (pId p) (pZ p) (pPublicShare p) (scalarBaseMul L (polyEval L f 0)) msg
      (map (honestCommitment L) (map (runSigner L f) rs)) = Inr True"
    and ids: "map pId ps = map srId rs" and pub: "\<forall>p\<in>set ps. pPublicShare p = scalarBaseMul L (polyEval L f (pId p))"
  shows "\<exists>sig. aggregateShares L (scalarBaseMul L (polyEval L f 0)) msg t (map (honestCommitment L) (map (runSigner L f) rs)) ps = Inr sig
    \<and> frostVerify (bjjCiphersuite L) (scalarBaseMul L (polyEval L f 0)) msg sig = Inr True"
proof -
  let ?gpk = "scalarBaseMul L (polyEval L f 0)" and ?coms = "map (honestCommitment L) (map (runSigner L f) rs)"
  have fst: "map fst (map (runSigner L f) rs) = map srId rs" by (simp add: runSigner_def comp_def)
  have "\<forall>sg\<in>set (map (runSigner L f) rs). isFr (fst sg)" using rs(1) by (auto simp: runSigner_def runOk_def)
  then have ses: "sessionOk L ?gpk ?coms" using honest_session [OF L(1), of "map (runSigner L f) rs"] rs(2) unfolding fst by blast
  obtain rhos R where R: "bindingFactors (bjjCiphersuite L) ?gpk msg ?coms = Inr rhos" "groupCommitment (bjjCiphersuite L) ?coms rhos = Inr R"
    using session_values [OF L ses] by metis
  have len: "length ps = length rs" using ids by (metis length_map)
  have cids: "map cId ?coms = map pId ps" by (simp add: ids honestCommitment_def runSigner_def comp_def)
  have "coordinatorAggregate (bjjCiphersuite L) R ?gpk msg ?coms ps t = Inr (frostAggregate (bjjCiphersuite L) R (map pZ ps))"
    by (rule coordinatorAggregate_ok) (use ok rs(4) len ids signerSetOk_distinct [OF rs(2)] in auto)
  moreover have "frostVerify (bjjCiphersuite L) ?gpk msg (frostAggregate (bjjCiphersuite L) R (map pZ ps)) = Inr True"
    by (rule aggregate_verifies [OF L ses _ _ _ ok, where f = f]) (use R rs(3) len pub in \<open>simp_all add: cids keyShared_def del: map_map\<close>)
  ultimately show ?thesis using R by (simp add: aggregateShares_def del: map_map)
qed

lemma zip_fst: "length xs = length ys \<Longrightarrow> map (\<lambda>x. g (fst x)) (zip xs ys) = map g xs"
  by (induction xs ys rule: list_induct2) simp_all

text \<open>C11: Signing over the relay.  Let at least a threshold of signers with distinct identifiers run \<open>signProposal\<close>
  on one proposal, each being shown the proposal and the nonces of all of them.  Then each run ends by posting
  a share, and an aggregator that is shown the proposal, those nonces and those shares and holds the
  signers' public shares outputs a signature over the proposal's message that verifies under the group key.\<close>

theorem honest_proposal_signed:
  assumes L: "bjj_laws L" "fr_laws L" and B: "box_laws B" and pid: "list_all plainChar pid"
    and m: "proposalMessage proposal = Inr msg"
    and rs: "\<forall>r\<in>set rs. runOk r" "signerSetOk (subOrder L) (map srId rs)" "length f \<le> length rs" "t \<le> length rs"
    and served: "\<forall>r\<in>set rs. runServed L B f sid key pid t proposal rs r"
  shows "\<exists>zs. length zs = length rs
    \<and> (\<forall>(r, z)\<in>set (zip rs zs). 0 \<le> z \<and> signProposal L B (srNet r) (srGuess r) (runOptions L f sid key pid t r) (srDraws r)
        = fst (appendNext (srNet r 3) (snd (appendNext (srNet r 1) (srGuess r) sid Nonce (nonceText L B f key pid r) None))
            sid Share (shareText B key pid (r, z)) None))
    \<and> (\<forall>net pubs nonceEnvs shareEnvs. fetchProposal B (net 0) key pid = Inr proposal
        \<and> collectUntil (net 1) (enoughFor B key Nonce pid t) None None = Inr nonceEnvs
        \<and> map enCiphertext (ofKind Nonce nonceEnvs) = map (nonceText L B f key pid) rs
        \<and> collectUntil (net 2) (enoughFor B key Share pid t) None None = Inr shareEnvs
        \<and> map enCiphertext (ofKind Share shareEnvs) = map (shareText B key pid) (zip rs zs)
        \<and> (\<forall>r\<in>set rs. pubs (bigToString (srId r)) = Some (scalarBaseMul L (polyEval L f (srId r))))
      \<longrightarrow> (\<exists>sig. aggregateProposal L B net key pid (scalarBaseMul L (polyEval L f 0)) t pubs None = Inr (sig, msg, proposal)
          \<and> frostVerify (bjjCiphersuite L) (scalarBaseMul L (polyEval L f 0)) msg sig = Inr True))"
proof -
  let ?signers = "map (runSigner L f) rs" and ?gpk = "scalarBaseMul L (polyEval L f 0)"
  let ?coms = "map (honestCommitment L) ?signers"
  have d: "distinct (map srId rs)" by (rule signerSetOk_distinct [OF rs(2)])
  obtain ps where ps: "list_all2 (\<lambda>r p. snd (signShare (bjjCiphersuite L) (srId r) (runHandle L f r) (polyEval L f (srId r)) ?gpk msg ?coms) = Inr (pZ p)
      \<and> 0 \<le> pZ p \<and> p = \<lparr>pId = srId r, pZ = pZ p, pPublicShare = scalarBaseMul L (polyEval L f (srId r))\<rparr>) rs ps"
    "\<forall>p\<in>set ps. verifySignatureShare (bjjCiphersuite L) (pId p) (pZ p) (pPublicShare p) ?gpk msg ?coms = Inr True"
    "map pId ps = map srId rs" using run_shares [OF L rs(1,2)] by blast
  let ?zs = "map pZ ps"
  have len: "length ps = length rs" using ps(1) list_all2_lengthD by force
  have zs: "\<forall>(r, z)\<in>set (zip rs ?zs). snd (signShare (bjjCiphersuite L) (srId r) (runHandle L f r) (polyEval L f (srId r)) ?gpk msg ?coms) = Inr z \<and> 0 \<le> z"
    using ps(1) by (auto simp: list_all2_iff zip_map2)
  have ps_eq: "ps = map (\<lambda>x. \<lparr>pId = srId (fst x), pZ = snd x, pPublicShare = scalarBaseMul L (polyEval L f (srId (fst x)))\<rparr>) (zip rs ?zs)"
    using ps(1) by (induction rule: list_all2_induct) simp_all
  have pub: "pPublicShare p = scalarBaseMul L (polyEval L f (pId p))" if "p \<in> set ps" for p
    using that by (subst (asm) ps_eq) auto
  show ?thesis
  proof (intro exI [of _ ?zs] conjI ballI allI impI)
    fix x assume x: "x \<in> set (zip rs ?zs)"
    obtain r z where rz: "x = (r, z)" by (cases x)
    then have r: "r \<in> set rs" using x by (auto dest: set_zip_leftD)
    show "case x of (r, z) \<Rightarrow> 0 \<le> z \<and> signProposal L B (srNet r) (srGuess r) (runOptions L f sid key pid t r) (srDraws r)
        = fst (appendNext (srNet r 3) (snd (appendNext (srNet r 1) (srGuess r) sid Nonce (nonceText L B f key pid r) None))
            sid Share (shareText B key pid (r, z)) None)"
      using run_posts [OF L B pid m rs(1) d _ r] served r zs x rz by auto
  next
    fix net :: "nat \<Rightarrow> clientNet" and pubs nonceEnvs shareEnvs
    assume a: "fetchProposal B (net 0) key pid = Inr proposal
        \<and> collectUntil (net 1) (enoughFor B key Nonce pid t) None None = Inr nonceEnvs
        \<and> map enCiphertext (ofKind Nonce nonceEnvs) = map (nonceText L B f key pid) rs
        \<and> collectUntil (net 2) (enoughFor B key Share pid t) None None = Inr shareEnvs
        \<and> map enCiphertext (ofKind Share shareEnvs) = map (shareText B key pid) (zip rs ?zs)
        \<and> (\<forall>r\<in>set rs. pubs (bigToString (srId r)) = Some (scalarBaseMul L (polyEval L f (srId r))))"
    show "\<exists>sig. aggregateProposal L B net key pid ?gpk t pubs None = Inr (sig, msg, proposal)
          \<and> frostVerify (bjjCiphersuite L) ?gpk msg sig = Inr True"
    proof -
      have "readShares B key pid pubs shareEnvs = Inr (map (\<lambda>x. \<lparr>pId = srId (fst x), pZ = snd x, pPublicShare = scalarBaseMul L (polyEval L f (srId (fst x)))\<rparr>) (zip rs ?zs))"
        by (rule read_sealed_shares [OF B pid, where n = "\<lambda>x. sdNonce2 (srDraws (fst x))"])
          (use a zs rs(1) d len in \<open>auto simp: runOk_def isFr_def shareText_def split_beta zip_fst dest: set_zip_leftD\<close>)
      then have "readShares B key pid pubs shareEnvs = Inr ps" unfolding ps_eq [symmetric] .
      moreover have "readCommitments B key pid nonceEnvs = Inr ?coms" using read_run_nonces(1) [OF L(1) B pid rs(1) d] a by blast
      moreover have "\<exists>sig. aggregateShares L ?gpk msg t ?coms ps = Inr sig \<and> frostVerify (bjjCiphersuite L) ?gpk msg sig = Inr True"
        by (rule run_aggregate [OF L rs ps(2,3)]) (use pub in blast)
      ultimately show ?thesis using a m by (auto simp: aggregateProposal_def)
    qed
  qed (simp add: len)
qed

section \<open>A session in the small\<close>

lemma collect_once:
  assumes "pollOnce net 0 (- 1) = Inr S" "numbered S" "P S" "0 < orElse m 40"
  shows "collectUntil net P m None = Inr S"
proof -
  obtain k where k: "orElse m 40 = Suc k" using assms(4) gr0_implies_Suc by blast
  have "fold seeEnvelope S ([], - 1) = (map (\<lambda>e. (enSeq e, e)) S, int (length S) - 1)"
    using see_prefix [OF assms(2), of 0 S] by simp
  then show ?thesis
    using assms(1,3) numbered_sorted [OF assms(2)] by (simp add: collectUntil_def k comp_def)
qed

lemma proposalJson_plain:
  "list_all plainChar (ppKind p) \<Longrightarrow> list_all plainChar (ppId p) \<Longrightarrow> list_all plainChar (ppMessageHex p) \<Longrightarrow> jsonPlain (ppDetails p)
    \<Longrightarrow> jsonPlain (proposalJson p)"
  by (simp add: proposalJson_def plain_eval)

text \<open>A session whose first envelope is the proposal.\<close>

lemma fetch_first:
  assumes B: "box_laws B" "length n = NONCE_LEN" "list_all isByte n" "jsonPlain (proposalJson p)"
    and S: "pollOnce net 0 (- 1) = Inr (e # S)" "numbered (e # S)"
    and e: "enKind e = Proposal" "enCiphertext e = sealSessionJson B key n (proposalJson p)"
  shows "fetchProposal B net key (ppId p) = Inr (proposalJson p)"
proof -
  have "openSessionJson B key (enCiphertext e) = Inr (proposalJson p)" using open_sealed [OF B] e(2) by simp
  moreover have "matchesProposal B key (ppId p) e"
    using calculation e(1) by (simp add: matchesProposal_def) (simp add: proposalJson_def jsonGet_def)
  moreover have "collectUntil net (\<lambda>envs. list_ex (matchesProposal B key (ppId p)) envs) (Some 1) None = Inr (e # S)"
    by (rule collect_once [OF S]) (use calculation(2) in simp_all)
  ultimately show ?thesis by (simp add: fetchProposal_def findProposal_def)
qed

definition demoStream :: "(envelopeKind \<times> string) list \<Rightarrow> envelope list" where
  "demoStream items = map (\<lambda>(i, k, c). \<lparr>enSession = toySid, enSeq = int i, enKind = k, enCiphertext = c\<rparr>) (enumerate 0 items)"

definition demoNet :: "(envelopeKind \<times> string) list \<Rightarrow> nat \<Rightarrow> clientNet" where
  "demoNet items = (\<lambda>_. \<lparr>netAppend = (\<lambda>_ _. Inr 201), netPoll = (\<lambda>_ _. Inr (200, demoStream items))\<rparr>)"

lemma demoStream_Cons: "demoStream ((k, c) # items) = \<lparr>enSession = toySid, enSeq = 0, enKind = k, enCiphertext = c\<rparr>
    # map (\<lambda>(i, k, c). \<lparr>enSession = toySid, enSeq = int i, enKind = k, enCiphertext = c\<rparr>) (enumerate 1 items)"
  by (simp add: demoStream_def)

lemma demoStream_numbered: "numbered (demoStream items)"
  unfolding numbered_def
  by (rule nth_equalityI) (simp_all add: demoStream_def nth_enumerate_eq split_beta)

lemma demo_texts: "map enCiphertext (ofKind k (demoStream items)) = map snd (filter (\<lambda>i. fst i = k) items)"
proof -
  have "map enCiphertext (ofKind k (map (\<lambda>(i, k, c). \<lparr>enSession = toySid, enSeq = int i, enKind = k, enCiphertext = c\<rparr>) (enumerate n items)))
      = map snd (filter (\<lambda>i. fst i = k) items)" for n
    by (induction items arbitrary: n) (auto simp: ofKind_def)
  then show ?thesis by (simp add: demoStream_def)
qed

lemma demo_poll: "pollOnce (demoNet items k) r c = Inr (demoStream items)"
  by (simp add: pollOnce_def demoNet_def statusOk_def)

lemma demo_append: "fst (appendNext (demoNet items k) guess sid kind c None)
    = Inr \<lparr>enSession = sid, enSeq = orElse (guess sid) 0, enKind = kind, enCiphertext = c\<rparr>"
  by (simp add: appendNext_def demoNet_def clientAppend_def statusOk_def numeral_eq_Suc)

definition demoProposal :: proposalPayload where
  "demoProposal = \<lparr>ppKind = ''transfer'', ppId = ''p1'', ppMessageHex = ''0x7b'', ppDetails = JNull\<rparr>"

definition demoBase :: "int \<Rightarrow> signerRun" where
  "demoBase i = \<lparr>srId = i, srDraws = \<lparr>sdHiding = replicate 32 3, sdBinding = replicate 32 (nat i + 4), sdNonce1 = replicate 24 (nat i),
     sdNonce2 = replicate 24 9\<rparr>, srNet = demoNet [], srGuess = Map.empty\<rparr>"

definition demoKey :: "byte list" where "demoKey = replicate 32 1"

definition demoHead :: "(envelopeKind \<times> string) list" where
  "demoHead = [(Proposal, sealSessionJson toyBox demoKey (replicate 24 5) (proposalJson demoProposal))]"

definition demoNonces :: "int list \<Rightarrow> (envelopeKind \<times> string) list" where
  "demoNonces ids = map (\<lambda>i. (Nonce, nonceText toyLibs toyBox [7, 2] demoKey ''p1'' (demoBase i))) ids"

text \<open>Signer \<open>i\<close> is shown the nonces of \<open>ids\<close>.\<close>

definition demoRun :: "int list \<Rightarrow> int \<Rightarrow> signerRun" where
  "demoRun ids i = (demoBase i)\<lparr>srNet := demoNet (demoHead @ demoNonces ids)\<rparr>"

definition demoShares :: "(int \<times> int) list \<Rightarrow> (envelopeKind \<times> string) list" where
  "demoShares zs = map (\<lambda>(i, z). (Share, shareText toyBox demoKey ''p1'' (demoBase i, z))) zs"

definition demoPubs :: "string \<rightharpoonup> point" where
  "demoPubs = map_of (map (\<lambda>i. (bigToString i, scalarBaseMul toyLibs (polyEval toyLibs [7, 2] i))) [1, 2, 3])"

lemma demo_run_same: "runHandle L f (demoRun ids i) = runHandle L f (demoBase i)" "runSigner L f (demoRun ids i) = runSigner L f (demoBase i)"
  "nonceText L B f key pid (demoRun ids i) = nonceText L B f key pid (demoBase i)" "shareText B key pid (demoRun ids i, z) = shareText B key pid (demoBase i, z)"
  "srId (demoRun ids i) = i" "srNet (demoRun ids i) = demoNet (demoHead @ demoNonces ids)" "runOk (demoRun ids i) = runOk (demoBase i)"
  by (simp_all add: demoRun_def demoBase_def runHandle_def runSigner_def nonceText_def shareText_def runOk_def)

lemma demo_head: "jsonPlain (proposalJson demoProposal)" "proposalMessage (proposalJson demoProposal) = Inr (encodeMessage 123)"
  "list_all plainChar ''p1''"
proof -
  show "list_all plainChar ''p1''" by (simp add: plain_eval)
  show "jsonPlain (proposalJson demoProposal)" by (rule proposalJson_plain) (simp_all add: demoProposal_def plain_eval)
  have "BigIntOf ''0x7b'' = Inr 123" by code_simp
  then show "proposalMessage (proposalJson demoProposal) = Inr (encodeMessage 123)"
    by (simp add: proposalMessage_def proposalJson_def demoProposal_def jsonStr_def jsonGet_def)
qed

lemma demo_fetch: "fetchProposal toyBox (demoNet (demoHead @ items) k) demoKey ''p1'' = Inr (proposalJson demoProposal)"
proof -
  have pid: "ppId demoProposal = ''p1''" by (simp add: demoProposal_def)
  obtain S where S: "demoStream (demoHead @ items) = \<lparr>enSession = toySid, enSeq = 0, enKind = Proposal,
      enCiphertext = sealSessionJson toyBox demoKey (replicate 24 5) (proposalJson demoProposal)\<rparr> # S"
    by (simp add: demoHead_def demoStream_Cons)
  show ?thesis unfolding pid [symmetric]
    by (rule fetch_first [OF toyBox_laws _ _ demo_head(1), of "replicate 24 5", OF _ _ demo_poll [of "demoHead @ items", unfolded S]])
      (use demoStream_numbered [of "demoHead @ items"] in \<open>simp_all add: S NONCE_LEN_def isByte_def list_all_iff\<close>)
qed


lemma demoBase_ok: "0 \<le> i \<Longrightarrow> i < 13 \<Longrightarrow> runOk (demoBase i)"
  by (auto simp: runOk_def demoBase_def NONCE_LEN_def isByte_def list_all_iff isFr_small)

lemma demo_collect: "P (demoStream items) \<Longrightarrow> collectUntil (demoNet items k) P None None = Inr (demoStream items)"
  by (rule collect_once [OF demo_poll demoStream_numbered]) simp_all

lemma demo_texts_of:
  "map enCiphertext (ofKind Nonce (demoStream (demoHead @ demoNonces ids @ demoShares zs))) = map (nonceText toyLibs toyBox [7, 2] demoKey ''p1'') (map demoBase ids)"
  "map enCiphertext (ofKind Nonce (demoStream (demoHead @ demoNonces ids))) = map (nonceText toyLibs toyBox [7, 2] demoKey ''p1'') (map demoBase ids)"
  "map enCiphertext (ofKind Share (demoStream (demoHead @ demoNonces ids @ demoShares zs))) = map (shareText toyBox demoKey ''p1'') (map (\<lambda>(i, z). (demoBase i, z)) zs)"
  unfolding demo_texts by (simp_all add: demoHead_def demoNonces_def demoShares_def comp_def split_beta)

lemma demo_nonces:
  assumes "\<forall>i\<in>set ids. 0 \<le> i \<and> i < 13" "distinct ids"
    and "map enCiphertext (ofKind Nonce es) = map (nonceText toyLibs toyBox [7, 2] demoKey ''p1'') (map demoBase ids)"
  shows "readCommitments toyBox demoKey ''p1'' es = Inr (map (honestCommitment toyLibs) (map (runSigner toyLibs [7, 2]) (map demoBase ids)))"
    and "enoughFor toyBox demoKey Nonce ''p1'' t es \<longleftrightarrow> t \<le> length ids"
proof -
  have ok: "\<forall>r\<in>set (map demoBase ids). runOk r" using assms(1) demoBase_ok by simp
  have d: "distinct (map srId (map demoBase ids))" using assms(2) by (simp add: demoBase_def comp_def)
  show "readCommitments toyBox demoKey ''p1'' es = Inr (map (honestCommitment toyLibs) (map (runSigner toyLibs [7, 2]) (map demoBase ids)))"
    by (rule read_run_nonces(1) [OF toyLibs_bjj_laws toyBox_laws demo_head(3) ok d assms(3)])
  show "enoughFor toyBox demoKey Nonce ''p1'' t es \<longleftrightarrow> t \<le> length ids"
    using read_run_nonces(2) [OF toyLibs_bjj_laws toyBox_laws demo_head(3) ok d assms(3)] by simp
qed

lemma demo_run_served:
  assumes "\<forall>i\<in>set ids. 0 \<le> i \<and> i < 13" "distinct ids" "t \<le> length ids"
  shows "runServed toyLibs toyBox [7, 2] sid demoKey ''p1'' t (proposalJson demoProposal) (map (demoRun ids) ids) (demoRun ids i)"
proof -
  have "map (nonceText toyLibs toyBox [7, 2] demoKey ''p1'') (map (demoRun ids) ids) = map (nonceText toyLibs toyBox [7, 2] demoKey ''p1'') (map demoBase ids)"
    by (simp add: demo_run_same)
  moreover have "collectUntil (demoNet (demoHead @ demoNonces ids) 2) (enoughFor toyBox demoKey Nonce ''p1'' t) None None = Inr (demoStream (demoHead @ demoNonces ids))"
    by (rule demo_collect) (simp add: demo_nonces(2) [OF assms(1,2) demo_texts_of(2)] assms(3))
  ultimately show ?thesis
    using demo_fetch [of "demoNonces ids" 0] demo_texts_of(2) [of ids] by (simp add: runServed_def demo_run_same demo_append)
qed

lemma demo_pubs: "i \<in> {1, 2, 3} \<Longrightarrow> demoPubs (bigToString i) = Some (scalarBaseMul toyLibs (polyEval toyLibs [7, 2] i))"
proof -
  have "bigToString (1::int) = ''1''" "bigToString (2::int) = ''2''" "bigToString (3::int) = ''3''" by code_simp+
  then show "i \<in> {1, 2, 3} \<Longrightarrow> ?thesis" by (auto simp: demoPubs_def)
qed

lemma demo_shares:
  assumes zs: "\<forall>(i, z)\<in>set zs. i \<in> {1, 2, 3} \<and> 0 \<le> z" "distinct (map fst zs)"
  shows "readShares toyBox demoKey ''p1'' demoPubs (demoStream (demoHead @ demoNonces ids @ demoShares zs))
      = Inr (map (\<lambda>x. \<lparr>pId = fst x, pZ = snd x, pPublicShare = scalarBaseMul toyLibs (polyEval toyLibs [7, 2] (fst x))\<rparr>) zs)"
    and "enoughFor toyBox demoKey Share ''p1'' t (demoStream (demoHead @ demoNonces ids @ demoShares zs)) \<longleftrightarrow> t \<le> length zs"
proof -
  let ?S = "demoStream (demoHead @ demoNonces ids @ demoShares zs)"
  have st: "map enCiphertext (ofKind Share ?S) = map (\<lambda>x. sealSessionJson toyBox demoKey (replicate 24 9) (shareJson ''p1'' (fst x) (snd x))) zs"
    unfolding demo_texts_of by (simp add: shareText_def demoBase_def split_beta comp_def)
  have x: "\<forall>x\<in>set zs. length (replicate 24 (9::nat)) = NONCE_LEN \<and> list_all isByte (replicate 24 9) \<and> 0 \<le> fst x \<and> 0 \<le> snd x
      \<and> demoPubs (bigToString (fst x)) = Some (scalarBaseMul toyLibs (polyEval toyLibs [7, 2] (fst x)))"
    using zs(1) demo_pubs by (auto simp: NONCE_LEN_def isByte_def list_all_iff)
  show "readShares toyBox demoKey ''p1'' demoPubs ?S
      = Inr (map (\<lambda>x. \<lparr>pId = fst x, pZ = snd x, pPublicShare = scalarBaseMul toyLibs (polyEval toyLibs [7, 2] (fst x))\<rparr>) zs)"
    by (rule read_sealed_shares(1) [OF toyBox_laws demo_head(3) x zs(2) st])
  show "enoughFor toyBox demoKey Share ''p1'' t ?S \<longleftrightarrow> t \<le> length zs"
    by (rule read_sealed_shares(2) [OF toyBox_laws demo_head(3) x zs(2) st])
qed

lemma demo_aggregate:
  assumes ids: "\<forall>i\<in>set ids. 0 \<le> i \<and> i < 13" "distinct ids" "2 \<le> length ids"
    and zs: "\<forall>(i, z)\<in>set zs. i \<in> {1, 2, 3} \<and> 0 \<le> z" "distinct (map fst zs)" "2 \<le> length zs"
  shows "aggregateProposal toyLibs toyBox (demoNet (demoHead @ demoNonces ids @ demoShares zs)) demoKey ''p1'' gpk 2 demoPubs None
    = bindR (aggregateShares toyLibs gpk (encodeMessage 123) 2 (map (honestCommitment toyLibs) (map (runSigner toyLibs [7, 2]) (map demoBase ids)))
        (map (\<lambda>x. \<lparr>pId = fst x, pZ = snd x, pPublicShare = scalarBaseMul toyLibs (polyEval toyLibs [7, 2] (fst x))\<rparr>) zs))
      (\<lambda>sig. Inr (sig, encodeMessage 123, proposalJson demoProposal))"
proof -
  let ?items = "demoHead @ demoNonces ids @ demoShares zs" and ?S = "demoStream (demoHead @ demoNonces ids @ demoShares zs)"
  note sh = demo_shares [OF zs(1,2)]
  have "collectUntil (demoNet ?items 1) (enoughFor toyBox demoKey Nonce ''p1'' 2) None None = Inr ?S"
    by (rule demo_collect) (simp add: demo_nonces(2) [OF ids(1,2) demo_texts_of(1)] ids(3))
  moreover have "collectUntil (demoNet ?items 2) (enoughFor toyBox demoKey Share ''p1'' 2) None None = Inr ?S"
    by (rule demo_collect) (simp add: sh(2) zs(3))
  ultimately show ?thesis
    using demo_fetch [of "demoNonces ids @ demoShares zs" 0] demo_head(2) demo_nonces(1) [OF ids(1,2) demo_texts_of(1)] sh(1)
    by (simp add: aggregateProposal_def)
qed


lemma demo_posts:
  assumes ids: "\<forall>i\<in>set ids. 0 \<le> i \<and> i < 13" "distinct ids" "t \<le> length ids" and i: "i \<in> set ids"
    and z: "snd (signShare (bjjCiphersuite toyLibs) i (runHandle toyLibs [7, 2] (demoBase i)) (polyEval toyLibs [7, 2] i) (scalarBaseMul toyLibs (polyEval toyLibs [7, 2] 0))
      (encodeMessage 123) (map (honestCommitment toyLibs) (map (runSigner toyLibs [7, 2]) (map demoBase ids)))) = Inr z"
  shows "\<exists>e. signProposal toyLibs toyBox (srNet (demoRun ids i)) Map.empty (runOptions toyLibs [7, 2] toySid demoKey ''p1'' t (demoRun ids i)) (srDraws (demoRun ids i)) = Inr e
    \<and> (enKind e, enCiphertext e) \<in> set (demoShares [(i, z)])"
proof -
  have "\<forall>r\<in>set (map (demoRun ids) ids). runOk r" using ids(1) demoBase_ok by (simp add: demo_run_same)
  moreover have "distinct (map srId (map (demoRun ids) ids))" using ids(2) by (simp add: demo_run_same comp_def)
  moreover have "snd (signShare (bjjCiphersuite toyLibs) (srId (demoRun ids i)) (runHandle toyLibs [7, 2] (demoRun ids i)) (polyEval toyLibs [7, 2] (srId (demoRun ids i)))
      (scalarBaseMul toyLibs (polyEval toyLibs [7, 2] 0)) (encodeMessage 123) (map (honestCommitment toyLibs) (map (runSigner toyLibs [7, 2]) (map (demoRun ids) ids)))) = Inr z"
    using z by (simp add: demo_run_same comp_def)
  moreover have "srGuess (demoRun ids i) = Map.empty" by (simp add: demoRun_def demoBase_def)
  ultimately show ?thesis
    using run_posts [OF toyLibs_bjj_laws toyLibs_fr_laws toyBox_laws demo_head(3,2) _ _ demo_run_served [OF ids, of toySid i], of z] i
    by (simp add: demo_run_same demo_append demoShares_def)
qed

theorem honest_proposal_signed_witness:
  "\<exists>z1 z2 sig. (\<exists>e. signProposal toyLibs toyBox (srNet (demoRun [1, 2] 1)) (srGuess (demoRun [1, 2] 1)) (runOptions toyLibs [7, 2] toySid demoKey ''p1'' 2 (demoRun [1, 2] 1))
        (srDraws (demoRun [1, 2] 1)) = Inr e \<and> enCiphertext e = shareText toyBox demoKey ''p1'' (demoRun [1, 2] 1, z1))
    \<and> aggregateProposal toyLibs toyBox (demoNet (demoHead @ demoNonces [1, 2] @ demoShares [(1, z1), (2, z2)])) demoKey ''p1''
        (scalarBaseMul toyLibs (polyEval toyLibs [7, 2] 0)) 2 demoPubs None = Inr (sig, encodeMessage 123, proposalJson demoProposal)
    \<and> frostVerify (bjjCiphersuite toyLibs) (scalarBaseMul toyLibs (polyEval toyLibs [7, 2] 0)) (encodeMessage 123) sig = Inr True"
proof -
  let ?rs = "map (demoRun [1, 2]) [1, 2]" and ?gpk = "scalarBaseMul toyLibs (polyEval toyLibs [7, 2] 0)"
  have rs: "\<forall>r\<in>set ?rs. runOk r" "\<forall>r\<in>set ?rs. runServed toyLibs toyBox [7, 2] toySid demoKey ''p1'' 2 (proposalJson demoProposal) ?rs r"
    using demoBase_ok demo_run_served [of "[1, 2]" 2] by (simp_all add: demo_run_same)
  have sok: "signerSetOk (subOrder toyLibs) (map srId ?rs)" by (simp add: demo_run_same signerSetOk_def residues_def toy_ops)
  obtain zs where zs: "length zs = length ?rs"
    "\<forall>(r, z)\<in>set (zip ?rs zs). 0 \<le> z \<and> signProposal toyLibs toyBox (srNet r) (srGuess r) (runOptions toyLibs [7, 2] toySid demoKey ''p1'' 2 r) (srDraws r)
        = fst (appendNext (srNet r 3) (snd (appendNext (srNet r 1) (srGuess r) toySid Nonce (nonceText toyLibs toyBox [7, 2] demoKey ''p1'' r) None))
            toySid Share (shareText toyBox demoKey ''p1'' (r, z)) None)"
    "\<forall>net pubs nonceEnvs shareEnvs. fetchProposal toyBox (net 0) demoKey ''p1'' = Inr (proposalJson demoProposal)
        \<and> collectUntil (net 1) (enoughFor toyBox demoKey Nonce ''p1'' 2) None None = Inr nonceEnvs
        \<and> map enCiphertext (ofKind Nonce nonceEnvs) = map (nonceText toyLibs toyBox [7, 2] demoKey ''p1'') ?rs
        \<and> collectUntil (net 2) (enoughFor toyBox demoKey Share ''p1'' 2) None None = Inr shareEnvs
        \<and> map enCiphertext (ofKind Share shareEnvs) = map (shareText toyBox demoKey ''p1'') (zip ?rs zs)
        \<and> (\<forall>r\<in>set ?rs. pubs (bigToString (srId r)) = Some (scalarBaseMul toyLibs (polyEval toyLibs [7, 2] (srId r))))
      \<longrightarrow> (\<exists>sig. aggregateProposal toyLibs toyBox net demoKey ''p1'' ?gpk 2 pubs None = Inr (sig, encodeMessage 123, proposalJson demoProposal)
          \<and> frostVerify (bjjCiphersuite toyLibs) ?gpk (encodeMessage 123) sig = Inr True)"
    using honest_proposal_signed [OF toyLibs_bjj_laws toyLibs_fr_laws toyBox_laws demo_head(3,2) rs(1) sok _ _ rs(2)] by auto
  obtain z1 z2 where z: "zs = [z1, z2]" using zs(1) by (auto simp: length_Suc_conv)
  let ?net = "demoNet (demoHead @ demoNonces [1, 2] @ demoShares [(1, z1), (2, z2)])"
  let ?S = "demoStream (demoHead @ demoNonces [1, 2] @ demoShares [(1, z1), (2, z2)])"
  have nonces: "map enCiphertext (ofKind Nonce ?S) = map (nonceText toyLibs toyBox [7, 2] demoKey ''p1'') ?rs"
    unfolding demo_texts_of by (simp add: demo_run_same)
  have shares: "map enCiphertext (ofKind Share ?S) = map (shareText toyBox demoKey ''p1'') (zip ?rs zs)"
    unfolding demo_texts_of by (simp add: demo_run_same z)
  have "collectUntil (?net 1) (enoughFor toyBox demoKey Nonce ''p1'' 2) None None = Inr ?S"
    by (rule demo_collect) (simp add: demo_nonces(2) [OF _ _ demo_texts_of(1)])
  moreover have "collectUntil (?net 2) (enoughFor toyBox demoKey Share ''p1'' 2) None None = Inr ?S"
    by (rule demo_collect) (use zs(2) in \<open>simp add: demo_shares(2) z demo_run_same\<close>)
  ultimately obtain sig where "aggregateProposal toyLibs toyBox ?net demoKey ''p1'' ?gpk 2 demoPubs None = Inr (sig, encodeMessage 123, proposalJson demoProposal)"
      "frostVerify (bjjCiphersuite toyLibs) ?gpk (encodeMessage 123) sig = Inr True"
    using zs(3) [rule_format, of ?net ?S ?S demoPubs] demo_fetch nonces shares demo_pubs by (auto simp: demo_run_same)
  then show ?thesis using zs(2) by (intro exI [of _ z1] exI [of _ z2] exI [of _ sig]) (simp add: z demo_run_same demo_append)
qed

definition lateAggregate :: "int list \<Rightarrow> (point signature \<times> byte list \<times> json) result" where
  "lateAggregate ids = aggregateProposal toyLibs toyBox (demoNet (demoHead @ demoNonces ids @ demoShares [(1, 3), (2, 10)])) demoKey ''p1''
     (scalarBaseMul toyLibs (polyEval toyLibs [7, 2] 0)) 2 demoPubs None"

lemma late_handles:
  "runSigner toyLibs [7, 2] (demoBase 1) = (1, newNonceHandle 5 10)" "runSigner toyLibs [7, 2] (demoBase 2) = (2, newNonceHandle 3 6)"
  "runSigner toyLibs [7, 2] (demoBase 3) = (3, newNonceHandle 1 2)"
  by code_simp+

lemma late_handle: "runHandle toyLibs [7, 2] (demoBase 1) = newNonceHandle 5 10" "runHandle toyLibs [7, 2] (demoBase 2) = newNonceHandle 3 6"
  using late_handles by (simp_all add: runSigner_def)

lemma late_values:
  "snd (signShare (bjjCiphersuite toyLibs) 1 (runHandle toyLibs [7, 2] (demoBase 1)) (polyEval toyLibs [7, 2] 1) (scalarBaseMul toyLibs (polyEval toyLibs [7, 2] 0))
      (encodeMessage 123) (map (honestCommitment toyLibs) (map (runSigner toyLibs [7, 2]) (map demoBase [1, 2])))) = Inr 3"
  "snd (signShare (bjjCiphersuite toyLibs) 2 (runHandle toyLibs [7, 2] (demoBase 2)) (polyEval toyLibs [7, 2] 2) (scalarBaseMul toyLibs (polyEval toyLibs [7, 2] 0))
      (encodeMessage 123) (map (honestCommitment toyLibs) (map (runSigner toyLibs [7, 2]) (map demoBase [1, 2])))) = Inr 10"
  "aggregateShares toyLibs (scalarBaseMul toyLibs (polyEval toyLibs [7, 2] 0)) (encodeMessage 123) 2 (map (honestCommitment toyLibs) (map (runSigner toyLibs [7, 2]) (map demoBase [1, 2])))
     (map (\<lambda>x. \<lparr>pId = fst x, pZ = snd x, pPublicShare = scalarBaseMul toyLibs (polyEval toyLibs [7, 2] (fst x))\<rparr>) [(1, 3), (2, 10)]) = Inr \<lparr>sigR = (11, 2), sigZ = 0\<rparr>"
  "aggregateShares toyLibs (scalarBaseMul toyLibs (polyEval toyLibs [7, 2] 0)) (encodeMessage 123) 2 (map (honestCommitment toyLibs) (map (runSigner toyLibs [7, 2]) (map demoBase [1, 2, 3])))
     (map (\<lambda>x. \<lparr>pId = fst x, pZ = snd x, pPublicShare = scalarBaseMul toyLibs (polyEval toyLibs [7, 2] (fst x))\<rparr>) [(1, 3), (2, 10)])
     = Inl (Error ''frost: signature share failed verification (identifiable abort)'')"
  unfolding list.map late_handles late_handle by code_simp+


end
