(* ===== verification/Spec2Isabelle.thy ===== *)
theory Spec2Isabelle
  imports FrostSigning Gjkr ThresholdDecrypt Scan Plan Indexer Coordinator Assemble ChainTrace ProofWire MultisigScan TxWire ProposalRuns
begin

text \<open>
  Verification of Kakure, a shielded pool for Solana with a compliance committee and multisig treasuries.

  \<^bold>\<open>The program.\<close>  A wallet (package \<open>sdk\<close>) holds notes.  A note is committed to as a leaf of a Merkle tree; spending
  one reveals its nullifier.  Each note carries a ciphertext under a content key that is an ECDH of a fresh ephemeral
  with the public key of a compliance committee; the owner finds the note again by a tag derived from a counter.  The
  \<open>indexer\<close> decodes the events of the pool and serves notes, nullifiers and sibling paths; the \<open>coordinator\<close> relays
  the messages of key generation and signing sessions; the \<open>cli\<close> runs the key ceremony of a group and its proposals
  over that relay; the \<open>prover\<close> turns assembled inputs into the witness of one of the Noir circuits; the program
  \<open>kakure_pool\<close> checks proofs on chain, keeps the tree and the nullifiers and pays out.  The parts meet as follows: a scan asks the indexer for notes and
  the key registry and the key ring for keys; a spend is planned over the notes found, opened against a witness source,
  given fresh ephemerals by the preflight, assembled, marshalled and proved; a committee or a group shares its secret by
  distributed key generation and signs or decrypts with a quorum; the SDK encodes the instruction that the pool decodes.

  \<^bold>\<open>The theories\<close>, in the order of their imports (paths under \<open>packages/\<close> unless said otherwise):
  \<^item> \<open>Prelude\<close>, \<open>ModArith\<close>: results with errors, the arithmetic of \<open>bigint\<close>, prime-field algebra and interpolation.
  \<^item> \<open>Libs\<close>: the third-party libraries as one record argument, with the named laws \<open>fr_laws\<close> and (in \<open>Bjj\<close>) \<open>bjj_laws\<close>;
    a small lawful library on which the witnesses compute.
  \<^item> \<open>Bjj\<close>, \<open>Shamir\<close>, \<open>Dkg\<close>, \<open>Gjkr\<close>, \<open>ThresholdDecrypt\<close>: \<open>sdk/src/tss\<close> and \<open>sdk/src/threshold/compliance.ts\<close>.
  \<^item> \<open>Crypto\<close>, \<open>Frost\<close>, \<open>FrostSigning\<close>: \<open>sdk/src/crypto\<close> and \<open>sdk/src/frost\<close>.
  \<^item> \<open>NoteModel\<close>, \<open>ComplianceRing\<close>, \<open>Counters\<close>, \<open>KeyRepo\<close>, \<open>Scan\<close>: notes, keys, minting, the compliance key history, the
    ephemeral counters, the key registry and the scan (\<open>sdk/src/note\<close>, \<open>state\<close>, \<open>sync\<close>).
  \<^item> \<open>Discovery\<close>, \<open>Preflight\<close>: \<open>sdk/src/discovery\<close> and \<open>sdk/src/types/ephemeral.ts\<close>.
  \<^item> \<open>Merkle\<close>, \<open>Plan\<close>, \<open>Assemble\<close>: the trees, witness sources, the spend planner and the assembly (\<open>sdk/src/merkle\<close>,
    \<open>sdk/src/tx\<close>, \<open>indexer/src/tree\<close>, \<open>prover/src/marshal.ts\<close>, \<open>prover/src/circuits\<close>).
  \<^item> \<open>Circuits\<close>: the deposit, withdraw and transfer circuits with their gadgets (\<open>circuits/standard\<close>, \<open>circuits/shared\<close>).
  \<^item> \<open>JsText\<close>, \<open>EventDecode\<close>, \<open>Indexer\<close>: \<open>indexer/src\<close>.
  \<^item> \<open>Coordinator\<close>: \<open>coordinator/src\<close>.
  \<^item> \<open>ChainTrace\<close>: the committee's walk over the spend graph (\<open>sdk/src/threshold/chainTrace.ts\<close>).
  \<^item> \<open>ProofWire\<close>: the byte layouts of proofs and public inputs (\<open>prover/src/decode.ts\<close>, \<open>compress.ts\<close>).
  \<^item> \<open>GroupKeys\<close>, \<open>Multisig\<close>, \<open>MultisigScan\<close>: the keys, messages, notes and scanner of a group (\<open>sdk/src/frost\<close>,
    \<open>sdk/src/tss/groupSecret.ts\<close>).
  \<^item> \<open>PoolState\<close>, \<open>PoolTree\<close>, \<open>PoolProgram\<close>, \<open>PoolLog\<close>: the on-chain program \<open>programs/kakure_pool/src\<close> and the client's
    view of its account; \<open>TxWire\<close>: the instructions the SDK builds for it (\<open>sdk/src/solana\<close>).
  \<^item> \<open>RelayClient\<close>: the client of the relay (\<open>cli/src/coordinatorClient.ts\<close>); \<open>Json\<close>: the texts its messages are made of.
  \<^item> \<open>Ceremony\<close>, \<open>HonestCeremony\<close>: the key ceremony (\<open>cli/src/dkg/ceremony.ts\<close>, \<open>cli/src/crypto/seal.ts\<close>,
    \<open>cli/src/commands/group.ts\<close>): its definitions and what an accepted result guarantees, and its honest runs.
  \<^item> \<open>Proposal\<close>, \<open>ProposalRuns\<close>: signing a proposal over the relay (\<open>cli/src/proposal\<close>, \<open>cli/src/crypto/sessionSeal.ts\<close>)
    and its runs.

  \<^bold>\<open>Conventions.\<close>  A class or interface is a record, its methods are functions that return the object they leave; a
  \<open>throw\<close> is \<open>Inl\<close> of an error value, also when the object had been changed before it.  An \<open>async\<close> function is the
  value its promise settles to, and an operation that the source serialises by a promise chain or a database
  transaction is one step.  A \<open>bigint\<close> is an integer, an \<open>Fr\<close> the integer it holds, a byte a natural number below 256,
  a text a list of characters.  Object identity, where the source relies on it (provenance and authorizations), is a
  number.  Random scalars and the time are arguments.

  \<^bold>\<open>Interfaces.\<close>  \<open>scalar_group\<close> (\<open>Bjj\<close>) is the group the threshold protocols need, \<open>frost_suite\<close> (\<open>Frost\<close>) the
  ciphersuite the signing protocol needs, \<open>counter_store\<close> (\<open>Counters\<close>) the durable counter, \<open>merkle_tree\<close> (\<open>Merkle\<close>)
  what a tree promises its readers, \<open>tracer\<close> (\<open>ChainTrace\<close>) the step of a walk; each is interpreted on the code's
  own definitions.

  \<^bold>\<open>Assumptions.\<close>  The laws of the third-party code are named predicates, each with a small instance on which the
  witnesses run: \<open>fr_laws\<close> and \<open>bjj_laws\<close> of the field and curve libraries, \<open>runtime_laws\<close> (\<open>PoolProgram\<close>) of the Solana
  runtime, \<open>box_laws\<close> (\<open>HonestCeremony\<close>) of Ed25519, X25519 and the authenticated cipher: a signature made with a seed
  verifies under its public key, both ends of an exchange agree, and what was sealed under a key opens under it.

  \<^bold>\<open>What is shown.\<close>
  \<^item> Threshold cryptography: reconstruction from every quorum, correct key generation with exclusion of faulty dealers,
    signing that verifies end to end, robust threshold decryption, and nonces that sign once.
  \<^item> Wallet: minted notes are found and opened by a scan, under every key of the history; counters never hand out an
    index twice; a derived ephemeral is minted at most once; plans execute; assembled spends satisfy the circuits.
  \<^item> Data structures: both Merkle trees refine one reference function of the leaves and their paths fold to the root.
  \<^item> Services: decoding inverts encoding, log scoping follows the invocation tree, ingestion survives a restart, the
    relay's streams have no gap, a waiting poll is not missed, an append lands, and collections of one session agree.
  \<^item> Groups: honest members of a ceremony finish with one key and one view key, whatever a member returns is made of
    contributions signed by their dealers and verified, and a quorum signs a proposal over the relay; two behaviours
    that break this are shown too (a dealer message posted twice, a nonce posted after signing).
  \<^item> The pool: no nullifier is spent twice whatever accounts are passed, the log is the tree, a withdrawal was proved
    for exactly what it pays, and an instruction the SDK builds makes the verifier accept exactly the proof it carries.
  \<^item> Composition: the committee opens what the wallet mints (below); the circuits accept what the wallet assembles.

  \<^bold>\<open>Bounds and fuel.\<close>  The source itself bounds the search for an even-y index (256), for the second generator (256),
  for a free tag (256), the passes of a scan (64) and the depth of the trees (32); the recursions take these bounds as
  fuel and return the source's error when it is used up.  The client of the relay retries an append 20 times and polls
  40 rounds unless the caller says otherwise, as the source does.  The search for a quadratic non-residue is given 1000
  candidates where the source loops without bound; the least non-residue of the field modulus is 5.

  \<^bold>\<open>Not modelled.\<close>  The web application and the browser extension; the commands, the encrypted key store and the
  configuration files of the command line; the HTTP and RPC transports (third-party clients; the relay's answers are an
  argument of its client); the proving run-time (generated circuits and a WASM prover); the simulators and the
  ristretto suite; the multisig circuits and the constraint encoding of the circuits; the Solana runtime and the verifier
  behind the pool.  Hash functions, ciphers and the curve are parameters, so no statement is about secrecy or collision resistance.
\<close>

section \<open>Properties that span components\<close>



section \<open>Compliance versions on chain and in the wallet\<close>

lemma version_zero_refused: "completeComplianceHistory g rs pk 0 = Inl (ComplianceKeyError ''INVALID_VERSION_SEQUENCE'')"
  by (simp add: completeComplianceHistory_def assertVersion_def COMPLIANCE_INITIAL_VERSION_def)

lemma rotation_from_zero_refused:
  assumes "rotOldVersion r = 0"
  shows "fromRotations g (r # rs) b = Inl (ComplianceKeyError ''INVALID_VERSION_SEQUENCE'')"
    "completeComplianceHistory g (r # rs) pk v = Inl (ComplianceKeyError ''INVALID_VERSION_SEQUENCE'')"
  using assms by (simp_all add: fromRotations_def completeComplianceHistory_def historyStep_def assertVersion_def COMPLIANCE_INITIAL_VERSION_def)

text \<open>C38: the wallet refuses the program's version numbers.  Initialisation stores version 0, and the first rotation logs the
  step from 0 to 1; the wallet numbers the initial key 1.  So a complete history is refused at the version a fresh pool
  stores, and every history whose first rotation is the one the program logs is refused, by both constructors.\<close>

theorem onchain_versions_refused:
  assumes "runtime_laws rt" "wfAccounts accounts" "wfIx (Initialize x y vs genesis)"
    and "process rt accounts (Initialize x y vs genesis) w = Inr (w1, evs1)"
    and "compliance_version (acData (w2 (fst (pool_pda rt)))) = compliance_version (acData (w1 (fst (pool_pda rt))))"
    and "process rt accounts' (RotateComplianceKey x' y') w2 = Inr (w3, evs3)"
  shows "completeComplianceHistory g [] pk (compliance_version (acData (w1 (fst (pool_pda rt))))) = Inl (ComplianceKeyError ''INVALID_VERSION_SEQUENCE'')
    \<and> (\<exists>v. evs3 = [ComplianceKeyRotated v (v + 1) x' y']
      \<and> (\<forall>r rs. rotOldVersion r = v \<longrightarrow> fromRotations g (r # rs) b = Inl (ComplianceKeyError ''INVALID_VERSION_SEQUENCE'')
        \<and> completeComplianceHistory g (r # rs) pk' v' = Inl (ComplianceKeyError ''INVALID_VERSION_SEQUENCE'')))"
proof -
  have v: "compliance_version (acData (w1 (fst (pool_pda rt)))) = 0"
    using initialize_version [OF assms(1)] assms(2-4) by (simp add: wfAccounts_def)
  moreover obtain u where "u = compliance_version (acData (w2 (fst (pool_pda rt))))" "evs3 = [ComplianceKeyRotated u (u + 1) x' y']"
    using rotate_event assms(6) by fastforce
  ultimately show ?thesis using assms(5) version_zero_refused rotation_from_zero_refused by simp
qed

theorem onchain_versions_refused_witness:
  "\<exists>w1 evs1 w3 evs3 v. process toyRuntime toyInitAccounts toyInitIx toyWorld = Inr (w1, evs1)
    \<and> process toyRuntime (toyKeys [toyAuthority, toyPool]) (RotateComplianceKey ZERO32 ZERO32) w1 = Inr (w3, evs3)
    \<and> evs3 = [ComplianceKeyRotated v (v + 1) ZERO32 ZERO32]
    \<and> completeComplianceHistory (0, 1) [] (0, 1) (compliance_version (acData (w1 (fst (pool_pda toyRuntime))))) = Inl (ComplianceKeyError ''INVALID_VERSION_SEQUENCE'')"
proof -
  have wf: "wfAccounts toyInitAccounts" "wfIx (Initialize (toBytesBE 32 11) (toBytesBE 32 12) (replicate 7 toyVerifier) (toBytesBE 32 5))" by code_simp+
  obtain w1 where w1: "process toyRuntime toyInitAccounts toyInitIx toyWorld = Inr (w1, [toyGenesis])" "toyReady w1 [5]" using toyInit_run by blast
  note i = w1(1) [unfolded toyInitIx_def]
  have z: "compliance_version (acData (w1 (fst (pool_pda toyRuntime)))) = 0"
    by (rule initialize_version [OF toyRuntime_laws i [unfolded process.simps]]) (use wf in \<open>auto simp: wfAccounts_def\<close>)
  obtain w3 evs3 where r: "process toyRuntime (toyKeys [toyAuthority, toyPool]) (RotateComplianceKey ZERO32 ZERO32) w1 = Inr (w3, evs3)"
    using toyRotate_run [OF w1(2)] z by (auto simp: toy_pool)
  obtain v where v: "completeComplianceHistory (0, 1) [] (0, 1) (compliance_version (acData (w1 (fst (pool_pda toyRuntime))))) = Inl (ComplianceKeyError ''INVALID_VERSION_SEQUENCE'')"
    "evs3 = [ComplianceKeyRotated v (v + 1) ZERO32 ZERO32]"
    using onchain_versions_refused [OF toyRuntime_laws wf i refl r, of "(0, 1)" "(0, 1)"] by blast
  show ?thesis
    by (rule exI [of _ w1], rule exI [of _ "[toyGenesis]"], rule exI [of _ w3], rule exI [of _ evs3], rule exI [of _ v]) (intro conjI; fact w1(1) r v)
qed

end
